(* ===== verification/Prelude.thy ===== *)
theory Prelude
  imports Main "HOL-Library.Word" "HOL-Library.Multiset"
begin

unbundle bit_operations_syntax

text \<open>
  What the components share: the machine types of the program (a fixed-width integer is a
  word of that width), the ways a C++ operation of this program can have no defined
  result (\<open>fault\<close>) and the composition of operations that may fault, and the
  object representation of integers: \<open>memcpy\<close> from an integer copies its bytes, least
  significant first, which is the representation of the platforms the build files name
  (64-bit x86, \<^verbatim>\<open>bits = 64\<close> in SConstruct).
\<close>

section \<open>Machine types\<close>

type_synonym byte = "8 word"
type_synonym u16 = "16 word"
type_synonym u32 = "32 word"
type_synonym u64 = "64 word"

named_theorems wire_simps \<open>lengths and round trips of byte representations\<close>
named_theorems net_defs \<open>the definitions that only name a step of the code\<close>

section \<open>Operations with no defined result\<close>

text \<open>
  A C++ operation whose precondition fails has undefined behaviour: the model stops there
  with the reason, so that every theorem that an operation returns a value also says that
  it stays inside what the language defines.
\<close>

datatype fault =
    Out_of_range        \<comment> \<open>an access outside the storage of a vector or array\<close>
  | Empty_container     \<comment> \<open>\<open>front\<close>, \<open>back\<close> or \<open>pop\<close> of an empty deque\<close>
  | Null_pointer        \<comment> \<open>a member call through a null smart pointer\<close>
  | Self_deadlock       \<comment> \<open>a thread locks a non-recursive mutex it holds\<close>
  | Dangling            \<comment> \<open>an access to a local variable whose function has returned\<close>
  | Signed_overflow     \<comment> \<open>a signed integer operation whose result does not fit\<close>
  | Overlapping         \<comment> \<open>\<open>memcpy\<close> between overlapping ranges\<close>
  | Terminated          \<comment> \<open>\<open>std::terminate\<close>\<close>

type_synonym 'a result = "fault + 'a"

fun and_then :: "'a result \<Rightarrow> ('a \<Rightarrow> 'b result) \<Rightarrow> 'b result" where
  "and_then (Inl e) f = Inl e"
| "and_then (Inr x) f = f x"

lemma and_then_Inr_iff: "and_then r f = Inr y \<longleftrightarrow> (\<exists>x. r = Inr x \<and> f x = Inr y)"
  by (cases r) auto

lemma and_then_assoc: "and_then (and_then r f) g = and_then r (\<lambda>x. and_then (f x) g)"
  by (cases r) auto

lemma and_then_cong [fundef_cong]:
  "r = r' \<Longrightarrow> (\<And>x. r' = Inr x \<Longrightarrow> f x = g x) \<Longrightarrow> and_then r f = and_then r' g"
  by (cases r') auto

fun fold_result :: "('b \<Rightarrow> 'a \<Rightarrow> 'a result) \<Rightarrow> 'b list \<Rightarrow> 'a \<Rightarrow> 'a result" where
  "fold_result f [] s = Inr s"
| "fold_result f (x # xs) s = and_then (f x s) (fold_result f xs)"

lemma fold_result_append:
  "fold_result f (xs @ ys) s = and_then (fold_result f xs s) (fold_result f ys)"
proof (induction xs arbitrary: s)
  case (Cons x xs)
  then show ?case by (cases "f x s") simp_all
qed simp

lemma fold_result_total:
  assumes "\<And>x s. x \<in> set xs \<Longrightarrow> f x s = Inr (g x s)"
  shows "fold_result f xs s = Inr (fold g xs s)"
  using assms by (induction xs arbitrary: s) auto

lemma fold_result_invariant:
  assumes "fold_result f xs s = Inr t" and "P s"
    and "\<And>x s t. x \<in> set xs \<Longrightarrow> P s \<Longrightarrow> f x s = Inr t \<Longrightarrow> P t"
  shows "P t"
  using assms by (induction xs arbitrary: s) (auto simp: and_then_Inr_iff)

lemma case_Inr_iff: "(case x of Inl _ \<Rightarrow> False | Inr k \<Rightarrow> P k) \<longleftrightarrow> (\<exists>k. x = Inr k \<and> P k)"
  by (cases x) auto

lemma case_Some_iff: "(case x of None \<Rightarrow> False | Some k \<Rightarrow> P k) \<longleftrightarrow> (\<exists>k. x = Some k \<and> P k)"
  by (cases x) auto

section \<open>Object representation of integers\<close>

definition le_bytes :: "nat \<Rightarrow> 'a::len word \<Rightarrow> byte list" where
  "le_bytes n w = map (\<lambda>i. ucast (drop_bit (8 * i) w)) [0..<n]"

fun of_le_bytes :: "byte list \<Rightarrow> 'a::len word" where
  "of_le_bytes [] = 0"
| "of_le_bytes (b # bs) = ucast b OR push_bit 8 (of_le_bytes bs)"

lemma length_le_bytes [simp, wire_simps]: "length (le_bytes n w) = n"
  by (simp add: le_bytes_def)

lemma le_bytes_0 [simp]: "le_bytes 0 w = []"
  by (simp add: le_bytes_def)

lemma le_bytes_Nil_iff [simp]: "le_bytes n w = [] \<longleftrightarrow> n = 0"
  by (metis length_0_conv length_le_bytes)

lemma le_bytes_Suc: "le_bytes (Suc n) w = ucast w # le_bytes n (drop_bit 8 w)"
  by (simp add: le_bytes_def upt_conv_Cons map_Suc_upt [symmetric] add.commute del: upt_Suc)

lemma bit_of_le_bytes:
  "bit (of_le_bytes bs :: 'a::len word) i \<longleftrightarrow>
     i < LENGTH('a) \<and> i div 8 < length bs \<and> bit (bs ! (i div 8)) (i mod 8)"
proof (induction bs arbitrary: i)
  case Nil
  then show ?case by simp
next
  case (Cons b bs)
  show ?case
  proof (cases "i < 8")
    case True
    then show ?thesis
      by (auto simp: bit_or_iff bit_push_bit_iff bit_ucast_iff)
  next
    case False
    then have i: "i div 8 = Suc ((i - 8) div 8)" "i mod 8 = (i - 8) mod 8"
      by (simp_all add: le_div_geq le_mod_geq)
    have "\<not> bit b i" using False by (metis bit_imp_le_length len_num1 len_bit0 not_le
        numeral_Bit0 mult_2 one_add_one numeral_One mult_numeral_1_right nat_1_add_1)
    then show ?thesis using False Cons.IH [of "i - 8"] i
      by (auto simp: bit_or_iff bit_push_bit_iff bit_ucast_iff)
  qed
qed

lemma of_le_bytes_le_bytes [simp, wire_simps]:
  assumes "LENGTH('a::len) \<le> 8 * n"
  shows "of_le_bytes (le_bytes n w) = (w :: 'a word)"
proof (rule bit_word_eqI)
  fix i assume i: "i < LENGTH('a)"
  then have "i div 8 < n" using assms by linarith
  then show "bit (of_le_bytes (le_bytes n w) :: 'a word) i = bit w i"
    using i by (simp add: bit_of_le_bytes le_bytes_def bit_ucast_iff bit_drop_bit_eq)
qed

lemma le_bytes_of_le_bytes [simp, wire_simps]:
  assumes "length bs = n" and "LENGTH('a::len) = 8 * n"
  shows "le_bytes n (of_le_bytes bs :: 'a word) = bs"
proof (rule nth_equalityI)
  fix i assume i: "i < length (le_bytes n (of_le_bytes bs :: 'a word))"
  have "bit (ucast (drop_bit (8 * i) (of_le_bytes bs :: 'a word)) :: byte) j = bit (bs ! i) j"
    if "j < 8" for j
    using that i assms by (simp add: bit_ucast_iff bit_drop_bit_eq bit_of_le_bytes)
  then have "ucast (drop_bit (8 * i) (of_le_bytes bs :: 'a word)) = bs ! i"
    by (intro bit_word_eqI) simp
  with i show "le_bytes n (of_le_bytes bs :: 'a word) ! i = bs ! i"
    by (simp add: le_bytes_def)
qed (simp add: assms(1))

lemma le_bytes_inject:
  assumes "LENGTH('a::len) \<le> 8 * n"
  shows "le_bytes n v = le_bytes n (w :: 'a word) \<longleftrightarrow> v = w"
  using assms by (metis of_le_bytes_le_bytes)

end
