(* ===== verification/NetQueue.thy ===== *)
theory NetQueue
  imports Prelude
begin

text \<open>
  \<^verbatim>\<open>Common/include/NetQueue.h\<close>: the queue every connection and application shares
  between its threads, one operation per definition. Each operation takes the queue's
  mutex for its whole body, so its effect is given here as a function of the deque; the
  theory \<open>NetQueueThreads\<close> has the locking and \<open>wait()\<close>. \<^verbatim>\<open>front\<close>, \<^verbatim>\<open>back\<close> and
  the \<^verbatim>\<open>pop\<close>s of an empty \<^verbatim>\<open>std::deque\<close> are undefined: they fault.

  The locale \<open>fifo\<close> is the contract the connections and the server's loop rely on, and
  its facts about runs of operations are interpreted on these definitions.
\<close>

section \<open>Operations\<close>

record 'a net_queue =
  m_deqQueue :: "'a list"

definition empty_queue :: "'a net_queue" where
  "empty_queue = \<lparr>m_deqQueue = []\<rparr>"

definition get_front :: "'a net_queue \<Rightarrow> 'a result" where
  "get_front q = (case m_deqQueue q of [] \<Rightarrow> Inl Empty_container | x # _ \<Rightarrow> Inr x)"

definition get_back :: "'a net_queue \<Rightarrow> 'a result" where
  "get_back q = (if m_deqQueue q = [] then Inl Empty_container else Inr (last (m_deqQueue q)))"

definition pop_front :: "'a net_queue \<Rightarrow> ('a \<times> 'a net_queue) result" where
  "pop_front q =
     (case m_deqQueue q of [] \<Rightarrow> Inl Empty_container | x # xs \<Rightarrow> Inr (x, q\<lparr>m_deqQueue := xs\<rparr>))"

definition pop_back :: "'a net_queue \<Rightarrow> ('a \<times> 'a net_queue) result" where
  "pop_back q =
     (if m_deqQueue q = [] then Inl Empty_container
      else Inr (last (m_deqQueue q), q\<lparr>m_deqQueue := butlast (m_deqQueue q)\<rparr>))"

definition push_back :: "'a \<Rightarrow> 'a net_queue \<Rightarrow> 'a net_queue" where
  "push_back x q = q\<lparr>m_deqQueue := m_deqQueue q @ [x]\<rparr>"

definition push_front :: "'a \<Rightarrow> 'a net_queue \<Rightarrow> 'a net_queue" where
  "push_front x q = q\<lparr>m_deqQueue := x # m_deqQueue q\<rparr>"

definition is_empty :: "'a net_queue \<Rightarrow> bool" where
  "is_empty q \<longleftrightarrow> m_deqQueue q = []"

definition get_count :: "'a net_queue \<Rightarrow> nat" where
  "get_count q = length (m_deqQueue q)"

definition clear :: "'a net_queue \<Rightarrow> 'a net_queue" where
  "clear q = q\<lparr>m_deqQueue := []\<rparr>"

lemmas queue_defs [net_defs] = empty_queue_def get_front_def get_back_def pop_front_def
  pop_back_def push_back_def push_front_def is_empty_def get_count_def clear_def

lemma m_deqQueue_simps [simp]:
  "m_deqQueue empty_queue = []"
  "m_deqQueue (push_back x q) = m_deqQueue q @ [x]"
  "m_deqQueue (push_front x q) = x # m_deqQueue q"
  "m_deqQueue (clear q) = []"
  by (simp_all add: queue_defs)

lemma net_queue_eqI: "m_deqQueue p = m_deqQueue q \<Longrightarrow> p = (q :: 'a net_queue)"
  by (cases p; cases q) simp

section \<open>Runs of operations\<close>

text \<open>
  Taking \<open>n\<close> items with a given \<^verbatim>\<open>pop\<close>, and putting a list of items with a given
  \<^verbatim>\<open>push\<close>: how the clients use the queue, for any of its ends.
\<close>

fun take_items :: "('q \<Rightarrow> ('a \<times> 'q) result) \<Rightarrow> nat \<Rightarrow> 'q \<Rightarrow> ('a list \<times> 'q) result" where
  "take_items pop 0 q = Inr ([], q)"
| "take_items pop (Suc n) q =
     and_then (pop q) (\<lambda>(x, q'). and_then (take_items pop n q') (\<lambda>(xs, r). Inr (x # xs, r)))"

locale fifo =
  fixes put :: "'a \<Rightarrow> 'q \<Rightarrow> 'q" and get :: "'q \<Rightarrow> ('a \<times> 'q) result"
    and emp :: "'q \<Rightarrow> bool" and items :: "'q \<Rightarrow> 'a list"
  assumes items_put: "items (put x q) = items q @ [x]"
    and get_items: "items q = x # xs \<Longrightarrow> \<exists>r. get q = Inr (x, r) \<and> items r = xs"
    and get_none: "items q = [] \<Longrightarrow> get q = Inl Empty_container"
    and emp_items: "emp q \<longleftrightarrow> items q = []"
begin

lemma items_puts: "items (fold put xs q) = items q @ xs"
  by (induction xs arbitrary: q) (simp_all add: items_put)

lemma get_fault_iff: "get q = Inl e \<longleftrightarrow> e = Empty_container \<and> emp q"
proof (cases "items q")
  case Nil
  then show ?thesis by (auto simp: get_none emp_items)
next
  case (Cons x xs)
  with get_items [OF Cons] show ?thesis by (auto simp: emp_items)
qed

lemma get_Inr: "get q = Inr (x, r) \<Longrightarrow> items q = x # items r"
  by (cases "items q") (auto simp: get_none dest!: get_items)

lemma take_items_front:
  "items q = xs @ ys \<Longrightarrow> \<exists>r. take_items get (length xs) q = Inr (xs, r) \<and> items r = ys"
proof (induction xs arbitrary: q)
  case Nil
  then show ?case by simp
next
  case (Cons x xs)
  from Cons.prems have "items q = x # (xs @ ys)" by simp
  from get_items [OF this] obtain q' where q': "get q = Inr (x, q')" "items q' = xs @ ys" by blast
  from Cons.IH [OF q'(2)] obtain r where "take_items get (length xs) q' = Inr (xs, r)"
    and "items r = ys" by blast
  with q'(1) show ?case by simp
qed

lemma take_items_fault:
  "length (items q) < n \<Longrightarrow> take_items get n q = Inl Empty_container"
proof (induction n arbitrary: q)
  case (Suc n)
  show ?case
  proof (cases "items q")
    case Nil
    then show ?thesis by (simp add: get_none)
  next
    case (Cons x xs)
    from get_items [OF this] obtain r where "get q = Inr (x, r)" "items r = xs" by blast
    with Suc Cons show ?thesis by simp
  qed
qed simp

lemma puts_then_takes:
  assumes "emp q"
  shows "\<exists>r. take_items get (length xs) (fold put xs q) = Inr (xs, r) \<and> emp r"
  using take_items_front [of "fold put xs q" xs "[]"] assms by (simp add: items_puts emp_items)

end

text \<open>The queue used at its front, and, reversed, at its back: both are first-in first-out.\<close>

interpretation front_queue: fifo push_back pop_front is_empty m_deqQueue
  by unfold_locales (auto simp: queue_defs)

interpretation back_queue: fifo push_front pop_back is_empty "\<lambda>q. rev (m_deqQueue q)"
proof unfold_locales
  fix q :: "'a net_queue" and x xs
  assume "rev (m_deqQueue q) = x # xs"
  then have "m_deqQueue q = rev xs @ [x]" by (simp add: rev_swap)
  then show "\<exists>r. pop_back q = Inr (x, r) \<and> rev (m_deqQueue r) = xs"
    by (simp add: pop_back_def)
qed (auto simp: queue_defs)

end
