(* ===== verification/NetQueueThreads.thy ===== *)
theory NetQueueThreads
  imports NetQueue
begin

text \<open>
  The locking of \<^verbatim>\<open>Common/include/NetQueue.h\<close>: any number of threads, each running one
  member function at a time, over the queue's two mutexes and its condition variable. A
  step of the relation \<open>nq_step\<close> is one statement of one thread. \<^verbatim>\<open>pop_front\<close> and
  \<^verbatim>\<open>pop_back\<close> take two steps between locking and unlocking, as in the code (read, then
  pop), so that it is the mutex that makes them atomic. \<^verbatim>\<open>push_back\<close> and
  \<^verbatim>\<open>push_front\<close> hold both mutexes; \<^verbatim>\<open>wait\<close> tests the queue under the first and waits
  under the second.

  Shown here: the mutexes exclude, every run is a sequential run of the operations of
  \<open>NetQueue\<close>, the locks never block all threads, \<^verbatim>\<open>wait\<close> leaves its loop only when
  the queue is not empty, and a notification sent between the test and the wait is lost.
\<close>

section \<open>Threads\<close>

datatype 'a qop =
    PushBack 'a | PushFront 'a | PopFront | PopBack | GetFront | GetBack
  | IsEmpty | GetCount | Clear

datatype 'a qret = RUnit | RItem 'a | RBool bool | RNat nat

fun run_op :: "'a qop \<Rightarrow> 'a net_queue \<Rightarrow> ('a qret \<times> 'a net_queue) result" where
  "run_op (PushBack x) q = Inr (RUnit, push_back x q)"
| "run_op (PushFront x) q = Inr (RUnit, push_front x q)"
| "run_op PopFront q = and_then (pop_front q) (\<lambda>(x, r). Inr (RItem x, r))"
| "run_op PopBack q = and_then (pop_back q) (\<lambda>(x, r). Inr (RItem x, r))"
| "run_op GetFront q = and_then (get_front q) (\<lambda>x. Inr (RItem x, q))"
| "run_op GetBack q = and_then (get_back q) (\<lambda>x. Inr (RItem x, q))"
| "run_op IsEmpty q = Inr (RBool (is_empty q), q)"
| "run_op GetCount q = Inr (RNat (get_count q), q)"
| "run_op Clear q = Inr (RUnit, clear q)"

fun is_push :: "'a qop \<Rightarrow> bool" where
  "is_push (PushBack _) = True"
| "is_push (PushFront _) = True"
| "is_push _ = False"

fun is_pop :: "'a qop \<Rightarrow> bool" where
  "is_pop PopFront = True"
| "is_pop PopBack = True"
| "is_pop _ = False"

text \<open>The end of the deque a pop reads first.\<close>

fun read_end :: "'a qop \<Rightarrow> 'a net_queue \<Rightarrow> 'a result" where
  "read_end PopBack q = get_back q"
| "read_end _ q = get_front q"

text \<open>Where a thread is: at which statement of which member function.\<close>

datatype 'a pc =
    Idle                      \<comment> \<open>outside the queue's functions\<close>
  | AtLockQ "'a qop"          \<comment> \<open>before \<open>scoped_lock lock(m_muxQueue)\<close>\<close>
  | AtLockB "'a qop"          \<comment> \<open>a push, before \<open>unique_lock ul(m_muxBlock)\<close>\<close>
  | AtBody "'a qop"           \<comment> \<open>before the statement on the deque\<close>
  | AtPop "'a qop" 'a         \<comment> \<open>a pop that has read the item\<close>
  | AtNotify                  \<comment> \<open>a push, before \<open>notify_one\<close>\<close>
  | AtUnlockB                 \<comment> \<open>a push, before \<open>ul\<close> is destroyed\<close>
  | AtUnlockQ                 \<comment> \<open>before \<open>lock\<close> is destroyed\<close>
  | WLockQ                    \<comment> \<open>\<open>wait\<close>, in \<open>is_empty\<close> before the lock\<close>
  | WTest                     \<comment> \<open>\<open>wait\<close>, in \<open>is_empty\<close> with the lock\<close>
  | WUnlockQ bool             \<comment> \<open>\<open>wait\<close>, \<open>is_empty\<close> about to return\<close>
  | WLockB                    \<comment> \<open>\<open>wait\<close>, in the loop, before \<open>unique_lock\<close>\<close>
  | WWait                     \<comment> \<open>\<open>wait\<close>, before \<open>m_cvBlock.wait(ul)\<close>\<close>
  | WBlocked                  \<comment> \<open>blocked in \<open>m_cvBlock.wait\<close>\<close>
  | WWoken                    \<comment> \<open>woken, before the lock is taken again\<close>
  | WUnlockB                  \<comment> \<open>\<open>wait\<close>, before \<open>ul\<close> is destroyed\<close>
  | Faulted

record 'a nq_sys =
  que :: "'a net_queue"
  muxQ :: "nat option"
  muxB :: "nat option"
  pc :: "nat \<Rightarrow> 'a pc"
  hist :: "('a qop \<times> 'a qret) list"   \<comment> \<open>the effects so far, to state properties\<close>

definition nq_init :: "'a nq_sys" where
  "nq_init = \<lparr>que = empty_queue, muxQ = None, muxB = None, pc = (\<lambda>_. Idle), hist = []\<rparr>"

definition goto :: "nat \<Rightarrow> 'a pc \<Rightarrow> 'a nq_sys \<Rightarrow> 'a nq_sys" where
  "goto t p s = s\<lparr>pc := (pc s)(t := p)\<rparr>"

definition effect :: "'a qop \<Rightarrow> 'a qret \<Rightarrow> 'a net_queue \<Rightarrow> 'a nq_sys \<Rightarrow> 'a nq_sys" where
  "effect f r q s = s\<lparr>que := q, hist := hist s @ [(f, r)]\<rparr>"

lemma goto_simps [simp]:
  "que (goto t p s) = que s" "muxQ (goto t p s) = muxQ s" "muxB (goto t p s) = muxB s"
  "hist (goto t p s) = hist s" "pc (goto t p s) = (pc s)(t := p)"
  by (simp_all add: goto_def)

lemma effect_simps [simp]:
  "que (effect f r q s) = q" "muxQ (effect f r q s) = muxQ s" "muxB (effect f r q s) = muxB s"
  "hist (effect f r q s) = hist s @ [(f, r)]" "pc (effect f r q s) = pc s"
  by (simp_all add: effect_def)

section \<open>Steps\<close>

inductive nq_step :: "'a nq_sys \<Rightarrow> 'a nq_sys \<Rightarrow> bool" where
  call: "pc s t = Idle \<Longrightarrow> nq_step s (goto t (AtLockQ f) s)"
| lockQ: "pc s t = AtLockQ f \<Longrightarrow> muxQ s = None \<Longrightarrow>
    nq_step s (goto t (if is_push f then AtLockB f else AtBody f) (s\<lparr>muxQ := Some t\<rparr>))"
| lockB: "pc s t = AtLockB f \<Longrightarrow> muxB s = None \<Longrightarrow>
    nq_step s (goto t (AtBody f) (s\<lparr>muxB := Some t\<rparr>))"
| body_push: "pc s t = AtBody f \<Longrightarrow> is_push f \<Longrightarrow> run_op f (que s) = Inr (r, q) \<Longrightarrow>
    nq_step s (goto t AtNotify (effect f r q s))"
| body_pop: "pc s t = AtBody f \<Longrightarrow> is_pop f \<Longrightarrow> read_end f (que s) = Inr x \<Longrightarrow>
    nq_step s (goto t (AtPop f x) s)"
| body_other: "pc s t = AtBody f \<Longrightarrow> \<not> is_push f \<Longrightarrow> \<not> is_pop f \<Longrightarrow>
    run_op f (que s) = Inr (r, q) \<Longrightarrow> nq_step s (goto t AtUnlockQ (effect f r q s))"
| body_fault: "pc s t = AtBody f \<Longrightarrow> run_op f (que s) = Inl e \<Longrightarrow> nq_step s (goto t Faulted s)"
| pop: "pc s t = AtPop f x \<Longrightarrow> run_op f (que s) = Inr (r, q) \<Longrightarrow>
    nq_step s (goto t AtUnlockQ (effect f (RItem x) q s))"
| notify: "pc s t = AtNotify \<Longrightarrow> pc s w = WBlocked \<Longrightarrow>
    nq_step s (goto t AtUnlockB (goto w WWoken s))"
| notify_none: "pc s t = AtNotify \<Longrightarrow> \<forall>w. pc s w \<noteq> WBlocked \<Longrightarrow> nq_step s (goto t AtUnlockB s)"
| unlockB: "pc s t = AtUnlockB \<Longrightarrow> nq_step s (goto t AtUnlockQ (s\<lparr>muxB := None\<rparr>))"
| unlockQ: "pc s t = AtUnlockQ \<Longrightarrow> nq_step s (goto t Idle (s\<lparr>muxQ := None\<rparr>))"
| wait_call: "pc s t = Idle \<Longrightarrow> nq_step s (goto t WLockQ s)"
| wait_lockQ: "pc s t = WLockQ \<Longrightarrow> muxQ s = None \<Longrightarrow> nq_step s (goto t WTest (s\<lparr>muxQ := Some t\<rparr>))"
| wait_test: "pc s t = WTest \<Longrightarrow> nq_step s (goto t (WUnlockQ (is_empty (que s))) s)"
| wait_unlockQ: "pc s t = WUnlockQ b \<Longrightarrow>
    nq_step s (goto t (if b then WLockB else Idle) (s\<lparr>muxQ := None\<rparr>))"
| wait_lockB: "pc s t = WLockB \<Longrightarrow> muxB s = None \<Longrightarrow> nq_step s (goto t WWait (s\<lparr>muxB := Some t\<rparr>))"
| wait_wait: "pc s t = WWait \<Longrightarrow> nq_step s (goto t WBlocked (s\<lparr>muxB := None\<rparr>))"
| wait_spurious: "pc s t = WBlocked \<Longrightarrow> nq_step s (goto t WWoken s)"
| wait_relock: "pc s t = WWoken \<Longrightarrow> muxB s = None \<Longrightarrow> nq_step s (goto t WUnlockB (s\<lparr>muxB := Some t\<rparr>))"
| wait_unlockB: "pc s t = WUnlockB \<Longrightarrow> nq_step s (goto t WLockQ (s\<lparr>muxB := None\<rparr>))"

inductive nq_reach :: "'a nq_sys \<Rightarrow> bool" where
  start: "nq_reach nq_init"
| step: "nq_reach s \<Longrightarrow> nq_step s s' \<Longrightarrow> nq_reach s'"

section \<open>What each lock guards\<close>

fun holdsQ :: "'a pc \<Rightarrow> bool" where
  "holdsQ (AtLockB f) = True"
| "holdsQ (AtBody f) = True"
| "holdsQ (AtPop f x) = True"
| "holdsQ AtNotify = True"
| "holdsQ AtUnlockB = True"
| "holdsQ AtUnlockQ = True"
| "holdsQ WTest = True"
| "holdsQ (WUnlockQ b) = True"
| "holdsQ Faulted = True"
| "holdsQ _ = False"

fun holdsB :: "'a pc \<Rightarrow> bool" where
  "holdsB (AtBody f) = is_push f"
| "holdsB AtNotify = True"
| "holdsB AtUnlockB = True"
| "holdsB WWait = True"
| "holdsB WUnlockB = True"
| "holdsB _ = False"

text \<open>What a thread that holds the queue's mutex knows about the queue.\<close>

fun knows :: "'a pc \<Rightarrow> 'a net_queue \<Rightarrow> bool" where
  "knows (AtPop f x) q \<longleftrightarrow> is_pop f \<and> (\<exists>r. run_op f q = Inr (RItem x, r))"
| "knows (AtLockB f) q \<longleftrightarrow> is_push f"
| "knows (WUnlockQ b) q \<longleftrightarrow> b = is_empty q"
| "knows _ q \<longleftrightarrow> True"

definition lock_inv :: "'a nq_sys \<Rightarrow> bool" where
  "lock_inv s \<longleftrightarrow>
     (\<forall>t. (muxQ s = Some t) = holdsQ (pc s t)) \<and>
     (\<forall>t. (muxB s = Some t) = holdsB (pc s t)) \<and>
     (\<forall>t. knows (pc s t) (que s))"

lemma lock_invI:
  assumes "\<And>t. (muxQ s = Some t) = holdsQ (pc s t)" and "\<And>t. (muxB s = Some t) = holdsB (pc s t)"
    and "\<And>t. knows (pc s t) (que s)"
  shows "lock_inv s"
  using assms by (simp add: lock_inv_def)

lemma lock_invD:
  assumes "lock_inv s"
  shows "(muxQ s = Some t) = holdsQ (pc s t)" "(muxB s = Some t) = holdsB (pc s t)"
    "knows (pc s t) (que s)"
  using assms by (auto simp: lock_inv_def)

text \<open>A thread without the queue's mutex knows nothing of the queue, so others may change it.\<close>

lemma knows_unlocked: "\<not> holdsQ p \<Longrightarrow> knows p q"
  by (cases p) simp_all

lemma knows_others:
  assumes "lock_inv s" and "holdsQ (pc s t)" and "u \<noteq> t"
  shows "knows (pc s u) q"
  using assms by (metis knows_unlocked lock_invD(1) option.inject)

lemma read_end_run_op:
  "is_pop f \<Longrightarrow> read_end f q = Inr x \<Longrightarrow> \<exists>r. run_op f q = Inr (RItem x, r)"
  by (cases f) (auto simp: queue_defs split: list.splits if_splits)

lemma lock_inv_init: "lock_inv nq_init"
  by (simp add: lock_inv_def nq_init_def)

text \<open>
  A step that moves one thread keeps the invariant when the mutexes change as that
  thread's old and new positions say.
\<close>

lemma lock_inv_goto:
  assumes inv: "lock_inv s"
    and pc: "pc s1 = pc s"
    and Q: "muxQ s1 = (if holdsQ p then Some t else if holdsQ (pc s t) then None else muxQ s)"
    and B: "muxB s1 = (if holdsB p then Some t else if holdsB (pc s t) then None else muxB s)"
    and free: "holdsQ p \<Longrightarrow> muxQ s = None \<or> holdsQ (pc s t)"
      "holdsB p \<Longrightarrow> muxB s = None \<or> holdsB (pc s t)"
    and K: "knows p (que s1)"
    and q: "que s1 = que s \<or> holdsQ (pc s t)"
  shows "lock_inv (goto t p s1)"
proof (rule lock_invI)
  fix u
  note D = lock_invD [OF inv, of t] lock_invD [OF inv, of u]
  show "(muxQ (goto t p s1) = Some u) = holdsQ (pc (goto t p s1) u)"
    using D Q pc free(1) by (auto split: if_splits)
  show "(muxB (goto t p s1) = Some u) = holdsB (pc (goto t p s1) u)"
    using D B pc free(2) by (auto split: if_splits)
  show "knows (pc (goto t p s1) u) (que (goto t p s1))"
    using K q pc D knows_others [OF inv] by auto
qed

lemma is_pop_not_push: "is_pop f \<Longrightarrow> \<not> is_push f"
  by (cases f) simp_all

lemma run_op_fault_not_push: "run_op f q = Inl e \<Longrightarrow> \<not> is_push f"
  by (cases f) simp_all

lemma AtLockB_push: "lock_inv s \<Longrightarrow> pc s t = AtLockB f \<Longrightarrow> is_push f"
  using lock_invD(3) [of s t] by simp

lemma lock_inv_step: "nq_step s s' \<Longrightarrow> lock_inv s \<Longrightarrow> lock_inv s'"
proof (induction rule: nq_step.induct)
  case (notify s t w)
  then have "w \<noteq> t" by auto
  with notify show ?case by (auto simp: lock_inv_def)
qed (rule lock_inv_goto, assumption,
  (auto simp: lock_invD is_pop_not_push run_op_fault_not_push read_end_run_op AtLockB_push
    split: if_splits)[7])+

lemma lock_inv_reach: "nq_reach s \<Longrightarrow> lock_inv s"
  by (induction rule: nq_reach.induct) (auto intro: lock_inv_init lock_inv_step)

section \<open>Mutual exclusion\<close>

lemma holdsQ_unique: "lock_inv s \<Longrightarrow> holdsQ (pc s t) \<Longrightarrow> holdsQ (pc s u) \<Longrightarrow> t = u"
  by (metis lock_invD(1) option.inject)

lemma holdsB_unique: "lock_inv s \<Longrightarrow> holdsB (pc s t) \<Longrightarrow> holdsB (pc s u) \<Longrightarrow> t = u"
  by (metis lock_invD(2) option.inject)

section \<open>Every run is a sequential run\<close>

text \<open>
  The history in the order of its effects, replayed with the sequential operations: each
  must return what the threads saw.
\<close>

fun replay :: "('a qop \<times> 'a qret) list \<Rightarrow> 'a net_queue \<Rightarrow> 'a net_queue option" where
  "replay [] q = Some q"
| "replay ((f, r) # h) q =
     (case run_op f q of
        Inl e \<Rightarrow> None
      | Inr (r', q') \<Rightarrow> if r' = r then replay h q' else None)"

lemma replay_append: "replay (h @ h') q = Option.bind (replay h q) (replay h')"
  by (induction h q rule: replay.induct) (auto split: sum.split)

lemma replay_effect:
  assumes "replay (hist s) empty_queue = Some (que s)" and "run_op f (que s) = Inr (r, q)"
  shows "replay (hist (effect f r q s)) empty_queue = Some (que (effect f r q s))"
  using assms by (simp add: replay_append)

lemma replay_step:
  assumes "nq_step s s'" and "lock_inv s" and "replay (hist s) empty_queue = Some (que s)"
  shows "replay (hist s') empty_queue = Some (que s')"
  using assms
proof (induction rule: nq_step.induct)
  case (pop s t f x r q)
  then have "r = RItem x" using lock_invD(3) [of s t] by auto
  with pop replay_effect [of s f r q] show ?case by simp
qed (simp_all add: replay_append)

lemma replay_reach: "nq_reach s \<Longrightarrow> replay (hist s) empty_queue = Some (que s)"
proof (induction rule: nq_reach.induct)
  case start
  show ?case by (simp add: nq_init_def)
next
  case (step s s')
  then show ?case by (blast intro: replay_step lock_inv_reach)
qed

section \<open>Progress\<close>

fun wantsQ :: "'a pc \<Rightarrow> bool" where
  "wantsQ (AtLockQ f) = True"
| "wantsQ WLockQ = True"
| "wantsQ _ = False"

fun wantsB :: "'a pc \<Rightarrow> bool" where
  "wantsB (AtLockB f) = True"
| "wantsB WLockB = True"
| "wantsB WWoken = True"
| "wantsB _ = False"

lemma pop_reads: "is_pop f \<Longrightarrow> run_op f q = Inr rq \<Longrightarrow> \<exists>x. read_end f q = Inr x"
  by (cases f) (auto simp: queue_defs split: list.splits if_splits)

lemma body_step:
  assumes "pc s t = AtBody f"
  shows "\<exists>s'. nq_step s s' \<and> pc s' t \<noteq> pc s t"
proof (cases "run_op f (que s)")
  case (Inl e)
  with assms show ?thesis by (intro exI [of _ "goto t Faulted s"]) (simp add: body_fault)
next
  case (Inr rq)
  obtain r q where rq: "rq = (r, q)" by (cases rq)
  consider "is_push f" | "is_pop f" | "\<not> is_push f" "\<not> is_pop f" by blast
  then show ?thesis
  proof cases
    case 1
    with assms Inr rq show ?thesis
      by (intro exI [of _ "goto t AtNotify (effect f r q s)"]) (simp add: body_push)
  next
    case 2
    with Inr pop_reads obtain x where "read_end f (que s) = Inr x" by blast
    with assms 2 show ?thesis by (intro exI [of _ "goto t (AtPop f x) s"]) (simp add: body_pop)
  next
    case 3
    with assms Inr rq show ?thesis
      by (intro exI [of _ "goto t AtUnlockQ (effect f r q s)"]) (simp add: body_other)
  qed
qed

lemma notify_step:
  assumes "pc s t = AtNotify"
  shows "\<exists>s'. nq_step s s' \<and> pc s' t \<noteq> pc s t"
proof (cases "\<exists>w. pc s w = WBlocked")
  case True
  then obtain w where "pc s w = WBlocked" by blast
  with assms show ?thesis
    by (intro exI [of _ "goto t AtUnlockB (goto w WWoken s)"]) (simp add: nq_step.notify)
next
  case False
  with assms show ?thesis by (intro exI [of _ "goto t AtUnlockB s"]) (simp add: notify_none)
qed

lemma unblocked_step:
  assumes inv: "lock_inv s" and pc: "pc s t \<notin> {Idle, WBlocked, Faulted}"
    and Q: "wantsQ (pc s t) \<Longrightarrow> muxQ s = None" and B: "wantsB (pc s t) \<Longrightarrow> muxB s = None"
  shows "\<exists>s'. nq_step s s' \<and> pc s' t \<noteq> pc s t"
proof (cases "pc s t")
  case (AtLockQ f)
  with Q lockQ [of s t f] show ?thesis
    by (intro exI [of _ "goto t (if is_push f then AtLockB f else AtBody f) (s\<lparr>muxQ := Some t\<rparr>)"]) simp
next
  case (AtBody f)
  then show ?thesis by (rule body_step)
next
  case (AtPop f x)
  with lock_invD(3) [OF inv, of t] obtain q where "run_op f (que s) = Inr (RItem x, q)" by auto
  with AtPop show ?thesis
    by (intro exI [of _ "goto t AtUnlockQ (effect f (RItem x) q s)"]) (simp add: nq_step.pop)
next
  case AtNotify
  then show ?thesis by (rule notify_step)
next
  case (WUnlockQ b)
  with wait_unlockQ [of s t b] show ?thesis
    by (intro exI [of _ "goto t (if b then WLockB else Idle) (s\<lparr>muxQ := None\<rparr>)"]) simp
qed (insert assms, force dest: nq_step.intros(3,11,12,14,15,17,18,20,21))+

text \<open>
  Unless some thread has run into undefined behaviour, a thread that is inside a function
  of the queue and not blocked on the condition variable never waits for ever on a mutex:
  it, or the holder of the mutex it wants, can take its next step.
\<close>

lemma some_thread_steps:
  assumes inv: "lock_inv s" and nf: "\<And>u. pc s u \<noteq> Faulted" and pc: "pc s t \<notin> {Idle, WBlocked}"
  shows "\<exists>u s'. pc s u \<notin> {Idle, WBlocked} \<and> nq_step s s' \<and> pc s' u \<noteq> pc s u"
proof -
  have holderB: "\<exists>s'. nq_step s s' \<and> pc s' u \<noteq> pc s u" if "holdsB (pc s u)" for u
    using that nf [of u] by (intro unblocked_step [OF inv]) (cases "pc s u"; auto)+
  have wantB: "\<exists>u s'. pc s u \<notin> {Idle, WBlocked} \<and> nq_step s s' \<and> pc s' u \<noteq> pc s u"
    if "pc s v \<notin> {Idle, WBlocked}" "wantsQ (pc s v) \<Longrightarrow> muxQ s = None" for v
  proof (cases "muxB s")
    case None
    have "\<exists>s'. nq_step s s' \<and> pc s' v \<noteq> pc s v"
      using that nf [of v] None by (intro unblocked_step [OF inv]) auto
    with that(1) show ?thesis by blast
  next
    case (Some u)
    with lock_invD(2) [OF inv, of u] have "holdsB (pc s u)" by simp
    moreover from this have "pc s u \<notin> {Idle, WBlocked}" by auto
    ultimately show ?thesis using holderB by blast
  qed
  show ?thesis
  proof (cases "muxQ s")
    case None
    with pc wantB show ?thesis by blast
  next
    case (Some u)
    with lock_invD(1) [OF inv, of u] have "holdsQ (pc s u)" by simp
    then have "pc s u \<notin> {Idle, WBlocked}" "\<not> wantsQ (pc s u)" by (cases "pc s u"; simp)+
    with wantB show ?thesis by blast
  qed
qed

section \<open>A run of two threads\<close>

text \<open>
  The server's \<^verbatim>\<open>main\<close> (thread 0, in \<^verbatim>\<open>wait\<close>) and a connection's handler
  (thread 1, in \<^verbatim>\<open>push_back\<close>), from the start.
\<close>

definition two :: "'a list \<Rightarrow> nat option \<Rightarrow> nat option \<Rightarrow> 'a pc \<Rightarrow> 'a pc \<Rightarrow>
    ('a qop \<times> 'a qret) list \<Rightarrow> 'a nq_sys" where
  "two xs q b p0 p1 h =
     \<lparr>que = \<lparr>m_deqQueue = xs\<rparr>, muxQ = q, muxB = b,
      pc = (\<lambda>t. if t = 0 then p0 else if t = 1 then p1 else Idle), hist = h\<rparr>"

lemma two_simps [simp]:
  "que (two xs q b p0 p1 h) = \<lparr>m_deqQueue = xs\<rparr>" "muxQ (two xs q b p0 p1 h) = q"
  "muxB (two xs q b p0 p1 h) = b" "pc (two xs q b p0 p1 h) 0 = p0"
  "pc (two xs q b p0 p1 h) (Suc 0) = p1" "t \<noteq> 0 \<Longrightarrow> t \<noteq> 1 \<Longrightarrow> pc (two xs q b p0 p1 h) t = Idle"
  "hist (two xs q b p0 p1 h) = h"
  "(two xs q b p0 p1 h)\<lparr>muxQ := q'\<rparr> = two xs q' b p0 p1 h"
  "(two xs q b p0 p1 h)\<lparr>muxB := b'\<rparr> = two xs q b' p0 p1 h"
  "goto 0 p (two xs q b p0 p1 h) = two xs q b p p1 h"
  "goto (Suc 0) p (two xs q b p0 p1 h) = two xs q b p0 p h"
  "effect f r \<lparr>m_deqQueue = ys\<rparr> (two xs q b p0 p1 h) = two ys q b p0 p1 (h @ [(f, r)])"
  by (auto simp: two_def goto_def effect_def)

lemma two_pc: "pc (two xs q b p0 p1 h) t = (if t = 0 then p0 else if t = 1 then p1 else Idle)"
  by (simp add: two_def)

lemma two_start: "nq_reach (two [] None None Idle Idle [] :: 'a nq_sys)"
proof -
  have "(two [] None None Idle Idle [] :: 'a nq_sys) = nq_init"
    by (auto simp: two_def nq_init_def empty_queue_def)
  then show ?thesis by (simp add: nq_reach.start)
qed

lemma two_testing: "nq_reach (two [] (Some 0) None WTest Idle [])"
  using nq_reach.step [OF nq_reach.step [OF two_start wait_call [of _ 0]] wait_lockQ [of _ 0]]
  by simp

lemma two_decided: "nq_reach (two [] None None WLockB Idle [])"
  using nq_reach.step [OF nq_reach.step [OF two_testing wait_test [of _ 0]] wait_unlockQ [of _ 0 True]]
  by (simp add: is_empty_def)

lemma two_pushing: "nq_reach (two [] (Some 1) (Some 1) WLockB (AtBody (PushBack x)) [])"
  using nq_reach.step [OF nq_reach.step [OF nq_reach.step [OF two_decided call [of _ 1 "PushBack x"]]
        lockQ [of _ 1 "PushBack x"]] lockB [of _ 1 "PushBack x"]]
  by simp

lemma two_notifying: "nq_reach (two [x] (Some 1) (Some 1) WLockB AtNotify [(PushBack x, RUnit)])"
  using nq_reach.step [OF two_pushing [of x] body_push [of _ 1 "PushBack x"]]
  by (simp add: push_back_def)

lemma two_pushed: "nq_reach (two [x] None None WLockB Idle [(PushBack x, RUnit)])"
proof -
  have "\<forall>w. pc (two [x] (Some 1) (Some 1) WLockB AtNotify [(PushBack x, RUnit)]) w \<noteq> WBlocked"
    by (simp add: two_pc)
  from nq_reach.step [OF nq_reach.step [OF nq_reach.step [OF two_notifying [of x]
        notify_none [of _ 1]] unlockB [of _ 1]] unlockQ [of _ 1]] this
  show ?thesis by simp
qed

lemma two_lost: "nq_reach (two [x] None None WBlocked Idle [(PushBack x, RUnit)])"
  using nq_reach.step [OF nq_reach.step [OF two_pushed [of x] wait_lockB [of _ 0]] wait_wait [of _ 0]]
  by simp

lemma two_second_wait: "nq_reach (two [x] (Some 0) None (WUnlockQ False) Idle [(PushBack x, RUnit)])"
  using nq_reach.step [OF nq_reach.step [OF nq_reach.step [OF nq_reach.step [OF nq_reach.step
      [OF two_lost [of x] wait_spurious [of _ 0]] wait_relock [of _ 0]] wait_unlockB [of _ 0]]
      wait_lockQ [of _ 0]] wait_test [of _ 0]]
  by (simp add: is_empty_def)

section \<open>Properties\<close>

text \<open>Two threads are never both between locking and unlocking the queue's mutex.\<close>

theorem queue_mutual_exclusion:
  assumes "nq_reach s" and "holdsQ (pc s t)" and "holdsQ (pc s u)"
  shows "t = u"
  using assms lock_inv_reach holdsQ_unique by blast

lemma queue_mutual_exclusion_witness:
  "nq_reach (two [] (Some 0) None WTest Idle [] :: nat nq_sys) \<and> (0::nat) = 0"
  using queue_mutual_exclusion [OF two_testing, of 0 0] two_testing by simp

text \<open>
  C3. Whatever the interleaving, the items the threads saw and the deque they left are those of
  the operations run one after the other in the order of their effects.
\<close>

theorem queue_linearizable:
  assumes "nq_reach s"
  shows "replay (hist s) empty_queue = Some (que s)"
  using assms by (rule replay_reach)

lemma queue_linearizable_witness:
  "replay [(PushBack (7::nat), RUnit)] empty_queue = Some \<lparr>m_deqQueue = [7]\<rparr>"
  using queue_linearizable [OF two_lost [of 7]] by simp

text \<open>
  The two mutexes cannot block the queue: while a thread is inside a member function and
  not waiting on the condition variable, some such thread can take its next statement.
\<close>

theorem queue_no_deadlock:
  assumes "nq_reach s" and "\<And>u. pc s u \<noteq> Faulted" and "pc s t \<notin> {Idle, WBlocked}"
  shows "\<exists>u s'. pc s u \<notin> {Idle, WBlocked} \<and> nq_step s s' \<and> pc s' u \<noteq> pc s u"
  using some_thread_steps [OF lock_inv_reach] assms by blast

lemma queue_no_deadlock_witness:
  "\<exists>u s'. nq_step (two [] (Some 1) (Some 1) WLockB (AtBody (PushBack 7)) [] :: nat nq_sys) s' \<and>
     pc s' u \<noteq> pc (two [] (Some 1) (Some 1) WLockB (AtBody (PushBack (7::nat))) []) u"
proof -
  have "\<And>u. pc (two [] (Some 1) (Some 1) WLockB (AtBody (PushBack (7::nat))) []) u \<noteq> Faulted"
    by (simp add: two_pc)
  from queue_no_deadlock [OF two_pushing this, of 0] show ?thesis by auto
qed

text \<open>\<^verbatim>\<open>wait()\<close> leaves its loop only when it has seen the queue hold an item.\<close>

theorem wait_returns_nonempty:
  assumes "nq_reach s" and "pc s t = WUnlockQ b" and "nq_step s s'" and "pc s' t = Idle"
  shows "m_deqQueue (que s) \<noteq> [] \<and> que s' = que s"
proof -
  have b: "b = is_empty (que s)" using lock_invD(3) [OF lock_inv_reach [OF assms(1)], of t] assms(2) by simp
  from assms(3,2,4) b show ?thesis
    by (cases rule: nq_step.cases) (auto simp: is_empty_def split: if_splits)
qed

lemma wait_returns_nonempty_witness:
  "que (two [7::nat] None None Idle Idle [(PushBack 7, RUnit)]) = \<lparr>m_deqQueue = [7]\<rparr>"
  using wait_returns_nonempty [OF two_second_wait [of 7], of 0 False
      "two [7] None None Idle Idle [(PushBack 7, RUnit)]"]
    wait_unlockQ [of "two [7] (Some 0) None (WUnlockQ False) Idle [(PushBack 7, RUnit)]" 0 False]
  by simp

text \<open>
  C10. A notification can be lost: \<^verbatim>\<open>wait\<close> tests the queue under one mutex and waits under
  another, so an item pushed in between leaves the waiter blocked on a queue that is not empty,
  with no thread left to wake it: the only step it can take is a spurious wake-up.
\<close>

theorem wait_can_lose_wakeup:
  "\<exists>s. nq_reach s \<and> m_deqQueue (que s) = [x] \<and> pc s 0 = WBlocked \<and>
     {t. pc s t \<noteq> Idle} = {0} \<and>
     {s'. nq_step s s' \<and> pc s' 0 \<noteq> WBlocked} \<subseteq> {goto 0 WWoken s}"
proof (intro exI conjI)
  let ?s = "two [x] None None WBlocked Idle [(PushBack x, RUnit)]"
  show "nq_reach ?s" by (rule two_lost)
  show idle: "{t. pc ?s t \<noteq> Idle} = {0}" by (auto simp: two_pc split: if_splits)
  show "{s'. nq_step ?s s' \<and> pc s' 0 \<noteq> WBlocked} \<subseteq> {goto 0 WWoken ?s}"
    by (auto elim!: nq_step.cases simp: two_pc split: if_splits)
qed simp_all

end
