(* ===== verification/NetPacket.thy ===== *)
theory NetPacket
  imports Prelude
begin

text \<open>
  \<^verbatim>\<open>Common/include/NetPacket.h\<close>: the command codes, the packet header and
  the packet with its two streaming operators. \<^verbatim>\<open>operator<<\<close> appends the object
  representation of a datum to the body, \<^verbatim>\<open>operator>>\<close> takes one off its end, and both
  recompute the size in the header. The template parameter is always \<^verbatim>\<open>CMD\<close>.

  The lemmas show that the header's size stays that of the body, that the operators are
  inverse to each other and fault exactly on a short body, and that a header survives its
  eight bytes on the wire.
\<close>

section \<open>Command codes\<close>

datatype CMD =
    Invalid | AcceptTCPConnection | SelfEnterWorld | PlyEnterWorld
  | ServerMessage | MovePlayer | Ping | MessageAll

fun cmd_value :: "CMD \<Rightarrow> u16" where
  "cmd_value Invalid = 0"
| "cmd_value AcceptTCPConnection = 1"
| "cmd_value SelfEnterWorld = 2"
| "cmd_value PlyEnterWorld = 3"
| "cmd_value ServerMessage = 4"
| "cmd_value MovePlayer = 5"
| "cmd_value Ping = 6"
| "cmd_value MessageAll = 7"

lemma cmd_value_inject [simp]: "cmd_value c = cmd_value d \<longleftrightarrow> c = d"
  by (cases c; cases d) simp_all

instantiation CMD :: linorder
begin

definition less_eq_CMD :: "CMD \<Rightarrow> CMD \<Rightarrow> bool" where
  "less_eq_CMD c d \<longleftrightarrow> cmd_value c \<le> cmd_value d"

definition less_CMD :: "CMD \<Rightarrow> CMD \<Rightarrow> bool" where
  "less_CMD c d \<longleftrightarrow> cmd_value c < cmd_value d"

instance
  by standard (auto simp: less_eq_CMD_def less_CMD_def order_less_le)

end

section \<open>Header and packet\<close>

text \<open>
  \<^verbatim>\<open>cmdID\<close> has the enumeration's underlying type: a header read from the network, or
  written by \<^verbatim>\<open>static_cast<CMD>\<close>, holds any 16-bit value.
\<close>

record packet_header =
  cmdID :: u16
  hsize :: u32

record packet =
  header :: packet_header
  body :: "byte list"

text \<open>\<^verbatim>\<open>PacketHeader<T> header{}\<close> value-initialises both fields.\<close>

definition new_packet :: packet where
  "new_packet = \<lparr>header = \<lparr>cmdID = 0, hsize = 0\<rparr>, body = []\<rparr>"

definition set_cmd :: "u16 \<Rightarrow> packet \<Rightarrow> packet" where
  "set_cmd c pkt = pkt\<lparr>header := (header pkt)\<lparr>cmdID := c\<rparr>\<rparr>"

definition get_packet_len :: "packet \<Rightarrow> u32" where
  "get_packet_len pkt = of_nat (length (body pkt))"

definition set_body :: "byte list \<Rightarrow> packet \<Rightarrow> packet" where
  "set_body bs pkt =
     (let p = pkt\<lparr>body := bs\<rparr> in p\<lparr>header := (header p)\<lparr>hsize := get_packet_len p\<rparr>\<rparr>)"

text \<open>
  The operators on a datum of \<open>n\<close> bytes. In \<^verbatim>\<open>>>\<close> the subtraction
  \<^verbatim>\<open>body.size() - sizeof(DataType)\<close> is on \<^verbatim>\<open>size_t\<close>: on a short body it wraps and the
  \<^verbatim>\<open>memcpy\<close> reads outside the vector.
\<close>

definition push_data :: "byte list \<Rightarrow> packet \<Rightarrow> packet" where
  "push_data d pkt = set_body (body pkt @ d) pkt"

definition pull_data :: "nat \<Rightarrow> packet \<Rightarrow> (byte list \<times> packet) result" where
  "pull_data n pkt =
     (if length (body pkt) < n then Inl Out_of_range
      else let i = length (body pkt) - n
           in Inr (drop i (body pkt), set_body (take i (body pkt)) pkt))"

definition wf_packet :: "packet \<Rightarrow> bool" where
  "wf_packet pkt \<longleftrightarrow> hsize (header pkt) = get_packet_len pkt"

lemmas packet_defs [net_defs] = new_packet_def set_cmd_def get_packet_len_def set_body_def
  push_data_def pull_data_def

lemma body_set_body [simp]: "body (set_body bs pkt) = bs"
  by (simp add: set_body_def Let_def)

lemma cmdID_set_body [simp]: "cmdID (header (set_body bs pkt)) = cmdID (header pkt)"
  by (simp add: set_body_def Let_def)

lemma hsize_set_body [simp]: "hsize (header (set_body bs pkt)) = of_nat (length bs)"
  by (simp add: set_body_def get_packet_len_def Let_def)

lemma set_cmd_simps [simp]:
  "body (set_cmd c pkt) = body pkt"
  "cmdID (header (set_cmd c pkt)) = c"
  "hsize (header (set_cmd c pkt)) = hsize (header pkt)"
  by (simp_all add: set_cmd_def)

lemma new_packet_simps [simp]:
  "body new_packet = []" "cmdID (header new_packet) = 0" "hsize (header new_packet) = 0"
  by (simp_all add: new_packet_def)

lemma push_data_simps [simp]:
  "body (push_data d pkt) = body pkt @ d"
  "cmdID (header (push_data d pkt)) = cmdID (header pkt)"
  "hsize (header (push_data d pkt)) = of_nat (length (body pkt) + length d)"
  by (simp_all add: push_data_def)

lemma packet_eqI:
  fixes p q :: packet
  assumes "cmdID (header p) = cmdID (header q)" and "hsize (header p) = hsize (header q)"
    and "body p = body q"
  shows "p = q"
  using assms by (cases p; cases q; cases "header p"; cases "header q") simp

lemma set_body_idem [simp]: "set_body bs (set_body cs pkt) = set_body bs pkt"
  by (rule packet_eqI) simp_all

lemma wf_set_body [simp]: "wf_packet (set_body bs pkt)"
  by (simp add: wf_packet_def get_packet_len_def)

lemma wf_new_packet [simp]: "wf_packet new_packet"
  by (simp add: wf_packet_def get_packet_len_def)

lemma wf_set_cmd [simp]: "wf_packet (set_cmd c pkt) \<longleftrightarrow> wf_packet pkt"
  by (simp add: wf_packet_def get_packet_len_def)

lemma wf_push_data [simp]: "wf_packet (push_data d pkt)"
  by (simp add: push_data_def)

lemma set_body_self: "wf_packet pkt \<Longrightarrow> set_body (body pkt) pkt = pkt"
  by (rule packet_eqI) (simp_all add: wf_packet_def get_packet_len_def)

lemma pull_data_Inr_iff:
  "pull_data n pkt = Inr (d, p) \<longleftrightarrow>
     (\<exists>bs. body pkt = bs @ d \<and> length d = n \<and> p = set_body bs pkt)"
  by (auto simp: pull_data_def Let_def split: if_splits)
     (metis append_take_drop_id length_drop diff_diff_cancel)

lemma pull_data_Inl_iff: "pull_data n pkt = Inl e \<longleftrightarrow> e = Out_of_range \<and> length (body pkt) < n"
  by (auto simp: pull_data_def Let_def)

lemma pull_push_data: "length d = n \<Longrightarrow> pull_data n (push_data d pkt) = Inr (d, set_body (body pkt) pkt)"
  by (subst pull_data_Inr_iff) (auto simp: push_data_def)

section \<open>Data of a fixed size\<close>

text \<open>
  The operators are templates over a standard-layout type: what a client relies on is
  that its values have representations of one size, from which they can be read back.
\<close>

definition push_as :: "('d \<Rightarrow> byte list) \<Rightarrow> 'd \<Rightarrow> packet \<Rightarrow> packet" where
  "push_as rep d pkt = push_data (rep d) pkt"

definition pull_as :: "(byte list \<Rightarrow> 'd) \<Rightarrow> nat \<Rightarrow> packet \<Rightarrow> ('d \<times> packet) result" where
  "pull_as unrep n pkt = and_then (pull_data n pkt) (\<lambda>(bs, p). Inr (unrep bs, p))"

locale data_type =
  fixes rep :: "'d \<Rightarrow> byte list" and unrep :: "byte list \<Rightarrow> 'd" and sz :: nat
  assumes length_rep: "length (rep d) = sz"
    and unrep_rep: "unrep (rep d) = d"
begin

lemma pull_push: "pull_as unrep sz (push_as rep d pkt) = Inr (d, set_body (body pkt) pkt)"
  by (simp add: pull_as_def push_as_def pull_push_data length_rep unrep_rep)

lemma pull_rep:
  "body pkt = bs @ rep d \<Longrightarrow> pull_as unrep sz pkt = Inr (d, set_body bs pkt)"
  by (simp add: pull_as_def pull_data_def length_rep unrep_rep Let_def)

lemma pull_short: "length (body pkt) < sz \<Longrightarrow> pull_as unrep sz pkt = Inl Out_of_range"
  by (simp add: pull_as_def pull_data_def)

lemma pull_wf: "pull_as unrep sz pkt = Inr (d, p) \<Longrightarrow> wf_packet p"
  by (auto simp: pull_as_def and_then_Inr_iff pull_data_Inr_iff)

lemma pull_length:
  "pull_as unrep sz pkt = Inr (d, p) \<Longrightarrow> length (body pkt) = length (body p) + sz"
  by (auto simp: pull_as_def and_then_Inr_iff pull_data_Inr_iff)

lemma pull_total:
  "sz \<le> length (body pkt) \<Longrightarrow> \<exists>d. pull_as unrep sz pkt = Inr (d, set_body (take (length (body pkt) - sz) (body pkt)) pkt)"
  by (simp add: pull_as_def pull_data_def Let_def)

end

abbreviation push_u16 :: "u16 \<Rightarrow> packet \<Rightarrow> packet" where
  "push_u16 \<equiv> push_as (le_bytes 2)"

abbreviation pull_u16 :: "packet \<Rightarrow> (u16 \<times> packet) result" where
  "pull_u16 \<equiv> pull_as of_le_bytes 2"

abbreviation push_u32 :: "u32 \<Rightarrow> packet \<Rightarrow> packet" where
  "push_u32 \<equiv> push_as (le_bytes 4)"

abbreviation pull_u32 :: "packet \<Rightarrow> (u32 \<times> packet) result" where
  "pull_u32 \<equiv> pull_as of_le_bytes 4"

abbreviation push_u64 :: "u64 \<Rightarrow> packet \<Rightarrow> packet" where
  "push_u64 \<equiv> push_as (le_bytes 8)"

abbreviation pull_u64 :: "packet \<Rightarrow> (u64 \<times> packet) result" where
  "pull_u64 \<equiv> pull_as of_le_bytes 8"

interpretation u16_data: data_type "le_bytes 2 :: u16 \<Rightarrow> byte list" of_le_bytes 2
  by unfold_locales simp_all

interpretation u32_data: data_type "le_bytes 4 :: u32 \<Rightarrow> byte list" of_le_bytes 4
  by unfold_locales simp_all

interpretation u64_data: data_type "le_bytes 8 :: u64 \<Rightarrow> byte list" of_le_bytes 8
  by unfold_locales simp_all

text \<open>
  A message is a sequence of such data. \<^verbatim>\<open>long long\<close> and \<^verbatim>\<open>double_t\<close> have eight
  bytes: a double is carried as its bit pattern.
\<close>

datatype field = F16 u16 | F32 u32 | F64 u64
datatype field_kind = K16 | K32 | K64

fun kind_of :: "field \<Rightarrow> field_kind" where
  "kind_of (F16 _) = K16"
| "kind_of (F32 _) = K32"
| "kind_of (F64 _) = K64"

fun push_field :: "field \<Rightarrow> packet \<Rightarrow> packet" where
  "push_field (F16 w) = push_u16 w"
| "push_field (F32 w) = push_u32 w"
| "push_field (F64 w) = push_u64 w"

fun pull_field :: "field_kind \<Rightarrow> packet \<Rightarrow> (field \<times> packet) result" where
  "pull_field K16 p = and_then (pull_u16 p) (\<lambda>(w, q). Inr (F16 w, q))"
| "pull_field K32 p = and_then (pull_u32 p) (\<lambda>(w, q). Inr (F32 w, q))"
| "pull_field K64 p = and_then (pull_u64 p) (\<lambda>(w, q). Inr (F64 w, q))"

fun pull_fields :: "field_kind list \<Rightarrow> packet \<Rightarrow> (field list \<times> packet) result" where
  "pull_fields [] p = Inr ([], p)"
| "pull_fields (k # ks) p =
     and_then (pull_field k p) (\<lambda>(x, q). and_then (pull_fields ks q) (\<lambda>(xs, r). Inr (x # xs, r)))"

lemma pull_push_field: "pull_field (kind_of x) (push_field x p) = Inr (x, set_body (body p) p)"
  by (cases x) (simp_all add: u16_data.pull_push u32_data.pull_push u64_data.pull_push)

lemma fold_push_simps [simp]:
  "body (fold push_field xs p) = body p @ concat (map (\<lambda>x. body (push_field x new_packet)) xs)"
  "cmdID (header (fold push_field xs p)) = cmdID (header p)"
proof (induction xs arbitrary: p)
  case (Cons x xs)
  { case 1 show ?case using Cons by (cases x) (simp_all add: push_as_def) next
    case 2 show ?case using Cons by (cases x) (simp_all add: push_as_def) }
qed simp_all

lemma wf_push_field [simp]: "wf_packet (push_field x p)"
  by (cases x) (simp_all add: push_as_def)

lemma set_body_body_push [simp]: "set_body bs (push_field x p) = set_body bs p"
  by (cases x) (auto intro: packet_eqI simp: push_as_def)

lemma set_body_fold_push [simp]: "set_body bs (fold push_field xs p) = set_body bs p"
proof (induction xs arbitrary: p)
  case (Cons x xs)
  show ?case using Cons.IH [of "push_field x p"] by simp
qed simp

lemma wf_fold_push: "wf_packet p \<Longrightarrow> wf_packet (fold push_field xs p)"
  by (induction xs arbitrary: p) simp_all

lemma pull_fields_fold_push:
  "wf_packet p \<Longrightarrow>
     pull_fields (map kind_of (rev xs)) (fold push_field xs p) = Inr (rev xs, set_body (body p) p)"
proof (induction xs rule: rev_induct)
  case Nil
  then show ?case by (simp add: set_body_self)
next
  case (snoc x xs)
  have "set_body (body (fold push_field xs p)) (fold push_field xs p) = fold push_field xs p"
    by (rule set_body_self) (rule wf_fold_push [OF snoc.prems])
  with snoc show ?case by (simp add: pull_push_field)
qed

section \<open>The header on the wire\<close>

text \<open>
  The connections send and receive the \<^verbatim>\<open>sizeof(PacketHeader<T>)\<close> = 8 bytes of the
  structure itself: two bytes of \<^verbatim>\<open>cmdID\<close>, two of padding (whatever they hold) to align
  \<^verbatim>\<open>size\<close>, four of \<^verbatim>\<open>size\<close>.
\<close>

definition sizeof_header :: nat where
  "sizeof_header = 8"

definition header_bytes :: "u16 \<Rightarrow> packet_header \<Rightarrow> byte list" where
  "header_bytes pad h = le_bytes 2 (cmdID h) @ le_bytes 2 pad @ le_bytes 4 (hsize h)"

definition header_of_bytes :: "byte list \<Rightarrow> packet_header" where
  "header_of_bytes bs = \<lparr>cmdID = of_le_bytes (take 2 bs), hsize = of_le_bytes (drop 4 bs)\<rparr>"

lemma length_header_bytes [simp, wire_simps]: "length (header_bytes pad h) = sizeof_header"
  by (simp add: header_bytes_def sizeof_header_def)

lemma header_of_bytes_bytes [simp, wire_simps]: "header_of_bytes (header_bytes pad h) = h"
  by (simp add: header_of_bytes_def header_bytes_def)

lemma header_bytes_of_bytes:
  assumes "length bs = sizeof_header"
  shows "header_bytes (of_le_bytes (take 2 (drop 2 bs))) (header_of_bytes bs) = bs"
proof -
  have "take 2 bs @ take 2 (drop 2 bs) @ drop 4 bs = bs"
    by (metis append_take_drop_id drop_drop one_add_one numeral_Bit0)
  then show ?thesis
    using assms by (simp add: header_bytes_def header_of_bytes_def sizeof_header_def)
qed

lemma header_bytes_nonempty [simp]: "header_bytes pad h \<noteq> []"
  by (simp add: header_bytes_def)

definition wire_bytes :: "u16 \<Rightarrow> packet \<Rightarrow> byte list" where
  "wire_bytes pad pkt = header_bytes pad (header pkt) @ body pkt"

section \<open>Properties of packets\<close>

fun kind_size :: "field_kind \<Rightarrow> nat" where
  "kind_size K16 = 2"
| "kind_size K32 = 4"
| "kind_size K64 = 8"

lemma pull_field_Inl_iff: "(\<exists>e. pull_field k p = Inl e) \<longleftrightarrow> length (body p) < kind_size k"
  by (cases k) (auto simp: pull_as_def pull_data_def Let_def)

lemma pull_field_length:
  "pull_field k p = Inr (x, q) \<Longrightarrow> length (body p) = length (body q) + kind_size k \<and> kind_of x = k"
  by (cases k)
    (auto simp: and_then_Inr_iff dest!: u16_data.pull_length u32_data.pull_length u64_data.pull_length)

lemma pull_fields_Inl_iff:
  "(\<exists>e. pull_fields ks p = Inl e) \<longleftrightarrow> length (body p) < sum_list (map kind_size ks)"
proof (induction ks arbitrary: p)
  case (Cons k ks)
  show ?case
  proof (cases "pull_field k p")
    case (Inl e)
    then show ?thesis using pull_field_Inl_iff [of k p] by auto
  next
    case (Inr r)
    then obtain x q where r: "pull_field k p = Inr (x, q)" by (cases r) auto
    have "(\<exists>e. pull_fields (k # ks) p = Inl e) \<longleftrightarrow> (\<exists>e. pull_fields ks q = Inl e)"
      by (cases "pull_fields ks q") (auto simp: r)
    with Cons.IH [of q] pull_field_length [OF r] show ?thesis by auto
  qed
qed simp

text \<open>
  C16. The streaming operators are inverse to each other: reading a message's data in the
  opposite order gives back what was written, and leaves the packet, size included, as it
  was before the writes.
\<close>

theorem packet_fields_roundtrip:
  assumes "wf_packet p"
  shows "pull_fields (map kind_of (rev xs)) (fold push_field xs p) = Inr (rev xs, p)"
  using pull_fields_fold_push [OF assms] by (simp add: set_body_self assms)

lemma packet_fields_roundtrip_witness:
  "pull_fields [K64, K16] (fold push_field [F16 513, F64 7] new_packet) = Inr ([F64 7, F16 513], new_packet)"
  using packet_fields_roundtrip [of new_packet "[F16 513, F64 7]"] by simp

text \<open>
  Reading data from a packet reads outside the vector exactly when the body is shorter
  than the data asked for: nothing in \<^verbatim>\<open>operator>>\<close> checks it, so every caller has to.
\<close>

theorem packet_short_read:
  "(\<exists>e. pull_fields ks p = Inl e) \<longleftrightarrow> length (body p) < sum_list (map kind_size ks)"
  by (rule pull_fields_Inl_iff)

text \<open>
  Every operation of the packet leaves a packet whose header holds the size of its body
  (\<^verbatim>\<open>set_cmd\<close>, the only one that does not set it, when it held before), and for a body of
  less than 4 GiB that is its length.
\<close>

theorem packet_size_invariant:
  "wf_packet new_packet \<and> wf_packet (push_field x p) \<and> (wf_packet p = wf_packet (set_cmd c p)) \<and>
   (case pull_field k p of Inl _ \<Rightarrow> True | Inr (_, q) \<Rightarrow> wf_packet q) \<and>
   (unat (get_packet_len p) = length (body p) mod 2 ^ 32)"
proof -
  have "case pull_field k p of Inl _ \<Rightarrow> True | Inr (_, q) \<Rightarrow> wf_packet q"
    by (cases k) (auto simp: and_then_Inr_iff split: sum.split
        dest: u16_data.pull_wf u32_data.pull_wf u64_data.pull_wf)
  then show ?thesis by (simp add: get_packet_len_def unat_of_nat)
qed

text \<open>
  A header survives the wire: the eight bytes written for it are read back as it,
  whatever the padding, and every eight bytes are the bytes of the header they are read as.
\<close>

theorem header_wire_roundtrip:
  "header_of_bytes (header_bytes pad h) = h \<and> length (header_bytes pad h) = 8 \<and>
   (length bs = 8 \<longleftrightarrow> (\<exists>q. header_bytes q (header_of_bytes bs) = bs))"
proof -
  have "length bs = 8 \<longleftrightarrow> (\<exists>q. header_bytes q (header_of_bytes bs) = bs)"
    using header_bytes_of_bytes [of bs] length_header_bytes by (metis sizeof_header_def)
  then show ?thesis by (simp add: sizeof_header_def)
qed

end
