(* ===== verification/AsioBuffer.thy ===== *)
theory AsioBuffer
  imports Prelude
begin

text \<open>
  The vendored Asio headers under \<^verbatim>\<open>commonlibs/asio/include/asio\<close> that decide what a
  composed transfer does: buffers (\<^verbatim>\<open>buffer.hpp\<close>), the completion conditions
  (\<^verbatim>\<open>completion_condition.hpp\<close>) and the proxy that walks a buffer sequence while it is
  transferred (\<^verbatim>\<open>detail/consuming_buffers.hpp\<close>). A buffer is an address and a size;
  \<open>flat\<close> lists the addresses it covers, so that "the same bytes in the same order" is an
  equation between lists. Sizes are natural numbers: a buffer lies inside the address
  space, so sums of sizes of one sequence do not wrap.

  The lemmas relate the walk over a sequence to the flat list of its addresses:
  \<open>prepare\<close> offers a prefix of what is left, \<open>consume\<close> drops one.
\<close>

section \<open>Buffers\<close>

record buf =
  bdata :: nat
  bsize :: nat

definition flat :: "buf \<Rightarrow> nat list" where
  "flat b = [bdata b ..< bdata b + bsize b]"

definition buf_add :: "buf \<Rightarrow> nat \<Rightarrow> buf" where
  "buf_add b n =
     (let offset = (if n < bsize b then n else bsize b)
      in \<lparr>bdata = bdata b + offset, bsize = bsize b - offset\<rparr>)"

definition buffer_limit :: "buf \<Rightarrow> nat \<Rightarrow> buf" where
  "buffer_limit b max_size = \<lparr>bdata = bdata b, bsize = (if bsize b < max_size then bsize b else max_size)\<rparr>"

fun buffer_size :: "buf list \<Rightarrow> nat" where
  "buffer_size [] = 0"
| "buffer_size (b # bs) = bsize b + buffer_size bs"

definition flats :: "buf list \<Rightarrow> nat list" where
  "flats bs = concat (map flat bs)"

lemma length_flat [simp]: "length (flat b) = bsize b"
  by (simp add: flat_def)

lemma flats_simps [simp]: "flats [] = []" "flats (b # bs) = flat b @ flats bs"
  by (simp_all add: flats_def)

lemma flats_append [simp]: "flats (xs @ ys) = flats xs @ flats ys"
  by (simp add: flats_def)

lemma length_flats [simp]: "length (flats bs) = buffer_size bs"
  by (induction bs) simp_all

lemma flats_empty_iff [simp]: "flats bs = [] \<longleftrightarrow> buffer_size bs = 0"
  by (metis length_0_conv length_flats)

lemma bsize_buf_add [simp]: "bsize (buf_add b n) = bsize b - n"
  by (simp add: buf_add_def Let_def)

lemma flat_buf_add [simp]: "flat (buf_add b n) = drop n (flat b)"
  by (simp add: flat_def buf_add_def Let_def)

lemma bsize_buffer_limit [simp]: "bsize (buffer_limit b n) = min (bsize b) n"
  by (simp add: buffer_limit_def)

lemma flat_buffer_limit [simp]: "flat (buffer_limit b n) = take n (flat b)"
  by (simp add: flat_def buffer_limit_def)

lemma flat_empty_iff [simp]: "flat b = [] \<longleftrightarrow> bsize b = 0"
  by (auto simp: flat_def)

section \<open>Completion conditions\<close>

text \<open>
  An error code is its value, 0 for success. A completion condition maps the error and the
  bytes transferred so far to the most bytes the next operation may transfer, 0 to stop.
\<close>

type_synonym error_code = int
type_synonym completion_condition = "error_code \<Rightarrow> nat \<Rightarrow> nat"

definition default_max_transfer_size :: nat where
  "default_max_transfer_size = 65536"

definition adapt_bool_result :: "bool \<Rightarrow> nat" where
  "adapt_bool_result r = (if r then 0 else default_max_transfer_size)"

definition transfer_all :: completion_condition where
  "transfer_all err n = (if err \<noteq> 0 then 0 else default_max_transfer_size)"

definition transfer_at_least :: "nat \<Rightarrow> completion_condition" where
  "transfer_at_least minimum err n =
     (if err \<noteq> 0 \<or> n \<ge> minimum then 0 else default_max_transfer_size)"

definition transfer_exactly :: "nat \<Rightarrow> completion_condition" where
  "transfer_exactly sz err n =
     (if err \<noteq> 0 \<or> n \<ge> sz then 0
      else if sz - n < default_max_transfer_size then sz - n else default_max_transfer_size)"

text \<open>What the three have in common: an error stops the transfer.\<close>

lemma conditions_stop:
  "err \<noteq> 0 \<Longrightarrow> transfer_all err n = 0"
  "err \<noteq> 0 \<Longrightarrow> transfer_at_least m err n = 0"
  "err \<noteq> 0 \<Longrightarrow> transfer_exactly m err n = 0"
  by (simp_all add: transfer_all_def transfer_at_least_def transfer_exactly_def)

section \<open>Walking a buffer sequence\<close>

record consuming_buffers =
  cb_buffers :: "buf list"
  total_size :: nat
  total_consumed :: nat
  next_elem :: nat
  next_elem_offset :: nat

definition cb_init :: "buf list \<Rightarrow> consuming_buffers" where
  "cb_init bs = \<lparr>cb_buffers = bs, total_size = buffer_size bs, total_consumed = 0,
     next_elem = 0, next_elem_offset = 0\<rparr>"

definition cb_empty :: "consuming_buffers \<Rightarrow> bool" where
  "cb_empty c \<longleftrightarrow> total_consumed c \<ge> total_size c"

text \<open>
  The loop of \<^verbatim>\<open>prepare\<close>: \<open>cnt\<close> is \<^verbatim>\<open>result.count\<close>, \<open>mx\<close> the capacity
  \<^verbatim>\<open>result.max_buffers\<close> (at most 16).
\<close>

fun prepare_loop :: "nat \<Rightarrow> buf list \<Rightarrow> nat \<Rightarrow> nat \<Rightarrow> nat \<Rightarrow> buf list" where
  "prepare_loop mx [] elem_offset max_size cnt = []"
| "prepare_loop mx (b # bs) elem_offset max_size cnt =
     (if max_size > 0 \<and> cnt < mx then
        let e = buffer_limit (buf_add b elem_offset) max_size;
            rest = prepare_loop mx bs 0 (max_size - bsize e) (if bsize e > 0 then Suc cnt else cnt)
        in if bsize e > 0 then e # rest else rest
      else [])"

definition max_prepared :: nat where
  "max_prepared = 16"

definition cb_prepare :: "consuming_buffers \<Rightarrow> nat \<Rightarrow> buf list" where
  "cb_prepare c max_size =
     prepare_loop max_prepared (drop (next_elem c) (cb_buffers c)) (next_elem_offset c) max_size 0"

text \<open>The loop of \<^verbatim>\<open>consume\<close>, on the rest of the sequence.\<close>

fun consume_loop :: "buf list \<Rightarrow> nat \<Rightarrow> nat \<Rightarrow> nat \<Rightarrow> nat \<times> nat" where
  "consume_loop [] sz el off = (el, off)"
| "consume_loop (b # bs) sz el off =
     (if sz > 0 then
        (let next_buf = buf_add b off in
         if sz < bsize next_buf then (el, off + sz)
         else consume_loop bs (sz - bsize next_buf) (Suc el) 0)
      else (el, off))"

definition cb_consume :: "consuming_buffers \<Rightarrow> nat \<Rightarrow> consuming_buffers" where
  "cb_consume c sz =
     (let (el, off) = consume_loop (drop (next_elem c) (cb_buffers c)) sz (next_elem c) (next_elem_offset c)
      in c\<lparr>total_consumed := total_consumed c + sz, next_elem := el, next_elem_offset := off\<rparr>)"

text \<open>The addresses still to be transferred, as the walk sees them and as the sequence says.\<close>

definition cb_rest :: "consuming_buffers \<Rightarrow> nat list" where
  "cb_rest c = drop (next_elem_offset c) (flats (drop (next_elem c) (cb_buffers c)))"

definition cb_inv :: "consuming_buffers \<Rightarrow> bool" where
  "cb_inv c \<longleftrightarrow> total_size c = buffer_size (cb_buffers c) \<and> total_consumed c \<le> total_size c \<and>
     (case drop (next_elem c) (cb_buffers c) of [] \<Rightarrow> next_elem_offset c = 0
       | b # _ \<Rightarrow> next_elem_offset c \<le> bsize b) \<and>
     cb_rest c = drop (total_consumed c) (flats (cb_buffers c))"

lemma cb_inv_init: "cb_inv (cb_init bs)"
  by (simp add: cb_inv_def cb_init_def cb_rest_def split: list.split)

lemma prepare_loop_flats:
  assumes "bs \<noteq> [] \<Longrightarrow> off \<le> bsize (hd bs)" and "bs = [] \<Longrightarrow> off = 0"
  shows "\<exists>k. flats (prepare_loop mx bs off m n) = take k (drop off (flats bs)) \<and> k \<le> m"
  using assms
proof (induction mx bs off m n rule: prepare_loop.induct)
  case (1 mx off m n)
  then show ?case by (intro exI [of _ 0]) simp
next
  case (2 mx b bs off m n)
  show ?case
  proof (cases "m > 0 \<and> n < mx")
    case False
    then show ?thesis by (intro exI [of _ 0]) auto
  next
    case True
    define e where "e = buffer_limit (buf_add b off) m"
    have e: "flat e = take m (drop off (flat b))" "bsize e = min (bsize b - off) m"
      by (simp_all add: e_def)
    obtain k where k: "flats (prepare_loop mx bs 0 (m - bsize e) (if bsize e > 0 then Suc n else n))
        = take k (flats bs)" "k \<le> m - bsize e"
      using "2.IH" [OF True e_def] by auto
    have loop: "flats (prepare_loop mx (b # bs) off m n) = flat e @ take k (flats bs)"
      using True k(1) by (auto simp: e_def [symmetric] Let_def)
    show ?thesis
    proof (cases "bsize b - off \<le> m")
      case True
      then have "flat e @ take k (flats bs) = take (bsize b - off + k) (drop off (flats (b # bs)))"
        using e "2.prems" by simp
      moreover have "bsize b - off + k \<le> m" using True e k(2) by simp
      ultimately show ?thesis using loop by metis
    next
      case False
      then have "k = 0" using e k(2) by simp
      with False e "2.prems" loop show ?thesis by (intro exI [of _ m]) simp
    qed
  qed
qed

text \<open>A walk that has not reached the end offers at least one byte when it may offer any.\<close>

lemma prepare_loop_nonempty:
  assumes "drop off (flats bs) \<noteq> []" and "bs \<noteq> [] \<Longrightarrow> off \<le> bsize (hd bs)"
    and "0 < m" and "n < mx"
  shows "prepare_loop mx bs off m n \<noteq> []"
  using assms
proof (induction mx bs off m n rule: prepare_loop.induct)
  case (2 mx b bs off m n)
  show ?case
  proof (cases "off < bsize b")
    case True
    then show ?thesis using "2.prems" by (simp add: Let_def)
  next
    case False
    then have "drop 0 (flats bs) \<noteq> []" using "2.prems" by (simp add: not_less)
    with "2.IH" [OF _ refl] "2.prems" False show ?thesis by (simp add: Let_def)
  qed
qed simp

lemma prepare_loop_sizes: "b \<in> set (prepare_loop mx bs off m n) \<Longrightarrow> 0 < bsize b"
  by (induction mx bs off m n rule: prepare_loop.induct) (auto simp: Let_def split: if_splits)

lemma prepare_loop_length: "n \<le> mx \<Longrightarrow> length (prepare_loop mx bs off m n) \<le> mx - n"
  by (induction mx bs off m n rule: prepare_loop.induct) (fastforce simp: Let_def)+

lemma consume_loop_flats:
  assumes "consume_loop bs sz el off = (el', off')"
    and "bs = [] \<Longrightarrow> off = 0" and "bs \<noteq> [] \<Longrightarrow> off \<le> bsize (hd bs)"
    and "sz \<le> buffer_size bs - off"
  shows "\<exists>d. el' = el + d \<and> drop off' (flats (drop d bs)) = drop (off + sz) (flats bs) \<and>
    (case drop d bs of [] \<Rightarrow> off' = 0 | b # _ \<Rightarrow> off' \<le> bsize b)"
  using assms
proof (induction bs sz el off rule: consume_loop.induct)
  case (1 sz el off)
  then show ?case by (intro exI [of _ 0]) simp
next
  case (2 b bs sz el off)
  consider "sz = 0" | "0 < sz" "sz < bsize b - off" | "0 < sz" "bsize b - off \<le> sz" by linarith
  then show ?case
  proof cases
    case 1
    with 2 show ?thesis by (intro exI [of _ 0]) simp
  next
    case a: 2
    with 2 show ?thesis by (intro exI [of _ 0]) (auto simp: Let_def)
  next
    case a: 3
    have "consume_loop bs (sz - (bsize b - off)) (Suc el) 0 = (el', off')"
      using "2.prems"(1) a by (simp add: Let_def)
    moreover have "sz - (bsize b - off) \<le> buffer_size bs"
      using a "2.prems"(3,4) by simp
    ultimately obtain d where d: "el' = Suc el + d"
      "drop off' (flats (drop d bs)) = drop (sz - (bsize b - off)) (flats bs)"
      "case drop d bs of [] \<Rightarrow> off' = 0 | b # _ \<Rightarrow> off' \<le> bsize b"
      using "2.IH" [OF a(1) refl] a(2) by (auto simp: not_less)
    have "drop (off + sz) (flat b) = []" using a "2.prems" by simp
    with d a "2.prems" show ?thesis by (intro exI [of _ "Suc d"]) (simp add: add.commute)
  qed
qed

section \<open>The walk and the flat sequence\<close>

lemma cb_inv_offset:
  assumes "cb_inv c"
  defines "bs \<equiv> drop (next_elem c) (cb_buffers c)"
  shows "bs = [] \<Longrightarrow> next_elem_offset c = 0" "bs \<noteq> [] \<Longrightarrow> next_elem_offset c \<le> bsize (hd bs)"
  using assms by (auto simp: cb_inv_def split: list.splits)

lemma length_cb_rest: "cb_inv c \<Longrightarrow> length (cb_rest c) = total_size c - total_consumed c"
  by (simp add: cb_inv_def)

lemma cb_empty_iff: "cb_inv c \<Longrightarrow> cb_empty c \<longleftrightarrow> cb_rest c = []"
  using length_cb_rest [of c] by (auto simp: cb_empty_def)

lemma cb_prepare_prefix:
  assumes "cb_inv c"
  shows "\<exists>k \<le> m. flats (cb_prepare c m) = take k (cb_rest c)"
  using prepare_loop_flats [OF cb_inv_offset(2,1) [OF assms], of max_prepared m 0]
  unfolding cb_prepare_def cb_rest_def by blast

lemma cb_prepare_nonempty:
  assumes "cb_inv c" and "\<not> cb_empty c" and "0 < m"
  shows "cb_prepare c m \<noteq> []" and "0 < buffer_size (cb_prepare c m)"
proof -
  show ne: "cb_prepare c m \<noteq> []"
    unfolding cb_prepare_def using assms cb_inv_offset(2) [OF assms(1)] cb_empty_iff [OF assms(1)]
    by (intro prepare_loop_nonempty) (auto simp: cb_rest_def max_prepared_def)
  then obtain b bs where "cb_prepare c m = b # bs" by (cases "cb_prepare c m") auto
  moreover from this have "0 < bsize b"
    using prepare_loop_sizes unfolding cb_prepare_def by (metis list.set_intros(1))
  ultimately show "0 < buffer_size (cb_prepare c m)" by simp
qed

lemma cb_consume_fields [simp]:
  "cb_buffers (cb_consume c n) = cb_buffers c" "total_size (cb_consume c n) = total_size c"
  "total_consumed (cb_consume c n) = total_consumed c + n"
  by (simp_all add: cb_consume_def Let_def split: prod.split)

lemma cb_consume_correct:
  assumes inv: "cb_inv c" and n: "n \<le> length (cb_rest c)"
  shows "cb_inv (cb_consume c n)" and "cb_rest (cb_consume c n) = drop n (cb_rest c)"
proof -
  let ?bs = "drop (next_elem c) (cb_buffers c)"
  obtain el off where eo: "consume_loop ?bs n (next_elem c) (next_elem_offset c) = (el, off)"
    by fastforce
  have "n \<le> buffer_size ?bs - next_elem_offset c" using n by (simp add: cb_rest_def)
  from consume_loop_flats [OF eo cb_inv_offset [OF inv] this] obtain d where d:
    "el = next_elem c + d" "drop off (flats (drop d ?bs)) = drop (next_elem_offset c + n) (flats ?bs)"
    "case drop d ?bs of [] \<Rightarrow> off = 0 | b # _ \<Rightarrow> off \<le> bsize b" by blast
  have fields: "next_elem (cb_consume c n) = el" "next_elem_offset (cb_consume c n) = off"
    by (simp_all add: cb_consume_def eo)
  show rest: "cb_rest (cb_consume c n) = drop n (cb_rest c)"
    using d(1,2) by (simp add: cb_rest_def fields add.commute)
  show "cb_inv (cb_consume c n)"
    using inv n d(1,3) rest length_cb_rest [OF inv]
    unfolding cb_inv_def fields by (auto simp: add.commute)
qed

end
