(* ===== verification/NetTCPConnection.thy ===== *)
theory NetTCPConnection
  imports NetPacket NetQueue AsioBuffer
begin

text \<open>
  \<^verbatim>\<open>Common/include/NetTCPConnection.h\<close>: one end of a connection. The member functions
  are functions of the connection's state; where the code starts an asynchronous operation
  the model records it as outstanding (\<open>out_ops\<close>, \<open>in_ops\<close>, \<open>connecting\<close>), where it posts
  a closure to the \<^verbatim>\<open>io_context\<close> the closure is queued (\<open>posted\<close>), and each completion
  handler is a function of the error code, run by the environment when the operation ends.
  More than one operation could be outstanding in one direction: that none ever is, is a
  theorem.

  The incoming queue is shared with the application, so the handlers that push on it take
  it and return it. \<open>self\<close> is the identity behind \<^verbatim>\<open>shared_from_this()\<close>. The lines printed
  on \<^verbatim>\<open>std::cout\<close> are kept in \<open>log\<close>.
\<close>

section \<open>State\<close>

datatype ConnectType = Server_side | Client_side

record owned_packet =
  connectionPtr :: "nat option"
  opkt :: packet

datatype out_op = Writing_header | Writing_data
datatype in_op = Reading_header | Reading_data
datatype task = Task_send packet | Task_close

datatype log_line =
    Write_header_fail u32 error_code
  | Write_body_fail u32
  | Read_header_fail u32 error_code
  | Read_body_fail u32

record tcp_connection =
  self :: nat
  m_Type :: ConnectType
  m_sID :: u32
  sock_open :: bool
  m_tmpPktIn :: packet
  m_PktOut :: "packet net_queue"
  connecting :: bool
  out_ops :: "out_op list"
  in_ops :: "in_op list"
  posted :: "task list"
  log :: "log_line list"

type_synonym incoming = "owned_packet net_queue"

text \<open>
  The constructor: the socket is moved in as it is (open when accepted, closed when the
  client makes one), and \<^verbatim>\<open>m_sID\<close> is not initialised: \<open>sid\<close> is what the memory held.
\<close>

definition new_connection :: "ConnectType \<Rightarrow> nat \<Rightarrow> u32 \<Rightarrow> bool \<Rightarrow> tcp_connection" where
  "new_connection ty me sid is_open =
     \<lparr>self = me, m_Type = ty, m_sID = sid, sock_open = is_open, m_tmpPktIn = new_packet,
      m_PktOut = empty_queue, connecting = False, out_ops = [], in_ops = [], posted = [], log = []\<rparr>"

definition GetID :: "tcp_connection \<Rightarrow> u32" where
  "GetID c = m_sID c"

definition IsConnected :: "tcp_connection \<Rightarrow> bool" where
  "IsConnected c = sock_open c"

definition close_socket :: "tcp_connection \<Rightarrow> tcp_connection" where
  "close_socket c = c\<lparr>sock_open := False\<rparr>"

section \<open>Writing\<close>

definition WriteHeader :: "tcp_connection \<Rightarrow> tcp_connection result" where
  "WriteHeader c =
     and_then (get_front (m_PktOut c)) (\<lambda>p. Inr (c\<lparr>out_ops := out_ops c @ [Writing_header]\<rparr>))"

definition WriteData :: "tcp_connection \<Rightarrow> tcp_connection result" where
  "WriteData c =
     and_then (get_front (m_PktOut c)) (\<lambda>p. Inr (c\<lparr>out_ops := out_ops c @ [Writing_data]\<rparr>))"

definition next_packet :: "tcp_connection \<Rightarrow> tcp_connection result" where
  "next_packet c =
     and_then (pop_front (m_PktOut c)) (\<lambda>(p, q).
       let c' = c\<lparr>m_PktOut := q\<rparr> in if \<not> is_empty q then WriteHeader c' else Inr c')"

definition on_header_written :: "error_code \<Rightarrow> tcp_connection \<Rightarrow> tcp_connection result" where
  "on_header_written ec c =
     (if ec = 0 then
        and_then (get_front (m_PktOut c)) (\<lambda>p.
          if length (body p) > 0 then WriteData c else next_packet c)
      else Inr (close_socket (c\<lparr>log := log c @ [Write_header_fail (m_sID c) ec]\<rparr>)))"

definition on_data_written :: "error_code \<Rightarrow> tcp_connection \<Rightarrow> tcp_connection result" where
  "on_data_written ec c =
     (if ec = 0 then next_packet c
      else Inr (close_socket (c\<lparr>log := log c @ [Write_body_fail (m_sID c)]\<rparr>)))"

text \<open>
  \<^verbatim>\<open>SendPacket\<close> posts a closure (while it holds the queue's mutex, which the closure takes
  again on the \<^verbatim>\<open>io_context\<close>'s thread); \<open>run_send\<close> is the closure.
\<close>

definition SendPacket :: "packet \<Rightarrow> tcp_connection \<Rightarrow> tcp_connection" where
  "SendPacket pkt c = c\<lparr>posted := posted c @ [Task_send pkt]\<rparr>"

definition run_send :: "packet \<Rightarrow> tcp_connection \<Rightarrow> tcp_connection result" where
  "run_send pkt c =
     (let bWritingMessage = \<not> is_empty (m_PktOut c);
          c' = c\<lparr>m_PktOut := push_back pkt (m_PktOut c)\<rparr>
      in if \<not> bWritingMessage then WriteHeader c' else Inr c')"

definition Disconnect :: "tcp_connection \<Rightarrow> tcp_connection" where
  "Disconnect c = (if IsConnected c then c\<lparr>posted := posted c @ [Task_close]\<rparr> else c)"

fun run_task :: "task \<Rightarrow> tcp_connection \<Rightarrow> tcp_connection result" where
  "run_task (Task_send pkt) c = run_send pkt c"
| "run_task Task_close c = Inr (close_socket c)"

section \<open>Reading\<close>

definition ReadHeader :: "tcp_connection \<Rightarrow> tcp_connection" where
  "ReadHeader c = c\<lparr>in_ops := in_ops c @ [Reading_header]\<rparr>"

definition ReadData :: "tcp_connection \<Rightarrow> tcp_connection" where
  "ReadData c = c\<lparr>in_ops := in_ops c @ [Reading_data]\<rparr>"

definition PushToIncomingQueue :: "tcp_connection \<Rightarrow> incoming \<Rightarrow> tcp_connection \<times> incoming" where
  "PushToIncomingQueue c q =
     (let q' = (if m_Type c = Server_side
                then push_back \<lparr>connectionPtr = Some (self c), opkt = m_tmpPktIn c\<rparr> q
                else push_back \<lparr>connectionPtr = None, opkt = m_tmpPktIn c\<rparr> q)
      in (ReadHeader c, q'))"

definition WSAECONNRESET :: error_code where
  "WSAECONNRESET = 10054"

text \<open>\<^verbatim>\<open>std::vector::resize\<close>: keeps what fits, fills with zero bytes.\<close>

definition resize :: "nat \<Rightarrow> byte list \<Rightarrow> byte list" where
  "resize n bs = take n bs @ replicate (n - length bs) 0"

text \<open>
  A transfer into memory leaves the bytes it received at the start of the buffer,
  whatever it ends with. The two fields of the header lie at offsets 0 and 4.
\<close>

definition overwrite :: "byte list \<Rightarrow> byte list \<Rightarrow> byte list" where
  "overwrite got old = got @ drop (length got) old"

definition store_header :: "byte list \<Rightarrow> tcp_connection \<Rightarrow> tcp_connection" where
  "store_header got c =
     c\<lparr>m_tmpPktIn := (m_tmpPktIn c)\<lparr>header :=
         header_of_bytes (overwrite got (header_bytes 0 (header (m_tmpPktIn c))))\<rparr>\<rparr>"

definition store_body :: "byte list \<Rightarrow> tcp_connection \<Rightarrow> tcp_connection" where
  "store_body got c =
     c\<lparr>m_tmpPktIn := (m_tmpPktIn c)\<lparr>body := overwrite got (body (m_tmpPktIn c))\<rparr>\<rparr>"

definition on_header_read ::
    "error_code \<Rightarrow> tcp_connection \<Rightarrow> incoming \<Rightarrow> tcp_connection \<times> incoming" where
  "on_header_read ec c q =
     (if ec = 0 then
        (if hsize (header (m_tmpPktIn c)) > 0 then
           (let n = unat (hsize (header (m_tmpPktIn c)));
                p = (m_tmpPktIn c)\<lparr>body := resize n (body (m_tmpPktIn c))\<rparr>
            in (ReadData (c\<lparr>m_tmpPktIn := p\<rparr>), q))
         else PushToIncomingQueue c q)
      else if ec = WSAECONNRESET then (close_socket c, q)
      else (close_socket (c\<lparr>log := log c @ [Read_header_fail (m_sID c) ec]\<rparr>), q))"

definition on_data_read ::
    "error_code \<Rightarrow> tcp_connection \<Rightarrow> incoming \<Rightarrow> tcp_connection \<times> incoming" where
  "on_data_read ec c q =
     (if ec = 0 then PushToIncomingQueue c q
      else (close_socket (c\<lparr>log := log c @ [Read_body_fail (m_sID c)]\<rparr>), q))"

section \<open>Connecting\<close>

definition ConnectToClient :: "u32 \<Rightarrow> tcp_connection \<Rightarrow> tcp_connection" where
  "ConnectToClient clientID c =
     (if m_Type c = Server_side then
        if sock_open c then ReadHeader (c\<lparr>m_sID := clientID\<rparr>) else c
      else c)"

text \<open>
  \<^verbatim>\<open>asio::async_connect\<close> opens the socket for the first of the \<open>n\<close> endpoints at once and
  calls the handler when one accepts or all have failed.
\<close>

definition ConnectToServer :: "nat \<Rightarrow> tcp_connection \<Rightarrow> tcp_connection" where
  "ConnectToServer n c =
     (if m_Type c = Client_side then c\<lparr>connecting := True, sock_open := (sock_open c \<or> 0 < n)\<rparr>
      else c)"

definition on_connected :: "error_code \<Rightarrow> tcp_connection \<Rightarrow> tcp_connection" where
  "on_connected ec c =
     (let c' = c\<lparr>connecting := False\<rparr> in if ec = 0 then ReadHeader c' else c')"

lemmas tcp_defs [net_defs] = new_connection_def GetID_def IsConnected_def close_socket_def
  WriteHeader_def WriteData_def next_packet_def on_header_written_def on_data_written_def
  SendPacket_def run_send_def Disconnect_def ReadHeader_def ReadData_def
  PushToIncomingQueue_def store_header_def store_body_def on_header_read_def on_data_read_def
  ConnectToClient_def ConnectToServer_def on_connected_def

section \<open>The writing side never faults\<close>

text \<open>
  At most one write is outstanding and it is for the packet at the front of the queue; with
  none outstanding the queue is empty, unless a write has failed and closed the socket.
\<close>

fun write_shape :: "out_op list \<Rightarrow> packet list \<Rightarrow> bool \<Rightarrow> bool" where
  "write_shape [] q is_open \<longleftrightarrow> q = [] \<or> \<not> is_open"
| "write_shape [Writing_header] q is_open \<longleftrightarrow> q \<noteq> []"
| "write_shape [Writing_data] q is_open \<longleftrightarrow> (\<exists>p ps. q = p # ps \<and> body p \<noteq> [])"
| "write_shape _ q is_open \<longleftrightarrow> False"

definition write_inv :: "tcp_connection \<Rightarrow> bool" where
  "write_inv c \<longleftrightarrow> write_shape (out_ops c) (m_deqQueue (m_PktOut c)) (sock_open c)"

lemma write_inv_other [simp]:
  "write_inv (c\<lparr>posted := ks\<rparr>) = write_inv c"
  "write_inv (c\<lparr>in_ops := is\<rparr>) = write_inv c"
  "write_inv (c\<lparr>m_sID := i\<rparr>) = write_inv c"
  by (simp_all add: write_inv_def)

lemma write_inv_cases:
  assumes "write_inv c"
  obtains (idle) "out_ops c = []" "m_deqQueue (m_PktOut c) = [] \<or> \<not> sock_open c"
    | (writing_header) p ps where "out_ops c = [Writing_header]" "m_deqQueue (m_PktOut c) = p # ps"
    | (writing_data) p ps where "out_ops c = [Writing_data]" "m_deqQueue (m_PktOut c) = p # ps" "body p \<noteq> []"
  using assms unfolding write_inv_def
  by (cases "(out_ops c, m_deqQueue (m_PktOut c), sock_open c)" rule: write_shape.cases)
    (auto simp: neq_Nil_conv)

lemma write_inv_new: "write_inv (new_connection ty me sid is_open)"
  by (simp add: write_inv_def tcp_defs)

text \<open>
  Each closure and handler runs to its end and keeps the invariant: the lemmas give the
  queue and the outstanding write it leaves, for every way it can go.
\<close>

lemma run_send_result:
  assumes "write_inv c"
  shows "run_send p c = Inr (c\<lparr>m_PktOut := push_back p (m_PktOut c),
     out_ops := (if m_deqQueue (m_PktOut c) = [] then [Writing_header] else out_ops c)\<rparr>)"
  using assms by (cases rule: write_inv_cases) (simp_all add: tcp_defs queue_defs Let_def)

lemma next_packet_result:
  assumes "m_deqQueue (m_PktOut c) = p # ps"
  shows "next_packet c = Inr (c\<lparr>m_PktOut := \<lparr>m_deqQueue = ps\<rparr>,
     out_ops := (if ps = [] then out_ops c else out_ops c @ [Writing_header])\<rparr>)"
  using assms by (cases "m_PktOut c"; cases ps) (simp_all add: tcp_defs queue_defs)

lemma on_header_written_result:
  assumes "m_deqQueue (m_PktOut c) = p # ps" and "out_ops c = []"
  shows "on_header_written ec c =
    (if ec \<noteq> 0 then Inr (c\<lparr>log := log c @ [Write_header_fail (m_sID c) ec], sock_open := False\<rparr>)
     else if body p = [] then Inr (c\<lparr>m_PktOut := \<lparr>m_deqQueue = ps\<rparr>,
       out_ops := (if ps = [] then [] else [Writing_header])\<rparr>)
     else Inr (c\<lparr>out_ops := [Writing_data]\<rparr>))"
  using assms by (simp add: on_header_written_def next_packet_result close_socket_def WriteData_def get_front_def)

lemma on_data_written_result:
  assumes "m_deqQueue (m_PktOut c) = p # ps" and "out_ops c = []"
  shows "on_data_written ec c =
    (if ec \<noteq> 0 then Inr (c\<lparr>log := log c @ [Write_body_fail (m_sID c)], sock_open := False\<rparr>)
     else Inr (c\<lparr>m_PktOut := \<lparr>m_deqQueue = ps\<rparr>, out_ops := (if ps = [] then [] else [Writing_header])\<rparr>))"
  using assms by (simp add: on_data_written_def next_packet_result close_socket_def)

lemma write_inv_run_send:
  assumes "write_inv c" and "run_send p c = Inr c'"
  shows "write_inv c'"
  using assms(1)
proof (cases rule: write_inv_cases)
  case idle
  with assms run_send_result [OF assms(1), of p] show ?thesis by (auto simp: write_inv_def)
next
  case writing_header
  with assms run_send_result [OF assms(1), of p] show ?thesis by (auto simp: write_inv_def)
next
  case writing_data
  with assms run_send_result [OF assms(1), of p] show ?thesis by (auto simp: write_inv_def)
qed

lemma write_inv_header_written:
  assumes "write_inv c" and "out_ops c = Writing_header # ops"
    and "on_header_written ec (c\<lparr>out_ops := ops\<rparr>) = Inr c'"
  shows "write_inv c'"
  using assms(1)
proof (cases rule: write_inv_cases)
  case (writing_header p ps)
  with assms(2,3) on_header_written_result [of "c\<lparr>out_ops := ops\<rparr>" p ps ec]
  show ?thesis by (auto simp: write_inv_def split: if_splits)
qed (use assms(2) in auto)

lemma write_inv_data_written:
  assumes "write_inv c" and "out_ops c = Writing_data # ops"
    and "on_data_written ec (c\<lparr>out_ops := ops\<rparr>) = Inr c'"
  shows "write_inv c'"
  using assms(1)
proof (cases rule: write_inv_cases)
  case (writing_data p ps)
  with assms(2,3) on_data_written_result [of "c\<lparr>out_ops := ops\<rparr>" p ps ec]
  show ?thesis by (auto simp: write_inv_def split: if_splits)
qed (use assms(2) in auto)

lemma handlers_total:
  assumes "write_inv c"
  shows "\<exists>c'. run_send p c = Inr c'"
    and "out_ops c = Writing_header # ops \<Longrightarrow> \<exists>c'. on_header_written ec (c\<lparr>out_ops := ops\<rparr>) = Inr c'"
    and "out_ops c = Writing_data # ops \<Longrightarrow> \<exists>c'. on_data_written ec (c\<lparr>out_ops := ops\<rparr>) = Inr c'"
proof -
  show "\<exists>c'. run_send p c = Inr c'" using run_send_result [OF assms] by blast
  from assms show "\<exists>c'. on_header_written ec (c\<lparr>out_ops := ops\<rparr>) = Inr c'"
    if "out_ops c = Writing_header # ops"
    by (cases rule: write_inv_cases) (use that in \<open>auto simp: on_header_written_result\<close>)
  from assms show "\<exists>c'. on_data_written ec (c\<lparr>out_ops := ops\<rparr>) = Inr c'"
    if "out_ops c = Writing_data # ops"
    by (cases rule: write_inv_cases) (use that in \<open>auto simp: on_data_written_result\<close>)
qed

end
