(* ===== verification/World.thy ===== *)
theory World
  imports NetTCPConnection
begin

text \<open>
  \<^verbatim>\<open>Server/src/World.cpp\<close> and \<^verbatim>\<open>Server/src/Character.cpp\<close> with their headers: the
  characters of the players that have entered, each holding its owner's connection, and
  the broadcast of a move. A \<^verbatim>\<open>shared_ptr\<close> to a connection is the connection's key in a
  store of connections, \<^verbatim>\<open>None\<close> when null. \<^verbatim>\<open>double_t\<close> values are only stored and
  copied: they are their bit patterns.

  The contract of the \<^verbatim>\<open>unordered_map\<close> is the locale \<open>key_map\<close>.
\<close>

section \<open>The map\<close>

text \<open>
  An \<^verbatim>\<open>unordered_map\<close> is the list of its entries in iteration order. Where an insertion
  puts the entries (hash, bucket count, rehash) is the library's: a rank of the keys, any
  function. \<^verbatim>\<open>insert\<close> keeps an entry that is there; \<^verbatim>\<open>erase\<close> keeps the others' order.
\<close>

definition umap_find :: "u32 \<Rightarrow> (u32 \<times> 'v) list \<Rightarrow> 'v option" where
  "umap_find k m = map_of m k"

definition umap_insert :: "(u32 \<Rightarrow> nat) \<Rightarrow> u32 \<Rightarrow> 'v \<Rightarrow> (u32 \<times> 'v) list \<Rightarrow> (u32 \<times> 'v) list" where
  "umap_insert rank k v m =
     (if k \<in> set (map fst m) then m else sort_key (\<lambda>e. rank (fst e)) ((k, v) # m))"

definition umap_erase :: "u32 \<Rightarrow> (u32 \<times> 'v) list \<Rightarrow> (u32 \<times> 'v) list" where
  "umap_erase k m = filter (\<lambda>e. fst e \<noteq> k) m"

text \<open>An assignment through an iterator.\<close>

definition umap_assign :: "u32 \<Rightarrow> 'v \<Rightarrow> (u32 \<times> 'v) list \<Rightarrow> (u32 \<times> 'v) list" where
  "umap_assign k v m = map (\<lambda>e. if fst e = k then (k, v) else e) m"

locale key_map =
  fixes find :: "'k \<Rightarrow> 'm \<Rightarrow> 'v option" and insert :: "'k \<Rightarrow> 'v \<Rightarrow> 'm \<Rightarrow> 'm"
    and erase :: "'k \<Rightarrow> 'm \<Rightarrow> 'm" and assign :: "'k \<Rightarrow> 'v \<Rightarrow> 'm \<Rightarrow> 'm"
    and entries :: "'m \<Rightarrow> ('k \<times> 'v) list" and wf :: "'m \<Rightarrow> bool"
  assumes wf_distinct: "wf m \<Longrightarrow> distinct (map fst (entries m))"
    and wf_insert: "wf m \<Longrightarrow> wf (insert k v m)"
    and wf_erase: "wf m \<Longrightarrow> wf (erase k m)"
    and wf_assign: "wf m \<Longrightarrow> wf (assign k v m)"
    and find_entries: "wf m \<Longrightarrow> find k m = Some v \<longleftrightarrow> (k, v) \<in> set (entries m)"
    and entries_insert: "wf m \<Longrightarrow> set (entries (insert k v m)) =
          (if find k m = None then {(k, v)} \<union> set (entries m) else set (entries m))"
    and entries_erase: "wf m \<Longrightarrow> set (entries (erase k m)) = {e \<in> set (entries m). fst e \<noteq> k}"
    and entries_assign: "wf m \<Longrightarrow> find k m \<noteq> None \<Longrightarrow>
          set (entries (assign k v m)) = {(k, v)} \<union> {e \<in> set (entries m). fst e \<noteq> k}"
begin

lemma find_None: "wf m \<Longrightarrow> find k m = None \<longleftrightarrow> k \<notin> fst ` set (entries m)"
  using find_entries [of m k] by (cases "find k m") force+

lemma option_eq_by_Some: "(\<And>v. x = Some v \<longleftrightarrow> y = Some v) \<Longrightarrow> x = y"
  by (cases x) (auto, metis option.exhaust)

lemma find_insert:
  assumes "wf m"
  shows "find k' (insert k v m) = (if k' = k \<and> find k m = None then Some v else find k' m)"
proof (rule option_eq_by_Some)
  fix w
  have "find k' (insert k v m) = Some w \<longleftrightarrow>
      (k', w) \<in> (if find k m = None then {(k, v)} \<union> set (entries m) else set (entries m))"
    using find_entries [OF wf_insert [OF assms]] entries_insert [OF assms] by simp
  then show "find k' (insert k v m) = Some w \<longleftrightarrow>
      (if k' = k \<and> find k m = None then Some v else find k' m) = Some w"
    using find_entries [OF assms, of k' w] by auto
qed

lemma find_erase: "wf m \<Longrightarrow> find k' (erase k m) = (if k' = k then None else find k' m)"
  by (rule option_eq_by_Some) (auto simp: find_entries wf_erase entries_erase)

lemma find_assign:
  "wf m \<Longrightarrow> find k m \<noteq> None \<Longrightarrow> find k' (assign k v m) = (if k' = k then Some v else find k' m)"
  by (rule option_eq_by_Some) (auto simp: find_entries [OF wf_assign] entries_assign find_entries)

lemma length_insert:
  assumes "wf m"
  shows "length (entries (insert k v m)) =
    (if find k m = None then Suc (length (entries m)) else length (entries m))"
proof -
  have card: "length (entries m) = card (set (entries m))" if "wf m" for m
    using wf_distinct [OF that] by (simp add: distinct_map distinct_card)
  have "(k, v) \<notin> set (entries m)" if "find k m = None"
    using that find_entries [OF assms, of k v] by simp
  then show ?thesis
    using card [OF wf_insert [OF assms]] card [OF assms] entries_insert [OF assms] by simp
qed

end

lemma umap_insert_simps:
  fixes m :: "(u32 \<times> 'v) list"
  shows "set (umap_insert rank k v m) = (if k \<in> set (map fst m) then set m else insert (k, v) (set m))"
    and "distinct (map fst m) \<Longrightarrow> distinct (map fst (umap_insert rank k v m))"
proof -
  show "set (umap_insert rank k v m) = (if k \<in> set (map fst m) then set m else insert (k, v) (set m))"
    by (simp add: umap_insert_def set_insort_key)
  have "mset (map fst (sort_key f xs)) = mset (map fst xs)" for f :: "u32 \<times> 'v \<Rightarrow> nat" and xs
    by (metis mset_map mset_sort)
  then have "distinct (map fst (sort_key f xs)) = distinct (map fst xs)" for f :: "u32 \<times> 'v \<Rightarrow> nat" and xs
    by (metis mset_eq_imp_distinct_iff)
  then show "distinct (map fst m) \<Longrightarrow> distinct (map fst (umap_insert rank k v m))"
    by (simp add: umap_insert_def del: sort_key_simps)
qed

lemma umap_assign_fst: "map fst (umap_assign k v m) = map fst m"
  by (simp add: umap_assign_def)

interpretation chamap: key_map umap_find "umap_insert rank" umap_erase umap_assign
  "\<lambda>m. m" "\<lambda>m. distinct (map fst m)" for rank
proof unfold_locales
  fix m :: "(u32 \<times> 'v) list" and k v
  assume d: "distinct (map fst m)"
  show "umap_find k m = Some v \<longleftrightarrow> (k, v) \<in> set m" using d by (simp add: umap_find_def)
  show "distinct (map fst (umap_assign k v m))" using d by (simp add: umap_assign_fst)
  show "set (umap_insert rank k v m) =
      (if umap_find k m = None then {(k, v)} \<union> set m else set m)" for rank
    by (auto simp: umap_insert_simps umap_find_def map_of_eq_None_iff)
  show "umap_find k m \<noteq> None \<Longrightarrow>
      set (umap_assign k v m) = {(k, v)} \<union> {e \<in> set m. fst e \<noteq> k}"
    by (force simp: umap_assign_def umap_find_def dest: map_of_SomeD)
  show "distinct (map fst (umap_erase k m))" using d
    by (simp add: umap_erase_def distinct_map_filter)
qed (auto simp: umap_insert_simps umap_erase_def)

section \<open>Connections by reference\<close>

type_synonym conn_store = "nat \<Rightarrow> tcp_connection option"

text \<open>\<^verbatim>\<open>ptr->SendPacket(pkt)\<close>\<close>

fun send_via :: "nat option \<Rightarrow> packet \<Rightarrow> conn_store \<Rightarrow> conn_store result" where
  "send_via None pkt st = Inl Null_pointer"
| "send_via (Some i) pkt st =
     (case st i of None \<Rightarrow> Inl Null_pointer | Some c \<Rightarrow> Inr (st(i \<mapsto> SendPacket pkt c)))"

section \<open>Characters\<close>

record character =
  m_TCPConnection :: "nat option"
  m_ID :: u16
  m_curMapID :: u16
  posX :: u64
  posY :: u64
  in_World :: bool

definition new_character :: character where
  "new_character = \<lparr>m_TCPConnection = None, m_ID = 0, m_curMapID = 0, posX = 0, posY = 0, in_World = False\<rparr>"

definition SetID :: "u32 \<Rightarrow> character \<Rightarrow> character" where
  "SetID i cha = cha\<lparr>m_ID := ucast i\<rparr>"

definition SetTCPConnection :: "nat option \<Rightarrow> character \<Rightarrow> character" where
  "SetTCPConnection p cha = cha\<lparr>m_TCPConnection := p\<rparr>"

definition SetWorld :: "character \<Rightarrow> character" where
  "SetWorld cha = cha\<lparr>in_World := True\<rparr>"

type_synonym cha_map = "(u32 \<times> character) list"

definition AddChaToWorld :: "(u32 \<Rightarrow> nat) \<Rightarrow> u32 \<Rightarrow> character \<Rightarrow> cha_map \<Rightarrow> cha_map" where
  "AddChaToWorld rank chaID cha m = umap_insert rank chaID cha m"

definition RemoveChaFromWorld :: "u32 \<Rightarrow> cha_map \<Rightarrow> cha_map" where
  "RemoveChaFromWorld chaID m = umap_erase chaID m"

definition move_packet :: "character \<Rightarrow> packet" where
  "move_packet cha = push_u64 (posY cha) (push_u64 (posX cha) (push_u16 (m_ID cha)
     (set_cmd (cmd_value MovePlayer) new_packet)))"

definition flag_one :: "packet \<Rightarrow> character \<Rightarrow> u32 \<times> character \<Rightarrow> conn_store \<Rightarrow> conn_store result" where
  "flag_one pkt cha e st =
     (if m_ID (snd e) = m_ID cha then Inr st else send_via (m_TCPConnection (snd e)) pkt st)"

definition FlagMoveUpdate :: "character \<Rightarrow> cha_map \<Rightarrow> conn_store \<Rightarrow> conn_store result" where
  "FlagMoveUpdate cha m st = fold_result (flag_one (move_packet cha) cha) m st"

text \<open>
  \<^verbatim>\<open>SetPos\<close> on the character stored under \<open>k\<close>: the position first, then the broadcast,
  which walks the map with the new position in it.
\<close>

definition SetPos :: "u32 \<Rightarrow> u64 \<Rightarrow> u64 \<Rightarrow> character \<Rightarrow> cha_map \<Rightarrow> conn_store \<Rightarrow>
    (cha_map \<times> conn_store) result" where
  "SetPos k x y cha m st =
     (let cha' = cha\<lparr>posX := x, posY := y\<rparr>; m' = umap_assign k cha' m
      in if \<not> in_World cha' then Inl Null_pointer
         else and_then (FlagMoveUpdate cha' m' st) (\<lambda>st'. Inr (m', st')))"

section \<open>Broadcasts\<close>

text \<open>The packets a connection has been asked to send, in order.\<close>

fun sends_of :: "task list \<Rightarrow> packet list" where
  "sends_of [] = []"
| "sends_of (Task_send p # ks) = p # sends_of ks"
| "sends_of (Task_close # ks) = sends_of ks"

lemma sends_of_append [simp]: "sends_of (ks @ ls) = sends_of ks @ sends_of ls"
  by (induction ks rule: sends_of.induct) simp_all

text \<open>A broadcast of one packet to a list of connections that exist.\<close>

definition broadcast :: "packet \<Rightarrow> nat list \<Rightarrow> conn_store \<Rightarrow> conn_store" where
  "broadcast pkt is st = fold (\<lambda>i st. st(i := map_option (SendPacket pkt) (st i))) is st"

lemma broadcast_simps [simp]:
  "broadcast pkt [] st = st"
  "broadcast pkt (i # is) st = broadcast pkt is (st(i := map_option (SendPacket pkt) (st i)))"
  by (simp_all add: broadcast_def)

lemma broadcast_dom [simp]: "broadcast pkt is st i = None \<longleftrightarrow> st i = None"
  by (induction "is" arbitrary: st) auto

lemma SendPacket_twice: "posted (SendPacket p c) = posted c @ [Task_send p]"
  by (simp add: SendPacket_def)

text \<open>Every connection of the list is asked once for each time it is listed, and nothing else changes.\<close>

lemma broadcast_result:
  "broadcast pkt is st i = map_option (\<lambda>c. c\<lparr>posted := posted c @ replicate (count_list is i) (Task_send pkt)\<rparr>) (st i)"
proof (induction "is" arbitrary: st)
  case Nil
  then show ?case by (cases "st i") simp_all
next
  case (Cons j "is")
  then show ?case by (cases "st i") (auto simp: SendPacket_def replicate_app_Cons_same)
qed

lemma FlagMoveUpdate_broadcast:
  assumes "\<forall>e \<in> set m. \<exists>i c. m_TCPConnection (snd e) = Some i \<and> st i = Some c"
  shows "FlagMoveUpdate cha m st = Inr (broadcast (move_packet cha)
    (map (the \<circ> m_TCPConnection \<circ> snd) (filter (\<lambda>e. m_ID (snd e) \<noteq> m_ID cha) m)) st)"
  unfolding FlagMoveUpdate_def using assms
proof (induction m arbitrary: st)
  case (Cons e m)
  then obtain i c where i: "m_TCPConnection (snd e) = Some i" "st i = Some c" by auto
  have "\<forall>e \<in> set m. \<exists>j d. m_TCPConnection (snd e) = Some j \<and> (st(i \<mapsto> SendPacket (move_packet cha) c)) j = Some d"
    using Cons.prems by fastforce
  with Cons.IH [of st] Cons.IH [OF this] Cons.prems i show ?case
    by (simp add: flag_one_def del: fun_upd_apply)
qed simp

lemmas world_defs [net_defs] = new_character_def SetID_def SetTCPConnection_def SetWorld_def
  AddChaToWorld_def RemoveChaFromWorld_def

end
