(* ===== verification/AsioTransfer.thy ===== *)
theory AsioTransfer
  imports AsioBuffer
begin

text \<open>
  The composed operations of \<^verbatim>\<open>asio/impl/write.hpp\<close> and \<^verbatim>\<open>asio/impl/read.hpp\<close> that the
  connections are written with: \<^verbatim>\<open>async_write\<close> and \<^verbatim>\<open>async_read\<close> repeat
  \<^verbatim>\<open>async_write_some\<close> / \<^verbatim>\<open>async_read_some\<close> until the buffers are used up or an
  operation fails. A call of the operation object either starts one more operation on some
  buffers or calls the handler; its completions (an error code and a count each) are the
  environment's. The stream's own operations are Windows or POSIX calls: what is used of
  them (\<open>obeys\<close>) is what Asio documents of a stream: no more bytes than asked for, and a
  success with no bytes only when none was asked for.

  The walk over the buffers is a parameter, as the class template's is; the locale
  \<open>buffer_walk\<close> is its contract, interpreted on the two walks of
  \<^verbatim>\<open>detail/consuming_buffers.hpp\<close>. Shown: with \<^verbatim>\<open>transfer_all\<close> the bytes that pass
  are the first ones of the buffers, in order, all of them unless the handler gets an
  error, and the handler is called after at most as many completions as there are bytes.
\<close>

section \<open>The two walks\<close>

record 'c walker =
  w_empty :: "'c \<Rightarrow> bool"
  w_prepare :: "'c \<Rightarrow> nat \<Rightarrow> buf list"
  w_consume :: "'c \<Rightarrow> nat \<Rightarrow> 'c"
  w_total :: "'c \<Rightarrow> nat"

definition sequence_walker :: "consuming_buffers walker" where
  "sequence_walker = \<lparr>w_empty = cb_empty, w_prepare = cb_prepare, w_consume = cb_consume,
     w_total = total_consumed\<rparr>"

text \<open>The specialisation for one buffer, which is what \<^verbatim>\<open>asio::buffer(p, n)\<close> gives.\<close>

record consuming_single_buffer =
  sb_buffer :: buf
  sb_consumed :: nat

definition sb_init :: "buf \<Rightarrow> consuming_single_buffer" where
  "sb_init b = \<lparr>sb_buffer = b, sb_consumed = 0\<rparr>"

definition sb_empty :: "consuming_single_buffer \<Rightarrow> bool" where
  "sb_empty c \<longleftrightarrow> sb_consumed c \<ge> bsize (sb_buffer c)"

definition sb_prepare :: "consuming_single_buffer \<Rightarrow> nat \<Rightarrow> buf" where
  "sb_prepare c max_size = buffer_limit (buf_add (sb_buffer c) (sb_consumed c)) max_size"

definition sb_consume :: "consuming_single_buffer \<Rightarrow> nat \<Rightarrow> consuming_single_buffer" where
  "sb_consume c n = c\<lparr>sb_consumed := sb_consumed c + n\<rparr>"

definition single_walker :: "consuming_single_buffer walker" where
  "single_walker = \<lparr>w_empty = sb_empty, w_prepare = (\<lambda>c m. [sb_prepare c m]),
     w_consume = sb_consume, w_total = sb_consumed\<rparr>"

section \<open>The operation object\<close>

datatype action = Start_some "buf list" | Handler error_code nat

text \<open>\<^verbatim>\<open>operator()\<close>: \<open>start\<close> is the call that starts the operation.\<close>

definition write_op_call ::
    "'c walker \<Rightarrow> completion_condition \<Rightarrow> bool \<Rightarrow> error_code \<Rightarrow> nat \<Rightarrow> 'c \<Rightarrow> action \<times> 'c" where
  "write_op_call W cond start ec n c =
     (if start then (Start_some (w_prepare W c (cond ec (w_total W c))), c)
      else
        let c' = w_consume W c n in
        if (ec = 0 \<and> n = 0) \<or> w_empty W c' then (Handler ec (w_total W c'), c')
        else
          let max_size = cond ec (w_total W c') in
          if max_size > 0 then (Start_some (w_prepare W c' max_size), c')
          else (Handler ec (w_total W c'), c'))"

definition read_op_call ::
    "'c walker \<Rightarrow> completion_condition \<Rightarrow> bool \<Rightarrow> error_code \<Rightarrow> nat \<Rightarrow> 'c \<Rightarrow> action \<times> 'c" where
  "read_op_call W cond start ec n c =
     (if start then (Start_some (w_prepare W c (cond ec (w_total W c))), c)
      else
        let c' = w_consume W c n in
        if (ec = 0 \<and> n = 0) \<or> w_empty W c' then (Handler ec (w_total W c'), c')
        else
          let max_size = cond ec (w_total W c') in
          if max_size > 0 then (Start_some (w_prepare W c' max_size), c')
          else (Handler ec (w_total W c'), c'))"

lemma read_op_is_write_op: "read_op_call = write_op_call"
  by (intro ext) (simp add: read_op_call_def write_op_call_def)

text \<open>
  \<^verbatim>\<open>async_write(s, buffers, handler)\<close> and \<^verbatim>\<open>async_read\<close>, driven by the completions
  of the operations they start: the addresses transferred, in order, and the handler's
  arguments once it is called.
\<close>

fun drive :: "'c walker \<Rightarrow> completion_condition \<Rightarrow> action \<times> 'c \<Rightarrow> (error_code \<times> nat) list \<Rightarrow>
    nat list \<times> (error_code \<times> nat) option" where
  "drive W cond (Handler ec t, c) es = ([], Some (ec, t))"
| "drive W cond (Start_some bs, c) [] = ([], None)"
| "drive W cond (Start_some bs, c) ((ec, n) # es) =
     (let (xs, r) = drive W cond (write_op_call W cond False ec n c) es
      in (take n (flats bs) @ xs, r))"

fun obeys :: "'c walker \<Rightarrow> completion_condition \<Rightarrow> action \<times> 'c \<Rightarrow> (error_code \<times> nat) list \<Rightarrow> bool" where
  "obeys W cond (Handler ec t, c) es \<longleftrightarrow> True"
| "obeys W cond (Start_some bs, c) [] \<longleftrightarrow> True"
| "obeys W cond (Start_some bs, c) ((ec, n) # es) \<longleftrightarrow>
     n \<le> buffer_size bs \<and> (ec = 0 \<longrightarrow> 0 < buffer_size bs \<longrightarrow> 0 < n) \<and>
     obeys W cond (write_op_call W cond False ec n c) es"

section \<open>What a walk promises\<close>

locale buffer_walk =
  fixes W :: "'c walker" and rest :: "'c \<Rightarrow> nat list" and inv :: "'c \<Rightarrow> bool"
  assumes empty_iff: "inv c \<Longrightarrow> w_empty W c \<longleftrightarrow> rest c = []"
    and prepare_prefix: "inv c \<Longrightarrow> \<exists>k \<le> m. flats (w_prepare W c m) = take k (rest c)"
    and prepare_some: "inv c \<Longrightarrow> rest c \<noteq> [] \<Longrightarrow> 0 < m \<Longrightarrow> 0 < buffer_size (w_prepare W c m)"
    and consume_inv: "inv c \<Longrightarrow> n \<le> length (rest c) \<Longrightarrow> inv (w_consume W c n)"
    and consume_rest: "inv c \<Longrightarrow> n \<le> length (rest c) \<Longrightarrow> rest (w_consume W c n) = drop n (rest c)"
    and total_consume: "w_total W (w_consume W c n) = w_total W c + n"
begin

lemma prepare_take:
  assumes "inv c" and "n \<le> buffer_size (w_prepare W c m)"
  shows "take n (flats (w_prepare W c m)) = take n (rest c)" and "n \<le> length (rest c)"
    and "n \<le> m"
proof -
  obtain k where k: "k \<le> m" "flats (w_prepare W c m) = take k (rest c)"
    using prepare_prefix [OF assms(1)] by blast
  then have "n \<le> min (length (rest c)) k" using assms(2) length_flats by (metis length_take)
  then show "n \<le> length (rest c)" "n \<le> m" using k(1) by auto
  show "take n (flats (w_prepare W c m)) = take n (rest c)"
    using k(2) \<open>n \<le> min _ _\<close> by (simp add: min_absorb1)
qed

lemma drive_started:
  assumes "inv c" and "rest c = [] \<or> 0 < m"
    and "obeys W transfer_all (Start_some (w_prepare W c m), c) es"
  shows "\<exists>k \<le> length (rest c). case drive W transfer_all (Start_some (w_prepare W c m), c) es of
      (xs, None) \<Rightarrow> xs = take k (rest c) \<and> length es \<le> k \<and> (k < length (rest c) \<or> es = [] \<and> k = 0)
    | (xs, Some (ec, t)) \<Rightarrow> xs = take k (rest c) \<and> t = w_total W c + k \<and>
        (ec = 0 \<longrightarrow> k = length (rest c))"
  using assms
proof (induction es arbitrary: c m)
  case Nil
  then show ?case by (intro exI [of _ 0]) simp
next
  case (Cons e es)
  obtain ec n where e: "e = (ec, n)" by (cases e)
  let ?c = "w_consume W c n"
  from Cons.prems(3) e have n: "n \<le> buffer_size (w_prepare W c m)"
    and pos: "ec = 0 \<Longrightarrow> 0 < buffer_size (w_prepare W c m) \<Longrightarrow> 0 < n"
    and ob: "obeys W transfer_all (write_op_call W transfer_all False ec n c) es" by auto
  note take = prepare_take [OF Cons.prems(1) n]
  note inv' = consume_inv [OF Cons.prems(1) take(2)]
  note rest' = consume_rest [OF Cons.prems(1) take(2)]
  have stop: "n = length (rest c)" if "ec = 0" "n = 0 \<or> w_empty W ?c"
    using that pos prepare_some [OF Cons.prems(1)] Cons.prems(2) take(2) rest' empty_iff [OF inv']
    by (cases "rest c = []") auto
  show ?case
  proof (cases "ec = 0 \<and> n = 0 \<or> w_empty W ?c \<or> ec \<noteq> 0")
    case True
    then have "write_op_call W transfer_all False ec n c = (Handler ec (w_total W ?c), ?c)"
      by (auto simp: write_op_call_def Let_def transfer_all_def)
    then show ?thesis
      using e take(1,2) stop True by (intro exI [of _ n]) (auto simp: total_consume)
  next
    case False
    then have call: "write_op_call W transfer_all False ec n c =
        (Start_some (w_prepare W ?c default_max_transfer_size), ?c)"
      by (auto simp: write_op_call_def Let_def transfer_all_def default_max_transfer_size_def)
    with ob Cons.IH [OF inv', of default_max_transfer_size] obtain k where
      k: "k \<le> length (rest ?c)" "case drive W transfer_all (write_op_call W transfer_all False ec n c) es of
          (xs, None) \<Rightarrow> xs = take k (rest ?c) \<and> length es \<le> k \<and> (k < length (rest ?c) \<or> es = [] \<and> k = 0)
        | (xs, Some (ec, t)) \<Rightarrow> xs = take k (rest ?c) \<and> t = w_total W ?c + k \<and>
            (ec = 0 \<longrightarrow> k = length (rest ?c))"
      by (auto simp: default_max_transfer_size_def)
    have nk: "take n (rest c) @ take k (drop n (rest c)) = take (n + k) (rest c)"
      by (simp add: take_add)
    have "rest ?c \<noteq> []" using False empty_iff [OF inv'] by simp
    then show ?thesis
      using k e take False rest'
      by (intro exI [of _ "n + k"])
        (cases "drive W transfer_all (write_op_call W transfer_all False ec n c) es";
         auto simp: nk total_consume split: option.splits)
  qed
qed

text \<open>The whole operation, from the call that starts it, with the buffers not yet used up.\<close>

lemma drive_transfers:
  assumes "inv c" and "obeys W transfer_all (write_op_call W transfer_all True 0 0 c) es"
    and "drive W transfer_all (write_op_call W transfer_all True 0 0 c) es = (xs, Some (ec, t))"
  shows "\<exists>k \<le> length (rest c). xs = take k (rest c) \<and> t = w_total W c + k \<and>
    (ec = 0 \<longrightarrow> k = length (rest c))"
  using drive_started [OF assms(1), of default_max_transfer_size es] assms(2,3)
  by (auto simp: write_op_call_def transfer_all_def default_max_transfer_size_def)

lemma drive_finishes:
  assumes "inv c" and "obeys W transfer_all (write_op_call W transfer_all True 0 0 c) es"
    and "es \<noteq> []" and "length (rest c) \<le> length es"
  shows "\<exists>xs ec t. drive W transfer_all (write_op_call W transfer_all True 0 0 c) es = (xs, Some (ec, t))"
proof -
  obtain xs r where d: "drive W transfer_all (write_op_call W transfer_all True 0 0 c) es = (xs, r)"
    by fastforce
  show ?thesis
  proof (cases r)
    case None
    with drive_started [OF assms(1), of default_max_transfer_size es] assms(2,3,4) d
    show ?thesis
      by (auto simp: write_op_call_def transfer_all_def default_max_transfer_size_def)
  next
    case (Some p)
    with d show ?thesis by (cases p) auto
  qed
qed

end

interpretation sequence: buffer_walk sequence_walker cb_rest cb_inv
proof unfold_locales
  fix c m assume "cb_inv c" "cb_rest c \<noteq> []" "(0::nat) < m"
  then show "0 < buffer_size (w_prepare sequence_walker c m)"
    using cb_prepare_nonempty(2) cb_empty_iff by (simp add: sequence_walker_def)
qed (simp_all add: sequence_walker_def cb_empty_iff cb_prepare_prefix cb_consume_correct)

definition sb_rest :: "consuming_single_buffer \<Rightarrow> nat list" where
  "sb_rest c = drop (sb_consumed c) (flat (sb_buffer c))"

interpretation single: buffer_walk single_walker sb_rest "\<lambda>c. sb_consumed c \<le> bsize (sb_buffer c)"
proof unfold_locales
  fix c :: consuming_single_buffer and m
  show "\<exists>k \<le> m. flats (w_prepare single_walker c m) = take k (sb_rest c)"
    by (intro exI [of _ m]) (simp add: single_walker_def sb_prepare_def sb_rest_def)
qed (auto simp: single_walker_def sb_empty_def sb_prepare_def sb_consume_def sb_rest_def add.commute)

section \<open>Transfers of one buffer\<close>

text \<open>
  What an \<^verbatim>\<open>async_write\<close> or \<^verbatim>\<open>async_read\<close> on \<^verbatim>\<open>asio::buffer(p, n)\<close> can end with, over
  every sequence of completions the stream may give: the error and the number of bytes
  that passed.
\<close>

definition single_op :: "nat \<Rightarrow> (error_code \<times> nat) list \<Rightarrow> nat list \<times> (error_code \<times> nat) option" where
  "single_op n es = drive single_walker transfer_all
     (write_op_call single_walker transfer_all True 0 0 (sb_init \<lparr>bdata = 0, bsize = n\<rparr>)) es"

definition single_obeys :: "nat \<Rightarrow> (error_code \<times> nat) list \<Rightarrow> bool" where
  "single_obeys n es = obeys single_walker transfer_all
     (write_op_call single_walker transfer_all True 0 0 (sb_init \<lparr>bdata = 0, bsize = n\<rparr>)) es"

definition outcome :: "nat \<Rightarrow> error_code \<Rightarrow> nat \<Rightarrow> bool" where
  "outcome n ec t \<longleftrightarrow> (\<exists>es. single_obeys n es \<and> snd (single_op n es) = Some (ec, t))"

text \<open>
  The contract of a composed transfer, which is all the connections use: never more than
  the buffer, everything on success, and success is possible.
\<close>

locale exact_transfer =
  fixes T :: "nat \<Rightarrow> error_code \<Rightarrow> nat \<Rightarrow> bool"
  assumes bounded: "T n ec t \<Longrightarrow> t \<le> n"
    and complete: "T n 0 t \<Longrightarrow> t = n"
    and can_succeed: "T n 0 n"
begin

lemma success_iff: "T n 0 t \<longleftrightarrow> t = n"
  using complete can_succeed by blast

lemma partial_error: "T n ec t \<Longrightarrow> t < n \<Longrightarrow> ec \<noteq> 0"
  using complete by fastforce

lemma success_bytes: "T (length bs) 0 t \<Longrightarrow> take t bs = bs"
  using complete by fastforce

end

lemma single_rest_init:
  "sb_rest (sb_init \<lparr>bdata = 0, bsize = n\<rparr>) = [0..<n]" "w_total single_walker (sb_init b) = 0"
  by (simp_all add: sb_rest_def sb_init_def flat_def single_walker_def)

lemma single_op_addresses:
  assumes "single_obeys n es" and "single_op n es = (xs, Some (ec, t))"
  shows "t \<le> n \<and> xs = [0..<t] \<and> (ec = 0 \<longrightarrow> t = n)"
proof -
  have "sb_consumed (sb_init \<lparr>bdata = 0, bsize = n\<rparr>) \<le> bsize (sb_buffer (sb_init \<lparr>bdata = 0, bsize = n\<rparr>))"
    by (simp add: sb_init_def)
  from single.drive_transfers [OF this] assms show ?thesis
    by (fastforce simp: single_op_def single_obeys_def single_rest_init take_upt)
qed

text \<open>A script of full-size successes: the transfer that meets no error.\<close>

fun full_script :: "nat \<Rightarrow> nat \<Rightarrow> (error_code \<times> nat) list" where
  "full_script 0 n = [(0, n)]"
| "full_script (Suc f) n =
     (if n \<le> default_max_transfer_size then [(0, n)]
      else (0, default_max_transfer_size) # full_script f (n - default_max_transfer_size))"

lemma full_script_drive:
  fixes c :: consuming_single_buffer
  assumes "sb_consumed c \<le> bsize (sb_buffer c)" and "bsize (sb_buffer c) - sb_consumed c \<le> f"
  defines "start \<equiv> (Start_some [sb_prepare c default_max_transfer_size], c)"
    and "es \<equiv> full_script f (bsize (sb_buffer c) - sb_consumed c)"
  shows "obeys single_walker transfer_all start es \<and>
    snd (drive single_walker transfer_all start es) = Some (0, bsize (sb_buffer c))"
  using assms(1,2) unfolding start_def es_def
proof (induction f arbitrary: c)
  case 0
  then show ?case
    by (auto simp: write_op_call_def single_walker_def sb_consume_def sb_empty_def sb_prepare_def Let_def)
next
  case (Suc f)
  let ?n = "bsize (sb_buffer c) - sb_consumed c"
  show ?case
  proof (cases "?n \<le> default_max_transfer_size")
    case True
    with Suc.prems show ?thesis
      by (auto simp: write_op_call_def single_walker_def sb_consume_def sb_empty_def sb_prepare_def Let_def)
  next
    case False
    let ?c = "sb_consume c default_max_transfer_size"
    have pos: "0 < default_max_transfer_size" by (simp add: default_max_transfer_size_def)
    have call: "write_op_call single_walker transfer_all False 0 default_max_transfer_size c =
        (Start_some [sb_prepare ?c default_max_transfer_size], ?c)"
      using False pos
      by (simp add: write_op_call_def single_walker_def sb_consume_def sb_empty_def transfer_all_def Let_def)
    have "sb_consumed ?c \<le> bsize (sb_buffer ?c)" "bsize (sb_buffer ?c) - sb_consumed ?c \<le> f"
      using False Suc.prems pos by (simp_all add: sb_consume_def)
    from Suc.IH [OF this] show ?thesis
      using False pos call
      by (auto simp: sb_prepare_def sb_consume_def split: prod.split)
  qed
qed

lemma outcome_success: "outcome n 0 n"
proof -
  let ?c = "sb_init \<lparr>bdata = 0, bsize = n\<rparr>"
  have start: "write_op_call single_walker transfer_all True 0 0 ?c =
      (Start_some [sb_prepare ?c default_max_transfer_size], ?c)"
    by (simp add: write_op_call_def single_walker_def transfer_all_def)
  have "single_obeys n (full_script n n) \<and> snd (single_op n (full_script n n)) = Some (0, n)"
    using full_script_drive [of ?c n] unfolding single_obeys_def single_op_def start
    by (simp add: sb_init_def)
  then show ?thesis unfolding outcome_def by blast
qed

interpretation asio: exact_transfer outcome
proof unfold_locales
  fix n ec t
  assume "outcome n ec t"
  then obtain es xs where "single_obeys n es" "single_op n es = (xs, Some (ec, t))"
    unfolding outcome_def by (metis prod.collapse)
  from single_op_addresses [OF this] show "t \<le> n" by simp
next
  fix n t
  assume "outcome n 0 t"
  then obtain es xs where "single_obeys n es" "single_op n es = (xs, Some (0, t))"
    unfolding outcome_def by (metis prod.collapse)
  from single_op_addresses [OF this] show "t = n" by simp
qed (rule outcome_success)

section \<open>Properties of a composed transfer\<close>

text \<open>
  \<^verbatim>\<open>async_write(stream, buffers, handler)\<close> over a buffer sequence, driven by a script of
  completions, and the conditions on the script.
\<close>

definition async_write_op :: "buf list \<Rightarrow> (error_code \<times> nat) list \<Rightarrow> nat list \<times> (error_code \<times> nat) option" where
  "async_write_op bs es = drive sequence_walker transfer_all
     (write_op_call sequence_walker transfer_all True 0 0 (cb_init bs)) es"

definition stream_obeys :: "buf list \<Rightarrow> (error_code \<times> nat) list \<Rightarrow> bool" where
  "stream_obeys bs es = obeys sequence_walker transfer_all
     (write_op_call sequence_walker transfer_all True 0 0 (cb_init bs)) es"

definition async_read_op :: "buf list \<Rightarrow> (error_code \<times> nat) list \<Rightarrow> nat list \<times> (error_code \<times> nat) option" where
  "async_read_op bs es = drive sequence_walker transfer_all
     (read_op_call sequence_walker transfer_all True 0 0 (cb_init bs)) es"

lemmas transfer_eval = async_write_op_def stream_obeys_def write_op_call_def sequence_walker_def
  cb_prepare_def cb_consume_def cb_init_def cb_empty_def transfer_all_def default_max_transfer_size_def
  max_prepared_def buffer_limit_def buf_add_def flat_def upt_rec

lemma cb_init_rest: "cb_rest (cb_init bs) = flats bs" "w_total sequence_walker (cb_init bs) = 0"
  by (simp_all add: cb_rest_def cb_init_def sequence_walker_def)

text \<open>
  C7. A composed write or read over any sequence of buffers, when it calls its handler, has
  passed exactly the first bytes of the sequence, in order, as many as it reports, and all
  of them when it reports no error, however the stream splits the transfer.
\<close>

theorem composed_transfer_exact:
  assumes "stream_obeys bs es" and "async_write_op bs es = (xs, Some (ec, t))"
  shows "xs = take t (flats bs) \<and> t \<le> buffer_size bs \<and> (ec = 0 \<longrightarrow> t = buffer_size bs) \<and>
    async_read_op bs es = (xs, Some (ec, t))"
  using sequence.drive_transfers [OF cb_inv_init, of bs es xs ec t] assms
  by (fastforce simp: async_write_op_def async_read_op_def stream_obeys_def read_op_is_write_op cb_init_rest)

lemma composed_transfer_exact_witness:
  "async_write_op [\<lparr>bdata = 100, bsize = 3\<rparr>, \<lparr>bdata = 7, bsize = 0\<rparr>, \<lparr>bdata = 50, bsize = 2\<rparr>] [(0, 2), (0, 3)]
     = ([100, 101, 102, 50, 51], Some (0, 5)) \<and>
   [100, 101, 102, 50, 51] =
     take 5 (flats [\<lparr>bdata = 100, bsize = 3\<rparr>, \<lparr>bdata = 7, bsize = 0\<rparr>, \<lparr>bdata = 50, bsize = 2\<rparr>])"
proof -
  let ?bs = "[\<lparr>bdata = 100, bsize = 3\<rparr>, \<lparr>bdata = 7, bsize = 0\<rparr>, \<lparr>bdata = 50, bsize = 2\<rparr>]"
  have o: "stream_obeys ?bs [(0, 2), (0, 3)]" and
    r: "async_write_op ?bs [(0, 2), (0, 3)] = ([100, 101, 102, 50, 51], Some (0, 5))"
    by (simp_all add: transfer_eval)
  from composed_transfer_exact [OF o r] r show ?thesis by simp
qed

text \<open>
  It calls the handler after at most as many completions as there are bytes (one, when
  there is none), so a stream that keeps completing its operations ends the transfer.
\<close>

theorem composed_transfer_ends:
  assumes "stream_obeys bs es" and "es \<noteq> []" and "buffer_size bs \<le> length es"
  shows "\<exists>xs ec t. async_write_op bs es = (xs, Some (ec, t))"
  using sequence.drive_finishes [OF cb_inv_init, of bs es] assms
  by (simp add: async_write_op_def stream_obeys_def cb_init_rest)

lemma composed_transfer_ends_witness:
  "\<exists>xs ec t. async_write_op [\<lparr>bdata = 9, bsize = 1\<rparr>, \<lparr>bdata = 5, bsize = 1\<rparr>] [(0, 1), (1, 0)] = (xs, Some (ec, t))"
proof -
  have "stream_obeys [\<lparr>bdata = 9, bsize = 1\<rparr>, \<lparr>bdata = 5, bsize = 1\<rparr>] [(0, 1), (1, 0)]"
    by (simp add: transfer_eval)
  from composed_transfer_ends [OF this] show ?thesis by simp
qed

text \<open>
  \<^verbatim>\<open>prepare\<close> never offers more than the \<open>max_size\<close> bytes asked for nor more than 16
  buffers, offers no empty buffer, and offers something whenever bytes are left; what it
  offers are the next bytes of the sequence.
\<close>

theorem prepare_offers_next:
  assumes "n \<le> buffer_size bs"
  shows "let c = cb_consume (cb_init bs) n; p = cb_prepare c m in
    (\<exists>k \<le> m. flats p = take k (drop n (flats bs))) \<and> length p \<le> 16 \<and> (\<forall>b \<in> set p. 0 < bsize b) \<and>
    (p = [] \<longleftrightarrow> n = buffer_size bs \<or> m = 0)"
proof -
  let ?c = "cb_consume (cb_init bs) n"
  have rest: "cb_rest ?c = drop n (flats bs)" and inv: "cb_inv ?c"
    using cb_consume_correct [OF cb_inv_init, of n bs] assms by (simp_all add: cb_init_rest)
  obtain k where k: "k \<le> m" "flats (cb_prepare ?c m) = take k (drop n (flats bs))"
    using cb_prepare_prefix [OF inv, of m] rest by auto
  have sizes: "\<forall>b \<in> set (cb_prepare ?c m). 0 < bsize b"
    by (auto simp: cb_prepare_def dest: prepare_loop_sizes)
  have "cb_prepare ?c m = [] \<longleftrightarrow> n = buffer_size bs \<or> m = 0"
  proof
    assume "cb_prepare ?c m = []"
    then show "n = buffer_size bs \<or> m = 0"
      using cb_prepare_nonempty(1) [OF inv, of m] cb_empty_iff [OF inv] rest assms by auto
  next
    assume "n = buffer_size bs \<or> m = 0"
    then have "buffer_size (cb_prepare ?c m) = 0" using k by (auto simp flip: flats_empty_iff)
    with sizes show "cb_prepare ?c m = []" by (cases "cb_prepare ?c m") auto
  qed
  then show ?thesis
    using k sizes prepare_loop_length [of 0 max_prepared] by (auto simp: Let_def cb_prepare_def max_prepared_def)
qed

lemma prepare_offers_next_witness:
  "let c = cb_consume (cb_init [\<lparr>bdata = 9, bsize = 2\<rparr>, \<lparr>bdata = 5, bsize = 3\<rparr>]) 1; p = cb_prepare c 2 in
    (\<exists>k \<le> 2. flats p = take k (drop 1 (flats [\<lparr>bdata = 9, bsize = 2\<rparr>, \<lparr>bdata = 5, bsize = 3\<rparr>]))) \<and> p \<noteq> []"
  using prepare_offers_next [of 1 "[\<lparr>bdata = 9, bsize = 2\<rparr>, \<lparr>bdata = 5, bsize = 3\<rparr>]" 2]
  by (simp add: Let_def)

end
