(* ===== verification/TCPStream.thy ===== *)
theory TCPStream
  imports NetTCPConnection AsioTransfer
begin

text \<open>
  One direction of a connection, end to end: the writing half of one
  \<^verbatim>\<open>TCPConnection\<close>, the bytes in flight, the reading half of its peer and the queue the
  peer's application reads. Every step is a call of the application, a closure run by the
  \<^verbatim>\<open>io_context\<close>, or the completion of an outstanding \<^verbatim>\<open>async_write\<close> or
  \<^verbatim>\<open>async_read\<close>, in any order. What such an operation can end with is a parameter \<open>T\<close>
  (size, error, bytes passed) under the contract \<open>exact_transfer\<close>, which the composed
  operations of Asio meet (\<open>AsioTransfer\<close>); TCP itself delivers bytes in order.

  \<open>sent\<close>, \<open>emitted\<close>, \<open>consumed\<close> and \<open>taken\<close> record what happened, to state properties.
\<close>

section \<open>The system\<close>

record stream_sys =
  sndr :: tcp_connection
  rcvr :: tcp_connection
  wire :: "byte list"
  rq :: incoming
  sent :: "packet list"
  emitted :: "byte list"
  consumed :: "byte list"
  taken :: "owned_packet list"

definition stream_init :: "tcp_connection \<Rightarrow> tcp_connection \<Rightarrow> stream_sys" where
  "stream_init a b = \<lparr>sndr = a, rcvr = b, wire = [], rq = empty_queue, sent = [], emitted = [],
     consumed = [], taken = []\<rparr>"

text \<open>The client writes and the server reads, and the other way round.\<close>

definition upstream :: "nat \<Rightarrow> u32 \<Rightarrow> u32 \<Rightarrow> u32 \<Rightarrow> stream_sys" where
  "upstream me sid0 sid1 clientID =
     stream_init (on_connected 0 (ConnectToServer 1 (new_connection Client_side 0 sid0 False)))
       (ConnectToClient clientID (new_connection Server_side me sid1 True))"

definition downstream :: "nat \<Rightarrow> u32 \<Rightarrow> u32 \<Rightarrow> u32 \<Rightarrow> stream_sys" where
  "downstream me sid0 sid1 clientID =
     stream_init (ConnectToClient clientID (new_connection Server_side me sid1 True))
       (on_connected 0 (ConnectToServer 1 (new_connection Client_side 0 sid0 False)))"

fun sent_by :: "task \<Rightarrow> packet list" where
  "sent_by (Task_send p) = [p]"
| "sent_by Task_close = []"

definition delivered :: "stream_sys \<Rightarrow> owned_packet list" where
  "delivered s = taken s @ m_deqQueue (rq s)"

inductive stream_step :: "(nat \<Rightarrow> error_code \<Rightarrow> nat \<Rightarrow> bool) \<Rightarrow> stream_sys \<Rightarrow> stream_sys \<Rightarrow> bool"
  for T where
  app_send: "stream_step T s (s\<lparr>sndr := SendPacket p (sndr s)\<rparr>)"
| app_disconnect: "stream_step T s (s\<lparr>sndr := Disconnect (sndr s)\<rparr>)"
| task: "posted (sndr s) = k # ks \<Longrightarrow> run_task k ((sndr s)\<lparr>posted := ks\<rparr>) = Inr c \<Longrightarrow>
    stream_step T s (s\<lparr>sndr := c, sent := sent s @ sent_by k\<rparr>)"
| header_written: "out_ops (sndr s) = Writing_header # ops \<Longrightarrow>
    get_front (m_PktOut (sndr s)) = Inr p \<Longrightarrow> T sizeof_header ec t \<Longrightarrow>
    bs = take t (header_bytes pad (header p)) \<Longrightarrow>
    on_header_written ec ((sndr s)\<lparr>out_ops := ops\<rparr>) = Inr c \<Longrightarrow>
    stream_step T s (s\<lparr>sndr := c, wire := wire s @ bs, emitted := emitted s @ bs\<rparr>)"
| data_written: "out_ops (sndr s) = Writing_data # ops \<Longrightarrow>
    get_front (m_PktOut (sndr s)) = Inr p \<Longrightarrow> T (length (body p)) ec t \<Longrightarrow>
    bs = take t (body p) \<Longrightarrow>
    on_data_written ec ((sndr s)\<lparr>out_ops := ops\<rparr>) = Inr c \<Longrightarrow>
    stream_step T s (s\<lparr>sndr := c, wire := wire s @ bs, emitted := emitted s @ bs\<rparr>)"
| header_read: "in_ops (rcvr s) = Reading_header # ops \<Longrightarrow> T sizeof_header ec t \<Longrightarrow>
    t \<le> length (wire s) \<Longrightarrow>
    on_header_read ec (store_header (take t (wire s)) ((rcvr s)\<lparr>in_ops := ops\<rparr>)) (rq s) = (c, q) \<Longrightarrow>
    stream_step T s (s\<lparr>rcvr := c, rq := q, wire := drop t (wire s),
      consumed := consumed s @ take t (wire s)\<rparr>)"
| data_read: "in_ops (rcvr s) = Reading_data # ops \<Longrightarrow>
    T (length (body (m_tmpPktIn (rcvr s)))) ec t \<Longrightarrow> t \<le> length (wire s) \<Longrightarrow>
    on_data_read ec (store_body (take t (wire s)) ((rcvr s)\<lparr>in_ops := ops\<rparr>)) (rq s) = (c, q) \<Longrightarrow>
    stream_step T s (s\<lparr>rcvr := c, rq := q, wire := drop t (wire s),
      consumed := consumed s @ take t (wire s)\<rparr>)"
| app_take: "pop_front (rq s) = Inr (x, q) \<Longrightarrow> stream_step T s (s\<lparr>rq := q, taken := taken s @ [x]\<rparr>)"
| rcvr_close: "stream_step T s (s\<lparr>rcvr := close_socket (rcvr s)\<rparr>)"

inductive stream_reach :: "(nat \<Rightarrow> error_code \<Rightarrow> nat \<Rightarrow> bool) \<Rightarrow> stream_sys \<Rightarrow> stream_sys \<Rightarrow> bool"
  for T s0 where
  start: "stream_reach T s0 s0"
| step: "stream_reach T s0 s \<Longrightarrow> stream_step T s s' \<Longrightarrow> stream_reach T s0 s'"

lemma stream_reach_trans:
  "stream_reach T s1 s2 \<Longrightarrow> stream_reach T s0 s1 \<Longrightarrow> stream_reach T s0 s2"
  by (induction rule: stream_reach.induct) (auto intro: stream_reach.step)

section \<open>What the bytes mean\<close>

text \<open>A packet whose header gives the length of its body, and the encodings of a list of packets.\<close>

definition exact :: "packet \<Rightarrow> bool" where
  "exact p \<longleftrightarrow> unat (hsize (header p)) = length (body p)"

fun encodes :: "packet list \<Rightarrow> byte list \<Rightarrow> bool" where
  "encodes [] bs \<longleftrightarrow> bs = []"
| "encodes (p # ps) bs \<longleftrightarrow> (\<exists>pad rest. bs = wire_bytes pad p @ rest \<and> encodes ps rest)"

text \<open>
  What the reader makes of a list of packets: one with an empty body is delivered with the
  body that \<^verbatim>\<open>m_tmpPktIn\<close> still holds, that of the last packet that had one.
\<close>

fun deliver :: "byte list \<Rightarrow> packet list \<Rightarrow> packet list" where
  "deliver old [] = []"
| "deliver old (p # ps) =
     (if body p = [] then p\<lparr>body := old\<rparr> # deliver old ps else p # deliver (body p) ps)"

fun last_body :: "byte list \<Rightarrow> packet list \<Rightarrow> byte list" where
  "last_body old [] = old"
| "last_body old (p # ps) = last_body (if body p = [] then old else body p) ps"

lemma deliver_snoc:
  "deliver old (ps @ [p]) =
     deliver old ps @ [if body p = [] then p\<lparr>body := last_body old ps\<rparr> else p]"
  by (induction ps arbitrary: old) auto

lemma last_body_snoc [simp]:
  "last_body old (ps @ [p]) = (if body p = [] then last_body old ps else body p)"
  by (induction ps arbitrary: old) auto

lemma deliver_nonempty: "(\<And>p. p \<in> set ps \<Longrightarrow> body p \<noteq> []) \<Longrightarrow> deliver old ps = ps"
  by (induction ps arbitrary: old) auto

lemma deliver_nth:
  "n < length ps \<Longrightarrow> deliver old ps ! n = (ps ! n)\<lparr>body := last_body old (take (Suc n) ps)\<rparr>"
proof (induction ps arbitrary: old n)
  case (Cons p ps)
  then show ?case by (cases n) auto
qed simp

lemma last_body_take:
  "n < length ps \<Longrightarrow> m \<le> n \<Longrightarrow> body (ps ! m) \<noteq> [] \<Longrightarrow> \<forall>k. m < k \<and> k \<le> n \<longrightarrow> body (ps ! k) = [] \<Longrightarrow>
    last_body old (take (Suc n) ps) = body (ps ! m)"
proof (induction n)
  case (Suc n)
  then have "take (Suc (Suc n)) ps = take (Suc n) ps @ [ps ! Suc n]" by (simp only: take_Suc_conv_app_nth)
  with Suc show ?case by (cases "m = Suc n") simp_all
qed (simp add: take_Suc_conv_app_nth)

lemma length_deliver [simp]: "length (deliver old ps) = length ps"
  by (induction ps arbitrary: old) auto

lemma encodes_append:
  "encodes (ps @ qs) bs \<longleftrightarrow> (\<exists>b1 b2. bs = b1 @ b2 \<and> encodes ps b1 \<and> encodes qs b2)"
proof (induction ps arbitrary: bs)
  case (Cons p ps)
  then show ?case by (auto; metis append.assoc)
qed simp

lemma encodes_snoc: "encodes ps bs \<Longrightarrow> encodes (ps @ [p]) (bs @ wire_bytes pad p)"
  by (auto simp: encodes_append)

lemma encodes_exists: "\<exists>bs. encodes ps bs"
  by (induction ps) auto

text \<open>Encodings of exact packets can be told apart.\<close>

lemma wire_bytes_decode:
  assumes "wire_bytes pad p @ x = wire_bytes pad' q @ y" and "exact p" and "exact q"
  shows "p = q \<and> x = y"
proof -
  have "header_bytes pad (header p) = header_bytes pad' (header q)"
    and b: "body p @ x = body q @ y"
    using assms(1) by (simp_all add: wire_bytes_def append_eq_append_conv)
  then have h: "header p = header q" by (metis header_of_bytes_bytes)
  then have "length (body p) = length (body q)" using assms(2,3) by (simp add: exact_def)
  with b h show ?thesis by (auto intro: packet_eqI)
qed

lemma encodes_prefix:
  assumes "encodes ds b" and "encodes ps (b @ r)"
    and "\<forall>d \<in> set ds. exact d" and "\<forall>p \<in> set ps. exact p"
  shows "\<exists>more. ps = ds @ more \<and> encodes more r"
  using assms
proof (induction ds arbitrary: b ps)
  case Nil
  then show ?case by simp
next
  case (Cons d ds)
  then obtain pad b' where b: "b = wire_bytes pad d @ b'" "encodes ds b'" by auto
  show ?case
  proof (cases ps)
    case Nil
    with Cons.prems b show ?thesis by (simp add: wire_bytes_def)
  next
    case (Cons p ps')
    then obtain pad' r' where r': "b @ r = wire_bytes pad' p @ r'" "encodes ps' r'"
      using Cons.prems by auto
    then have "d = p" "b' @ r = r'" using wire_bytes_decode [of pad d "b' @ r" pad' p r'] b Cons Cons.prems by auto
    with Cons.IH [OF b(2), of ps'] r' Cons Cons.prems show ?thesis by auto
  qed
qed

section \<open>The writing half\<close>

text \<open>
  What has been written is the encoding of the packets that have left the queue, and, once
  its header is out, of the front packet's header; after a failed write it is cut short.
\<close>

fun sent_shape :: "out_op list \<Rightarrow> packet list \<Rightarrow> packet list \<Rightarrow> byte list \<Rightarrow> bool" where
  "sent_shape [] q gone e \<longleftrightarrow> (\<exists>tail. encodes (gone @ q) (e @ tail) \<and> (q = [] \<longrightarrow> tail = []))"
| "sent_shape (Writing_header # _) q gone e \<longleftrightarrow> encodes gone e"
| "sent_shape (Writing_data # _) q gone e \<longleftrightarrow>
     (\<exists>pad e'. e = e' @ header_bytes pad (header (hd q)) \<and> encodes gone e')"

definition sent_inv :: "stream_sys \<Rightarrow> bool" where
  "sent_inv s \<longleftrightarrow> (\<exists>gone. sent s = gone @ m_deqQueue (m_PktOut (sndr s)) \<and>
     sent_shape (out_ops (sndr s)) (m_deqQueue (m_PktOut (sndr s))) gone (emitted s))"

lemma encodes_more: "encodes ps (e @ tail) \<Longrightarrow> \<exists>tail'. encodes (ps @ qs) (e @ tail')"
  using encodes_exists [of qs] by (auto simp: encodes_append) (metis append.assoc)

lemma sent_shape_tail:
  assumes "write_shape ops q is_open" and "sent_shape ops q gone e"
  shows "\<exists>tail. encodes (gone @ q) (e @ tail)"
  using assms
proof (cases "(ops, q, is_open)" rule: write_shape.cases)
  case (2 q0 o0)
  with assms encodes_more [of gone e "[]" q] show ?thesis by auto
next
  case (3 q0 o0)
  with assms obtain p ps pad e' where q: "q = p # ps" "e = e' @ header_bytes pad (header p)"
    "encodes gone e'" by auto
  then have "encodes (gone @ [p]) (e @ body p)"
    using encodes_snoc [of gone e' p pad] by (simp add: wire_bytes_def)
  from encodes_more [OF this, of ps] q show ?thesis by auto
qed auto

lemma sent_inv_tail:
  assumes "write_inv (sndr s)" and "sent_inv s"
  shows "\<exists>tail. encodes (sent s) (emitted s @ tail)"
  using assms sent_shape_tail unfolding write_inv_def sent_inv_def by metis

lemma sent_inv_run_send:
  assumes w: "write_inv (sndr s)" and s: "sent_inv s"
    and c: "run_send p ((sndr s)\<lparr>posted := ks\<rparr>) = Inr c"
  shows "sent_inv (s\<lparr>sndr := c, sent := sent s @ [p]\<rparr>)"
proof -
  have c': "out_ops c = (if m_deqQueue (m_PktOut (sndr s)) = [] then [Writing_header] else out_ops (sndr s))"
    "m_deqQueue (m_PktOut c) = m_deqQueue (m_PktOut (sndr s)) @ [p]"
    using c run_send_result [of "(sndr s)\<lparr>posted := ks\<rparr>" p] w by auto
  from w show ?thesis
  proof (cases rule: write_inv_cases)
    case idle
    with s obtain gone tail where g: "sent s = gone @ m_deqQueue (m_PktOut (sndr s))"
      "encodes (gone @ m_deqQueue (m_PktOut (sndr s))) (emitted s @ tail)"
      "m_deqQueue (m_PktOut (sndr s)) = [] \<longrightarrow> tail = []" by (auto simp: sent_inv_def)
    show ?thesis
    proof (cases "m_deqQueue (m_PktOut (sndr s)) = []")
      case True
      with g c' show ?thesis by (auto simp: sent_inv_def)
    next
      case False
      with g c' encodes_more [OF g(2), of "[p]"] idle show ?thesis by (auto simp: sent_inv_def)
    qed
  qed (use s c' in \<open>auto simp: sent_inv_def\<close>)
qed

lemma sent_inv_header_written:
  assumes w: "write_inv (sndr s)" and s: "sent_inv s" and ops: "out_ops (sndr s) = Writing_header # ops"
    and p: "get_front (m_PktOut (sndr s)) = Inr p" and t: "ec = 0 \<Longrightarrow> t = sizeof_header"
    and c: "on_header_written ec ((sndr s)\<lparr>out_ops := ops\<rparr>) = Inr c"
    and bs: "bs = take t (header_bytes pad (header p))"
  shows "sent_inv (s\<lparr>sndr := c, wire := w', emitted := emitted s @ bs\<rparr>)"
  using w
proof (cases rule: write_inv_cases)
  case (writing_header p' ps)
  with p ops have q: "m_deqQueue (m_PktOut (sndr s)) = p # ps" and ops': "ops = []"
    by (auto simp: get_front_def)
  from s q ops have g: "\<exists>gone. sent s = gone @ p # ps \<and> encodes gone (emitted s)"
    by (auto simp: sent_inv_def)
  then obtain gone where g: "sent s = gone @ p # ps" "encodes gone (emitted s)" by blast
  note snoc = encodes_snoc [OF g(2), of p pad]
  note c' = on_header_written_result [of "(sndr s)\<lparr>out_ops := ops\<rparr>" p ps ec, unfolded c, simplified, OF q ops']
  show ?thesis
  proof (cases "ec = 0")
    case True
    with t bs have "bs = header_bytes pad (header p)" by simp
    with True g q c' snoc show ?thesis
      by (cases "body p"; cases ps) (auto simp: sent_inv_def wire_bytes_def)
  next
    case False
    have "\<exists>tail. encodes (gone @ [p]) ((emitted s @ bs) @ tail)"
      using snoc bs by (metis append.assoc append_take_drop_id wire_bytes_def)
    with encodes_more [of "gone @ [p]" "emitted s @ bs" _ ps] obtain tail where
      "encodes (sent s) (emitted s @ bs @ tail)" using g(1) by auto
    with False g q c' show ?thesis by (auto simp: sent_inv_def ops')
  qed
qed (use ops in auto)

lemma sent_inv_data_written:
  assumes w: "write_inv (sndr s)" and s: "sent_inv s" and ops: "out_ops (sndr s) = Writing_data # ops"
    and p: "get_front (m_PktOut (sndr s)) = Inr p" and t: "ec = 0 \<Longrightarrow> t = length (body p)"
    and c: "on_data_written ec ((sndr s)\<lparr>out_ops := ops\<rparr>) = Inr c"
    and bs: "bs = take t (body p)"
  shows "sent_inv (s\<lparr>sndr := c, wire := w', emitted := emitted s @ bs\<rparr>)"
  using w
proof (cases rule: write_inv_cases)
  case (writing_data p' ps)
  with p ops have q: "m_deqQueue (m_PktOut (sndr s)) = p # ps" and ops': "ops = []"
    by (auto simp: get_front_def)
  from s q ops obtain gone pad e where g: "sent s = gone @ p # ps"
    "emitted s = e @ header_bytes pad (header p)" "encodes gone e" by (auto simp: sent_inv_def)
  note snoc = encodes_snoc [OF g(3), of p pad]
  note c' = on_data_written_result [of "(sndr s)\<lparr>out_ops := ops\<rparr>" p ps ec, unfolded c, simplified, OF q ops']
  show ?thesis
  proof (cases "ec = 0")
    case True
    with t bs have "bs = body p" by simp
    with True g q c' snoc show ?thesis
      by (cases ps) (auto simp: sent_inv_def wire_bytes_def)
  next
    case False
    have "\<exists>tail. encodes (gone @ [p]) ((emitted s @ bs) @ tail)"
      using snoc bs g(2) by (metis append.assoc append_take_drop_id wire_bytes_def)
    with encodes_more [of "gone @ [p]" "emitted s @ bs" _ ps] obtain tail where
      "encodes (sent s) (emitted s @ bs @ tail)" using g(1) by auto
    with False g q c' show ?thesis by (auto simp: sent_inv_def ops')
  qed
qed (use ops in auto)

section \<open>The reading half\<close>

fun recv_shape :: "in_op list \<Rightarrow> packet \<Rightarrow> packet list \<Rightarrow> byte list \<Rightarrow> byte list \<Rightarrow> bool" where
  "recv_shape [] p ds c0 c \<longleftrightarrow> (\<exists>part. c = c0 @ part)"
| "recv_shape [Reading_header] p ds c0 c \<longleftrightarrow> c = c0 \<and> body p = last_body [] ds"
| "recv_shape [Reading_data] p ds c0 c \<longleftrightarrow>
     (\<exists>pad. c = c0 @ header_bytes pad (header p)) \<and> hsize (header p) > 0 \<and>
     length (body p) = unat (hsize (header p))"
| "recv_shape _ p ds c0 c \<longleftrightarrow> False"

definition recv_inv :: "stream_sys \<Rightarrow> bool" where
  "recv_inv s \<longleftrightarrow> (\<exists>ds c0. encodes ds c0 \<and> (\<forall>d \<in> set ds. exact d) \<and>
     map opkt (delivered s) = deliver [] ds \<and>
     recv_shape (in_ops (rcvr s)) (m_tmpPktIn (rcvr s)) ds c0 (consumed s))"

lemma recv_shape_cases:
  assumes "recv_shape (i # ops) p ds c0 c"
  shows "ops = []"
  using assms by (cases "(i # ops, p, ds, c0, c)" rule: recv_shape.cases) auto

lemma PushToIncomingQueue_result:
  "PushToIncomingQueue c q = (c', q') \<Longrightarrow>
     in_ops c' = in_ops c @ [Reading_header] \<and> m_tmpPktIn c' = m_tmpPktIn c \<and>
     map opkt (m_deqQueue q') = map opkt (m_deqQueue q) @ [m_tmpPktIn c]"
  by (auto simp: PushToIncomingQueue_def ReadHeader_def Let_def split: if_splits)

lemma store_header_full:
  assumes "length bs = sizeof_header"
  shows "m_tmpPktIn (store_header bs c) = (m_tmpPktIn c)\<lparr>header := header_of_bytes bs\<rparr>"
  using assms by (simp add: store_header_def overwrite_def)

lemma store_fields [simp]:
  "in_ops (store_header bs c) = in_ops c" "in_ops (store_body bs c) = in_ops c"
  "m_Type (store_header bs c) = m_Type c" "m_Type (store_body bs c) = m_Type c"
  "self (store_header bs c) = self c" "self (store_body bs c) = self c"
  by (simp_all add: store_header_def store_body_def)

lemma recv_inv_header_read:
  assumes inv: "recv_inv s" and ops: "in_ops (rcvr s) = Reading_header # ops"
    and t: "ec = 0 \<Longrightarrow> t = sizeof_header" and le: "t \<le> length (wire s)"
    and h: "on_header_read ec (store_header (take t (wire s)) ((rcvr s)\<lparr>in_ops := ops\<rparr>)) (rq s) = (c, q)"
  shows "recv_inv (s\<lparr>rcvr := c, rq := q, wire := w', consumed := consumed s @ take t (wire s)\<rparr>)"
proof -
  let ?r = "(rcvr s)\<lparr>in_ops := ops\<rparr>" and ?bs = "take t (wire s)"
  obtain ds c0 where D: "encodes ds c0" "\<forall>d \<in> set ds. exact d" "map opkt (delivered s) = deliver [] ds"
    "recv_shape (Reading_header # ops) (m_tmpPktIn (rcvr s)) ds c0 (consumed s)"
    using inv ops by (auto simp: recv_inv_def)
  have ops0: "ops = []" using recv_shape_cases [OF D(4)] .
  with D(4) have c: "consumed s = c0" and b: "body (m_tmpPktIn (rcvr s)) = last_body [] ds"
    by auto
  show ?thesis
  proof (cases "ec = 0")
    case False
    with h have "in_ops c = []" "q = rq s"
      by (auto simp: on_header_read_def close_socket_def ops0 split: if_splits)
    with D c show ?thesis by (auto simp: recv_inv_def delivered_def)
  next
    case True
    then have bs: "length ?bs = sizeof_header" using t le by simp
    define hd' where "hd' = header_of_bytes ?bs"
    define pad where "pad = (of_le_bytes (take 2 (drop 2 ?bs)) :: u16)"
    have wire: "?bs = header_bytes pad hd'"
      using header_bytes_of_bytes [OF bs] by (simp add: hd'_def pad_def)
    have tmp: "m_tmpPktIn (store_header ?bs ?r) = (m_tmpPktIn (rcvr s))\<lparr>header := hd'\<rparr>"
      using store_header_full [OF bs, of ?r] by (simp add: hd'_def)
    show ?thesis
    proof (cases "hsize hd' > 0")
      case pos: True
      have "in_ops c = [Reading_data]" "q = rq s" "header (m_tmpPktIn c) = hd'"
        "length (body (m_tmpPktIn c)) = unat (hsize hd')"
        using h True pos tmp ops0
        by (auto simp: on_header_read_def ReadData_def Let_def resize_def)
      with D c wire pos show ?thesis by (auto simp: recv_inv_def delivered_def)
    next
      case zero: False
      define d where "d = \<lparr>header = hd', body = []\<rparr>"
      have d: "exact d" "encodes (ds @ [d]) (c0 @ ?bs)"
        using zero encodes_snoc [OF D(1), of d pad] wire
        by (auto simp: d_def exact_def wire_bytes_def word_gt_0)
      have push: "PushToIncomingQueue (store_header ?bs ?r) (rq s) = (c, q)"
        using h True zero tmp by (simp add: on_header_read_def)
      have "(m_tmpPktIn (rcvr s))\<lparr>header := hd'\<rparr> = d\<lparr>body := last_body [] ds\<rparr>"
        using b by (simp add: d_def)
      with PushToIncomingQueue_result [OF push] tmp ops0 D d c b show ?thesis
        unfolding recv_inv_def by (intro exI [of _ "ds @ [d]"] exI [of _ "c0 @ ?bs"])
          (auto simp: delivered_def deliver_snoc d_def)
    qed
  qed
qed

lemma recv_inv_data_read:
  assumes inv: "recv_inv s" and ops: "in_ops (rcvr s) = Reading_data # ops"
    and t: "ec = 0 \<Longrightarrow> t = length (body (m_tmpPktIn (rcvr s)))" and le: "t \<le> length (wire s)"
    and h: "on_data_read ec (store_body (take t (wire s)) ((rcvr s)\<lparr>in_ops := ops\<rparr>)) (rq s) = (c, q)"
  shows "recv_inv (s\<lparr>rcvr := c, rq := q, wire := w', consumed := consumed s @ take t (wire s)\<rparr>)"
proof -
  let ?r = "(rcvr s)\<lparr>in_ops := ops\<rparr>" and ?bs = "take t (wire s)" and ?p = "m_tmpPktIn (rcvr s)"
  obtain ds c0 where D: "encodes ds c0" "\<forall>d \<in> set ds. exact d" "map opkt (delivered s) = deliver [] ds"
    "recv_shape (Reading_data # ops) ?p ds c0 (consumed s)"
    using inv ops by (auto simp: recv_inv_def)
  then have ops0: "ops = []" using recv_shape_cases by blast
  with D obtain pad where c: "consumed s = c0 @ header_bytes pad (header ?p)"
    and n: "hsize (header ?p) > 0" "length (body ?p) = unat (hsize (header ?p))" by auto
  show ?thesis
  proof (cases "ec = 0")
    case False
    with h have "in_ops c = []" "q = rq s" by (auto simp: on_data_read_def close_socket_def ops0)
    with D c show ?thesis by (auto simp: recv_inv_def delivered_def)
  next
    case True
    then have len: "length ?bs = length (body ?p)" using t le by simp
    define d where "d = ?p\<lparr>body := ?bs\<rparr>"
    have tmp: "m_tmpPktIn (store_body ?bs ?r) = d"
      using len by (simp add: store_body_def overwrite_def d_def)
    have "unat (hsize (header ?p)) \<noteq> 0" using n(1) by (simp add: word_gt_0 unat_eq_zero)
    then have d: "exact d" "body d \<noteq> []" "encodes (ds @ [d]) (c0 @ header_bytes pad (header ?p) @ ?bs)"
      using n len encodes_snoc [OF D(1), of d pad] by (auto simp: d_def exact_def wire_bytes_def)
    have push: "PushToIncomingQueue (store_body ?bs ?r) (rq s) = (c, q)"
      using h True by (simp add: on_data_read_def)
    from PushToIncomingQueue_result [OF push] tmp ops0 D d c show ?thesis
      unfolding recv_inv_def
      by (intro exI [of _ "ds @ [d]"] exI [of _ "c0 @ header_bytes pad (header ?p) @ ?bs"])
        (auto simp: delivered_def deliver_snoc)
  qed
qed

section \<open>Both halves\<close>

definition stream_inv :: "stream_sys \<Rightarrow> bool" where
  "stream_inv s \<longleftrightarrow> write_inv (sndr s) \<and> sent_inv s \<and> recv_inv s \<and> emitted s = consumed s @ wire s"

text \<open>A connected pair: nothing queued, nothing sent, the reader waiting for a header.\<close>

definition stream_start :: "stream_sys \<Rightarrow> bool" where
  "stream_start s \<longleftrightarrow> m_deqQueue (m_PktOut (sndr s)) = [] \<and> out_ops (sndr s) = [] \<and>
     posted (sndr s) = [] \<and> sent s = [] \<and> emitted s = [] \<and> consumed s = [] \<and> wire s = [] \<and>
     taken s = [] \<and> m_deqQueue (rq s) = [] \<and> in_ops (rcvr s) = [Reading_header] \<and>
     m_tmpPktIn (rcvr s) = new_packet"

lemma stream_start_streams:
  "stream_start (upstream me sid0 sid1 i)" "stream_start (downstream me sid0 sid1 i)"
  by (simp_all add: stream_start_def upstream_def downstream_def stream_init_def tcp_defs Let_def)

lemma stream_inv_start: "stream_start s \<Longrightarrow> stream_inv s"
  by (auto simp: stream_inv_def stream_start_def write_inv_def sent_inv_def recv_inv_def delivered_def
      intro!: exI [of _ "[]"])

context exact_transfer
begin

lemma stream_inv_step: "stream_step T s s' \<Longrightarrow> stream_inv s \<Longrightarrow> stream_inv s'"
proof (induction rule: stream_step.induct)
  case (app_send s p)
  then show ?case
    by (auto simp: stream_inv_def SendPacket_def sent_inv_def recv_inv_def delivered_def)
next
  case (app_disconnect s)
  then show ?case
    by (auto simp: stream_inv_def Disconnect_def sent_inv_def recv_inv_def delivered_def)
next
  case (task s k ks c)
  show ?case
  proof (cases k)
    case (Task_send p)
    with task show ?thesis
      using sent_inv_run_send [of s p ks c] write_inv_run_send [of "(sndr s)\<lparr>posted := ks\<rparr>" p c]
      by (simp add: stream_inv_def recv_inv_def delivered_def)
  next
    case Task_close
    with task have "write_inv (sndr s) \<Longrightarrow> write_inv c"
      by (auto simp: close_socket_def write_inv_def
          elim!: write_shape.elims)
    with task Task_close show ?thesis
      by (auto simp: stream_inv_def recv_inv_def delivered_def sent_inv_def close_socket_def)
  qed
next
  case (header_written s ops p ec t bs pad c)
  then show ?case
    using sent_inv_header_written [of s ops p ec t c bs pad "wire s @ bs"] complete
      write_inv_header_written [of "sndr s" ops ec c]
    by (auto simp: stream_inv_def recv_inv_def delivered_def)
next
  case (data_written s ops p ec t bs c)
  then show ?case
    using sent_inv_data_written [of s ops p ec t c bs "wire s @ bs"] complete
      write_inv_data_written [of "sndr s" ops ec c]
    by (auto simp: stream_inv_def recv_inv_def delivered_def)
next
  case (header_read s ops ec t c q)
  then show ?case
    using recv_inv_header_read [of s ops ec t c q "drop t (wire s)"] complete
    by (auto simp: stream_inv_def sent_inv_def)
next
  case (data_read s ops ec t c q)
  then show ?case
    using recv_inv_data_read [of s ops ec t c q "drop t (wire s)"] complete
    by (auto simp: stream_inv_def sent_inv_def)
next
  case (app_take s x q)
  then have "delivered (s\<lparr>rq := q, taken := taken s @ [x]\<rparr>) = delivered s"
    using front_queue.get_Inr by (fastforce simp: delivered_def)
  with app_take show ?case by (auto simp: stream_inv_def sent_inv_def recv_inv_def)
next
  case (rcvr_close s)
  then show ?case by (auto simp: stream_inv_def sent_inv_def recv_inv_def delivered_def close_socket_def)
qed

lemma stream_inv_reach:
  assumes "stream_reach T s0 s" and "stream_start s0"
  shows "stream_inv s"
  using assms by (induction rule: stream_reach.induct) (auto intro: stream_inv_start stream_inv_step)

lemma delivery_bytes:
  assumes "stream_reach T s0 s" and "stream_start s0"
  shows "\<exists>ds bs part rest. emitted s = bs @ part \<and> encodes (sent s) (emitted s @ rest) \<and> encodes ds bs \<and>
    (\<forall>d \<in> set ds. exact d) \<and> map opkt (delivered s) = deliver [] ds"
proof -
  from stream_inv_reach [OF assms] have inv: "write_inv (sndr s)" "sent_inv s" "recv_inv s"
    "emitted s = consumed s @ wire s" by (auto simp: stream_inv_def)
  obtain tail where tail: "encodes (sent s) (emitted s @ tail)" using sent_inv_tail [OF inv(1,2)] by blast
  obtain ds c0 where D: "encodes ds c0" "\<forall>d \<in> set ds. exact d" "map opkt (delivered s) = deliver [] ds"
    and shape: "recv_shape (in_ops (rcvr s)) (m_tmpPktIn (rcvr s)) ds c0 (consumed s)"
    using inv(3) by (auto simp: recv_inv_def)
  from shape obtain part where "consumed s = c0 @ part"
    by (cases "(in_ops (rcvr s), m_tmpPktIn (rcvr s), ds, c0, consumed s)" rule: recv_shape.cases) auto
  then have "emitted s = c0 @ (part @ wire s)" using inv(4) by simp
  with D tail show ?thesis by blast
qed

text \<open>When every header is exact, the packets the bytes encode are those that were sent.\<close>

lemma exact_delivery:
  assumes "encodes ps ((bs @ part) @ rest)" "encodes ds bs" "\<forall>d \<in> set ds. exact d" "\<forall>p \<in> set ps. exact p"
  shows "\<exists>more. ps = ds @ more"
  using encodes_prefix [OF assms(2) _ assms(3,4), of "part @ rest"] assms(1) by auto

lemma delivery:
  assumes "stream_reach T s0 s" and "stream_start s0" and "\<forall>p \<in> set (sent s). exact p"
  shows "\<exists>ds more. sent s = ds @ more \<and> map opkt (delivered s) = deliver [] ds"
  using delivery_bytes [OF assms(1,2)] exact_delivery [OF _ _ _ assms(3)] by metis

end

section \<open>A run with no failure\<close>

text \<open>Between two packets: nothing outstanding but the read of a header.\<close>

definition idle_writer :: "tcp_connection \<Rightarrow> bool" where
  "idle_writer c \<longleftrightarrow> m_deqQueue (m_PktOut c) = [] \<and> out_ops c = [] \<and> posted c = []"

definition wire_of :: "packet list \<Rightarrow> byte list" where
  "wire_of ps = concat (map (wire_bytes 0) ps)"

lemma store_body_tmp:
  "length bs = length (body (m_tmpPktIn c)) \<Longrightarrow>
     m_tmpPktIn (store_body bs c) = (m_tmpPktIn c)\<lparr>body := bs\<rparr>"
  by (simp add: store_body_def overwrite_def)

lemma length_resize [simp]: "length (resize n bs) = n"
  by (simp add: resize_def)

context exact_transfer
begin

lemma write_one:
  assumes "idle_writer (sndr s)"
  shows "\<exists>s'. stream_reach T s s' \<and> idle_writer (sndr s') \<and>
    wire s' = wire s @ wire_bytes 0 p \<and> rcvr s' = rcvr s \<and> rq s' = rq s \<and>
    taken s' = taken s \<and> sent s' = sent s @ [p]"
proof -
  let ?c = "(sndr s)\<lparr>m_PktOut := \<lparr>m_deqQueue = [p]\<rparr>, out_ops := [Writing_header], posted := []\<rparr>"
  let ?s2 = "s\<lparr>sndr := ?c, sent := sent s @ [p]\<rparr>"
  from assms have q: "m_PktOut (sndr s) = \<lparr>m_deqQueue = []\<rparr>" "out_ops (sndr s) = []"
    "posted (sndr s) = []"
    by (cases "m_PktOut (sndr s)"; simp add: idle_writer_def)+
  have s1: "stream_reach T s (s\<lparr>sndr := SendPacket p (sndr s)\<rparr>)"
    by (rule stream_reach.step [OF stream_reach.start app_send])
  have "run_task (Task_send p) ((sndr s)\<lparr>posted := []\<rparr>) = Inr ?c"
    using q by (simp add: run_send_def WriteHeader_def queue_defs)
  with q have "stream_step T (s\<lparr>sndr := SendPacket p (sndr s)\<rparr>) ?s2"
    using task [of "s\<lparr>sndr := SendPacket p (sndr s)\<rparr>" "Task_send p" "[]" ?c T]
    by (simp add: SendPacket_def)
  with s1 have s2: "stream_reach T s ?s2" by (rule stream_reach.step)
  have front: "get_front (m_PktOut (sndr ?s2)) = Inr p" by (simp add: get_front_def)
  let ?h = "header_bytes 0 (header p)" and ?e = "?c\<lparr>m_PktOut := \<lparr>m_deqQueue = []\<rparr>, out_ops := []\<rparr>"
  show ?thesis
  proof (cases "body p = []")
    case True
    have "stream_step T ?s2 (?s2\<lparr>sndr := ?e, wire := wire ?s2 @ ?h, emitted := emitted ?s2 @ ?h\<rparr>)"
      using header_written [of ?s2 "[]" p T 0 sizeof_header ?h 0 ?e] front can_succeed True
      by (simp add: on_header_written_result)
    note r = stream_reach.step [OF s2 this]
    show ?thesis
      by (rule exI, rule conjI, rule r) (use q True in \<open>simp add: wire_bytes_def idle_writer_def\<close>)
  next
    case False
    let ?d = "?c\<lparr>out_ops := [Writing_data]\<rparr>"
    let ?s3 = "?s2\<lparr>sndr := ?d, wire := wire ?s2 @ ?h, emitted := emitted ?s2 @ ?h\<rparr>"
    have "stream_step T ?s2 ?s3"
      using header_written [of ?s2 "[]" p T 0 sizeof_header ?h 0 ?d] front can_succeed False
      by (simp add: on_header_written_result)
    from stream_reach.step [OF s2 this] have s3: "stream_reach T s ?s3" .
    have "stream_step T ?s3 (?s3\<lparr>sndr := ?e, wire := wire ?s3 @ body p, emitted := emitted ?s3 @ body p\<rparr>)"
      using data_written [of ?s3 "[]" p T 0 "length (body p)" "body p" ?e] can_succeed
      by (simp add: on_data_written_result get_front_def)
    note r = stream_reach.step [OF s3 this]
    show ?thesis
      by (rule exI, rule conjI, rule r) (use q in \<open>simp add: wire_bytes_def idle_writer_def\<close>)
  qed
qed

lemma read_one:
  assumes "in_ops (rcvr s) = [Reading_header]" and "wire s = wire_bytes 0 p @ rest" and "exact p"
  shows "\<exists>s'. stream_reach T s s' \<and> sndr s' = sndr s \<and> wire s' = rest \<and> taken s' = taken s \<and>
    sent s' = sent s \<and> in_ops (rcvr s') = [Reading_header] \<and>
    (let d = p\<lparr>body := if body p = [] then body (m_tmpPktIn (rcvr s)) else body p\<rparr>
     in m_tmpPktIn (rcvr s') = d \<and> map opkt (delivered s') = map opkt (delivered s) @ [d])"
proof -
  let ?h = "header_bytes 0 (header p)"
  let ?r = "store_header ?h ((rcvr s)\<lparr>in_ops := []\<rparr>)"
  have tmp: "m_tmpPktIn ?r = (m_tmpPktIn (rcvr s))\<lparr>header := header p\<rparr>"
    using store_header_full [of ?h "(rcvr s)\<lparr>in_ops := []\<rparr>"] by simp
  have w: "take sizeof_header (wire s) = ?h" "drop sizeof_header (wire s) = body p @ rest"
    "sizeof_header \<le> length (wire s)"
    using assms(2) by (simp_all add: wire_bytes_def)
  have rd: "stream_step T s (s\<lparr>rcvr := c, rq := q, wire := body p @ rest, consumed := consumed s @ ?h\<rparr>)"
    if "on_header_read 0 ?r (rq s) = (c, q)" for c q
    using header_read [of s "[]" T 0 sizeof_header c q] assms(1) can_succeed w that by simp
  show ?thesis
  proof (cases "body p = []")
    case True
    obtain c q where cq: "PushToIncomingQueue ?r (rq s) = (c, q)" by fastforce
    have "hsize (header p) = 0" using assms(3) True by (simp add: exact_def unat_eq_0)
    then have "on_header_read 0 ?r (rq s) = (c, q)" using cq tmp by (simp add: on_header_read_def)
    note r = stream_reach.step [OF stream_reach.start rd [OF this]]
    show ?thesis
      by (rule exI, rule conjI, rule r)
        (use PushToIncomingQueue_result [OF cq] True tmp in \<open>auto simp: delivered_def\<close>)
  next
    case False
    let ?r' = "ReadData (?r\<lparr>m_tmpPktIn := (m_tmpPktIn ?r)\<lparr>body :=
      resize (length (body p)) (body (m_tmpPktIn (rcvr s)))\<rparr>\<rparr>)"
    let ?s1 = "s\<lparr>rcvr := ?r', rq := rq s, wire := body p @ rest, consumed := consumed s @ ?h\<rparr>"
    let ?r2 = "store_body (body p) (?r'\<lparr>in_ops := []\<rparr>)"
    obtain c q where cq: "PushToIncomingQueue ?r2 (rq s) = (c, q)" by fastforce
    have n: "unat (hsize (header p)) = length (body p)" using assms(3) by (simp add: exact_def)
    then have "hsize (header p) > 0" using False by (auto simp: word_gt_0)
    then have "on_header_read 0 ?r (rq s) = (?r', rq s)"
      using tmp n by (simp add: on_header_read_def Let_def)
    from stream_reach.step [OF stream_reach.start rd [OF this]] have s1: "stream_reach T s ?s1" .
    have "stream_step T ?s1 (?s1\<lparr>rcvr := c, rq := q, wire := rest, consumed := consumed ?s1 @ body p\<rparr>)"
      using data_read [of ?s1 "[]" T 0 "length (body p)" c q] can_succeed cq
      by (simp add: ReadData_def on_data_read_def)
    note step2 = this
    have tmp2: "m_tmpPktIn ?r2 = p"
      using tmp by (subst store_body_tmp) (simp_all add: ReadData_def)
    note r = stream_reach.step [OF s1 step2]
    show ?thesis
      by (rule exI, rule conjI, rule r)
        (use PushToIncomingQueue_result [OF cq] False tmp2 in \<open>auto simp: delivered_def ReadData_def\<close>)
  qed
qed

lemma write_all:
  assumes "idle_writer (sndr s)"
  shows "\<exists>s'. stream_reach T s s' \<and> wire s' = wire s @ wire_of ps \<and> rcvr s' = rcvr s \<and>
    rq s' = rq s \<and> taken s' = taken s \<and> sent s' = sent s @ ps"
  using assms
proof (induction ps arbitrary: s)
  case Nil
  then show ?case by (auto simp: wire_of_def intro: stream_reach.start)
next
  case (Cons p ps)
  from write_one [OF Cons.prems] obtain s1 where s1: "stream_reach T s s1" "idle_writer (sndr s1)"
    "wire s1 = wire s @ wire_bytes 0 p" "rcvr s1 = rcvr s" "rq s1 = rq s" "taken s1 = taken s"
    "sent s1 = sent s @ [p]" by blast
  from Cons.IH [OF s1(2)] obtain s2 where "stream_reach T s1 s2" "wire s2 = wire s1 @ wire_of ps"
    "rcvr s2 = rcvr s1" "rq s2 = rq s1" "taken s2 = taken s1" "sent s2 = sent s1 @ ps" by blast
  with s1 stream_reach_trans [OF this(1) s1(1)] show ?case
    by (intro exI [of _ s2]) (simp add: wire_of_def)
qed

lemma read_all:
  assumes "in_ops (rcvr s) = [Reading_header]" and "wire s = wire_of ds @ rest"
    and "\<forall>d \<in> set ds. exact d"
  shows "\<exists>s'. stream_reach T s s' \<and> wire s' = rest \<and> sent s' = sent s \<and>
    map opkt (delivered s') = map opkt (delivered s) @ deliver (body (m_tmpPktIn (rcvr s))) ds"
  using assms
proof (induction ds arbitrary: s)
  case Nil
  then show ?case by (auto simp: wire_of_def intro: stream_reach.start)
next
  case (Cons d ds)
  then have "wire s = wire_bytes 0 d @ wire_of ds @ rest" "exact d" by (simp_all add: wire_of_def)
  from read_one [OF Cons.prems(1) this] obtain s1 where s1: "stream_reach T s s1"
    "wire s1 = wire_of ds @ rest" "sent s1 = sent s" "in_ops (rcvr s1) = [Reading_header]"
    "m_tmpPktIn (rcvr s1) = d\<lparr>body := if body d = [] then body (m_tmpPktIn (rcvr s)) else body d\<rparr>"
    "map opkt (delivered s1) = map opkt (delivered s) @
       [d\<lparr>body := if body d = [] then body (m_tmpPktIn (rcvr s)) else body d\<rparr>]"
    by (auto simp: Let_def)
  from Cons.IH [OF s1(4,2)] Cons.prems obtain s2 where "stream_reach T s1 s2" "wire s2 = rest"
    "sent s2 = sent s1" "map opkt (delivered s2) =
       map opkt (delivered s1) @ deliver (body (m_tmpPktIn (rcvr s1))) ds" by auto
  with s1 stream_reach_trans [OF this(1) s1(1)] show ?case by (intro exI [of _ s2]) auto
qed

text \<open>Whatever is sent, a reader takes the bytes for the exact packets they encode.\<close>

lemma runs:
  assumes "stream_start s0" and "\<forall>d \<in> set ds. exact d" and "wire_of ps = wire_of ds @ rest"
  shows "\<exists>s. stream_reach T s0 s \<and> sent s = ps \<and> map opkt (delivered s) = deliver [] ds"
proof -
  have "idle_writer (sndr s0)" and empty: "sent s0 = []" "wire s0 = []" "delivered s0 = []"
    "in_ops (rcvr s0) = [Reading_header]" "m_tmpPktIn (rcvr s0) = new_packet"
    using assms(1) by (simp_all add: stream_start_def idle_writer_def delivered_def)
  from write_all [OF this(1), of ps] obtain s1 where s1: "stream_reach T s0 s1"
    "wire s1 = wire s0 @ wire_of ps" "rcvr s1 = rcvr s0" "sent s1 = sent s0 @ ps"
    "delivered s1 = delivered s0" by (auto simp: delivered_def)
  from read_all [of s1 ds rest] s1 empty assms obtain s2 where "stream_reach T s1 s2"
    "sent s2 = ps" "map opkt (delivered s2) = deliver [] ds" by auto
  with stream_reach_trans [OF this(1) s1(1)] show ?thesis by blast
qed

lemma all_delivered:
  assumes "stream_start s0" and "\<forall>p \<in> set ps. exact p"
  shows "\<exists>s. stream_reach T s0 s \<and> sent s = ps \<and> map opkt (delivered s) = deliver [] ps"
  using runs [OF assms, of ps "[]"] by simp

end

section \<open>Properties of a connection\<close>

lemmas asio_reach_inv = asio.stream_inv_reach [OF _ stream_start_streams(1)]
  asio.stream_inv_reach [OF _ stream_start_streams(2)]

definition sample :: "CMD \<Rightarrow> field list \<Rightarrow> packet" where
  "sample c fs = fold push_field fs (set_cmd (cmd_value c) new_packet)"

lemma sample_exact: "length (body (sample c fs)) < 2 ^ 32 \<Longrightarrow> exact (sample c fs)"
  using wf_fold_push [of "set_cmd (cmd_value c) new_packet" fs]
  by (simp add: sample_def exact_def wf_packet_def get_packet_len_def unat_of_nat take_bit_nat_eq_self)

lemma sample_ping [simp]: "body (sample Ping [F64 t]) = le_bytes 8 t" "exact (sample Ping [F64 t])"
proof -
  show b: "body (sample Ping [F64 t]) = le_bytes 8 t" by (simp add: sample_def push_as_def)
  show "exact (sample Ping [F64 t])" by (rule sample_exact) (simp add: b)
qed

lemma sample_message_all [simp]: "body (sample MessageAll []) = []" "exact (sample MessageAll [])"
proof -
  show b: "body (sample MessageAll []) = []" by (simp add: sample_def)
  show "exact (sample MessageAll [])" by (rule sample_exact) (simp add: b)
qed

text \<open>
  C1. End to end, whatever is sent and whatever the interleaving of sends, completions,
  failures, disconnects and takes: the bytes passed on are a prefix of what the packets sent
  are written as, one after the other; the packets handed to the receiving application are
  those with exact headers that a prefix of these bytes encodes, as \<^verbatim>\<open>deliver\<close> makes them.
  If the header of every packet sent gives the length of its body, these are a prefix of the
  packets sent, in their order, none lost in between, none twice; a packet with another
  header puts the reader out of step.
\<close>

theorem tcp_stream_delivery:
  assumes "stream_reach outcome (upstream me sid0 sid1 i) s \<or> stream_reach outcome (downstream me sid0 sid1 i) s"
  shows "\<exists>ds bs part rest. emitted s = bs @ part \<and> encodes (sent s) (emitted s @ rest) \<and> encodes ds bs \<and>
    (\<forall>d \<in> set ds. exact d) \<and> map opkt (delivered s) = deliver [] ds \<and>
    ((\<forall>p \<in> set (sent s). exact p) \<longrightarrow> (\<exists>more. sent s = ds @ more))"
proof -
  from assms asio.delivery_bytes [OF _ stream_start_streams(1)] asio.delivery_bytes [OF _ stream_start_streams(2)]
  have "\<exists>ds bs part rest. emitted s = bs @ part \<and> encodes (sent s) (emitted s @ rest) \<and> encodes ds bs \<and>
    (\<forall>d \<in> set ds. exact d) \<and> map opkt (delivered s) = deliver [] ds" by (rule disjE)
  then obtain ds bs part rest where *: "emitted s = bs @ part" "encodes (sent s) (emitted s @ rest)"
    "encodes ds bs" "\<forall>d \<in> set ds. exact d" "map opkt (delivered s) = deliver [] ds" by blast
  with asio.exact_delivery [of "sent s" bs part rest ds] show ?thesis by metis
qed

text \<open>
  An exact packet; and one whose header says 0 before eight bytes of body: the receiver takes
  the body for a packet of its own.
\<close>

lemma tcp_stream_delivery_witness:
  "(\<exists>s. sent s = [sample Ping [F64 5]] \<and> length (delivered s) = 1 \<and>
     (\<exists>ds more. sent s = ds @ more \<and> map opkt (delivered s) = deliver [] ds)) \<and>
   (\<exists>s ds. sent s = [\<lparr>header = \<lparr>cmdID = 4, hsize = 0\<rparr>, body = replicate 8 0\<rparr>] \<and> \<not> exact (hd (sent s)) \<and>
     length (delivered s) = 2 \<and> map opkt (delivered s) = deliver [] ds)"
proof
  from asio.all_delivered [OF stream_start_streams(1), of "[sample Ping [F64 5]]" 3 0 0 7]
  obtain s where s: "stream_reach outcome (upstream 3 0 0 7) s" "sent s = [sample Ping [F64 5]]"
    "map opkt (delivered s) = deliver [] [sample Ping [F64 5]]" by auto
  from tcp_stream_delivery [of 3 0 0 7 s] s have
    "\<exists>ds more. sent s = ds @ more \<and> map opkt (delivered s) = deliver [] ds" by auto
  moreover from s(3) have "length (delivered s) = 1" by (metis length_deliver length_map list.size(3,4) One_nat_def add_0)
  ultimately show "\<exists>s. sent s = [sample Ping [F64 5]] \<and> length (delivered s) = 1 \<and>
     (\<exists>ds more. sent s = ds @ more \<and> map opkt (delivered s) = deliver [] ds)" using s(2) by blast
next
  let ?p = "\<lparr>header = \<lparr>cmdID = 4, hsize = 0\<rparr>, body = replicate 8 0\<rparr> :: packet"
  let ?ds = "[\<lparr>header = \<lparr>cmdID = 4, hsize = 0\<rparr>, body = []\<rparr>, \<lparr>header = \<lparr>cmdID = 0, hsize = 0\<rparr>, body = []\<rparr>] :: packet list"
  have "wire_of [?p] = wire_of ?ds @ []"
    by (simp add: wire_of_def wire_bytes_def header_bytes_def le_bytes_def numeral_eq_Suc)
  moreover have "\<forall>d \<in> set ?ds. exact d" by (simp add: exact_def)
  ultimately obtain s where s: "stream_reach outcome (upstream 3 0 0 7) s" "sent s = [?p]"
    "map opkt (delivered s) = deliver [] ?ds" using asio.runs [OF stream_start_streams(1)] by metis
  from s(3) have "length (delivered s) = 2"
    by (metis length_deliver length_map list.size(3,4) One_nat_def add_0 add_Suc Suc_1)
  moreover from tcp_stream_delivery [of 3 0 0 7 s] s(1) have "\<exists>ds. map opkt (delivered s) = deliver [] ds" by auto
  ultimately show "\<exists>s ds. sent s = [?p] \<and> \<not> exact (hd (sent s)) \<and> length (delivered s) = 2 \<and>
     map opkt (delivered s) = deliver [] ds" using s(2) by (auto simp: exact_def)
qed

text \<open>
  When moreover no packet has an empty body, the receiver gets exactly a prefix of the
  packets sent.
\<close>

theorem tcp_stream_prefix:
  assumes "stream_reach outcome (upstream me sid0 sid1 i) s \<or> stream_reach outcome (downstream me sid0 sid1 i) s"
    and "\<forall>p \<in> set (sent s). exact p \<and> body p \<noteq> []"
  shows "\<exists>more. sent s = map opkt (delivered s) @ more"
proof -
  have ex: "\<forall>p \<in> set (sent s). exact p" using assms(2) by simp
  from assms(1) asio.delivery [OF _ stream_start_streams(1) ex]
    asio.delivery [OF _ stream_start_streams(2) ex]
  have "\<exists>ds more. sent s = ds @ more \<and> map opkt (delivered s) = deliver [] ds" by (rule disjE)
  then obtain ds more where "sent s = ds @ more" "map opkt (delivered s) = deliver [] ds" by blast
  with assms(2) show ?thesis by (auto simp: deliver_nonempty)
qed

lemma tcp_stream_prefix_witness:
  "\<exists>s. sent s = [sample Ping [F64 5], sample Ping [F64 6]] \<and> length (delivered s) = 2 \<and>
     (\<exists>more. sent s = map opkt (delivered s) @ more)"
proof -
  let ?ps = "[sample Ping [F64 5], sample Ping [F64 6]]"
  from asio.all_delivered [OF stream_start_streams(2), of ?ps 3 0 0 7]
  obtain s where s: "stream_reach outcome (downstream 3 0 0 7) s" "sent s = ?ps"
    "map opkt (delivered s) = deliver [] ?ps" by auto
  from tcp_stream_prefix [of 3 0 0 7 s] s have "\<exists>more. sent s = map opkt (delivered s) @ more" by simp
  moreover from s(3) have "length (delivered s) = length ?ps" by (metis length_deliver length_map)
  ultimately show ?thesis using s(2) by (intro exI [of _ s]) simp
qed

text \<open>
  C14. The transport is not vacuously safe: every list of packets whose headers are exact has
  a run over the composed operations of Asio in which all of it is delivered, in both
  directions.
\<close>

theorem tcp_stream_live:
  assumes "\<forall>p \<in> set ps. exact p"
  shows "(\<exists>s. stream_reach outcome (upstream me sid0 sid1 i) s \<and> sent s = ps \<and>
            map opkt (delivered s) = deliver [] ps) \<and>
         (\<exists>s. stream_reach outcome (downstream me sid0 sid1 i) s \<and> sent s = ps \<and>
            map opkt (delivered s) = deliver [] ps)"
  using asio.all_delivered [OF stream_start_streams(1) assms]
    asio.all_delivered [OF stream_start_streams(2) assms] by blast

lemma tcp_stream_live_witness:
  "\<exists>s. stream_reach outcome (upstream 3 0 0 7) s \<and>
     sent s = [sample Ping [F64 5], sample MessageAll []] \<and>
     map opkt (delivered s) = deliver [] [sample Ping [F64 5], sample MessageAll []]"
  using tcp_stream_live [of "[sample Ping [F64 5], sample MessageAll []]" 3 0 0 7] by simp

text \<open>
  C9. A header of size 0 leaves \<^verbatim>\<open>m_tmpPktIn.body\<close> as it was: in every run whose packets have
  exact headers, the \<open>n\<close>-th packet delivered has the header of the \<open>n\<close>-th sent, and its body
  unless that is empty; then it has the body of the last packet before it that had one (and
  none if there was none).
\<close>

theorem tcp_empty_body_is_stale:
  assumes "stream_reach outcome (upstream me sid0 sid1 i) s \<or> stream_reach outcome (downstream me sid0 sid1 i) s"
    and "\<forall>p \<in> set (sent s). exact p" and "n < length (delivered s)"
  shows "n < length (sent s) \<and> header (opkt (delivered s ! n)) = header (sent s ! n) \<and>
    (body (sent s ! n) \<noteq> [] \<longrightarrow> body (opkt (delivered s ! n)) = body (sent s ! n)) \<and>
    (body (sent s ! n) = [] \<and> m < n \<and> body (sent s ! m) \<noteq> [] \<and> (\<forall>k. m < k \<and> k < n \<longrightarrow> body (sent s ! k) = []) \<longrightarrow>
      body (opkt (delivered s ! n)) = body (sent s ! m)) \<and>
    ((\<forall>k \<le> n. body (sent s ! k) = []) \<longrightarrow> body (opkt (delivered s ! n)) = [])"
proof -
  from assms(1) asio.delivery [OF _ stream_start_streams(1) assms(2)]
    asio.delivery [OF _ stream_start_streams(2) assms(2)]
  have "\<exists>ds more. sent s = ds @ more \<and> map opkt (delivered s) = deliver [] ds" by (rule disjE)
  then obtain ds more where ds: "sent s = ds @ more" "map opkt (delivered s) = deliver [] ds" by blast
  then have n: "n < length ds" using assms(3) by (metis length_deliver length_map)
  have d: "opkt (delivered s ! n) = (sent s ! n)\<lparr>body := last_body [] (take (Suc n) (sent s))\<rparr>"
  proof -
    have "opkt (delivered s ! n) = deliver [] ds ! n" using ds(2) assms(3) by (metis nth_map)
    then show ?thesis using deliver_nth [OF n, of "[]"] ds(1) n by (simp add: nth_append)
  qed
  have ns: "n < length (sent s)" using n ds(1) by simp
  have own: "body (sent s ! n) \<noteq> [] \<Longrightarrow> last_body [] (take (Suc n) (sent s)) = body (sent s ! n)"
    by (rule last_body_take [OF ns order_refl]) auto
  have before: "last_body [] (take (Suc n) (sent s)) = body (sent s ! m)"
    if "body (sent s ! n) = []" "m < n" "body (sent s ! m) \<noteq> []" "\<forall>k. m < k \<and> k < n \<longrightarrow> body (sent s ! k) = []"
  proof (rule last_body_take [OF ns])
    show "\<forall>k. m < k \<and> k \<le> n \<longrightarrow> body (sent s ! k) = []" using that(1,4) by (metis le_neq_implies_less)
  qed (use that in simp_all)
  have "last_body [] (take j (sent s)) = []" if "\<forall>k < j. body (sent s ! k) = []" "j \<le> length (sent s)" for j
    using that by (induction j) (simp_all add: take_Suc_conv_app_nth)
  from this [of "Suc n"] ns have none: "(\<forall>k \<le> n. body (sent s ! k) = []) \<longrightarrow> last_body [] (take (Suc n) (sent s)) = []"
    by (simp add: less_Suc_eq_le)
  have "header (opkt (delivered s ! n)) = header (sent s ! n)"
    "body (opkt (delivered s ! n)) = last_body [] (take (Suc n) (sent s))" by (simp_all add: d)
  then show ?thesis using ns own before none by (intro conjI impI; (elim conjE)?) simp_all
qed

text \<open>
  A \<^verbatim>\<open>Ping\<close> followed by a \<^verbatim>\<open>MessageAll\<close> (which has no body) reaches the server as a \<^verbatim>\<open>Ping\<close>
  followed by a \<^verbatim>\<open>MessageAll\<close> that carries the bytes of the ping.
\<close>

lemma tcp_empty_body_is_stale_witness:
  "\<exists>s. stream_reach outcome (upstream 3 0 0 7) s \<and> sent s = [sample Ping [F64 5], sample MessageAll []] \<and>
     length (delivered s) = 2 \<and> body (opkt (delivered s ! 1)) = le_bytes 8 (5 :: u64)"
proof -
  let ?ps = "[sample Ping [F64 5], sample MessageAll []]"
  from asio.all_delivered [OF stream_start_streams(1), of ?ps 3 0 0 7] obtain s where
    s: "stream_reach outcome (upstream 3 0 0 7) s" "sent s = ?ps" "map opkt (delivered s) = deliver [] ?ps" by auto
  from s(3) have len: "length (delivered s) = 2" by (metis length_deliver length_map list.size(3,4) One_nat_def add_0 add_Suc Suc_1)
  have "le_bytes 8 (5 :: u64) \<noteq> []" by (simp add: le_bytes_def)
  with tcp_empty_body_is_stale [of 3 0 0 7 s 1 0] s(1,2) len show ?thesis by auto
qed

text \<open>
  C4. No handler faults and there is one operation in each direction: in every reachable
  state at most one write and one read is outstanding, the next closure of the
  \<^verbatim>\<open>io_context\<close> runs to its end, and so does the completion handler of the outstanding
  write, for every error code (in particular none of them takes the front of an empty queue).
\<close>

theorem tcp_handlers_never_fault:
  assumes "stream_reach outcome (upstream me sid0 sid1 i) s \<or> stream_reach outcome (downstream me sid0 sid1 i) s"
  shows "length (out_ops (sndr s)) \<le> 1 \<and> length (in_ops (rcvr s)) \<le> 1 \<and>
    (\<forall>k ks. posted (sndr s) = k # ks \<longrightarrow> (\<exists>c. run_task k ((sndr s)\<lparr>posted := ks\<rparr>) = Inr c)) \<and>
    (\<forall>ops ec. out_ops (sndr s) = Writing_header # ops \<longrightarrow>
       (\<exists>c. on_header_written ec ((sndr s)\<lparr>out_ops := ops\<rparr>) = Inr c)) \<and>
    (\<forall>ops ec. out_ops (sndr s) = Writing_data # ops \<longrightarrow>
       (\<exists>c. on_data_written ec ((sndr s)\<lparr>out_ops := ops\<rparr>) = Inr c))"
proof -
  have inv: "write_inv (sndr s)" "recv_inv s"
    using assms asio_reach_inv by (auto simp: stream_inv_def)
  have "length (out_ops (sndr s)) \<le> 1" using inv(1) by (cases rule: write_inv_cases) simp_all
  moreover have "length (in_ops (rcvr s)) \<le> 1"
    using inv(2) recv_shape_cases by (cases "in_ops (rcvr s)") (fastforce simp: recv_inv_def)+
  moreover have "\<exists>c. run_task k ((sndr s)\<lparr>posted := ks\<rparr>) = Inr c" for k ks
    using handlers_total(1) [of "(sndr s)\<lparr>posted := ks\<rparr>"] inv(1) by (cases k) simp_all
  ultimately show ?thesis using handlers_total(2,3) [OF inv(1)] by blast
qed

lemma tcp_handlers_never_fault_witness:
  "length (out_ops (sndr (upstream 3 0 0 7))) \<le> 1"
  using tcp_handlers_never_fault [of 3 0 0 7 "upstream 3 0 0 7"] stream_reach.start by blast

end
