(* ===== verification/NetUDP.thy ===== *)
theory NetUDP
  imports TCPStream
begin

text \<open>
  \<^verbatim>\<open>Common/include/NetUDP.h\<close>: the datagram variant of a connection. Its members are
  those of \<^verbatim>\<open>TCPConnection\<close>, but each \<^verbatim>\<open>async_send\<close> is one datagram and each
  \<^verbatim>\<open>async_receive\<close> takes one, cut to the buffer, whose length the handlers ignore. The
  class is a template: its two \<^verbatim>\<open>Connect\<close> members, which nothing calls, start a receive
  at once on an open server socket and otherwise start an \<^verbatim>\<open>async_connect\<close>.

  Shown: a packet's two datagrams, received in order, give it back; what happens when they
  are not; and that a datagram shorter than a header is taken for one.
\<close>

section \<open>State\<close>

record udp =
  u_sID :: u32
  u_Type :: ConnectType
  u_open :: bool
  u_connecting :: bool
  u_tmpPktIn :: packet
  u_PktOut :: "packet net_queue"
  u_out_ops :: "out_op list"
  u_in_ops :: "in_op list"
  u_posted :: "packet list"
  u_log :: "log_line list"

definition new_udp :: "ConnectType \<Rightarrow> u32 \<Rightarrow> bool \<Rightarrow> udp" where
  "new_udp ty sid is_open = \<lparr>u_sID = sid, u_Type = ty, u_open = is_open, u_connecting = False,
     u_tmpPktIn = new_packet, u_PktOut = empty_queue, u_out_ops = [], u_in_ops = [],
     u_posted = [], u_log = []\<rparr>"

section \<open>Sending\<close>

definition udp_WriteHeader :: "udp \<Rightarrow> udp result" where
  "udp_WriteHeader u =
     and_then (get_front (u_PktOut u)) (\<lambda>p. Inr (u\<lparr>u_out_ops := u_out_ops u @ [Writing_header]\<rparr>))"

definition udp_WriteData :: "udp \<Rightarrow> udp result" where
  "udp_WriteData u =
     and_then (get_front (u_PktOut u)) (\<lambda>p. Inr (u\<lparr>u_out_ops := u_out_ops u @ [Writing_data]\<rparr>))"

definition udp_next_packet :: "udp \<Rightarrow> udp result" where
  "udp_next_packet u =
     and_then (pop_front (u_PktOut u)) (\<lambda>(p, q).
       let u' = u\<lparr>u_PktOut := q\<rparr> in if \<not> is_empty q then udp_WriteHeader u' else Inr u')"

definition udp_on_header_sent :: "error_code \<Rightarrow> udp \<Rightarrow> udp result" where
  "udp_on_header_sent ec u =
     (if ec = 0 then
        and_then (get_front (u_PktOut u)) (\<lambda>p.
          if length (body p) > 0 then udp_WriteData u else udp_next_packet u)
      else Inr (u\<lparr>u_log := u_log u @ [Write_header_fail (u_sID u) ec], u_open := False\<rparr>))"

definition udp_on_data_sent :: "error_code \<Rightarrow> udp \<Rightarrow> udp result" where
  "udp_on_data_sent ec u =
     (if ec = 0 then udp_next_packet u
      else Inr (u\<lparr>u_log := u_log u @ [Write_body_fail (u_sID u)], u_open := False\<rparr>))"

definition udp_SendPacket :: "packet \<Rightarrow> udp \<Rightarrow> udp" where
  "udp_SendPacket pkt u = u\<lparr>u_posted := u_posted u @ [pkt]\<rparr>"

definition udp_run_send :: "packet \<Rightarrow> udp \<Rightarrow> udp result" where
  "udp_run_send pkt u =
     (let bWritingMessage = \<not> is_empty (u_PktOut u);
          u' = u\<lparr>u_PktOut := push_back pkt (u_PktOut u)\<rparr>
      in if \<not> bWritingMessage then udp_WriteHeader u' else Inr u')"

section \<open>Receiving\<close>

definition udp_ReadHeader :: "udp \<Rightarrow> udp" where
  "udp_ReadHeader u = u\<lparr>u_in_ops := u_in_ops u @ [Reading_header]\<rparr>"

definition udp_ReadData :: "udp \<Rightarrow> udp" where
  "udp_ReadData u = u\<lparr>u_in_ops := u_in_ops u @ [Reading_data]\<rparr>"

definition udp_PushToIncomingQueue :: "udp \<Rightarrow> packet net_queue \<Rightarrow> udp \<times> packet net_queue" where
  "udp_PushToIncomingQueue u q =
     (udp_ReadHeader u,
      if u_Type u = Server_side then push_back (u_tmpPktIn u) q else push_back (u_tmpPktIn u) q)"

definition udp_on_header_read :: "error_code \<Rightarrow> udp \<Rightarrow> packet net_queue \<Rightarrow> udp \<times> packet net_queue" where
  "udp_on_header_read ec u q =
     (if ec = 0 then
        (if hsize (header (u_tmpPktIn u)) > 0 then
           (let n = unat (hsize (header (u_tmpPktIn u)));
                p = (u_tmpPktIn u)\<lparr>body := resize n (body (u_tmpPktIn u))\<rparr>
            in (udp_ReadData (u\<lparr>u_tmpPktIn := p\<rparr>), q))
         else udp_PushToIncomingQueue u q)
      else if ec = WSAECONNRESET then (u\<lparr>u_open := False\<rparr>, q)
      else (u\<lparr>u_log := u_log u @ [Read_header_fail (u_sID u) ec], u_open := False\<rparr>, q))"

definition udp_on_data_read :: "error_code \<Rightarrow> udp \<Rightarrow> packet net_queue \<Rightarrow> udp \<times> packet net_queue" where
  "udp_on_data_read ec u q =
     (if ec = 0 then udp_PushToIncomingQueue u q
      else (u\<lparr>u_log := u_log u @ [Read_body_fail (u_sID u)], u_open := False\<rparr>, q))"

text \<open>A datagram is written over the start of the buffer the receive was given, as far as it fits.\<close>

definition udp_store_header :: "byte list \<Rightarrow> udp \<Rightarrow> udp" where
  "udp_store_header dg u =
     u\<lparr>u_tmpPktIn := (u_tmpPktIn u)\<lparr>header := header_of_bytes
         (overwrite (take sizeof_header dg) (header_bytes 0 (header (u_tmpPktIn u))))\<rparr>\<rparr>"

definition udp_store_body :: "byte list \<Rightarrow> udp \<Rightarrow> udp" where
  "udp_store_body dg u =
     u\<lparr>u_tmpPktIn := (u_tmpPktIn u)\<lparr>body :=
         overwrite (take (length (body (u_tmpPktIn u))) dg) (body (u_tmpPktIn u))\<rparr>\<rparr>"

text \<open>The completion of the outstanding receive, with the datagram that arrived.\<close>

fun udp_receive :: "error_code \<Rightarrow> byte list \<Rightarrow> udp \<times> packet net_queue \<Rightarrow> udp \<times> packet net_queue" where
  "udp_receive ec dg (u, q) =
     (case u_in_ops u of
        [] \<Rightarrow> (u, q)
      | Reading_header # ops \<Rightarrow> udp_on_header_read ec (udp_store_header dg (u\<lparr>u_in_ops := ops\<rparr>)) q
      | Reading_data # ops \<Rightarrow> udp_on_data_read ec (udp_store_body dg (u\<lparr>u_in_ops := ops\<rparr>)) q)"

section \<open>Connecting\<close>

definition udp_ConnectToClient :: "u32 \<Rightarrow> udp \<Rightarrow> udp" where
  "udp_ConnectToClient clientID u =
     (if u_Type u = Server_side then
        if u_open u then udp_ReadHeader (u\<lparr>u_sID := clientID\<rparr>) else u\<lparr>u_connecting := True\<rparr>
      else u)"

definition udp_ConnectToServer :: "udp \<Rightarrow> udp" where
  "udp_ConnectToServer u = (if u_Type u = Client_side then u\<lparr>u_connecting := True\<rparr> else u)"

definition udp_on_connected :: "error_code \<Rightarrow> udp \<Rightarrow> udp" where
  "udp_on_connected ec u =
     (let u' = u\<lparr>u_connecting := False\<rparr> in if ec = 0 then udp_ReadHeader u' else u')"

lemmas udp_defs [net_defs] = new_udp_def udp_WriteHeader_def udp_WriteData_def udp_next_packet_def
  udp_on_header_sent_def udp_on_data_sent_def udp_SendPacket_def udp_run_send_def
  udp_ReadHeader_def udp_ReadData_def udp_PushToIncomingQueue_def udp_on_header_read_def
  udp_on_data_read_def udp_store_header_def udp_store_body_def udp_ConnectToClient_def
  udp_ConnectToServer_def udp_on_connected_def

section \<open>What the sender sends\<close>

text \<open>
  The datagrams of a run without errors: each completion sends the datagram of the
  operation that completes. \<open>fuel\<close> bounds the number of completions.
\<close>

definition udp_sent_datagram :: "u16 \<Rightarrow> udp \<Rightarrow> (byte list \<times> udp result) option" where
  "udp_sent_datagram pad u =
     (case (u_out_ops u, m_deqQueue (u_PktOut u)) of
        (Writing_header # ops, p # _) \<Rightarrow>
          Some (header_bytes pad (header p), udp_on_header_sent 0 (u\<lparr>u_out_ops := ops\<rparr>))
      | (Writing_data # ops, p # _) \<Rightarrow> Some (body p, udp_on_data_sent 0 (u\<lparr>u_out_ops := ops\<rparr>))
      | _ \<Rightarrow> None)"

fun udp_drain :: "nat \<Rightarrow> u16 \<Rightarrow> udp \<Rightarrow> byte list list" where
  "udp_drain 0 pad u = []"
| "udp_drain (Suc fuel) pad u =
     (case udp_sent_datagram pad u of
        Some (dg, Inr u') \<Rightarrow> dg # udp_drain fuel pad u'
      | Some (dg, Inl _) \<Rightarrow> [dg]
      | None \<Rightarrow> [])"

definition datagrams :: "u16 \<Rightarrow> packet list \<Rightarrow> byte list list" where
  "datagrams pad ps =
     concat (map (\<lambda>p. header_bytes pad (header p) # (if body p = [] then [] else [body p])) ps)"

lemma datagrams_simps [simp]:
  "datagrams pad [] = []"
  "datagrams pad (p # ps) =
     header_bytes pad (header p) # (if body p = [] then [] else [body p]) @ datagrams pad ps"
  by (simp_all add: datagrams_def)

lemma udp_drain_datagrams:
  assumes "m_deqQueue (u_PktOut u) = ps" and "u_out_ops u = (if ps = [] then [] else [Writing_header])"
    and "length (datagrams pad ps) \<le> fuel"
  shows "udp_drain fuel pad u = datagrams pad ps"
  using assms
proof (induction ps arbitrary: u fuel)
  case Nil
  then show ?case by (cases fuel) (simp_all add: udp_sent_datagram_def)
next
  case (Cons p ps)
  obtain f where f: "fuel = Suc f" using Cons.prems(3) by (cases fuel) simp_all
  let ?next = "\<lambda>v. v\<lparr>u_PktOut := \<lparr>m_deqQueue = ps\<rparr>, u_out_ops := (if ps = [] then [] else [Writing_header])\<rparr>"
  show ?case
  proof (cases "body p = []")
    case True
    have "udp_sent_datagram pad u = Some (header_bytes pad (header p), Inr (?next u))"
      using Cons.prems True by (cases "u_PktOut u"; cases ps)
        (simp_all add: udp_sent_datagram_def udp_defs queue_defs)
    with Cons.IH [of "?next u" f] Cons.prems f True show ?thesis by simp
  next
    case False
    let ?u = "u\<lparr>u_out_ops := [Writing_data]\<rparr>"
    obtain g where g: "f = Suc g" using Cons.prems(3) f False by (cases f) simp_all
    have "udp_sent_datagram pad u = Some (header_bytes pad (header p), Inr ?u)"
      using Cons.prems False by (simp add: udp_sent_datagram_def udp_defs queue_defs)
    moreover have "udp_sent_datagram pad ?u = Some (body p, Inr (?next ?u))"
      using Cons.prems False by (cases "u_PktOut u"; cases ps)
        (simp_all add: udp_sent_datagram_def udp_defs queue_defs)
    ultimately show ?thesis using Cons.IH [of "?next ?u" g] Cons.prems f g False by simp
  qed
qed

section \<open>What the receiver makes of it\<close>

definition udp_run :: "byte list list \<Rightarrow> udp \<times> packet net_queue \<Rightarrow> udp \<times> packet net_queue" where
  "udp_run dgs = fold (udp_receive 0) dgs"

lemma udp_run_simps [simp]:
  "udp_run [] s = s" "udp_run (d # ds) s = udp_run ds (udp_receive 0 d s)"
  "udp_run (ds @ es) s = udp_run es (udp_run ds s)"
  by (simp_all add: udp_run_def)

lemma udp_header_received:
  assumes "u_in_ops u = [Reading_header]" and "exact p"
  shows "udp_receive 0 (header_bytes pad (header p)) (u, q) =
    (if body p = [] then
       let u' = u\<lparr>u_tmpPktIn := (u_tmpPktIn u)\<lparr>header := header p\<rparr>\<rparr>
       in (u', push_back (u_tmpPktIn u') q)
     else (u\<lparr>u_in_ops := [Reading_data],
             u_tmpPktIn := \<lparr>header = header p, body = resize (length (body p)) (body (u_tmpPktIn u))\<rparr>\<rparr>, q))"
proof -
  have "hsize (header p) = 0 \<longleftrightarrow> body p = []" using assms(2)
    by (metis exact_def length_0_conv unat_eq_0)
  with assms show ?thesis
    by (cases "u_tmpPktIn u") (auto simp: udp_defs overwrite_def exact_def word_gt_0 Let_def)
qed

lemma udp_body_received:
  assumes "u_in_ops u = [Reading_data]" and "length (body (u_tmpPktIn u)) = length bs"
  shows "udp_receive 0 bs (u, q) =
    (let u' = u\<lparr>u_in_ops := [Reading_header], u_tmpPktIn := (u_tmpPktIn u)\<lparr>body := bs\<rparr>\<rparr>
     in (u', push_back (u_tmpPktIn u') q))"
  using assms by (auto simp: udp_defs overwrite_def Let_def)

lemma udp_run_deliver:
  assumes "u_in_ops u = [Reading_header]" and "\<forall>p \<in> set ps. exact p"
  shows "\<exists>u' q'. udp_run (datagrams pad ps) (u, q) = (u', q') \<and> u_in_ops u' = [Reading_header] \<and>
    m_deqQueue q' = m_deqQueue q @ deliver (body (u_tmpPktIn u)) ps"
  using assms
proof (induction ps arbitrary: u q)
  case (Cons p ps)
  define d where "d = p\<lparr>body := if body p = [] then body (u_tmpPktIn u) else body p\<rparr>"
  have "\<exists>u1. udp_run (datagrams pad [p]) (u, q) = (u1, push_back d q) \<and>
      u_in_ops u1 = [Reading_header] \<and> u_tmpPktIn u1 = d"
  proof (cases "body p = []")
    case True
    with Cons.prems udp_header_received [of u p pad q] show ?thesis
      by (cases "u_tmpPktIn u"; cases p) (simp add: d_def Let_def)
  next
    case False
    with Cons.prems udp_header_received [of u p pad q] show ?thesis
      by (cases p) (simp add: d_def udp_body_received Let_def del: udp_receive.simps)
  qed
  then obtain u1 where u1: "udp_run (datagrams pad [p]) (u, q) = (u1, push_back d q)"
    "u_in_ops u1 = [Reading_header]" "u_tmpPktIn u1 = d" by blast
  from Cons.IH [OF u1(2), of "push_back d q"] Cons.prems u1(1,3) show ?case
    by (auto simp: d_def simp del: udp_receive.simps)
qed simp

lemma udp_queue_sends:
  assumes "u_out_ops u = (if m_deqQueue (u_PktOut u) = [] then [] else [Writing_header])"
  shows "\<exists>u'. fold_result udp_run_send ps u = Inr u' \<and>
    m_deqQueue (u_PktOut u') = m_deqQueue (u_PktOut u) @ ps \<and>
    u_out_ops u' = (if m_deqQueue (u_PktOut u) @ ps = [] then [] else [Writing_header])"
  using assms
proof (induction ps arbitrary: u)
  case (Cons p ps)
  define u1 where "u1 = u\<lparr>u_PktOut := push_back p (u_PktOut u), u_out_ops := [Writing_header]\<rparr>"
  have "udp_run_send p u = Inr u1"
    using Cons.prems by (auto simp: udp_run_send_def udp_WriteHeader_def queue_defs u1_def Let_def
        split: list.split)
  with Cons.IH [of u1] show ?case by (simp add: u1_def)
qed simp

section \<open>Properties of the datagram variant\<close>

text \<open>
  C17. Packets whose header gives the length of their body, queued on one end, sent as
  datagrams and received complete and in order on the other, are delivered in order (an
  empty body again as the body of the packet before).
\<close>

theorem udp_in_order_delivery:
  assumes "\<forall>p \<in> set ps. exact p"
  shows "\<exists>u. fold_result udp_run_send ps (new_udp a sid0 True) = Inr u \<and>
    m_deqQueue (snd (udp_run (udp_drain (2 * length ps) pad u)
      (udp_ConnectToClient i (new_udp Server_side sid1 True), empty_queue))) = deliver [] ps"
proof -
  obtain u where u: "fold_result udp_run_send ps (new_udp a sid0 True) = Inr u"
    "m_deqQueue (u_PktOut u) = ps" "u_out_ops u = (if ps = [] then [] else [Writing_header])"
    using udp_queue_sends [of "new_udp a sid0 True" ps] by (auto simp: udp_defs)
  have "length (datagrams pad ps) \<le> 2 * length ps"
    by (induction ps) simp_all
  then have "udp_drain (2 * length ps) pad u = datagrams pad ps"
    using udp_drain_datagrams [OF u(2,3)] by simp
  moreover have "m_deqQueue (snd (udp_run (datagrams pad ps)
      (udp_ConnectToClient i (new_udp Server_side sid1 True), empty_queue))) = deliver [] ps"
    using udp_run_deliver [OF _ assms, of "udp_ConnectToClient i (new_udp Server_side sid1 True)" pad empty_queue]
    by (auto simp: udp_defs)
  ultimately show ?thesis using u(1) by auto
qed

lemma udp_in_order_delivery_witness:
  "\<exists>u. fold_result udp_run_send [sample Ping [F64 9]] (new_udp Client_side 0 True) = Inr u \<and>
    m_deqQueue (snd (udp_run (udp_drain 2 0 u)
      (udp_ConnectToClient 1 (new_udp Server_side 0 True), empty_queue))) = [sample Ping [F64 9]]"
  using udp_in_order_delivery [of "[sample Ping [F64 9]]" Client_side 0 0 1 0] by simp

text \<open>
  A datagram that is lost is not noticed: when the body of a packet with eight bytes of
  body does not arrive, the header of the next packet is delivered as that body.
\<close>

theorem udp_lost_body_takes_next_header:
  assumes "exact p" and "length (body p) = 8"
  shows "m_deqQueue (snd (udp_run [header_bytes pad (header p), header_bytes pad (header r)]
    (udp_ConnectToClient i (new_udp Server_side sid True), empty_queue))) =
    [p\<lparr>body := header_bytes pad (header r)\<rparr>]"
  using assms udp_header_received [of "udp_ConnectToClient i (new_udp Server_side sid True)" p pad empty_queue]
    udp_body_received [of "(udp_ConnectToClient i (new_udp Server_side sid True))\<lparr>u_in_ops := [Reading_data],
             u_tmpPktIn := \<lparr>header = header p, body = resize 8 []\<rparr>\<rparr>" "header_bytes pad (header r)" empty_queue]
  by (cases p) (auto simp: udp_ConnectToClient_def udp_ReadHeader_def new_udp_def sizeof_header_def Let_def
      simp del: udp_receive.simps)

lemma udp_lost_body_takes_next_header_witness:
  "m_deqQueue (snd (udp_run [header_bytes 0 (header (sample Ping [F64 9])), header_bytes 0 (header (sample Ping [F64 9]))]
    (udp_ConnectToClient 1 (new_udp Server_side 0 True), empty_queue))) =
    [(sample Ping [F64 9])\<lparr>body := header_bytes 0 (header (sample Ping [F64 9]))\<rparr>]"
  using udp_lost_body_takes_next_header [of "sample Ping [F64 9]" 0 "sample Ping [F64 9]" 1 0] by simp

text \<open>
  The length of a datagram is not looked at: an empty datagram where a header is
  expected is taken for the header that \<^verbatim>\<open>m_tmpPktIn\<close> still holds, so after a packet
  without a body each one delivers that packet again.
\<close>

theorem udp_empty_datagrams_repeat:
  assumes "u_in_ops u = [Reading_header]" and "hsize (header (u_tmpPktIn u)) = 0"
  shows "udp_run (replicate n []) (u, q) =
    (u, q\<lparr>m_deqQueue := m_deqQueue q @ replicate n (u_tmpPktIn u)\<rparr>)"
  using assms
proof (induction n arbitrary: q)
  case (Suc n)
  have "udp_receive 0 [] (u, q) = (u, push_back (u_tmpPktIn u) q)"
    using Suc.prems by (simp add: udp_defs overwrite_def)
  with Suc show ?case by (simp add: push_back_def del: udp_receive.simps)
qed simp

lemma udp_empty_datagrams_repeat_witness:
  "snd (udp_run (replicate 3 []) (udp_ConnectToClient 1 (new_udp Server_side 0 True), empty_queue)) =
     \<lparr>m_deqQueue = [new_packet, new_packet, new_packet]\<rparr>"
  using udp_empty_datagrams_repeat [of "udp_ConnectToClient 1 (new_udp Server_side 0 True)" 3 empty_queue]
  by (simp add: udp_defs empty_queue_def numeral_3_eq_3)

end
