(* ===== verification/NetServerApp.thy ===== *)
theory NetServerApp
  imports World NetUDP
begin

text \<open>
  \<^verbatim>\<open>Server/include/NetServerApp.h\<close>: the server's registry of connections, its accept
  handlers, its sends and its processing loop. The class is a base class: the three virtual
  functions are arguments of the operations that call them (\<open>odc\<close> for
  \<^verbatim>\<open>OnClientDisconnect\<close>, \<open>occ\<close> for \<^verbatim>\<open>OnClientConnect\<close>, \<open>op\<close> for \<^verbatim>\<open>OnPacket\<close>), which
  may fault, change the server and set the \<^verbatim>\<open>shared_ptr\<close> they are given by reference. The
  record is extended by the derived class.

  Connections live in a store, since the registry, the incoming packets and the characters
  share them; their reading and writing handlers are those of \<open>NetTCPConnection\<close>.
\<close>

section \<open>State\<close>

datatype server_log =
    New_TCPConnection
  | Approved u32
  | Denied
  | Accept_error error_code
  | New_UDP_error error_code
  | Requested_ping u32
  | Ping_millis u64
  | Message_all u32
  | Entered_world u32
  | Id_mismatch u16 u16
  | Removing_client u32

record server_app =
  conns :: conn_store
  m_TCP_PktIn :: incoming
  m_TCPConnections :: "nat option list"
  m_UDPSockets :: "udp list"
  m_IDCnt :: u32
  accepts :: nat
  udp_waits :: nat
  slog :: "server_log list"

definition say :: "server_log \<Rightarrow> 'z server_app_scheme \<Rightarrow> 'z server_app_scheme" where
  "say l s = s\<lparr>slog := slog s @ [l]\<rparr>"

text \<open>A member call through a \<^verbatim>\<open>shared_ptr\<close>.\<close>

fun deref :: "nat option \<Rightarrow> 'z server_app_scheme \<Rightarrow> tcp_connection result" where
  "deref None s = Inl Null_pointer"
| "deref (Some i) s = (case conns s i of None \<Rightarrow> Inl Null_pointer | Some c \<Rightarrow> Inr c)"

definition post_send :: "nat option \<Rightarrow> packet \<Rightarrow> 'z server_app_scheme \<Rightarrow> 'z server_app_scheme result" where
  "post_send p pkt s = and_then (send_via p pkt (conns s)) (\<lambda>st. Inr (s\<lparr>conns := st\<rparr>))"

text \<open>\<^verbatim>\<open>client && client->IsConnected()\<close>\<close>

fun connected :: "nat option \<Rightarrow> 'z server_app_scheme \<Rightarrow> bool result" where
  "connected None s = Inr False"
| "connected (Some i) s = and_then (deref (Some i) s) (\<lambda>c. Inr (IsConnected c))"

section \<open>Accepting\<close>

definition AwaitTCPConnection :: "'z server_app_scheme \<Rightarrow> 'z server_app_scheme" where
  "AwaitTCPConnection s = s\<lparr>accepts := accepts s + 1\<rparr>"

text \<open>
  The handler of \<^verbatim>\<open>async_accept\<close>. \<^verbatim>\<open>remote_endpoint()\<close> throws when the peer is already
  gone (\<open>peer_there\<close>): nothing on the \<^verbatim>\<open>io_context\<close>'s thread catches it. \<open>me\<close> is the
  address of the new connection, \<open>sid\<close> what its uninitialised \<^verbatim>\<open>m_sID\<close> holds.
\<close>

definition on_accept ::
    "(nat option \<Rightarrow> 'z server_app_scheme \<Rightarrow> (bool \<times> nat option \<times> 'z server_app_scheme) result) \<Rightarrow>
     error_code \<Rightarrow> bool \<Rightarrow> nat \<Rightarrow> u32 \<Rightarrow> 'z server_app_scheme \<Rightarrow> 'z server_app_scheme result" where
  "on_accept occ ec peer_there me sid s0 =
     (let s = s0\<lparr>accepts := accepts s0 - 1\<rparr> in
      if ec = 0 then
        if \<not> peer_there then Inl Terminated
        else
          let s1 = say New_TCPConnection s;
              s2 = s1\<lparr>conns := (conns s1)(me \<mapsto> new_connection Server_side me sid True)\<rparr>
          in and_then (occ (Some me) s2) (\<lambda>(ok, client, s3).
               if ok then
                 let s4 = s3\<lparr>m_TCPConnections := m_TCPConnections s3 @ [client]\<rparr> in
                 case client of
                   None \<Rightarrow> Inl Null_pointer
                 | Some i \<Rightarrow>
                     and_then (deref (Some i) s4) (\<lambda>c.
                       let c' = ConnectToClient (m_IDCnt s4) c;
                           s5 = s4\<lparr>m_IDCnt := m_IDCnt s4 + 1, conns := (conns s4)(i \<mapsto> c')\<rparr>
                       in Inr (AwaitTCPConnection (say (Approved (GetID c')) s5)))
               else Inr (AwaitTCPConnection (say Denied s3)))
      else Inr (AwaitTCPConnection (say (Accept_error ec) s)))"

text \<open>
  \<^verbatim>\<open>AwaitUDPConnection\<close> receives on a local socket into a local packet and returns, which
  destroys both: the receive ends with \<^verbatim>\<open>operation_aborted\<close>, and a handler called with
  success would use the captured references.
\<close>

definition operation_aborted :: error_code where
  "operation_aborted = 995"

definition AwaitUDPConnection :: "'z server_app_scheme \<Rightarrow> 'z server_app_scheme" where
  "AwaitUDPConnection s = s\<lparr>udp_waits := udp_waits s + 1\<rparr>"

definition on_udp_receive :: "error_code \<Rightarrow> 'z server_app_scheme \<Rightarrow> 'z server_app_scheme result" where
  "on_udp_receive ec s0 =
     (let s = s0\<lparr>udp_waits := udp_waits s0 - 1\<rparr> in
      if ec = 0 then Inl Dangling
      else Inr (AwaitUDPConnection (say (New_UDP_error ec) s)))"

text \<open>\<^verbatim>\<open>Start\<close>, when neither the sockets nor the thread throw.\<close>

definition Start :: "'z server_app_scheme \<Rightarrow> 'z server_app_scheme" where
  "Start s = AwaitUDPConnection (AwaitTCPConnection s)"

section \<open>Sending\<close>

text \<open>Returns what is left of the \<^verbatim>\<open>client\<close> reference.\<close>

definition SendToClient ::
    "(nat option \<Rightarrow> 'z server_app_scheme \<Rightarrow> 'z server_app_scheme result) \<Rightarrow>
     nat option \<Rightarrow> packet \<Rightarrow> 'z server_app_scheme \<Rightarrow> (nat option \<times> 'z server_app_scheme) result" where
  "SendToClient odc client pkt s =
     and_then (connected client s) (\<lambda>up.
       if up then and_then (post_send client pkt s) (\<lambda>s'. Inr (client, s'))
       else and_then (odc client s) (\<lambda>s'.
         Inr (None, s'\<lparr>m_TCPConnections := removeAll client (m_TCPConnections s')\<rparr>)))"

text \<open>One pass of the loop of \<^verbatim>\<open>SendToAll\<close>, on the element at \<open>i\<close>.\<close>

definition send_to_nth ::
    "(nat option \<Rightarrow> 'z server_app_scheme \<Rightarrow> 'z server_app_scheme result) \<Rightarrow> nat option \<Rightarrow> packet \<Rightarrow>
     nat \<Rightarrow> bool \<times> 'z server_app_scheme \<Rightarrow> (bool \<times> 'z server_app_scheme) result" where
  "send_to_nth odc ignore_client pkt i bs =
     (case bs of (bInvalidClientExists, s) \<Rightarrow>
       let client = m_TCPConnections s ! i in
       and_then (connected client s) (\<lambda>up.
         if up then
           if client \<noteq> ignore_client
           then and_then (post_send client pkt s) (\<lambda>s'. Inr (bInvalidClientExists, s'))
           else Inr (bInvalidClientExists, s)
         else and_then (odc client s) (\<lambda>s'.
           Inr (True, s'\<lparr>m_TCPConnections := (m_TCPConnections s')[i := None]\<rparr>))))"

definition SendToAll ::
    "(nat option \<Rightarrow> 'z server_app_scheme \<Rightarrow> 'z server_app_scheme result) \<Rightarrow> packet \<Rightarrow> nat option \<Rightarrow>
     'z server_app_scheme \<Rightarrow> 'z server_app_scheme result" where
  "SendToAll odc pkt ignore_client s =
     and_then (fold_result (send_to_nth odc ignore_client pkt) [0..<length (m_TCPConnections s)] (False, s))
       (\<lambda>(bInvalidClientExists, s').
         Inr (if bInvalidClientExists
              then s'\<lparr>m_TCPConnections := removeAll None (m_TCPConnections s')\<rparr> else s'))"

section \<open>Processing\<close>

text \<open>
  The loop of \<^verbatim>\<open>Process\<close>; \<open>n\<close> is \<^verbatim>\<open>nMessageCount\<close>.
\<close>

function process_loop ::
    "(nat option \<Rightarrow> packet \<Rightarrow> 'z server_app_scheme \<Rightarrow> 'z server_app_scheme result) \<Rightarrow>
     nat \<Rightarrow> nat \<Rightarrow> 'z server_app_scheme \<Rightarrow> 'z server_app_scheme result" where
  "process_loop op max_pkt n s =
     (if n < max_pkt \<and> \<not> is_empty (m_TCP_PktIn s) then
        case pop_front (m_TCP_PktIn s) of
          Inl e \<Rightarrow> Inl e
        | Inr (pkt, q) \<Rightarrow>
            (case op (connectionPtr pkt) (opkt pkt) (s\<lparr>m_TCP_PktIn := q\<rparr>) of
               Inl e \<Rightarrow> Inl e
             | Inr s' \<Rightarrow> process_loop op max_pkt (n + 1) s')
      else Inr s)"
  by pat_completeness auto
termination by (relation "measure (\<lambda>(op, max_pkt, n, s). max_pkt - n)") auto

declare process_loop.simps [simp del]

text \<open>
  \<^verbatim>\<open>NetQueue::wait\<close> is the subject of \<open>NetQueueThreads\<close>: it returns at once when it finds the
  queue not empty, and otherwise only after it was woken and has seen a packet; \<open>meanwhile\<close> is
  what the thread of the \<^verbatim>\<open>io_context\<close> makes of the state until then, \<open>woken\<close> whether it woke the
  waiter for it, which it may miss. \<open>None\<close>: the call is still blocked.
\<close>

definition Process ::
    "(nat option \<Rightarrow> packet \<Rightarrow> 'z server_app_scheme \<Rightarrow> 'z server_app_scheme result) \<Rightarrow>
     nat \<Rightarrow> bool \<Rightarrow> bool \<Rightarrow> ('z server_app_scheme \<Rightarrow> 'z server_app_scheme) \<Rightarrow> 'z server_app_scheme \<Rightarrow>
     'z server_app_scheme result option" where
  "Process op max_pkt wait woken meanwhile s =
     (if wait \<and> is_empty (m_TCP_PktIn s)
      then
        let s1 = meanwhile s
        in if woken \<and> \<not> is_empty (m_TCP_PktIn s1) then Some (process_loop op max_pkt 0 s1) else None
      else Some (process_loop op max_pkt 0 s))"

text \<open>\<^verbatim>\<open>size_t max_pkt = -1\<close>\<close>

definition SIZE_MAX :: nat where
  "SIZE_MAX = 2 ^ 64 - 1"

lemmas server_app_defs [net_defs] = say_def post_send_def AwaitTCPConnection_def AwaitUDPConnection_def

section \<open>The store while packets are sent\<close>

text \<open>Sending changes nothing of a connection but what it has posted.\<close>

definition same_conn :: "tcp_connection \<Rightarrow> tcp_connection \<Rightarrow> bool" where
  "same_conn c d \<longleftrightarrow> (\<exists>ks. d = c\<lparr>posted := ks\<rparr>)"

definition same_store :: "conn_store \<Rightarrow> conn_store \<Rightarrow> bool" where
  "same_store st st' \<longleftrightarrow> (\<forall>i. rel_option same_conn (st i) (st' i))"

lemma same_conn_refl [simp]: "same_conn c c"
  unfolding same_conn_def by (metis tcp_connection.surjective tcp_connection.update_convs(10))

lemma same_conn_trans: "same_conn a b \<Longrightarrow> same_conn b c \<Longrightarrow> same_conn a c"
  by (auto simp: same_conn_def)

lemma same_conn_send: "same_conn a b \<Longrightarrow> same_conn a (SendPacket pkt b)"
  by (auto simp: same_conn_def SendPacket_def)

lemma same_conn_fields:
  "same_conn c d \<Longrightarrow> m_sID d = m_sID c \<and> sock_open d = sock_open c \<and> in_ops d = in_ops c \<and>
     out_ops d = out_ops c \<and> m_PktOut d = m_PktOut c \<and> self d = self c \<and> m_Type d = m_Type c"
  by (auto simp: same_conn_def)

lemma same_store_refl [simp]: "same_store st st"
  by (simp add: same_store_def option.rel_refl)

lemma same_store_trans:
  assumes "same_store a b" and "same_store b c"
  shows "same_store a c"
  unfolding same_store_def
proof
  fix i
  show "rel_option same_conn (a i) (c i)"
    using spec [OF assms(1) [unfolded same_store_def], of i]
      spec [OF assms(2) [unfolded same_store_def], of i]
    by (auto elim!: option.rel_cases intro: same_conn_trans)
qed

lemma same_store_upd:
  "same_store st st' \<Longrightarrow> st i = Some c \<Longrightarrow> same_conn c d \<Longrightarrow> same_store st (st'(i \<mapsto> d))"
  by (simp add: same_store_def)

lemma same_storeD:
  "same_store st st' \<Longrightarrow> st i = Some c \<Longrightarrow> \<exists>d. st' i = Some d \<and> same_conn c d"
  unfolding same_store_def by (metis option.rel_cases option.distinct(1) option.inject)

lemma same_store_None: "same_store st st' \<Longrightarrow> st' i = None \<longleftrightarrow> st i = None"
  unfolding same_store_def by (metis option.rel_distinct(1) option.rel_distinct(2) option.exhaust)

lemma same_store_broadcast: "same_store st (broadcast pkt is st)"
  unfolding same_store_def
proof
  fix i show "rel_option same_conn (st i) (broadcast pkt is st i)"
    by (cases "st i") (auto simp: broadcast_result same_conn_def)
qed

section \<open>What a send does, for any derived class that only forgets\<close>

text \<open>
  What the base class needs of \<^verbatim>\<open>OnClientDisconnect\<close>: on a connection that exists it
  returns, leaves the base class's state alone and makes the derived class forget the
  connection's ID. \<open>view\<close> is the derived class's state, \<open>core\<close> the part of the base
  class's that no send touches.
\<close>

definition core :: "'z server_app_scheme \<Rightarrow> incoming \<times> u32 \<times> udp list \<times> nat \<times> nat" where
  "core s = (m_TCP_PktIn s, m_IDCnt s, m_UDPSockets s, accepts s, udp_waits s)"

lemma core_update [simp]:
  "core (s\<lparr>conns := st\<rparr>) = core s" "core (s\<lparr>m_TCPConnections := cs\<rparr>) = core s"
  "core (say l s) = core s"
  by (simp_all add: core_def say_def)

definition alive :: "'z server_app_scheme \<Rightarrow> nat option \<Rightarrow> bool" where
  "alive s p \<longleftrightarrow> (\<exists>i c. p = Some i \<and> conns s i = Some c \<and> IsConnected c)"

definition exists_in :: "'z server_app_scheme \<Rightarrow> nat option \<Rightarrow> bool" where
  "exists_in s p \<longleftrightarrow> (\<exists>i c. p = Some i \<and> conns s i = Some c)"

fun id_of :: "'z server_app_scheme \<Rightarrow> nat option \<Rightarrow> u32" where
  "id_of s None = 0"
| "id_of s (Some i) = (case conns s i of None \<Rightarrow> 0 | Some c \<Rightarrow> m_sID c)"

lemma connected_alive: "exists_in s p \<Longrightarrow> connected p s = Inr (alive s p)"
  by (auto simp: exists_in_def alive_def)

lemma broadcast_append:
  "broadcast pkt (xs @ ys) st = broadcast pkt ys (broadcast pkt xs st)"
  by (simp add: broadcast_def)

lemma same_store_alive:
  assumes "same_store (conns s) (conns t)"
  shows "alive t p = alive s p" and "exists_in t p = exists_in s p" and "id_of t p = id_of s p"
proof -
  have eq: "case conns t i of None \<Rightarrow> conns s i = None
      | Some d \<Rightarrow> \<exists>c. conns s i = Some c \<and> m_sID c = m_sID d \<and> sock_open c = sock_open d" for i
    using same_storeD [OF assms, of i] same_store_None [OF assms, of i] same_conn_fields
    by (cases "conns s i"; cases "conns t i") fastforce+
  show "alive t p = alive s p" "exists_in t p = exists_in s p" "id_of t p = id_of s p"
    using eq [of "the p"]
    by (cases p; auto simp: alive_def exists_in_def IsConnected_def split: option.splits)+
qed

lemma post_send_result:
  assumes "conns s i = Some c"
  shows "post_send (Some i) pkt s = Inr (s\<lparr>conns := broadcast pkt [i] (conns s)\<rparr>)"
  using assms by (simp add: post_send_def fun_upd_def)

locale forgetful =
  fixes odc :: "nat option \<Rightarrow> 'z server_app_scheme \<Rightarrow> 'z server_app_scheme result"
    and view :: "'z server_app_scheme \<Rightarrow> 'w" and forget :: "u32 \<Rightarrow> 'w \<Rightarrow> 'w"
  assumes odc_result: "exists_in s p \<Longrightarrow> \<exists>s'. odc p s = Inr s' \<and> conns s' = conns s \<and>
      m_TCPConnections s' = m_TCPConnections s \<and> core s' = core s \<and>
      view s' = forget (id_of s p) (view s)"
    and view_conns: "view (s\<lparr>conns := st\<rparr>) = view s"
    and view_registry: "view (s\<lparr>m_TCPConnections := cs\<rparr>) = view s"
begin

lemma SendToClient_result:
  assumes "exists_in s (Some i)"
  shows "\<exists>s'. SendToClient odc (Some i) pkt s = Inr (if alive s (Some i) then Some i else None, s') \<and>
    conns s' = (if alive s (Some i) then broadcast pkt [i] (conns s) else conns s) \<and>
    m_TCPConnections s' = (if alive s (Some i) then m_TCPConnections s
      else removeAll (Some i) (m_TCPConnections s)) \<and>
    core s' = core s \<and>
    view s' = (if alive s (Some i) then view s else forget (id_of s (Some i)) (view s))"
proof (cases "alive s (Some i)")
  case True
  then obtain c where "conns s i = Some c" by (auto simp: alive_def)
  with True show ?thesis
    by (simp add: SendToClient_def connected_alive [OF assms] post_send_result view_conns
        del: broadcast_simps connected.simps)
next
  case False
  from odc_result [OF assms] obtain s' where "odc (Some i) s = Inr s'" "conns s' = conns s"
    "m_TCPConnections s' = m_TCPConnections s" "core s' = core s"
    "view s' = forget (id_of s (Some i)) (view s)" by blast
  with False show ?thesis
    by (simp add: SendToClient_def connected_alive [OF assms] view_registry del: connected.simps)
qed

text \<open>The registry once the loop of \<^verbatim>\<open>SendToAll\<close> has passed its first \<open>n\<close> elements.\<close>

lemma SendToAll_loop:
  fixes s :: "'z server_app_scheme"
  assumes "\<forall>p \<in> set (m_TCPConnections s). exists_in s p" and "n \<le> length (m_TCPConnections s)"
  shows "\<exists>s'. fold_result (send_to_nth odc ign pkt) [0..<n] (False, s) =
      Inr (\<exists>p \<in> set (take n (m_TCPConnections s)). \<not> alive s p, s') \<and>
    m_TCPConnections s' = map (\<lambda>p. if alive s p then p else None) (take n (m_TCPConnections s)) @
      drop n (m_TCPConnections s) \<and>
    conns s' = broadcast pkt (map the (filter (\<lambda>p. alive s p \<and> p \<noteq> ign) (take n (m_TCPConnections s)))) (conns s) \<and>
    core s' = core s \<and>
    view s' = fold forget (map (id_of s) (filter (\<lambda>p. \<not> alive s p) (take n (m_TCPConnections s)))) (view s)"
  using assms(2)
proof (induction n)
  case 0
  then show ?case by simp
next
  case (Suc n)
  let ?L = "m_TCPConnections s"
  obtain t where t: "fold_result (send_to_nth odc ign pkt) [0..<n] (False, s) =
      Inr (\<exists>p \<in> set (take n ?L). \<not> alive s p, t)"
    "m_TCPConnections t = map (\<lambda>p. if alive s p then p else None) (take n ?L) @ drop n ?L"
    "conns t = broadcast pkt (map the (filter (\<lambda>p. alive s p \<and> p \<noteq> ign) (take n ?L))) (conns s)"
    "core t = core s"
    "view t = fold forget (map (id_of s) (filter (\<lambda>p. \<not> alive s p) (take n ?L))) (view s)"
    using Suc by fastforce
  have n: "n < length ?L" using Suc.prems by simp
  have nth: "m_TCPConnections t ! n = ?L ! n"
    using n by (simp add: t(2) nth_append)
  have ex: "exists_in s (?L ! n)" using assms(1) n by simp
  have same: "same_store (conns s) (conns t)" by (simp add: t(3) same_store_broadcast)
  note keep = same_store_alive [OF same]
  have ext: "exists_in t (?L ! n)" using ex keep by simp
  have up: "connected (?L ! n) t = Inr (alive s (?L ! n))"
    using connected_alive [OF ext] keep(1) by simp
  have tk: "take (Suc n) ?L = take n ?L @ [?L ! n]" "drop n ?L = ?L ! n # drop (Suc n) ?L"
    using n by (simp_all add: take_Suc_conv_app_nth Cons_nth_drop_Suc)
  have step: "fold_result (send_to_nth odc ign pkt) [0..<Suc n] (False, s) =
      send_to_nth odc ign pkt n (\<exists>p \<in> set (take n ?L). \<not> alive s p, t)"
    by (simp add: fold_result_append t(1)
        del: and_then.simps) (cases "send_to_nth odc ign pkt n (\<exists>p \<in> set (take n ?L). \<not> alive s p, t)"; simp)
  consider (skip) "alive s (?L ! n)" "?L ! n = ign" | (send) "alive s (?L ! n)" "?L ! n \<noteq> ign"
    | (dead) "\<not> alive s (?L ! n)" by blast
  then show ?case
  proof cases
    case skip
    then show ?thesis unfolding step using t up nth tk by (simp add: send_to_nth_def)
  next
    case send
    obtain i c where i: "?L ! n = Some i" "conns t i = Some c"
      using ext by (auto simp: exists_in_def)
    have "send_to_nth odc ign pkt n (\<exists>p \<in> set (take n ?L). \<not> alive s p, t) =
        Inr (\<exists>p \<in> set (take n ?L). \<not> alive s p, t\<lparr>conns := broadcast pkt [i] (conns t)\<rparr>)"
      using send up nth post_send_result [OF i(2)] i(1) by (simp add: send_to_nth_def)
    then show ?thesis unfolding step using t tk send i(1)
      by (simp add: view_conns broadcast_append del: broadcast_simps)
  next
    case dead
    obtain u where u: "odc (?L ! n) t = Inr u" "conns u = conns t"
      "m_TCPConnections u = m_TCPConnections t" "core u = core t"
      "view u = forget (id_of t (?L ! n)) (view t)" using odc_result [OF ext] by blast
    have "send_to_nth odc ign pkt n (\<exists>p \<in> set (take n ?L). \<not> alive s p, t) =
        Inr (True, u\<lparr>m_TCPConnections := (m_TCPConnections u)[n := None]\<rparr>)"
      using dead up nth u(1) by (simp add: send_to_nth_def)
    moreover have "(m_TCPConnections u)[n := None] =
        map (\<lambda>p. if alive s p then p else None) (take (Suc n) ?L) @ drop (Suc n) ?L"
      using u(3) t(2) tk dead n by (simp add: list_update_append)
    ultimately show ?thesis unfolding step using t u tk dead keep(3)
      by (simp add: view_registry)
  qed
qed

lemma SendToAll_result:
  fixes s :: "'z server_app_scheme"
  assumes "\<forall>p \<in> set (m_TCPConnections s). exists_in s p"
  shows "\<exists>s'. SendToAll odc pkt ign s = Inr s' \<and>
    m_TCPConnections s' = filter (alive s) (m_TCPConnections s) \<and>
    conns s' = broadcast pkt (map the (filter (\<lambda>p. alive s p \<and> p \<noteq> ign) (m_TCPConnections s))) (conns s) \<and>
    core s' = core s \<and>
    view s' = fold forget (map (id_of s) (filter (\<lambda>p. \<not> alive s p) (m_TCPConnections s))) (view s)"
proof -
  let ?L = "m_TCPConnections s"
  obtain t where t: "fold_result (send_to_nth odc ign pkt) [0..<length ?L] (False, s) =
      Inr (\<exists>p \<in> set ?L. \<not> alive s p, t)"
    "m_TCPConnections t = map (\<lambda>p. if alive s p then p else None) ?L"
    "conns t = broadcast pkt (map the (filter (\<lambda>p. alive s p \<and> p \<noteq> ign) ?L)) (conns s)"
    "core t = core s"
    "view t = fold forget (map (id_of s) (filter (\<lambda>p. \<not> alive s p) ?L)) (view s)"
    using SendToAll_loop [OF assms order_refl] by fastforce
  have "removeAll None (map (\<lambda>p. if alive s p then p else None) L) = filter (alive s) L"
    if "\<forall>p \<in> set L. exists_in s p" for L
    using that by (induction L) (auto simp: exists_in_def)
  then have rm: "removeAll None (m_TCPConnections t) = filter (alive s) ?L" using t(2) assms by simp
  show ?thesis
  proof (cases "\<exists>p \<in> set ?L. \<not> alive s p")
    case True
    with t rm show ?thesis by (auto simp: SendToAll_def view_registry)
  next
    case False
    then have "m_TCPConnections t = filter (alive s) ?L"
      using t(2) by (simp add: map_idI filter_id_conv [THEN iffD2])
    with False t show ?thesis by (auto simp: SendToAll_def)
  qed
qed

end

section \<open>The processing loop\<close>

text \<open>The loop is the fold of the handler over the packets it takes, in the order they are queued.\<close>

definition take_packet ::
    "(nat option \<Rightarrow> packet \<Rightarrow> 'z server_app_scheme \<Rightarrow> 'z server_app_scheme result) \<Rightarrow>
     owned_packet \<Rightarrow> 'z server_app_scheme \<Rightarrow> 'z server_app_scheme result" where
  "take_packet op w s = op (connectionPtr w) (opkt w) (s\<lparr>m_TCP_PktIn := \<lparr>m_deqQueue = tl (m_deqQueue (m_TCP_PktIn s))\<rparr>\<rparr>)"

lemma process_loop_fold:
  fixes s :: "'z server_app_scheme"
  assumes keeps: "\<And>w os s s'. I s \<Longrightarrow> m_deqQueue (m_TCP_PktIn s) = w # os \<Longrightarrow>
      op (connectionPtr w) (opkt w) (s\<lparr>m_TCP_PktIn := \<lparr>m_deqQueue = os\<rparr>\<rparr>) = Inr s' \<Longrightarrow>
      I s' \<and> m_deqQueue (m_TCP_PktIn s') = os"
    and "I s" and "m = max_pkt - n"
  shows "process_loop op max_pkt n s =
    fold_result (take_packet op) (take m (m_deqQueue (m_TCP_PktIn s))) s"
  using assms(2,3)
proof (induction m arbitrary: n s)
  case 0
  then show ?case by (subst process_loop.simps) simp
next
  case (Suc m)
  from Suc.prems(2) have n: "n < max_pkt" "m = max_pkt - (n + 1)" by auto
  show ?case
  proof (cases "m_deqQueue (m_TCP_PktIn s)")
    case Nil
    then show ?thesis by (subst process_loop.simps) (simp add: is_empty_def)
  next
    case (Cons w os)
    let ?s = "s\<lparr>m_TCP_PktIn := \<lparr>m_deqQueue = os\<rparr>\<rparr>"
    have pop: "pop_front (m_TCP_PktIn s) = Inr (w, \<lparr>m_deqQueue = os\<rparr>)"
      using Cons by (cases "m_TCP_PktIn s") (simp add: pop_front_def)
    show ?thesis
    proof (cases "op (connectionPtr w) (opkt w) ?s")
      case (Inl e)
      then show ?thesis using n Cons pop
        by (subst process_loop.simps) (simp add: is_empty_def take_packet_def)
    next
      case (Inr s')
      from keeps [OF Suc.prems(1) Cons this] have inv: "I s'" "m_deqQueue (m_TCP_PktIn s') = os" by auto
      moreover have "take_packet op w s = Inr s'" using Inr Cons by (simp add: take_packet_def)
      ultimately show ?thesis using Suc.IH [OF inv(1) n(2)] inv(2) Inr n Cons pop
        by (subst process_loop.simps) (simp add: is_empty_def)
    qed
  qed
qed

end
