(* ===== verification/Server.thy ===== *)
theory Server
  imports NetServerApp
begin

text \<open>
  \<^verbatim>\<open>Server/src/Server.cpp\<close> and \<^verbatim>\<open>Server/include/Server.h\<close>: the game server, which
  derives from \<^verbatim>\<open>ServerApp\<close>. \<^verbatim>\<open>OnPacket\<close> is one function per case of its \<^verbatim>\<open>switch\<close>.
  The clock and the order in which an \<^verbatim>\<open>unordered_map\<close> is walked are the environment's:
  functions \<open>now\<close> and \<open>rank\<close> of the server's state.

  \<open>server_inv\<close> says that no pointer the handlers follow is null and that a character is
  filed under its own ID; it is kept by every handler, on every path.
\<close>

section \<open>The handlers\<close>

record server = server_app +
  m_World :: cha_map

definition OnClientDisconnect :: "nat option \<Rightarrow> server \<Rightarrow> server result" where
  "OnClientDisconnect client s =
     and_then (deref client s) (\<lambda>c.
       let s1 = say (Removing_client (GetID c)) s
       in Inr (s1\<lparr>m_World := RemoveChaFromWorld (GetID c) (m_World s1)\<rparr>))"

definition OnClientConnect :: "nat option \<Rightarrow> server \<Rightarrow> (bool \<times> nat option \<times> server) result" where
  "OnClientConnect client s =
     and_then (SendToClient OnClientDisconnect client (set_cmd (cmd_value AcceptTCPConnection) new_packet) s)
       (\<lambda>(client', s'). Inr (True, client', s'))"

text \<open>
  \<^verbatim>\<open>now - timeRec\<close>, on \<^verbatim>\<open>long long\<close>: the operands are kept as their 64 bits. The difference
  is undefined when it does not fit, and \<^verbatim>\<open>timeRec\<close> is what the client sent.
\<close>

definition long_long_diff :: "u64 \<Rightarrow> u64 \<Rightarrow> u64 result" where
  "long_long_diff a b =
     (let d = sint a - sint b
      in if - (2 ^ 63) \<le> d \<and> d < 2 ^ 63 then Inr (a - b) else Inl Signed_overflow)"

definition OnPing :: "(server \<Rightarrow> u64) \<Rightarrow> nat option \<Rightarrow> packet \<Rightarrow> server \<Rightarrow> server result" where
  "OnPing now client pkt s =
     and_then (deref client s) (\<lambda>c.
       let s1 = say (Requested_ping (GetID c)) s in
       and_then (pull_u64 pkt) (\<lambda>(timeRec, pkt').
       and_then (long_long_diff (now s1) timeRec) (\<lambda>ping.
         let s2 = say (Ping_millis ping) s1 in
         and_then (SendToClient OnClientDisconnect client (push_u64 timeRec pkt') s2) (\<lambda>(_, s3). Inr s3))))"

definition OnMessageAll :: "nat option \<Rightarrow> server \<Rightarrow> server result" where
  "OnMessageAll client s =
     and_then (deref client s) (\<lambda>c.
       let s1 = say (Message_all (GetID c)) s;
           pkt = push_u32 (GetID c) (set_cmd (cmd_value ServerMessage) new_packet)
       in SendToAll OnClientDisconnect pkt client s1)"

fun push_character :: "u32 \<times> character \<Rightarrow> packet \<Rightarrow> packet" where
  "push_character (k, cha) pkt =
     push_u64 (posY cha) (push_u64 (posX cha) (push_u16 (m_ID cha) pkt))"

definition SendToEach :: "(nat option \<Rightarrow> 'z server_app_scheme \<Rightarrow> 'z server_app_scheme result) \<Rightarrow>
    packet \<Rightarrow> nat option list \<Rightarrow> 'z server_app_scheme \<Rightarrow> 'z server_app_scheme result" where
  "SendToEach odc pkt notifylist s =
     fold_result (\<lambda>p s. and_then (SendToClient odc p pkt s) (\<lambda>(_, s'). Inr s')) notifylist s"

definition enter_character :: "nat option \<Rightarrow> u32 \<Rightarrow> character" where
  "enter_character client i = SetWorld (SetTCPConnection client (SetID i new_character))"

definition self_enter_packet :: "u16 \<Rightarrow> cha_map \<Rightarrow> packet" where
  "self_enter_packet me w = push_u16 me (push_u32 (of_nat (length w))
     (fold push_character w (set_cmd (cmd_value SelfEnterWorld) new_packet)))"

definition ply_enter_packet :: "character \<Rightarrow> packet" where
  "ply_enter_packet cha = push_u64 (posY cha) (push_u64 (posX cha) (push_u16 (m_ID cha)
     (set_cmd (cmd_value PlyEnterWorld) new_packet)))"

definition OnSelfEnterWorld :: "(server \<Rightarrow> u32 \<Rightarrow> nat) \<Rightarrow> nat option \<Rightarrow> server \<Rightarrow> server result" where
  "OnSelfEnterWorld rank client s =
     and_then (deref client s) (\<lambda>c.
       let s1 = say (Entered_world (GetID c)) s;
           cha = enter_character client (GetID c);
           w = AddChaToWorld (rank s1) (ucast (m_ID cha)) cha (m_World s1);
           s2 = s1\<lparr>m_World := w\<rparr>;
           notifylist = map (\<lambda>e. m_TCPConnection (snd e)) w
       in and_then (SendToEach OnClientDisconnect (ply_enter_packet cha) notifylist s2) (\<lambda>s3.
            and_then (SendToClient OnClientDisconnect client (self_enter_packet (m_ID cha) w) s3)
              (\<lambda>(_, s4). Inr s4)))"

definition OnMovePlayer :: "nat option \<Rightarrow> packet \<Rightarrow> server \<Rightarrow> server result" where
  "OnMovePlayer client pkt s =
     and_then (deref client s) (\<lambda>c.
       case umap_find (GetID c) (m_World s) of
         None \<Rightarrow> Inr s
       | Some cha \<Rightarrow>
           and_then (pull_u64 pkt) (\<lambda>(y, p1). and_then (pull_u64 p1) (\<lambda>(x, p2).
             and_then (pull_u16 p2) (\<lambda>(i, p3).
               let s1 = (if i \<noteq> m_ID cha then say (Id_mismatch i (m_ID cha)) s else s)
               in and_then (SetPos (GetID c) x y cha (m_World s1) (conns s1)) (\<lambda>(w, st).
                    Inr (s1\<lparr>m_World := w, conns := st\<rparr>))))))"

definition OnPacket :: "(server \<Rightarrow> u64) \<Rightarrow> (server \<Rightarrow> u32 \<Rightarrow> nat) \<Rightarrow> nat option \<Rightarrow> packet \<Rightarrow>
    server \<Rightarrow> server result" where
  "OnPacket now rank client pkt s =
     (let c = cmdID (header pkt) in
      if c = cmd_value Ping then OnPing now client pkt s
      else if c = cmd_value MessageAll then OnMessageAll client s
      else if c = cmd_value SelfEnterWorld then OnSelfEnterWorld rank client s
      else if c = cmd_value MovePlayer then OnMovePlayer client pkt s
      else Inr s)"

text \<open>
  \<^verbatim>\<open>main\<close>: the constructor leaves \<^verbatim>\<open>m_IDCnt\<close> as the memory held it (\<open>cnt\<close>); each
  iteration of the endless loop is a \<^verbatim>\<open>Process\<close> with the largest budget that waits.
\<close>

definition new_server :: "u32 \<Rightarrow> server" where
  "new_server cnt = \<lparr>conns = (\<lambda>_. None), m_TCP_PktIn = empty_queue, m_TCPConnections = [],
     m_UDPSockets = [], m_IDCnt = cnt, accepts = 0, udp_waits = 0, slog = [], m_World = []\<rparr>"

definition main_iteration :: "(server \<Rightarrow> u64) \<Rightarrow> (server \<Rightarrow> u32 \<Rightarrow> nat) \<Rightarrow> bool \<Rightarrow> (server \<Rightarrow> server) \<Rightarrow> server \<Rightarrow>
    server result option" where
  "main_iteration now rank woken meanwhile s = Process (OnPacket now rank) SIZE_MAX True woken meanwhile s"

section \<open>Disconnecting\<close>

lemma OnClientDisconnect_result:
  assumes "exists_in s p"
  shows "OnClientDisconnect p s =
    Inr ((say (Removing_client (id_of s p)) s)\<lparr>m_World := RemoveChaFromWorld (id_of s p) (m_World s)\<rparr>)"
  using assms by (auto simp: exists_in_def OnClientDisconnect_def say_def GetID_def)

interpretation srv: forgetful OnClientDisconnect m_World RemoveChaFromWorld
  by unfold_locales (auto simp: OnClientDisconnect_result core_def say_def)

lemma fold_RemoveChaFromWorld:
  "fold RemoveChaFromWorld ks w = filter (\<lambda>e. fst e \<notin> set ks) w"
  by (induction ks arbitrary: w) (auto simp: RemoveChaFromWorld_def umap_erase_def intro: filter_cong)

section \<open>Sending to a list\<close>

context forgetful
begin

lemma SendToEach_result:
  fixes s :: "'z server_app_scheme"
  assumes "\<forall>p \<in> set ps. exists_in s p"
  shows "\<exists>s'. SendToEach odc pkt ps s = Inr s' \<and>
    conns s' = broadcast pkt (map the (filter (alive s) ps)) (conns s) \<and>
    m_TCPConnections s' = filter (\<lambda>p. p \<notin> set (filter (\<lambda>p. \<not> alive s p) ps)) (m_TCPConnections s) \<and>
    core s' = core s \<and>
    view s' = fold forget (map (id_of s) (filter (\<lambda>p. \<not> alive s p) ps)) (view s)"
  using assms
proof (induction ps arbitrary: s)
  case Nil
  then show ?case by (simp add: SendToEach_def)
next
  case (Cons p ps)
  then obtain i where i: "p = Some i" by (auto simp: exists_in_def)
  have "exists_in s (Some i)" using Cons.prems i by simp
  from SendToClient_result [OF this, of pkt] obtain t where t:
    "SendToClient odc (Some i) pkt s = Inr (if alive s (Some i) then Some i else None, t)"
    "conns t = (if alive s (Some i) then broadcast pkt [i] (conns s) else conns s)"
    "m_TCPConnections t = (if alive s (Some i) then m_TCPConnections s
      else removeAll (Some i) (m_TCPConnections s))" "core t = core s"
    "view t = (if alive s (Some i) then view s else forget (id_of s (Some i)) (view s))" by blast
  have same: "same_store (conns s) (conns t)" using t(2) same_store_broadcast [of "conns s" pkt "[i]"] by (simp del: broadcast_simps)
  note keep = same_store_alive [OF same]
  have "\<forall>p \<in> set ps. exists_in t p" using Cons.prems keep(2) by simp
  from Cons.IH [OF this] obtain s' where s': "SendToEach odc pkt ps t = Inr s'"
    "conns s' = broadcast pkt (map the (filter (alive s) ps)) (conns t)"
    "m_TCPConnections s' = filter (\<lambda>p. p \<notin> set (filter (\<lambda>p. \<not> alive s p) ps)) (m_TCPConnections t)"
    "core s' = core t"
    "view s' = fold forget (map (id_of s) (filter (\<lambda>p. \<not> alive s p) ps)) (view t)"
    unfolding keep by blast
  have "SendToEach odc pkt (p # ps) s = Inr s'"
    using s'(1) t(1) by (simp add: SendToEach_def i)
  then show ?case
    using s' t i by (auto simp: removeAll_filter_not_eq intro!: filter_cong)
qed

end

section \<open>The invariant\<close>

definition cha_ok :: "conn_store \<Rightarrow> u32 \<times> character \<Rightarrow> bool" where
  "cha_ok st e \<longleftrightarrow> fst e = ucast (m_ID (snd e)) \<and> in_World (snd e) \<and>
     (\<exists>i c. m_TCPConnection (snd e) = Some i \<and> st i = Some c \<and> ucast (m_sID c) = m_ID (snd e))"

definition server_inv :: "server \<Rightarrow> bool" where
  "server_inv s \<longleftrightarrow> (\<forall>p \<in> set (m_TCPConnections s). exists_in s p) \<and>
     (\<forall>w \<in> set (m_deqQueue (m_TCP_PktIn s)). exists_in s (connectionPtr w)) \<and>
     distinct (map fst (m_World s)) \<and> (\<forall>e \<in> set (m_World s). cha_ok (conns s) e)"

lemma cha_ok_same:
  assumes "cha_ok st e" and "same_store st st'"
  shows "cha_ok st' e"
proof -
  obtain i c where i: "m_TCPConnection (snd e) = Some i" "st i = Some c" "ucast (m_sID c) = m_ID (snd e)"
    using assms(1) by (auto simp: cha_ok_def)
  from same_storeD [OF assms(2) i(2)] obtain d where "st' i = Some d" "same_conn c d" by blast
  with i same_conn_fields [OF this(2)] assms(1) show ?thesis by (auto simp: cha_ok_def)
qed

lemma cha_ok_exists: "cha_ok (conns s) e \<Longrightarrow> exists_in s (m_TCPConnection (snd e))"
  by (auto simp: cha_ok_def exists_in_def)

text \<open>
  What every handler leaves: the same connections, at most more to send, a smaller
  registry, the incoming packets untouched, the world as given.
\<close>

lemma server_inv_after:
  assumes "server_inv s" and "same_store (conns s) (conns s')"
    and "set (m_TCPConnections s') \<subseteq> set (m_TCPConnections s)" and "m_TCP_PktIn s' = m_TCP_PktIn s"
    and "distinct (map fst (m_World s'))" and "\<forall>e \<in> set (m_World s'). cha_ok (conns s) e"
  shows "server_inv s'"
proof -
  have "\<forall>p \<in> set (m_TCPConnections s'). exists_in s' p"
    using assms(1,3) same_store_alive(2) [OF assms(2)] by (auto simp: server_inv_def)
  moreover have "\<forall>w \<in> set (m_deqQueue (m_TCP_PktIn s')). exists_in s' (connectionPtr w)"
    using assms(1,4) same_store_alive(2) [OF assms(2)] by (simp add: server_inv_def)
  moreover have "\<forall>e \<in> set (m_World s'). cha_ok (conns s') e"
    using assms(6) cha_ok_same [OF _ assms(2)] by blast
  ultimately show ?thesis using assms(5) by (simp add: server_inv_def)
qed

lemma server_inv_new: "server_inv (new_server cnt)"
  by (simp add: server_inv_def new_server_def)

lemma world_filter:
  assumes "server_inv s"
  shows "distinct (map fst (filter P (m_World s)))" "\<forall>e \<in> set (filter P (m_World s)). cha_ok (conns s) e"
  using assms by (auto simp: server_inv_def distinct_map_filter)

lemma id_of_cong: "conns t = conns s \<Longrightarrow> id_of t = id_of s"
proof
  fix p assume "conns t = conns s" then show "id_of t p = id_of s p" by (cases p) simp_all
qed

lemma exists_in_extend [simp]:
  "exists_in (say l s) = exists_in s" "alive (say l s) = alive s" "id_of (say l s) = id_of s"
  "exists_in (s\<lparr>m_World := w\<rparr>) = exists_in s" "alive (s\<lparr>m_World := w\<rparr>) = alive s"
  "id_of (s\<lparr>m_World := w\<rparr>) = id_of s"
  by (auto simp: exists_in_def alive_def say_def intro!: ext id_of_cong)

lemma say_fields [simp]:
  "conns (say l s) = conns s" "m_TCPConnections (say l s) = m_TCPConnections s"
  "m_TCP_PktIn (say l s) = m_TCP_PktIn s" "m_World (say l s) = m_World s"
  "core (s\<lparr>m_World := w\<rparr>) = core s"
  by (simp_all add: say_def core_def)

lemma core_PktIn: "core s' = core s \<Longrightarrow> m_TCP_PktIn s' = m_TCP_PktIn s"
  by (simp add: core_def)

lemma exists_in_Some: "exists_in s p \<longleftrightarrow> (\<exists>i c. p = Some i \<and> conns s i = Some c)"
  by (simp add: exists_in_def)

lemma deref_exists: "exists_in s p \<Longrightarrow> \<exists>c. deref p s = Inr c \<and> GetID c = id_of s p"
  by (auto simp: exists_in_def GetID_def)

section \<open>What each handler does\<close>

lemma push_back_pulled:
  assumes "pull_u64 pkt = Inr (t, p)"
  shows "push_u64 t p = set_body (body pkt) pkt"
proof -
  obtain bs d where "body pkt = bs @ d" "length d = 8" "t = of_le_bytes d" "p = set_body bs pkt"
    using assms by (auto simp: pull_as_def and_then_Inr_iff pull_data_Inr_iff)
  then show ?thesis by (simp add: push_as_def push_data_def le_bytes_of_le_bytes [of d 8])
qed

lemma OnPing_short:
  assumes "exists_in s client" and "length (body pkt) < 8"
  shows "OnPing now client pkt s = Inl Out_of_range"
  using deref_exists [OF assms(1)] u64_data.pull_short [of pkt] assms(2) by (auto simp: OnPing_def)

text \<open>The time a \<^verbatim>\<open>Ping\<close> carries is too far from the server's clock.\<close>

definition ping_overflows :: "(server \<Rightarrow> u64) \<Rightarrow> server \<Rightarrow> nat option \<Rightarrow> packet \<Rightarrow> bool" where
  "ping_overflows now s client pkt \<longleftrightarrow>
     (let d = sint (now (say (Requested_ping (id_of s client)) s)) -
              sint (of_le_bytes (drop (length (body pkt) - 8) (body pkt)) :: u64)
      in d < - (2 ^ 63) \<or> 2 ^ 63 \<le> d)"

lemma pull_u64_value:
  assumes "pull_u64 pkt = Inr (t, p)"
  shows "t = of_le_bytes (drop (length (body pkt) - 8) (body pkt))"
  using assms by (auto simp: pull_as_def and_then_Inr_iff pull_data_Inr_iff)

lemma OnPing_overflow:
  assumes "exists_in s client" and "8 \<le> length (body pkt)" and "ping_overflows now s client pkt"
  shows "OnPing now client pkt s = Inl Signed_overflow"
proof -
  obtain c where c: "deref client s = Inr c" "GetID c = id_of s client" using deref_exists [OF assms(1)] by blast
  obtain t p where t: "pull_u64 pkt = Inr (t, p)" using u64_data.pull_total [OF assms(2)] by blast
  show ?thesis using assms(3) pull_u64_value [OF t]
    by (auto simp: OnPing_def c t Let_def long_long_diff_def ping_overflows_def simp del: deref.simps id_of.simps)
qed

lemma OnPing_result:
  assumes "exists_in s (Some i)" and "8 \<le> length (body pkt)"
    and "\<not> ping_overflows now s (Some i) pkt"
  shows "\<exists>s'. OnPing now (Some i) pkt s = Inr s' \<and> core s' = core s \<and>
    conns s' = (if alive s (Some i) then broadcast (set_body (body pkt) pkt) [i] (conns s) else conns s) \<and>
    m_TCPConnections s' = (if alive s (Some i) then m_TCPConnections s
      else removeAll (Some i) (m_TCPConnections s)) \<and>
    m_World s' = (if alive s (Some i) then m_World s
      else RemoveChaFromWorld (id_of s (Some i)) (m_World s))"
proof -
  obtain c where c: "deref (Some i) s = Inr c" "GetID c = id_of s (Some i)" using deref_exists [OF assms(1)] by blast
  obtain t p where t: "pull_u64 pkt = Inr (t, p)" using u64_data.pull_total [OF assms(2)] by blast
  have d: "long_long_diff (now (say (Requested_ping (GetID c)) s)) t =
      Inr (now (say (Requested_ping (GetID c)) s) - t)"
    using assms(3) pull_u64_value [OF t] by (auto simp: long_long_diff_def ping_overflows_def c Let_def simp del: id_of.simps)
  define s2 where "s2 = say (Ping_millis (now (say (Requested_ping (GetID c)) s) - t))
    (say (Requested_ping (GetID c)) s)"
  have call: "OnPing now (Some i) pkt s =
      and_then (SendToClient OnClientDisconnect (Some i) (set_body (body pkt) pkt) s2) (\<lambda>(_, s3). Inr s3)"
    using d by (simp add: OnPing_def c(1) t Let_def s2_def push_back_pulled [OF t] del: deref.simps)
  have "exists_in s2 (Some i)" using assms(1) by (simp add: s2_def)
  from srv.SendToClient_result [OF this, of "set_body (body pkt) pkt"] show ?thesis
    unfolding call by (auto simp: s2_def simp del: broadcast_simps)
qed

lemma OnMessageAll_result:
  assumes "server_inv s" and "exists_in s client"
  shows "\<exists>s'. OnMessageAll client s = Inr s' \<and> core s' = core s \<and>
    conns s' = broadcast (push_u32 (id_of s client) (set_cmd (cmd_value ServerMessage) new_packet))
      (map the (filter (\<lambda>p. alive s p \<and> p \<noteq> client) (m_TCPConnections s))) (conns s) \<and>
    m_TCPConnections s' = filter (alive s) (m_TCPConnections s) \<and>
    m_World s' = filter (\<lambda>e. fst e \<notin> id_of s ` {p \<in> set (m_TCPConnections s). \<not> alive s p}) (m_World s)"
proof -
  obtain c where c: "deref client s = Inr c" "GetID c = id_of s client"
    using deref_exists [OF assms(2)] by blast
  have "\<forall>p \<in> set (m_TCPConnections (say (Message_all (GetID c)) s)). exists_in (say (Message_all (GetID c)) s) p"
    using assms(1) by (simp add: server_inv_def)
  from srv.SendToAll_result [OF this, of "push_u32 (id_of s client) (set_cmd (cmd_value ServerMessage) new_packet)" client]
  show ?thesis by (auto simp: OnMessageAll_def c Let_def fold_RemoveChaFromWorld id_def)
qed

lemma OnSelfEnterWorld_result:
  fixes rank :: "server \<Rightarrow> u32 \<Rightarrow> nat"
  assumes "server_inv s" and "exists_in s (Some i)"
  defines "cha \<equiv> enter_character (Some i) (id_of s (Some i))"
  defines "w \<equiv> AddChaToWorld (rank (say (Entered_world (id_of s (Some i))) s)) (ucast (m_ID cha)) cha (m_World s)"
  defines "ps \<equiv> map (\<lambda>e. m_TCPConnection (snd e)) w"
  shows "\<exists>s'. OnSelfEnterWorld rank (Some i) s = Inr s' \<and> core s' = core s \<and>
    conns s' = (let st = broadcast (ply_enter_packet cha) (map the (filter (alive s) ps)) (conns s)
      in if alive s (Some i) then broadcast (self_enter_packet (m_ID cha) w) [i] st else st) \<and>
    set (m_TCPConnections s') \<subseteq> set (m_TCPConnections s) \<and>
    m_World s' = filter (\<lambda>e. fst e \<notin> id_of s ` {p \<in> insert (Some i) (set ps). \<not> alive s p}) w"
proof -
  obtain c where c: "deref (Some i) s = Inr c" "GetID c = id_of s (Some i)"
    using deref_exists [OF assms(2)] by blast
  define s2 where "s2 = (say (Entered_world (id_of s (Some i))) s)\<lparr>m_World := w\<rparr>"
  have wf: "distinct (map fst (m_World s))" using assms(1) by (simp add: server_inv_def)
  have ps: "\<forall>p \<in> set ps. exists_in s2 p"
    using assms(1,2) chamap.entries_insert [OF wf, of "rank (say (Entered_world (id_of s (Some i))) s)"]
    by (auto simp: ps_def w_def AddChaToWorld_def server_inv_def s2_def cha_def enter_character_def
        world_defs split: if_splits intro: cha_ok_exists)
  from srv.SendToEach_result [OF ps, of "ply_enter_packet cha"] obtain s3 where s3:
    "SendToEach OnClientDisconnect (ply_enter_packet cha) ps s2 = Inr s3"
    "conns s3 = broadcast (ply_enter_packet cha) (map the (filter (alive s) ps)) (conns s)"
    "m_TCPConnections s3 = filter (\<lambda>p. p \<notin> set (filter (\<lambda>p. \<not> alive s p) ps)) (m_TCPConnections s)"
    "core s3 = core s"
    "m_World s3 = filter (\<lambda>e. fst e \<notin> id_of s ` {p \<in> set ps. \<not> alive s p}) w"
    by (auto simp: s2_def fold_RemoveChaFromWorld id_def)
  have same: "same_store (conns s) (conns s3)" by (simp add: s3(2) same_store_broadcast)
  note keep = same_store_alive [OF same]
  have "exists_in s3 (Some i)" using assms(2) keep by simp
  from srv.SendToClient_result [OF this, of "self_enter_packet (m_ID cha) w"] obtain s4 r where s4:
    "SendToClient OnClientDisconnect (Some i) (self_enter_packet (m_ID cha) w) s3 = Inr (r, s4)"
    "conns s4 = (if alive s (Some i) then broadcast (self_enter_packet (m_ID cha) w) [i] (conns s3) else conns s3)"
    "m_TCPConnections s4 = (if alive s (Some i) then m_TCPConnections s3
      else removeAll (Some i) (m_TCPConnections s3))" "core s4 = core s3"
    "m_World s4 = (if alive s (Some i) then m_World s3
      else RemoveChaFromWorld (id_of s (Some i)) (m_World s3))"
    unfolding keep by blast
  have "OnSelfEnterWorld rank (Some i) s = Inr s4"
    using s3(1) s4(1)
    by (simp add: OnSelfEnterWorld_def c Let_def s2_def w_def cha_def ps_def del: deref.simps)
  moreover have "m_World s4 = filter (\<lambda>e. fst e \<notin> id_of s ` {p \<in> insert (Some i) (set ps). \<not> alive s p}) w"
  proof -
    have "{p \<in> insert (Some i) (set ps). \<not> alive s p} =
        (if alive s (Some i) then {p \<in> set ps. \<not> alive s p} else insert (Some i) {p \<in> set ps. \<not> alive s p})"
      by auto
    then show ?thesis
      using s4(5) s3(5)
      by (auto simp: RemoveChaFromWorld_def umap_erase_def simp del: id_of.simps intro!: filter_cong)
  qed
  ultimately show ?thesis using s3 s4 by (auto simp: Let_def simp del: broadcast_simps)
qed

text \<open>The three reads of \<^verbatim>\<open>MovePlayer\<close>, together.\<close>

lemma pull_move:
  "18 \<le> length (body pkt) \<Longrightarrow>
     \<exists>y x j p1 p2 p3. pull_u64 pkt = Inr (y, p1) \<and> pull_u64 p1 = Inr (x, p2) \<and> pull_u16 p2 = Inr (j, p3)"
proof -
  assume n: "18 \<le> length (body pkt)"
  then obtain y p1 where 1: "pull_u64 pkt = Inr (y, p1)" using u64_data.pull_total [of pkt] by auto
  with n have n1: "10 \<le> length (body p1)" using u64_data.pull_length [OF 1] by simp
  then obtain x p2 where 2: "pull_u64 p1 = Inr (x, p2)" using u64_data.pull_total [of p1] by auto
  with n1 have "2 \<le> length (body p2)" using u64_data.pull_length [OF 2] by simp
  then obtain j p3 where "pull_u16 p2 = Inr (j, p3)" using u16_data.pull_total [of p2] by auto
  with 1 2 show ?thesis by blast
qed

lemma pull_move_short:
  assumes "length (body pkt) < 18"
  shows "and_then (pull_u64 pkt) (\<lambda>(y, p1). and_then (pull_u64 p1) (\<lambda>(x, p2).
    and_then (pull_u16 p2) (\<lambda>(i, p3). f y x i))) = Inl Out_of_range"
proof (cases "pull_u64 pkt")
  case (Inl e)
  then show ?thesis by (auto simp: pull_as_def pull_data_def Let_def split: if_splits)
next
  case (Inr r)
  then obtain y p1 where 1: "pull_u64 pkt = Inr (y, p1)" by (cases r) auto
  have n1: "length (body p1) < 10" using u64_data.pull_length [OF 1] assms by simp
  show ?thesis
  proof (cases "pull_u64 p1")
    case (Inl e)
    then show ?thesis using 1 by (auto simp: pull_as_def pull_data_def Let_def split: if_splits)
  next
    case (Inr r)
    then obtain x p2 where 2: "pull_u64 p1 = Inr (x, p2)" by (cases r) auto
    have "length (body p2) < 2" using u64_data.pull_length [OF 2] n1 by simp
    with u16_data.pull_short [of p2] 1 2 show ?thesis by simp
  qed
qed

lemma OnMovePlayer_absent:
  assumes "exists_in s client" and "umap_find (id_of s client) (m_World s) = None"
  shows "OnMovePlayer client pkt s = Inr s"
  using deref_exists [OF assms(1)] assms(2) by (auto simp: OnMovePlayer_def)

lemma OnMovePlayer_short:
  assumes "exists_in s client" and "umap_find (id_of s client) (m_World s) = Some cha"
    and "length (body pkt) < 18"
  shows "OnMovePlayer client pkt s = Inl Out_of_range"
  using deref_exists [OF assms(1)] assms(2) pull_move_short [OF assms(3)]
  by (auto simp: OnMovePlayer_def)

lemma OnMovePlayer_result:
  assumes "server_inv s" and "exists_in s client" and f: "umap_find (id_of s client) (m_World s) = Some cha"
    and p: "pull_u64 pkt = Inr (y, p1)" "pull_u64 p1 = Inr (x, p2)" "pull_u16 p2 = Inr (j, p3)"
  defines "cha' \<equiv> cha\<lparr>posX := x, posY := y\<rparr>"
  shows "\<exists>s'. OnMovePlayer client pkt s = Inr s' \<and> core s' = core s \<and>
    m_TCPConnections s' = m_TCPConnections s \<and>
    m_World s' = umap_assign (id_of s client) cha' (m_World s) \<and>
    conns s' = broadcast (move_packet cha') (map (the \<circ> m_TCPConnection \<circ> snd)
      (filter (\<lambda>e. m_ID (snd e) \<noteq> m_ID cha) (m_World s))) (conns s) \<and>
    slog s' = (if j \<noteq> m_ID cha then slog s @ [Id_mismatch j (m_ID cha)] else slog s)"
proof -
  obtain c where c: "deref client s = Inr c" "GetID c = id_of s client"
    using deref_exists [OF assms(2)] by blast
  have wf: "distinct (map fst (m_World s))" and ok: "\<forall>e \<in> set (m_World s). cha_ok (conns s) e"
    using assms(1) by (simp_all add: server_inv_def)
  have e: "(id_of s client, cha) \<in> set (m_World s)"
    using chamap.find_entries [OF wf] f by simp
  with ok have inw: "in_World cha" by (auto simp: cha_ok_def)
  let ?w = "umap_assign (id_of s client) cha' (m_World s)"
  have "filter (\<lambda>e. m_ID (snd e) \<noteq> m_ID cha) (umap_assign k cha' w) = filter (\<lambda>e. m_ID (snd e) \<noteq> m_ID cha) w"
    if "\<forall>e \<in> set w. fst e = k \<longrightarrow> m_ID (snd e) = m_ID cha" for k w
    using that by (induction w) (auto simp: umap_assign_def cha'_def)
  moreover have "\<forall>e \<in> set (m_World s). fst e = id_of s client \<longrightarrow> m_ID (snd e) = m_ID cha"
    using e wf by (metis eq_key_imp_eq_value prod.collapse)
  ultimately have filt: "filter (\<lambda>e. m_ID (snd e) \<noteq> m_ID cha) ?w =
      filter (\<lambda>e. m_ID (snd e) \<noteq> m_ID cha) (m_World s)" by blast
  have "\<forall>e \<in> set ?w. \<exists>i c. m_TCPConnection (snd e) = Some i \<and> conns s i = Some c"
    using ok e by (fastforce simp: umap_assign_def cha_ok_def cha'_def)
  from FlagMoveUpdate_broadcast [OF this, of cha'] have flag: "FlagMoveUpdate cha' ?w (conns s) =
      Inr (broadcast (move_packet cha') (map (the \<circ> m_TCPConnection \<circ> snd)
        (filter (\<lambda>e. m_ID (snd e) \<noteq> m_ID cha) (m_World s))) (conns s))"
    using filt by (simp add: cha'_def)
  show ?thesis
    using c f p inw flag
    by (auto simp: OnMovePlayer_def SetPos_def cha'_def Let_def core_def say_def simp del: id_of.simps)
qed

section \<open>Every handler keeps the invariant\<close>

lemma server_inv_OnPing:
  assumes "server_inv s" and "exists_in s (Some i)" and "OnPing now (Some i) pkt s = Inr s'"
  shows "server_inv s' \<and> m_TCP_PktIn s' = m_TCP_PktIn s"
proof -
  have "8 \<le> length (body pkt)" using OnPing_short [OF assms(2)] assms(3) by (metis not_less sum.distinct(1))
  moreover from this have "\<not> ping_overflows now s (Some i) pkt" using OnPing_overflow [OF assms(2)] assms(3) by auto
  ultimately obtain
    "core s' = core s" and st: "same_store (conns s) (conns s')" and "set (m_TCPConnections s') \<subseteq> set (m_TCPConnections s)"
    and w: "m_World s' = m_World s \<or> m_World s' = RemoveChaFromWorld (id_of s (Some i)) (m_World s)"
    using OnPing_result [OF assms(2), of pkt now] assms(3) same_store_broadcast
    by (auto split: if_splits simp del: broadcast_simps id_of.simps)
  moreover have "distinct (map fst (m_World s')) \<and> (\<forall>e \<in> set (m_World s'). cha_ok (conns s) e)"
    using w world_filter [OF assms(1)] assms(1)
    by (auto simp: RemoveChaFromWorld_def umap_erase_def server_inv_def)
  ultimately show ?thesis using server_inv_after [OF assms(1)] core_PktIn by blast
qed

lemma server_inv_OnMessageAll:
  assumes "server_inv s" and "exists_in s client" and "OnMessageAll client s = Inr s'"
  shows "server_inv s' \<and> m_TCP_PktIn s' = m_TCP_PktIn s"
proof -
  from OnMessageAll_result [OF assms(1,2)] assms(3) have
    *: "core s' = core s" "same_store (conns s) (conns s')"
      "m_TCPConnections s' = filter (alive s) (m_TCPConnections s)"
      "m_World s' = filter (\<lambda>e. fst e \<notin> id_of s ` {p \<in> set (m_TCPConnections s). \<not> alive s p}) (m_World s)"
    by (auto simp: same_store_broadcast)
  show ?thesis
    using server_inv_after [OF assms(1) *(2), of] world_filter [OF assms(1)] * core_PktIn [OF *(1)]
    by simp
qed

lemma enter_cha_ok:
  assumes "conns s i = Some c"
  shows "cha_ok (conns s) (ucast (m_ID (enter_character (Some i) (m_sID c))), enter_character (Some i) (m_sID c))"
  using assms by (simp add: cha_ok_def enter_character_def world_defs)

lemma server_inv_OnSelfEnterWorld:
  assumes "server_inv s" and "exists_in s (Some i)" and "OnSelfEnterWorld rank (Some i) s = Inr s'"
  shows "server_inv s' \<and> m_TCP_PktIn s' = m_TCP_PktIn s"
proof -
  define cha where "cha = enter_character (Some i) (id_of s (Some i))"
  define w where "w = AddChaToWorld (rank (say (Entered_world (id_of s (Some i))) s)) (ucast (m_ID cha)) cha (m_World s)"
  define ps where "ps = map (\<lambda>e. m_TCPConnection (snd e)) w"
  have wf: "distinct (map fst (m_World s))" and ok: "\<forall>e \<in> set (m_World s). cha_ok (conns s) e"
    using assms(1) by (simp_all add: server_inv_def)
  obtain c where "conns s i = Some c" using assms(2) by (auto simp: exists_in_def)
  with enter_cha_ok [OF this] have "cha_ok (conns s) (ucast (m_ID cha), cha)" by (simp add: cha_def)
  with ok chamap.entries_insert [OF wf] have wok: "\<forall>e \<in> set w. cha_ok (conns s) e"
    by (auto simp: w_def AddChaToWorld_def split: if_splits)
  have wwf: "distinct (map fst w)"
    using chamap.wf_insert [OF wf] by (simp add: w_def AddChaToWorld_def)
  from OnSelfEnterWorld_result [OF assms(1,2), of rank, folded cha_def, folded w_def, folded ps_def] assms(3)
  have *: "core s' = core s" "conns s' = (let st = broadcast (ply_enter_packet cha) (map the (filter (alive s) ps)) (conns s)
      in if alive s (Some i) then broadcast (self_enter_packet (m_ID cha) w) [i] st else st)"
    "set (m_TCPConnections s') \<subseteq> set (m_TCPConnections s)"
    "m_World s' = filter (\<lambda>e. fst e \<notin> id_of s ` {p \<in> insert (Some i) (set ps). \<not> alive s p}) w"
    by (simp_all del: broadcast_simps id_of.simps)
  have "same_store (conns s) (conns s')"
    unfolding *(2) Let_def
    using same_store_broadcast same_store_trans [OF same_store_broadcast same_store_broadcast]
    by (simp del: broadcast_simps)
  from server_inv_after [OF assms(1) this *(3) core_PktIn [OF *(1)]] show ?thesis
    using wok wwf *(4) core_PktIn [OF *(1)] by (simp add: distinct_map_filter)
qed

lemma server_inv_OnMovePlayer:
  assumes "server_inv s" and "exists_in s client" and "OnMovePlayer client pkt s = Inr s'"
  shows "server_inv s' \<and> m_TCP_PktIn s' = m_TCP_PktIn s"
proof (cases "umap_find (id_of s client) (m_World s)")
  case None
  with OnMovePlayer_absent [OF assms(2)] assms(1,3) show ?thesis by simp
next
  case (Some cha)
  have "18 \<le> length (body pkt)"
    using OnMovePlayer_short [OF assms(2) Some] assms(3) by (metis not_less sum.distinct(1))
  then obtain y x j p1 p2 p3 where p: "pull_u64 pkt = Inr (y, p1)" "pull_u64 p1 = Inr (x, p2)"
    "pull_u16 p2 = Inr (j, p3)" using pull_move by blast
  have wf: "distinct (map fst (m_World s))" and ok: "\<forall>e \<in> set (m_World s). cha_ok (conns s) e"
    using assms(1) by (simp_all add: server_inv_def)
  have e: "(id_of s client, cha) \<in> set (m_World s)" using chamap.find_entries [OF wf] Some by simp
  from OnMovePlayer_result [OF assms(1,2) Some p] assms(3) have
    *: "core s' = core s" "m_TCPConnections s' = m_TCPConnections s" "same_store (conns s) (conns s')"
      "m_World s' = umap_assign (id_of s client) (cha\<lparr>posX := x, posY := y\<rparr>) (m_World s)"
    by (auto simp: same_store_broadcast)
  have "\<forall>e \<in> set (m_World s'). cha_ok (conns s) e"
    using ok e by (auto simp: *(4) umap_assign_def cha_ok_def)
  with server_inv_after [OF assms(1) *(3) _ core_PktIn [OF *(1)]] * wf core_PktIn [OF *(1)] show ?thesis
    by (simp add: umap_assign_fst)
qed

section \<open>The processing loop of the server\<close>

text \<open>What a client must not send: the two requests whose data is read without a check, and a time.\<close>

definition short_request :: "server \<Rightarrow> nat option \<Rightarrow> packet \<Rightarrow> bool" where
  "short_request s client pkt \<longleftrightarrow>
     (cmdID (header pkt) = cmd_value Ping \<and> length (body pkt) < 8) \<or>
     (cmdID (header pkt) = cmd_value MovePlayer \<and> length (body pkt) < 18 \<and>
        umap_find (id_of s client) (m_World s) \<noteq> None)"

definition bad_time :: "(server \<Rightarrow> u64) \<Rightarrow> server \<Rightarrow> nat option \<Rightarrow> packet \<Rightarrow> bool" where
  "bad_time now s client pkt \<longleftrightarrow> cmdID (header pkt) = cmd_value Ping \<and> 8 \<le> length (body pkt) \<and>
     ping_overflows now s client pkt"

lemma OnPacket_cases:
  obtains (ping) "cmdID (header pkt) = cmd_value Ping" "OnPacket now rank client pkt s = OnPing now client pkt s"
  | (all) "cmdID (header pkt) = cmd_value MessageAll" "OnPacket now rank client pkt s = OnMessageAll client s"
  | (enter) "cmdID (header pkt) = cmd_value SelfEnterWorld"
      "OnPacket now rank client pkt s = OnSelfEnterWorld rank client s"
  | (move) "cmdID (header pkt) = cmd_value MovePlayer"
      "OnPacket now rank client pkt s = OnMovePlayer client pkt s"
  | (other) "cmdID (header pkt) \<noteq> cmd_value Ping" "cmdID (header pkt) \<noteq> cmd_value MovePlayer"
      "OnPacket now rank client pkt s = Inr s"
  by (simp add: OnPacket_def Let_def split: if_splits) (metis cmd_value.simps)

lemma OnPacket_faults:
  assumes "server_inv s" and "exists_in s client"
  shows "OnPacket now rank client pkt s = Inl e \<longleftrightarrow>
    e = Out_of_range \<and> short_request s client pkt \<or> e = Signed_overflow \<and> bad_time now s client pkt"
proof -
  obtain i where i: "client = Some i" "exists_in s (Some i)" using assms(2) by (auto simp: exists_in_def)
  show ?thesis
  proof (cases rule: OnPacket_cases [of pkt now rank client s])
    case ping
    then show ?thesis
      using OnPing_short [OF assms(2), of pkt now] OnPing_result [OF i(2), of pkt now] i(1)
        OnPing_overflow [OF assms(2), of pkt now]
      by (cases "length (body pkt) < 8"; cases "ping_overflows now s client pkt")
        (auto simp: short_request_def bad_time_def)
  next
    case all
    with OnMessageAll_result [OF assms] show ?thesis by (auto simp: short_request_def bad_time_def)
  next
    case enter
    with OnSelfEnterWorld_result [OF assms(1) i(2), of rank] i(1) show ?thesis
      by (auto simp: short_request_def bad_time_def)
  next
    case move
    show ?thesis
    proof (cases "umap_find (id_of s client) (m_World s)")
      case None
      with move OnMovePlayer_absent [OF assms(2) None] show ?thesis by (simp add: short_request_def bad_time_def)
    next
      case (Some cha)
      show ?thesis
      proof (cases "length (body pkt) < 18")
        case True
        with move Some OnMovePlayer_short [OF assms(2) Some True] show ?thesis
          by (auto simp: short_request_def bad_time_def)
      next
        case False
        then obtain y x j p1 p2 p3 where "pull_u64 pkt = Inr (y, p1)" "pull_u64 p1 = Inr (x, p2)"
          "pull_u16 p2 = Inr (j, p3)" using pull_move [of pkt] by auto
        from OnMovePlayer_result [OF assms Some this] False move show ?thesis
          by (auto simp: short_request_def bad_time_def)
      qed
    qed
  next
    case other
    then show ?thesis by (simp add: short_request_def bad_time_def)
  qed
qed

lemma server_inv_OnPacket:
  assumes "server_inv s" and "exists_in s client" and "OnPacket now rank client pkt s = Inr s'"
  shows "server_inv s' \<and> m_TCP_PktIn s' = m_TCP_PktIn s"
proof -
  obtain i where i: "client = Some i" "exists_in s (Some i)" using assms(2) by (auto simp: exists_in_def)
  show ?thesis
  proof (cases rule: OnPacket_cases [of pkt now rank client s])
    case ping
    with assms(3) i(1) server_inv_OnPing [OF assms(1) i(2)] show ?thesis by simp
  next
    case all
    with assms(3) server_inv_OnMessageAll [OF assms(1,2)] show ?thesis by simp
  next
    case enter
    with assms(3) i(1) server_inv_OnSelfEnterWorld [OF assms(1) i(2)] show ?thesis by simp
  next
    case move
    with assms(3) server_inv_OnMovePlayer [OF assms(1,2)] show ?thesis by simp
  next
    case other
    with assms(1,3) show ?thesis by simp
  qed
qed

lemma server_inv_pop:
  assumes "server_inv s" and "m_deqQueue (m_TCP_PktIn s) = xs @ ys"
  shows "server_inv (s\<lparr>m_TCP_PktIn := \<lparr>m_deqQueue = ys\<rparr>\<rparr>)"
  using assms by (auto simp: server_inv_def exists_in_def)

text \<open>
  Taking packets off the queue keeps the invariant, and stops only at such a packet, in a
  state \<open>t\<close> that the packets before it have led to.
\<close>

definition stops_at ::
    "(server \<Rightarrow> u64) \<Rightarrow> (server \<Rightarrow> u32 \<Rightarrow> nat) \<Rightarrow> owned_packet list \<Rightarrow> server \<Rightarrow> fault \<Rightarrow> bool" where
  "stops_at now rank ws s e \<longleftrightarrow> (\<exists>xs w ys t. ws = xs @ w # ys \<and>
     fold_result (take_packet (OnPacket now rank)) xs s = Inr t \<and> server_inv t \<and>
     (e = Out_of_range \<and> short_request t (connectionPtr w) (opkt w) \<or>
      e = Signed_overflow \<and> bad_time now (t\<lparr>m_TCP_PktIn := \<lparr>m_deqQueue = tl (m_deqQueue (m_TCP_PktIn t))\<rparr>\<rparr>)
        (connectionPtr w) (opkt w)))"

lemma short_request_queue: "short_request (s\<lparr>m_TCP_PktIn := q\<rparr>) = short_request s"
proof -
  have "id_of (s\<lparr>m_TCP_PktIn := q\<rparr>) = id_of s" by (rule id_of_cong) simp
  then show ?thesis by (simp add: short_request_def fun_eq_iff del: id_of.simps)
qed

lemma stops_at_Cons:
  assumes "take_packet (OnPacket now rank) w s = Inr s'" and "stops_at now rank ws s' e"
  shows "stops_at now rank (w # ws) s e"
proof -
  from assms(2) obtain xs v ys t where *: "ws = xs @ v # ys"
    "fold_result (take_packet (OnPacket now rank)) xs s' = Inr t" "server_inv t"
    "e = Out_of_range \<and> short_request t (connectionPtr v) (opkt v) \<or>
      e = Signed_overflow \<and> bad_time now (t\<lparr>m_TCP_PktIn := \<lparr>m_deqQueue = tl (m_deqQueue (m_TCP_PktIn t))\<rparr>\<rparr>)
        (connectionPtr v) (opkt v)"
    unfolding stops_at_def by blast
  then have "w # ws = (w # xs) @ v # ys" "fold_result (take_packet (OnPacket now rank)) (w # xs) s = Inr t"
    using assms(1) by simp_all
  with *(3,4) show ?thesis unfolding stops_at_def by blast
qed

lemma take_packets_inv:
  assumes "server_inv s" and "m_deqQueue (m_TCP_PktIn s) = xs @ ys"
  shows "case fold_result (take_packet (OnPacket now rank)) xs s of
      Inl e \<Rightarrow> stops_at now rank xs s e
    | Inr s' \<Rightarrow> server_inv s' \<and> m_deqQueue (m_TCP_PktIn s') = ys"
  using assms
proof (induction xs arbitrary: s)
  case (Cons w xs)
  let ?s = "s\<lparr>m_TCP_PktIn := \<lparr>m_deqQueue = xs @ ys\<rparr>\<rparr>"
  have inv: "server_inv ?s" using server_inv_pop [of s "[w]"] Cons.prems by simp
  have ex: "exists_in ?s (connectionPtr w)"
    using Cons.prems by (auto simp: server_inv_def exists_in_def)
  have call: "take_packet (OnPacket now rank) w s = OnPacket now rank (connectionPtr w) (opkt w) ?s"
    using Cons.prems(2) by (simp add: take_packet_def)
  show ?case
  proof (cases "take_packet (OnPacket now rank) w s")
    case (Inl e)
    then have "stops_at now rank (w # xs) s e"
      using OnPacket_faults [OF inv ex, of now rank "opkt w" e] Cons.prems unfolding call stops_at_def
      by (intro exI [of _ "[]"] exI [of _ w] exI [of _ xs] exI [of _ s]) (auto simp: short_request_queue)
    with Inl show ?thesis by simp
  next
    case (Inr s')
    with server_inv_OnPacket [OF inv ex] call have "server_inv s'" "m_TCP_PktIn s' = m_TCP_PktIn ?s"
      by auto
    with Cons.IH [of s'] Inr stops_at_Cons [OF Inr] show ?thesis by (auto split: sum.splits)
  qed
qed simp

text \<open>A server with two clients, the first of which has entered the world.\<close>

definition demo_conn :: "nat \<Rightarrow> u32 \<Rightarrow> tcp_connection" where
  "demo_conn me i = ConnectToClient i (new_connection Server_side me 0 True)"

definition demo_server :: "bool \<Rightarrow> u32 \<Rightarrow> server" where
  "demo_server up j = (new_server 0)\<lparr>
     conns := [0 \<mapsto> (demo_conn 0 10)\<lparr>sock_open := up\<rparr>, 1 \<mapsto> demo_conn 1 j],
     m_TCP_PktIn := \<lparr>m_deqQueue = [\<lparr>connectionPtr = Some 1, opkt = sample Ping [F64 5]\<rparr>,
       \<lparr>connectionPtr = Some 1, opkt = sample MovePlayer []\<rparr>]\<rparr>,
     m_TCPConnections := [Some 0, Some 1],
     m_World := [(10, enter_character (Some 0) 10)]\<rparr>"

lemma demo_server_simps [simp]:
  "server_inv (demo_server up j)"
  "exists_in (demo_server up j) (Some 0)" "exists_in (demo_server up j) (Some (Suc 0))"
  "alive (demo_server up j) (Some 0) = up" "alive (demo_server up j) (Some (Suc 0))"
  "id_of (demo_server up j) (Some 0) = 10" "id_of (demo_server up j) (Some (Suc 0)) = j"
  "m_World (demo_server up j) = [(10, enter_character (Some 0) 10)]"
  "m_TCPConnections (demo_server up j) = [Some 0, Some (Suc 0)]"
  by (auto simp: server_inv_def demo_server_def exists_in_def alive_def cha_ok_def enter_character_def
      world_defs demo_conn_def tcp_defs)

section \<open>Properties of the server\<close>

text \<open>
  C2. A packet from a connected client never makes the server follow a null pointer. It makes it
  read out of bounds exactly when it is a \<^verbatim>\<open>Ping\<close> of less than 8 bytes or, from a player in
  the world, a \<^verbatim>\<open>MovePlayer\<close> of less than 18, and overflow a signed difference exactly when it
  is a \<^verbatim>\<open>Ping\<close> with a time too far from the server's clock; in every other case the handler
  returns, keeps the invariant and leaves the queue of incoming packets alone.
\<close>

theorem server_handlers_safe:
  assumes "server_inv s" and "exists_in s client"
  shows "(\<forall>e. OnPacket now rank client pkt s = Inl e \<longleftrightarrow>
      e = Out_of_range \<and> short_request s client pkt \<or> e = Signed_overflow \<and> bad_time now s client pkt) \<and>
    (\<forall>s'. OnPacket now rank client pkt s = Inr s' \<longrightarrow> server_inv s' \<and> m_TCP_PktIn s' = m_TCP_PktIn s)"
  using OnPacket_faults [OF assms] server_inv_OnPacket [OF assms] by blast

lemma server_handlers_safe_witness:
  "OnPacket (\<lambda>_. 0) (\<lambda>_ _. 0) (Some 0) (sample MovePlayer []) (demo_server True 11) = Inl Out_of_range \<and>
   OnPacket (\<lambda>_. 0) (\<lambda>_ _. 0) (Some 1) (sample MovePlayer []) (demo_server True 11) \<noteq> Inl Out_of_range \<and>
   OnPacket (\<lambda>_. 9) (\<lambda>_ _. 0) (Some 1) (sample Ping [F64 (2 ^ 63)]) (demo_server True 11) = Inl Signed_overflow"
proof -
  have "bad_time (\<lambda>_. 9) (demo_server True 11) (Some 1) (sample Ping [F64 (2 ^ 63)])"
    by (simp add: bad_time_def ping_overflows_def sample_def wf_fold_push push_as_def)
  with server_handlers_safe [of "demo_server True 11" "Some 1" "\<lambda>_. 9" "\<lambda>_ _. 0" "sample Ping [F64 (2 ^ 63)]"]
  have o: "OnPacket (\<lambda>_. 9) (\<lambda>_ _. 0) (Some 1) (sample Ping [F64 (2 ^ 63)]) (demo_server True 11) = Inl Signed_overflow"
    by simp
  have "umap_find 10 [(10, enter_character (Some 0) 10)] \<noteq> None"
    "umap_find 11 [(10, enter_character (Some 0) 10)] = None"
    by (simp_all add: umap_find_def)
  then have "short_request (demo_server True 11) (Some 0) (sample MovePlayer [])"
    "\<not> short_request (demo_server True 11) (Some 1) (sample MovePlayer [])"
    by (simp_all add: short_request_def sample_def del: id_of.simps)
  then show ?thesis
    using server_handlers_safe [of "demo_server True 11" "Some 0" "\<lambda>_. 0" "\<lambda>_ _. 0" "sample MovePlayer []"]
      server_handlers_safe [of "demo_server True 11" "Some 1" "\<lambda>_. 0" "\<lambda>_ _. 0" "sample MovePlayer []"] o
    by simp
qed

text \<open>
  C5. An iteration of \<^verbatim>\<open>main\<close> blocks only if it has found the queue empty, and until it is woken
  with a packet in it. Then it runs
  \<^verbatim>\<open>OnPacket\<close> on the queued packets, first in first out, up to the budget of \<^verbatim>\<open>SIZE_MAX\<close>,
  takes exactly those off the queue and keeps the invariant, unless it comes to a packet that
  \<open>server_handlers_safe\<close> excludes: there, and nowhere else, it stops.
\<close>

theorem server_main_iteration:
  assumes "server_inv s" and "server_inv (meanwhile s)"
  defines "s1 \<equiv> if m_deqQueue (m_TCP_PktIn s) = [] then meanwhile s else s"
  shows "case main_iteration now rank woken meanwhile s of
      None \<Rightarrow> m_deqQueue (m_TCP_PktIn s) = [] \<and> (\<not> woken \<or> m_deqQueue (m_TCP_PktIn s1) = [])
    | Some r \<Rightarrow> m_deqQueue (m_TCP_PktIn s1) \<noteq> [] \<and>
        r = fold_result (take_packet (OnPacket now rank)) (take SIZE_MAX (m_deqQueue (m_TCP_PktIn s1))) s1 \<and>
        (case r of
           Inl e \<Rightarrow> stops_at now rank (take SIZE_MAX (m_deqQueue (m_TCP_PktIn s1))) s1 e
         | Inr s' \<Rightarrow> server_inv s' \<and> m_deqQueue (m_TCP_PktIn s') = drop SIZE_MAX (m_deqQueue (m_TCP_PktIn s1)))"
proof -
  let ?op = "OnPacket now rank" and ?q = "m_deqQueue (m_TCP_PktIn s1)"
  have inv: "server_inv s1" using assms by simp
  have "process_loop ?op SIZE_MAX 0 s1 = fold_result (take_packet ?op) (take SIZE_MAX ?q) s1"
  proof (rule process_loop_fold [where I = server_inv])
    fix w os s s' assume *: "server_inv s" "m_deqQueue (m_TCP_PktIn s) = w # os"
      "?op (connectionPtr w) (opkt w) (s\<lparr>m_TCP_PktIn := \<lparr>m_deqQueue = os\<rparr>\<rparr>) = Inr s'"
    from take_packets_inv [of s "[w]" os now rank] * show "server_inv s' \<and> m_deqQueue (m_TCP_PktIn s') = os"
      by (simp add: take_packet_def)
  qed (use inv in simp_all)
  moreover have "main_iteration now rank woken meanwhile s =
      (if m_deqQueue (m_TCP_PktIn s) = [] \<and> (\<not> woken \<or> ?q = []) then None else Some (process_loop ?op SIZE_MAX 0 s1))"
    by (simp add: main_iteration_def Process_def is_empty_def s1_def Let_def)
  ultimately show ?thesis
    using take_packets_inv [OF inv, of "take SIZE_MAX ?q" "drop SIZE_MAX ?q" now rank]
    by (cases "m_deqQueue (m_TCP_PktIn s) = []") (simp_all add: s1_def)
qed

lemma server_main_iteration_witness:
  "case main_iteration (\<lambda>_. 0) (\<lambda>_ _. 0) True (\<lambda>s. s) (demo_server True 11) of
     None \<Rightarrow> False
   | Some (Inl e) \<Rightarrow> \<exists>ws. stops_at (\<lambda>_. 0) (\<lambda>_ _. 0) ws (demo_server True 11) e
   | Some (Inr s') \<Rightarrow> server_inv s'"
proof -
  have "m_deqQueue (m_TCP_PktIn (demo_server True 11)) \<noteq> []" by (simp add: demo_server_def)
  with server_main_iteration [OF demo_server_simps(1) [of True 11], where now = "\<lambda>_. 0" and rank = "\<lambda>_ _. 0" and woken = True and meanwhile = "\<lambda>s. s"] show ?thesis
    by (auto split: option.splits sum.splits)
qed

end
