(* ===== verification/ServerBehaviour.thy ===== *)
theory ServerBehaviour
  imports Server
begin

text \<open>
  What the server does for its clients, handler by handler, over the definitions of
  \<open>NetServerApp\<close> and \<open>Server\<close>: accepting, echoing, messaging, entering the world, moving;
  who is sent what, what the registry and the world hold afterwards, and what the packets
  say to a client that reads them.
\<close>

section \<open>Accepting\<close>

lemma on_accept_result:
  assumes "conns s me = None"
  shows "\<exists>s' c. on_accept OnClientConnect 0 True me sid s = Inr s' \<and>
    m_TCPConnections s' = m_TCPConnections s @ [Some me] \<and> m_IDCnt s' = m_IDCnt s + 1 \<and>
    m_TCP_PktIn s' = m_TCP_PktIn s \<and> m_World s' = m_World s \<and>
    conns s' = (conns s)(me \<mapsto> c) \<and> m_sID c = m_IDCnt s \<and> sock_open c \<and> in_ops c = [Reading_header] \<and>
    posted c = [Task_send (set_cmd (cmd_value AcceptTCPConnection) new_packet)]"
  by (simp add: on_accept_def OnClientConnect_def SendToClient_def post_send_def say_def
      AwaitTCPConnection_def tcp_defs Let_def)
    (rule exI, rule conjI, rule refl, simp)

lemma server_inv_extend:
  assumes "server_inv s" and "conns s me = None" and "conns s' = (conns s)(me \<mapsto> c)"
    and "m_TCPConnections s' = m_TCPConnections s @ [Some me]" and "m_TCP_PktIn s' = m_TCP_PktIn s"
    and "m_World s' = m_World s"
  shows "server_inv s'"
proof -
  have "exists_in s p \<Longrightarrow> exists_in s' p" for p using assms(2,3) by (auto simp: exists_in_def)
  moreover have "cha_ok (conns s) e \<Longrightarrow> cha_ok (conns s') e" for e
    using assms(2,3) by (auto simp: cha_ok_def)
  moreover have "exists_in s' (Some me)" using assms(3) by (simp add: exists_in_def)
  ultimately show ?thesis using assms by (auto simp: server_inv_def)
qed

text \<open>
  C13. An accepted connection is put at the end of the registry with the next ID, reads its
  first header, and is sent \<^verbatim>\<open>AcceptTCPConnection\<close>; every other connection is as it was.
  When the peer has gone before the handler runs, \<^verbatim>\<open>remote_endpoint()\<close> throws out of the
  thread and the process is terminated.
\<close>

theorem accept_registers:
  assumes "server_inv s" and "conns s me = None"
  shows "(\<exists>s' c. on_accept OnClientConnect 0 True me sid s = Inr s' \<and> server_inv s' \<and>
      m_TCPConnections s' = m_TCPConnections s @ [Some me] \<and> m_IDCnt s' = m_IDCnt s + 1 \<and>
      m_World s' = m_World s \<and> conns s' = (conns s)(me \<mapsto> c) \<and> GetID c = m_IDCnt s \<and>
      IsConnected c \<and> in_ops c = [Reading_header] \<and>
      posted c = [Task_send (set_cmd (cmd_value AcceptTCPConnection) new_packet)]) \<and>
    on_accept OnClientConnect 0 False me sid s = Inl Terminated"
proof -
  obtain s' c where s': "on_accept OnClientConnect 0 True me sid s = Inr s'"
    "m_TCPConnections s' = m_TCPConnections s @ [Some me]" "m_IDCnt s' = m_IDCnt s + 1"
    "m_TCP_PktIn s' = m_TCP_PktIn s" "m_World s' = m_World s"
    "conns s' = (conns s)(me \<mapsto> c)" "m_sID c = m_IDCnt s" "sock_open c" "in_ops c = [Reading_header]"
    "posted c = [Task_send (set_cmd (cmd_value AcceptTCPConnection) new_packet)]"
    using on_accept_result [OF assms(2), of sid] by blast
  from server_inv_extend [OF assms s'(6,2,4,5)] have "server_inv s'" .
  moreover have "on_accept OnClientConnect 0 False me sid s = Inl Terminated"
    by (simp add: on_accept_def Let_def)
  ultimately show ?thesis using s' by (auto simp: GetID_def IsConnected_def)
qed

lemma accept_registers_witness:
  "\<exists>s' c. on_accept OnClientConnect 0 True 5 77 (demo_server True 11) = Inr s' \<and>
     m_TCPConnections s' = [Some 0, Some 1, Some 5] \<and> conns s' 5 = Some c \<and> GetID c = 0"
proof -
  have "conns (demo_server True 11) 5 = None" and cnt: "m_IDCnt (demo_server True 11) = 0"
    by (simp_all add: demo_server_def new_server_def)
  from accept_registers [OF demo_server_simps(1) this(1), of 77] cnt show ?thesis by auto
qed

definition accept_all :: "(nat \<times> u32) list \<Rightarrow> server \<Rightarrow> server result" where
  "accept_all = fold_result (\<lambda>(me, sid). on_accept OnClientConnect 0 True me sid)"

lemma accept_all_result:
  assumes "distinct (map fst xs)" and "\<forall>x \<in> set xs. conns s (fst x) = None"
  shows "\<exists>s'. accept_all xs s = Inr s' \<and> m_IDCnt s' = m_IDCnt s + of_nat (length xs) \<and>
    m_TCPConnections s' = m_TCPConnections s @ map (Some \<circ> fst) xs \<and>
    (\<forall>i. i \<notin> fst ` set xs \<longrightarrow> conns s' i = conns s i) \<and>
    (\<forall>n < length xs. id_of s' (Some (fst (xs ! n))) = m_IDCnt s + of_nat n)"
  using assms
proof (induction xs arbitrary: s)
  case Nil
  then show ?case by (simp add: accept_all_def)
next
  case (Cons x xs)
  obtain me sid where x: "x = (me, sid)" by (cases x)
  then have "conns s me = None" using Cons.prems by simp
  from on_accept_result [OF this, of sid] obtain t c where t:
    "on_accept OnClientConnect 0 True me sid s = Inr t" "m_TCPConnections t = m_TCPConnections s @ [Some me]"
    "m_IDCnt t = m_IDCnt s + 1" "conns t = (conns s)(me \<mapsto> c)" "m_sID c = m_IDCnt s" by blast
  have me: "me \<notin> fst ` set xs" using Cons.prems(1) x by simp
  then have "\<forall>y \<in> set xs. conns t (fst y) = None" using Cons.prems(2) t(4) by force
  with Cons.IH [of t] Cons.prems(1) obtain s' where s': "accept_all xs t = Inr s'"
    "m_IDCnt s' = m_IDCnt t + of_nat (length xs)"
    "m_TCPConnections s' = m_TCPConnections t @ map (Some \<circ> fst) xs"
    "\<forall>i. i \<notin> fst ` set xs \<longrightarrow> conns s' i = conns t i"
    "\<forall>n < length xs. id_of s' (Some (fst (xs ! n))) = m_IDCnt t + of_nat n" by auto
  have "accept_all (x # xs) s = Inr s'" using s'(1) t(1) x by (simp add: accept_all_def)
  moreover have "id_of s' (Some (fst ((x # xs) ! n))) = m_IDCnt s + of_nat n" if "n < Suc (length xs)" for n
    using that s'(4,5) t me x by (cases n) (simp_all del: One_nat_def)
  ultimately show ?case using s' t x by auto
qed

text \<open>
  IDs are not reused before the counter wraps: up to \<open>2\<^sup>3\<^sup>2\<close> accepts give as many
  different IDs, whatever the uninitialised counter started with.
\<close>

theorem accepted_ids_distinct:
  assumes "distinct (map fst xs)" and "\<forall>x \<in> set xs. conns s (fst x) = None" and "length xs \<le> 2 ^ 32"
  shows "\<exists>s'. accept_all xs s = Inr s' \<and> distinct (map (id_of s') (map (Some \<circ> fst) xs)) \<and>
    m_TCPConnections s' = m_TCPConnections s @ map (Some \<circ> fst) xs"
proof -
  obtain s' where s': "accept_all xs s = Inr s'"
    "m_TCPConnections s' = m_TCPConnections s @ map (Some \<circ> fst) xs"
    "\<forall>n < length xs. id_of s' (Some (fst (xs ! n))) = m_IDCnt s + of_nat n"
    using accept_all_result [OF assms(1,2)] by blast
  have "i = j" if "i < length xs" "j < length xs" "of_nat i = (of_nat j :: u32)" for i j
  proof -
    have "unat (of_nat i :: u32) = i" "unat (of_nat j :: u32) = j"
      using that(1,2) assms(3) by (simp_all add: unat_of_nat take_bit_nat_eq_self)
    with that(3) show ?thesis by metis
  qed
  then have "distinct (map (id_of s') (map (Some \<circ> fst) xs))"
    using s'(3) by (simp add: distinct_conv_nth del: id_of.simps) metis
  with s' show ?thesis by blast
qed

lemma accepted_ids_distinct_witness:
  "\<exists>s'. accept_all [(3, 0), (8, 0)] (new_server (- 1)) = Inr s' \<and> id_of s' (Some 3) \<noteq> id_of s' (Some 8)"
  using accepted_ids_distinct [of "[(3, 0), (8, 0)]" "new_server (- 1)"]
  by (auto simp: new_server_def simp del: id_of.simps)

section \<open>Echo and messages\<close>

text \<open>
  A \<^verbatim>\<open>Ping\<close> of at least 8 bytes, with a time not too far from the clock, from a connected client is sent back to that client
  as it came, and nothing else changes in the connections, the registry and the world.
\<close>

theorem ping_is_echoed:
  assumes "alive s (Some i)" and "cmdID (header pkt) = cmd_value Ping" and "8 \<le> length (body pkt)"
    and "wf_packet pkt" and "\<not> ping_overflows now s (Some i) pkt"
  shows "\<exists>s'. OnPacket now rank (Some i) pkt s = Inr s' \<and>
    conns s' = (conns s)(i := map_option (SendPacket pkt) (conns s i)) \<and>
    m_TCPConnections s' = m_TCPConnections s \<and> m_World s' = m_World s"
proof -
  have "exists_in s (Some i)" using assms(1) by (auto simp: alive_def exists_in_def)
  from OnPing_result [OF this assms(3,5)] show ?thesis
    using assms by (auto simp: OnPacket_def set_body_self)
qed

lemma sample_wf [simp]: "wf_packet (sample c fs)" "cmdID (header (sample c fs)) = cmd_value c"
  by (simp_all add: sample_def wf_fold_push)

lemma ping_is_echoed_witness:
  "\<exists>s'. OnPacket (\<lambda>_. 9) (\<lambda>_ _. 0) (Some 1) (sample Ping [F64 5]) (demo_server False 11) = Inr s' \<and>
     m_World s' = m_World (demo_server False 11)"
proof -
  have "\<not> ping_overflows (\<lambda>_. 9) (demo_server False 11) (Some 1) (sample Ping [F64 5])"
    by (simp add: ping_overflows_def)
  then show ?thesis
    using ping_is_echoed [of "demo_server False 11" 1 "sample Ping [F64 5]" "\<lambda>_. 9" "\<lambda>_ _. 0"] by force
qed

text \<open>
  C12. \<^verbatim>\<open>MessageAll\<close> asks every connected client of the registry but the sender to send one
  \<^verbatim>\<open>ServerMessage\<close> with the sender's ID, asks nothing of the others, drops the registry's
  dead connections (the order of the rest unchanged) and forgets exactly their characters.
\<close>

theorem message_all_broadcasts:
  assumes "server_inv s" and "exists_in s client" and "distinct (m_TCPConnections s)"
    and "cmdID (header pkt) = cmd_value MessageAll"
  defines "msg \<equiv> push_u32 (id_of s client) (set_cmd (cmd_value ServerMessage) new_packet)"
  shows "\<exists>s'. OnPacket now rank client pkt s = Inr s' \<and>
    (\<forall>i. conns s' i = (if Some i \<in> set (m_TCPConnections s) \<and> alive s (Some i) \<and> Some i \<noteq> client
       then map_option (SendPacket msg) (conns s i) else conns s i)) \<and>
    m_TCPConnections s' = filter (alive s) (m_TCPConnections s) \<and>
    m_World s' = filter (\<lambda>e. \<not> (\<exists>p \<in> set (m_TCPConnections s). \<not> alive s p \<and> id_of s p = fst e)) (m_World s)"
proof -
  from OnMessageAll_result [OF assms(1,2)] obtain s' where s': "OnMessageAll client s = Inr s'"
    "conns s' = broadcast msg (map the (filter (\<lambda>p. alive s p \<and> p \<noteq> client) (m_TCPConnections s))) (conns s)"
    "m_TCPConnections s' = filter (alive s) (m_TCPConnections s)"
    "m_World s' = filter (\<lambda>e. fst e \<notin> id_of s ` {p \<in> set (m_TCPConnections s). \<not> alive s p}) (m_World s)"
    unfolding msg_def by blast
  let ?ps = "filter (\<lambda>p. alive s p \<and> p \<noteq> client) (m_TCPConnections s)"
  have some: "\<forall>p \<in> set ?ps. p \<noteq> None" by (auto simp: alive_def)
  have count: "count_list (map the ?ps) i = (if Some i \<in> set ?ps then 1 else 0)" for i
  proof -
    have d: "distinct ?ps" using assms(3) by simp
    have "count_list (map the ps) i = (if Some i \<in> set ps then 1 else 0)"
      if "distinct ps" "\<forall>p \<in> set ps. p \<noteq> None" for ps
      using that by (induction ps) auto
    from this [OF d some] show ?thesis .
  qed
  have one: "map_option (\<lambda>c. c\<lparr>posted := posted c @ [Task_send msg]\<rparr>) = map_option (SendPacket msg)"
    by (intro ext) (simp add: SendPacket_def cong: map_option_cong)
  have "conns s' i = (if Some i \<in> set ?ps then map_option (SendPacket msg) (conns s i) else conns s i)" for i
    unfolding s'(2) broadcast_result count using one by (auto simp: option.map_ident fun_eq_iff)
  moreover have "m_World s' = filter (\<lambda>e. \<not> (\<exists>p \<in> set (m_TCPConnections s). \<not> alive s p \<and> id_of s p = fst e)) (m_World s)"
    unfolding s'(4) by (rule filter_cong) (auto simp del: id_of.simps)
  moreover have "OnPacket now rank client pkt s = Inr s'" using s'(1) assms(4) by (simp add: OnPacket_def)
  ultimately show ?thesis using s'(3) by auto
qed

lemma message_all_broadcasts_witness:
  "\<exists>s'. OnPacket (\<lambda>_. 9) (\<lambda>_ _. 0) (Some 1) (sample MessageAll []) (demo_server False 11) = Inr s' \<and>
     m_TCPConnections s' = [Some 1] \<and> m_World s' = []"
  using message_all_broadcasts [of "demo_server False 11" "Some 1" "sample MessageAll []" "\<lambda>_. 9" "\<lambda>_ _. 0"]
  by (auto simp del: id_of.simps)

section \<open>Entering the world\<close>

text \<open>A server whose clients all have IDs that fit a character's 16-bit ID.\<close>

definition small_ids :: "server \<Rightarrow> bool" where
  "small_ids s \<longleftrightarrow> (\<forall>i c. conns s i = Some c \<longrightarrow> unat (m_sID c) < 2 ^ 16)"

lemma ucast_small:
  assumes "unat (i :: u32) < 2 ^ 16"
  shows "ucast (ucast i :: u16) = i"
  using assms by (simp add: word_unat_eq_iff unsigned_ucast_eq unsigned_take_bit_eq take_bit_nat_eq_self)

lemma small_ids_id_of:
  assumes "small_ids s" and "exists_in s p"
  shows "ucast (ucast (id_of s p) :: u16) = id_of s p"
proof -
  obtain c i where "p = Some i" "conns s i = Some c" using assms(2) by (auto simp: exists_in_def)
  then show ?thesis using assms(1) ucast_small by (simp add: small_ids_def)
qed

lemma cha_ok_key:
  assumes "small_ids s" and "cha_ok (conns s) e"
  shows "fst e = id_of s (m_TCPConnection (snd e))"
proof -
  obtain i c where "m_TCPConnection (snd e) = Some i" "conns s i = Some c" "fst e = ucast (m_ID (snd e))"
    "m_ID (snd e) = ucast (m_sID c)" using assms(2) by (auto simp: cha_ok_def)
  then show ?thesis using assms(1) ucast_small [of "m_sID c"] by (simp add: small_ids_def)
qed

lemma umap_find_filter:
  assumes "distinct (map fst w)"
  shows "umap_find k (filter P w) =
    (case umap_find k w of None \<Rightarrow> None | Some v \<Rightarrow> if P (k, v) then Some v else None)"
  using assms unfolding umap_find_def
proof (induction w)
  case (Cons e w)
  have "k \<notin> fst ` set w \<Longrightarrow> map_of w k = None" by (simp add: map_of_eq_None_iff)
  with Cons show ?case by (cases e) auto
qed simp

text \<open>The characters the walk of \<^verbatim>\<open>SelfEnterWorld\<close> leaves: those of open connections.\<close>

lemma pruned_world:
  assumes "small_ids s" and "\<forall>e \<in> set w. cha_ok (conns s) e" and "distinct (map fst w)" and "alive s (Some i)"
  shows "filter (\<lambda>e. fst e \<notin> id_of s ` {p \<in> insert (Some i) (set (map (\<lambda>e. m_TCPConnection (snd e)) w)). \<not> alive s p}) w
    = filter (\<lambda>e. alive s (m_TCPConnection (snd e))) w"
proof (rule filter_cong [OF refl])
  fix e assume e: "e \<in> set w"
  have same: "e' = e" if "e' \<in> set w" "fst e' = fst e" for e'
    using assms(3) e that by (metis eq_key_imp_eq_value prod.collapse)
  have key: "fst e' = id_of s (m_TCPConnection (snd e'))" if "e' \<in> set w" for e'
    using cha_ok_key [OF assms(1)] assms(2) that by blast
  show "fst e \<notin> id_of s ` {p \<in> insert (Some i) (set (map (\<lambda>e. m_TCPConnection (snd e)) w)). \<not> alive s p}
      \<longleftrightarrow> alive s (m_TCPConnection (snd e))"
  proof
    assume "alive s (m_TCPConnection (snd e))"
    then show "fst e \<notin> id_of s ` {p \<in> insert (Some i) (set (map (\<lambda>e. m_TCPConnection (snd e)) w)). \<not> alive s p}"
      using same key assms(4) by (force simp del: id_of.simps)
  next
    assume "fst e \<notin> id_of s ` {p \<in> insert (Some i) (set (map (\<lambda>e. m_TCPConnection (snd e)) w)). \<not> alive s p}"
    then show "alive s (m_TCPConnection (snd e))" using key [OF e] e by auto
  qed
qed

text \<open>
  C6. When a connected client enters the world (IDs below \<open>2\<^sup>1\<^sup>6\<close>): if no character is filed
  under its ID, a new one at the origin that belongs to it is; every character there was is
  kept exactly when its connection is still open, and no other is added. If moreover no other
  connection has the client's ID, the client has a character afterwards: the one it had, or the new one.
\<close>

theorem enter_world_registers:
  assumes "server_inv s" and "small_ids s" and "alive s (Some i)"
    and "cmdID (header pkt) = cmd_value SelfEnterWorld"
  defines "me \<equiv> id_of s (Some i)"
  shows "\<exists>s'. OnPacket now rank (Some i) pkt s = Inr s' \<and>
    (\<forall>k. umap_find k (m_World s') =
      (if k = me \<and> umap_find me (m_World s) = None then Some (enter_character (Some i) me)
       else case umap_find k (m_World s) of
           None \<Rightarrow> None
         | Some cha \<Rightarrow> if alive s (m_TCPConnection cha) then Some cha else None)) \<and>
    ((\<forall>j c. conns s j = Some c \<and> m_sID c = me \<longrightarrow> j = i) \<longrightarrow>
      umap_find me (m_World s') =
        Some (case umap_find me (m_World s) of None \<Rightarrow> enter_character (Some i) me | Some cha \<Rightarrow> cha))"
proof -
  have ex: "exists_in s (Some i)" using assms(3) by (auto simp: alive_def exists_in_def)
  have wf: "distinct (map fst (m_World s))" and ok: "\<forall>e \<in> set (m_World s). cha_ok (conns s) e"
    using assms(1) by (simp_all add: server_inv_def)
  define cha where "cha = enter_character (Some i) me"
  define w where "w = AddChaToWorld (rank (say (Entered_world me) s)) (ucast (m_ID cha)) cha (m_World s)"
  have key: "ucast (m_ID cha) = me"
    using small_ids_id_of [OF assms(2) ex] by (simp add: cha_def enter_character_def world_defs me_def del: id_of.simps)
  obtain c where "conns s i = Some c" using ex by (auto simp: exists_in_def)
  with enter_cha_ok [OF this] have cok: "cha_ok (conns s) (me, cha)"
    using key by (simp add: cha_def me_def)
  have wok: "\<forall>e \<in> set w. cha_ok (conns s) e"
    using ok cok chamap.entries_insert [OF wf] key by (auto simp: w_def AddChaToWorld_def split: if_splits)
  have wwf: "distinct (map fst w)"
    using chamap.wf_insert [OF wf] by (simp add: w_def AddChaToWorld_def)
  obtain s' where s': "OnSelfEnterWorld rank (Some i) s = Inr s'"
    "m_World s' = filter (\<lambda>e. alive s (m_TCPConnection (snd e))) w"
    using OnSelfEnterWorld_result [OF assms(1) ex, of rank, folded me_def, folded cha_def, folded w_def]
      pruned_world [OF assms(2) wok wwf assms(3)] by metis
  have find: "umap_find k w = (if k = me \<and> umap_find me (m_World s) = None then Some cha else umap_find k (m_World s))" for k
    using chamap.find_insert [OF wf] key by (simp add: w_def AddChaToWorld_def)
  have "umap_find k (m_World s') =
      (if k = me \<and> umap_find me (m_World s) = None then Some (enter_character (Some i) me)
       else case umap_find k (m_World s) of
           None \<Rightarrow> None
         | Some cha \<Rightarrow> if alive s (m_TCPConnection cha) then Some cha else None)" for k
    using assms(3) unfolding s'(2) umap_find_filter [OF wwf] find
    by (simp add: cha_def enter_character_def world_defs split: option.split)
  note found = this
  have own: "m_TCPConnection cha' = Some i"
    if "umap_find me (m_World s) = Some cha'" and uniq: "\<forall>j c. conns s j = Some c \<and> m_sID c = me \<longrightarrow> j = i" for cha'
  proof -
    have "(me, cha') \<in> set (m_World s)" using chamap.find_entries [OF wf] that(1) by simp
    with ok have "cha_ok (conns s) (me, cha')" by blast
    then obtain j d where j: "m_TCPConnection cha' = Some j" "conns s j = Some d" "ucast (m_sID d) = m_ID cha'"
      "me = ucast (m_ID cha')" by (auto simp: cha_ok_def)
    have "exists_in s (Some j)" using j(2) by (simp add: exists_in_def)
    from small_ids_id_of [OF assms(2) this] j have "m_sID d = me" by simp
    with uniq j show ?thesis by blast
  qed
  from found own have "umap_find me (m_World s') =
      Some (case umap_find me (m_World s) of None \<Rightarrow> enter_character (Some i) me | Some cha \<Rightarrow> cha)"
    if "\<forall>j c. conns s j = Some c \<and> m_sID c = me \<longrightarrow> j = i"
    using that assms(3) by (auto split: option.splits simp del: id_of.simps)
  with found show ?thesis using s'(1) assms(4) by (auto simp: OnPacket_def simp del: id_of.simps)
qed

lemma small_ids_demo: "unat j < 2 ^ 16 \<Longrightarrow> small_ids (demo_server up j)"
  by (auto simp: small_ids_def demo_server_def demo_conn_def tcp_defs split: if_splits)

lemma enter_world_registers_witness:
  "\<exists>s'. OnPacket (\<lambda>_. 9) (\<lambda>_ _. 0) (Some 1) (sample SelfEnterWorld []) (demo_server False 11) = Inr s' \<and>
     umap_find 11 (m_World s') = Some (enter_character (Some 1) 11) \<and> umap_find 10 (m_World s') = None"
proof -
  let ?s = "demo_server False 11"
  have i: "small_ids ?s" "alive ?s (Some 1)" by (simp_all add: small_ids_demo)
  have id: "id_of ?s (Some 1) = 11" by (simp del: id_of.simps)
  obtain s' where s': "OnPacket (\<lambda>_. 9) (\<lambda>_ _. 0) (Some 1) (sample SelfEnterWorld []) ?s = Inr s'"
    and f: "\<forall>k. umap_find k (m_World s') =
      (if k = 11 \<and> umap_find 11 (m_World ?s) = None then Some (enter_character (Some 1) 11)
       else case umap_find k (m_World ?s) of
           None \<Rightarrow> None
         | Some cha \<Rightarrow> if alive ?s (m_TCPConnection cha) then Some cha else None)"
    using enter_world_registers [OF demo_server_simps(1) i, of "sample SelfEnterWorld []" "\<lambda>_. 9" "\<lambda>_ _. 0", unfolded id]
      sample_wf(2) by blast
  have "m_TCPConnection (enter_character (Some 0) 10) = Some 0" by (simp add: enter_character_def world_defs)
  then show ?thesis using s' f by (auto simp: umap_find_def)
qed

text \<open>
  The packet the entering client is sent can be read back by it: its own ID, the number of
  characters, then for each of them position and ID, last in the server's order first, and
  nothing is left over.
\<close>

theorem self_enter_packet_readable:
  "pull_fields (K16 # K32 # concat (replicate (length w) [K64, K64, K16])) (self_enter_packet me w) =
    Inr (F16 me # F32 (of_nat (length w)) #
        concat (map (\<lambda>e. [F64 (posY (snd e)), F64 (posX (snd e)), F16 (m_ID (snd e))]) (rev w)),
      set_cmd (cmd_value SelfEnterWorld) new_packet)"
proof -
  let ?f = "\<lambda>e. [F16 (m_ID (snd e)), F64 (posX (snd e)), F64 (posY (snd e))]"
  let ?p = "set_cmd (cmd_value SelfEnterWorld) new_packet"
  have "fold push_character w p = fold push_field (concat (map ?f w)) p" for p
    by (induction w arbitrary: p) auto
  then have pkt: "self_enter_packet me w =
      fold push_field (concat (map ?f w) @ [F32 (of_nat (length w)), F16 me]) ?p"
    by (simp add: self_enter_packet_def)
  have rv: "rev (concat (map ?f w)) =
      concat (map (\<lambda>e. [F64 (posY (snd e)), F64 (posX (snd e)), F16 (m_ID (snd e))]) (rev w))"
    by (induction w) auto
  have kinds: "map kind_of (rev (concat (map ?f w))) = concat (replicate (length w) [K64, K64, K16])"
    unfolding rv by (induction w rule: rev_induct) auto
  have "pull_fields (map kind_of (rev (concat (map ?f w) @ [F32 (of_nat (length w)), F16 me]))) (self_enter_packet me w)
      = Inr (rev (concat (map ?f w) @ [F32 (of_nat (length w)), F16 me]), ?p)"
    unfolding pkt by (subst pull_fields_fold_push) (simp_all add: set_body_self del: cmd_value.simps)
  then show ?thesis using kinds rv by simp
qed

text \<open>
  Who is told of an entry: every open connection of a character, the entering client's
  own included, gets the new player's ID with the position (0, 0), even when the client was
  in the world already and its character has moved; the client itself then gets the list.
\<close>

theorem enter_world_notifies:
  fixes rank :: "server \<Rightarrow> u32 \<Rightarrow> nat"
  assumes "server_inv s" and "alive s (Some i)" and "cmdID (header pkt) = cmd_value SelfEnterWorld"
  defines "me \<equiv> id_of s (Some i)"
  defines "w \<equiv> AddChaToWorld (rank (say (Entered_world me) s)) (ucast (ucast me :: u16)) (enter_character (Some i) me) (m_World s)"
  shows "\<exists>s' msg. OnPacket now rank (Some i) pkt s = Inr s' \<and>
    conns s' = broadcast (self_enter_packet (ucast me) w) [i] (broadcast msg
      (map the (filter (alive s) (map (m_TCPConnection \<circ> snd) w))) (conns s)) \<and>
    cmdID (header msg) = cmd_value PlyEnterWorld \<and>
    pull_fields [K64, K64, K16] msg =
      Inr ([F64 0, F64 0, F16 (ucast me)], set_cmd (cmd_value PlyEnterWorld) new_packet)"
proof -
  have ex: "exists_in s (Some i)" using assms(2) by (auto simp: alive_def exists_in_def)
  let ?cha = "enter_character (Some i) me" and ?p = "set_cmd (cmd_value PlyEnterWorld) new_packet"
  have cha: "m_ID ?cha = ucast me" "posX ?cha = 0" "posY ?cha = 0"
    by (simp_all add: enter_character_def world_defs)
  obtain s' where s': "OnSelfEnterWorld rank (Some i) s = Inr s'"
    "conns s' = broadcast (self_enter_packet (ucast me) w) [i] (broadcast (ply_enter_packet ?cha)
      (map the (filter (alive s) (map (\<lambda>e. m_TCPConnection (snd e)) w))) (conns s))"
    using OnSelfEnterWorld_result [OF assms(1) ex, of rank, folded me_def] assms(2)
    by (auto simp: Let_def cha w_def simp del: broadcast_simps)
  have msg: "ply_enter_packet ?cha = fold push_field [F16 (ucast me), F64 0, F64 0] ?p"
    by (simp add: ply_enter_packet_def cha)
  have "pull_fields [K64, K64, K16] (ply_enter_packet ?cha) = Inr ([F64 0, F64 0, F16 (ucast me)], ?p)"
    using pull_fields_fold_push [of ?p "[F16 (ucast me), F64 0, F64 0]"]
    unfolding msg by (simp add: set_body_self)
  moreover have "cmdID (header (ply_enter_packet ?cha)) = cmd_value PlyEnterWorld"
    by (simp add: ply_enter_packet_def push_as_def)
  moreover have "OnPacket now rank (Some i) pkt s = Inr s'" using s'(1) assms(3) by (simp add: OnPacket_def)
  ultimately show ?thesis using s'(2) by (auto simp: comp_def simp del: broadcast_simps)
qed

lemma enter_world_notifies_witness:
  "\<exists>s' msg. OnPacket (\<lambda>_. 9) (\<lambda>_ _. 0) (Some 0) (sample SelfEnterWorld []) (demo_server True 11) = Inr s' \<and>
     pull_fields [K64, K64, K16] msg = Inr ([F64 0, F64 0, F16 10], set_cmd (cmd_value PlyEnterWorld) new_packet)"
proof -
  have "alive (demo_server True 11) (Some 0)" by simp
  from enter_world_notifies [OF demo_server_simps(1) this, of "sample SelfEnterWorld []" "\<lambda>_. 9" "\<lambda>_ _. 0"]
  show ?thesis by (auto simp del: id_of.simps broadcast_simps)
qed

section \<open>Moving\<close>

text \<open>
  C11. A \<^verbatim>\<open>MovePlayer\<close> written by the player's client (ID, x, y) from a player in the world
  stores the position under the connection's own ID and is passed on to every other
  character's connection, with the server's ID of the player. The ID the packet names is
  compared and logged, and has no other effect.
\<close>

theorem move_is_broadcast:
  assumes "server_inv s" and "umap_find (id_of s (Some i)) (m_World s) = Some cha"
    and "exists_in s (Some i)" and "pkt = sample MovePlayer [F16 j, F64 x, F64 y]"
  shows "\<exists>s' msg. OnPacket now rank (Some i) pkt s = Inr s' \<and>
    (\<forall>k. umap_find k (m_World s') = (if k = id_of s (Some i) then Some (cha\<lparr>posX := x, posY := y\<rparr>)
      else umap_find k (m_World s))) \<and>
    conns s' = broadcast msg (map (the \<circ> m_TCPConnection \<circ> snd)
      (filter (\<lambda>e. m_ID (snd e) \<noteq> m_ID cha) (m_World s))) (conns s) \<and>
    cmdID (header msg) = cmd_value MovePlayer \<and>
    pull_fields [K64, K64, K16] msg =
      Inr ([F64 y, F64 x, F16 (m_ID cha)], set_cmd (cmd_value MovePlayer) new_packet) \<and>
    slog s' = slog s @ (if j = m_ID cha then [] else [Id_mismatch j (m_ID cha)])"
proof -
  let ?p = "set_cmd (cmd_value MovePlayer) new_packet" and ?cha = "cha\<lparr>posX := x, posY := y\<rparr>"
  have wf: "distinct (map fst (m_World s))" using assms(1) by (simp add: server_inv_def)
  have pulls: "pull_u64 pkt = Inr (y, set_body (le_bytes 2 j @ le_bytes 8 x) pkt)"
    "pull_u64 (set_body (le_bytes 2 j @ le_bytes 8 x) pkt) = Inr (x, set_body (le_bytes 2 j) pkt)"
    "pull_u16 (set_body (le_bytes 2 j) pkt) = Inr (j, set_body [] pkt)"
    using u64_data.pull_rep [of pkt "le_bytes 2 j @ le_bytes 8 x" y]
      u64_data.pull_rep [of "set_body (le_bytes 2 j @ le_bytes 8 x) pkt" "le_bytes 2 j" x]
      u16_data.pull_rep [of "set_body (le_bytes 2 j) pkt" "[]" j]
    by (simp_all add: assms(4) sample_def push_as_def)
  from OnMovePlayer_result [OF assms(1,3,2) pulls] obtain s' where s': "OnMovePlayer (Some i) pkt s = Inr s'"
    "m_World s' = umap_assign (id_of s (Some i)) ?cha (m_World s)"
    "conns s' = broadcast (move_packet ?cha) (map (the \<circ> m_TCPConnection \<circ> snd)
      (filter (\<lambda>e. m_ID (snd e) \<noteq> m_ID cha) (m_World s))) (conns s)"
    "slog s' = (if j \<noteq> m_ID cha then slog s @ [Id_mismatch j (m_ID cha)] else slog s)" by blast
  have msg: "move_packet ?cha = fold push_field [F16 (m_ID cha), F64 x, F64 y] ?p"
    by (simp add: move_packet_def)
  have "pull_fields [K64, K64, K16] (move_packet ?cha) = Inr ([F64 y, F64 x, F16 (m_ID cha)], ?p)"
    using pull_fields_fold_push [of ?p "[F16 (m_ID cha), F64 x, F64 y]"]
    unfolding msg by (simp add: set_body_self)
  moreover have "cmdID (header (move_packet ?cha)) = cmd_value MovePlayer"
    by (simp add: move_packet_def push_as_def)
  moreover have "umap_find k (m_World s') = (if k = id_of s (Some i) then Some ?cha else umap_find k (m_World s))" for k
    unfolding s'(2) using chamap.find_assign [OF wf] assms(2) by simp
  moreover have "OnPacket now rank (Some i) pkt s = Inr s'"
    using s'(1) assms(4) by (simp add: OnPacket_def)
  ultimately show ?thesis using s'(3,4)
    by (intro exI [of _ s'] exI [of _ "move_packet ?cha"]) (simp del: id_of.simps pull_fields.simps)
qed

lemma move_is_broadcast_witness:
  "\<exists>s'. OnPacket (\<lambda>_. 9) (\<lambda>_ _. 0) (Some 0) (sample MovePlayer [F16 77, F64 3, F64 4]) (demo_server True 11) = Inr s' \<and>
     umap_find 10 (m_World s') = Some ((enter_character (Some 0) 10)\<lparr>posX := 3, posY := 4\<rparr>)"
proof -
  have "umap_find (id_of (demo_server True 11) (Some 0)) (m_World (demo_server True 11)) = Some (enter_character (Some 0) 10)"
    by (simp add: umap_find_def del: id_of.simps)
  from move_is_broadcast [OF demo_server_simps(1) this demo_server_simps(2) refl, of "\<lambda>_. 9" "\<lambda>_ _. 0" 77 3 4]
  show ?thesis by (auto simp del: id_of.simps)
qed

text \<open>
  From the client number \<open>2\<^sup>1\<^sup>6\<close> on, the world is closed: a character's ID has 16 bits
  and is the key it is filed under, but \<^verbatim>\<open>MovePlayer\<close> and \<^verbatim>\<open>OnClientDisconnect\<close> look for
  the 32-bit ID. Such a client's moves are ignored, and disconnecting it removes nothing.
\<close>

theorem large_ids_are_lost:
  assumes "server_inv s" and "exists_in s client" and "2 ^ 16 \<le> unat (id_of s client)"
  shows "OnMovePlayer client pkt s = Inr s \<and>
    (\<exists>s'. OnClientDisconnect client s = Inr s' \<and> m_World s' = m_World s)"
proof -
  have "unat (fst e) < 2 ^ 16" if "e \<in> set (m_World s)" for e
  proof -
    have "fst e = ucast (m_ID (snd e))" using assms(1) that by (auto simp: server_inv_def cha_ok_def)
    moreover have "unat (m_ID (snd e)) < 2 ^ 16" using unsigned_less [of "m_ID (snd e)", where 'a = nat] by simp
    ultimately show ?thesis by (simp add: unsigned_ucast_eq take_bit_nat_eq_self)
  qed
  with assms(3) have ne: "\<forall>e \<in> set (m_World s). fst e \<noteq> id_of s client" by force
  then have "umap_find (id_of s client) (m_World s) = None"
    by (force simp: umap_find_def map_of_eq_None_iff simp del: id_of.simps)
  moreover have "RemoveChaFromWorld (id_of s client) (m_World s) = m_World s"
    using ne by (simp add: RemoveChaFromWorld_def umap_erase_def filter_id_conv)
  ultimately show ?thesis
    using OnMovePlayer_absent [OF assms(2)] OnClientDisconnect_result [OF assms(2)] by simp
qed

lemma large_ids_are_lost_witness:
  "OnMovePlayer (Some 1) (sample MovePlayer [F16 10, F64 3, F64 4]) (demo_server True 65546) = Inr (demo_server True 65546)"
  using large_ids_are_lost [of "demo_server True 65546" "Some 1"] by (simp del: id_of.simps)

section \<open>Datagrams\<close>

text \<open>
  \<^verbatim>\<open>AwaitUDPConnection\<close> never makes a connection: every completion either uses
  variables of a function that has returned, or logs an error and waits again with one more
  receive that is bound to fail, so the list of UDP sockets stays as it was, whatever
  happens, and the log grows by a line each time.
\<close>

theorem udp_await_never_connects:
  assumes "0 < udp_waits s"
  shows "case fold_result on_udp_receive ecs s of
      Inl e \<Rightarrow> e = Dangling \<and> 0 \<in> set ecs
    | Inr s' \<Rightarrow> m_UDPSockets s' = m_UDPSockets s \<and> udp_waits s' = udp_waits s \<and>
        slog s' = slog s @ map New_UDP_error ecs \<and> 0 \<notin> set ecs"
  using assms
proof (induction ecs arbitrary: s)
  case (Cons ec ecs)
  show ?case
  proof (cases "ec = 0")
    case True
    then show ?thesis by (simp add: on_udp_receive_def Let_def)
  next
    case False
    define t where "t = s\<lparr>slog := slog s @ [New_UDP_error ec], udp_waits := udp_waits s\<rparr>"
    have "on_udp_receive ec s = Inr t"
      using Cons.prems False by (simp add: on_udp_receive_def AwaitUDPConnection_def say_def Let_def t_def)
    with Cons.IH [of t] Cons.prems False show ?thesis
      by (simp add: t_def split: sum.splits)
  qed
qed simp

lemma udp_await_never_connects_witness:
  "case fold_result on_udp_receive [operation_aborted, operation_aborted] (Start (new_server 0)) of
     Inl e \<Rightarrow> False | Inr s' \<Rightarrow> m_UDPSockets s' = []"
  using udp_await_never_connects [of "Start (new_server 0)" "[operation_aborted, operation_aborted]"]
  by (simp add: Start_def new_server_def server_app_defs operation_aborted_def split: sum.splits)

end
