(* ===== verification/AsioTimerQueue.thy ===== *)
theory AsioTimerQueue
  imports Prelude
begin

text \<open>
  \<^verbatim>\<open>asio/detail/timer_queue.hpp\<close>: the timers of the event loop, a binary heap of expiry times
  with, in each timer, its index in the heap, and a doubly linked list of all timers with
  operations. A timer is its address; a null pointer is \<^verbatim>\<open>None\<close>; the queue of operations of a
  timer is the list \<open>AsioOpQueue\<close> shows it to be. Times are any linear order
  (\<^verbatim>\<open>Time_Traits\<close>); \<open>pos_inf\<close> is \<^verbatim>\<open>is_positive_infinity\<close>. An access outside the heap faults.

  Shown: the heap stays ordered, indices and links stay right, no access is outside the heap,
  and which operations become ready, in which order.
\<close>

section \<open>State and operations\<close>

definition SIZE_MAX :: nat where
  "SIZE_MAX = 2 ^ 64 - 1"

datatype wait_ec = Not_set | Operation_aborted

record ('t, 'k, 'op) timer_queue =
  timers :: "'k option"
  theap :: "('t \<times> 'k) list"
  heap_index :: "'k \<Rightarrow> nat"
  tnext :: "'k \<Rightarrow> 'k option"
  tprev :: "'k \<Rightarrow> 'k option"
  top_queue :: "'k \<Rightarrow> 'op list"
  wait_ec :: "'op \<Rightarrow> wait_ec"

definition timer_queue_new :: "('t, 'k, 'op) timer_queue" where
  "timer_queue_new = \<lparr>timers = None, theap = [], heap_index = \<lambda>_. SIZE_MAX, tnext = \<lambda>_. None,
     tprev = \<lambda>_. None, top_queue = \<lambda>_. [], wait_ec = \<lambda>_. Not_set\<rparr>"

definition swap_heap :: "nat \<Rightarrow> nat \<Rightarrow> ('t, 'k, 'op) timer_queue \<Rightarrow> ('t, 'k, 'op) timer_queue result" where
  "swap_heap index1 index2 q =
     (if index1 < length (theap q) \<and> index2 < length (theap q)
      then let tmp = theap q ! index1;
               h1 = (theap q)[index1 := theap q ! index2];
               h2 = h1[index2 := tmp];
               q1 = q\<lparr>theap := h2\<rparr>;
               q2 = q1\<lparr>heap_index := (heap_index q1)(snd (h2 ! index1) := index1)\<rparr>
           in Inr (q2\<lparr>heap_index := (heap_index q2)(snd (h2 ! index2) := index2)\<rparr>)
      else Inl Out_of_range)"

lemma swap_heap_length: "swap_heap i j q = Inr q' \<Longrightarrow> length (theap q') = length (theap q)"
  by (auto simp: swap_heap_def Let_def split: if_splits)

function up_heap :: "nat \<Rightarrow> ('t::linorder, 'k, 'op) timer_queue \<Rightarrow> ('t, 'k, 'op) timer_queue result" where
  "up_heap index q =
     (if index > 0
      then let parent = (index - 1) div 2
           in if length (theap q) \<le> index then Inl Out_of_range
              else if \<not> fst (theap q ! index) < fst (theap q ! parent) then Inr q
              else and_then (swap_heap index parent q) (\<lambda>q'. up_heap parent q')
      else Inr q)"
  by auto
termination by (relation "measure fst") auto

text \<open>\<^verbatim>\<open>child\<close> is a function of \<^verbatim>\<open>index\<close> at the head of every iteration.\<close>

function down_heap :: "nat \<Rightarrow> ('t::linorder, 'k, 'op) timer_queue \<Rightarrow> ('t, 'k, 'op) timer_queue result" where
  "down_heap index q =
     (let child = index * 2 + 1
      in if child < length (theap q)
         then let min_child =
                (if child + 1 = length (theap q) \<or> fst (theap q ! child) < fst (theap q ! (child + 1))
                 then child else child + 1)
              in if fst (theap q ! index) < fst (theap q ! min_child) then Inr q
                 else and_then (swap_heap index min_child q) (\<lambda>q'. down_heap min_child q')
         else Inr q)"
  by auto
termination
  by (relation "measure (\<lambda>(i, q). length (theap q) - i)") (auto dest: swap_heap_length split: if_splits)

declare up_heap.simps [simp del] down_heap.simps [simp del]

text \<open>\<^verbatim>\<open>if (p) p->next_ = v\<close>, \<^verbatim>\<open>if (n) n->prev_ = v\<close>.\<close>

definition set_next :: "'k option \<Rightarrow> 'k option \<Rightarrow> ('t, 'k, 'op) timer_queue \<Rightarrow> ('t, 'k, 'op) timer_queue" where
  "set_next p v q = (case p of None \<Rightarrow> q | Some z \<Rightarrow> q\<lparr>tnext := (tnext q)(z := v)\<rparr>)"

definition set_prev :: "'k option \<Rightarrow> 'k option \<Rightarrow> ('t, 'k, 'op) timer_queue \<Rightarrow> ('t, 'k, 'op) timer_queue" where
  "set_prev n v q = (case n of None \<Rightarrow> q | Some z \<Rightarrow> q\<lparr>tprev := (tprev q)(z := v)\<rparr>)"

definition unlink_timer :: "'k \<Rightarrow> ('t, 'k, 'op) timer_queue \<Rightarrow> ('t, 'k, 'op) timer_queue" where
  "unlink_timer timer q =
     (let q1 = q\<lparr>timers := if timers q = Some timer then tnext q timer else timers q\<rparr>;
          q2 = set_next (tprev q1 timer) (tnext q1 timer) q1;
          q3 = set_prev (tnext q2 timer) (tprev q2 timer) q2
      in set_prev (Some timer) None (set_next (Some timer) None q3))"

definition pop_heap_entry :: "'k \<Rightarrow> ('t, 'k, 'op) timer_queue \<Rightarrow> ('t, 'k, 'op) timer_queue" where
  "pop_heap_entry timer q = q\<lparr>heap_index := (heap_index q)(timer := SIZE_MAX), theap := butlast (theap q)\<rparr>"

text \<open>\<^verbatim>\<open>remove_timer\<close> is its two halves: the heap and the list.\<close>

definition remove_entry :: "'k \<Rightarrow> ('t::linorder, 'k, 'op) timer_queue \<Rightarrow> ('t, 'k, 'op) timer_queue result" where
  "remove_entry timer q =
     (let index = heap_index q timer
      in if theap q \<noteq> [] \<and> index < length (theap q)
         then if index = length (theap q) - 1 then Inr (pop_heap_entry timer q)
              else and_then (swap_heap index (length (theap q) - 1) q)
                (\<lambda>q1. let q2 = pop_heap_entry timer q1
                  in if index > 0 \<and> fst (theap q2 ! index) < fst (theap q2 ! ((index - 1) div 2))
                     then up_heap index q2 else down_heap index q2)
         else Inr q)"

definition remove_timer :: "'k \<Rightarrow> ('t::linorder, 'k, 'op) timer_queue \<Rightarrow> ('t, 'k, 'op) timer_queue result" where
  "remove_timer timer q = and_then (remove_entry timer q) (\<lambda>q'. Inr (unlink_timer timer q'))"

definition timer_linked :: "'k \<Rightarrow> ('t, 'k, 'op) timer_queue \<Rightarrow> bool" where
  "timer_linked timer q \<longleftrightarrow> tprev q timer \<noteq> None \<or> timers q = Some timer"

definition link_timer :: "'k \<Rightarrow> ('t, 'k, 'op) timer_queue \<Rightarrow> ('t, 'k, 'op) timer_queue" where
  "link_timer timer q =
     (let q3 = q\<lparr>tnext := (tnext q)(timer := timers q), tprev := (tprev q)(timer := None)\<rparr>;
          q4 = (case timers q3 of None \<Rightarrow> q3
                | Some t \<Rightarrow> q3\<lparr>tprev := (tprev q3)(t := Some timer)\<rparr>)
      in q4\<lparr>timers := Some timer\<rparr>)"

text \<open>The result is whether the timer is now the first to expire, with this operation.\<close>

definition enqueue_timer ::
  "('t \<Rightarrow> bool) \<Rightarrow> 't::linorder \<Rightarrow> 'k \<Rightarrow> 'op \<Rightarrow> ('t, 'k, 'op) timer_queue \<Rightarrow> (bool \<times> ('t, 'k, 'op) timer_queue) result" where
  "enqueue_timer pos_inf time timer op q =
     and_then
       (if timer_linked timer q then Inr q
        else and_then
          (if pos_inf time then Inr (q\<lparr>heap_index := (heap_index q)(timer := SIZE_MAX)\<rparr>)
           else let q1 = q\<lparr>heap_index := (heap_index q)(timer := length (theap q)),
                       theap := theap q @ [(time, timer)]\<rparr>
                in up_heap (length (theap q1) - 1) q1)
          (\<lambda>q2. Inr (link_timer timer q2)))
       (\<lambda>q5. let q6 = q5\<lparr>top_queue := (top_queue q5)(timer := top_queue q5 timer @ [op])\<rparr>
             in Inr (heap_index q6 timer = 0 \<and> hd (top_queue q6 timer) = op, q6))"

definition timers_empty :: "('t, 'k, 'op) timer_queue \<Rightarrow> bool" where
  "timers_empty q \<longleftrightarrow> timers q = None"

text \<open>
  The loops that take timers off. \<^verbatim>\<open>ops.push\<close> of a queue empties the queue pushed.
\<close>

definition splice_ops :: "'k \<Rightarrow> ('t, 'k, 'op) timer_queue \<Rightarrow> 'op list \<Rightarrow> ('t, 'k, 'op) timer_queue \<times> 'op list" where
  "splice_ops timer q ops = (q\<lparr>top_queue := (top_queue q)(timer := [])\<rparr>, ops @ top_queue q timer)"

partial_function (option) ready_loop ::
  "'t::linorder \<Rightarrow> ('t, 'k, 'op) timer_queue \<Rightarrow> 'op list \<Rightarrow> (('t, 'k, 'op) timer_queue \<times> 'op list) result option" where
  "ready_loop now q ops =
     (case theap q of
        [] \<Rightarrow> Some (Inr (q, ops))
      | (time, timer) # _ \<Rightarrow>
          if now < time then Some (Inr (q, ops))
          else case splice_ops timer q ops of
            (q1, ops1) \<Rightarrow>
              (case remove_timer timer q1 of
                 Inl e \<Rightarrow> Some (Inl e)
               | Inr q2 \<Rightarrow> ready_loop now q2 ops1))"

definition get_ready_timers where
  "get_ready_timers now q ops = ready_loop now q ops"

partial_function (option) all_loop ::
  "('t, 'k, 'op) timer_queue \<Rightarrow> 'op list \<Rightarrow> (('t, 'k, 'op) timer_queue \<times> 'op list) option" where
  "all_loop q ops =
     (case timers q of
        None \<Rightarrow> Some (q, ops)
      | Some timer \<Rightarrow>
          (case splice_ops timer (q\<lparr>timers := tnext q timer\<rparr>) ops of
             (q1, ops1) \<Rightarrow>
               all_loop (q1\<lparr>tnext := (tnext q1)(timer := None), tprev := (tprev q1)(timer := None)\<rparr>) ops1))"

definition get_all_timers ::
  "('t, 'k, 'op) timer_queue \<Rightarrow> 'op list \<Rightarrow> (('t, 'k, 'op) timer_queue \<times> 'op list) option" where
  "get_all_timers q ops = map_option (\<lambda>(q1, ops1). (q1\<lparr>theap := []\<rparr>, ops1)) (all_loop q ops)"

function cancel_loop ::
  "nat \<Rightarrow> nat \<Rightarrow> 'k \<Rightarrow> ('t, 'k, 'op) timer_queue \<Rightarrow> 'op list \<Rightarrow> nat \<times> ('t, 'k, 'op) timer_queue \<times> 'op list" where
  "cancel_loop max_cancelled num_cancelled timer q ops =
     (if num_cancelled \<noteq> max_cancelled
      then case top_queue q timer of
             [] \<Rightarrow> (num_cancelled, q, ops)
           | op # rest \<Rightarrow>
               cancel_loop max_cancelled (num_cancelled + 1) timer
                 (q\<lparr>wait_ec := (wait_ec q)(op := Operation_aborted), top_queue := (top_queue q)(timer := rest)\<rparr>)
                 (ops @ [op])
      else (num_cancelled, q, ops))"
  by auto
termination by (relation "measure (\<lambda>(m, n, k, q, ops). length (top_queue q k))") auto

declare cancel_loop.simps [simp del]

definition cancel_timer ::
  "nat \<Rightarrow> 'k \<Rightarrow> ('t::linorder, 'k, 'op) timer_queue \<Rightarrow> 'op list \<Rightarrow>
    (nat \<times> ('t, 'k, 'op) timer_queue \<times> 'op list) result" where
  "cancel_timer max_cancelled timer q ops =
     (if timer_linked timer q
      then case cancel_loop max_cancelled 0 timer q ops of
        (num_cancelled, q1, ops1) \<Rightarrow>
          and_then (if top_queue q1 timer = [] then remove_timer timer q1 else Inr q1)
            (\<lambda>q2. Inr (num_cancelled, q2, ops1))
      else Inr (0, q, ops))"

definition relink_timer :: "'k \<Rightarrow> 'k \<Rightarrow> ('t, 'k, 'op) timer_queue \<Rightarrow> ('t, 'k, 'op) timer_queue" where
  "relink_timer target source q =
     (let q1 = q\<lparr>timers := if timers q = Some source then Some target else timers q\<rparr>;
          q2 = set_next (tprev q1 source) (Some target) q1;
          q3 = set_prev (tnext q2 source) (Some target) q2;
          q4 = set_next (Some target) (tnext q3 source) q3;
          q5 = set_prev (Some target) (tprev q4 source) q4
      in set_prev (Some source) None (set_next (Some source) None q5))"

definition move_entry :: "'k \<Rightarrow> 'k \<Rightarrow> ('t, 'k, 'op) timer_queue \<Rightarrow> ('t, 'k, 'op) timer_queue" where
  "move_entry target source q =
     (let q1 = q\<lparr>top_queue := (top_queue q)(target := top_queue q target @ top_queue q source)\<rparr>;
          q2 = q1\<lparr>top_queue := (top_queue q1)(source := [])\<rparr>;
          q3 = q2\<lparr>heap_index := (heap_index q2)(target := heap_index q2 source)\<rparr>;
          q4 = q3\<lparr>heap_index := (heap_index q3)(source := SIZE_MAX)\<rparr>;
          i = heap_index q4 target
      in q4\<lparr>theap := if i < length (theap q4)
                     then (theap q4)[i := (fst (theap q4 ! i), target)] else theap q4\<rparr>)"

definition move_timer :: "'k \<Rightarrow> 'k \<Rightarrow> ('t, 'k, 'op) timer_queue \<Rightarrow> ('t, 'k, 'op) timer_queue" where
  "move_timer target source q = relink_timer target source (move_entry target source q)"

section \<open>The order of the heap\<close>

definition parent :: "nat \<Rightarrow> nat" where
  "parent j = (j - 1) div 2"

lemma parent_less: "0 < j \<Longrightarrow> parent j < j"
  by (simp add: parent_def)

lemma parent_eq: "0 < j \<Longrightarrow> parent j = i \<longleftrightarrow> j = 2 * i + 1 \<or> j = 2 * i + 2"
  by (auto simp: parent_def)

definition heap_order :: "(nat \<Rightarrow> 't::linorder) \<Rightarrow> nat \<Rightarrow> bool" where
  "heap_order T n \<longleftrightarrow> (\<forall>j. 0 < j \<longrightarrow> j < n \<longrightarrow> T (parent j) \<le> T j)"

text \<open>Ordered but for an entry that may be too early, or too late, for its place.\<close>

definition order_but_up :: "(nat \<Rightarrow> 't::linorder) \<Rightarrow> nat \<Rightarrow> nat \<Rightarrow> bool" where
  "order_but_up T n i \<longleftrightarrow> (\<forall>j. 0 < j \<longrightarrow> j < n \<longrightarrow> j \<noteq> i \<longrightarrow> T (parent j) \<le> T j) \<and>
     (\<forall>j. 0 < j \<longrightarrow> j < n \<longrightarrow> 0 < i \<longrightarrow> parent j = i \<longrightarrow> T (parent i) \<le> T j)"

definition order_but_down :: "(nat \<Rightarrow> 't::linorder) \<Rightarrow> nat \<Rightarrow> nat \<Rightarrow> bool" where
  "order_but_down T n i \<longleftrightarrow> (\<forall>j. 0 < j \<longrightarrow> j < n \<longrightarrow> parent j \<noteq> i \<longrightarrow> T (parent j) \<le> T j) \<and>
     (\<forall>j. 0 < j \<longrightarrow> j < n \<longrightarrow> 0 < i \<longrightarrow> parent j = i \<longrightarrow> T (parent i) \<le> T j)"

lemma order_but_upD:
  assumes "order_but_up T n i" "0 < j" "j < n"
  shows "j \<noteq> i \<Longrightarrow> T (parent j) \<le> T j" and "0 < i \<Longrightarrow> parent j = i \<Longrightarrow> T (parent i) \<le> T j"
  using assms by (auto simp: order_but_up_def)

lemma order_but_downD:
  assumes "order_but_down T n i" "0 < j" "j < n"
  shows "parent j \<noteq> i \<Longrightarrow> T (parent j) \<le> T j" and "0 < i \<Longrightarrow> parent j = i \<Longrightarrow> T (parent i) \<le> T j"
  using assms by (auto simp: order_but_down_def)

lemma order_up_swap:
  assumes e: "order_but_up T n i" and i: "0 < i" "i < n" and less: "T i < T (parent i)"
  shows "order_but_up (T(i := T (parent i), parent i := T i)) n (parent i)"
  unfolding order_but_up_def
proof (intro conjI allI impI)
  let ?T = "T(i := T (parent i), parent i := T i)"
  have ne: "parent i \<noteq> i" using parent_less [OF i(1)] by simp
  fix j assume j: "0 < j" "j < n"
  have nj: "parent j \<noteq> j" using parent_less [OF j(1)] by simp
  show "?T (parent j) \<le> ?T j" if "j \<noteq> parent i"
  proof (cases "j = i")
    case True
    with less ne show ?thesis by simp
  next
    case False
    then have "T (parent j) \<le> T j" using e j by (simp add: order_but_upD)
    moreover have "T (parent i) \<le> T j" if "parent j = i" using e j i that by (simp add: order_but_upD)
    ultimately show ?thesis using False that ne less by auto
  qed
  assume "0 < parent i" and pj: "parent j = parent i"
  then have "T (parent (parent i)) \<le> T (parent i)"
    using order_but_upD(1) [OF e, of "parent i"] i ne parent_less [OF i(1)] by simp
  moreover have "T (parent i) \<le> T j" if "j \<noteq> i" using order_but_upD(1) [OF e j that] pj by simp
  moreover have "parent (parent i) \<noteq> i" "parent (parent i) \<noteq> parent i" "j \<noteq> parent i"
    using parent_less [OF i(1)] parent_less [OF \<open>0 < parent i\<close>] pj nj by auto
  ultimately show "?T (parent (parent i)) \<le> ?T j" by auto
qed

lemma order_down_swap:
  assumes e: "order_but_down T n i" and m: "0 < m" "m < n" "parent m = i" and le: "T m \<le> T i"
    and min: "\<And>j. 0 < j \<Longrightarrow> j < n \<Longrightarrow> parent j = i \<Longrightarrow> T m \<le> T j"
  shows "order_but_down (T(i := T m, m := T i)) n m"
  unfolding order_but_down_def
proof (intro conjI allI impI)
  let ?T = "T(i := T m, m := T i)"
  have im: "i < m" using parent_less [OF m(1)] m(3) by simp
  fix j assume j: "0 < j" "j < n"
  have nj: "parent j < j" using parent_less [OF j(1)] .
  show "?T (parent j) \<le> ?T j" if pm: "parent j \<noteq> m"
  proof (cases "parent j = i")
    case True
    with j min le im nj show ?thesis by auto
  next
    case False
    then have "T (parent j) \<le> T j" and "j \<noteq> m" using e j m by (auto simp: order_but_downD)
    moreover have "T (parent j) \<le> T m" if "j = i"
      using order_but_downD(2) [OF e m(1,2)] m(3) that j by simp
    ultimately show ?thesis using False pm by auto
  qed
  assume "0 < m" and pj: "parent j = m"
  then have "T m \<le> T j" using e j im by (metis order_but_downD(1) less_irrefl)
  with pj nj im m(3) show "?T (parent m) \<le> ?T j" by auto
qed

lemma heap_order_but_up: "order_but_up T n i \<Longrightarrow> i = 0 \<or> T (parent i) \<le> T i \<Longrightarrow> heap_order T n"
  by (auto simp: order_but_up_def heap_order_def)

lemma heap_order_but_down:
  "order_but_down T n i \<Longrightarrow> (\<And>j. 0 < j \<Longrightarrow> j < n \<Longrightarrow> parent j = i \<Longrightarrow> T i \<le> T j) \<Longrightarrow> heap_order T n"
  by (auto simp: order_but_down_def heap_order_def)

lemma heap_order_min: "heap_order T n \<Longrightarrow> i < n \<Longrightarrow> T 0 \<le> T i"
proof (induction i rule: less_induct)
  case (less i)
  show ?case
  proof (cases "i = 0")
    case False
    then have "T 0 \<le> T (parent i)" using less parent_less [of i] by auto
    also have "\<dots> \<le> T i" using less.prems False by (simp add: heap_order_def)
    finally show ?thesis .
  qed simp
qed

text \<open>Replacing an entry, which is what removing one does.\<close>

lemma heap_order_replace:
  assumes "heap_order T n" and "i < n"
  shows "0 < i \<and> x < T (parent i) \<Longrightarrow> order_but_up (T(i := x)) n i"
    and "\<not> (0 < i \<and> x < T (parent i)) \<Longrightarrow> order_but_down (T(i := x)) n i"
proof -
  have par: "j \<noteq> parent j" if "0 < j" for j using parent_less [OF that] by simp
  have o: "T (parent j) \<le> T j" if "0 < j" "j < n" for j using assms(1) that by (simp add: heap_order_def)
  have two: "T (parent i) \<le> T j" if "0 < i" "0 < j" "j < n" "parent j = i" for j
    using o [of i] o [of j] that assms(2) by simp
  have upd: "(T(i := x)) (parent j) \<le> (T(i := x)) j"
    if "0 < j" "j < n" "j = i \<Longrightarrow> T (parent i) \<le> x" "parent j = i \<Longrightarrow> x \<le> T j" for j
    using that o [of j] par [of j] by auto
  have two': "(T(i := x)) (parent i) \<le> (T(i := x)) j" if "0 < i" "0 < j" "j < n" "parent j = i" for j
    using two [OF that] par [of j] par [of i] that by auto
  show "order_but_up (T(i := x)) n i" if x: "0 < i \<and> x < T (parent i)"
  proof -
    have "x \<le> T j" if "0 < j" "j < n" "parent j = i" for j
      using two [OF _ that] x by (metis less_imp_le order_trans)
    with upd two' show ?thesis unfolding order_but_up_def by blast
  qed
  show "order_but_down (T(i := x)) n i" if x: "\<not> (0 < i \<and> x < T (parent i))"
    using upd two' x unfolding order_but_down_def by (metis not_less)
qed

section \<open>The heap of a queue\<close>

abbreviation htime :: "('t, 'k, 'op) timer_queue \<Rightarrow> nat \<Rightarrow> 't" where
  "htime q i \<equiv> fst (theap q ! i)"

abbreviation heap_size :: "('t, 'k, 'op) timer_queue \<Rightarrow> nat" where
  "heap_size q \<equiv> length (theap q)"

definition indexed :: "('t, 'k, 'op) timer_queue \<Rightarrow> bool" where
  "indexed q \<longleftrightarrow> distinct (map snd (theap q)) \<and>
     (\<forall>i < heap_size q. heap_index q (snd (theap q ! i)) = i) \<and>
     (\<forall>k. k \<notin> snd ` set (theap q) \<longrightarrow> heap_index q k = SIZE_MAX) \<and> heap_size q \<le> SIZE_MAX"

definition ordered :: "('t::linorder, 'k, 'op) timer_queue \<Rightarrow> bool" where
  "ordered q \<longleftrightarrow> heap_order (htime q) (heap_size q)"

text \<open>What the moves within the heap keep.\<close>

definition reheap :: "('t, 'k, 'op) timer_queue \<Rightarrow> ('t, 'k, 'op) timer_queue \<Rightarrow> bool" where
  "reheap q q' \<longleftrightarrow> timers q' = timers q \<and> tnext q' = tnext q \<and> tprev q' = tprev q \<and>
     top_queue q' = top_queue q \<and> wait_ec q' = wait_ec q \<and>
     mset (theap q') = mset (theap q) \<and> (indexed q \<longrightarrow> indexed q')"

lemma reheap_refl [simp]: "reheap q q"
  by (simp add: reheap_def)

lemma reheap_trans: "reheap p q \<Longrightarrow> reheap q r \<Longrightarrow> reheap p r"
  by (simp add: reheap_def)

lemma reheap_size: "reheap q q' \<Longrightarrow> heap_size q' = heap_size q"
  unfolding reheap_def by (metis size_mset)

lemma swap_heap_ok:
  assumes ij: "i < heap_size q" "j < heap_size q"
  shows "\<exists>q'. swap_heap i j q = Inr q' \<and> reheap q q' \<and> theap q' = (theap q)[i := theap q ! j, j := theap q ! i]"
proof (rule exI, intro conjI)
  let ?h = "(theap q)[i := theap q ! j, j := theap q ! i]"
  let ?q = "q\<lparr>theap := ?h, heap_index := (heap_index q)(snd (?h ! i) := i, snd (?h ! j) := j)\<rparr>"
  show "swap_heap i j q = Inr ?q" using ij by (simp add: swap_heap_def Let_def)
  show "theap ?q = ?h" by simp
  have m: "mset ?h = mset (theap q)" using ij by (simp add: mset_swap)
  have "indexed ?q" if "indexed q"
  proof -
    have d: "distinct (map snd ?h)" using that m unfolding indexed_def
      by (metis distinct_count_atmost_1 mset_map mset_eq_imp_distinct_iff)
    have "heap_index ?q (snd (?h ! n)) = n" if n: "n < heap_size ?q" for n
    proof -
      have inj: "snd (?h ! n) = snd (?h ! l) \<longleftrightarrow> n = l" if "l < heap_size q" for l
        using nth_eq_iff_index_eq [OF d, of n l] n that by simp
      have "?h ! n = theap q ! n" if "n \<noteq> i" "n \<noteq> j" using that by simp
      then show ?thesis using inj [OF ij(1)] inj [OF ij(2)] n \<open>indexed q\<close> unfolding indexed_def by auto
    qed
    moreover have "set ?h = set (theap q)" using m by (metis set_mset_mset)
    moreover have "?h ! i \<in> set ?h" "?h ! j \<in> set ?h"
      using ij by (intro nth_mem; simp)+
    ultimately show ?thesis using d that unfolding indexed_def by auto
  qed
  with m show "reheap q ?q" by (simp add: reheap_def)
qed

lemma swap_times:
  "i < length h \<Longrightarrow> j < length h \<Longrightarrow> n < length h \<Longrightarrow>
    fst (h[i := h ! j, j := h ! i] ! n) = ((\<lambda>n. fst (h ! n))(i := fst (h ! j), j := fst (h ! i))) n"
  by (simp add: nth_list_update)

lemma order_cong:
  assumes "\<And>i. i < n \<Longrightarrow> S i = T i"
  shows "heap_order S n = heap_order T n"
    and "i < n \<Longrightarrow> order_but_up S n i = order_but_up T n i"
    and "i < n \<Longrightarrow> order_but_down S n i = order_but_down T n i"
proof -
  have p: "parent j < n" if "0 < j" "j < n" for j using parent_less [OF that(1)] that(2) by simp
  show "heap_order S n = heap_order T n" using assms p by (simp add: heap_order_def)
  show "order_but_up S n i = order_but_up T n i" if "i < n"
    using that by (auto simp: order_but_up_def assms p)
  show "order_but_down S n i = order_but_down T n i" if "i < n"
    using that by (auto simp: order_but_down_def assms p)
qed

lemma up_heap_ok:
  "i < heap_size q \<Longrightarrow> \<exists>q'. up_heap i q = Inr q' \<and> reheap q q' \<and>
    (order_but_up (htime q) (heap_size q) i \<longrightarrow> ordered q')"
proof (induction i arbitrary: q rule: less_induct)
  case (less i)
  show ?case
  proof (cases "0 < i \<and> htime q i < htime q (parent i)")
    case True
    then have p: "parent i < i" by (simp add: parent_less)
    with less.prems swap_heap_ok [of i q "parent i"] obtain q1 where q1: "swap_heap i (parent i) q = Inr q1"
      "reheap q q1" "theap q1 = (theap q)[i := theap q ! parent i, parent i := theap q ! i]" by auto
    have n: "heap_size q1 = heap_size q" using q1(2) by (rule reheap_size)
    with less.IH [OF p, of q1] p less.prems obtain q2 where q2: "up_heap (parent i) q1 = Inr q2"
      "reheap q1 q2" "order_but_up (htime q1) (heap_size q1) (parent i) \<longrightarrow> ordered q2" by auto
    have "order_but_up (htime q1) (heap_size q1) (parent i)" if "order_but_up (htime q) (heap_size q) i"
      using order_up_swap [OF that] True less.prems p
      unfolding n q1(3) by (subst order_cong(2)) (auto simp: swap_times)
    moreover have "up_heap i q = Inr q2" using True q1(1) q2(1) less.prems
      by (subst up_heap.simps) (simp add: parent_def Let_def)
    ultimately show ?thesis using q2 reheap_trans [OF q1(2) q2(2)] by auto
  next
    case False
    then have "up_heap i q = Inr q" using less.prems
      by (subst up_heap.simps) (auto simp: parent_def Let_def)
    with False heap_order_but_up [of "htime q" "heap_size q" i] show ?thesis
      by (auto simp: ordered_def not_less)
  qed
qed

lemma down_heap_ok:
  "i < heap_size q \<Longrightarrow> \<exists>q'. down_heap i q = Inr q' \<and> reheap q q' \<and>
    (order_but_down (htime q) (heap_size q) i \<longrightarrow> ordered q')"
proof (induction "heap_size q - i" arbitrary: i q rule: less_induct)
  case less
  let ?n = "heap_size q"
  define m where "m = (if 2 * i + 2 = ?n \<or> htime q (2 * i + 1) < htime q (2 * i + 2)
    then 2 * i + 1 else 2 * i + 2)"
  show ?case
  proof (cases "2 * i + 1 < ?n")
    case False
    then have "down_heap i q = Inr q" by (subst down_heap.simps) (simp add: Let_def mult.commute)
    moreover have "parent j \<noteq> i" if "0 < j" "j < ?n" for j
      using that False by (auto simp: parent_eq)
    ultimately show ?thesis using heap_order_but_down [of "htime q" ?n i] by (auto simp: ordered_def)
  next
    case True
    then have m: "i < m" "m < ?n" "0 < m" "parent m = i" by (auto simp: m_def parent_def)
    have min: "htime q m \<le> htime q j" if "0 < j" "j < ?n" "parent j = i" for j
      using that True by (auto simp: m_def parent_eq not_less)
    have step: "down_heap i q = (if htime q i < htime q m then Inr q
        else and_then (swap_heap i m q) (down_heap m))"
      using True by (subst down_heap.simps) (simp add: Let_def m_def mult.commute)
    show ?thesis
    proof (cases "htime q i < htime q m")
      case True
      with min have "htime q i \<le> htime q j" if "0 < j" "j < ?n" "parent j = i" for j
        using that by (metis less_imp_le order_trans)
      with True step show ?thesis by (simp add: ordered_def) (blast intro: heap_order_but_down)
    next
      case False
      from less.prems m swap_heap_ok [of i q m] obtain q1 where q1: "swap_heap i m q = Inr q1"
        "reheap q q1" "theap q1 = (theap q)[i := theap q ! m, m := theap q ! i]" by auto
      have n: "heap_size q1 = ?n" using q1(2) by (rule reheap_size)
      have "heap_size q1 - m < ?n - i" using n m(1,2) by simp
      with less.hyps [OF this] n m(2) obtain q2 where q2: "down_heap m q1 = Inr q2"
        "reheap q1 q2" "order_but_down (htime q1) (heap_size q1) m \<longrightarrow> ordered q2" by auto
      have "order_but_down (htime q1) (heap_size q1) m" if "order_but_down (htime q) ?n i"
      proof -
        have "htime q m \<le> htime q i" using False by simp
        from order_down_swap [OF that m(3,2,4) this min]
        have "order_but_down ((htime q)(i := htime q m, m := htime q i)) ?n m" .
        moreover have "htime q1 l = ((htime q)(i := htime q m, m := htime q i)) l" if "l < ?n" for l
          unfolding q1(3) using less.prems m(2) that by (rule swap_times)
        ultimately show ?thesis unfolding n using order_cong(3) [of ?n "htime q1" _ m] m(2) by blast
      qed
      then have "order_but_down (htime q) ?n i \<longrightarrow> ordered q2" using q2(3) by blast
      moreover have "down_heap i q = Inr q2" using False step q1(1) q2(1) by simp
      ultimately show ?thesis using reheap_trans [OF q1(2) q2(2)] by blast
    qed
  qed
qed

section \<open>The list of active timers\<close>

definition hd_or :: "'k list \<Rightarrow> 'k option \<Rightarrow> 'k option" where
  "hd_or xs n = (if xs = [] then n else Some (hd xs))"

definition last_or :: "'k option \<Rightarrow> 'k list \<Rightarrow> 'k option" where
  "last_or p xs = (if xs = [] then p else Some (last xs))"

lemma hd_or_simps [simp]: "hd_or [] n = n" "hd_or (x # xs) n = Some x"
  "hd_or (xs @ ys) n = hd_or xs (hd_or ys n)"
  by (simp_all add: hd_or_def)

lemma last_or_simps [simp]: "last_or p [] = p" "last_or p (x # xs) = last_or (Some x) xs"
  "last_or p (xs @ ys) = last_or (last_or p xs) ys"
  by (simp_all add: last_or_def)

fun linked_seg ::
  "('k \<Rightarrow> 'k option) \<Rightarrow> ('k \<Rightarrow> 'k option) \<Rightarrow> 'k option \<Rightarrow> 'k list \<Rightarrow> 'k option \<Rightarrow> bool" where
  "linked_seg nx pv p [] n \<longleftrightarrow> True"
| "linked_seg nx pv p (k # ks) n \<longleftrightarrow> pv k = p \<and> nx k = hd_or ks n \<and> linked_seg nx pv (Some k) ks n"

lemma linked_seg_append:
  "linked_seg nx pv p (xs @ ys) n \<longleftrightarrow>
    linked_seg nx pv p xs (hd_or ys n) \<and> linked_seg nx pv (last_or p xs) ys n"
  by (induction xs arbitrary: p) auto

lemma linked_seg_upd [simp]:
  "x \<notin> set xs \<Longrightarrow> linked_seg (nx(x := v)) pv p xs n = linked_seg nx pv p xs n"
  "x \<notin> set xs \<Longrightarrow> linked_seg nx (pv(x := v)) p xs n = linked_seg nx pv p xs n"
  by (induction xs arbitrary: p) auto

definition upd_at :: "'k option \<Rightarrow> 'k option \<Rightarrow> ('k \<Rightarrow> 'k option) \<Rightarrow> 'k \<Rightarrow> 'k option" where
  "upd_at p v f = (case p of None \<Rightarrow> f | Some z \<Rightarrow> f(z := v))"

lemma upd_at_simps [simp]: "upd_at None v f = f" "upd_at (Some z) v f = f(z := v)"
  by (simp_all add: upd_at_def)

lemma linked_seg_end:
  "linked_seg nx pv p xs n \<Longrightarrow> distinct xs \<Longrightarrow>
    linked_seg (upd_at (last_or None xs) n' nx) pv p xs n'"
  by (cases xs rule: rev_cases) (auto simp: linked_seg_append)

lemma linked_seg_start:
  "linked_seg nx pv p xs n \<Longrightarrow> distinct xs \<Longrightarrow>
    linked_seg nx (upd_at (hd_or xs None) p' pv) p' xs n"
  by (cases xs) auto

definition linked :: "('t, 'k, 'op) timer_queue \<Rightarrow> 'k list \<Rightarrow> bool" where
  "linked q L \<longleftrightarrow> distinct L \<and> timers q = hd_or L None \<and>
     linked_seg (tnext q) (tprev q) None L None \<and>
     (\<forall>k. k \<notin> set L \<longrightarrow> tnext q k = None \<and> tprev q k = None)"

lemma linked_timer_linked: "linked q L \<Longrightarrow> timer_linked k q \<longleftrightarrow> k \<in> set L"
proof (cases "k \<in> set L")
  case True
  then obtain A B where L: "L = A @ k # B" by (meson split_list)
  assume "linked q L"
  then show ?thesis using L
    by (cases A rule: rev_cases) (auto simp: linked_def timer_linked_def linked_seg_append)
qed (auto simp: linked_def timer_linked_def hd_or_def split: if_splits)

lemma upd_at_other: "p \<noteq> Some x \<Longrightarrow> upd_at p v f x = f x"
  by (cases p) auto

lemma set_next_simps [simp]:
  "tnext (set_next p v q) = upd_at p v (tnext q)" "tprev (set_next p v q) = tprev q"
  "timers (set_next p v q) = timers q" "theap (set_next p v q) = theap q"
  "heap_index (set_next p v q) = heap_index q" "top_queue (set_next p v q) = top_queue q"
  "wait_ec (set_next p v q) = wait_ec q"
  by (simp_all add: set_next_def split: option.splits)

lemma set_prev_simps [simp]:
  "tprev (set_prev p v q) = upd_at p v (tprev q)" "tnext (set_prev p v q) = tnext q"
  "timers (set_prev p v q) = timers q" "theap (set_prev p v q) = theap q"
  "heap_index (set_prev p v q) = heap_index q" "top_queue (set_prev p v q) = top_queue q"
  "wait_ec (set_prev p v q) = wait_ec q"
  by (simp_all add: set_prev_def split: option.splits)

lemma unlink_timer_simps:
  "timers (unlink_timer k q) = (if timers q = Some k then tnext q k else timers q)"
  "tprev q k \<noteq> Some k \<Longrightarrow> tnext q k \<noteq> Some k \<Longrightarrow>
    tnext (unlink_timer k q) = (upd_at (tprev q k) (tnext q k) (tnext q))(k := None)"
  "tprev q k \<noteq> Some k \<Longrightarrow> tnext q k \<noteq> Some k \<Longrightarrow>
    tprev (unlink_timer k q) = (upd_at (tnext q k) (tprev q k) (tprev q))(k := None)"
  by (simp_all add: unlink_timer_def Let_def upd_at_other)

lemma relink_timer_simps:
  "timers (relink_timer target source q) = (if timers q = Some source then Some target else timers q)"
  "tprev q source \<noteq> Some source \<Longrightarrow> tnext q source \<noteq> Some source \<Longrightarrow> target \<noteq> source \<Longrightarrow>
    tnext (relink_timer target source q) =
      (upd_at (tprev q source) (Some target) (tnext q))(target := tnext q source, source := None)"
  "tprev q source \<noteq> Some source \<Longrightarrow> tnext q source \<noteq> Some source \<Longrightarrow> target \<noteq> source \<Longrightarrow>
    tprev (relink_timer target source q) =
      (upd_at (tnext q source) (Some target) (tprev q))(target := tprev q source, source := None)"
  by (simp_all add: relink_timer_def Let_def upd_at_other)

lemma linked_reheap: "reheap q q' \<Longrightarrow> linked q' L = linked q L"
  by (simp add: linked_def reheap_def)

lemma linked_split:
  assumes "linked q (A @ k # B)"
  shows "timers q = hd_or A (Some k)" and "tprev q k = last_or None A" and "tnext q k = hd_or B None"
    and "linked_seg (tnext q) (tprev q) None A (Some k)"
    and "linked_seg (tnext q) (tprev q) (Some k) B None"
    and "last_or None A = Some z \<Longrightarrow> z \<in> set A" and "hd_or B None = Some z \<Longrightarrow> z \<in> set B"
    and "timers q = Some k \<longleftrightarrow> A = []"
  using assms by (auto simp: linked_def linked_seg_append last_or_def hd_or_def split: if_splits)

text \<open>Closing a gap between two segments, with nothing or with one timer.\<close>

lemma linked_seg_upd_at [simp]:
  "(\<And>z. p' = Some z \<Longrightarrow> z \<notin> set xs) \<Longrightarrow> linked_seg (upd_at p' v nx) pv p xs n = linked_seg nx pv p xs n"
  "(\<And>z. p' = Some z \<Longrightarrow> z \<notin> set xs) \<Longrightarrow> linked_seg nx (upd_at p' v pv) p xs n = linked_seg nx pv p xs n"
  by (cases p'; simp)+

lemma linked_unlink:
  assumes l: "linked q (A @ k # B)"
  shows "linked (unlink_timer k q) (A @ B)"
proof -
  note s = linked_split [OF l]
  have d: "distinct A" "distinct B" "k \<notin> set A" "k \<notin> set B" and dis: "\<And>z. z \<in> set A \<Longrightarrow> z \<notin> set B"
    and out: "\<And>x. x \<notin> set (A @ k # B) \<Longrightarrow> tnext q x = None \<and> tprev q x = None"
    using l by (auto simp: linked_def)
  have A: "last_or None A = Some z \<Longrightarrow> z \<notin> set B \<and> z \<noteq> k"
    and B: "hd_or B None = Some z \<Longrightarrow> z \<notin> set A \<and> z \<noteq> k" for z using s(6,7) d dis by blast+
  have ne: "tprev q k \<noteq> Some k" "tnext q k \<noteq> Some k" using A B unfolding s(2,3) by blast+
  note u = unlink_timer_simps(1) [of k q] unlink_timer_simps(2,3) [OF ne]
  have "linked_seg (tnext (unlink_timer k q)) (tprev (unlink_timer k q)) None A (hd_or B None)"
    using linked_seg_end [OF s(4) d(1), of "hd_or B None"] A B d unfolding u s(2,3) by simp
  moreover have "linked_seg (tnext (unlink_timer k q)) (tprev (unlink_timer k q)) (last_or None A) B None"
    using linked_seg_start [OF s(5) d(2), of "last_or None A"] A B d unfolding u s(2,3) by simp
  moreover have "tnext (unlink_timer k q) x = None \<and> tprev (unlink_timer k q) x = None" if "x \<notin> set (A @ B)" for x
  proof (cases "x = k")
    case False
    with that s(6,7) have "last_or None A \<noteq> Some x" "hd_or B None \<noteq> Some x" by auto
    with False that out [of x] show ?thesis unfolding u s(2,3) by (simp add: upd_at_other)
  qed (simp add: u)
  moreover have "timers (unlink_timer k q) = hd_or A (hd_or B None)"
    using s(1,3,8) by (auto simp: u hd_or_def)
  ultimately show ?thesis using d dis unfolding linked_def by (auto simp: linked_seg_append)
qed

section \<open>Removing a timer\<close>

definition heap_ok :: "('t::linorder, 'k, 'op) timer_queue \<Rightarrow> bool" where
  "heap_ok q \<longleftrightarrow> indexed q \<and> ordered q"

definition same_list :: "('t, 'k, 'op) timer_queue \<Rightarrow> ('t, 'k, 'op) timer_queue \<Rightarrow> bool" where
  "same_list q q' \<longleftrightarrow> timers q' = timers q \<and> tnext q' = tnext q \<and> tprev q' = tprev q \<and>
     top_queue q' = top_queue q \<and> wait_ec q' = wait_ec q"

lemma indexedD:
  assumes "indexed q"
  shows "distinct (map snd (theap q))" and "i < heap_size q \<Longrightarrow> heap_index q (snd (theap q ! i)) = i"
    and "k \<notin> snd ` set (theap q) \<Longrightarrow> heap_index q k = SIZE_MAX" and "heap_size q \<le> SIZE_MAX"
  using assms by (auto simp: indexed_def)

lemma indexed_pop:
  assumes "indexed q" and h: "theap q = h @ [(t, k)]"
  shows "indexed (pop_heap_entry k q)"
proof -
  have d: "k \<notin> snd ` set h" "distinct (map snd h)" using indexedD(1) [OF assms(1)] h by auto
  moreover have "heap_index q (snd (h ! i)) = i" if "i < length h" for i
    using indexedD(2) [OF assms(1), of i] that h by (simp add: nth_append)
  moreover have "snd (h ! i) \<noteq> k" if "i < length h" for i using d(1) that by (metis image_eqI nth_mem)
  moreover have "heap_index q x = SIZE_MAX" if "x \<noteq> k" "x \<notin> snd ` set h" for x
    using that h by (intro indexedD(3) [OF assms(1)]) auto
  ultimately show ?thesis using indexedD(4) [OF assms(1)] h
    unfolding indexed_def by (simp add: pop_heap_entry_def)
qed

lemma last_update: "i < length h \<Longrightarrow> last (h[i := a, length h - 1 := b]) = b"
  by (cases "h = []") (simp_all add: last_conv_nth)

lemma indexed_mset_filter:
  assumes "distinct (map snd h)" and "i < length h"
  shows "mset (butlast (h[i := h ! (length h - 1), length h - 1 := h ! i])) = filter_mset (\<lambda>e. snd e \<noteq> snd (h ! i)) (mset h)"
proof -
  let ?h = "h[i := h ! (length h - 1), length h - 1 := h ! i]"
  have ne: "?h \<noteq> []" and l: "last ?h = h ! i" using assms(2) last_update [of i h "h ! (length h - 1)" "h ! i"] by auto
  have m: "mset ?h = mset h" using assms(2) by (intro mset_swap) auto
  have h: "?h = butlast ?h @ [h ! i]" using append_butlast_last_id [OF ne] l by simp
  then have m': "mset h = mset (butlast ?h) + {#h ! i#}" using m by (metis mset_append mset_single_iff_right union_code mset.simps(1) mset.simps(2))
  have "distinct (map snd ?h)" using assms(1) m by (metis mset_map mset_eq_imp_distinct_iff)
  then have "snd (h ! i) \<notin> snd ` set (butlast ?h)" by (subst (asm) h) simp
  then have "filter_mset (\<lambda>e. snd e \<noteq> snd (h ! i)) (mset (butlast ?h)) = mset (butlast ?h)"
    by (intro filter_mset_eq_conv [THEN iffD2]) (auto intro: rev_image_eqI)
  with m' show ?thesis by simp
qed

lemma same_list_reheap: "reheap q q' \<Longrightarrow> same_list q q'"
  by (simp add: reheap_def same_list_def)

lemma same_list_pop: "same_list q (pop_heap_entry k q)"
  by (simp add: same_list_def pop_heap_entry_def)

lemma same_list_trans: "same_list p q \<Longrightarrow> same_list q r \<Longrightarrow> same_list p r"
  by (simp add: same_list_def)

lemma remove_entry_ok:
  assumes ok: "heap_ok q"
  shows "\<exists>q'. remove_entry k q = Inr q' \<and> heap_ok q' \<and> same_list q q' \<and>
    mset (theap q') = filter_mset (\<lambda>e. snd e \<noteq> k) (mset (theap q))"
proof (cases "k \<in> snd ` set (theap q)")
  case False
  then have "heap_index q k = SIZE_MAX" "heap_size q \<le> SIZE_MAX" using ok by (auto simp: heap_ok_def indexed_def)
  then have "remove_entry k q = Inr q" by (simp add: remove_entry_def)
  moreover have "filter_mset (\<lambda>e. snd e \<noteq> k) (mset (theap q)) = mset (theap q)"
    using False by (intro filter_mset_eq_conv [THEN iffD2]) (auto intro: rev_image_eqI)
  ultimately show ?thesis using ok by (simp add: same_list_def)
next
  case True
  let ?n = "heap_size q"
  have ix: "indexed q" and od: "ordered q" using ok by (simp_all add: heap_ok_def)
  from True obtain i where i: "i < ?n" "snd (theap q ! i) = k" by (metis imageE in_set_conv_nth)
  then have idx: "heap_index q k = i" using indexedD(2) [OF ix] by blast
  have last: "?n - 1 < ?n" using i by simp
  from swap_heap_ok [OF i(1) last] obtain q1 where q1: "swap_heap i (?n - 1) q = Inr q1" "reheap q q1"
    "theap q1 = (theap q)[i := theap q ! (?n - 1), ?n - 1 := theap q ! i]" by blast
  let ?q2 = "pop_heap_entry k q1"
  have ne: "theap q1 \<noteq> []" and l: "last (theap q1) = theap q ! i"
    using i last_update [of i "theap q" "theap q ! (?n - 1)" "theap q ! i"] unfolding q1(3) by auto
  then have "theap q1 = butlast (theap q1) @ [(fst (theap q ! i), k)]"
    using i(2) by (metis append_butlast_last_id prod.collapse)
  with q1(2) ix have ix2: "indexed ?q2" by (intro indexed_pop) (auto simp: reheap_def)
  have m2: "mset (theap ?q2) = filter_mset (\<lambda>e. snd e \<noteq> k) (mset (theap q))"
    using indexed_mset_filter [OF indexedD(1) [OF ix] i(1)] i(2)
    unfolding q1(3) [symmetric] by (simp add: pop_heap_entry_def)
  have s2: "same_list q ?q2" using q1(2) same_list_pop by (metis same_list_reheap same_list_trans)
  have n2: "heap_size ?q2 = ?n - 1" using reheap_size [OF q1(2)] by (simp add: pop_heap_entry_def)
  have t2: "htime ?q2 j = ((htime q)(i := htime q (?n - 1))) j" if "j < ?n - 1" for j
    using that i q1(3) reheap_size [OF q1(2)]
    by (simp add: pop_heap_entry_def nth_butlast nth_list_update)
  have ho: "heap_order (htime q) (?n - 1)" using od by (simp add: ordered_def heap_order_def)
  show ?thesis
  proof (cases "i = ?n - 1")
    case True
    then have "theap q1 = theap q" using q1(3) by simp
    then have "theap ?q2 = theap (pop_heap_entry k q)" by (simp add: pop_heap_entry_def)
    moreover have "indexed (pop_heap_entry k q)"
      using i True by (intro indexed_pop [OF ix, where h = "butlast (theap q)" and t = "htime q i"])
        (metis append_butlast_last_id last_conv_nth length_0_conv less_nat_zero_code prod.collapse)
    moreover have "ordered ?q2" using ho t2 n2 True unfolding ordered_def by (subst order_cong(1)) auto
    ultimately have "heap_ok (pop_heap_entry k q)" by (simp add: heap_ok_def ordered_def)
    moreover have "remove_entry k q = Inr (pop_heap_entry k q)"
      using True i idx by (auto simp: remove_entry_def Let_def)
    ultimately show ?thesis using m2 \<open>theap ?q2 = _\<close> same_list_pop [of q k] by auto
  next
    case False
    then have i': "i < ?n - 1" using i(1) by simp
    have par: "parent i < ?n - 1" "parent i \<noteq> i" if "0 < i" using parent_less [OF that] i' by auto
    let ?up = "0 < i \<and> htime ?q2 i < htime ?q2 (parent i)"
    have up: "?up \<longleftrightarrow> 0 < i \<and> htime q (?n - 1) < htime q (parent i)"
      using t2 [OF i'] t2 par by auto
    have step: "remove_entry k q = (if ?up then up_heap i ?q2 else down_heap i ?q2)"
      using False i(1) idx q1(1) by (auto simp: remove_entry_def Let_def parent_def)
    have "\<exists>q'. remove_entry k q = Inr q' \<and> reheap ?q2 q' \<and> ordered q'"
    proof (cases ?up)
      case True
      then have "order_but_up (htime ?q2) (?n - 1) i"
        using heap_order_replace(1) [OF ho i', of "htime q (?n - 1)"] up
          order_cong(2) [of "?n - 1" "htime ?q2" "(htime q)(i := htime q (?n - 1))", OF t2 i'] by blast
      with up_heap_ok [of i ?q2] i' n2 step True show ?thesis by auto
    next
      case nup: False
      then have "order_but_down (htime ?q2) (?n - 1) i"
        using heap_order_replace(2) [OF ho i', of "htime q (?n - 1)"] up
          order_cong(3) [of "?n - 1" "htime ?q2" "(htime q)(i := htime q (?n - 1))", OF t2 i'] by blast
      with down_heap_ok [of i ?q2] i' n2 step nup show ?thesis by auto
    qed
    then obtain q' where "remove_entry k q = Inr q'" "reheap ?q2 q'" "ordered q'" by blast
    with ix2 m2 s2 show ?thesis
      by (metis heap_ok_def reheap_def same_list_reheap same_list_trans)
  qed
qed

section \<open>The invariant and the operations\<close>

definition tq_core :: "('t::linorder, 'k, 'op) timer_queue \<Rightarrow> 'k list \<Rightarrow> bool" where
  "tq_core q L \<longleftrightarrow> linked q L \<and> heap_ok q \<and> snd ` set (theap q) \<subseteq> set L"

definition tq_ok :: "('t::linorder, 'k, 'op) timer_queue \<Rightarrow> 'k list \<Rightarrow> bool" where
  "tq_ok q L \<longleftrightarrow> tq_core q L \<and> (\<forall>k. top_queue q k \<noteq> [] \<longleftrightarrow> k \<in> set L)"

lemma linked_same_list: "same_list q q' \<Longrightarrow> linked q' L = linked q L"
  by (simp add: linked_def same_list_def)

lemma unlink_timer_frame [simp]:
  "theap (unlink_timer k q) = theap q" "heap_index (unlink_timer k q) = heap_index q"
  "top_queue (unlink_timer k q) = top_queue q" "wait_ec (unlink_timer k q) = wait_ec q"
  by (simp_all add: unlink_timer_def Let_def)

lemma relink_timer_frame [simp]:
  "theap (relink_timer j k q) = theap q" "heap_index (relink_timer j k q) = heap_index q"
  "top_queue (relink_timer j k q) = top_queue q" "wait_ec (relink_timer j k q) = wait_ec q"
  by (simp_all add: relink_timer_def Let_def)

lemma heap_ok_cong: "theap q' = theap q \<Longrightarrow> heap_index q' = heap_index q \<Longrightarrow> heap_ok q' = heap_ok q"
  by (simp add: heap_ok_def indexed_def ordered_def)

lemma remove_timer_ok:
  assumes "tq_core q L" and "k \<in> set L"
  shows "\<exists>q'. remove_timer k q = Inr q' \<and> tq_core q' (remove1 k L) \<and>
    mset (theap q') = filter_mset (\<lambda>e. snd e \<noteq> k) (mset (theap q)) \<and>
    top_queue q' = top_queue q \<and> wait_ec q' = wait_ec q"
proof -
  from assms(1) have l: "linked q L" and h: "heap_ok q" and sub: "snd ` set (theap q) \<subseteq> set L"
    by (simp_all add: tq_core_def)
  from remove_entry_ok [OF h, of k] obtain q1 where q1: "remove_entry k q = Inr q1" "heap_ok q1" "same_list q q1"
    "mset (theap q1) = filter_mset (\<lambda>e. snd e \<noteq> k) (mset (theap q))" by blast
  from assms(2) obtain A B where L: "L = A @ k # B" by (meson split_list)
  have "linked (unlink_timer k q1) (A @ B)"
    using l q1(3) unfolding L by (intro linked_unlink) (simp add: linked_same_list)
  moreover have "k \<notin> set A" using l L by (simp add: linked_def)
  then have "remove1 k L = A @ B" by (simp add: L remove1_append)
  moreover have "set (theap q1) = {e \<in> set (theap q). snd e \<noteq> k}"
    using q1(4) by (metis set_mset_filter set_mset_mset)
  ultimately show ?thesis using q1 sub L heap_ok_cong [of "unlink_timer k q1" q1]
    by (auto simp: remove_timer_def tq_core_def same_list_def)
qed

lemma tq_ok_new: "tq_ok timer_queue_new []"
  by (simp add: tq_ok_def tq_core_def timer_queue_new_def linked_def heap_ok_def indexed_def ordered_def
      heap_order_def)

lemma tq_core_top_queue [simp]: "tq_core (q\<lparr>top_queue := f\<rparr>) L = tq_core q L"
  by (simp add: tq_core_def linked_def heap_ok_def indexed_def ordered_def)

lemma tq_core_wait_ec [simp]: "tq_core (q\<lparr>wait_ec := f\<rparr>) L = tq_core q L"
  by (simp add: tq_core_def linked_def heap_ok_def indexed_def ordered_def)

text \<open>Enqueuing: the heap's half and the list's half.\<close>

lemma push_entry_ok:
  fixes q :: "('t::linorder, 'k, 'op) timer_queue"
  defines "q1 \<equiv> \<lambda>t k. q\<lparr>heap_index := (heap_index q)(k := length (theap q)), theap := theap q @ [(t, k)]\<rparr>"
  assumes ok: "heap_ok q" and k: "k \<notin> snd ` set (theap q)" and n: "heap_size q < SIZE_MAX"
  shows "\<exists>q'. up_heap (length (theap (q1 t k)) - 1) (q1 t k) = Inr q' \<and> heap_ok q' \<and> same_list q q' \<and>
    mset (theap q') = add_mset (t, k) (mset (theap q))"
proof -
  have ix: "indexed (q1 t k)"
    using ok k n unfolding heap_ok_def indexed_def q1_def
    by (auto simp: nth_append image_iff less_Suc_eq)
  have "order_but_up (htime (q1 t k)) (heap_size (q1 t k)) (heap_size q)"
    unfolding order_but_up_def
  proof (intro conjI allI impI)
    fix j assume j: "0 < j" "j < heap_size (q1 t k)"
    then have "parent j < heap_size q" using parent_less [OF j(1)] by (simp add: q1_def)
    with j ok show "htime (q1 t k) (parent j) \<le> htime (q1 t k) j" if "j \<noteq> heap_size q"
      using that by (auto simp: q1_def nth_append heap_ok_def ordered_def heap_order_def)
    with \<open>parent j < heap_size q\<close> show "htime (q1 t k) (parent (heap_size q)) \<le> htime (q1 t k) j" if "parent j = heap_size q"
      using that by simp
  qed
  with up_heap_ok [of "heap_size q" "q1 t k"] obtain q' where q': "up_heap (heap_size q) (q1 t k) = Inr q'"
    "reheap (q1 t k) q'" "ordered q'" by (auto simp: q1_def)
  with ix show ?thesis
    by (auto simp: heap_ok_def reheap_def same_list_def q1_def)
qed

lemma linked_link:
  assumes "linked q L" and "k \<notin> set L"
  shows "linked (link_timer k q) (k # L)"
proof (cases L)
  case Nil
  with assms show ?thesis by (auto simp: linked_def link_timer_def Let_def)
next
  case (Cons a M)
  with assms show ?thesis by (auto simp: linked_def link_timer_def Let_def)
qed

lemma link_timer_frame [simp]:
  "theap (link_timer k q) = theap q" "heap_index (link_timer k q) = heap_index q"
  "top_queue (link_timer k q) = top_queue q" "wait_ec (link_timer k q) = wait_ec q"
  by (simp_all add: link_timer_def Let_def split: option.splits)

lemma enqueue_timer_ok:
  assumes ok: "tq_ok q L" and n: "heap_size q < SIZE_MAX"
  shows "\<exists>b q'. enqueue_timer inf' t k op q = Inr (b, q') \<and> tq_ok q' (if k \<in> set L then L else k # L) \<and>
    top_queue q' = (top_queue q)(k := top_queue q k @ [op]) \<and> wait_ec q' = wait_ec q \<and>
    mset (theap q') = (if k \<in> set L \<or> inf' t then mset (theap q) else add_mset (t, k) (mset (theap q))) \<and>
    (b \<longleftrightarrow> heap_index q' k = 0 \<and> hd (top_queue q' k) = op)"
proof (cases "k \<in> set L")
  case True
  with ok show ?thesis by (auto simp: enqueue_timer_def linked_timer_linked tq_ok_def tq_core_def Let_def
        linked_def heap_ok_def indexed_def ordered_def)
next
  case False
  have h: "heap_ok q" and l: "linked q L" and sub: "snd ` set (theap q) \<subseteq> set L"
    and ops: "\<And>k. top_queue q k \<noteq> [] \<longleftrightarrow> k \<in> set L" using ok by (auto simp: tq_ok_def tq_core_def)
  have k: "k \<notin> snd ` set (theap q)" using sub False by blast
  obtain q2 where q2: "enqueue_timer inf' t k op q = and_then (Inr (link_timer k q2))
      (\<lambda>q5. let q6 = q5\<lparr>top_queue := (top_queue q5)(k := top_queue q5 k @ [op])\<rparr>
             in Inr (heap_index q6 k = 0 \<and> hd (top_queue q6 k) = op, q6))"
    and "heap_ok q2" "same_list q q2"
    and m: "mset (theap q2) = (if inf' t then mset (theap q) else add_mset (t, k) (mset (theap q)))"
  proof (cases "inf' t")
    case True
    let ?q2 = "q\<lparr>heap_index := (heap_index q)(k := SIZE_MAX)\<rparr>"
    have "(heap_index q)(k := SIZE_MAX) = heap_index q"
      using h k by (auto simp: heap_ok_def indexed_def)
    with True False l h show ?thesis
      by (intro that [of q]) (auto simp: enqueue_timer_def linked_timer_linked same_list_def)
  next
    case inf: False
    from push_entry_ok [OF h k n, of t] inf False l show ?thesis
      by (auto simp: enqueue_timer_def linked_timer_linked Let_def intro: that)
  qed
  moreover have "linked (link_timer k q2) (k # L)"
    using linked_link [of q2 L k] False l \<open>same_list q q2\<close> by (simp add: linked_same_list)
  moreover have "set (theap q2) \<subseteq> insert (t, k) (set (theap q))"
    using m by (metis set_mset_add_mset_insert set_mset_mset subset_insertI subset_refl)
  then have "snd ` set (theap q2) \<subseteq> set (k # L)" using sub by fastforce
  ultimately show ?thesis using False sub ops
    by (auto simp: tq_ok_def tq_core_def Let_def same_list_def linked_def heap_ok_def indexed_def ordered_def)
qed

lemma splice_ops_simps [simp]:
  "splice_ops k q ops = (q\<lparr>top_queue := (top_queue q)(k := [])\<rparr>, ops @ top_queue q k)"
  by (simp add: splice_ops_def)

text \<open>Taking the operations of a timer and the timer.\<close>

lemma take_timer_ok:
  assumes ok: "tq_ok q L" and k: "k \<in> set L"
  shows "\<exists>q'. remove_timer k (q\<lparr>top_queue := (top_queue q)(k := [])\<rparr>) = Inr q' \<and> tq_ok q' (remove1 k L) \<and>
    mset (theap q') = filter_mset (\<lambda>e. snd e \<noteq> k) (mset (theap q)) \<and>
    top_queue q' = (top_queue q)(k := []) \<and> wait_ec q' = wait_ec q"
proof -
  have "tq_core (q\<lparr>top_queue := (top_queue q)(k := [])\<rparr>) L" using ok by (simp add: tq_ok_def)
  from remove_timer_ok [OF this k] obtain q' where q': "remove_timer k (q\<lparr>top_queue := (top_queue q)(k := [])\<rparr>) = Inr q'"
    "tq_core q' (remove1 k L)" "mset (theap q') = filter_mset (\<lambda>e. snd e \<noteq> k) (mset (theap q))"
    "top_queue q' = (top_queue q)(k := [])" "wait_ec q' = wait_ec q" by auto
  have "set (remove1 k L) = set L - {k}" using ok by (simp add: tq_ok_def tq_core_def linked_def)
  then have "tq_ok q' (remove1 k L)" using ok q'(2,4) by (simp add: tq_ok_def)
  with q' show ?thesis by blast
qed

section \<open>Timers that are due\<close>

lemma heap_head:
  assumes ok: "tq_ok q L" and h: "theap q = (t, k) # h"
  shows "k \<in> set L \<and> (\<forall>e \<in> set (theap q). t \<le> fst e)"
proof (intro conjI ballI)
  show "k \<in> set L" using assms by (auto simp: tq_ok_def tq_core_def)
  fix e assume "e \<in> set (theap q)"
  then obtain i where "i < heap_size q" "theap q ! i = e" by (auto simp: in_set_conv_nth)
  moreover have "heap_order (htime q) (heap_size q)" using ok by (simp add: tq_ok_def tq_core_def heap_ok_def ordered_def)
  ultimately show "t \<le> fst e" using heap_order_min [of "htime q" "heap_size q" i] h by auto
qed

lemma filter_one_key:
  "distinct (map snd h) \<Longrightarrow> (t, k) \<in> set h \<Longrightarrow>
    mset h = add_mset (t, k) (filter_mset (\<lambda>e. snd e \<noteq> k) (mset h))"
proof (induction h)
  case (Cons e h)
  show ?case
  proof (cases "e = (t, k)")
    case True
    then have "k \<notin> snd ` set h" using Cons.prems by simp
    then have "filter_mset (\<lambda>e. snd e \<noteq> k) (mset h) = mset h"
      by (intro filter_mset_eq_conv [THEN iffD2]) (auto intro: rev_image_eqI)
    with True show ?thesis by simp
  next
    case False
    then have "snd e \<noteq> k" using Cons.prems by (auto simp: image_iff)
    with False Cons show ?thesis by simp
  qed
qed simp

lemma ready_loop_ok:
  "tq_ok q L \<Longrightarrow> \<exists>q' es. ready_loop now q ops = Some (Inr (q', ops @ concat (map (\<lambda>e. top_queue q (snd e)) es))) \<and>
    mset es = filter_mset (\<lambda>e. fst e \<le> now) (mset (theap q)) \<and> sorted (map fst es) \<and>
    tq_ok q' (filter (\<lambda>k. k \<notin> snd ` set es) L) \<and>
    mset (theap q') = filter_mset (\<lambda>e. \<not> fst e \<le> now) (mset (theap q)) \<and>
    top_queue q' = (\<lambda>k. if k \<in> snd ` set es then [] else top_queue q k) \<and> wait_ec q' = wait_ec q"
proof (induction "heap_size q" arbitrary: q L ops rule: less_induct)
  case less
  note ok = \<open>tq_ok q L\<close>
  show ?case
  proof (cases "theap q")
    case Nil
    then show ?thesis using ok
      by (subst ready_loop.simps) (intro exI [of _ q] exI [of _ "[]"], simp)
  next
    case (Cons e h)
    obtain t k where e: "e = (t, k)" by fastforce
    from heap_head [OF ok] Cons e have k: "k \<in> set L" and min: "\<And>e. e \<in> set (theap q) \<Longrightarrow> t \<le> fst e"
      by blast+
    show ?thesis
    proof (cases "now < t")
      case True
      then have "now < fst e" if "e \<in> set (theap q)" for e using min [OF that] by auto
      then have "filter_mset (\<lambda>e. fst e \<le> now) (mset (theap q)) = {#}"
        "filter_mset (\<lambda>e. \<not> fst e \<le> now) (mset (theap q)) = mset (theap q)"
        by (auto simp: filter_mset_eq_conv not_le)
      with True ok Cons e show ?thesis
        by (subst ready_loop.simps) (intro exI [of _ q] exI [of _ "[]"], simp)
    next
      case False
      from take_timer_ok [OF ok k] obtain q1 where
        q1: "remove_timer k (q\<lparr>top_queue := (top_queue q)(k := [])\<rparr>) = Inr q1" "tq_ok q1 (remove1 k L)"
        "mset (theap q1) = filter_mset (\<lambda>e. snd e \<noteq> k) (mset (theap q))"
        "top_queue q1 = (top_queue q)(k := [])" "wait_ec q1 = wait_ec q" by blast
      have d: "distinct (map snd (theap q))" using ok by (simp add: tq_ok_def tq_core_def heap_ok_def indexed_def)
      then have m: "mset (theap q) = add_mset (t, k) (mset (theap q1))"
        unfolding q1(3) using Cons e by (intro filter_one_key) auto
      then have "heap_size q1 < heap_size q" by (metis size_mset size_add_mset lessI)
      from less.hyps [OF this q1(2), of "ops @ top_queue q k"] obtain q2 es where
        q2: "ready_loop now q1 (ops @ top_queue q k) =
            Some (Inr (q2, (ops @ top_queue q k) @ concat (map (\<lambda>e. top_queue q1 (snd e)) es)))"
        "mset es = filter_mset (\<lambda>e. fst e \<le> now) (mset (theap q1))" "sorted (map fst es)"
        "tq_ok q2 (filter (\<lambda>k. k \<notin> snd ` set es) (remove1 k L))"
        "mset (theap q2) = filter_mset (\<lambda>e. \<not> fst e \<le> now) (mset (theap q1))"
        "top_queue q2 = (\<lambda>k. if k \<in> snd ` set es then [] else top_queue q1 k)" "wait_ec q2 = wait_ec q1"
        by blast
      have sub: "e \<in> set (theap q) \<and> snd e \<noteq> k" if "e \<in> set es" for e
      proof -
        have "e \<in># mset es" using that by simp
        then have "e \<in># mset (theap q1)" unfolding q2(2) by simp
        then show ?thesis unfolding q1(3) by simp
      qed
      then have kes: "k \<notin> snd ` set es" by auto
      have "concat (map (\<lambda>e. top_queue q1 (snd e)) es) = concat (map (\<lambda>e. top_queue q (snd e)) es)"
        using sub q1(4) by (intro arg_cong [of _ _ concat] map_cong) auto
      moreover have "filter (\<lambda>k. k \<notin> snd ` set es) (remove1 k L) = filter (\<lambda>x. x \<notin> snd ` set ((t, k) # es)) L"
        using ok by (auto simp: tq_ok_def tq_core_def linked_def distinct_remove1_removeAll removeAll_filter_not_eq
            intro: filter_cong)
      moreover have "sorted (map fst ((t, k) # es))" using q2(3) sub min by auto
      ultimately show ?thesis using False Cons e q1 q2 m kes
        by (subst ready_loop.simps) (intro exI [of _ q2] exI [of _ "(t, k) # es"], auto)
    qed
  qed
qed

section \<open>Cancelling and moving\<close>

lemma cancel_loop_eq:
  "n \<le> m \<Longrightarrow> cancel_loop m n k q ops =
    (n + length (take (m - n) (top_queue q k)),
     q\<lparr>top_queue := (top_queue q)(k := drop (m - n) (top_queue q k)),
       wait_ec := (\<lambda>x. if x \<in> set (take (m - n) (top_queue q k)) then Operation_aborted else wait_ec q x)\<rparr>,
     ops @ take (m - n) (top_queue q k))"
proof (induction "top_queue q k" arbitrary: n q ops)
  case Nil
  then show ?case by (subst cancel_loop.simps) (simp add: fun_upd_idem)
next
  case (Cons x xs)
  have q: "top_queue q k = x # xs" using Cons.hyps(2) by simp
  show ?case
  proof (cases "n = m")
    case True
    with q show ?thesis by (subst cancel_loop.simps) (simp add: fun_upd_idem)
  next
    case False
    then have d: "m - n = Suc (m - Suc n)" using Cons.prems by simp
    let ?q = "q\<lparr>wait_ec := (wait_ec q)(x := Operation_aborted), top_queue := (top_queue q)(k := xs)\<rparr>"
    have "cancel_loop m n k q ops = cancel_loop m (n + 1) k ?q (ops @ [x])"
      using q False by (subst cancel_loop.simps) simp
    also have "\<dots> = (n + 1 + length (take (m - (n + 1)) xs),
       ?q\<lparr>top_queue := (top_queue q)(k := drop (m - (n + 1)) xs),
         wait_ec := (\<lambda>y. if y \<in> set (take (m - (n + 1)) xs) then Operation_aborted else wait_ec ?q y)\<rparr>,
       (ops @ [x]) @ take (m - (n + 1)) xs)"
      using Cons.hyps(1) [of ?q "n + 1" "ops @ [x]"] Cons.prems False by simp
    finally show ?thesis using q d by (auto simp: fun_eq_iff)
  qed
qed

lemma cancel_timer_ok:
  assumes ok: "tq_ok q L"
  shows "\<exists>q'. cancel_timer m k q ops = Inr (length (take m (top_queue q k)), q', ops @ take m (top_queue q k)) \<and>
    tq_ok q' (if drop m (top_queue q k) = [] then remove1 k L else L) \<and>
    top_queue q' = (top_queue q)(k := drop m (top_queue q k)) \<and>
    wait_ec q' = (\<lambda>x. if x \<in> set (take m (top_queue q k)) then Operation_aborted else wait_ec q x) \<and>
    mset (theap q') = (if drop m (top_queue q k) = [] then filter_mset (\<lambda>e. snd e \<noteq> k) (mset (theap q))
      else mset (theap q))"
proof (cases "k \<in> set L")
  case False
  then have "top_queue q k = []" "k \<notin> snd ` set (theap q)" using ok by (auto simp: tq_ok_def tq_core_def)
  moreover have "filter_mset (\<lambda>e. snd e \<noteq> k) (mset (theap q)) = mset (theap q)"
    using calculation(2) by (intro filter_mset_eq_conv [THEN iffD2]) (auto intro: rev_image_eqI)
  ultimately show ?thesis using False ok
    by (auto simp: cancel_timer_def linked_timer_linked tq_ok_def tq_core_def remove1_idem fun_upd_idem)
next
  case True
  let ?c = "take m (top_queue q k)" and ?d = "drop m (top_queue q k)"
  let ?q = "q\<lparr>top_queue := (top_queue q)(k := ?d),
    wait_ec := (\<lambda>x. if x \<in> set ?c then Operation_aborted else wait_ec q x)\<rparr>"
  have core: "tq_core ?q L" and ops: "\<And>x. top_queue q x \<noteq> [] \<longleftrightarrow> x \<in> set L" using ok by (simp_all add: tq_ok_def)
  have step: "cancel_timer m k q ops =
    and_then (if ?d = [] then remove_timer k ?q else Inr ?q) (\<lambda>q2. Inr (length ?c, q2, ops @ ?c))"
    using True ok linked_timer_linked [of q L k]
    by (simp add: cancel_timer_def cancel_loop_eq tq_ok_def tq_core_def del: drop_eq_Nil)
  show ?thesis
  proof (cases "?d = []")
    case d: True
    from remove_timer_ok [OF core True] obtain q' where q': "remove_timer k ?q = Inr q'"
      "tq_core q' (remove1 k L)" "mset (theap q') = filter_mset (\<lambda>e. snd e \<noteq> k) (mset (theap q))"
      "top_queue q' = top_queue ?q" "wait_ec q' = wait_ec ?q" by auto
    have "set (remove1 k L) = set L - {k}" using core by (simp add: tq_core_def linked_def)
    with q'(2,4) d ops have "tq_ok q' (remove1 k L)" by (simp add: tq_ok_def)
    with q' d step show ?thesis by simp
  next
    case False
    with core ops True have "tq_ok ?q L" by (auto simp: tq_ok_def)
    with False step show ?thesis by auto
  qed
qed

lemma linked_relink_split:
  assumes l: "linked q (A @ source # B)" and t: "target \<notin> set (A @ source # B)"
  shows "linked (relink_timer target source q) (A @ target # B)"
proof -
  note s = linked_split [OF l]
  have d: "distinct A" "distinct B" "source \<notin> set A" "source \<notin> set B" "target \<noteq> source" "target \<notin> set A" "target \<notin> set B"
    and dis: "\<And>z. z \<in> set A \<Longrightarrow> z \<notin> set B"
    and out: "\<And>x. x \<notin> set (A @ source # B) \<Longrightarrow> tnext q x = None \<and> tprev q x = None"
    using l t by (auto simp: linked_def)
  have A: "last_or None A = Some z \<Longrightarrow> z \<notin> set B \<and> z \<noteq> source"
    and B: "hd_or B None = Some z \<Longrightarrow> z \<notin> set A \<and> z \<noteq> source" for z using s(6,7) d dis by blast+
  have ne: "tprev q source \<noteq> Some source" "tnext q source \<noteq> Some source" using A B unfolding s(2,3) by blast+
  note u = relink_timer_simps(1) [of target source q] relink_timer_simps(2,3) [OF ne d(5)]
  let ?r = "relink_timer target source q"
  have "linked_seg (tnext ?r) (tprev ?r) None A (Some target)"
    using linked_seg_end [OF s(4) d(1), of "Some target"] A B d unfolding u s(2,3) by simp
  moreover have "linked_seg (tnext ?r) (tprev ?r) (Some target) B None"
    using linked_seg_start [OF s(5) d(2), of "Some target"] A B d unfolding u s(2,3) by simp
  moreover have "tnext ?r x = None \<and> tprev ?r x = None" if "x \<notin> set (A @ target # B)" for x
  proof (cases "x = source")
    case False
    with that s(6,7) have "last_or None A \<noteq> Some x" "hd_or B None \<noteq> Some x" by auto
    with False that out [of x] show ?thesis unfolding u s(2,3) by (simp add: upd_at_other)
  qed (use d in \<open>simp add: u\<close>)
  moreover have "timers ?r = hd_or A (Some target)" using s(1,8) by (auto simp: u hd_or_def)
  moreover have "tprev ?r target = last_or None A" "tnext ?r target = hd_or B None"
    using d(5) s(2,3) by (simp_all add: u)
  ultimately show ?thesis using d dis unfolding linked_def by (auto simp: linked_seg_append)
qed

lemma linked_relink:
  assumes l: "linked q L" and t: "target \<notin> set L" "target \<noteq> source"
  shows "linked (relink_timer target source q) (map (\<lambda>x. if x = source then target else x) L)"
proof (cases "source \<in> set L")
  case False
  then have "map (\<lambda>x. if x = source then target else x) L = L" by (induction L) auto
  moreover have "tprev q source = None" "tnext q source = None" "timers q \<noteq> Some source"
    "tprev q target = None" "tnext q target = None"
    using l False t by (auto simp: linked_def hd_or_def split: if_splits)
  ultimately show ?thesis using l t by (simp add: linked_def relink_timer_simps fun_upd_idem)
next
  case True
  then obtain A B where L: "L = A @ source # B" by (meson split_list)
  then have "source \<notin> set A" "source \<notin> set B" using l by (auto simp: linked_def)
  then have "map (\<lambda>x. if x = source then target else x) A = A" "map (\<lambda>x. if x = source then target else x) B = B"
    by (induction A, auto) (induction B, auto)
  with linked_relink_split [of q A source B target] l t L show ?thesis by auto
qed

definition rename :: "'k \<Rightarrow> 'k \<Rightarrow> 'k \<Rightarrow> 'k" where
  "rename target source k = (if k = source then target else k)"

lemma rename_entry:
  assumes "distinct (map snd h)" and "i < length h" "snd (h ! i) = source"
  shows "h[i := (fst (h ! i), target)] = map (\<lambda>e. (fst e, rename target source (snd e))) h"
proof (rule nth_equalityI)
  fix j assume j: "j < length (h[i := (fst (h ! i), target)])"
  then have "snd (h ! j) = source \<longleftrightarrow> j = i"
    using nth_eq_iff_index_eq [OF assms(1), of j i] assms(2,3) by simp
  with j assms(2) show "h[i := (fst (h ! i), target)] ! j = map (\<lambda>e. (fst e, rename target source (snd e))) h ! j"
    by (auto simp: rename_def nth_list_update)
qed simp

lemma move_timer_fields:
  "theap (move_timer target source q) =
    (if heap_index q source < heap_size q
     then (theap q)[heap_index q source := (htime q (heap_index q source), target)] else theap q)"
  "heap_index (move_timer target source q) = (heap_index q)(target := heap_index q source, source := SIZE_MAX)"
  "top_queue (move_timer target source q) =
    (top_queue q)(target := top_queue q target @ top_queue q source, source := [])"
  "wait_ec (move_timer target source q) = wait_ec q"
  if "target \<noteq> source"
  using that by (simp_all add: move_timer_def move_entry_def Let_def)

lemma move_timer_heap:
  assumes h: "heap_ok q" and t: "target \<notin> snd ` set (theap q)" "target \<noteq> source"
  shows "theap (move_timer target source q) = map (\<lambda>e. (fst e, rename target source (snd e))) (theap q) \<and>
    heap_ok (move_timer target source q)"
proof -
  have ix: "indexed q" using h by (simp add: heap_ok_def)
  let ?h = "map (\<lambda>e. (fst e, rename target source (snd e))) (theap q)"
  have th: "theap (move_timer target source q) = ?h"
  proof (cases "source \<in> snd ` set (theap q)")
    case True
    then obtain i where i: "i < heap_size q" "snd (theap q ! i) = source" by (metis imageE in_set_conv_nth)
    then show ?thesis using indexedD(2) [OF ix, of i] rename_entry [OF indexedD(1) [OF ix] i]
      by (simp add: move_timer_fields t)
  next
    case False
    then have "?h = theap q" by (intro map_idI) (auto simp: rename_def)
    then show ?thesis using indexedD(3) [OF ix False] indexedD(4) [OF ix]
      by (simp add: move_timer_fields t)
  qed
  have inj: "inj_on (rename target source) (snd ` set (theap q))"
    using t by (auto simp: inj_on_def rename_def)
  have "distinct (map snd ?h)"
  proof -
    have "map snd ?h = map (rename target source) (map snd (theap q))" by simp
    then show ?thesis using indexedD(1) [OF ix] inj by (metis distinct_map list.set_map)
  qed
  moreover have "heap_index (move_timer target source q) (snd (?h ! i)) = i" if "i < heap_size q" for i
  proof -
    have "snd (theap q ! i) \<noteq> target" using t(1) that by (metis image_eqI nth_mem)
    with that indexedD(2) [OF ix that] t(2) show ?thesis by (auto simp: move_timer_fields rename_def)
  qed
  moreover have "heap_index (move_timer target source q) k = SIZE_MAX" if "k \<notin> snd ` set ?h" for k
  proof -
    have "k = source \<or> k \<notin> snd ` set (theap q)" "k = target \<Longrightarrow> source \<notin> snd ` set (theap q)"
      using that by (force simp: rename_def)+
    with indexedD(3) [OF ix] t(2) show ?thesis by (auto simp: move_timer_fields)
  qed
  ultimately have "indexed (move_timer target source q)"
    using indexedD(4) [OF ix] unfolding indexed_def th by simp
  moreover have "ordered (move_timer target source q)"
    using h unfolding heap_ok_def ordered_def th by (subst order_cong(1)) auto
  ultimately show ?thesis using th by (simp add: heap_ok_def)
qed

lemma relink_timer_cong:
  "timers q' = timers q \<Longrightarrow> tnext q' = tnext q \<Longrightarrow> tprev q' = tprev q \<Longrightarrow>
    linked (relink_timer target source q') L = linked (relink_timer target source q) L"
  by (simp add: linked_def relink_timer_def Let_def)

lemma move_timer_linked:
  "linked (move_timer target source q) L = linked (relink_timer target source q) L"
  unfolding move_timer_def by (rule relink_timer_cong) (simp_all add: move_entry_def Let_def)

lemma move_timer_ok:
  assumes ok: "tq_ok q L" and t: "target \<notin> set L" "target \<noteq> source"
  shows "tq_ok (move_timer target source q) (map (rename target source) L) \<and>
    theap (move_timer target source q) = map (\<lambda>e. (fst e, rename target source (snd e))) (theap q) \<and>
    top_queue (move_timer target source q) = (top_queue q)(target := top_queue q source, source := []) \<and>
    wait_ec (move_timer target source q) = wait_ec q"
proof -
  have l: "linked q L" and h: "heap_ok q" and sub: "snd ` set (theap q) \<subseteq> set L"
    and ops: "\<And>k. top_queue q k \<noteq> [] \<longleftrightarrow> k \<in> set L" using ok by (auto simp: tq_ok_def tq_core_def)
  have tn: "target \<notin> snd ` set (theap q)" using sub t by blast
  have "linked (move_timer target source q) (map (rename target source) L)"
    using linked_relink [OF l t] unfolding rename_def [abs_def] move_timer_linked .
  moreover have "top_queue q target = []" using ops t by blast
  moreover have "x \<in> set (map (rename target source) L) \<longleftrightarrow>
      x = target \<and> source \<in> set L \<or> x \<noteq> source \<and> x \<in> set L" for x
    using t by (auto simp: rename_def image_iff)
  moreover have "snd ` (\<lambda>e. (fst e, rename target source (snd e))) ` set (theap q) \<subseteq> rename target source ` set L"
    using sub by (force simp: image_image)
  ultimately show ?thesis using move_timer_heap [OF h tn t(2)] ops t
    by (auto simp: tq_ok_def tq_core_def move_timer_fields)
qed

section \<open>Taking everything\<close>

lemma all_loop_ok:
  "distinct L \<Longrightarrow> timers q = hd_or L None \<Longrightarrow> linked_seg (tnext q) (tprev q) p L None \<Longrightarrow>
    (\<And>k. k \<notin> set L \<Longrightarrow> tnext q k = None \<and> tprev q k = None) \<Longrightarrow>
    \<exists>q'. all_loop q ops = Some (q', ops @ concat (map (top_queue q) L)) \<and> linked q' [] \<and>
      top_queue q' = (\<lambda>k. if k \<in> set L then [] else top_queue q k) \<and> theap q' = theap q \<and>
      heap_index q' = heap_index q"
proof (induction L arbitrary: q p ops)
  case Nil
  then show ?case by (subst all_loop.simps) (simp add: linked_def)
next
  case (Cons k L)
  let ?q = "q\<lparr>timers := tnext q k, top_queue := (top_queue q)(k := []),
    tnext := (tnext q)(k := None), tprev := (tprev q)(k := None)\<rparr>"
  have "\<exists>q'. all_loop ?q (ops @ top_queue q k) = Some (q', (ops @ top_queue q k) @ concat (map (top_queue ?q) L)) \<and>
      linked q' [] \<and> top_queue q' = (\<lambda>x. if x \<in> set L then [] else top_queue ?q x) \<and> theap q' = theap ?q \<and>
      heap_index q' = heap_index ?q"
  proof (rule Cons.IH)
    show "linked_seg (tnext ?q) (tprev ?q) (Some k) L None" using Cons.prems(1,3) by simp
    show "tnext ?q x = None \<and> tprev ?q x = None" if "x \<notin> set L" for x
      using Cons.prems(4) [of x] that by auto
  qed (use Cons.prems in auto)
  moreover have "map ((top_queue q)(k := [])) L = map (top_queue q) L" using Cons.prems(1) by simp
  moreover have "all_loop q ops = all_loop ?q (ops @ top_queue q k)"
    using Cons.prems(2) by (subst all_loop.simps) simp
  ultimately show ?case by (auto simp: fun_eq_iff)
qed

lemma get_all_timers_ok:
  assumes "tq_ok q L"
  shows "\<exists>q'. get_all_timers q ops = Some (q', ops @ concat (map (top_queue q) L)) \<and> linked q' [] \<and>
    theap q' = [] \<and> top_queue q' = (\<lambda>_. [])"
proof -
  from assms all_loop_ok [of L q None ops] obtain q' where
    q': "all_loop q ops = Some (q', ops @ concat (map (top_queue q) L))" "linked q' []"
    "top_queue q' = (\<lambda>k. if k \<in> set L then [] else top_queue q k)"
    by (auto simp: tq_ok_def tq_core_def linked_def)
  with assms have "top_queue q' = (\<lambda>_. [])" by (auto simp: tq_ok_def fun_eq_iff)
  with q' show ?thesis by (auto simp: get_all_timers_def linked_def)
qed

section \<open>What the event loop relies on\<close>

text \<open>
  The queues that the operations make, used as \<^verbatim>\<open>win_iocp_io_context\<close> uses them: a timer is
  moved onto another only after the other's operations have been cancelled, and
  \<^verbatim>\<open>get_all_timers\<close> is the last call.
\<close>

inductive timer_reach :: "('t::linorder, 'k, 'op) timer_queue \<Rightarrow> bool" where
  reach_new: "timer_reach timer_queue_new"
| reach_enqueue: "timer_reach q \<Longrightarrow> heap_size q < SIZE_MAX \<Longrightarrow>
    enqueue_timer pos_inf t k op q = Inr (b, q') \<Longrightarrow> timer_reach q'"
| reach_ready: "timer_reach q \<Longrightarrow> get_ready_timers now q ops = Some (Inr (q', ops')) \<Longrightarrow> timer_reach q'"
| reach_cancel: "timer_reach q \<Longrightarrow> cancel_timer m k q ops = Inr (n, q', ops') \<Longrightarrow> timer_reach q'"
| reach_move: "timer_reach q \<Longrightarrow> target \<noteq> source \<Longrightarrow> top_queue q target = [] \<Longrightarrow>
    q' = move_timer target source q \<Longrightarrow> timer_reach q'"

inductive_cases timer_reach_elim: "timer_reach q"

lemma timer_reach_ok: "timer_reach q \<Longrightarrow> \<exists>L. tq_ok q L"
proof (induction rule: timer_reach.induct)
  case reach_new
  show ?case using tq_ok_new by blast
next
  case (reach_enqueue q inf' t k op b q')
  then obtain L where "tq_ok q L" by blast
  from enqueue_timer_ok [OF this reach_enqueue.hyps(2), of inf' t k op] obtain c r M where
    "enqueue_timer inf' t k op q = Inr (c, r)" "tq_ok r M" by blast
  with reach_enqueue.hyps(3) show ?case by auto
next
  case (reach_ready q now ops q' ops')
  then obtain L where "tq_ok q L" by blast
  from ready_loop_ok [OF this, of now ops] obtain r o' M where
    "ready_loop now q ops = Some (Inr (r, o'))" "tq_ok r M" by blast
  with reach_ready.hyps(2) show ?case by (auto simp: get_ready_timers_def)
next
  case (reach_cancel q m k ops n q' ops')
  then obtain L where "tq_ok q L" by blast
  from cancel_timer_ok [OF this, of m k ops] obtain c r o' M where
    "cancel_timer m k q ops = Inr (c, r, o')" "tq_ok r M" by blast
  with reach_cancel.hyps(2) show ?case by auto
next
  case (reach_move q target source q')
  then obtain L where L: "tq_ok q L" by blast
  then have "target \<notin> set L" using reach_move.hyps(3) by (auto simp: tq_ok_def)
  from move_timer_ok [OF L this reach_move.hyps(2)] reach_move.hyps(4) show ?case by blast
qed

text \<open>
  C20. The timer queue never looks outside its heap: whatever has been done with it, enqueuing,
  cancelling and taking the timers that are due return (the loops end). The heap is ordered (no
  entry is before its parent, so the front is the earliest), a timer that has an entry in it
  knows where it is, and the forward and backward links run through one list of distinct timers,
  which are those with operations and include those of the heap.
\<close>

theorem timer_queue_safe:
  assumes "timer_reach q"
  shows "(heap_size q < SIZE_MAX \<longrightarrow> (\<exists>r. enqueue_timer pos_inf t k op q = Inr r)) \<and>
    (\<exists>r. cancel_timer m k q ops = Inr r) \<and>
    (\<exists>r. get_ready_timers now q ops = Some (Inr r)) \<and>
    (\<exists>r. get_all_timers q ops = Some r) \<and>
    (i < heap_size q \<longrightarrow> heap_index q (snd (theap q ! i)) = i \<and> htime q 0 \<le> htime q i \<and>
      (0 < i \<longrightarrow> htime q ((i - 1) div 2) \<le> htime q i)) \<and>
    (\<exists>L. linked q L \<and> (\<forall>x. top_queue q x \<noteq> [] \<longleftrightarrow> x \<in> set L) \<and> snd ` set (theap q) \<subseteq> set L)"
proof -
  from timer_reach_ok [OF assms] obtain L where ok: "tq_ok q L" by blast
  then have "indexed q" and h: "heap_order (htime q) (heap_size q)"
    and l: "linked q L \<and> (\<forall>x. top_queue q x \<noteq> [] \<longleftrightarrow> x \<in> set L) \<and> snd ` set (theap q) \<subseteq> set L"
    by (simp_all add: tq_ok_def tq_core_def heap_ok_def ordered_def)
  then have "i < heap_size q \<Longrightarrow> heap_index q (snd (theap q ! i)) = i \<and> htime q 0 \<le> htime q i"
    using heap_order_min [of "htime q" "heap_size q" i] by (simp add: indexedD(2))
  moreover have "i < heap_size q \<Longrightarrow> 0 < i \<Longrightarrow> htime q ((i - 1) div 2) \<le> htime q i"
    using h by (simp add: heap_order_def parent_def)
  moreover have "\<exists>r. enqueue_timer pos_inf t k op q = Inr r" if "heap_size q < SIZE_MAX"
    using enqueue_timer_ok [OF ok that] by blast
  moreover have "\<exists>r. cancel_timer m k q ops = Inr r" using cancel_timer_ok [OF ok] by blast
  moreover have "\<exists>r. get_ready_timers now q ops = Some (Inr r)"
    unfolding get_ready_timers_def using ready_loop_ok [OF ok] by blast
  moreover have "\<exists>r. get_all_timers q ops = Some r" using get_all_timers_ok [OF ok] by blast
  ultimately show ?thesis using l by blast
qed

definition demo_timers :: "(nat, nat, nat) timer_queue" where
  "demo_timers = (case enqueue_timer (\<lambda>_. False) 5 0 10 timer_queue_new of Inr (_, q) \<Rightarrow>
     (case enqueue_timer (\<lambda>_. False) 3 1 11 q of Inr (_, q') \<Rightarrow> q'))"

lemma demo_timers_reach:
  "timer_reach demo_timers \<and> theap demo_timers = [(3, 1), (5, 0)] \<and>
    top_queue demo_timers = (\<lambda>_. [])(0 := [10], 1 := [11])"
proof -
  obtain q where q: "enqueue_timer (\<lambda>_. False) 5 0 10 (timer_queue_new :: (nat, nat, nat) timer_queue) = Inr (True, q)"
    "timers q = Some 0" "tprev q = (\<lambda>_. None)" "theap q = [(5, 0)]" "top_queue q = (\<lambda>_. [])(0 := [10])"
    by (simp add: enqueue_timer_def timer_queue_new_def timer_linked_def up_heap.simps link_timer_def Let_def fun_upd_idem)
  obtain q' where q': "enqueue_timer (\<lambda>_. False) 3 1 11 q = Inr (True, q')" "theap q' = [(3, 1), (5, 0)]"
    "top_queue q' = (\<lambda>_. [])(0 := [10], 1 := [11])"
    using q(2-) by (simp add: enqueue_timer_def timer_linked_def up_heap.simps [of "Suc 0"] up_heap.simps [of 0]
        swap_heap_def link_timer_def Let_def)
  have "timer_reach q" by (rule reach_enqueue [OF reach_new _ q(1)]) (simp add: timer_queue_new_def SIZE_MAX_def)
  then have "timer_reach q'" by (rule reach_enqueue [OF _ _ q'(1)]) (simp add: q(4) SIZE_MAX_def)
  with q q' show ?thesis by (simp add: demo_timers_def)
qed

lemma timer_queue_safe_witness: "\<exists>r. get_ready_timers 4 demo_timers [] = Some (Inr r)"
  using timer_queue_safe [of demo_timers "\<lambda>_. False" 0 0 0 0 "[]" 4] demo_timers_reach by blast

text \<open>
  The timers that are due, and only those, become ready: \<^verbatim>\<open>get_ready_timers\<close> appends the
  operations of the timers with an expiry time up to now, earlier timers first and each
  timer's operations in the order they were started, takes these timers off the heap, and
  leaves every other timer with its time and its operations.
\<close>

theorem ready_timers_in_order:
  assumes "timer_reach q"
  shows "\<exists>q' es. get_ready_timers now q ops = Some (Inr (q', ops @ concat (map (\<lambda>e. top_queue q (snd e)) es))) \<and>
    mset es = {#e \<in># mset (theap q). fst e \<le> now#} \<and> sorted (map fst es) \<and>
    mset (theap q') = {#e \<in># mset (theap q). now < fst e#} \<and>
    top_queue q' = (\<lambda>k. if k \<in> snd ` set es then [] else top_queue q k)"
proof -
  from timer_reach_ok [OF assms] obtain L where "tq_ok q L" by blast
  from ready_loop_ok [OF this, of now ops] show ?thesis unfolding get_ready_timers_def not_le by blast
qed

lemma ready_timers_in_order_witness:
  "\<exists>q'. get_ready_timers 4 demo_timers [] = Some (Inr (q', [11]))"
proof -
  from ready_timers_in_order [of demo_timers 4 "[]"] demo_timers_reach obtain q' es where
    r: "get_ready_timers 4 demo_timers [] = Some (Inr (q', [] @ concat (map (\<lambda>e. top_queue demo_timers (snd e)) es)))"
    and "mset es = {#(3, 1)#}" by auto
  then have "es = [(3, 1)]" by simp
  with r demo_timers_reach show ?thesis by auto
qed

text \<open>
  Cancelling: \<^verbatim>\<open>cancel_timer\<close> takes the first \<^verbatim>\<open>max_cancelled\<close> operations of the timer in
  their order, marks exactly these as aborted and returns how many they are; the timer
  keeps its entry as long as operations are left and loses it when none is, and no other
  timer changes. A timer that is moved takes its entry and its operations with it.
\<close>

theorem cancel_and_move_timer:
  assumes "timer_reach q"
  shows "(\<exists>q'. cancel_timer m k q ops = Inr (min m (length (top_queue q k)), q', ops @ take m (top_queue q k)) \<and>
      top_queue q' = (top_queue q)(k := drop m (top_queue q k)) \<and>
      {x. wait_ec q' x = Operation_aborted} = {x. wait_ec q x = Operation_aborted} \<union> set (take m (top_queue q k)) \<and>
      mset (theap q') = (if length (top_queue q k) \<le> m then {#e \<in># mset (theap q). snd e \<noteq> k#} else mset (theap q))) \<and>
    (target \<noteq> k \<and> top_queue q target = [] \<longrightarrow>
      theap (move_timer target k q) = map (\<lambda>e. (fst e, rename target k (snd e))) (theap q) \<and>
      top_queue (move_timer target k q) = (top_queue q)(target := top_queue q k, k := []))"
proof -
  from timer_reach_ok [OF assms] obtain L where ok: "tq_ok q L" by blast
  then have "target \<notin> set L" if "top_queue q target = []" using that by (auto simp: tq_ok_def)
  with move_timer_ok [OF ok, of target k] have "target \<noteq> k \<and> top_queue q target = [] \<longrightarrow>
      theap (move_timer target k q) = map (\<lambda>e. (fst e, rename target k (snd e))) (theap q) \<and>
      top_queue (move_timer target k q) = (top_queue q)(target := top_queue q k, k := [])" by blast
  moreover have "{x. (if x \<in> set c then Operation_aborted else f x) = Operation_aborted} =
      {x. f x = Operation_aborted} \<union> set c" for c and f :: "'c \<Rightarrow> wait_ec" by auto
  ultimately show ?thesis using cancel_timer_ok [OF ok, of m k ops]
    by (elim exE conjE) (intro conjI exI, simp_all add: min.commute)
qed

lemma cancel_and_move_timer_witness:
  "\<exists>q'. cancel_timer 1 0 demo_timers [] = Inr (1, q', [10]) \<and>
    theap (move_timer 7 0 demo_timers) = [(3, 1), (5, 7)]"
  using cancel_and_move_timer [of demo_timers 1 0 "[]" 7] demo_timers_reach by (auto simp: rename_def)

end
