(* ===== verification/AsioIocp.thy ===== *)
theory AsioIocp
  imports AsioTimerQueue
begin

text \<open>
  \<^verbatim>\<open>asio/detail/win_iocp_io_context.hpp\<close> and its \<^verbatim>\<open>.ipp\<close>: the event loop of an
  \<^verbatim>\<open>io_context\<close> on Windows, which the program runs on. Its state is an I/O completion port,
  a first-in first-out queue of packets kept by the system, a count of outstanding work and
  the flags that threads share; an operation is its address, its \<^verbatim>\<open>OVERLAPPED\<close> members are
  \<open>ready\<close> and \<open>result_of\<close>. What the system decides is an argument: whether posting a packet
  succeeds (\<open>ok\<close>), what \<^verbatim>\<open>GetQueuedCompletionStatus\<close> returns (\<open>gqcs\<close>), the time (\<open>now\<close>).

  Shown (here and in \<open>AsioIocpRun\<close>): the invariant of the stop event, that every operation
  is completed exactly once and counted until then, and what \<^verbatim>\<open>stop\<close> makes of a run.
\<close>

section \<open>State\<close>

datatype completion_key = Key_none | Wake_for_dispatch | Overlapped_contains_result

datatype error_category = System_category | Other_category nat

type_synonym io_error = "error_category \<times> u32"

text \<open>
  A packet: its key, the operation (none for the stop event and the wake-up), the error and
  the byte count the system found for it.
\<close>

record 'op io_packet =
  pkey :: completion_key
  overlapped :: "'op option"
  last_error :: u32
  transferred :: u32

record ('t, 'k, 'op) iocp =
  port :: "'op io_packet list"
  outstanding_work :: u32
  stopped :: bool
  stop_event_posted :: bool
  shut_down :: bool
  dispatch_required :: bool
  timer_queues :: "('t, 'k, 'op) timer_queue list"
  completed_ops :: "'op list"
  ready :: "'op \<Rightarrow> bool"
  result_of :: "'op \<Rightarrow> io_error \<times> u32"

definition new_iocp :: "('t, 'k, 'op) iocp" where
  "new_iocp = \<lparr>port = [], outstanding_work = 0, stopped = False, stop_event_posted = False,
     shut_down = False, dispatch_required = False, timer_queues = [], completed_ops = [],
     ready = \<lambda>_. False, result_of = \<lambda>_. ((System_category, 0), 0)\<rparr>"

definition op_packet :: "completion_key \<Rightarrow> 'op \<Rightarrow> 'op io_packet" where
  "op_packet k x = \<lparr>pkey = k, overlapped = Some x, last_error = 0, transferred = 0\<rparr>"

definition stop_packet :: "'op io_packet" where
  "stop_packet = \<lparr>pkey = Key_none, overlapped = None, last_error = 0, transferred = 0\<rparr>"

definition wake_packet :: "'op io_packet" where
  "wake_packet = \<lparr>pkey = Wake_for_dispatch, overlapped = None, last_error = 0, transferred = 0\<rparr>"

section \<open>Stopping and counting work\<close>

text \<open>The result of \<open>stop\<close> is whether it returns; when posting fails it throws.\<close>

definition stop :: "bool \<Rightarrow> ('t, 'k, 'op) iocp \<Rightarrow> bool \<times> ('t, 'k, 'op) iocp" where
  "stop ok s =
     (if \<not> stopped s
      then let s1 = s\<lparr>stopped := True\<rparr>
           in if \<not> stop_event_posted s1
              then let s2 = s1\<lparr>stop_event_posted := True\<rparr>
                   in if ok then (True, s2\<lparr>port := port s2 @ [stop_packet]\<rparr>) else (False, s2)
              else (True, s1)
      else (True, s))"

definition restart :: "('t, 'k, 'op) iocp \<Rightarrow> ('t, 'k, 'op) iocp" where
  "restart s = s\<lparr>stopped := False\<rparr>"

definition work_started :: "('t, 'k, 'op) iocp \<Rightarrow> ('t, 'k, 'op) iocp" where
  "work_started s = s\<lparr>outstanding_work := outstanding_work s + 1\<rparr>"

definition work_finished :: "bool \<Rightarrow> ('t, 'k, 'op) iocp \<Rightarrow> bool \<times> ('t, 'k, 'op) iocp" where
  "work_finished ok s =
     (let s1 = s\<lparr>outstanding_work := outstanding_work s - 1\<rparr>
      in if outstanding_work s1 = 0 then stop ok s1 else (True, s1))"

section \<open>Posting completions\<close>

text \<open>
  A packet that cannot be posted for lack of resources goes to \<^verbatim>\<open>completed_ops_\<close>, and the
  next thread that comes by dispatches it.
\<close>

definition put_aside :: "'op list \<Rightarrow> ('t, 'k, 'op) iocp \<Rightarrow> ('t, 'k, 'op) iocp" where
  "put_aside xs s = s\<lparr>completed_ops := completed_ops s @ xs, dispatch_required := True\<rparr>"

definition set_ready :: "'op \<Rightarrow> ('t, 'k, 'op) iocp \<Rightarrow> ('t, 'k, 'op) iocp" where
  "set_ready x s = s\<lparr>ready := (ready s)(x := True)\<rparr>"

definition post_or_aside :: "bool \<Rightarrow> completion_key \<Rightarrow> 'op \<Rightarrow> ('t, 'k, 'op) iocp \<Rightarrow> ('t, 'k, 'op) iocp" where
  "post_or_aside ok k x s =
     (if ok then s\<lparr>port := port s @ [op_packet k x]\<rparr> else put_aside [x] s)"

definition post_deferred_completion :: "bool \<Rightarrow> 'op \<Rightarrow> ('t, 'k, 'op) iocp \<Rightarrow> ('t, 'k, 'op) iocp" where
  "post_deferred_completion ok x s = post_or_aside ok Key_none x (set_ready x s)"

definition post_immediate_completion :: "bool \<Rightarrow> 'op \<Rightarrow> ('t, 'k, 'op) iocp \<Rightarrow> ('t, 'k, 'op) iocp" where
  "post_immediate_completion ok x s = post_deferred_completion ok x (work_started s)"

fun post_deferred_completions :: "('op \<Rightarrow> bool) \<Rightarrow> 'op list \<Rightarrow> ('t, 'k, 'op) iocp \<Rightarrow> ('t, 'k, 'op) iocp" where
  "post_deferred_completions ok [] s = s"
| "post_deferred_completions ok (x # ops) s =
     (let s1 = set_ready x s
      in if ok x then post_deferred_completions ok ops (s1\<lparr>port := port s1 @ [op_packet Key_none x]\<rparr>)
         else put_aside (x # ops) s1)"

text \<open>\<^verbatim>\<open>destroy\<close> frees an operation without calling its handler.\<close>

fun abandon_operations :: "'op list \<Rightarrow> ('t, 'k, 'op) iocp \<Rightarrow> 'op list \<times> ('t, 'k, 'op) iocp" where
  "abandon_operations [] s = ([], s)"
| "abandon_operations (x # ops) s =
     (let (ds, s') = abandon_operations ops (s\<lparr>outstanding_work := outstanding_work s - 1\<rparr>)
      in (x # ds, s'))"

definition on_pending :: "bool \<Rightarrow> 'op \<Rightarrow> ('t, 'k, 'op) iocp \<Rightarrow> ('t, 'k, 'op) iocp" where
  "on_pending ok x s =
     (if ready s x then post_or_aside ok Overlapped_contains_result x s else set_ready x s)"

text \<open>The two \<^verbatim>\<open>on_completion\<close>s: a system error, and an error code of any category.\<close>

definition on_completion_ec ::
  "bool \<Rightarrow> 'op \<Rightarrow> io_error \<Rightarrow> u32 \<Rightarrow> ('t, 'k, 'op) iocp \<Rightarrow> ('t, 'k, 'op) iocp" where
  "on_completion_ec ok x ec bytes s =
     (let s1 = set_ready x s;
          s2 = s1\<lparr>result_of := (result_of s1)(x := (ec, bytes))\<rparr>
      in post_or_aside ok Overlapped_contains_result x s2)"

definition on_completion ::
  "bool \<Rightarrow> 'op \<Rightarrow> u32 \<Rightarrow> u32 \<Rightarrow> ('t, 'k, 'op) iocp \<Rightarrow> ('t, 'k, 'op) iocp" where
  "on_completion ok x err bytes s =
     (let s1 = set_ready x s;
          s2 = s1\<lparr>result_of := (result_of s1)(x := ((System_category, err), bytes))\<rparr>
      in post_or_aside ok Overlapped_contains_result x s2)"

section \<open>Timers\<close>

text \<open>\<open>i\<close> is the timer queue's place in the set.\<close>

definition schedule_timer ::
  "('t \<Rightarrow> bool) \<Rightarrow> bool \<Rightarrow> nat \<Rightarrow> 't::linorder \<Rightarrow> 'k \<Rightarrow> 'op \<Rightarrow> ('t, 'k, 'op) iocp \<Rightarrow> (bool \<times> ('t, 'k, 'op) iocp) result" where
  "schedule_timer pos_inf ok i time timer x s =
     (if shut_down s then Inr (False, post_immediate_completion ok x s)
      else and_then (enqueue_timer pos_inf time timer x (timer_queues s ! i)) (\<lambda>(earliest, q).
        Inr (earliest, work_started (s\<lparr>timer_queues := (timer_queues s)[i := q]\<rparr>))))"

definition iocp_cancel_timer ::
  "('op \<Rightarrow> bool) \<Rightarrow> nat \<Rightarrow> 'k \<Rightarrow> nat \<Rightarrow> ('t::linorder, 'k, 'op) iocp \<Rightarrow> (nat \<times> ('t, 'k, 'op) iocp) result" where
  "iocp_cancel_timer ok i timer max_cancelled s =
     (if shut_down s then Inr (0, s)
      else and_then (cancel_timer max_cancelled timer (timer_queues s ! i) []) (\<lambda>(n, q, ops).
        Inr (n, post_deferred_completions ok ops (s\<lparr>timer_queues := (timer_queues s)[i := q]\<rparr>))))"

definition iocp_move_timer ::
  "('op \<Rightarrow> bool) \<Rightarrow> nat \<Rightarrow> 'k \<Rightarrow> 'k \<Rightarrow> ('t::linorder, 'k, 'op) iocp \<Rightarrow> ('t, 'k, 'op) iocp result" where
  "iocp_move_timer ok i to from' s =
     and_then (cancel_timer SIZE_MAX to (timer_queues s ! i) []) (\<lambda>(_, q, ops).
       Inr (post_deferred_completions ok ops (s\<lparr>timer_queues := (timer_queues s)[i := move_timer to from' q]\<rparr>)))"

text \<open>\<^verbatim>\<open>timer_queues_.get_ready_timers(ops)\<close>, over the queues of the set; \<open>None\<close>: it does not end.\<close>

fun ready_timers :: "'t::linorder \<Rightarrow> ('t, 'k, 'op) timer_queue list \<Rightarrow> 'op list \<Rightarrow>
    (('t, 'k, 'op) timer_queue list \<times> 'op list) option" where
  "ready_timers now [] ops = Some ([], ops)"
| "ready_timers now (q # qs) ops =
     (case get_ready_timers now q ops of
        Some (Inr (q', ops')) \<Rightarrow> map_option (\<lambda>(qs', ops''). (q' # qs', ops'')) (ready_timers now qs ops')
      | _ \<Rightarrow> None)"

fun all_timers :: "('t, 'k, 'op) timer_queue list \<Rightarrow> 'op list \<Rightarrow> (('t, 'k, 'op) timer_queue list \<times> 'op list) option" where
  "all_timers [] ops = Some ([], ops)"
| "all_timers (q # qs) ops =
     (case get_all_timers q ops of
        Some (q', ops') \<Rightarrow> map_option (\<lambda>(qs', ops''). (q' # qs', ops'')) (all_timers qs ops')
      | None \<Rightarrow> None)"

text \<open>
  \<^verbatim>\<open>do_add_timer_queue\<close> and \<^verbatim>\<open>do_remove_timer_queue\<close>; one turn of the timer thread; the
  relative time, in units of 100 ns, that \<^verbatim>\<open>update_timeout\<close> sets the waitable timer to, when
  it does.
\<close>

definition add_timer_queue :: "('t, 'k, 'op) timer_queue \<Rightarrow> ('t, 'k, 'op) iocp \<Rightarrow> ('t, 'k, 'op) iocp" where
  "add_timer_queue q s = s\<lparr>timer_queues := q # timer_queues s\<rparr>"

definition remove_timer_queue :: "nat \<Rightarrow> ('t, 'k, 'op) iocp \<Rightarrow> ('t, 'k, 'op) iocp" where
  "remove_timer_queue i s = s\<lparr>timer_queues := take i (timer_queues s) @ drop (Suc i) (timer_queues s)\<rparr>"

definition timer_thread_turn :: "bool \<Rightarrow> bool \<Rightarrow> ('t, 'k, 'op) iocp \<Rightarrow> ('t, 'k, 'op) iocp" where
  "timer_thread_turn signalled ok s =
     (if shut_down s \<or> \<not> signalled then s
      else let s1 = s\<lparr>dispatch_required := True\<rparr>
           in if ok then s1\<lparr>port := port s1 @ [wake_packet]\<rparr> else s1)"

definition max_timeout_usec :: int where
  "max_timeout_usec = 5 * 60 * 1000 * 1000"

definition update_timeout :: "int \<Rightarrow> int option" where
  "update_timeout timeout_usec =
     (if timeout_usec < max_timeout_usec then Some (- timeout_usec * 10) else None)"

section \<open>One iteration of \<open>do_one\<close>\<close>

datatype gqcs = Packet | Wait_timeout | Wait_failed u32

text \<open>
  What an iteration comes to: a handler to call with its result, another iteration, or the
  end of \<^verbatim>\<open>do_one\<close> with its value and error.
\<close>

datatype 'op outcome = Complete 'op io_error u32 | Again | Leave nat io_error

definition success :: io_error where
  "success = (System_category, 0)"

definition dispatch :: "('op \<Rightarrow> bool) \<Rightarrow> 't::linorder \<Rightarrow> ('t, 'k, 'op) iocp \<Rightarrow> ('t, 'k, 'op) iocp option" where
  "dispatch ok now s =
     (if dispatch_required s
      then let s1 = s\<lparr>dispatch_required := False\<rparr>
           in case ready_timers now (timer_queues s1) (completed_ops s1) of
                None \<Rightarrow> None
              | Some (qs, ops) \<Rightarrow>
                  Some (post_deferred_completions ok ops (s1\<lparr>completed_ops := [], timer_queues := qs\<rparr>))
      else Some s)"

text \<open>An operation: \<open>ready\<close> is exchanged for true, and only a ready operation is completed.\<close>

definition take_op :: "'op io_packet \<Rightarrow> 'op \<Rightarrow> ('t, 'k, 'op) iocp \<Rightarrow> 'op outcome \<times> ('t, 'k, 'op) iocp" where
  "take_op p x s =
     (let s1 = (if pkey p = Overlapped_contains_result then s
                else s\<lparr>result_of := (result_of s)(x := ((System_category, last_error p), transferred p))\<rparr>);
          (ec, bytes) = result_of s1 x
      in if ready s1 x then (Complete x ec bytes, s1) else (Again, set_ready x s1))"

text \<open>The stop event: \<open>perr\<close> is the error of posting it again, if there is one.\<close>

definition take_stop :: "u32 option \<Rightarrow> ('t, 'k, 'op) iocp \<Rightarrow> 'op outcome \<times> ('t, 'k, 'op) iocp" where
  "take_stop perr s =
     (let s1 = s\<lparr>stop_event_posted := False\<rparr>
      in if stopped s1
         then if \<not> stop_event_posted s1
              then let s2 = s1\<lparr>stop_event_posted := True\<rparr>
                   in case perr of
                        None \<Rightarrow> (Leave 0 success, s2\<lparr>port := port s2 @ [stop_packet]\<rparr>)
                      | Some e \<Rightarrow> (Leave 0 (System_category, e), s2)
              else (Leave 0 success, s1)
         else (Again, s1))"

text \<open>A wait for a packet that never comes is \<open>Again\<close>: the thread is where it was.\<close>

definition take_next :: "u32 option \<Rightarrow> bool \<Rightarrow> gqcs \<Rightarrow> ('t, 'k, 'op) iocp \<Rightarrow> 'op outcome \<times> ('t, 'k, 'op) iocp" where
  "take_next perr forever g s =
     (case g of
        Wait_timeout \<Rightarrow> if forever then (Again, s) else (Leave 0 success, s)
      | Wait_failed e \<Rightarrow> (Leave 0 (System_category, e), s)
      | Packet \<Rightarrow>
          (case port s of
             [] \<Rightarrow> (Again, s)
           | p # ps \<Rightarrow>
               let s1 = s\<lparr>port := ps\<rparr>
               in case overlapped p of
                    Some x \<Rightarrow> take_op p x s1
                  | None \<Rightarrow> if pkey p = Wake_for_dispatch then (Again, s1) else take_stop perr s1))"

section \<open>Running\<close>

text \<open>
  One turn of a loop: what the system answers in it, and what other threads and the system
  do to the shared state before it (\<open>meanwhile\<close>).
\<close>

record ('t, 'k, 'op) turn =
  posts :: "'op \<Rightarrow> bool"
  clock :: 't
  stop_post :: "u32 option"
  wait :: gqcs
  meanwhile :: "('t, 'k, 'op) iocp \<Rightarrow> ('t, 'k, 'op) iocp"

type_synonym ('t, 'k, 'op) handler = "'op \<Rightarrow> io_error \<Rightarrow> u32 \<Rightarrow> ('t, 'k, 'op) iocp \<Rightarrow> ('t, 'k, 'op) iocp"

definition iteration ::
  "bool \<Rightarrow> ('t::linorder, 'k, 'op) turn \<Rightarrow> ('t, 'k, 'op) iocp \<Rightarrow> ('op outcome \<times> ('t, 'k, 'op) iocp) option" where
  "iteration forever t s =
     map_option (take_next (stop_post t) forever (wait t)) (dispatch (posts t) (clock t) (meanwhile t s))"

text \<open>
  \<open>None\<close>: still inside after these turns. The handler may do anything to the state; the work
  is finished when it has returned.
\<close>

fun do_one ::
  "('t::linorder, 'k, 'op) handler \<Rightarrow> bool \<Rightarrow> ('t, 'k, 'op) turn list \<Rightarrow> ('t, 'k, 'op) iocp \<Rightarrow>
    (nat \<times> io_error \<times> ('t, 'k, 'op) turn list \<times> ('t, 'k, 'op) iocp) option" where
  "do_one h forever [] s = None"
| "do_one h forever (t # ts) s =
     (case iteration forever t s of
        None \<Rightarrow> None
      | Some (Complete x ec bytes, s1) \<Rightarrow>
          Some (1, success, ts, snd (work_finished (stop_post t = None) (h x ec bytes s1)))
      | Some (Again, s1) \<Rightarrow> do_one h forever ts s1
      | Some (Leave n ec, s1) \<Rightarrow> Some (n, ec, ts, s1))"

lemma do_one_turns: "do_one h forever ts s = Some (n, ec, ts', s') \<Longrightarrow> length ts' < length ts"
  by (induction ts arbitrary: s) (fastforce split: option.splits outcome.splits prod.splits)+

function run_loop ::
  "('t::linorder, 'k, 'op) handler \<Rightarrow> bool \<Rightarrow> nat \<Rightarrow> ('t, 'k, 'op) turn list \<Rightarrow> ('t, 'k, 'op) iocp \<Rightarrow>
    (nat \<times> io_error \<times> ('t, 'k, 'op) turn list \<times> ('t, 'k, 'op) iocp) option" where
  "run_loop h forever n ts s =
     (case do_one h forever ts s of
        None \<Rightarrow> None
      | Some (r, ec, ts', s') \<Rightarrow>
          if r \<noteq> 0 then run_loop h forever (if n \<noteq> SIZE_MAX then n + 1 else n) ts' s'
          else Some (n, ec, ts', s'))"
  by auto
termination
  by (relation "measure (\<lambda>(h, i, n, ts, s). length ts)") (auto dest: do_one_turns)

declare run_loop.simps [simp del]

text \<open>The five entry points: with no work outstanding they stop the loop and return 0.\<close>

definition no_work_guard where
  "no_work_guard ok ts s body =
     (if outstanding_work s = 0 then Some (0, success, ts, snd (stop ok s)) else body)"

definition run where
  "run ok h ts s = no_work_guard ok ts s (run_loop h True 0 ts s)"

definition run_one where
  "run_one ok h ts s = no_work_guard ok ts s (do_one h True ts s)"

definition wait_one where
  "wait_one ok h usec ts s = no_work_guard ok ts s (do_one h (usec < (0 :: int)) ts s)"

definition poll where
  "poll ok h ts s = no_work_guard ok ts s (run_loop h False 0 ts s)"

definition poll_one where
  "poll_one ok h ts s = no_work_guard ok ts s (do_one h False ts s)"

text \<open>
  \<^verbatim>\<open>shutdown\<close> destroys operations until none is outstanding; the result is which, in order.
  (No thread of its own: the program's contexts have none.)
\<close>

partial_function (option) shutdown_loop ::
  "gqcs list \<Rightarrow> 'op list \<Rightarrow> ('t, 'k, 'op) iocp \<Rightarrow> ('op list \<times> ('t, 'k, 'op) iocp) option" where
  "shutdown_loop gs destroyed s =
     (if \<not> 0 <s outstanding_work s then Some (destroyed, s)
      else case all_timers (timer_queues s) [] of
        None \<Rightarrow> None
      | Some (qs, tops) \<Rightarrow>
          let ops = tops @ completed_ops s;
              s1 = s\<lparr>timer_queues := qs, completed_ops := []\<rparr>
          in if ops \<noteq> []
             then shutdown_loop gs (destroyed @ ops) (s1\<lparr>outstanding_work := outstanding_work s1 - of_nat (length ops)\<rparr>)
             else case gs of
                [] \<Rightarrow> None
              | g # gs' \<Rightarrow>
                  if g = Packet
                  then (case port s1 of
                     [] \<Rightarrow> shutdown_loop gs' destroyed s1
                   | p # ps \<Rightarrow>
                       (case overlapped p of
                          None \<Rightarrow> shutdown_loop gs' destroyed (s1\<lparr>port := ps\<rparr>)
                        | Some x \<Rightarrow> shutdown_loop gs' (destroyed @ [x])
                            (s1\<lparr>port := ps, outstanding_work := outstanding_work s1 - 1\<rparr>)))
                  else shutdown_loop gs' destroyed s1)"

definition shutdown :: "gqcs list \<Rightarrow> ('t, 'k, 'op) iocp \<Rightarrow> ('op list \<times> ('t, 'k, 'op) iocp) option" where
  "shutdown gs s = shutdown_loop gs [] (s\<lparr>shut_down := True\<rparr>)"

end
