(* ===== verification/AsioIocpRun.thy ===== *)
theory AsioIocpRun
  imports AsioIocp
begin

text \<open>
  The event loop of \<open>AsioIocp\<close> shared by any number of threads: the calls that start
  operations, the system that finishes them, the threads inside \<^verbatim>\<open>do_one\<close>, in any order. Each
  operation has a phase; \<open>In_flight i c\<close> is an overlapped operation whose initiating function
  has (\<open>i\<close>) or has not yet called \<^verbatim>\<open>on_pending\<close> or \<^verbatim>\<open>on_completion\<close>, and whose packet the
  system has (\<open>c\<close>) or has not yet posted. Posting the stop event succeeds here; posting
  operations may fail.
\<close>

section \<open>The system\<close>

datatype phase = Unused | Waiting | Posted | In_flight bool bool | Running | Finished

record ('t, 'k, 'op) loop_sys =
  io :: "('t, 'k, 'op) iocp"
  phase :: "'op \<Rightarrow> phase"
  called :: "'op list"

abbreviation move_to :: "phase \<Rightarrow> 'op set \<Rightarrow> ('op \<Rightarrow> phase) \<Rightarrow> 'op \<Rightarrow> phase" where
  "move_to ph X f \<equiv> (\<lambda>x. if x \<in> X then ph else f x)"

inductive loop_step :: "('t::linorder, 'k, 'op) loop_sys \<Rightarrow> ('t, 'k, 'op) loop_sys \<Rightarrow> bool" where
  post: "phase S x = Unused \<Longrightarrow>
    loop_step S (S\<lparr>io := post_immediate_completion ok x (io S), phase := (phase S)(x := Posted)\<rparr>)"
| schedule: "phase S x = Unused \<Longrightarrow>
    loop_step S (S\<lparr>io := work_started (io S), phase := (phase S)(x := Waiting)\<rparr>)"
| cancel: "distinct xs \<Longrightarrow> phase S ` set xs \<subseteq> {Waiting} \<Longrightarrow>
    loop_step S (S\<lparr>io := post_deferred_completions okf xs (io S), phase := move_to Posted (set xs) (phase S)\<rparr>)"
| initiate: "phase S x = Unused \<Longrightarrow>
    loop_step S (S\<lparr>io := work_started (io S), phase := (phase S)(x := In_flight False False)\<rparr>)"
| deliver: "phase S x = In_flight i False \<Longrightarrow>
    loop_step S (S\<lparr>io := (io S)\<lparr>port := port (io S) @ [\<lparr>pkey = Key_none, overlapped = Some x, last_error = e, transferred = n\<rparr>]\<rparr>,
      phase := (phase S)(x := In_flight i True)\<rparr>)"
| pending: "phase S x = In_flight False c \<Longrightarrow>
    loop_step S (S\<lparr>io := on_pending ok x (io S), phase := (phase S)(x := In_flight True c)\<rparr>)"
| immediate: "phase S x = In_flight False False \<Longrightarrow>
    loop_step S (S\<lparr>io := on_completion_ec ok x ec n (io S), phase := (phase S)(x := In_flight True True)\<rparr>)"
| dispatch_due: "dispatch_required (io S) \<Longrightarrow> distinct xs \<Longrightarrow> phase S ` set xs \<subseteq> {Waiting} \<Longrightarrow>
    loop_step S (S\<lparr>io := post_deferred_completions okf (completed_ops (io S) @ xs)
        ((io S)\<lparr>dispatch_required := False, completed_ops := [], timer_queues := qs\<rparr>),
      phase := move_to Posted (set xs) (phase S)\<rparr>)"
| take_on: "take_next None forever g (io S) = (r, s') \<Longrightarrow> (\<And>x ec n. r \<noteq> Complete x ec n) \<Longrightarrow>
    loop_step S (S\<lparr>io := s'\<rparr>)"
| take_call: "take_next None forever g (io S) = (Complete x ec n, s') \<Longrightarrow>
    loop_step S (S\<lparr>io := s', phase := (phase S)(x := Running), called := called S @ [x]\<rparr>)"
| finish: "phase S x = Running \<Longrightarrow>
    loop_step S (S\<lparr>io := snd (work_finished True (io S)), phase := (phase S)(x := Finished)\<rparr>)"
| stopping: "loop_step S (S\<lparr>io := snd (stop True (io S))\<rparr>)"
| restarting: "loop_step S (S\<lparr>io := restart (io S)\<rparr>)"
| timer_thread: "loop_step S (S\<lparr>io := timer_thread_turn signalled ok (io S)\<rparr>)"

inductive_cases loop_step_elim: "loop_step S T"

definition loop_start :: "('t, 'k, 'op) loop_sys" where
  "loop_start = \<lparr>io = new_iocp, phase = \<lambda>_. Unused, called = []\<rparr>"

inductive loop_reach :: "('t::linorder, 'k, 'op) loop_sys \<Rightarrow> bool" where
  loop_init: "loop_reach loop_start"
| loop_more: "loop_reach S \<Longrightarrow> loop_step S T \<Longrightarrow> loop_reach T"

section \<open>Where the operations are\<close>

text \<open>The operations in the port and those put aside.\<close>

definition located :: "('t, 'k, 'op) iocp \<Rightarrow> 'op multiset" where
  "located s = mset (List.map_filter overlapped (port s)) + mset (completed_ops s)"

definition in_port :: "('t, 'k, 'op) iocp \<Rightarrow> 'op set" where
  "in_port s = set (List.map_filter overlapped (port s))"

definition stop_events :: "('t, 'k, 'op) iocp \<Rightarrow> nat" where
  "stop_events s = length (filter (\<lambda>p. overlapped p = None \<and> pkey p \<noteq> Wake_for_dispatch) (port s))"

definition stop_ok :: "('t, 'k, 'op) iocp \<Rightarrow> bool" where
  "stop_ok s \<longleftrightarrow> stop_events s = (if stop_event_posted s then 1 else 0) \<and> (stopped s \<longrightarrow> stop_event_posted s) \<and>
     (completed_ops s \<noteq> [] \<longrightarrow> dispatch_required s)"

lemma map_filter_append [simp]: "List.map_filter f (xs @ ys) = List.map_filter f xs @ List.map_filter f ys"
  by (induction xs) (simp_all add: List.map_filter_simps split: option.splits)

lemmas place_defs = located_def in_port_def stop_events_def List.map_filter_simps op_packet_def stop_packet_def
  wake_packet_def

lemma located_simps [simp]:
  "located (s\<lparr>outstanding_work := w\<rparr>) = located s" "located (s\<lparr>ready := f\<rparr>) = located s"
  "located (s\<lparr>result_of := r\<rparr>) = located s" "located (s\<lparr>stopped := b\<rparr>) = located s"
  "located (s\<lparr>stop_event_posted := b\<rparr>) = located s" "located (s\<lparr>dispatch_required := b\<rparr>) = located s"
  "located (s\<lparr>timer_queues := q\<rparr>) = located s"
  by (simp_all add: located_def)

lemma in_port_simps [simp]:
  "in_port (s\<lparr>outstanding_work := w\<rparr>) = in_port s" "in_port (s\<lparr>ready := f\<rparr>) = in_port s"
  "in_port (s\<lparr>result_of := r\<rparr>) = in_port s" "in_port (s\<lparr>stopped := b\<rparr>) = in_port s"
  "in_port (s\<lparr>stop_event_posted := b\<rparr>) = in_port s" "in_port (s\<lparr>dispatch_required := b\<rparr>) = in_port s"
  "in_port (s\<lparr>timer_queues := q\<rparr>) = in_port s" "in_port (s\<lparr>completed_ops := c\<rparr>) = in_port s"
  by (simp_all add: in_port_def)

lemma stop_ok_simps [simp]:
  "stop_ok (s\<lparr>outstanding_work := w\<rparr>) = stop_ok s" "stop_ok (s\<lparr>ready := f\<rparr>) = stop_ok s"
  "stop_ok (s\<lparr>result_of := r\<rparr>) = stop_ok s" "stop_ok (s\<lparr>timer_queues := q\<rparr>) = stop_ok s"
  by (simp_all add: stop_ok_def stop_events_def)

lemma in_port_located: "x \<in> in_port s \<Longrightarrow> x \<in># located s"
  by (simp add: located_def in_port_def)

text \<open>What each operation of the loop does to the places, the ready flags and the stop event.\<close>

lemma post_or_aside_places:
  "located (post_or_aside ok k x s) = add_mset x (located s)"
  "in_port (post_or_aside ok k x s) = (if ok then insert x (in_port s) else in_port s)"
  "completed_ops (post_or_aside ok k x s) = completed_ops s @ (if ok then [] else [x])"
  "ready (post_or_aside ok k x s) = ready s"
  "outstanding_work (post_or_aside ok k x s) = outstanding_work s"
  "stop_ok s \<Longrightarrow> stop_ok (post_or_aside ok k x s)"
  by (auto simp: post_or_aside_def put_aside_def place_defs stop_ok_def)

lemma set_ready_places [simp]:
  "located (set_ready x s) = located s" "in_port (set_ready x s) = in_port s"
  "completed_ops (set_ready x s) = completed_ops s" "ready (set_ready x s) = (ready s)(x := True)"
  "outstanding_work (set_ready x s) = outstanding_work s" "stop_ok (set_ready x s) = stop_ok s"
  by (simp_all add: set_ready_def stop_ok_def place_defs)

lemma stop_places:
  "located (snd (stop True s)) = located s" "in_port (snd (stop True s)) = in_port s"
  "completed_ops (snd (stop True s)) = completed_ops s" "ready (snd (stop True s)) = ready s"
  "outstanding_work (snd (stop True s)) = outstanding_work s" "stop_ok s \<Longrightarrow> stop_ok (snd (stop True s))"
  by (auto simp: stop_def Let_def place_defs stop_ok_def)

lemma timer_thread_places:
  "located (timer_thread_turn sg ok s) = located s" "in_port (timer_thread_turn sg ok s) = in_port s"
  "completed_ops (timer_thread_turn sg ok s) = completed_ops s" "ready (timer_thread_turn sg ok s) = ready s"
  "outstanding_work (timer_thread_turn sg ok s) = outstanding_work s"
  "stop_ok s \<Longrightarrow> stop_ok (timer_thread_turn sg ok s)"
  by (auto simp: timer_thread_turn_def Let_def place_defs stop_ok_def)

lemma post_deferred_all:
  "located (post_deferred_completions ok xs s) = mset xs + located s \<and>
   outstanding_work (post_deferred_completions ok xs s) = outstanding_work s \<and>
   set (completed_ops (post_deferred_completions ok xs s)) \<subseteq> set (completed_ops s) \<union> set xs \<and>
   (\<forall>y. ready s y \<longrightarrow> ready (post_deferred_completions ok xs s) y) \<and>
   (\<forall>y. ready (post_deferred_completions ok xs s) y \<longrightarrow> ready s y \<or> y \<in> set xs) \<and>
   (\<forall>y \<in> in_port (post_deferred_completions ok xs s).
      y \<in> in_port s \<or> y \<in> set xs \<and> ready (post_deferred_completions ok xs s) y) \<and>
   (stop_ok s \<longrightarrow> stop_ok (post_deferred_completions ok xs s))"
proof (induction xs arbitrary: s)
  case (Cons x xs)
  let ?s = "(set_ready x s)\<lparr>port := port (set_ready x s) @ [op_packet Key_none x]\<rparr>"
  have places: "located ?s = add_mset x (located s)" "in_port ?s = insert x (in_port s)"
    "completed_ops ?s = completed_ops s" "outstanding_work ?s = outstanding_work s"
    "ready ?s = (ready s)(x := True)" "stop_ok s \<Longrightarrow> stop_ok ?s"
    by (auto simp: set_ready_def place_defs stop_ok_def)
  show ?case
  proof (cases "ok x")
    case True
    then have "post_deferred_completions ok (x # xs) s = post_deferred_completions ok xs ?s" by (simp add: Let_def)
    moreover note Cons.IH [of ?s, unfolded places]
    moreover have "ready (post_deferred_completions ok xs ?s) x" using Cons.IH [of ?s] places(5) by simp
    ultimately show ?thesis using places(6) by (auto split: if_splits)
  next
    case False
    then have "post_deferred_completions ok (x # xs) s = put_aside (x # xs) (set_ready x s)" by (simp add: Let_def)
    then show ?thesis by (auto simp: put_aside_def set_ready_def place_defs stop_ok_def)
  qed
qed simp

lemma post_deferred_places:
  "located (post_deferred_completions ok xs s) = mset xs + located s"
  "outstanding_work (post_deferred_completions ok xs s) = outstanding_work s"
  "set (completed_ops (post_deferred_completions ok xs s)) \<subseteq> set (completed_ops s) \<union> set xs"
  "ready s y \<Longrightarrow> ready (post_deferred_completions ok xs s) y"
  "ready (post_deferred_completions ok xs s) y \<Longrightarrow> ready s y \<or> y \<in> set xs"
  "y \<in> in_port (post_deferred_completions ok xs s) \<Longrightarrow>
    y \<in> in_port s \<or> y \<in> set xs \<and> ready (post_deferred_completions ok xs s) y"
  "stop_ok s \<Longrightarrow> stop_ok (post_deferred_completions ok xs s)"
  using post_deferred_all [of ok xs s] by blast+

lemma take_op_places:
  assumes "take_op p x s = (r, s')"
  shows "port s' = port s" "completed_ops s' = completed_ops s" "outstanding_work s' = outstanding_work s"
    "stopped s' = stopped s" "stop_event_posted s' = stop_event_posted s"
    "dispatch_required s' = dispatch_required s"
    "ready s' = (ready s)(x := True)" "(\<exists>ec n. r = Complete x ec n) \<longleftrightarrow> ready s x"
    "r = Again \<or> (\<exists>ec n. r = Complete x ec n)"
  using assms by (auto simp: take_op_def set_ready_def Let_def split: if_splits prod.splits)

lemma take_stop_places:
  assumes "take_stop None s = (r, s')"
  shows "port s' = port s @ (if stopped s then [stop_packet] else [])" "completed_ops s' = completed_ops s"
    "outstanding_work s' = outstanding_work s" "stopped s' = stopped s" "stop_event_posted s' = stopped s"
    "dispatch_required s' = dispatch_required s" "ready s' = ready s" "r \<noteq> Complete x ec n"
    "r = (if stopped s then Leave 0 success else Again)"
  using assms by (auto simp: take_stop_def Let_def split: if_splits)

text \<open>What a packet taken from the port makes of the loop.\<close>

lemma take_next_cases:
  assumes "take_next None forever g s = (r, s')"
  obtains (Nothing) "s' = s" "\<And>x ec n. r \<noteq> Complete x ec n"
  | (Op) p ps x where "port s = p # ps" "overlapped p = Some x" "take_op p x (s\<lparr>port := ps\<rparr>) = (r, s')"
  | (Wake) p ps where "port s = p # ps" "overlapped p = None" "pkey p = Wake_for_dispatch" "s' = s\<lparr>port := ps\<rparr>" "r = Again"
  | (Stop) p ps where "port s = p # ps" "overlapped p = None" "pkey p \<noteq> Wake_for_dispatch"
      "take_stop None (s\<lparr>port := ps\<rparr>) = (r, s')"
proof (cases g)
  case Packet
  show ?thesis
  proof (cases "port s")
    case Nil
    with Packet assms show ?thesis by (intro Nothing) (auto simp: take_next_def)
  next
    case (Cons p ps)
    with Packet assms Op Wake Stop show ?thesis
      by (cases "overlapped p"; cases "pkey p = Wake_for_dispatch") (auto simp: take_next_def)
  qed
next
  case Wait_timeout
  with assms show ?thesis by (intro Nothing) (auto simp: take_next_def split: if_splits)
next
  case (Wait_failed e)
  with assms show ?thesis by (intro Nothing) (auto simp: take_next_def)
qed

lemma take_next_places:
  assumes t: "take_next None forever g s = (r, s')"
  shows "outstanding_work s' = outstanding_work s \<and> completed_ops s' = completed_ops s \<and>
    in_port s' \<subseteq> in_port s \<and> (stop_ok s \<longrightarrow> stop_ok s') \<and>
    (case r of
       Complete x _ _ \<Rightarrow> ready s x \<and> x \<in> in_port s \<and> located s = add_mset x (located s') \<and> ready s' = ready s
     | _ \<Rightarrow> (\<exists>y. \<not> ready s y \<and> y \<in> in_port s \<and> located s = add_mset y (located s') \<and> ready s' = (ready s)(y := True)) \<or>
         located s' = located s \<and> ready s' = ready s)"
  using t
proof (cases rule: take_next_cases)
  case Nothing
  then show ?thesis by (cases r) auto
next
  case (Op p ps x)
  note o = take_op_places [OF Op(3)]
  have "in_port s = insert x (in_port s')" "located s = add_mset x (located s')" "stop_ok s \<longrightarrow> stop_ok s'"
    using Op(1,2) o by (simp_all add: place_defs stop_ok_def)
  with o show ?thesis
    by (cases r) (auto simp: fun_upd_idem)
next
  case (Wake p ps)
  then show ?thesis by (simp add: place_defs stop_ok_def)
next
  case (Stop p ps)
  note o = take_stop_places [OF Stop(4)]
  have "in_port s = in_port s'" "located s = located s'" "stop_ok s \<longrightarrow> stop_ok s'"
    using Stop(1,2,3) o by (auto simp: place_defs stop_ok_def split: if_splits)
  with o show ?thesis by (cases r) auto
qed

section \<open>The invariant\<close>

text \<open>In how many places an operation is, and what its ready flag can be, in each phase.\<close>

fun places :: "phase \<Rightarrow> bool \<Rightarrow> nat" where
  "places Posted r = 1"
| "places (In_flight i c) r = (if \<not> c then 0 else if i \<or> \<not> r then 1 else 0)"
| "places _ r = 0"

fun ready_ok :: "phase \<Rightarrow> bool \<Rightarrow> bool" where
  "ready_ok (In_flight i c) r \<longleftrightarrow> (i \<longrightarrow> r) \<and> (\<not> i \<and> \<not> c \<longrightarrow> \<not> r)"
| "ready_ok Unused r \<longleftrightarrow> \<not> r"
| "ready_ok _ r \<longleftrightarrow> True"

definition place_inv :: "('t, 'k, 'op) loop_sys \<Rightarrow> bool" where
  "place_inv S \<longleftrightarrow> (\<forall>x. count (located (io S)) x = places (phase S x) (ready (io S) x)) \<and>
     (\<forall>x. ready_ok (phase S x) (ready (io S) x)) \<and>
     (\<forall>x \<in> in_port (io S). phase S x = In_flight False True \<or> ready (io S) x) \<and>
     (\<forall>x \<in> set (completed_ops (io S)). phase S x \<noteq> In_flight False True)"

definition live :: "('t, 'k, 'op) loop_sys \<Rightarrow> 'op set" where
  "live S = {x. phase S x \<noteq> Unused \<and> phase S x \<noteq> Finished}"

definition work_inv :: "('t, 'k, 'op) loop_sys \<Rightarrow> bool" where
  "work_inv S \<longleftrightarrow> finite (live S) \<and> outstanding_work (io S) = of_nat (card (live S))"

definition call_inv :: "('t, 'k, 'op) loop_sys \<Rightarrow> bool" where
  "call_inv S \<longleftrightarrow> distinct (called S) \<and> set (called S) = {x. phase S x = Running \<or> phase S x = Finished}"

lemma place_invD:
  assumes "place_inv S"
  shows "count (located (io S)) x = places (phase S x) (ready (io S) x)"
    and "ready_ok (phase S x) (ready (io S) x)"
    and "x \<in> in_port (io S) \<Longrightarrow> phase S x = In_flight False True \<or> ready (io S) x"
    and "x \<in> set (completed_ops (io S)) \<Longrightarrow> phase S x \<noteq> In_flight False True"
  using assms by (auto simp: place_inv_def)

text \<open>An operation in the port or put aside is posted or has been delivered.\<close>

lemma place_inv_placed:
  assumes "place_inv S" and "x \<in># located (io S)"
  shows "phase S x = Posted \<or> phase S x = In_flight True True \<or>
    phase S x = In_flight False True \<and> \<not> ready (io S) x"
proof -
  have "places (phase S x) (ready (io S) x) > 0"
    using assms by (simp add: place_invD(1) [symmetric])
  then show ?thesis by (cases "(phase S x, ready (io S) x)" rule: places.cases) (auto split: if_splits)
qed

lemma completed_located: "x \<in> set (completed_ops s) \<Longrightarrow> x \<in># located s"
  by (simp add: located_def)

text \<open>A step that changes the phase of one operation.\<close>

lemma place_inv_update:
  assumes inv: "place_inv S"
    and loc: "located s' = located (io S) + (if placed then {#x#} else {#})"
    and rdy: "\<And>y. y \<noteq> x \<Longrightarrow> ready s' y = ready (io S) y"
    and x: "places (phase S x) (ready (io S) x) + (if placed then 1 else 0) = places ph (ready s' x)"
      "ready_ok ph (ready s' x)"
    and port: "in_port s' \<subseteq> insert x (in_port (io S))"
    and xport: "x \<in> in_port s' \<Longrightarrow> ph = In_flight False True \<or> ready s' x"
    and comp: "set (completed_ops s') \<subseteq> insert x (set (completed_ops (io S)))"
    and xcomp: "x \<in> set (completed_ops s') \<Longrightarrow> ph \<noteq> In_flight False True"
  shows "place_inv (S\<lparr>io := s', phase := (phase S)(x := ph)\<rparr>)"
proof -
  have "count (located s') y = places (((phase S)(x := ph)) y) (ready s' y)" for y
    using place_invD(1) [OF inv, of y] rdy [of y] x(1) by (auto simp: loc)
  moreover have "ready_ok (((phase S)(x := ph)) y) (ready s' y)" for y
    using place_invD(2) [OF inv, of y] rdy [of y] x(2) by auto
  moreover have "((phase S)(x := ph)) y = In_flight False True \<or> ready s' y" if "y \<in> in_port s'" for y
    using place_invD(3) [OF inv, of y] rdy [of y] xport port that by auto
  moreover have "((phase S)(x := ph)) y \<noteq> In_flight False True" if "y \<in> set (completed_ops s')" for y
    using place_invD(4) [OF inv, of y] xcomp comp that by auto
  ultimately show ?thesis unfolding place_inv_def by simp
qed

text \<open>A step that posts some of the waiting operations, those put aside among them or not.\<close>

lemma place_inv_post_deferred:
  assumes inv: "place_inv S" and xs: "distinct xs" "phase S ` set xs \<subseteq> {Waiting}"
    and s: "located (io S) = located s + mset ys" "ready s = ready (io S)"
      "in_port s \<subseteq> in_port (io S)" "set (completed_ops s) \<subseteq> set (completed_ops (io S))"
    and ys: "set ys \<subseteq> set (completed_ops (io S))"
  shows "place_inv (S\<lparr>io := post_deferred_completions okf (ys @ xs) s, phase := move_to Posted (set xs) (phase S)\<rparr>)"
proof -
  let ?s' = "post_deferred_completions okf (ys @ xs) s"
  note p = post_deferred_places [where ok = okf and xs = "ys @ xs" and s = s]
  have w: "phase S x = Waiting" if "x \<in> set xs" for x using xs(2) that by auto
  have yph: "phase S x = Posted \<or> phase S x = In_flight True True" if "x \<in> set ys" for x
    using place_inv_placed [OF inv, of x] place_invD(4) [OF inv, of x] that ys completed_located [of x "io S"] by auto
  have same: "ready ?s' x = ready (io S) x" if "x \<notin> set xs" "x \<notin> set ys" for x
    using p(4,5) [where y = x] s(2) that by auto
  have "count (located ?s') x = places (move_to Posted (set xs) (phase S) x) (ready ?s' x)" for x
  proof -
    have c: "count (located ?s') x = count (mset xs) x + places (phase S x) (ready (io S) x)"
      using place_invD(1) [OF inv, of x] unfolding p(1) s(1) by simp
    show ?thesis
    proof (cases "x \<in> set xs")
      case True
      then have "count (mset xs) x = 1" using xs(1) by (simp add: count_mset_0_iff distinct_count_atmost_1)
      with c True w show ?thesis by simp
    next
      case False
      then have "count (mset xs) x = 0" by (simp add: count_mset_0_iff)
      moreover have "places (phase S x) (ready ?s' x) = places (phase S x) (ready (io S) x)"
        using same [of x] yph [of x] False by (cases "x \<in> set ys") auto
      ultimately show ?thesis using c False by simp
    qed
  qed
  moreover have "ready_ok (move_to Posted (set xs) (phase S) x) (ready ?s' x)" for x
    using place_invD(2) [OF inv, of x] p(4) [where y = x] s(2) yph [of x] same [of x]
    by (cases "x \<in> set ys") auto
  moreover have "move_to Posted (set xs) (phase S) x = In_flight False True \<or> ready ?s' x" if "x \<in> in_port ?s'" for x
    using p(6) [OF that] place_invD(3) [OF inv, of x] s(2,3) p(4) [where y = x] w [of x] by auto
  moreover have "move_to Posted (set xs) (phase S) x \<noteq> In_flight False True" if "x \<in> set (completed_ops ?s')" for x
    using that p(3) s(4) place_invD(4) [OF inv, of x] ys by auto
  ultimately show ?thesis unfolding place_inv_def by simp
qed

lemma place_inv_io: "place_inv S \<Longrightarrow> phase T = phase S \<Longrightarrow> located (io T) = located (io S) \<Longrightarrow> in_port (io T) \<subseteq> in_port (io S) \<Longrightarrow>
    completed_ops (io T) = completed_ops (io S) \<Longrightarrow> ready (io T) = ready (io S) \<Longrightarrow> place_inv T"
  by (auto simp: place_inv_def)

lemmas io_places = post_or_aside_places stop_places timer_thread_places
  post_immediate_completion_def post_deferred_completion_def work_started_def on_pending_def
  on_completion_ec_def work_finished_def Let_def

lemma work_started_places [simp]:
  "located (work_started s) = located s" "in_port (work_started s) = in_port s"
  "completed_ops (work_started s) = completed_ops s" "ready (work_started s) = ready s"
  "outstanding_work (work_started s) = outstanding_work s + 1" "stop_ok (work_started s) = stop_ok s"
  by (simp_all add: work_started_def stop_ok_def place_defs)

lemma finished_places:
  "located (snd (work_finished True s)) = located s" "in_port (snd (work_finished True s)) = in_port s"
  "completed_ops (snd (work_finished True s)) = completed_ops s" "ready (snd (work_finished True s)) = ready s"
  "outstanding_work (snd (work_finished True s)) = outstanding_work s - 1"
  "stop_ok s \<Longrightarrow> stop_ok (snd (work_finished True s))"
  by (auto simp: work_finished_def Let_def stop_places stop_ok_def stop_def place_defs)

lemma place_inv_step: "loop_step S T \<Longrightarrow> place_inv S \<Longrightarrow> place_inv T"
proof (induction rule: loop_step.induct)
  case (post S x ok)
  with place_invD [of S x] show ?case
    by (intro place_inv_update [where placed = True])
      (auto simp: post_immediate_completion_def post_deferred_completion_def post_or_aside_places)
next
  case (schedule S x)
  with place_invD [of S x] show ?case
    by (intro place_inv_update [where placed = False]) auto
next
  case (cancel xs S okf)
  then show ?case using place_inv_post_deferred [of S xs "io S" "[]" okf] by simp
next
  case (initiate S x)
  with place_invD [of S x] show ?case
    by (intro place_inv_update [where placed = False]) auto
next
  case (deliver S x i e n)
  have "x \<notin># located (io S)" using deliver place_invD(1) [of S x] by (simp add: not_in_iff)
  then have "x \<notin> in_port (io S)" "x \<notin> set (completed_ops (io S))"
    using in_port_located completed_located by fast+
  with deliver place_invD [of S x] show ?case
    by (intro place_inv_update [where placed = True]) (auto simp: place_defs)
next
  case (pending S x c ok)
  show ?case
  proof (cases "ready (io S) x")
    case True
    with pending place_invD [of S x] have "c" by auto
    with True pending place_invD [of S x] show ?thesis
      by (intro place_inv_update [where placed = True]) (auto simp: on_pending_def post_or_aside_places)
  next
    case False
    with pending place_invD [of S x] show ?thesis
      by (intro place_inv_update [where placed = False]) (auto simp: on_pending_def)
  qed
next
  case (immediate S x ok ec n)
  with place_invD [of S x] show ?case
    by (intro place_inv_update [where placed = True]) (auto simp: on_completion_ec_def Let_def post_or_aside_places)
next
  case (dispatch_due S xs okf qs)
  then show ?case using place_inv_post_deferred [of S xs "(io S)\<lparr>dispatch_required := False, completed_ops := [],
      timer_queues := qs\<rparr>" "completed_ops (io S)" okf]
    by (simp add: located_def in_port_def)
next
  case (take_on forever g S r s')
  note t = take_next_places [OF take_on.hyps(1)]
  from t take_on.hyps(2) have "(\<exists>y. \<not> ready (io S) y \<and> y \<in> in_port (io S) \<and>
      located (io S) = add_mset y (located s') \<and> ready s' = (ready (io S))(y := True)) \<or>
      located s' = located (io S) \<and> ready s' = ready (io S)" by (cases r) auto
  then show ?case
  proof (elim disjE exE conjE)
    fix y assume y: "\<not> ready (io S) y" "y \<in> in_port (io S)" "located (io S) = add_mset y (located s')"
      "ready s' = (ready (io S))(y := True)"
    then have ph: "phase S y = In_flight False True" using place_invD(3) [OF take_on.prems, of y] by blast
    have c: "count (located s') z = places (phase S z) (ready s' z)" for z
      using place_invD(1) [OF take_on.prems, of z] y ph by (cases "z = y") auto
    have "ready_ok (phase S z) (ready s' z)" for z
      using place_invD(2) [OF take_on.prems, of z] y(4) ph by auto
    moreover have "phase S z = In_flight False True \<or> ready s' z" if "z \<in> in_port s'" for z
      using place_invD(3) [OF take_on.prems, of z] t that y(4) by auto
    ultimately show ?thesis using c place_invD(4) [OF take_on.prems] t by (simp add: place_inv_def)
  next
    assume "located s' = located (io S)" "ready s' = ready (io S)"
    with t show ?thesis by (intro place_inv_io [OF take_on.prems]) auto
  qed
next
  case (take_call forever g S x ec n s')
  note t = take_next_places [OF take_call.hyps]
  from t have r: "ready (io S) x" "x \<in> in_port (io S)" "located (io S) = add_mset x (located s')"
    "ready s' = ready (io S)" by simp_all
  have "count (located (io S)) x = 1"
    using place_inv_placed [OF take_call.prems, of x] place_invD(1) [OF take_call.prems, of x] r in_port_located [of x] by auto
  then have c0: "x \<notin># located s'" using r(3) by (simp add: not_in_iff)
  then have "x \<notin> in_port s'" "x \<notin> set (completed_ops s')"
    using in_port_located [of x s'] completed_located [of x s'] by auto
  moreover have "count (located s') y = places (((phase S)(x := Running)) y) (ready s' y)" for y
    using place_invD(1) [OF take_call.prems, of y] c0 r(3,4) by (auto simp: not_in_iff)
  moreover have "phase S y = In_flight False True \<or> ready s' y" if "y \<in> in_port s'" for y
    using place_invD(3) [OF take_call.prems, of y] t that by auto
  moreover have "completed_ops s' = completed_ops (io S)" using t by simp
  ultimately show ?case using place_invD(2,4) [OF take_call.prems] r(4) unfolding place_inv_def by simp
next
  case (finish S x)
  with place_invD [of S x] show ?case
    by (intro place_inv_update [where placed = False]) (auto simp: finished_places)
next
  case (stopping S)
  show ?case by (rule place_inv_io [OF stopping.prems]) (simp_all add: stop_places)
next
  case (restarting S)
  show ?case by (rule place_inv_io [OF restarting.prems]) (simp_all add: restart_def located_def in_port_def)
next
  case (timer_thread S sg ok)
  show ?case by (rule place_inv_io [OF timer_thread.prems]) (simp_all add: timer_thread_places)
qed

lemma stop_ok_step: "loop_step S T \<Longrightarrow> stop_ok (io S) \<Longrightarrow> stop_ok (io T)"
proof (induction rule: loop_step.induct)
  case (deliver S x i e n)
  then show ?case by (simp add: stop_ok_def place_defs)
next
  case (dispatch_due S xs okf qs)
  then have "stop_ok ((io S)\<lparr>dispatch_required := False, completed_ops := [], timer_queues := qs\<rparr>)"
    by (simp add: stop_ok_def place_defs)
  then show ?case by (simp add: post_deferred_places(7))
next
  case (take_on forever g S r s')
  then show ?case using take_next_places by simp blast
next
  case (take_call forever g S x ec n s')
  then show ?case using take_next_places by simp blast
next
  case (restarting S)
  then show ?case by (simp add: stop_ok_def restart_def place_defs)
qed (simp_all add: io_places finished_places post_deferred_places(7) split: if_splits)

lemma called_from_port:
  assumes "place_inv S" and "take_next None forever g (io S) = (Complete x ec n, s')"
  shows "phase S x = Posted \<or> phase S x = In_flight True True"
  using take_next_places [OF assms(2)] place_inv_placed [OF assms(1), of x] in_port_located [of x "io S"] by auto

lemma call_inv_step:
  "loop_step S T \<Longrightarrow> place_inv S \<Longrightarrow> call_inv S \<Longrightarrow> call_inv T"
proof (induction rule: loop_step.induct)
  case (take_call forever g S x ec n s')
  then show ?case using called_from_port [OF take_call.prems(1) take_call.hyps] by (auto simp: call_inv_def)
next
  case (cancel xs S okf)
  then show ?case by (force simp: call_inv_def)
next
  case (dispatch_due S xs okf qs)
  then show ?case by (force simp: call_inv_def)
qed (auto simp: call_inv_def)

text \<open>
  The same with \<open>w\<close> finishes owed for operations that are not live: those a running operation
  started again leaves (\<open>AsioSocketStart\<close>).
\<close>

definition work_owes :: "nat \<Rightarrow> ('t, 'k, 'op) loop_sys \<Rightarrow> bool" where
  "work_owes w S \<longleftrightarrow> finite (live S) \<and> outstanding_work (io S) = of_nat (card (live S) + w)"

lemma work_inv_owes: "work_inv S = work_owes 0 S"
  by (simp add: work_inv_def work_owes_def)

text \<open>The count of work, for a step that keeps an operation live, starts one, or finishes one.\<close>

lemma work_owes_same:
  "work_owes w S \<Longrightarrow> live T = live S \<Longrightarrow> outstanding_work (io T) = outstanding_work (io S) \<Longrightarrow> work_owes w T"
  by (simp add: work_owes_def)

lemma work_owes_start:
  "work_owes w S \<Longrightarrow> live T = insert x (live S) \<Longrightarrow> x \<notin> live S \<Longrightarrow>
    outstanding_work (io T) = outstanding_work (io S) + 1 \<Longrightarrow> work_owes w T"
  by (simp add: work_owes_def)

lemma work_owes_end:
  "work_owes w S \<Longrightarrow> live T = live S - {x} \<Longrightarrow> x \<in> live S \<Longrightarrow>
    outstanding_work (io T) = outstanding_work (io S) - 1 \<Longrightarrow> work_owes w T"
proof -
  assume a: "work_owes w S" "live T = live S - {x}" "x \<in> live S" "outstanding_work (io T) = outstanding_work (io S) - 1"
  then have fin: "finite (live S)" by (simp add: work_owes_def)
  define n where "n = card (live S - {x})"
  from fin a(3) have "card (live S) = Suc n" unfolding n_def by (rule card.remove)
  moreover have "card (live T) = n" using a(2) by (simp add: n_def)
  ultimately show "work_owes w T" using a(1,2,4) fin by (simp add: work_owes_def)
qed

lemma work_owes_step:
  "loop_step S T \<Longrightarrow> place_inv S \<Longrightarrow> work_owes w S \<Longrightarrow> work_owes w T"
proof (induction rule: loop_step.induct)
  case (post S x ok)
  then show ?case by (intro work_owes_start [OF post.prems(2)]) (auto simp: live_def io_places)
next
  case (schedule S x)
  then show ?case by (intro work_owes_start [OF schedule.prems(2)]) (auto simp: live_def)
next
  case (initiate S x)
  then show ?case by (intro work_owes_start [OF initiate.prems(2)]) (auto simp: live_def)
next
  case (finish S x)
  then show ?case by (intro work_owes_end [OF finish.prems(2)]) (auto simp: live_def finished_places)
next
  case (cancel xs S okf)
  then show ?case by (intro work_owes_same [OF cancel.prems(2)]) (force simp: live_def, simp add: post_deferred_places)
next
  case (dispatch_due S xs okf qs)
  then show ?case by (intro work_owes_same [OF dispatch_due.prems(2)]) (force simp: live_def, simp add: post_deferred_places)
next
  case (take_on forever g S r s')
  then show ?case using take_next_places [OF take_on.hyps(1)] by (intro work_owes_same [OF take_on.prems(2)]) (auto simp: live_def)
next
  case (take_call forever g S x ec n s')
  then show ?case using take_next_places [OF take_call.hyps] called_from_port [OF take_call.prems(1) take_call.hyps]
    by (intro work_owes_same [OF take_call.prems(2)]) (auto simp: live_def)
next
  case (pending S x c ok)
  then show ?case by (intro work_owes_same [OF pending.prems(2)]) (auto simp: live_def on_pending_def post_or_aside_places)
next
  case (restarting S)
  then show ?case by (simp add: work_owes_def live_def restart_def)
next
  case (deliver S x i e n)
  then show ?case by (intro work_owes_same [OF deliver.prems(2)]) (auto simp: live_def)
next
  case (immediate S x ok ec n)
  then show ?case by (intro work_owes_same [OF immediate.prems(2)]) (auto simp: live_def on_completion_ec_def Let_def post_or_aside_places)
next
  case (stopping S)
  show ?case by (rule work_owes_same [OF stopping.prems(2)]) (simp_all add: live_def stop_places)
next
  case (timer_thread S sg ok)
  show ?case by (rule work_owes_same [OF timer_thread.prems(2)]) (simp_all add: live_def timer_thread_places)
qed

lemma work_inv_step: "loop_step S T \<Longrightarrow> place_inv S \<Longrightarrow> work_inv S \<Longrightarrow> work_inv T"
  unfolding work_inv_owes by (rule work_owes_step)

definition loop_inv :: "('t, 'k, 'op) loop_sys \<Rightarrow> bool" where
  "loop_inv S \<longleftrightarrow> place_inv S \<and> work_inv S \<and> call_inv S \<and> stop_ok (io S)"

definition loop_owes :: "nat \<Rightarrow> ('t, 'k, 'op) loop_sys \<Rightarrow> bool" where
  "loop_owes w S \<longleftrightarrow> place_inv S \<and> work_owes w S \<and> call_inv S \<and> stop_ok (io S)"

lemma loop_owes_step: "loop_step S T \<Longrightarrow> loop_owes w S \<Longrightarrow> loop_owes w T"
  by (auto simp: loop_owes_def intro: place_inv_step work_owes_step call_inv_step stop_ok_step)

lemma loop_owes_steps: "loop_step\<^sup>*\<^sup>* S T \<Longrightarrow> loop_owes w S \<Longrightarrow> loop_owes w T"
  by (induction rule: rtranclp_induct) (auto intro: loop_owes_step)

lemma loop_inv_owes: "loop_inv S = loop_owes 0 S"
  by (simp add: loop_inv_def loop_owes_def work_inv_owes)

lemma loop_reach_inv: "loop_reach S \<Longrightarrow> loop_inv S"
proof (induction rule: loop_reach.induct)
  case loop_init
  show ?case by (simp add: loop_inv_def place_inv_def work_inv_def call_inv_def stop_ok_def loop_start_def
        new_iocp_def live_def place_defs)
next
  case (loop_more S T)
  then show ?case by (simp add: loop_inv_def place_inv_step work_inv_step call_inv_step stop_ok_step)
qed

text \<open>
  The step \<open>dispatch_due\<close> is what \<open>dispatch\<close> does: the operations put aside, then those of the
  timers that are due.
\<close>

lemma ready_timers_append:
  "(\<And>q. q \<in> set qs \<Longrightarrow> \<exists>L. tq_ok q L) \<Longrightarrow> \<exists>qs' due. ready_timers now qs ops = Some (qs', ops @ due)"
proof (induction qs arbitrary: ops)
  case (Cons q qs)
  then obtain L where "tq_ok q L" by auto
  from ready_loop_ok [OF this, of now ops] obtain q' xs where "get_ready_timers now q ops = Some (Inr (q', ops @ xs))"
    unfolding get_ready_timers_def by blast
  moreover from Cons obtain qs' due where "ready_timers now qs (ops @ xs) = Some (qs', (ops @ xs) @ due)" by fastforce
  ultimately show ?case by simp
qed simp

lemma dispatch_is_step:
  assumes "dispatch_required s" and "\<And>q. q \<in> set (timer_queues s) \<Longrightarrow> timer_reach q"
  shows "\<exists>due qs. dispatch ok now s = Some (post_deferred_completions ok (completed_ops s @ due)
    (s\<lparr>dispatch_required := False, completed_ops := [], timer_queues := qs\<rparr>))"
proof -
  obtain qs due where "ready_timers now (timer_queues s) (completed_ops s) = Some (qs, completed_ops s @ due)"
    using ready_timers_append [of "timer_queues s"] assms(2) timer_reach_ok by metis
  with assms(1) show ?thesis by (auto simp: dispatch_def Let_def)
qed

section \<open>What the loop guarantees\<close>

text \<open>
  C19. Every operation is completed at most once and none is lost, whatever the order in which
  threads start operations, the system delivers packets and threads take them: a handler is
  called only for an operation that was posted, or that has been both delivered by the system
  and released by the function that started it (\<^verbatim>\<open>ready_\<close>); an operation in that state is
  in exactly one place, where it is ready or will be dispatched; and the count of outstanding
  work, on which \<^verbatim>\<open>run\<close> decides to return, is the number of operations not yet finished.
\<close>

theorem iocp_completes_once:
  assumes "loop_reach S"
  shows "distinct (called S) \<and>
    (x \<in> set (called S) \<longleftrightarrow> phase S x = Running \<or> phase S x = Finished) \<and>
    (take_next None forever g (io S) = (Complete x ec n, s') \<longrightarrow>
      phase S x = Posted \<or> phase S x = In_flight True True) \<and>
    (phase S x = Posted \<or> phase S x = In_flight True True \<longrightarrow>
      count (located (io S)) x = 1 \<and>
      (x \<in> in_port (io S) \<and> ready (io S) x \<or> x \<in> set (completed_ops (io S)) \<and> dispatch_required (io S))) \<and>
    finite (live S) \<and> outstanding_work (io S) = of_nat (card (live S))"
proof -
  from loop_reach_inv [OF assms] have inv: "place_inv S" "work_inv S" "call_inv S" "stop_ok (io S)"
    by (simp_all add: loop_inv_def)
  have "x \<in> in_port (io S) \<and> ready (io S) x \<or> x \<in> set (completed_ops (io S)) \<and> dispatch_required (io S)"
    if "phase S x = Posted \<or> phase S x = In_flight True True"
  proof -
    from that have "count (located (io S)) x = 1" using place_invD(1,2) [OF inv(1), of x] by auto
    then have "x \<in># located (io S)" by (metis count_eq_zero_iff zero_neq_one)
    then have "x \<in> in_port (io S) \<or> x \<in> set (completed_ops (io S))" by (simp add: located_def in_port_def)
    with that inv(4) place_invD(3) [OF inv(1), of x] show ?thesis by (auto simp: stop_ok_def)
  qed
  moreover have "count (located (io S)) x = 1" if "phase S x = Posted \<or> phase S x = In_flight True True"
    using that place_invD(1,2) [OF inv(1), of x] by auto
  ultimately show ?thesis using inv(2,3) called_from_port [OF inv(1)]
    by (simp add: call_inv_def work_inv_def)
qed

text \<open>An operation delivered before \<^verbatim>\<open>on_pending\<close>: taken once without effect, posted again, called.\<close>

lemma iocp_completes_once_witness:
  "\<exists>S :: (nat, nat, nat) loop_sys. loop_reach S \<and> called S = [7] \<and> outstanding_work (io S) = 1"
proof -
  define S1 where "S1 = (loop_start :: (nat, nat, nat) loop_sys)\<lparr>io := work_started new_iocp,
    phase := (\<lambda>_. Unused)(7 := In_flight False False)\<rparr>"
  define p where "p = \<lparr>pkey = Key_none, overlapped = Some (7 :: nat), last_error = 0, transferred = 4\<rparr>"
  define S2 where "S2 = S1\<lparr>io := (io S1)\<lparr>port := port (io S1) @ [p]\<rparr>, phase := (phase S1)(7 := In_flight False True)\<rparr>"
  define S3 where "S3 = S2\<lparr>io := on_pending True 7 (io S2), phase := (phase S2)(7 := In_flight True True)\<rparr>"
  have "loop_step loop_start S1" using loop_step.initiate [of loop_start 7]
    by (simp add: S1_def loop_start_def)
  then have r1: "loop_reach S1" by (rule loop_more [OF loop_init])
  have "loop_step S1 S2" unfolding S2_def p_def by (rule loop_step.deliver) (simp add: S1_def)
  then have r2: "loop_reach S2" by (rule loop_more [OF r1])
  have "loop_step S2 S3" unfolding S3_def by (rule loop_step.pending) (simp add: S2_def)
  then have r3: "loop_reach S3" by (rule loop_more [OF r2])
  obtain ec n s' where t: "take_next None True Packet (io S3) = (Complete 7 ec n, s')"
    by (simp add: take_next_def take_op_def S3_def S2_def S1_def p_def on_pending_def set_ready_def
        work_started_def new_iocp_def Let_def)
  let ?S = "S3\<lparr>io := s', phase := (phase S3)(7 := Running), called := called S3 @ [7]\<rparr>"
  have r: "loop_reach ?S" by (rule loop_more [OF r3 loop_step.take_call [OF t]])
  have "called ?S = [7]" "live ?S = {7}" by (auto simp: S3_def S2_def S1_def loop_start_def live_def)
  with iocp_completes_once [OF r, of 7] r show ?thesis by (intro exI [of _ ?S]) simp
qed

text \<open>
  The stop event: however threads stop, restart and run the loop, at most one stop event
  is in the port, as the flag \<^verbatim>\<open>stop_event_posted_\<close> says, and while the loop is stopped there
  is one, so that no thread waits for ever after \<^verbatim>\<open>stop\<close>.
\<close>

theorem iocp_stop_event:
  assumes "loop_reach S"
  shows "stop_events (io S) = (if stop_event_posted (io S) then 1 else 0) \<and>
    (stopped (io S) \<longrightarrow> stop_events (io S) = 1)"
  using loop_reach_inv [OF assms] by (simp add: loop_inv_def stop_ok_def)

lemma iocp_stop_event_witness:
  "stop_events (io ((loop_start :: (nat, nat, nat) loop_sys)\<lparr>io := snd (stop True new_iocp)\<rparr>)) = 1"
proof -
  have "loop_step (loop_start :: (nat, nat, nat) loop_sys) (loop_start\<lparr>io := snd (stop True new_iocp)\<rparr>)"
    using loop_step.stopping [of loop_start] by (simp add: loop_start_def)
  from iocp_stop_event [OF loop_more [OF loop_init this]] show ?thesis
    by (simp add: stop_def new_iocp_def)
qed

section \<open>A run after \<open>stop\<close>\<close>

text \<open>
  What the handlers and the other threads do meanwhile: packets are added, operations become
  ready; the loop stays stopped and nothing is put aside.
\<close>

definition grows :: "('t, 'k, 'op) iocp \<Rightarrow> ('t, 'k, 'op) iocp \<Rightarrow> bool" where
  "grows s s' \<longleftrightarrow> (\<exists>zs. port s' = port s @ zs) \<and> (\<forall>x. ready s x \<longrightarrow> ready s' x) \<and> stopped s' = stopped s \<and>
     stop_event_posted s' = stop_event_posted s \<and> dispatch_required s' = dispatch_required s"

definition ready_packet :: "('t, 'k, 'op) iocp \<Rightarrow> 'op io_packet \<Rightarrow> bool" where
  "ready_packet s p \<longleftrightarrow> (\<exists>x. overlapped p = Some x \<and> ready s x)"

lemma grows_trans: "grows r s \<Longrightarrow> grows s t \<Longrightarrow> grows r t"
  by (auto simp: grows_def)

lemma grows_ready: "grows s s' \<Longrightarrow> ready_packet s p \<Longrightarrow> ready_packet s' p"
  by (auto simp: grows_def ready_packet_def)

lemma iteration_op:
  assumes "port s = p # ps" "ready_packet s p" "\<not> dispatch_required s" "wait t = Packet" "grows s (meanwhile t s)"
  shows "\<exists>x ec n s1. iteration forever t s = Some (Complete x ec n, s1) \<and> grows (s\<lparr>port := ps\<rparr>) s1"
proof -
  obtain zs where zs: "port (meanwhile t s) = p # ps @ zs" using assms(1,5) by (auto simp: grows_def)
  obtain x where x: "overlapped p = Some x" "ready (meanwhile t s) x"
    using assms(2,5) by (auto simp: grows_def ready_packet_def)
  have d: "\<not> dispatch_required (meanwhile t s)" using assms(3,5) by (simp add: grows_def)
  obtain r s1 where t: "take_op p x ((meanwhile t s)\<lparr>port := ps @ zs\<rparr>) = (r, s1)" by fastforce
  note o = take_op_places [OF t]
  from o(8) x(2) obtain ec n where "r = Complete x ec n" by auto
  moreover have "iteration forever t s = Some (r, s1)"
    using zs x(1) d assms(4) t by (simp add: iteration_def dispatch_def take_next_def)
  moreover have "grows (s\<lparr>port := ps\<rparr>) s1" using assms(5) o by (auto simp: grows_def)
  ultimately show ?thesis by blast
qed

lemma iteration_stop:
  assumes "port s = stop_packet # ps" "stopped s" "\<not> dispatch_required s" "wait t = Packet" "stop_post t = None"
    and "grows s (meanwhile t s)"
  shows "\<exists>s1 zs. iteration forever t s = Some (Leave 0 success, s1) \<and> port s1 = ps @ zs @ [stop_packet] \<and>
    stopped s1 \<and> stop_event_posted s1"
proof -
  obtain zs where zs: "port (meanwhile t s) = stop_packet # ps @ zs" using assms(1,6) by (auto simp: grows_def)
  have d: "\<not> dispatch_required (meanwhile t s)" "stopped (meanwhile t s)" using assms(2,3,6) by (simp_all add: grows_def)
  obtain r s1 where t: "take_stop None ((meanwhile t s)\<lparr>port := ps @ zs\<rparr>) = (r, s1)" by fastforce
  note o = take_stop_places [OF t]
  have "iteration forever t s = Some (r, s1)"
    using zs d assms(4,5) t by (simp add: iteration_def dispatch_def take_next_def stop_packet_def)
  with o d show ?thesis by simp
qed

lemma work_finished_stopped: "stopped s \<Longrightarrow> grows s (snd (work_finished ok s))"
  by (simp add: work_finished_def stop_def grows_def Let_def)

lemma run_loop_drains:
  assumes "port s = ps @ stop_packet # rest" "\<And>p. p \<in> set ps \<Longrightarrow> ready_packet s p" "stopped s" "\<not> dispatch_required s"
    and "length ts = Suc (length ps)" and "n + length ps \<le> SIZE_MAX"
    and "\<And>t. t \<in> set ts \<Longrightarrow> wait t = Packet \<and> stop_post t = None \<and> (\<forall>s. grows s (meanwhile t s))"
    and "\<And>x ec m s. grows s (h x ec m s)"
  shows "\<exists>s' zs. run_loop h True n ts s = Some (n + length ps, success, [], s') \<and>
    port s' = rest @ zs @ [stop_packet] \<and> stopped s' \<and> stop_event_posted s'"
  using assms(1-7)
proof (induction ps arbitrary: s ts n rest)
  case Nil
  then obtain t where ts: "ts = [t]" by (cases ts) auto
  with Nil.prems iteration_stop [of s rest t True] obtain s1 zs where
    "iteration True t s = Some (Leave 0 success, s1)" "port s1 = rest @ zs @ [stop_packet]" "stopped s1" "stop_event_posted s1"
    by auto
  with ts show ?case by (subst run_loop.simps) simp
next
  case (Cons p ps)
  then obtain t ts' where ts: "ts = t # ts'" by (cases ts) auto
  with Cons.prems have t: "wait t = Packet" "stop_post t = None" "grows s (meanwhile t s)" by auto
  from iteration_op [of s p "ps @ stop_packet # rest" t True] Cons.prems t obtain x ec m s1 where
    it: "iteration True t s = Some (Complete x ec m, s1)" and g1: "grows (s\<lparr>port := ps @ stop_packet # rest\<rparr>) s1"
    by auto
  let ?s2 = "snd (work_finished (stop_post t = None) (h x ec m s1))"
  have "grows s1 (h x ec m s1)" by (rule assms(8))
  with g1 have gh: "grows (s\<lparr>port := ps @ stop_packet # rest\<rparr>) (h x ec m s1)" by (rule grows_trans)
  then have "stopped (h x ec m s1)" using Cons.prems(3) by (simp add: grows_def)
  with gh have g2: "grows (s\<lparr>port := ps @ stop_packet # rest\<rparr>) ?s2"
    using work_finished_stopped grows_trans by blast
  then obtain zs where p2: "port ?s2 = ps @ stop_packet # (rest @ zs)" by (auto simp: grows_def)
  have "ready_packet ?s2 q" if "q \<in> set ps" for q
    using grows_ready [OF g2, of q] Cons.prems(2) [of q] that by (simp add: ready_packet_def)
  moreover have "stopped ?s2" "\<not> dispatch_required ?s2" using g2 Cons.prems(3,4) by (simp_all add: grows_def)
  moreover have "n \<noteq> SIZE_MAX" using Cons.prems(6) by simp
  moreover have "run_loop h True n ts s = run_loop h True (n + 1) ts' ?s2" if "n \<noteq> SIZE_MAX"
    using it that unfolding ts by (subst run_loop.simps) simp
  moreover from Cons.IH [OF p2, of ts' "n + 1"] Cons.prems ts calculation(1-4) obtain s' ys where
    "run_loop h True (n + 1) ts' ?s2 = Some (n + 1 + length ps, success, [], s')"
    "port s' = (rest @ zs) @ ys @ [stop_packet]" "stopped s'" "stop_event_posted s'" by auto
  ultimately show ?case by auto
qed

text \<open>
  What \<^verbatim>\<open>stop\<close> leaves to do: a run of a stopped loop calls the handlers of exactly the
  operations that are in the port before the stop event, one after the other, and then
  returns, whatever else is posted meanwhile; the stop event goes back to the end of the port,
  behind everything that came after it.
\<close>

theorem stopped_run_drains:
  assumes "stopped s" and "port s = ps @ stop_packet # rest" and "\<And>p. p \<in> set ps \<Longrightarrow> ready_packet s p"
    and "\<not> dispatch_required s" and "outstanding_work s \<noteq> 0"
    and "length ts = Suc (length ps)" and "length ps \<le> SIZE_MAX"
    and "\<And>t. t \<in> set ts \<Longrightarrow> wait t = Packet \<and> stop_post t = None \<and> (\<forall>s. grows s (meanwhile t s))"
    and "\<And>x ec m s. grows s (h x ec m s)"
  shows "\<exists>s' zs. run ok h ts s = Some (length ps, success, [], s') \<and>
    port s' = rest @ zs @ [stop_packet] \<and> stopped s' \<and> stop_event_posted s'"
  using run_loop_drains [of s ps rest ts 0 h] assms by (simp add: run_def no_work_guard_def)

lemma stopped_run_drains_witness:
  "\<exists>s'. run True (\<lambda>_ _ _ s. s)
      (replicate 2 \<lparr>posts = \<lambda>_. True, clock = 0 :: nat, stop_post = None, wait = Packet, meanwhile = \<lambda>s. s\<rparr>)
      ((new_iocp :: (nat, nat, nat) iocp)\<lparr>stopped := True, outstanding_work := 1, ready := \<lambda>_. True,
        port := [op_packet Key_none 4, stop_packet, op_packet Key_none 5]\<rparr>) = Some (1, success, [], s') \<and>
    (\<exists>zs. port s' = [op_packet Key_none 5] @ zs @ [stop_packet])"
proof -
  let ?t = "\<lparr>posts = \<lambda>_ :: nat. True, clock = 0 :: nat, stop_post = None, wait = Packet, meanwhile = \<lambda>s :: (nat, nat, nat) iocp. s\<rparr>"
  let ?s = "(new_iocp :: (nat, nat, nat) iocp)\<lparr>stopped := True, outstanding_work := 1, ready := \<lambda>_. True,
        port := [op_packet Key_none 4, stop_packet, op_packet Key_none 5]\<rparr>"
  have "grows s s" for s :: "(nat, nat, nat) iocp" by (simp add: grows_def)
  then have "\<exists>s' zs. run True (\<lambda>_ _ _ s. s) (replicate 2 ?t) ?s = Some (length [op_packet Key_none (4 :: nat)], success, [], s') \<and>
    port s' = [op_packet Key_none 5] @ zs @ [stop_packet] \<and> stopped s' \<and> stop_event_posted s'"
    by (intro stopped_run_drains) (simp_all add: ready_packet_def op_packet_def new_iocp_def SIZE_MAX_def)
  then show ?thesis by auto
qed

end
