(* ===== verification/NetClient.thy ===== *)
theory NetClient
  imports TCPStream AsioIocpRun
begin

text \<open>
  \<^verbatim>\<open>Client/include/NetClient.h\<close> and \<^verbatim>\<open>Client/include/Client.h\<close>: the client's connection,
  its incoming queue, its \<^verbatim>\<open>io_context\<close> (the event loop of \<open>AsioIocp\<close>) and the thread that
  runs it. Handlers run only while that thread is inside \<^verbatim>\<open>run()\<close> (\<open>io_running\<close>); a stopped
  context stays so until \<^verbatim>\<open>restart()\<close>, which nothing calls. \<^verbatim>\<open>unique_ptr::release\<close> gives the
  connection up without destroying it: it goes to \<open>leaked\<close>. Connections are numbered in the
  order of \<^verbatim>\<open>Connect\<close>: the leaked ones, then the current one; an operation of the loop is the
  number of its connection with an address. Posting to the completion port succeeds here, and
  nothing uses timers, so the loop has nothing to dispatch.

  Shown: what a session is, and why there is only one.
\<close>

section \<open>State and operations\<close>

type_synonym client_op = "nat \<times> nat"

text \<open>\<open>handled\<close>: for each handler called, its connection and the connection current at the time.\<close>

record client_app =
  cconn :: "tcp_connection option"
  m_PktIn :: incoming
  joinable :: bool
  ctx :: "(nat, nat, client_op) iocp"
  io_running :: bool
  joining :: bool
  leaked :: "tcp_connection list"
  next_op :: nat
  handled :: "(nat \<times> nat) list"

definition new_client :: client_app where
  "new_client = \<lparr>cconn = None, m_PktIn = empty_queue, joinable = False, ctx = new_iocp,
     io_running = False, joining = False, leaked = [], next_op = 0, handled = []\<rparr>"

fun client_IsConnected :: "client_app \<Rightarrow> bool" where
  "client_IsConnected k = (case cconn k of None \<Rightarrow> False | Some c \<Rightarrow> IsConnected c)"

text \<open>
  What reaches the loop: the connect operation is counted when it starts, a closure posted by
  the connection is queued. The thread's \<^verbatim>\<open>run()\<close> returns at once when nothing is outstanding.
\<close>

definition ctx_work :: "client_app \<Rightarrow> client_app" where
  "ctx_work k = k\<lparr>ctx := work_started (ctx k)\<rparr>"

definition ctx_post :: "client_app \<Rightarrow> client_app" where
  "ctx_post k = k\<lparr>ctx := post_immediate_completion True (length (leaked k), next_op k) (ctx k),
     next_op := next_op k + 1\<rparr>"

definition ctx_thread :: "client_app \<Rightarrow> client_app" where
  "ctx_thread k =
     (if outstanding_work (ctx k) = 0 then k\<lparr>ctx := snd (stop True (ctx k))\<rparr> else k\<lparr>io_running := True\<rparr>)"

text \<open>
  \<open>endpoints\<close> is what the resolver finds: their number, or \<^verbatim>\<open>None\<close> when it throws. A
  thread object that is joinable may not be assigned to: \<^verbatim>\<open>std::terminate\<close>. \<open>sid\<close> is the
  uninitialised \<^verbatim>\<open>m_sID\<close>.
\<close>

definition client_Connect :: "nat option \<Rightarrow> u32 \<Rightarrow> client_app \<Rightarrow> (bool \<times> client_app) result" where
  "client_Connect endpoints sid k =
     (case endpoints of
        None \<Rightarrow> Inr (False, k)
      | Some n \<Rightarrow>
          let c = ConnectToServer n (new_connection Client_side 0 sid False);
              k' = ctx_work (k\<lparr>cconn := Some c\<rparr>)
          in if joinable k' then Inl Terminated
             else Inr (True, ctx_thread (k'\<lparr>joinable := True\<rparr>)))"

definition SendToServer :: "packet \<Rightarrow> client_app \<Rightarrow> client_app" where
  "SendToServer pkt k =
     (if client_IsConnected k then ctx_post (k\<lparr>cconn := map_option (SendPacket pkt) (cconn k)\<rparr>) else k)"

text \<open>\<^verbatim>\<open>Client::PingServer\<close>: \<open>now\<close> is the clock's representation, eight bytes.\<close>

definition client_PingServer :: "u64 \<Rightarrow> client_app \<Rightarrow> client_app" where
  "client_PingServer now k =
     SendToServer (push_u64 now (set_cmd (cmd_value Ping) new_packet)) k"

text \<open>
  \<^verbatim>\<open>Disconnect\<close> up to the call of \<^verbatim>\<open>join\<close>, which returns when the thread, if there is one, has
  left \<^verbatim>\<open>run()\<close> (\<open>None\<close>: it has not), and the rest.
\<close>

definition client_stop :: "client_app \<Rightarrow> client_app" where
  "client_stop k =
     (let k1 = (if client_IsConnected k
                then ctx_post (k\<lparr>cconn := map_option Disconnect (cconn k)\<rparr>) else k)
      in k1\<lparr>ctx := snd (stop True (ctx k1)), joining := True\<rparr>)"

definition client_join :: "client_app \<Rightarrow> client_app option" where
  "client_join k =
     (if joinable k \<and> io_running k then None
      else let k1 = k\<lparr>joinable := False, joining := False\<rparr>
           in Some (k1\<lparr>leaked := leaked k1 @ (case cconn k1 of None \<Rightarrow> [] | Some c \<Rightarrow> [c]), cconn := None\<rparr>))"

section \<open>The thread of the context\<close>

text \<open>
  What happens besides the application's calls: the system posts the packet of an operation,
  the function that started it releases it, the thread takes a packet. A handler is one of
  \<open>NetTCPConnection\<close>: it changes its connection and the incoming queue in any way (\<open>c\<close>, \<open>q\<close>)
  and starts operations (\<open>m\<close> of them).
\<close>

datatype io_event =
    Delivered client_op u32 u32
  | Released client_op
  | Io_turn tcp_connection incoming nat

definition conn_exists :: "nat \<Rightarrow> client_app \<Rightarrow> bool" where
  "conn_exists j k \<longleftrightarrow> j < length (leaked k) + (if cconn k = None then 0 else 1)"

definition set_conn :: "nat \<Rightarrow> tcp_connection \<Rightarrow> client_app \<Rightarrow> client_app" where
  "set_conn j c k =
     (if j < length (leaked k) then k\<lparr>leaked := (leaked k)[j := c]\<rparr>
      else k\<lparr>cconn := map_option (\<lambda>_. c) (cconn k)\<rparr>)"

definition ctx_handler :: "nat \<Rightarrow> tcp_connection \<Rightarrow> incoming \<Rightarrow> nat \<Rightarrow> client_app \<Rightarrow> client_app" where
  "ctx_handler j c q m k =
     (let k1 = set_conn j c (k\<lparr>m_PktIn := q, handled := handled k @ [(j, length (leaked k))]\<rparr>);
          k2 = (ctx_work ^^ m) k1
      in k2\<lparr>ctx := snd (work_finished True (ctx k2))\<rparr>)"

fun client_io :: "io_event \<Rightarrow> client_app \<Rightarrow> client_app" where
  "client_io (Delivered x e n) k =
     (if conn_exists (fst x) k
      then k\<lparr>ctx := (ctx k)\<lparr>port := port (ctx k) @
        [\<lparr>pkey = Key_none, overlapped = Some x, last_error = e, transferred = n\<rparr>]\<rparr>\<rparr>
      else k)"
| "client_io (Released x) k =
     (if conn_exists (fst x) k then k\<lparr>ctx := on_pending True x (ctx k)\<rparr> else k)"
| "client_io (Io_turn c q m) k =
     (if io_running k
      then case take_next None True Packet (ctx k) of
             (Complete x _ _, s) \<Rightarrow> ctx_handler (fst x) c q m (k\<lparr>ctx := s\<rparr>)
           | (Again, s) \<Rightarrow> k\<lparr>ctx := s\<rparr>
           | (Leave _ _, s) \<Rightarrow> k\<lparr>ctx := s, io_running := False\<rparr>
      else k)"

definition client_Disconnect :: "io_event list \<Rightarrow> client_app \<Rightarrow> client_app option" where
  "client_Disconnect es k = client_join (fold client_io es (client_stop k))"

text \<open>All of it as events; while the application waits in \<^verbatim>\<open>join\<close> it calls nothing else.\<close>

datatype client_event =
    Do_connect "nat option" u32
  | Do_send packet
  | Do_disconnect
  | Do_join
  | Io io_event

fun client_step :: "client_event \<Rightarrow> client_app \<Rightarrow> client_app result" where
  "client_step (Do_connect endpoints sid) k =
     (if joining k then Inr k else and_then (client_Connect endpoints sid k) (\<lambda>(_, k'). Inr k'))"
| "client_step (Do_send pkt) k = Inr (if joining k then k else SendToServer pkt k)"
| "client_step Do_disconnect k = Inr (if joining k then k else client_stop k)"
| "client_step Do_join k =
     Inr (if joining k then (case client_join k of None \<Rightarrow> k | Some k' \<Rightarrow> k') else k)"
| "client_step (Io e) k = Inr (client_io e k)"

lemmas client_defs [net_defs] = new_client_def client_Connect_def SendToServer_def
  ctx_work_def ctx_post_def ctx_thread_def

section \<open>The port of the context\<close>

text \<open>
  Before the stop event there are operations of the first \<open>m\<close> connections, behind it of the
  first \<open>n\<close>; a loop that is not stopped has no stop event.
\<close>

definition owned :: "nat \<Rightarrow> client_op io_packet list \<Rightarrow> bool" where
  "owned n ps \<longleftrightarrow> (\<forall>p \<in> set ps. \<exists>x. overlapped p = Some x \<and> fst x < n)"

definition client_port :: "nat \<Rightarrow> nat \<Rightarrow> (nat, nat, client_op) iocp \<Rightarrow> bool" where
  "client_port m n s \<longleftrightarrow>
     (if stopped s
      then stop_event_posted s \<and> (\<exists>A B. port s = A @ stop_packet # B \<and> owned m A \<and> owned n B)
      else \<not> stop_event_posted s \<and> owned n (port s))"

lemma owned_simps [simp]:
  "owned n []" "owned n (p # ps) \<longleftrightarrow> (\<exists>x. overlapped p = Some x \<and> fst x < n) \<and> owned n ps"
  "owned n (ps @ qs) \<longleftrightarrow> owned n ps \<and> owned n qs"
  by (auto simp: owned_def)

lemma owned_mono: "owned m ps \<Longrightarrow> m \<le> n \<Longrightarrow> owned n ps"
  by (fastforce simp: owned_def)

lemma client_portI:
  "stopped s \<Longrightarrow> stop_event_posted s \<Longrightarrow> port s = A @ stop_packet # B \<Longrightarrow> owned m A \<Longrightarrow> owned n B \<Longrightarrow>
    client_port m n s"
  "\<not> stopped s \<Longrightarrow> \<not> stop_event_posted s \<Longrightarrow> owned n (port s) \<Longrightarrow> client_port m n s"
  by (auto simp: client_port_def)

lemma client_portE:
  assumes "client_port m n s"
  obtains A B where "stopped s" "stop_event_posted s" "port s = A @ stop_packet # B" "owned m A" "owned n B"
  | "\<not> stopped s" "\<not> stop_event_posted s" "owned n (port s)"
  using assms by (auto simp: client_port_def split: if_splits)

lemma client_port_mono: "client_port m n s \<Longrightarrow> m \<le> m' \<Longrightarrow> n \<le> n' \<Longrightarrow> client_port m' n' s"
  by (erule client_portE) (auto intro: client_portI owned_mono)

lemma client_port_append:
  assumes "client_port m n s" "port s' = port s @ ps" "owned n ps"
    "stopped s' = stopped s" "stop_event_posted s' = stop_event_posted s"
  shows "client_port m n s'"
  using assms(1)
proof (cases rule: client_portE)
  case (1 A B)
  with assms show ?thesis by (intro client_portI(1) [of _ A "B @ ps"]) simp_all
qed (use assms in \<open>auto intro: client_portI\<close>)

lemma client_port_stop:
  assumes "client_port m n s" "m \<le> n"
  shows "client_port n n (snd (stop True s))" "stopped s \<Longrightarrow> client_port m n (snd (stop True s))"
    "stopped (snd (stop True s))"
proof -
  show "client_port n n (snd (stop True s))"
  proof (cases "stopped s")
    case True
    with client_port_mono [OF assms(1), of n n] assms(2) show ?thesis by (simp add: stop_def)
  next
    case False
    with assms(1) show ?thesis
      by (intro client_portI(1) [of _ "port s" "[]"]) (simp_all add: stop_def Let_def client_port_def)
  qed
qed (use assms(1) in \<open>auto simp: stop_def Let_def\<close>)

lemma client_port_finish:
  assumes "client_port m n s" "m \<le> n"
  shows "client_port n n (snd (work_finished True s))" "stopped s \<Longrightarrow> client_port m n (snd (work_finished True s))"
    "stopped s \<Longrightarrow> stopped (snd (work_finished True s))"
proof -
  let ?s = "s\<lparr>outstanding_work := outstanding_work s - 1\<rparr>"
  have c: "client_port m n ?s" using client_port_append [OF assms(1), of ?s "[]"] by simp
  show "client_port n n (snd (work_finished True s))"
    using client_port_stop(1) [OF c assms(2)] client_port_mono [OF c assms(2), of n]
    by (auto simp: work_finished_def Let_def)
  show "stopped s \<Longrightarrow> client_port m n (snd (work_finished True s))"
    using client_port_stop(2) [OF c assms(2)] c by (auto simp: work_finished_def Let_def)
  show "stopped s \<Longrightarrow> stopped (snd (work_finished True s))"
    by (simp add: work_finished_def Let_def stop_def)
qed

lemma client_take:
  assumes "take_next None True Packet s = (r, s')" "client_port m n s" "m \<le> n"
  shows "stopped s' = stopped s" "client_port n n s'"
    "(\<And>a e. r \<noteq> Leave a e) \<Longrightarrow> client_port m n s'"
    "r = Complete x ec l \<Longrightarrow> fst x < (if stopped s then m else n)"
proof -
  have "stopped s' = stopped s \<and> client_port n n s' \<and> ((\<forall>a e. r \<noteq> Leave a e) \<longrightarrow> client_port m n s') \<and>
    (r = Complete x ec l \<longrightarrow> fst x < (if stopped s then m else n))"
    using assms(1)
  proof (cases rule: take_next_cases)
    case Nothing
    then show ?thesis using assms client_port_mono [OF assms(2,3), of n] by auto
  next
    case (Op p ps y)
    note o = take_op_places [OF Op(3)]
    have *: "client_port m n (s\<lparr>port := ps\<rparr>) \<and> fst y < (if stopped s then m else n)"
      using assms(2)
    proof (cases rule: client_portE)
      case (1 A B)
      with Op(1,2) obtain A' where "A = p # A'" by (cases A) (auto simp: stop_packet_def)
      with 1 Op(1,2) show ?thesis by (auto intro!: client_portI(1) [of _ A' B])
    qed (use Op(1,2) in \<open>auto intro: client_portI\<close>)
    have "client_port m n s'"
      using client_port_append [OF conjunct1 [OF *], of s' "[]"] o by simp
    moreover have "r = Complete x ec l \<Longrightarrow> x = y"
      using Op(3) by (auto simp: take_op_def Let_def split: prod.splits if_splits)
    ultimately show ?thesis using * o client_port_mono [of m n s' n n] assms(3) by auto
  next
    case (Wake p ps)
    from assms(2) have False
    proof (cases rule: client_portE)
      case (1 A B)
      with Wake show ?thesis by (cases A) (auto simp: stop_packet_def)
    qed (use Wake in auto)
    then show ?thesis ..
  next
    case (Stop p ps)
    note o = take_stop_places [OF Stop(4)]
    show ?thesis
      using assms(2)
    proof (cases rule: client_portE)
      case (1 A B)
      with Stop(1,2) have "A = []" "ps = B" by (cases A; auto)+
      with 1 o show ?thesis by (auto intro!: client_portI(1) [of _ B "[]"])
    qed (use Stop(1,2) in auto)
  qed
  then show "stopped s' = stopped s" "client_port n n s'"
    "(\<And>a e. r \<noteq> Leave a e) \<Longrightarrow> client_port m n s'"
    "r = Complete x ec l \<Longrightarrow> fst x < (if stopped s then m else n)" by simp_all
qed

section \<open>One session\<close>

text \<open>\<open>conns\<close>: how many connections there are. The application never waits in \<open>join\<close> for a thread it has not.\<close>

definition conns :: "client_app \<Rightarrow> nat" where
  "conns k = length (leaked k) + (if cconn k = None then 0 else 1)"

definition client_inv :: "client_app \<Rightarrow> bool" where
  "client_inv k \<longleftrightarrow> client_port (conns k) (conns k) (ctx k) \<and> (cconn k = None \<longleftrightarrow> \<not> joinable k) \<and>
     (io_running k \<longrightarrow> joinable k) \<and> (joining k \<longrightarrow> stopped (ctx k))"

lemma client_inv_new: "client_inv new_client"
  by (simp add: client_inv_def new_client_def new_iocp_def conns_def client_portI(2))

lemma ctx_work_many:
  "port (ctx ((ctx_work ^^ m) k)) = port (ctx k)" "stopped (ctx ((ctx_work ^^ m) k)) = stopped (ctx k)"
  "stop_event_posted (ctx ((ctx_work ^^ m) k)) = stop_event_posted (ctx k)"
  "cconn ((ctx_work ^^ m) k) = cconn k" "leaked ((ctx_work ^^ m) k) = leaked k"
  "joinable ((ctx_work ^^ m) k) = joinable k" "io_running ((ctx_work ^^ m) k) = io_running k"
  "joining ((ctx_work ^^ m) k) = joining k" "handled ((ctx_work ^^ m) k) = handled k"
  by (induction m) (simp_all add: ctx_work_def work_started_def)

lemma set_conn_fields [simp]:
  "ctx (set_conn j c k) = ctx k" "length (leaked (set_conn j c k)) = length (leaked k)"
  "(cconn (set_conn j c k) = None) = (cconn k = None)" "joinable (set_conn j c k) = joinable k"
  "io_running (set_conn j c k) = io_running k" "joining (set_conn j c k) = joining k" "handled (set_conn j c k) = handled k"
  "j < length (leaked k) \<Longrightarrow> cconn (set_conn j c k) = cconn k"
  by (simp_all add: set_conn_def)

text \<open>Work that the loop finishes at the end of a handler, and the handler of a connection.\<close>

lemma ctx_handler_inv:
  assumes "client_port m n (ctx k)" "m \<le> n"
  shows "client_port n n (ctx (ctx_handler j c q l k))"
    "stopped (ctx k) \<Longrightarrow> stopped (ctx (ctx_handler j c q l k)) \<and> client_port m n (ctx (ctx_handler j c q l k))"
    "joinable (ctx_handler j c q l k) = joinable k" "io_running (ctx_handler j c q l k) = io_running k"
    "joining (ctx_handler j c q l k) = joining k" "conns (ctx_handler j c q l k) = conns k"
    "length (leaked (ctx_handler j c q l k)) = length (leaked k)"
    "cconn (ctx_handler j c q l k) = None \<longleftrightarrow> cconn k = None"
    "j < length (leaked k) \<Longrightarrow> cconn (ctx_handler j c q l k) = cconn k"
    "handled (ctx_handler j c q l k) = handled k @ [(j, length (leaked k))]"
proof -
  let ?k = "(ctx_work ^^ l) (set_conn j c (k\<lparr>m_PktIn := q, handled := handled k @ [(j, length (leaked k))]\<rparr>))"
  have "client_port m n (ctx ?k)"
    by (rule client_port_append [OF assms(1), of _ "[]"]) (simp_all add: ctx_work_many)
  note p = client_port_finish [OF this assms(2)]
  show "client_port n n (ctx (ctx_handler j c q l k))" using p(1) by (simp add: ctx_handler_def Let_def)
  show "stopped (ctx k) \<Longrightarrow> stopped (ctx (ctx_handler j c q l k)) \<and> client_port m n (ctx (ctx_handler j c q l k))"
    using p(2,3) by (simp add: ctx_handler_def Let_def ctx_work_many)
qed (simp_all add: ctx_handler_def Let_def ctx_work_many conns_def)

definition io_kept :: "nat \<Rightarrow> client_app \<Rightarrow> client_app \<Rightarrow> bool" where
  "io_kept m k k' \<longleftrightarrow> joinable k' = joinable k \<and> joining k' = joining k \<and> conns k' = conns k \<and>
     length (leaked k') = length (leaked k) \<and> (cconn k' = None \<longleftrightarrow> cconn k = None) \<and>
     (io_running k' \<longrightarrow> io_running k) \<and> client_port (conns k) (conns k) (ctx k') \<and>
     (stopped (ctx k) \<longrightarrow> stopped (ctx k') \<and> (io_running k' \<longrightarrow> client_port m (conns k) (ctx k'))) \<and>
     (\<exists>M. handled k' = handled k @ M \<and> (\<forall>(j, i) \<in> set M. i = length (leaked k) \<and>
       (stopped (ctx k) \<longrightarrow> j < m))) \<and>
     (stopped (ctx k) \<and> (io_running k \<longrightarrow> m \<le> length (leaked k)) \<longrightarrow> cconn k' = cconn k)"

lemma client_io_kept:
  assumes "client_port m (conns k) (ctx k)" "m \<le> conns k"
  shows "io_kept m k (client_io e k)"
proof -
  note weaker = client_port_mono [of m "conns k" _ "conns k" "conns k", OF _ assms(2) order_refl]
  have same: "io_kept m k (k\<lparr>ctx := s\<rparr>)"
    if "client_port m (conns k) s" "stopped s = stopped (ctx k)" for s
    using that weaker [OF that(1)] by (simp add: io_kept_def conns_def)
  show ?thesis
  proof (cases e)
    case (Delivered x er n)
    have "client_port m (conns k) ((ctx k)\<lparr>port := port (ctx k) @
      [\<lparr>pkey = Key_none, overlapped = Some x, last_error = er, transferred = n\<rparr>]\<rparr>)" if "conn_exists (fst x) k"
      using that by (intro client_port_append [OF assms(1)]) (auto simp: conn_exists_def conns_def)
    with Delivered same [of "ctx k"] assms(1) show ?thesis by (auto intro!: same)
  next
    case (Released x)
    have "client_port m (conns k) (on_pending True x (ctx k))" if "conn_exists (fst x) k"
      using that client_port_append [OF assms(1), of "on_pending True x (ctx k)"]
      by (auto simp: conn_exists_def conns_def on_pending_def post_or_aside_def set_ready_def op_packet_def
          split: if_splits intro: client_port_append [OF assms(1)])
    moreover have "stopped (on_pending True x (ctx k)) = stopped (ctx k)"
      by (simp add: on_pending_def post_or_aside_def set_ready_def)
    ultimately show ?thesis using Released same [of "ctx k"] assms(1) by (auto intro!: same)
  next
    case (Io_turn c q l)
    show ?thesis
    proof (cases "io_running k")
      case True
      obtain r s where t: "take_next None True Packet (ctx k) = (r, s)" by fastforce
      note f = client_take [OF t assms]
      show ?thesis
      proof (cases r)
        case (Complete x ec n)
        with f have p: "client_port m (conns k) (ctx (k\<lparr>ctx := s\<rparr>))" by simp
        note h = ctx_handler_inv [OF p assms(2), of "fst x" c q l]
        have "client_io e k = ctx_handler (fst x) c q l (k\<lparr>ctx := s\<rparr>)"
          using Io_turn True t Complete by simp
        moreover have "io_kept m k (ctx_handler (fst x) c q l (k\<lparr>ctx := s\<rparr>))"
          using h f(1) f(4) [OF Complete] True by (auto simp: io_kept_def conns_def)
        ultimately show ?thesis by simp
      next
        case Again
        with Io_turn True t f show ?thesis by (simp add: same)
      next
        case (Leave a b)
        with Io_turn True t f show ?thesis by (simp add: io_kept_def conns_def)
      qed
    qed (use Io_turn same [of "ctx k"] assms(1) in simp)
  qed
qed

lemma ctx_post_port:
  assumes "client_port m n (ctx k)" "length (leaked k) < n"
  shows "client_port m n (ctx (ctx_post k))"
  by (rule client_port_append [OF assms(1), of _ "[op_packet Key_none (length (leaked k), next_op k)]"])
    (use assms(2) in \<open>simp_all add: ctx_post_def post_immediate_completion_def post_deferred_completion_def
       post_or_aside_def set_ready_def work_started_def op_packet_def\<close>)

lemma ctx_post_fields [simp]:
  "cconn (ctx_post k) = cconn k" "joinable (ctx_post k) = joinable k" "io_running (ctx_post k) = io_running k"
  "joining (ctx_post k) = joining k" "leaked (ctx_post k) = leaked k" "handled (ctx_post k) = handled k"
  "stopped (ctx (ctx_post k)) = stopped (ctx k)" "conns (ctx_post k) = conns k"
  by (simp_all add: ctx_post_def post_immediate_completion_def post_deferred_completion_def
       post_or_aside_def set_ready_def work_started_def conns_def)

lemma client_Connect_inv:
  assumes "client_Connect ep sid k = Inr (r, k')" "client_inv k"
  shows "client_inv k'" "leaked k' = leaked k" "stopped (ctx k) \<Longrightarrow> stopped (ctx k')" "handled k' = handled k"
    "k' = k \<or> (\<not> joinable k \<and> joinable k' \<and> (\<exists>n. cconn k' = Some (ConnectToServer n (new_connection Client_side 0 sid False))))"
    "client_port (length (leaked k)) (length (leaked k)) (ctx k) \<Longrightarrow> stopped (ctx k) \<Longrightarrow> io_running k' \<Longrightarrow> k' \<noteq> k \<Longrightarrow>
      client_port (length (leaked k)) (conns k') (ctx k')"
proof -
  have "client_inv k' \<and> leaked k' = leaked k \<and> (stopped (ctx k) \<longrightarrow> stopped (ctx k')) \<and> handled k' = handled k \<and>
    (k' = k \<or> (\<not> joinable k \<and> joinable k' \<and> (\<exists>n. cconn k' = Some (ConnectToServer n (new_connection Client_side 0 sid False))))) \<and>
    (client_port (length (leaked k)) (length (leaked k)) (ctx k) \<and> stopped (ctx k) \<and> io_running k' \<and> k' \<noteq> k \<longrightarrow>
      client_port (length (leaked k)) (conns k') (ctx k'))"
  proof (cases ep)
    case (Some n)
    let ?N = "length (leaked k)" and ?s = "work_started (ctx k)"
    from assms Some have j: "\<not> joinable k" and k': "k' = ctx_thread (ctx_work (k\<lparr>cconn :=
        Some (ConnectToServer n (new_connection Client_side 0 sid False))\<rparr>)\<lparr>joinable := True\<rparr>)"
      by (auto simp: client_Connect_def ctx_work_def Let_def split: if_splits)
    from assms(2) j have c: "cconn k = None" "client_port ?N ?N (ctx k)" "\<not> io_running k" "joining k \<longrightarrow> stopped (ctx k)"
      by (auto simp: client_inv_def conns_def)
    have w: "client_port ?N ?N ?s" "stopped ?s = stopped (ctx k)"
      by (rule client_port_append [OF c(2), of _ "[]"]) (simp_all add: work_started_def)
    have s: "client_port (Suc ?N) (Suc ?N) (snd (stop True ?s))" "stopped (snd (stop True ?s))"
      using client_port_stop [OF w(1)] client_port_mono by auto
    have "client_port ?N (Suc ?N) ?s" "client_port (Suc ?N) (Suc ?N) ?s"
      using client_port_mono [OF w(1)] by simp_all
    with s w c j show ?thesis
      by (auto simp: k' client_inv_def ctx_thread_def ctx_work_def conns_def)
  qed (use assms in \<open>auto simp: client_Connect_def\<close>)
  then show "client_inv k'" "leaked k' = leaked k" "stopped (ctx k) \<Longrightarrow> stopped (ctx k')" "handled k' = handled k"
    "k' = k \<or> (\<not> joinable k \<and> joinable k' \<and> (\<exists>n. cconn k' = Some (ConnectToServer n (new_connection Client_side 0 sid False))))"
    "client_port (length (leaked k)) (length (leaked k)) (ctx k) \<Longrightarrow> stopped (ctx k) \<Longrightarrow> io_running k' \<Longrightarrow> k' \<noteq> k \<Longrightarrow>
      client_port (length (leaked k)) (conns k') (ctx k')" by auto
qed

lemma SendToServer_inv:
  assumes "client_port m (conns k) (ctx k)"
  shows "client_port m (conns k) (ctx (SendToServer pkt k))"
proof (cases "client_IsConnected k")
  case True
  then obtain c where c: "cconn k = Some c" by (auto split: option.splits)
  have "client_port m (conns k) (ctx (ctx_post (k\<lparr>cconn := map_option (SendPacket pkt) (cconn k)\<rparr>)))"
    using assms c by (intro ctx_post_port) (simp_all add: conns_def)
  with True show ?thesis by (simp add: SendToServer_def del: client_IsConnected.simps)
qed (use assms in \<open>simp add: SendToServer_def del: client_IsConnected.simps\<close>)

lemma SendToServer_fields [simp]:
  "joinable (SendToServer pkt k) = joinable k" "io_running (SendToServer pkt k) = io_running k"
  "joining (SendToServer pkt k) = joining k" "leaked (SendToServer pkt k) = leaked k"
  "handled (SendToServer pkt k) = handled k" "stopped (ctx (SendToServer pkt k)) = stopped (ctx k)"
  "conns (SendToServer pkt k) = conns k" "(cconn (SendToServer pkt k) = None) = (cconn k = None)"
  by (simp_all add: SendToServer_def conns_def del: client_IsConnected.simps)

lemma client_stop_inv:
  assumes "client_port m (conns k) (ctx k)" "m \<le> conns k"
  shows "client_port (conns k) (conns k) (ctx (client_stop k))" "stopped (ctx (client_stop k))"
    "stopped (ctx k) \<Longrightarrow> client_port m (conns k) (ctx (client_stop k))"
    "joinable (client_stop k) = joinable k" "io_running (client_stop k) = io_running k"
    "joining (client_stop k)" "leaked (client_stop k) = leaked k" "handled (client_stop k) = handled k"
    "conns (client_stop k) = conns k" "(cconn (client_stop k) = None) = (cconn k = None)"
proof -
  let ?k = "if client_IsConnected k then ctx_post (k\<lparr>cconn := map_option Disconnect (cconn k)\<rparr>) else k"
  have c: "client_port m (conns k) (ctx ?k)"
  proof (cases "client_IsConnected k")
    case True
    then obtain c where "cconn k = Some c" by (auto split: option.splits)
    with assms True have "client_port m (conns k) (ctx (ctx_post (k\<lparr>cconn := map_option Disconnect (cconn k)\<rparr>)))"
      by (intro ctx_post_port) (simp_all add: conns_def)
    with True show ?thesis by (simp del: client_IsConnected.simps)
  qed (use assms in \<open>simp del: client_IsConnected.simps\<close>)
  have "stopped (ctx ?k) = stopped (ctx k)" by (simp del: client_IsConnected.simps)
  with client_port_stop [OF c assms(2)]
  show "client_port (conns k) (conns k) (ctx (client_stop k))" "stopped (ctx (client_stop k))"
    "stopped (ctx k) \<Longrightarrow> client_port m (conns k) (ctx (client_stop k))"
    by (simp_all add: client_stop_def Let_def del: client_IsConnected.simps)
qed (simp_all add: client_stop_def Let_def conns_def del: client_IsConnected.simps)

lemma client_join_result:
  "client_join k = Some k' \<Longrightarrow> client_inv k \<Longrightarrow> stopped (ctx k) \<Longrightarrow>
    client_inv k' \<and> stopped (ctx k') \<and> cconn k' = None \<and> \<not> io_running k' \<and> \<not> joinable k' \<and> \<not> joining k' \<and>
    handled k' = handled k \<and> ctx k' = ctx k \<and> length (leaked k') = conns k"
  by (auto simp: client_join_def client_inv_def conns_def Let_def split: if_splits option.splits)

lemma client_inv_io: "client_inv k \<Longrightarrow> client_inv (client_io e k)"
  using client_io_kept [of "conns k" k e] by (auto simp: client_inv_def io_kept_def)

lemma client_inv_stop: "client_inv k \<Longrightarrow> client_inv (client_stop k)"
  using client_stop_inv [of "conns k" k] by (simp add: client_inv_def)

lemma client_inv_step:
  assumes "client_step e k = Inr k'" "client_inv k"
  shows "client_inv k'"
proof (cases e)
  case (Do_connect ep sid)
  with assms show ?thesis by (auto simp: and_then_Inr_iff split: if_splits dest: client_Connect_inv(1))
next
  case (Do_send pkt)
  with assms SendToServer_inv [of "conns k" k pkt] show ?thesis by (auto simp: client_inv_def split: if_splits)
next
  case Do_disconnect
  with assms show ?thesis by (auto intro: client_inv_stop)
next
  case Do_join
  with assms show ?thesis
    by (auto split: option.splits if_splits simp: client_inv_def dest: client_join_result)
qed (use assms client_inv_io in auto)

lemma client_inv_run: "fold_result client_step es k = Inr k' \<Longrightarrow> client_inv k \<Longrightarrow> client_inv k'"
  by (erule fold_result_invariant) (auto intro: client_inv_step)

text \<open>
  After a \<^verbatim>\<open>Disconnect\<close>: what the thread can still run belongs to leaked connections (\<open>L\<close> is
  what has run up to then), and nothing happens to the current one.
\<close>

definition client_dead :: "(nat \<times> nat) list \<Rightarrow> client_app \<Rightarrow> bool" where
  "client_dead L k \<longleftrightarrow> client_inv k \<and> stopped (ctx k) \<and>
     (io_running k \<longrightarrow> client_port (length (leaked k)) (conns k) (ctx k)) \<and>
     (\<forall>c. cconn k = Some c \<longrightarrow> in_ops c = [] \<and> out_ops c = []) \<and>
     (\<exists>M. handled k = L @ M \<and> (\<forall>(j, cur) \<in> set M. j < cur))"

lemma client_dead_io:
  assumes "client_dead L k"
  shows "client_dead L (client_io e k)"
proof (cases "io_running k")
  case True
  have "io_kept (length (leaked k)) k (client_io e k)"
    using assms True by (intro client_io_kept) (simp_all add: client_dead_def conns_def)
  with assms client_inv_io [of k e] show ?thesis by (fastforce simp: client_dead_def io_kept_def)
next
  case False
  then have "handled (client_io e k) = handled k" by (cases e) auto
  moreover have "io_kept (conns k) k (client_io e k)"
    using assms by (intro client_io_kept) (simp_all add: client_dead_def client_inv_def)
  ultimately show ?thesis using assms False client_inv_io [of k e] by (simp add: client_dead_def io_kept_def)
qed

lemma client_dead_step:
  assumes "client_step e k = Inr k'" "client_dead L k"
  shows "client_dead L k'"
proof (cases e)
  case (Do_connect ep sid)
  show ?thesis
  proof (cases "joining k")
    case False
    with Do_connect assms obtain r where c: "client_Connect ep sid k = Inr (r, k')" by (auto simp: and_then_Inr_iff)
    have inv: "client_inv k" using assms(2) by (simp add: client_dead_def)
    note f = client_Connect_inv [OF c inv]
    have "client_dead L k'" if "k' \<noteq> k"
    proof -
      from f(5) that obtain n where n: "\<not> joinable k"
        "cconn k' = Some (ConnectToServer n (new_connection Client_side 0 sid False))" by auto
      with inv have "cconn k = None" by (simp add: client_inv_def)
      with inv have "client_port (length (leaked k)) (length (leaked k)) (ctx k)" by (simp add: client_inv_def conns_def)
      with f n that assms(2) show ?thesis by (auto simp: client_dead_def ConnectToServer_def new_connection_def)
    qed
    with assms(2) show ?thesis by auto
  qed (use Do_connect assms in simp)
next
  case (Do_send pkt)
  have "client_inv (SendToServer pkt k)" if "\<not> joining k"
    using client_inv_step [of "Do_send pkt" k] assms(2) that by (simp add: client_dead_def)
  moreover have "in_ops c = [] \<and> out_ops c = []" if "cconn (SendToServer pkt k) = Some c" for c
    using that assms(2) by (auto simp: SendToServer_def client_dead_def SendPacket_def split: if_splits)
  ultimately show ?thesis using Do_send assms SendToServer_inv [of "length (leaked k)" k pkt]
    by (auto simp: client_dead_def split: if_splits)
next
  case Do_disconnect
  have "in_ops c = [] \<and> out_ops c = []" if "cconn (client_stop k) = Some c" for c
    using that assms(2) by (auto simp: client_stop_def Let_def client_dead_def Disconnect_def split: if_splits)
  moreover have "length (leaked k) \<le> conns k" by (simp add: conns_def)
  ultimately show ?thesis
    using Do_disconnect assms client_stop_inv [of "length (leaked k)" k] client_stop_inv [of "conns k" k] client_inv_stop [of k]
    by (auto simp: client_dead_def client_inv_def split: if_splits)
next
  case Do_join
  with assms show ?thesis
    by (auto simp: client_dead_def split: option.splits if_splits dest: client_join_result)
qed (use assms client_dead_io in auto)

text \<open>
  C15. A client object has one session. Whatever it did before, and whatever it does after a
  \<^verbatim>\<open>Disconnect\<close> and however often it connects again (which reports success), no handler of a
  current connection ever runs again: every handler called later belongs to a connection
  given up before (they still write into the incoming queue), and on the current one nothing
  is ever read or written.
\<close>

theorem client_reconnect_is_dead:
  assumes "fold_result client_step es new_client = Inr k" and "\<not> joining k"
    and "client_Disconnect ios k = Some k0" and "fold_result client_step es' k0 = Inr k'"
  shows "(\<exists>M. handled k' = handled k0 @ M \<and> (\<forall>(j, cur) \<in> set M. j < cur)) \<and>
    (\<forall>c. cconn k' = Some c \<longrightarrow> in_ops c = [] \<and> out_ops c = []) \<and>
    (\<not> joinable k' \<longrightarrow> (\<forall>n sid. \<exists>k''. client_Connect (Some n) sid k' = Inr (True, k'')))"
proof -
  have inv: "client_inv k" using client_inv_run [OF assms(1)] client_inv_new by blast
  then have s: "client_inv (client_stop k)" "stopped (ctx (client_stop k))"
    using client_inv_stop client_stop_inv(2) [of "conns k" k] by (auto simp: client_inv_def)
  have "client_inv (fold client_io ios k1) \<and> stopped (ctx (fold client_io ios k1))"
    if "client_inv k1" "stopped (ctx k1)" for k1
    using that
  proof (induction ios arbitrary: k1)
    case (Cons e es)
    have "io_kept (conns k1) k1 (client_io e k1)"
      using Cons.prems(1) by (intro client_io_kept) (simp_all add: client_inv_def)
    with Cons client_inv_io [of k1 e] show ?case by (simp add: io_kept_def)
  qed simp
  with s assms(3) have "client_dead (handled k0) k0"
    using client_join_result [of "fold client_io ios (client_stop k)" k0]
    by (auto simp: client_dead_def client_Disconnect_def)
  then have "client_dead (handled k0) k'"
    using fold_result_invariant [OF assms(4), of "client_dead (handled k0)"] client_dead_step by blast
  then show ?thesis by (auto simp: client_dead_def client_Connect_def ctx_work_def Let_def)
qed

text \<open>A first session; a second \<^verbatim>\<open>Connect\<close> that reports success, with a packet that is never sent.\<close>

lemma client_reconnect_is_dead_witness:
  "\<exists>k k0 k'. fold_result client_step [Do_connect (Some 1) 0] new_client = Inr k \<and>
     client_Disconnect (replicate 2 (Io_turn (new_connection Client_side 0 0 False) empty_queue 0)) k = Some k0 \<and>
     fold_result client_step [Do_connect (Some 1) 0, Do_send new_packet] k0 = Inr k' \<and>
     handled k0 = [(0, 0)] \<and> client_IsConnected k' \<and> (\<forall>c. cconn k' = Some c \<longrightarrow> in_ops c = [] \<and> out_ops c = [])"
proof -
  let ?ios = "replicate 2 (Io_turn (new_connection Client_side 0 0 False) empty_queue 0)"
  have "case fold_result client_step [Do_connect (Some 1) 0] new_client of Inl _ \<Rightarrow> False
    | Inr k \<Rightarrow> \<not> joining k \<and> (case client_Disconnect ?ios k of None \<Rightarrow> False
      | Some k0 \<Rightarrow> handled k0 = [(0, 0)] \<and>
          (case fold_result client_step [Do_connect (Some 1) 0, Do_send new_packet] k0 of Inl _ \<Rightarrow> False
           | Inr k' \<Rightarrow> client_IsConnected k'))"
    by code_simp
  then obtain k k0 k' where k: "fold_result client_step [Do_connect (Some 1) 0] new_client = Inr k" "\<not> joining k"
    "client_Disconnect ?ios k = Some k0"
    "fold_result client_step [Do_connect (Some 1) 0, Do_send new_packet] k0 = Inr k'"
    "handled k0 = [(0, 0)]" "client_IsConnected k'"
    unfolding case_Inr_iff case_Some_iff by blast
  from client_reconnect_is_dead [OF k(1-4)] k show ?thesis by blast
qed

text \<open>
  The life of the thread object: it is joinable from a successful \<^verbatim>\<open>Connect\<close> to the
  end of the next \<^verbatim>\<open>Disconnect\<close>, so that a second \<^verbatim>\<open>Connect\<close> in between, which the resolver
  lets through, ends the process, and a first one after \<^verbatim>\<open>Disconnect\<close> does not.
\<close>

theorem client_second_connect_terminates:
  assumes "client_Connect (Some n) sid k = Inr (True, k1)"
    and "fold_result client_step es k1 = Inr k2" and "Do_join \<notin> set es"
  shows "client_Connect (Some m) sid' k2 = Inl Terminated \<and>
    client_Connect None sid' k2 = Inr (False, k2) \<and>
    (\<forall>k3. client_Disconnect ios k2 = Some k3 \<longrightarrow> (\<exists>k4. client_Connect (Some m) sid' k3 = Inr (True, k4)))"
proof -
  have io: "joinable (client_io e s) = joinable s" for e s
    by (cases e) (auto simp: ctx_handler_def Let_def ctx_work_many split: outcome.splits prod.splits)
  have "joinable k2"
    using assms(2)
  proof (rule fold_result_invariant)
    show "joinable k1" using assms(1)
      by (auto simp: client_Connect_def ctx_thread_def Let_def split: if_splits)
    fix e s t assume "e \<in> set es" "joinable s" "client_step e s = Inr t"
    with assms(3) io show "joinable t"
      by (cases "(e, s)" rule: client_step.cases)
        (auto simp: client_Connect_def client_stop_def ctx_work_def Let_def and_then_Inr_iff
          split: option.splits if_splits simp del: client_IsConnected.simps)
  qed
  then show ?thesis
    by (auto simp: client_Connect_def ctx_work_def client_Disconnect_def client_join_def Let_def split: if_splits)
qed

lemma client_second_connect_terminates_witness:
  "client_Connect (Some 1) 0 (snd (projr (client_Connect (Some 1) 0 new_client))) = Inl Terminated"
proof -
  obtain k1 where k1: "client_Connect (Some 1) 0 new_client = Inr (True, k1)"
    by (simp add: client_defs Let_def)
  from client_second_connect_terminates [OF k1, of "[]"] k1 show ?thesis by simp
qed

end
