(* ===== verification/NetNode.thy ===== *)
theory NetNode
  imports NetClient
begin

text \<open>
  \<^verbatim>\<open>Client/src/GDNative.cpp\<close> and \<^verbatim>\<open>Client/include/GDNative.h\<close>: the Godot node, the
  client's interface to the game: one packet being written, one being read, and the calls a
  script makes on them. A Godot \<^verbatim>\<open>String\<close> (a third-party type) enters as what the code
  takes from it: its \<^verbatim>\<open>length()\<close> and the bytes behind \<^verbatim>\<open>alloc_c_string()\<close>; the string
  that \<^verbatim>\<open>ReadString\<close> makes is given by the bytes before the terminator. A double is its
  bit pattern.

  Shown: what is written is read back in the opposite order; when the calls read or write
  outside their buffers; and what the sizes they leave in the headers do to the stream.
\<close>

section \<open>State and operations\<close>

record net_node =
  m_Client :: client_app
  m_pktIn :: packet
  m_pktOut :: packet
  signals :: "u16 list"

definition new_node :: net_node where
  "new_node = \<lparr>m_Client = new_client, m_pktIn = new_packet, m_pktOut = new_packet, signals = []\<rparr>"

definition node_init :: "net_node \<Rightarrow> net_node" where
  "node_init s = s\<lparr>m_pktIn := set_cmd (cmd_value Invalid) (m_pktIn s)\<rparr>"

definition node_process :: "net_node \<Rightarrow> net_node result" where
  "node_process s =
     (if client_IsConnected (m_Client s) then
        if \<not> is_empty (m_PktIn (m_Client s)) then
          and_then (get_front (m_PktIn (m_Client s))) (\<lambda>w.
            Inr (s\<lparr>m_pktIn := opkt w, signals := signals s @ [cmdID (header (opkt w))]\<rparr>))
        else Inr s
      else Inr s)"

definition node_Connect :: "nat option \<Rightarrow> u32 \<Rightarrow> net_node \<Rightarrow> net_node result" where
  "node_Connect endpoints sid s =
     and_then (client_Connect endpoints sid (m_Client s)) (\<lambda>(_, k). Inr (s\<lparr>m_Client := k\<rparr>))"

text \<open>\<open>ios\<close>: what the thread of the context does meanwhile; \<open>None\<close>: the call still waits for it.\<close>

definition node_Disconnect :: "io_event list \<Rightarrow> net_node \<Rightarrow> net_node option" where
  "node_Disconnect ios s = map_option (\<lambda>k. s\<lparr>m_Client := k\<rparr>) (client_Disconnect ios (m_Client s))"

definition PreparePacket :: "net_node \<Rightarrow> bool \<times> net_node" where
  "PreparePacket s =
     (if \<not> client_IsConnected (m_Client s) then (False, s)
      else (True, s\<lparr>m_pktOut := (m_pktOut s)\<lparr>body := []\<rparr>\<rparr>))"

definition WriteCmd :: "u16 \<Rightarrow> net_node \<Rightarrow> net_node" where
  "WriteCmd cmdid s = s\<lparr>m_pktOut := set_cmd cmdid (m_pktOut s)\<rparr>"

definition node_SendPacket :: "net_node \<Rightarrow> net_node" where
  "node_SendPacket s = s\<lparr>m_Client := SendToServer (m_pktOut s) (m_Client s)\<rparr>"

definition WriteShort :: "u16 \<Rightarrow> net_node \<Rightarrow> net_node" where
  "WriteShort d s = s\<lparr>m_pktOut := push_u16 d (m_pktOut s)\<rparr>"

definition WriteLong :: "u32 \<Rightarrow> net_node \<Rightarrow> net_node" where
  "WriteLong d s = s\<lparr>m_pktOut := push_u32 d (m_pktOut s)\<rparr>"

definition WriteLongLong :: "u64 \<Rightarrow> net_node \<Rightarrow> net_node" where
  "WriteLongLong d s = s\<lparr>m_pktOut := push_u64 d (m_pktOut s)\<rparr>"

definition WriteDouble :: "u64 \<Rightarrow> net_node \<Rightarrow> net_node" where
  "WriteDouble d s = s\<lparr>m_pktOut := push_u64 d (m_pktOut s)\<rparr>"

text \<open>\<open>n\<close> is \<^verbatim>\<open>data.length()\<close>, \<open>cs\<close> the memory \<^verbatim>\<open>alloc_c_string()\<close> points to.\<close>

definition WriteString :: "nat \<Rightarrow> byte list \<Rightarrow> net_node \<Rightarrow> net_node result" where
  "WriteString n cs s =
     (if length cs < n then Inl Out_of_range
      else Inr (s\<lparr>m_pktOut := set_body (body (m_pktOut s) @ 0 # take n cs) (m_pktOut s)\<rparr>))"

definition node_PingServer :: "u64 \<Rightarrow> net_node \<Rightarrow> net_node" where
  "node_PingServer millis s =
     s\<lparr>m_Client := SendToServer (push_u64 millis (set_cmd (cmd_value Ping) new_packet)) (m_Client s)\<rparr>"

definition ReadShort :: "net_node \<Rightarrow> (u16 \<times> net_node) result" where
  "ReadShort s = and_then (pull_u16 (m_pktIn s)) (\<lambda>(d, p). Inr (d, s\<lparr>m_pktIn := p\<rparr>))"

definition ReadLong :: "net_node \<Rightarrow> (u32 \<times> net_node) result" where
  "ReadLong s = and_then (pull_u32 (m_pktIn s)) (\<lambda>(d, p). Inr (d, s\<lparr>m_pktIn := p\<rparr>))"

definition ReadLongLong :: "net_node \<Rightarrow> (u64 \<times> net_node) result" where
  "ReadLongLong s = and_then (pull_u64 (m_pktIn s)) (\<lambda>(d, p). Inr (d, s\<lparr>m_pktIn := p\<rparr>))"

definition ReadDouble :: "net_node \<Rightarrow> (u64 \<times> net_node) result" where
  "ReadDouble s = and_then (pull_u64 (m_pktIn s)) (\<lambda>(d, p). Inr (d, s\<lparr>m_pktIn := p\<rparr>))"

definition MAX_LEN :: nat where
  "MAX_LEN = 1024 * 5"

text \<open>The loop over \<^verbatim>\<open>body.rbegin()\<close>: the bytes before the first zero from the end, if there is one.\<close>

fun scan_back :: "byte list \<Rightarrow> nat \<Rightarrow> nat result" where
  "scan_back [] n = Inl Out_of_range"
| "scan_back (b # bs) n = (if b = 0 then Inr n else scan_back bs (n + 1))"

text \<open>\<^verbatim>\<open>String(data)\<close> reads the array up to its first zero byte.\<close>

fun c_string :: "byte list \<Rightarrow> byte list result" where
  "c_string [] = Inl Out_of_range"
| "c_string (b # bs) = (if b = 0 then Inr [] else and_then (c_string bs) (\<lambda>cs. Inr (b # cs)))"

definition ReadString :: "net_node \<Rightarrow> (byte list \<times> net_node) result" where
  "ReadString s =
     (let bd = body (m_pktIn s); oldBody = length bd in
      and_then (scan_back (rev bd) 0) (\<lambda>strlen.
        if MAX_LEN < strlen then Inl Out_of_range
        else
          let data = overwrite (drop (oldBody - strlen) bd) (replicate MAX_LEN 0);
              s' = s\<lparr>m_pktIn := (m_pktIn s)\<lparr>body := resize (oldBody - strlen - 1) bd\<rparr>\<rparr>
          in and_then (c_string data) (\<lambda>str. Inr (str, s'))))"

definition PrepareNextPkt :: "net_node \<Rightarrow> net_node result" where
  "PrepareNextPkt s =
     and_then (pop_front (m_PktIn (m_Client s))) (\<lambda>(_, q).
       Inr (s\<lparr>m_Client := (m_Client s)\<lparr>m_PktIn := q\<rparr>,
              m_pktIn := set_cmd (cmd_value Invalid) ((m_pktIn s)\<lparr>body := []\<rparr>)\<rparr>))"

section \<open>Values\<close>

text \<open>What a script writes and reads, with the call for each.\<close>

datatype gd_value = Short u16 | Long u32 | LongLong u64 | Double u64 | Str "byte list"

fun node_write :: "gd_value \<Rightarrow> net_node \<Rightarrow> net_node result" where
  "node_write (Short d) s = Inr (WriteShort d s)"
| "node_write (Long d) s = Inr (WriteLong d s)"
| "node_write (LongLong d) s = Inr (WriteLongLong d s)"
| "node_write (Double d) s = Inr (WriteDouble d s)"
| "node_write (Str bs) s = WriteString (length bs) (bs @ [0]) s"

text \<open>The read for a value of the same kind.\<close>

fun node_read :: "gd_value \<Rightarrow> net_node \<Rightarrow> (gd_value \<times> net_node) result" where
  "node_read (Short _) s = and_then (ReadShort s) (\<lambda>(d, t). Inr (Short d, t))"
| "node_read (Long _) s = and_then (ReadLong s) (\<lambda>(d, t). Inr (Long d, t))"
| "node_read (LongLong _) s = and_then (ReadLongLong s) (\<lambda>(d, t). Inr (LongLong d, t))"
| "node_read (Double _) s = and_then (ReadDouble s) (\<lambda>(d, t). Inr (Double d, t))"
| "node_read (Str _) s = and_then (ReadString s) (\<lambda>(d, t). Inr (Str d, t))"

fun node_reads :: "gd_value list \<Rightarrow> net_node \<Rightarrow> (gd_value list \<times> net_node) result" where
  "node_reads [] s = Inr ([], s)"
| "node_reads (v # vs) s =
     and_then (node_read v s) (\<lambda>(w, t). and_then (node_reads vs t) (\<lambda>(ws, u). Inr (w # ws, u)))"

text \<open>Strings that survive: no zero byte, and room for the terminator in the reader's array.\<close>

fun readable :: "gd_value \<Rightarrow> bool" where
  "readable (Str bs) \<longleftrightarrow> 0 \<notin> set bs \<and> length bs < MAX_LEN"
| "readable _ \<longleftrightarrow> True"

fun value_bytes :: "gd_value \<Rightarrow> byte list" where
  "value_bytes (Short d) = le_bytes 2 d"
| "value_bytes (Long d) = le_bytes 4 d"
| "value_bytes (LongLong d) = le_bytes 8 d"
| "value_bytes (Double d) = le_bytes 8 d"
| "value_bytes (Str bs) = 0 # bs"

lemma node_write_body:
  "\<exists>t. node_write v s = Inr t \<and> body (m_pktOut t) = body (m_pktOut s) @ value_bytes v \<and>
     wf_packet (m_pktOut t) \<and> cmdID (header (m_pktOut t)) = cmdID (header (m_pktOut s)) \<and>
     m_pktIn t = m_pktIn s \<and> m_Client t = m_Client s"
  by (cases v) (simp_all add: WriteShort_def WriteLong_def WriteLongLong_def WriteDouble_def
      WriteString_def push_as_def)

lemma scan_back_nonzero:
  "0 \<notin> set cs \<Longrightarrow> scan_back (cs @ 0 # bs) n = Inr (n + length cs)"
  by (induction cs arbitrary: n) auto

lemma scan_back_none: "(\<exists>e. scan_back bs n = Inl e) \<longleftrightarrow> 0 \<notin> set bs"
  by (induction bs arbitrary: n) auto

lemma c_string_padded: "0 \<notin> set cs \<Longrightarrow> 0 < n \<Longrightarrow> c_string (cs @ replicate n 0) = Inr cs"
proof (induction cs)
  case Nil
  then show ?case by (cases n) simp_all
qed auto

lemma ReadString_result:
  assumes "body (m_pktIn s) = bs @ 0 # cs" and "0 \<notin> set cs" and "length cs < MAX_LEN"
  shows "ReadString s = Inr (cs, s\<lparr>m_pktIn := (m_pktIn s)\<lparr>body := bs\<rparr>\<rparr>)"
proof -
  have "scan_back (rev (bs @ 0 # cs)) 0 = Inr (length cs)"
    using scan_back_nonzero [of "rev cs" "rev bs" 0] assms(2) by simp
  moreover have "overwrite cs (replicate MAX_LEN 0) = cs @ replicate (MAX_LEN - length cs) 0"
    by (simp add: overwrite_def)
  ultimately show ?thesis
    using assms c_string_padded [of cs "MAX_LEN - length cs"]
    by (simp add: ReadString_def Let_def resize_def)
qed

lemma node_read_value:
  assumes "body (m_pktIn s) = bs @ value_bytes v" and "readable v"
  shows "\<exists>t. node_read v s = Inr (v, t) \<and> body (m_pktIn t) = bs"
  using assms
  by (cases v) (auto simp: ReadShort_def ReadLong_def ReadLongLong_def ReadDouble_def ReadString_result
      u16_data.pull_rep u32_data.pull_rep u64_data.pull_rep)

lemma node_writes_body:
  "\<exists>t. fold_result node_write vs s = Inr t \<and>
     body (m_pktOut t) = body (m_pktOut s) @ concat (map value_bytes vs) \<and>
     (vs \<noteq> [] \<longrightarrow> wf_packet (m_pktOut t)) \<and> (vs = [] \<longrightarrow> t = s) \<and>
     cmdID (header (m_pktOut t)) = cmdID (header (m_pktOut s)) \<and>
     m_pktIn t = m_pktIn s \<and> m_Client t = m_Client s"
proof (induction vs arbitrary: s)
  case (Cons v vs)
  from node_write_body [of v s] obtain t where t: "node_write v s = Inr t"
    "body (m_pktOut t) = body (m_pktOut s) @ value_bytes v" "wf_packet (m_pktOut t)"
    "cmdID (header (m_pktOut t)) = cmdID (header (m_pktOut s))" "m_pktIn t = m_pktIn s"
    "m_Client t = m_Client s" by blast
  from Cons.IH [of t] t show ?case by auto
qed simp

lemma node_reads_values:
  assumes "body (m_pktIn s) = bs @ concat (map value_bytes (rev vs))" and "\<forall>v \<in> set vs. readable v"
  shows "\<exists>t. node_reads vs s = Inr (vs, t) \<and> body (m_pktIn t) = bs"
  using assms
proof (induction vs arbitrary: s)
  case (Cons v vs)
  have "body (m_pktIn s) = (bs @ concat (map value_bytes (rev vs))) @ value_bytes v"
    using Cons.prems(1) by simp
  from node_read_value [OF this] Cons.prems(2) obtain t where t: "node_read v s = Inr (v, t)"
    "body (m_pktIn t) = bs @ concat (map value_bytes (rev vs))" by auto
  from Cons.IH [OF t(2)] Cons.prems(2) t(1) show ?case by auto
qed simp

section \<open>Properties of the node\<close>

definition demo_node :: "packet list \<Rightarrow> net_node" where
  "demo_node ps = new_node\<lparr>m_Client := new_client\<lparr>
     cconn := Some (on_connected 0 (ConnectToServer 1 (new_connection Client_side 0 0 False))),
     m_PktIn := \<lparr>m_deqQueue = map (\<lambda>p. \<lparr>connectionPtr = None, opkt = p\<rparr>) ps\<rparr>\<rparr>\<rparr>"

lemma demo_node_simps [simp]:
  "client_IsConnected (m_Client (demo_node ps))"
  "m_PktIn (m_Client (demo_node ps)) = \<lparr>m_deqQueue = map (\<lambda>p. \<lparr>connectionPtr = None, opkt = p\<rparr>) ps\<rparr>"
  "signals (demo_node ps) = []"
  by (simp_all add: demo_node_def new_node_def client_defs tcp_defs Let_def)

text \<open>
  C8. What one script writes another reads: after \<^verbatim>\<open>PreparePacket\<close> and \<^verbatim>\<open>WriteCmd\<close>,
  any sequence of values (strings without zero bytes and shorter than the reader's array)
  can be written; a node that has the packet at the front of its queue signals its command,
  and reading the values in the opposite order gives them back and uses the body up.
\<close>

theorem node_message_roundtrip:
  assumes "client_IsConnected (m_Client s)" and "\<forall>v \<in> set vs. readable v"
  shows "\<exists>t. fold_result node_write vs (WriteCmd c (snd (PreparePacket s))) = Inr t \<and>
    (vs \<noteq> [] \<longrightarrow> wf_packet (m_pktOut t)) \<and>
    (\<forall>r w. client_IsConnected (m_Client r) \<and> get_front (m_PktIn (m_Client r)) = Inr w \<and>
       opkt w = m_pktOut t \<longrightarrow>
       (\<exists>r1 r2. node_process r = Inr r1 \<and> signals r1 = signals r @ [c] \<and>
          node_reads (rev vs) r1 = Inr (rev vs, r2) \<and> body (m_pktIn r2) = []))"
proof -
  let ?s = "WriteCmd c (snd (PreparePacket s))"
  have s: "body (m_pktOut ?s) = []" "cmdID (header (m_pktOut ?s)) = c"
    using assms(1) by (simp_all add: WriteCmd_def PreparePacket_def)
  from node_writes_body [of vs ?s] s obtain t where t: "fold_result node_write vs ?s = Inr t"
    "body (m_pktOut t) = concat (map value_bytes vs)" "vs \<noteq> [] \<longrightarrow> wf_packet (m_pktOut t)"
    "cmdID (header (m_pktOut t)) = c" by auto
  have "\<exists>r1 r2. node_process r = Inr r1 \<and> signals r1 = signals r @ [c] \<and>
      node_reads (rev vs) r1 = Inr (rev vs, r2) \<and> body (m_pktIn r2) = []"
    if r: "client_IsConnected (m_Client r)" "get_front (m_PktIn (m_Client r)) = Inr w" "opkt w = m_pktOut t" for r w
  proof -
    let ?r = "r\<lparr>m_pktIn := opkt w, signals := signals r @ [cmdID (header (opkt w))]\<rparr>"
    have "node_process r = Inr ?r"
      using r(1,2) by (cases "m_deqQueue (m_PktIn (m_Client r))")
        (simp_all add: node_process_def is_empty_def get_front_def del: client_IsConnected.simps)
    moreover have "body (m_pktIn ?r) = [] @ concat (map value_bytes (rev (rev vs)))"
      using r(3) t(2) by simp
    from node_reads_values [OF this] assms(2) obtain r2 where
      "node_reads (rev vs) ?r = Inr (rev vs, r2)" "body (m_pktIn r2) = []" by auto
    ultimately show ?thesis using r(3) t(4) by auto
  qed
  with t show ?thesis by blast
qed

lemma node_message_roundtrip_witness:
  "\<exists>t. fold_result node_write [Short 5, Str [104, 105], Double 9] (WriteCmd 3 (snd (PreparePacket (demo_node [])))) = Inr t \<and>
    (\<exists>r1 r2. node_process (demo_node [m_pktOut t]) = Inr r1 \<and> signals r1 = [3] \<and>
       node_reads [Double 9, Str [104, 105], Short 5] r1 = Inr ([Double 9, Str [104, 105], Short 5], r2))"
proof -
  have "\<forall>v \<in> set [Short 5, Str [104, 105], Double 9]. readable v" by (simp add: MAX_LEN_def)
  from node_message_roundtrip [OF demo_node_simps(1) [of "[]"] this, of 3] obtain t where
    t: "fold_result node_write [Short 5, Str [104, 105], Double 9] (WriteCmd 3 (snd (PreparePacket (demo_node [])))) = Inr t"
    and r: "\<forall>r w. client_IsConnected (m_Client r) \<and> get_front (m_PktIn (m_Client r)) = Inr w \<and>
       opkt w = m_pktOut t \<longrightarrow>
       (\<exists>r1 r2. node_process r = Inr r1 \<and> signals r1 = signals r @ [3] \<and>
          node_reads (rev [Short 5, Str [104, 105], Double 9]) r1 =
            Inr (rev [Short 5, Str [104, 105], Double 9], r2) \<and> body (m_pktIn r2) = [])" by blast
  have "get_front (m_PktIn (m_Client (demo_node [m_pktOut t]))) = Inr \<lparr>connectionPtr = None, opkt = m_pktOut t\<rparr>"
    by (simp add: get_front_def)
  with r demo_node_simps(1) have "\<exists>r1 r2. node_process (demo_node [m_pktOut t]) = Inr r1 \<and>
      signals r1 = signals (demo_node [m_pktOut t]) @ [3] \<and>
      node_reads (rev [Short 5, Str [104, 105], Double 9]) r1 =
        Inr (rev [Short 5, Str [104, 105], Double 9], r2) \<and> body (m_pktIn r2) = []"
    by (metis owned_packet.select_convs(2))
  with t show ?thesis by (auto simp del: fold_result.simps node_reads.simps)
qed

text \<open>
  C18. \<^verbatim>\<open>ReadString\<close> stays inside its buffers exactly when the received body has a zero
  byte and fewer than 5120 bytes after the last one: at 5120 the array has no terminator
  left, beyond it the copy overruns the array, and without a zero byte the scan runs off the
  body. The sender decides.
\<close>

theorem read_string_faults:
  "(\<exists>t. ReadString s = Inr t) \<longleftrightarrow> 0 \<in> set (body (m_pktIn s)) \<and>
     length (takeWhile (\<lambda>b. b \<noteq> 0) (rev (body (m_pktIn s)))) < MAX_LEN"
proof (cases "0 \<in> set (body (m_pktIn s))")
  case False
  then obtain e where "scan_back (rev (body (m_pktIn s))) 0 = Inl e"
    using scan_back_none [of "rev (body (m_pktIn s))" 0] by auto
  with False show ?thesis by (simp add: ReadString_def Let_def)
next
  case True
  then obtain bs cs where b: "body (m_pktIn s) = bs @ 0 # cs" "0 \<notin> set cs"
    by (metis split_list_last)
  have tw: "length (takeWhile (\<lambda>b. b \<noteq> 0) (rev (body (m_pktIn s)))) = length cs"
  proof -
    have "takeWhile (\<lambda>b. b \<noteq> 0) (rev cs @ 0 # rev bs) = rev cs"
      using b(2) by (subst takeWhile_append2) auto
    then show ?thesis by (simp add: b(1))
  qed
  have sc: "scan_back (rev (body (m_pktIn s))) 0 = Inr (length cs)"
    using scan_back_nonzero [of "rev cs" "rev bs" 0] b by simp
  show ?thesis
  proof (cases "length cs < MAX_LEN")
    case True
    with ReadString_result [OF b] tw b show ?thesis by simp
  next
    case False
    have "\<exists>e. c_string (overwrite cs (replicate MAX_LEN 0)) = Inl e" if "length cs = MAX_LEN"
    proof -
      have "\<exists>e. c_string xs = Inl e" if "0 \<notin> set xs" for xs :: "byte list"
        using that by (induction xs) auto
      then show ?thesis using that b(2) by (simp add: overwrite_def)
    qed
    with False tw b sc show ?thesis by (auto simp: ReadString_def Let_def)
  qed
qed

text \<open>
  \<^verbatim>\<open>PreparePacket\<close> clears the body but not the size in the header: a message with no
  data sent after one with data carries the old size, and the server takes the first bytes
  of the header that follows for its body; from there on it is out of step with the stream.
\<close>

theorem node_empty_message_desyncs:
  fixes s :: net_node and a b :: u32 and c1 c2 c3 :: u16
  assumes "client_IsConnected (m_Client s)"
  defines "n1 \<equiv> WriteLong a (WriteCmd c1 (snd (PreparePacket s)))"
  defines "n2 \<equiv> WriteCmd c2 (snd (PreparePacket n1))"
  defines "n3 \<equiv> WriteLong b (WriteCmd c3 (snd (PreparePacket n2)))"
  shows "\<exists>st. stream_reach outcome (upstream me sid0 sid1 i) st \<and>
    sent st = [m_pktOut n1, m_pktOut n2, m_pktOut n3] \<and> body (m_pktOut n2) = [] \<and>
    map opkt (delivered st) =
      [m_pktOut n1, (m_pktOut n2)\<lparr>body := take 4 (header_bytes 0 (header (m_pktOut n3)))\<rparr>]"
proof -
  let ?e = "m_pktOut n2" and ?q = "m_pktOut n3"
  let ?d = "?e\<lparr>body := take 4 (header_bytes 0 (header ?q))\<rparr>"
  have up: "client_IsConnected (m_Client n1)" "client_IsConnected (m_Client n2)"
    using assms(1) by (simp_all add: n1_def n2_def WriteLong_def WriteCmd_def PreparePacket_def)
  have p: "body (m_pktOut n1) = le_bytes 4 a" "hsize (header (m_pktOut n1)) = 4"
    using assms(1) by (simp_all add: n1_def WriteLong_def WriteCmd_def PreparePacket_def push_as_def)
  have e: "body ?e = []" "hsize (header ?e) = 4"
    using up p by (simp_all add: n2_def WriteCmd_def PreparePacket_def)
  have q: "body ?q = le_bytes 4 b"
    using up by (simp add: n3_def WriteLong_def WriteCmd_def PreparePacket_def push_as_def)
  have len: "length (take 4 (header_bytes 0 (header ?q))) = 4"
    using length_header_bytes [of 0 "header ?q"] by (simp add: sizeof_header_def)
  have ne: "take 4 (header_bytes 0 (header ?q)) \<noteq> []" using len by (metis length_0_conv zero_neq_numeral)
  have exact: "\<forall>d \<in> set [m_pktOut n1, ?d]. exact d" using p e len by (simp add: exact_def)
  have "wire_of [m_pktOut n1, ?e, ?q] = wire_of [m_pktOut n1, ?d] @ drop 4 (header_bytes 0 (header ?q)) @ body ?q"
    using e by (simp add: wire_of_def wire_bytes_def)
  from asio.runs [OF stream_start_streams(1) exact this] obtain st where
    "stream_reach outcome (upstream me sid0 sid1 i) st" "sent st = [m_pktOut n1, ?e, ?q]"
    "map opkt (delivered st) = deliver [] [m_pktOut n1, ?d]" by blast
  with e(1) p(1) ne show ?thesis by (intro exI [of _ st]) simp
qed

lemma node_empty_message_desyncs_witness:
  "\<exists>st. length (sent st) = 3 \<and> length (delivered st) = 2 \<and> stream_reach outcome (upstream 0 0 0 1) st"
proof -
  from node_empty_message_desyncs [OF demo_node_simps(1) [of "[]"], of 0 0 0 1 7 6 7 9 5] obtain st where
    st: "stream_reach outcome (upstream 0 0 0 1) st" "length (sent st) = 3"
      "length (map opkt (delivered st)) = 2" by auto
  then show ?thesis by (metis length_map)
qed

text \<open>
  \<^verbatim>\<open>_process\<close> looks at the front packet without taking it: every frame signals the
  same packet again, until the script calls \<^verbatim>\<open>PrepareNextPkt\<close>, which takes exactly that
  packet off (and pops an empty queue when there is none).
\<close>

theorem node_process_repeats:
  assumes "client_IsConnected (m_Client s)"
  shows "(m_deqQueue (m_PktIn (m_Client s)) = w # ws \<longrightarrow>
      (\<exists>t. fold_result (\<lambda>_. node_process) (replicate n ()) s = Inr t \<and>
         signals t = signals s @ replicate n (cmdID (header (opkt w))) \<and> m_Client t = m_Client s \<and>
         (\<exists>u. PrepareNextPkt t = Inr u \<and> m_deqQueue (m_PktIn (m_Client u)) = ws \<and>
            body (m_pktIn u) = []))) \<and>
    (m_deqQueue (m_PktIn (m_Client s)) = [] \<longrightarrow>
      node_process s = Inr s \<and> PrepareNextPkt s = Inl Empty_container)"
proof -
  have "\<exists>t. fold_result (\<lambda>_. node_process) (replicate n ()) s = Inr t \<and>
      signals t = signals s @ replicate n (cmdID (header (opkt w))) \<and> m_Client t = m_Client s"
    if "m_deqQueue (m_PktIn (m_Client s)) = w # ws" "client_IsConnected (m_Client s)" for s
    using that
  proof (induction n arbitrary: s)
    case (Suc n)
    let ?t = "s\<lparr>m_pktIn := opkt w, signals := signals s @ [cmdID (header (opkt w))]\<rparr>"
    have "node_process s = Inr ?t"
      using Suc.prems by (simp add: node_process_def is_empty_def get_front_def del: client_IsConnected.simps)
    moreover obtain t where "fold_result (\<lambda>_. node_process) (replicate n ()) ?t = Inr t"
      "signals t = signals ?t @ replicate n (cmdID (header (opkt w)))" "m_Client t = m_Client s"
      using Suc.IH [of ?t] Suc.prems by auto
    ultimately show ?case by (intro exI [of _ t]) simp
  qed simp
  from this [OF _ assms] show ?thesis
    using assms by (fastforce simp: PrepareNextPkt_def pop_front_def node_process_def is_empty_def)
qed

lemma node_process_repeats_witness:
  "\<exists>t. fold_result (\<lambda>_. node_process) (replicate 3 ()) (demo_node [sample Ping []]) = Inr t \<and>
     signals t = replicate 3 6"
proof -
  have "m_deqQueue (m_PktIn (m_Client (demo_node [sample Ping []]))) = \<lparr>connectionPtr = None, opkt = sample Ping []\<rparr> # []"
    by simp
  with node_process_repeats [OF demo_node_simps(1) [of "[sample Ping []]"], of "\<lparr>connectionPtr = None, opkt = sample Ping []\<rparr>" "[]" 3]
  show ?thesis by (auto simp: sample_def)
qed

end
