(* ===== verification/AsioOpQueue.thy ===== *)
theory AsioOpQueue
  imports Prelude
begin

text \<open>
  \<^verbatim>\<open>asio/detail/op_queue.hpp\<close>: the intrusive queue of operations. An operation carries its own
  link (\<^verbatim>\<open>next_\<close>), so all queues share one store of links and an operation can be in one
  queue at a time. Operations are their addresses; a null pointer is \<^verbatim>\<open>None\<close>.

  Shown: a family of queues over one store of links is a family of disjoint lists, and what
  \<^verbatim>\<open>is_enqueued\<close> tells of an operation.
\<close>

section \<open>State and operations\<close>

type_synonym 'op links = "'op \<Rightarrow> 'op option"

record 'op op_queue =
  op_front :: "'op option"
  op_back :: "'op option"

definition op_queue_new :: "'op op_queue" where
  "op_queue_new = \<lparr>op_front = None, op_back = None\<rparr>"

fun op_pop :: "'op op_queue \<times> 'op links \<Rightarrow> 'op op_queue \<times> 'op links" where
  "op_pop (q, nx) =
     (case op_front q of
        None \<Rightarrow> (q, nx)
      | Some tmp \<Rightarrow>
          let q1 = q\<lparr>op_front := nx tmp\<rparr>;
              q2 = (if op_front q1 = None then q1\<lparr>op_back := None\<rparr> else q1)
          in (q2, nx(tmp := None)))"

fun op_push :: "'op \<Rightarrow> 'op op_queue \<times> 'op links \<Rightarrow> 'op op_queue \<times> 'op links" where
  "op_push h (q, nx) =
     (let next1 = nx(h := None)
      in case op_back q of
           Some b \<Rightarrow> (q\<lparr>op_back := Some h\<rparr>, next1(b := Some h))
         | None \<Rightarrow> (\<lparr>op_front = Some h, op_back = Some h\<rparr>, next1))"

text \<open>\<^verbatim>\<open>push\<close> of a queue: the links of the source, the two queues afterwards.\<close>

fun op_push_queue :: "'op op_queue \<Rightarrow> 'op op_queue \<times> 'op links \<Rightarrow> ('op op_queue \<times> 'op op_queue) \<times> 'op links" where
  "op_push_queue src (q, nx) =
     (case op_front src of
        None \<Rightarrow> ((q, src), nx)
      | Some ofront \<Rightarrow>
          let (q1, next1) =
            (case op_back q of
               Some b \<Rightarrow> (q, nx(b := Some ofront))
             | None \<Rightarrow> (q\<lparr>op_front := Some ofront\<rparr>, nx))
          in ((q1\<lparr>op_back := op_back src\<rparr>, src\<lparr>op_front := None, op_back := None\<rparr>), next1))"

definition op_empty :: "'op op_queue \<Rightarrow> bool" where
  "op_empty q \<longleftrightarrow> op_front q = None"

fun is_enqueued :: "'op \<Rightarrow> 'op op_queue \<times> 'op links \<Rightarrow> bool" where
  "is_enqueued x (q, nx) \<longleftrightarrow> nx x \<noteq> None \<or> op_back q = Some x"

text \<open>
  The loops \<^verbatim>\<open>while (op = q.front()) { q.pop(); ... }\<close> of the destructor and of the event
  loop; the result is the operations in the order they are taken. A cyclic store of links
  would never let it end.
\<close>

partial_function (option) op_drain :: "'op op_queue \<times> 'op links \<Rightarrow> ('op list \<times> 'op op_queue \<times> 'op links) option" where
  "op_drain s =
     (case op_front (fst s) of
        None \<Rightarrow> Some ([], s)
      | Some x \<Rightarrow> Option.bind (op_drain (op_pop s)) (\<lambda>(xs, t). Some (x # xs, t)))"

section \<open>A queue is a list\<close>

fun chain :: "'op links \<Rightarrow> 'op list \<Rightarrow> bool" where
  "chain nx [] \<longleftrightarrow> True"
| "chain nx [x] \<longleftrightarrow> nx x = None"
| "chain nx (x # y # zs) \<longleftrightarrow> nx x = Some y \<and> chain nx (y # zs)"

definition represents :: "'op op_queue \<times> 'op links \<Rightarrow> 'op list \<Rightarrow> bool" where
  "represents s xs \<longleftrightarrow> distinct xs \<and> chain (snd s) xs \<and>
     op_front (fst s) = (if xs = [] then None else Some (hd xs)) \<and>
     op_back (fst s) = (if xs = [] then None else Some (last xs))"

lemma chain_upd [simp]: "x \<notin> set xs \<Longrightarrow> chain (nx(x := v)) xs = chain nx xs"
  by (induction nx xs rule: chain.induct) auto

lemma chain_cong: "(\<And>x. x \<in> set xs \<Longrightarrow> f x = g x) \<Longrightarrow> chain f xs = chain g xs"
  by (induction f xs rule: chain.induct) auto

lemma chain_append:
  assumes "distinct (xs @ ys)" and "xs \<noteq> []" "ys \<noteq> []" and "chain nx xs" "chain nx ys"
  shows "chain (nx(last xs := Some (hd ys))) (xs @ ys)"
  using assms
proof (induction nx xs rule: chain.induct)
  case (2 nx x)
  then obtain y zs where "ys = y # zs" by (cases ys) auto
  with 2 show ?case by (simp del: fun_upd_apply) simp
qed auto

lemma chain_next_Some: "chain nx xs \<Longrightarrow> distinct xs \<Longrightarrow> x \<in> set xs \<Longrightarrow> nx x = None \<longleftrightarrow> x = last xs"
  by (induction nx xs rule: chain.induct) auto

lemma represents_Nil [simp]: "represents (op_queue_new, nx) []"
  by (simp add: represents_def op_queue_new_def)

lemma represents_empty: "represents s xs \<Longrightarrow> op_empty (fst s) \<longleftrightarrow> xs = []"
  by (simp add: represents_def op_empty_def)

lemma represents_cong:
  "represents (q, f) xs \<Longrightarrow> (\<And>x. x \<in> set xs \<Longrightarrow> f x = g x) \<Longrightarrow> represents (q, g) xs"
  by (simp add: represents_def chain_cong [of xs f g])

lemma represents_pop: "represents s xs \<Longrightarrow> represents (op_pop s) (tl xs)"
proof (cases "(snd s, xs)" rule: chain.cases)
  case (2 _ x)
  moreover assume "represents s xs"
  ultimately show ?thesis by (cases s) (simp add: represents_def)
next
  case (3 _ x y zs)
  moreover assume "represents s xs"
  ultimately show ?thesis by (cases s) (auto simp: represents_def)
qed (cases s; simp add: represents_def)

lemma represents_push:
  assumes "represents (q, nx) xs" and "h \<notin> set xs"
  shows "represents (op_push h (q, nx)) (xs @ [h])"
proof (cases "xs = []")
  case False
  then have "last xs \<noteq> h" using assms(2) by auto
  then have "chain (nx(h := None, last xs := Some (hd [h]))) (xs @ [h])"
    using assms False by (intro chain_append) (auto simp: represents_def)
  with assms False show ?thesis by (auto simp: represents_def)
qed (use assms in \<open>simp add: represents_def\<close>)

lemma represents_push_queue:
  assumes "represents (q, nx) xs" and "represents (src, nx) ys" and "set xs \<inter> set ys = {}"
    and "op_push_queue src (q, nx) = ((q', src'), next')"
  shows "represents (q', next') (xs @ ys)" and "represents (src', next') []"
proof -
  show "represents (src', next') []"
    using assms by (auto simp: represents_def split: if_splits option.splits prod.splits)
  show "represents (q', next') (xs @ ys)"
  proof (cases "xs = [] \<or> ys = []")
    case True
    with assms show ?thesis by (auto simp: represents_def split: if_splits)
  next
    case False
    then have "chain (nx(last xs := Some (hd ys))) (xs @ ys)"
      using assms by (intro chain_append) (auto simp: represents_def)
    with assms False show ?thesis by (auto simp: represents_def)
  qed
qed

lemma represents_drain:
  "represents s xs \<Longrightarrow> \<exists>t. op_drain s = Some (xs, t) \<and> represents t []"
proof (induction xs arbitrary: s)
  case Nil
  then show ?case by (subst op_drain.simps) (simp add: represents_def)
next
  case (Cons x xs)
  from represents_pop [OF Cons.prems] have "represents (op_pop s) xs" by simp
  from Cons.IH [OF this] obtain t where "op_drain (op_pop s) = Some (xs, t)" "represents t []"
    by blast
  moreover have "op_front (fst s) = Some x" using Cons.prems by (simp add: represents_def)
  ultimately show ?case by (subst op_drain.simps) simp
qed

section \<open>Queues over one store of links\<close>

record 'op op_queues =
  qs :: "nat \<Rightarrow> 'op op_queue"
  links :: "'op links"

datatype 'op queue_op = Q_push nat 'op | Q_pop nat | Q_splice nat nat

definition set_queue :: "nat \<Rightarrow> 'op op_queue \<times> 'op links \<Rightarrow> 'op op_queues \<Rightarrow> 'op op_queues" where
  "set_queue i s st = \<lparr>qs = (qs st)(i := fst s), links = snd s\<rparr>"

fun queues_step :: "'op queue_op \<Rightarrow> 'op op_queues \<Rightarrow> 'op op_queues" where
  "queues_step (Q_push i h) st = set_queue i (op_push h (qs st i, links st)) st"
| "queues_step (Q_pop i) st = set_queue i (op_pop (qs st i, links st)) st"
| "queues_step (Q_splice i j) st =
     (let ((q, src), nx) = op_push_queue (qs st j) (qs st i, links st)
      in set_queue j (src, nx) (set_queue i (q, nx) st))"

fun lists_step :: "'op queue_op \<Rightarrow> (nat \<Rightarrow> 'op list) \<Rightarrow> nat \<Rightarrow> 'op list" where
  "lists_step (Q_push i h) f = f(i := f i @ [h])"
| "lists_step (Q_pop i) f = f(i := tl (f i))"
| "lists_step (Q_splice i j) f = f(i := f i @ f j, j := [])"

text \<open>
  What the callers see to: a pushed operation is in no queue, and a queue is not pushed onto
  itself.
\<close>

fun queue_op_ok :: "(nat \<Rightarrow> 'op list) \<Rightarrow> 'op queue_op \<Rightarrow> bool" where
  "queue_op_ok f (Q_push i h) \<longleftrightarrow> (\<forall>j. h \<notin> set (f j))"
| "queue_op_ok f (Q_pop i) \<longleftrightarrow> True"
| "queue_op_ok f (Q_splice i j) \<longleftrightarrow> i \<noteq> j"

definition family :: "'op op_queues \<Rightarrow> (nat \<Rightarrow> 'op list) \<Rightarrow> bool" where
  "family st f \<longleftrightarrow> (\<forall>i. represents (qs st i, links st) (f i)) \<and>
     (\<forall>i j. i \<noteq> j \<longrightarrow> set (f i) \<inter> set (f j) = {}) \<and>
     (\<forall>x. links st x \<noteq> None \<longrightarrow> (\<exists>i. x \<in> set (f i)))"

lemma family_represents: "family st f \<Longrightarrow> represents (qs st i, links st) (f i)"
  by (simp add: family_def)

lemma family_linked: "family st f \<Longrightarrow> links st x = Some y \<Longrightarrow> \<exists>i. x \<in> set (f i)"
  by (auto simp: family_def)

lemma family_enqueued:
  assumes "family st f"
  shows "is_enqueued x (qs st i, links st) \<longleftrightarrow>
    x \<in> set (f i) \<or> (\<exists>j. x \<in> set (f j) \<and> x \<noteq> last (f j))"
proof -
  have r: "represents (qs st j, links st) (f j)" for j
    using assms by (rule family_represents)
  have n: "links st x = None \<longleftrightarrow> x = last (f j)" if "x \<in> set (f j)" for j
    using r [of j] that by (simp add: represents_def chain_next_Some)
  show ?thesis
  proof (cases "\<exists>j. x \<in> set (f j)")
    case True
    then obtain j where j: "x \<in> set (f j)" by blast
    then have "k = j" if "x \<in> set (f k)" for k using that assms by (auto simp: family_def)
    then have "(x \<in> set (f i) \<or> (\<exists>k. x \<in> set (f k) \<and> x \<noteq> last (f k))) \<longleftrightarrow> i = j \<or> x \<noteq> last (f j)"
      using j by blast
    moreover have "op_back (qs st i) = Some x \<Longrightarrow> x \<in> set (f i)"
      using r [of i] by (auto simp: represents_def split: if_splits)
    moreover have "op_back (qs st j) = Some (last (f j))"
      using r [of j] j by (auto simp: represents_def split: if_splits)
    ultimately show ?thesis using n [OF j] \<open>\<And>k. x \<in> set (f k) \<Longrightarrow> k = j\<close> by auto
  next
    case False
    then have "links st x = None" using family_linked [OF assms, of x] by fastforce
    moreover have "op_back (qs st i) \<noteq> Some x"
      using False r [of i] by (auto simp: represents_def) (metis last_in_set)
    ultimately show ?thesis using False by auto
  qed
qed

lemma family_set_queue:
  assumes "family st f" and "represents s xs"
    and "\<And>j x. j \<noteq> i \<Longrightarrow> x \<in> set (f j) \<Longrightarrow> snd s x = links st x \<and> x \<notin> set xs"
    and "\<And>x. snd s x \<noteq> None \<Longrightarrow> x \<in> set xs \<or> (\<exists>j. j \<noteq> i \<and> x \<in> set (f j))"
  shows "family (set_queue i s st) (f(i := xs))"
proof -
  have "represents (qs (set_queue i s st) j, snd s) ((f(i := xs)) j)" for j
  proof (cases "j = i")
    case False
    with assms(3) have "represents (qs st j, snd s) (f j)"
      by (intro represents_cong [OF family_represents [OF assms(1)]]) simp
    with False show ?thesis by (simp add: set_queue_def)
  qed (use assms(2) in \<open>simp add: set_queue_def\<close>)
  moreover have "set ((f(i := xs)) j) \<inter> set ((f(i := xs)) k) = {}" if "j \<noteq> k" for j k
    using that assms(1) assms(3) [of j] assms(3) [of k] by (cases "j = i"; cases "k = i") (auto simp: family_def)
  moreover have "\<exists>k. x \<in> set ((f(i := xs)) k)" if "snd s x \<noteq> None" for x
    using assms(4) [OF that] by (metis fun_upd_apply)
  ultimately show ?thesis by (simp add: family_def set_queue_def del: fun_upd_apply)
qed

lemma links_push:
  "represents (q, nx) xs \<Longrightarrow> snd (op_push h (q, nx)) =
    (if xs = [] then nx(h := None) else nx(h := None, last xs := Some h))"
  by (simp add: represents_def)

lemma links_pop:
  "represents (q, nx) xs \<Longrightarrow> snd (op_pop (q, nx)) = (if xs = [] then nx else nx(hd xs := None))"
  by (simp add: represents_def Let_def)

lemma links_push_queue:
  "represents (q, nx) xs \<Longrightarrow> represents (src, nx) ys \<Longrightarrow> snd (op_push_queue src (q, nx)) =
    (if xs = [] \<or> ys = [] then nx else nx(last xs := Some (hd ys)))"
  by (simp add: represents_def)

lemma family_disjoint: "family st f \<Longrightarrow> x \<in> set (f i) \<Longrightarrow> x \<in> set (f j) \<Longrightarrow> i = j"
  by (auto simp: family_def)

lemma family_last: "family st f \<Longrightarrow> f i \<noteq> [] \<Longrightarrow> last (f i) \<in> set (f j) \<longleftrightarrow> j = i"
  using family_disjoint [of st f "last (f i)" i j] by auto

lemma family_hd: "family st f \<Longrightarrow> f i \<noteq> [] \<Longrightarrow> hd (f i) \<in> set (f j) \<longleftrightarrow> j = i"
  using family_disjoint [of st f "hd (f i)" i j] by auto

lemma family_push:
  assumes fam: "family st f" and h: "\<And>j. h \<notin> set (f j)"
  shows "family (set_queue i (op_push h (qs st i, links st)) st) (f(i := f i @ [h]))"
proof (rule family_set_queue [OF fam])
  have r: "represents (qs st i, links st) (f i)" using fam by (rule family_represents)
  then show "represents (op_push h (qs st i, links st)) (f i @ [h])"
    using h by (rule represents_push)
  show "snd (op_push h (qs st i, links st)) x = links st x \<and> x \<notin> set (f i @ [h])"
    if "j \<noteq> i" "x \<in> set (f j)" for j x
  proof -
    have "x \<noteq> h" "x \<notin> set (f i)" "f i \<noteq> [] \<Longrightarrow> x \<noteq> last (f i)"
      using that h [of j] family_disjoint [OF fam, of x i j] by (blast, blast, auto)
    then show ?thesis unfolding links_push [OF r] by simp
  qed
  show "x \<in> set (f i @ [h]) \<or> (\<exists>j. j \<noteq> i \<and> x \<in> set (f j))"
    if "snd (op_push h (qs st i, links st)) x \<noteq> None" for x
  proof (cases "x = last (f i) \<and> f i \<noteq> []")
    case False
    then have "x = h \<or> links st x \<noteq> None"
      using that unfolding links_push [OF r] by (auto split: if_splits)
    with family_linked [OF fam, of x] show ?thesis by auto
  qed simp
qed

lemma family_pop:
  assumes fam: "family st f"
  shows "family (set_queue i (op_pop (qs st i, links st)) st) (f(i := tl (f i)))"
proof (rule family_set_queue [OF fam])
  have r: "represents (qs st i, links st) (f i)" using fam by (rule family_represents)
  then show "represents (op_pop (qs st i, links st)) (tl (f i))" by (rule represents_pop)
  show "snd (op_pop (qs st i, links st)) x = links st x \<and> x \<notin> set (tl (f i))"
    if "j \<noteq> i" "x \<in> set (f j)" for j x
    using that family_hd [OF fam, of i j] family_disjoint [OF fam, of x i j]
    unfolding links_pop [OF r] by (cases "f i") auto
  show "x \<in> set (tl (f i)) \<or> (\<exists>j. j \<noteq> i \<and> x \<in> set (f j))"
    if "snd (op_pop (qs st i, links st)) x \<noteq> None" for x
  proof -
    have n: "f i \<noteq> [] \<Longrightarrow> x \<noteq> hd (f i)" and "links st x \<noteq> None"
      using that unfolding links_pop [OF r] by (auto split: if_splits)
    then obtain y where "links st x = Some y" by blast
    from family_linked [OF fam this] obtain k where "x \<in> set (f k)" ..
    with n show ?thesis by (cases "k = i"; cases "f i") auto
  qed
qed

lemma family_splice:
  assumes fam: "family st f" and ij: "i \<noteq> j"
  shows "family (queues_step (Q_splice i j) st) (f(i := f i @ f j, j := []))"
proof -
  obtain q src nx where e: "op_push_queue (qs st j) (qs st i, links st) = ((q, src), nx)"
    by (metis prod.exhaust)
  have r: "represents (qs st k, links st) (f k)" for k using fam by (rule family_represents)
  have d: "set (f i) \<inter> set (f j) = {}" using fam ij by (auto simp: family_def)
  from represents_push_queue [OF r r d e] have rq: "represents (q, nx) (f i @ f j)"
    and rs: "represents (src, nx) []" by blast+
  have nx: "nx = (if f i = [] \<or> f j = [] then links st else (links st)(last (f i) := Some (hd (f j))))"
    using links_push_queue [OF r r, of j i] e by simp
  have l: "last (f i) \<in> set (f i)" if "f i \<noteq> []" using that by simp
  have "nx x = links st x" if "x \<in> set (f k)" "k \<noteq> i" for x k
    using that l family_disjoint [OF fam, of x i k] unfolding nx by auto
  then have rk: "represents (qs st k, nx) (f k)" if "k \<noteq> i" for k
    using that by (intro represents_cong [OF r]) simp
  have "represents (qs (queues_step (Q_splice i j) st) k, nx) ((f(i := f i @ f j, j := [])) k)" for k
    using rq rs rk [of k] e by (simp add: set_queue_def)
  moreover have "set ((f(i := f i @ f j, j := [])) k) \<inter> set ((f(i := f i @ f j, j := [])) m) = {}" if "k \<noteq> m" for k m
    using that family_disjoint [OF fam] by auto
  moreover have "\<exists>k. x \<in> set ((f(i := f i @ f j, j := [])) k)" if "nx x = Some y" for x y
  proof -
    have "x \<in> set (f i) \<or> links st x = Some y"
      using that l unfolding nx by (auto split: if_splits)
    with family_linked [OF fam, of x y] obtain k where "x \<in> set (f k)" by blast
    with ij show ?thesis by (intro exI [of _ "if k = j then i else k"]) auto
  qed
  ultimately show ?thesis
    unfolding family_def queues_step.simps e Let_def prod.case
    by (simp add: set_queue_def del: fun_upd_apply) blast
qed

lemma family_step:
  assumes "family st f" and "queue_op_ok f a"
  shows "family (queues_step a st) (lists_step a f)"
  using assms by (cases a)
    (simp_all add: family_push family_pop family_splice del: queues_step.simps(3) fun_upd_apply op_push.simps op_pop.simps)

lemma family_new: "family \<lparr>qs = \<lambda>_. op_queue_new, links = \<lambda>_. None\<rparr> (\<lambda>_. [])"
  by (simp add: family_def)

definition no_queues :: "'op op_queues" where
  "no_queues = \<lparr>qs = \<lambda>_. op_queue_new, links = \<lambda>_. None\<rparr>"

fun queue_ops_ok :: "(nat \<Rightarrow> 'op list) \<Rightarrow> 'op queue_op list \<Rightarrow> bool" where
  "queue_ops_ok f [] \<longleftrightarrow> True"
| "queue_ops_ok f (a # as) \<longleftrightarrow> queue_op_ok f a \<and> queue_ops_ok (lists_step a f) as"

lemma family_steps:
  "family st f \<Longrightarrow> queue_ops_ok f as \<Longrightarrow> family (fold queues_step as st) (fold lists_step as f)"
  by (induction as arbitrary: st f) (simp_all add: family_step del: queues_step.simps lists_step.simps queue_op_ok.simps)

text \<open>
  The intrusive queues of the event loop are lists. However operations are pushed, popped
  and spliced between queues that share the operations' own links, each queue holds the
  list it should, its front is the head of that list, popping until it is empty takes the
  operations in order and ends; and \<^verbatim>\<open>is_enqueued\<close> is true of the operations of the queue,
  but also of those of any other queue that are not the last there.
\<close>

theorem op_queues_are_lists:
  assumes "queue_ops_ok (\<lambda>_. []) as"
  shows "op_front (qs (fold queues_step as no_queues) i) =
      (case fold lists_step as (\<lambda>_. []) i of [] \<Rightarrow> None | x # _ \<Rightarrow> Some x) \<and>
    (\<exists>t. op_drain (qs (fold queues_step as no_queues) i, links (fold queues_step as no_queues)) =
      Some (fold lists_step as (\<lambda>_. []) i, t)) \<and>
    (is_enqueued x (qs (fold queues_step as no_queues) i, links (fold queues_step as no_queues)) \<longleftrightarrow>
      x \<in> set (fold lists_step as (\<lambda>_. []) i) \<or>
      (\<exists>j. x \<in> set (fold lists_step as (\<lambda>_. []) j) \<and> x \<noteq> last (fold lists_step as (\<lambda>_. []) j)))"
proof -
  have fam: "family (fold queues_step as no_queues) (fold lists_step as (\<lambda>_. []))"
    using family_new assms unfolding no_queues_def by (rule family_steps)
  from represents_drain [OF family_represents [OF fam, of i]] family_represents [OF fam, of i]
  show ?thesis unfolding family_enqueued [OF fam]
    by (auto simp: represents_def split: list.splits)
qed

lemma op_queues_are_lists_witness:
  "let as = [Q_push 0 (7 :: nat), Q_push 0 8, Q_push 1 9, Q_splice 1 0, Q_pop 1]
   in op_front (qs (fold queues_step as no_queues) 1) = Some 7 \<and>
     is_enqueued 7 (qs (fold queues_step as no_queues) 0, links (fold queues_step as no_queues))"
  using op_queues_are_lists [of "[Q_push 0 (7 :: nat), Q_push 0 8, Q_push 1 9, Q_splice 1 0, Q_pop 1]" 1 7]
    op_queues_are_lists [of "[Q_push 0 (7 :: nat), Q_push 0 8, Q_push 1 9, Q_splice 1 0, Q_pop 1]" 0 7]
  by (simp add: Let_def del: queues_step.simps is_enqueued.simps)

end
