(* ===== verification/AsioChrono.thy ===== *)
theory AsioChrono
  imports AsioTimerQueue AsioOpQueue "HOL-Library.Signed_Division"
begin

text \<open>
  \<^verbatim>\<open>asio/detail/chrono_time_traits.hpp\<close>: the arithmetic of time points and durations of a
  clock with 64-bit signed ticks, and with it the time \<^verbatim>\<open>timer_queue\<close> tells the event loop to
  wait (\<^verbatim>\<open>wait_duration_msec\<close>, \<^verbatim>\<open>wait_duration_usec\<close>, \<^verbatim>\<open>to_msec\<close>, \<^verbatim>\<open>to_usec\<close>); then
  \<^verbatim>\<open>asio/detail/impl/timer_queue_set.ipp\<close>, the linked list of the timer queues of a loop.
  A time is its number of ticks since the epoch; signed overflow faults.

  Shown: the arithmetic saturates and never overflows, how long the loop waits, and that
  the set of queues is a list.
\<close>

section \<open>Time points and durations\<close>

definition TICKS_MAX :: int where
  "TICKS_MAX = 2 ^ 63 - 1"

definition TICKS_MIN :: int where
  "TICKS_MIN = - (2 ^ 63)"

definition checked :: "int \<Rightarrow> int result" where
  "checked x = (if TICKS_MIN \<le> x \<and> x \<le> TICKS_MAX then Inr x else Inl Signed_overflow)"

definition time_add :: "int \<Rightarrow> int \<Rightarrow> int result" where
  "time_add t d =
     (if t \<ge> 0
      then and_then (checked (TICKS_MAX - t)) (\<lambda>r. if r < d then Inr TICKS_MAX else checked (t + d))
      else and_then (checked (t - TICKS_MIN)) (\<lambda>r. and_then (checked (- r))
        (\<lambda>r'. if r' > d then Inr TICKS_MIN else checked (t + d))))"

definition time_subtract :: "int \<Rightarrow> int \<Rightarrow> int result" where
  "time_subtract t1 t2 =
     (if t1 \<ge> 0
      then if t2 \<ge> 0 then checked (t1 - t2)
           else if t2 = TICKS_MIN then Inr TICKS_MAX
           else and_then (checked (TICKS_MAX - t1)) (\<lambda>r. and_then (checked (0 - t2)) (\<lambda>r'.
             if r < r' then Inr TICKS_MAX else checked (t1 - t2)))
      else if t2 < 0 then checked (t1 - t2)
           else if t1 = TICKS_MIN then Inr TICKS_MIN
           else and_then (checked (TICKS_MAX - t2)) (\<lambda>r. and_then (checked (0 - t1)) (\<lambda>r'.
             if r < r' then Inr TICKS_MIN
             else and_then (checked (t2 - t1)) (\<lambda>x. checked (- x)))))"

definition clamp :: "int \<Rightarrow> int" where
  "clamp x = (if x < TICKS_MIN then TICKS_MIN else if TICKS_MAX < x then TICKS_MAX else x)"

text \<open>\<^verbatim>\<open>gcd<v1, v2>\<close>, an instance of a template at compile time.\<close>

fun chrono_gcd :: "nat \<Rightarrow> nat \<Rightarrow> nat" where
  "chrono_gcd v1 v2 = (if v2 = 0 then v1 else chrono_gcd v2 (v1 mod v2))"

declare chrono_gcd.simps [simp del]

text \<open>
  \<^verbatim>\<open>duration_cast<Num, Den>\<close> of a duration whose period is \<open>pnum / pden\<close> seconds; C++
  division truncates.
\<close>

definition duration_cast :: "nat \<Rightarrow> nat \<Rightarrow> nat \<Rightarrow> nat \<Rightarrow> int \<Rightarrow> int result" where
  "duration_cast pnum pden Num Den ticks =
     (let num1 = pnum div chrono_gcd pnum Num;
          num2 = Num div chrono_gcd pnum Num;
          den1 = pden div chrono_gcd pden Den;
          den2 = Den div chrono_gcd pden Den;
          num = num1 * den2;
          den = num2 * den1
      in if num = 1 \<and> den = 1 then Inr ticks
         else if num \<noteq> 1 \<and> den = 1 then checked (ticks * int num)
         else if num = 1 \<and> pden \<noteq> 1 then Inr (ticks sdiv int den)
         else and_then (checked (ticks * int num)) (\<lambda>x. Inr (x sdiv int den)))"

definition total_milliseconds :: "nat \<Rightarrow> nat \<Rightarrow> int \<Rightarrow> int result" where
  "total_milliseconds pnum pden ticks = duration_cast pnum pden 1 1000 ticks"

definition total_microseconds :: "nat \<Rightarrow> nat \<Rightarrow> int \<Rightarrow> int result" where
  "total_microseconds pnum pden ticks = duration_cast pnum pden 1 1000000 ticks"

section \<open>How long the event loop waits\<close>

text \<open>\<^verbatim>\<open>static_cast<long>\<close>, 32 bits on the platform of the event loop modelled here.\<close>

definition to_long :: "int \<Rightarrow> int" where
  "to_long x = sint (word_of_int x :: 32 word)"

definition to_msec :: "nat \<Rightarrow> nat \<Rightarrow> int \<Rightarrow> int \<Rightarrow> int result" where
  "to_msec pnum pden d max_duration =
     (if d \<le> 0 then Inr 0
      else and_then (total_milliseconds pnum pden d) (\<lambda>msec.
        if msec = 0 then Inr 1
        else if msec > max_duration then Inr max_duration
        else Inr (to_long msec)))"

definition to_usec :: "nat \<Rightarrow> nat \<Rightarrow> int \<Rightarrow> int \<Rightarrow> int result" where
  "to_usec pnum pden d max_duration =
     (if d \<le> 0 then Inr 0
      else and_then (total_microseconds pnum pden d) (\<lambda>usec.
        if usec = 0 then Inr 1
        else if usec > max_duration then Inr max_duration
        else Inr (to_long usec)))"

definition wait_duration_msec :: "nat \<Rightarrow> nat \<Rightarrow> int \<Rightarrow> int \<Rightarrow> (int, 'k, 'op) timer_queue \<Rightarrow> int result" where
  "wait_duration_msec pnum pden now max_duration q =
     (case theap q of
        [] \<Rightarrow> Inr max_duration
      | (time, _) # _ \<Rightarrow> and_then (time_subtract time now) (\<lambda>d. to_msec pnum pden d max_duration))"

definition wait_duration_usec :: "nat \<Rightarrow> nat \<Rightarrow> int \<Rightarrow> int \<Rightarrow> (int, 'k, 'op) timer_queue \<Rightarrow> int result" where
  "wait_duration_usec pnum pden now max_duration q =
     (case theap q of
        [] \<Rightarrow> Inr max_duration
      | (time, _) # _ \<Rightarrow> and_then (time_subtract time now) (\<lambda>d. to_usec pnum pden d max_duration))"

lemma TICKS_MIN_eq: "TICKS_MIN = - TICKS_MAX - 1" "0 < TICKS_MAX"
  by (simp_all add: TICKS_MAX_def TICKS_MIN_def)

lemma checked_Inr: "TICKS_MIN \<le> x \<Longrightarrow> x \<le> TICKS_MAX \<Longrightarrow> checked x = Inr x"
  by (simp add: checked_def)

lemma time_add_clamp:
  assumes "TICKS_MIN \<le> t" "t \<le> TICKS_MAX" and "TICKS_MIN \<le> d" "d \<le> TICKS_MAX"
  shows "time_add t d = Inr (clamp (t + d))"
proof (cases "t \<ge> 0")
  case True
  then have "checked (TICKS_MAX - t) = Inr (TICKS_MAX - t)"
    using assms TICKS_MIN_eq by (intro checked_Inr) linarith+
  with True assms TICKS_MIN_eq show ?thesis
    by (cases "TICKS_MAX - t < d") (simp_all add: time_add_def clamp_def checked_Inr)
next
  case False
  then have "checked (t - TICKS_MIN) = Inr (t - TICKS_MIN)" "checked (- (t - TICKS_MIN)) = Inr (- (t - TICKS_MIN))"
    using assms TICKS_MIN_eq by (intro checked_Inr; linarith)+
  with False assms TICKS_MIN_eq show ?thesis
    by (cases "- (t - TICKS_MIN) > d") (simp_all add: time_add_def clamp_def checked_Inr)
qed

lemma time_subtract_clamp:
  assumes "TICKS_MIN \<le> t" "t \<le> TICKS_MAX" and "TICKS_MIN \<le> d" "d \<le> TICKS_MAX"
  shows "time_subtract t d = Inr (clamp (t - d))"
proof (cases "t \<ge> 0 \<longleftrightarrow> d \<ge> 0")
  case True
  then show ?thesis using assms TICKS_MIN_eq
    by (cases "t \<ge> 0") (simp_all add: time_subtract_def clamp_def checked_Inr)
next
  case False
  show ?thesis
  proof (cases "t \<ge> 0")
    case t: True
    show ?thesis
    proof (cases "d = TICKS_MIN")
      case False
      then have "checked (TICKS_MAX - t) = Inr (TICKS_MAX - t)" "checked (0 - d) = Inr (0 - d)"
        using assms t \<open>\<not> (t \<ge> 0 \<longleftrightarrow> d \<ge> 0)\<close> TICKS_MIN_eq by (intro checked_Inr; linarith)+
      with False t \<open>\<not> (t \<ge> 0 \<longleftrightarrow> d \<ge> 0)\<close> assms TICKS_MIN_eq show ?thesis
        by (cases "TICKS_MAX - t < 0 - d") (simp_all add: time_subtract_def clamp_def checked_Inr)
    qed (use t TICKS_MIN_eq in \<open>simp add: time_subtract_def clamp_def\<close>)
  next
    case t: False
    show ?thesis
    proof (cases "t = TICKS_MIN")
      case False
      then have "checked (TICKS_MAX - d) = Inr (TICKS_MAX - d)" "checked (0 - t) = Inr (0 - t)"
        using assms t \<open>\<not> (t \<ge> 0 \<longleftrightarrow> d \<ge> 0)\<close> TICKS_MIN_eq by (intro checked_Inr; linarith)+
      with False t \<open>\<not> (t \<ge> 0 \<longleftrightarrow> d \<ge> 0)\<close> assms TICKS_MIN_eq show ?thesis
        by (cases "TICKS_MAX - d < 0 - t") (simp_all add: time_subtract_def clamp_def checked_Inr)
    qed (use t \<open>\<not> (t \<ge> 0 \<longleftrightarrow> d \<ge> 0)\<close> assms TICKS_MIN_eq in \<open>simp add: time_subtract_def clamp_def\<close>)
  qed
qed

text \<open>
  The arithmetic of time points saturates: for all times and durations of 64 bits,
  \<^verbatim>\<open>add\<close> and \<^verbatim>\<open>subtract\<close> overflow nowhere on the way and give the exact result when it fits
  and the nearest end of the range when it does not.
\<close>

theorem time_arithmetic_saturates:
  assumes "TICKS_MIN \<le> t" "t \<le> TICKS_MAX" and "TICKS_MIN \<le> d" "d \<le> TICKS_MAX"
  shows "time_add t d = Inr (clamp (t + d)) \<and> time_subtract t d = Inr (clamp (t - d))"
  using assms by (simp add: time_add_clamp time_subtract_clamp)

lemma time_arithmetic_saturates_witness:
  "time_add TICKS_MAX 5 = Inr TICKS_MAX \<and> time_subtract 3 TICKS_MIN = Inr TICKS_MAX"
proof -
  have r: "5 \<le> TICKS_MAX" "3 \<le> TICKS_MAX" by (simp_all add: TICKS_MAX_def)
  then have "clamp (TICKS_MAX + 5) = TICKS_MAX" "clamp (3 - TICKS_MIN) = TICKS_MAX"
    using TICKS_MIN_eq by (simp_all add: clamp_def)
  with time_arithmetic_saturates [of TICKS_MAX 5] time_arithmetic_saturates [of 3 TICKS_MIN] r TICKS_MIN_eq
  show ?thesis by simp
qed

lemma chrono_gcd_eq: "chrono_gcd a b = gcd a b"
proof (induction a b rule: chrono_gcd.induct)
  case (1 a b)
  then show ?case by (cases "b = 0") (simp_all add: chrono_gcd.simps [of a b] chrono_gcd.simps [of a 0] gcd_red_nat [symmetric] gcd.commute)
qed

lemma sdiv_nonneg: "0 \<le> (x :: int) \<Longrightarrow> x sdiv int c = x div int c"
  by (cases "x = 0"; cases c) (simp_all add: signed_divide_int_def sgn_if)

lemma duration_cast_fraction:
  assumes "0 < c" and "1 < Den" and "0 \<le> ticks"
  shows "duration_cast 1 (Den * c) 1 Den ticks = Inr (ticks div int c)"
proof -
  have "gcd (Den * c) Den = Den" by (simp add: gcd_proj2_iff)
  moreover have "Den * c \<noteq> 1" using assms by simp
  ultimately show ?thesis using assms
    by (simp add: duration_cast_def Let_def chrono_gcd_eq sdiv_nonneg)
qed

lemma to_long_id: "0 \<le> x \<Longrightarrow> x < 2 ^ 31 \<Longrightarrow> to_long x = x"
  by (simp add: to_long_def sint_sbintrunc' signed_take_bit_int_eq_self)

text \<open>The closed forms, for a clock that ticks a whole number of times in the unit.\<close>

definition wait_for :: "nat \<Rightarrow> int \<Rightarrow> int \<Rightarrow> int" where
  "wait_for c max_duration d = (if d \<le> 0 then 0 else max 1 (min max_duration (d div int c)))"

lemma to_usec_eq:
  "0 < c \<Longrightarrow> 1 \<le> m \<Longrightarrow> m < 2 ^ 31 \<Longrightarrow> to_usec 1 (1000000 * c) d m = Inr (wait_for c m d)"
  using duration_cast_fraction [of c 1000000 d] pos_imp_zdiv_nonneg_iff [of "int c" d]
  by (auto simp: to_usec_def total_microseconds_def wait_for_def to_long_id)

lemma to_msec_eq:
  "0 < c \<Longrightarrow> 1 \<le> m \<Longrightarrow> m < 2 ^ 31 \<Longrightarrow> to_msec 1 (1000 * c) d m = Inr (wait_for c m d)"
  using duration_cast_fraction [of c 1000 d] pos_imp_zdiv_nonneg_iff [of "int c" d]
  by (auto simp: to_msec_def total_milliseconds_def wait_for_def to_long_id)

lemma clamp_le_0: "clamp x \<le> 0 \<longleftrightarrow> x \<le> 0"
  using TICKS_MIN_eq by (auto simp: clamp_def)

definition time_ok :: "int \<Rightarrow> bool" where
  "time_ok t \<longleftrightarrow> TICKS_MIN \<le> t \<and> t \<le> TICKS_MAX"

text \<open>
  How long the event loop waits for its timers, with a clock that ticks \<open>c\<close> times in a
  microsecond: without timers as long as it may; otherwise not at all exactly when some timer
  is due, and else at least a microsecond (so that the loop does not spin), at most what it
  may, and past no timer's expiry but for the rounding up to a microsecond.
\<close>

theorem wait_duration_bounds:
  assumes "timer_reach q" and "\<And>e. e \<in> set (theap q) \<Longrightarrow> time_ok (fst e)" and "time_ok now"
    and "0 < c" and "1 \<le> m" "m < 2 ^ 31"
  shows "\<exists>w. wait_duration_usec 1 (1000000 * c) now m q = Inr w \<and> 0 \<le> w \<and> w \<le> m \<and>
    (theap q = [] \<longrightarrow> w = m) \<and> (w = 0 \<longleftrightarrow> (\<exists>e \<in> set (theap q). fst e \<le> now)) \<and>
    (\<forall>e \<in> set (theap q). now < fst e \<longrightarrow> w \<le> max 1 ((fst e - now) div int c))"
proof (cases "theap q")
  case Nil
  then show ?thesis using assms by (simp add: wait_duration_usec_def)
next
  case (Cons e h)
  obtain t k where e: "e = (t, k)" by fastforce
  let ?w = "wait_for c m (clamp (t - now))"
  from timer_reach_ok [OF assms(1)] obtain L where "tq_ok q L" by blast
  from heap_head [OF this] Cons e have min: "t \<le> fst e'" if "e' \<in> set (theap q)" for e' using that by auto
  have "time_ok t" using assms(2) [of e] Cons e by simp
  then have "wait_duration_usec 1 (1000000 * c) now m q = Inr ?w"
    using Cons e assms(3-) by (simp add: wait_duration_usec_def time_ok_def time_subtract_clamp to_usec_eq del: One_nat_def)
  moreover have "0 \<le> ?w" "?w \<le> m" using assms(5) by (simp_all add: wait_for_def le_max_iff_disj)
  moreover have "?w = 0 \<longleftrightarrow> t \<le> now" using clamp_le_0 [of "t - now"] assms(5) by (auto simp: wait_for_def)
  moreover have "t \<le> now \<longleftrightarrow> (\<exists>e \<in> set (theap q). fst e \<le> now)"
    using min Cons e by (metis fst_conv list.set_intros(1) order_trans)
  moreover have "?w \<le> max 1 ((fst e' - now) div int c)" if "e' \<in> set (theap q)" "now < fst e'" for e'
  proof -
    have "clamp (t - now) \<le> fst e' - now"
      using min [OF that(1)] that(2) TICKS_MIN_eq by (auto simp: clamp_def)
    then have "clamp (t - now) div int c \<le> (fst e' - now) div int c" using assms(4) by (simp add: zdiv_mono1)
    then show ?thesis by (auto simp: wait_for_def)
  qed
  ultimately show ?thesis using Cons by (intro exI [of _ ?w]) simp
qed

lemma wait_duration_bounds_witness:
  "\<exists>q :: (int, nat, nat) timer_queue. \<exists>w. theap q = [(5000, 0)] \<and>
    wait_duration_usec 1 (1000000 * 1000) 2000 300000000 q = Inr w \<and> 0 < w \<and> w \<le> 3"
proof -
  obtain q where q: "enqueue_timer (\<lambda>_. False) 5000 0 10 (timer_queue_new :: (int, nat, nat) timer_queue) = Inr (True, q)"
    "theap q = [(5000, 0)]"
    by (simp add: enqueue_timer_def timer_queue_new_def timer_linked_def up_heap.simps link_timer_def Let_def fun_upd_idem)
  have "timer_reach q" by (rule reach_enqueue [OF reach_new _ q(1)]) (simp add: timer_queue_new_def SIZE_MAX_def)
  moreover have "time_ok (5000)" "time_ok 2000" by (simp_all add: time_ok_def TICKS_MAX_def TICKS_MIN_def)
  ultimately obtain w where "wait_duration_usec 1 (1000000 * 1000) 2000 300000000 q = Inr w" "0 \<le> w"
    "w = 0 \<longleftrightarrow> (\<exists>e \<in> set (theap q). fst e \<le> 2000)"
    "\<forall>e \<in> set (theap q). 2000 < fst e \<longrightarrow> w \<le> max 1 ((fst e - 2000) div int 1000)"
    using wait_duration_bounds [of q 2000 1000 300000000] q(2) by auto
  with q(2) show ?thesis by (intro exI [of _ q] exI [of _ w]) auto
qed

section \<open>The set of timer queues\<close>

text \<open>
  A queue is its address; the members of the base class that the loops call are arguments.
  The loops \<^verbatim>\<open>for (p = first_; p; p = p->next_)\<close> are \<open>walk_queues\<close> with their bodies.
\<close>

record 'q timer_queue_set =
  tqs_first :: "'q option"
  tqs_next :: "'q links"

definition tqs_new :: "'q timer_queue_set" where
  "tqs_new = \<lparr>tqs_first = None, tqs_next = \<lambda>_. None\<rparr>"

definition tqs_insert :: "'q \<Rightarrow> 'q timer_queue_set \<Rightarrow> 'q timer_queue_set" where
  "tqs_insert q s = s\<lparr>tqs_next := (tqs_next s)(q := tqs_first s), tqs_first := Some q\<rparr>"

partial_function (option) erase_loop :: "'q links \<Rightarrow> 'q \<Rightarrow> 'q \<Rightarrow> 'q links option" where
  "erase_loop nx q p =
     (case nx p of
        None \<Rightarrow> Some nx
      | Some n \<Rightarrow> if n = q then Some (nx(p := nx q, q := None)) else erase_loop nx q n)"

definition tqs_erase :: "'q \<Rightarrow> 'q timer_queue_set \<Rightarrow> 'q timer_queue_set option" where
  "tqs_erase q s =
     (case tqs_first s of
        None \<Rightarrow> Some s
      | Some f \<Rightarrow>
          if q = f then Some (s\<lparr>tqs_first := tqs_next s q, tqs_next := (tqs_next s)(q := None)\<rparr>)
          else map_option (\<lambda>nx. s\<lparr>tqs_next := nx\<rparr>) (erase_loop (tqs_next s) q f))"

partial_function (option) walk_queues :: "'q links \<Rightarrow> ('q \<Rightarrow> 'a \<Rightarrow> 'a) \<Rightarrow> 'q option \<Rightarrow> 'a \<Rightarrow> 'a option" where
  "walk_queues nx f p acc =
     (case p of None \<Rightarrow> Some acc | Some q \<Rightarrow> walk_queues nx f (nx q) (f q acc))"

partial_function (option) all_empty_loop :: "'q links \<Rightarrow> ('q \<Rightarrow> bool) \<Rightarrow> 'q option \<Rightarrow> bool option" where
  "all_empty_loop nx is_mt p =
     (case p of None \<Rightarrow> Some True | Some q \<Rightarrow> if \<not> is_mt q then Some False else all_empty_loop nx is_mt (nx q))"

definition tqs_all_empty :: "('q \<Rightarrow> bool) \<Rightarrow> 'q timer_queue_set \<Rightarrow> bool option" where
  "tqs_all_empty is_mt s = all_empty_loop (tqs_next s) is_mt (tqs_first s)"

text \<open>\<open>wait q d\<close> is \<^verbatim>\<open>q->wait_duration_msec(d)\<close> or \<^verbatim>\<open>q->wait_duration_usec(d)\<close>.\<close>

definition tqs_wait_duration :: "('q \<Rightarrow> int \<Rightarrow> int) \<Rightarrow> int \<Rightarrow> 'q timer_queue_set \<Rightarrow> int option" where
  "tqs_wait_duration wait max_duration s = walk_queues (tqs_next s) wait (tqs_first s) max_duration"

definition tqs_get_ready_timers :: "('q \<Rightarrow> 'a \<Rightarrow> 'a) \<Rightarrow> 'q timer_queue_set \<Rightarrow> 'a \<Rightarrow> 'a option" where
  "tqs_get_ready_timers ready s ops = walk_queues (tqs_next s) ready (tqs_first s) ops"

definition tqs_get_all_timers :: "('q \<Rightarrow> 'a \<Rightarrow> 'a) \<Rightarrow> 'q timer_queue_set \<Rightarrow> 'a \<Rightarrow> 'a option" where
  "tqs_get_all_timers take_all s ops = walk_queues (tqs_next s) take_all (tqs_first s) ops"

definition tqs_list :: "'q timer_queue_set \<Rightarrow> 'q list \<Rightarrow> bool" where
  "tqs_list s L \<longleftrightarrow> distinct L \<and> chain (tqs_next s) L \<and>
     tqs_first s = (if L = [] then None else Some (hd L)) \<and> (\<forall>q. q \<notin> set L \<longrightarrow> tqs_next s q = None)"

lemma chain_Cons: "chain nx (x # xs) \<longleftrightarrow> nx x = (if xs = [] then None else Some (hd xs)) \<and> chain nx xs"
  by (cases xs) auto

lemma walk_queues_fold:
  "chain nx L \<Longrightarrow> walk_queues nx f (if L = [] then None else Some (hd L)) acc = Some (fold f L acc)"
  by (induction L arbitrary: acc) (simp_all add: walk_queues.simps chain_Cons)

lemma all_empty_loop_eq:
  "chain nx L \<Longrightarrow> all_empty_loop nx is_mt (if L = [] then None else Some (hd L)) = Some (list_all is_mt L)"
  by (induction L) (simp_all add: all_empty_loop.simps chain_Cons)

lemma erase_loop_eq:
  "chain nx (p # L) \<Longrightarrow> distinct (p # L) \<Longrightarrow> q \<noteq> p \<Longrightarrow> (q \<notin> set L \<Longrightarrow> nx q = None) \<Longrightarrow>
    \<exists>nx'. erase_loop nx q p = Some nx' \<and> chain nx' (p # remove1 q L) \<and>
      (\<forall>x. x \<notin> set (p # remove1 q L) \<longrightarrow> x \<in> set (p # L) \<or> nx x = None \<longrightarrow> nx' x = None) \<and>
      (\<forall>x. x \<notin> set (p # L) \<longrightarrow> nx' x = nx x)"
proof (induction L arbitrary: p)
  case Nil
  then show ?case by (simp add: erase_loop.simps)
next
  case (Cons n L)
  show ?case
  proof (cases "n = q")
    case True
    define nx' where "nx' = nx(p := nx q, q := None)"
    have same: "nx' x = nx x" if "x \<in> set L" for x using that True Cons.prems(2) by (auto simp: nx'_def)
    then have "chain nx' L" using chain_cong [of L nx' nx] Cons.prems(1) by (simp add: chain_Cons)
    moreover have "nx' p = nx q" "nx' q = None" using Cons.prems(3) by (simp_all add: nx'_def)
    moreover have "erase_loop nx q p = Some nx'" using True Cons.prems(1) by (simp add: erase_loop.simps nx'_def)
    moreover have "nx' x = nx x" if "x \<notin> {p, q}" for x using that by (simp add: nx'_def)
    ultimately show ?thesis using True Cons.prems by (intro exI [of _ nx']) (simp add: chain_Cons, metis)
  next
    case False
    with Cons.prems obtain nx' where nx': "erase_loop nx q n = Some nx'" "chain nx' (n # remove1 q L)"
      "\<forall>x. x \<notin> set (n # remove1 q L) \<longrightarrow> x \<in> set (n # L) \<or> nx x = None \<longrightarrow> nx' x = None"
      "\<forall>x. x \<notin> set (n # L) \<longrightarrow> nx' x = nx x" using Cons.IH [of n] by auto
    from False Cons.prems have "erase_loop nx q p = erase_loop nx q n" by (subst erase_loop.simps) simp
    with nx' False Cons.prems show ?thesis by (intro exI [of _ nx']) auto
  qed
qed

text \<open>
  The set of timer queues is a list: \<^verbatim>\<open>insert\<close> puts a queue in front, \<^verbatim>\<open>erase\<close> takes out
  the one given and leaves the others in place (or does nothing when it is not there), and
  the loops over the set end and visit its queues once each, front to back, so that the
  wait is what each queue makes of the wait before it.
\<close>

theorem timer_queue_set_is_list:
  assumes "tqs_list s L"
  shows "(q \<notin> set L \<longrightarrow> tqs_list (tqs_insert q s) (q # L)) \<and>
    (\<exists>s'. tqs_erase q s = Some s' \<and> tqs_list s' (remove1 q L)) \<and>
    tqs_all_empty is_mt s = Some (list_all is_mt L) \<and>
    tqs_wait_duration wait m s = Some (fold wait L m) \<and>
    tqs_get_ready_timers ready s ops = Some (fold ready L ops) \<and>
    tqs_get_all_timers take_all s ops = Some (fold take_all L ops)"
proof -
  from assms have L: "distinct L" "chain (tqs_next s) L" "tqs_first s = (if L = [] then None else Some (hd L))"
    "\<And>q. q \<notin> set L \<Longrightarrow> tqs_next s q = None" by (auto simp: tqs_list_def)
  have "tqs_list (tqs_insert q s) (q # L)" if "q \<notin> set L"
    using L that by (auto simp: tqs_list_def tqs_insert_def chain_Cons)
  moreover have "\<exists>s'. tqs_erase q s = Some s' \<and> tqs_list s' (remove1 q L)"
  proof (cases L)
    case (Cons f M)
    show ?thesis
    proof (cases "q = f")
      case True
      with L Cons show ?thesis by (auto simp: tqs_erase_def tqs_list_def chain_Cons)
    next
      case False
      with L Cons erase_loop_eq [of "tqs_next s" f M q] obtain nx' where "erase_loop (tqs_next s) q f = Some nx'"
        "chain nx' (f # remove1 q M)"
        "\<forall>x. x \<notin> set (f # remove1 q M) \<longrightarrow> x \<in> set (f # M) \<or> tqs_next s x = None \<longrightarrow> nx' x = None" by auto
      with False L Cons show ?thesis
        by (intro exI [of _ "s\<lparr>tqs_next := nx'\<rparr>"]) (auto simp: tqs_erase_def tqs_list_def)
    qed
  qed (use assms L in \<open>simp add: tqs_erase_def\<close>)
  ultimately show ?thesis using L(2,3)
    by (auto simp: tqs_all_empty_def tqs_wait_duration_def tqs_get_ready_timers_def tqs_get_all_timers_def
        walk_queues_fold all_empty_loop_eq)
qed

lemma timer_queue_set_is_list_witness:
  "tqs_wait_duration (\<lambda>q d. min d (int q)) 9 (tqs_insert 3 (tqs_insert 5 tqs_new)) = Some 3"
proof -
  let ?s = "tqs_insert 3 (tqs_insert 5 tqs_new) :: nat timer_queue_set"
  have "tqs_list ?s [3, 5]"
    by (auto simp: tqs_list_def tqs_insert_def tqs_new_def)
  from timer_queue_set_is_list [OF this, of 7 "\<lambda>_. True" "\<lambda>q d. min d (int q)" 9 "\<lambda>_ x. x" "0 :: nat" "\<lambda>_ x. x"]
  have "tqs_wait_duration (\<lambda>q d. min d (int q)) 9 ?s = Some (fold (\<lambda>q d. min d (int q)) [3, 5] 9)"
    by (elim conjE)
  then show ?thesis by simp
qed

end
