(* ===== verification/AsioSocketOps.thy ===== *)
theory AsioSocketOps
  imports AsioIocp
begin

unbundle bit_operations_syntax

text \<open>
  \<^verbatim>\<open>asio/detail/impl/socket_ops.ipp\<close>, the Windows branches: the functions that wrap the
  system's socket calls, and those that translate what the completion port reports for an
  operation into the error its handler is given. What a system call answers is an argument: its
  return value, the byte count it stores and the error that \<^verbatim>\<open>WSAGetLastError\<close> reports after
  it; a blocking call takes the answers of its rounds.

  Shown: which errors the handlers see, that a blocking call reports success exactly when the
  system did, and that none of them reports that it would block.
\<close>

section \<open>Errors and flags\<close>

text \<open>The numbers of \<^verbatim>\<open>winerror.h\<close>, \<^verbatim>\<open>winsock2.h\<close> and \<^verbatim>\<open>errno.h\<close>.\<close>

definition ERROR_NETNAME_DELETED :: u32 where "ERROR_NETNAME_DELETED = 64"
definition ERROR_SEM_TIMEOUT :: u32 where "ERROR_SEM_TIMEOUT = 121"
definition ERROR_MORE_DATA :: u32 where "ERROR_MORE_DATA = 234"
definition ERROR_CONNECTION_REFUSED :: u32 where "ERROR_CONNECTION_REFUSED = 1225"
definition ERROR_NETWORK_UNREACHABLE :: u32 where "ERROR_NETWORK_UNREACHABLE = 1231"
definition ERROR_HOST_UNREACHABLE :: u32 where "ERROR_HOST_UNREACHABLE = 1232"
definition ERROR_PORT_UNREACHABLE :: u32 where "ERROR_PORT_UNREACHABLE = 1234"
definition WSAEMSGSIZE :: u32 where "WSAEMSGSIZE = 10040"
definition EPROTO :: u32 where "EPROTO = 134"

definition bad_descriptor :: io_error where "bad_descriptor = (System_category, 10009)"
definition invalid_argument :: io_error where "invalid_argument = (System_category, 10022)"
definition would_block :: io_error where "would_block = (System_category, 10035)"
definition in_progress :: io_error where "in_progress = (System_category, 10036)"
definition operation_not_supported :: io_error where "operation_not_supported = (System_category, 10045)"
definition network_unreachable :: io_error where "network_unreachable = (System_category, 10051)"
definition connection_aborted :: io_error where "connection_aborted = (System_category, 10053)"
definition connection_reset :: io_error where "connection_reset = (System_category, 10054)"
definition timed_out :: io_error where "timed_out = (System_category, 10060)"
definition connection_refused :: io_error where "connection_refused = (System_category, 10061)"
definition host_unreachable :: io_error where "host_unreachable = (System_category, 10065)"
definition operation_aborted :: io_error where "operation_aborted = (System_category, 995)"
definition try_again :: io_error where "try_again = (System_category, 1237)"

text \<open>The category of \<^verbatim>\<open>misc_errors\<close> is number 0.\<close>

definition already_open :: io_error where "already_open = (Other_category 0, 1)"
definition eof :: io_error where "eof = (Other_category 0, 2)"
definition not_found :: io_error where "not_found = (Other_category 0, 3)"

lemmas errnos = ERROR_NETNAME_DELETED_def ERROR_SEM_TIMEOUT_def ERROR_MORE_DATA_def
  ERROR_CONNECTION_REFUSED_def ERROR_NETWORK_UNREACHABLE_def ERROR_HOST_UNREACHABLE_def
  ERROR_PORT_UNREACHABLE_def WSAEMSGSIZE_def EPROTO_def bad_descriptor_def invalid_argument_def would_block_def
  in_progress_def operation_not_supported_def network_unreachable_def connection_aborted_def
  connection_reset_def timed_out_def connection_refused_def host_unreachable_def operation_aborted_def
  try_again_def already_open_def eof_def not_found_def success_def

type_synonym state_type = "8 word"

definition user_set_non_blocking :: state_type where "user_set_non_blocking = 1"
definition internal_non_blocking :: state_type where "internal_non_blocking = 2"
definition non_blocking :: state_type where "non_blocking = user_set_non_blocking OR internal_non_blocking"
definition enable_connection_aborted :: state_type where "enable_connection_aborted = 4"
definition user_set_linger :: state_type where "user_set_linger = 8"
definition stream_oriented :: state_type where "stream_oriented = 16"
definition datagram_oriented :: state_type where "datagram_oriented = 32"

lemmas state_flags = user_set_non_blocking_def internal_non_blocking_def non_blocking_def
  enable_connection_aborted_def user_set_linger_def stream_oriented_def datagram_oriented_def

definition has :: "state_type \<Rightarrow> state_type \<Rightarrow> bool" where
  "has st f \<longleftrightarrow> st AND f \<noteq> 0"

type_synonym socket_type = u64

definition invalid_socket :: socket_type where
  "invalid_socket = -1"

definition socket_error_retval :: int where
  "socket_error_retval = -1"

text \<open>An error code holds an error; \<^verbatim>\<open>ec.assign(0, ec.category())\<close> keeps its category.\<close>

definition no_error :: "io_error \<Rightarrow> io_error" where
  "no_error ec = (fst ec, 0)"

definition failed :: "io_error \<Rightarrow> bool" where
  "failed ec \<longleftrightarrow> snd ec \<noteq> 0"

definition get_last_error :: "io_error \<Rightarrow> u32 \<Rightarrow> bool \<Rightarrow> io_error" where
  "get_last_error ec err is_error_condition =
     (if \<not> is_error_condition then no_error ec else (System_category, err))"

section \<open>Completions of the port\<close>

text \<open>\<open>expired\<close>: the socket the operation was started on has been closed by this process.\<close>

definition complete_iocp_recv :: "state_type \<Rightarrow> bool \<Rightarrow> bool \<Rightarrow> io_error \<Rightarrow> u32 \<Rightarrow> io_error" where
  "complete_iocp_recv st expired all_empty ec bytes_transferred =
     (if snd ec = ERROR_NETNAME_DELETED then
        if expired then operation_aborted else connection_reset
      else if snd ec = ERROR_PORT_UNREACHABLE then connection_refused
      else if snd ec = WSAEMSGSIZE \<or> snd ec = ERROR_MORE_DATA then no_error ec
      else if \<not> failed ec \<and> bytes_transferred = 0 \<and> has st stream_oriented \<and> \<not> all_empty then eof
      else ec)"

definition complete_iocp_recvfrom :: "bool \<Rightarrow> io_error \<Rightarrow> io_error" where
  "complete_iocp_recvfrom expired ec =
     (if snd ec = ERROR_NETNAME_DELETED then
        if expired then operation_aborted else connection_reset
      else if snd ec = ERROR_PORT_UNREACHABLE then connection_refused
      else if snd ec = WSAEMSGSIZE \<or> snd ec = ERROR_MORE_DATA then no_error ec
      else ec)"

definition complete_iocp_recvmsg :: "bool \<Rightarrow> io_error \<Rightarrow> io_error" where
  "complete_iocp_recvmsg expired ec =
     (if snd ec = ERROR_NETNAME_DELETED then
        if expired then operation_aborted else connection_reset
      else if snd ec = ERROR_PORT_UNREACHABLE then connection_refused
      else if snd ec = WSAEMSGSIZE \<or> snd ec = ERROR_MORE_DATA then no_error ec
      else ec)"

definition complete_iocp_send :: "bool \<Rightarrow> io_error \<Rightarrow> io_error" where
  "complete_iocp_send expired ec =
     (if snd ec = ERROR_NETNAME_DELETED then
        if expired then operation_aborted else connection_reset
      else if snd ec = ERROR_PORT_UNREACHABLE then connection_refused
      else ec)"

text \<open>
  The switch over the value; then, without an error, \<^verbatim>\<open>SO_UPDATE_CONNECT_CONTEXT\<close> is set: \<open>opt\<close>
  is the outcome of that call, \<open>setsockopt\<close> below.
\<close>

definition complete_iocp_connect :: "(io_error \<Rightarrow> io_error) \<Rightarrow> io_error \<Rightarrow> io_error" where
  "complete_iocp_connect opt ec =
     (let ec1 =
        (if snd ec = ERROR_CONNECTION_REFUSED then connection_refused
         else if snd ec = ERROR_NETWORK_UNREACHABLE then network_unreachable
         else if snd ec = ERROR_HOST_UNREACHABLE then host_unreachable
         else if snd ec = ERROR_SEM_TIMEOUT then timed_out
         else ec)
      in if \<not> failed ec1 then opt ec1 else ec1)"

text \<open>
  \<open>addr\<close>: the capacity of the buffer for the peer's address, when there is one; \<open>remote\<close>: the
  length of the address \<^verbatim>\<open>GetAcceptExSockaddrs\<close> finds. The new length is part of the result.
\<close>

definition complete_iocp_accept ::
  "nat option \<Rightarrow> nat \<Rightarrow> (io_error \<Rightarrow> io_error) \<Rightarrow> io_error \<Rightarrow> nat option \<times> io_error" where
  "complete_iocp_accept addr remote opt ec =
     (let ec1 = (if snd ec = ERROR_NETNAME_DELETED then connection_aborted else ec)
      in if \<not> failed ec1
         then let (addr', ec2) =
                (case addr of
                   None \<Rightarrow> (None, ec1)
                 | Some len \<Rightarrow> if len < remote then (Some len, invalid_argument) else (Some remote, ec1))
              in (addr', opt ec2)
         else (addr, ec1))"

section \<open>Calls that return at once\<close>

text \<open>
  What a system call answers: its return value, the bytes it counted and the last error. The six
  calls of \<^verbatim>\<open>WSARecv\<close>, \<^verbatim>\<open>WSARecvFrom\<close>, \<^verbatim>\<open>WSASend\<close> and \<^verbatim>\<open>WSASendTo\<close> differ in the
  buffers they pass on.
\<close>

record wsa_answer =
  retval :: int
  wsa_bytes :: u32
  wsa_error :: u32

definition recv :: "wsa_answer \<Rightarrow> int \<times> io_error" where
  "recv a =
     (let ec = (System_category, wsa_error a);
          (result, ec1) =
            (if snd ec = ERROR_NETNAME_DELETED then (retval a, connection_reset)
             else if snd ec = ERROR_PORT_UNREACHABLE then (retval a, connection_refused)
             else if snd ec = WSAEMSGSIZE \<or> snd ec = ERROR_MORE_DATA then (0, ec)
             else (retval a, ec))
      in if result \<noteq> 0 then (socket_error_retval, ec1) else (uint (wsa_bytes a), no_error ec1))"

definition recv1 :: "wsa_answer \<Rightarrow> int \<times> io_error" where
  "recv1 a =
     (let ec = (System_category, wsa_error a);
          (result, ec1) =
            (if snd ec = ERROR_NETNAME_DELETED then (retval a, connection_reset)
             else if snd ec = ERROR_PORT_UNREACHABLE then (retval a, connection_refused)
             else if snd ec = WSAEMSGSIZE \<or> snd ec = ERROR_MORE_DATA then (0, ec)
             else (retval a, ec))
      in if result \<noteq> 0 then (socket_error_retval, ec1) else (uint (wsa_bytes a), no_error ec1))"

definition recvfrom :: "wsa_answer \<Rightarrow> int \<times> io_error" where
  "recvfrom a =
     (let ec = (System_category, wsa_error a);
          (result, ec1) =
            (if snd ec = ERROR_NETNAME_DELETED then (retval a, connection_reset)
             else if snd ec = ERROR_PORT_UNREACHABLE then (retval a, connection_refused)
             else if snd ec = WSAEMSGSIZE \<or> snd ec = ERROR_MORE_DATA then (0, ec)
             else (retval a, ec))
      in if result \<noteq> 0 then (socket_error_retval, ec1) else (uint (wsa_bytes a), no_error ec1))"

definition send :: "wsa_answer \<Rightarrow> int \<times> io_error" where
  "send a =
     (let ec = (System_category, wsa_error a);
          ec1 = (if snd ec = ERROR_NETNAME_DELETED then connection_reset
                 else if snd ec = ERROR_PORT_UNREACHABLE then connection_refused
                 else ec)
      in if retval a \<noteq> 0 then (socket_error_retval, ec1) else (uint (wsa_bytes a), no_error ec1))"

definition send1 :: "wsa_answer \<Rightarrow> int \<times> io_error" where
  "send1 a =
     (let ec = (System_category, wsa_error a);
          ec1 = (if snd ec = ERROR_NETNAME_DELETED then connection_reset
                 else if snd ec = ERROR_PORT_UNREACHABLE then connection_refused
                 else ec)
      in if retval a \<noteq> 0 then (socket_error_retval, ec1) else (uint (wsa_bytes a), no_error ec1))"

definition sendto :: "wsa_answer \<Rightarrow> int \<times> io_error" where
  "sendto a =
     (let ec = (System_category, wsa_error a);
          ec1 = (if snd ec = ERROR_NETNAME_DELETED then connection_reset
                 else if snd ec = ERROR_PORT_UNREACHABLE then connection_refused
                 else ec)
      in if retval a \<noteq> 0 then (socket_error_retval, ec1) else (uint (wsa_bytes a), no_error ec1))"

text \<open>A call that answers a status: \<open>(status, last error)\<close>.\<close>

type_synonym status = "int \<times> u32"

definition call_status :: "status \<Rightarrow> io_error \<Rightarrow> int \<times> io_error" where
  "call_status r ec = (fst r, get_last_error ec (snd r) (fst r \<noteq> 0))"

definition connect :: "socket_type \<Rightarrow> status \<Rightarrow> io_error \<Rightarrow> int \<times> io_error" where
  "connect s r ec = (if s = invalid_socket then (socket_error_retval, bad_descriptor) else call_status r ec)"

definition shutdown_socket :: "socket_type \<Rightarrow> status \<Rightarrow> io_error \<Rightarrow> int \<times> io_error" where
  "shutdown_socket s r ec = (if s = invalid_socket then (socket_error_retval, bad_descriptor) else call_status r ec)"

definition bind_socket :: "socket_type \<Rightarrow> status \<Rightarrow> io_error \<Rightarrow> int \<times> io_error" where
  "bind_socket s r ec = (if s = invalid_socket then (socket_error_retval, bad_descriptor) else call_status r ec)"

definition listen_socket :: "socket_type \<Rightarrow> status \<Rightarrow> io_error \<Rightarrow> int \<times> io_error" where
  "listen_socket s r ec = (if s = invalid_socket then (socket_error_retval, bad_descriptor) else call_status r ec)"

text \<open>The new socket, and the error of the call.\<close>

definition accept :: "socket_type \<Rightarrow> socket_type \<times> u32 \<Rightarrow> io_error \<Rightarrow> socket_type \<times> io_error" where
  "accept s r ec =
     (if s = invalid_socket then (invalid_socket, bad_descriptor)
      else let ec1 = get_last_error ec (snd r) (fst r = invalid_socket)
           in if fst r = invalid_socket then (fst r, ec1) else (fst r, no_error ec1))"

definition new_socket :: "socket_type \<times> u32 \<Rightarrow> io_error \<Rightarrow> socket_type \<times> io_error" where
  "new_socket r ec = (fst r, get_last_error ec (snd r) (fst r = invalid_socket))"

text \<open>
  \<open>destruction\<close> first turns lingering off, with the outcome ignored; a close that would block
  is tried once more in blocking mode. Also the new state.
\<close>

definition close :: "socket_type \<Rightarrow> state_type \<Rightarrow> bool \<Rightarrow> status \<Rightarrow> status \<Rightarrow> io_error \<Rightarrow> int \<times> state_type \<times> io_error" where
  "close s st destruction r1 r2 ec =
     (if s \<noteq> invalid_socket then
        let st1 = (if destruction \<and> has st user_set_linger then st OR user_set_linger else st);
            (result, ec1) = call_status r1 ec
        in if result \<noteq> 0 \<and> (ec1 = would_block \<or> ec1 = try_again)
           then let st2 = st1 AND NOT non_blocking;
                    (result2, ec2) = call_status r2 ec1
                in (result2, st2, ec2)
           else (result, st1, ec1)
      else (0, st, ec))"

definition set_user_non_blocking :: "socket_type \<Rightarrow> state_type \<Rightarrow> bool \<Rightarrow> status \<Rightarrow> io_error \<Rightarrow> bool \<times> state_type \<times> io_error" where
  "set_user_non_blocking s st value r ec =
     (if s = invalid_socket then (False, st, bad_descriptor)
      else let ec1 = get_last_error ec (snd r) (fst r < 0)
           in if fst r \<ge> 0
              then (True, if value then st OR user_set_non_blocking
                          else st AND NOT (user_set_non_blocking OR internal_non_blocking), ec1)
              else (False, st, ec1))"

definition set_internal_non_blocking :: "socket_type \<Rightarrow> state_type \<Rightarrow> bool \<Rightarrow> status \<Rightarrow> io_error \<Rightarrow> bool \<times> state_type \<times> io_error" where
  "set_internal_non_blocking s st value r ec =
     (if s = invalid_socket then (False, st, bad_descriptor)
      else if \<not> value \<and> has st user_set_non_blocking then (False, st, invalid_argument)
      else let ec1 = get_last_error ec (snd r) (fst r < 0)
           in if fst r \<ge> 0
              then (True, if value then st OR internal_non_blocking else st AND NOT internal_non_blocking, ec1)
              else (False, st, ec1))"

text \<open>The options that Asio handles itself, those of its own level, and the system's.\<close>

datatype sock_option = Always_fail | Enable_connection_aborted "int option" | So_linger | System_option

definition setsockopt :: "socket_type \<Rightarrow> state_type \<Rightarrow> sock_option \<Rightarrow> status \<Rightarrow> io_error \<Rightarrow> int \<times> state_type \<times> io_error" where
  "setsockopt s st opt r ec =
     (if s = invalid_socket then (socket_error_retval, st, bad_descriptor)
      else case opt of
        Always_fail \<Rightarrow> (socket_error_retval, st, invalid_argument)
      | Enable_connection_aborted None \<Rightarrow> (socket_error_retval, st, invalid_argument)
      | Enable_connection_aborted (Some v) \<Rightarrow>
          (0, if v \<noteq> 0 then st OR enable_connection_aborted else st AND NOT enable_connection_aborted, no_error ec)
      | So_linger \<Rightarrow> (case call_status r ec of (result, ec1) \<Rightarrow> (result, st OR user_set_linger, ec1))
      | System_option \<Rightarrow> (case call_status r ec of (result, ec1) \<Rightarrow> (result, st, ec1)))"

section \<open>Waiting for a socket\<close>

text \<open>The time limit given to \<^verbatim>\<open>select\<close>, in seconds and microseconds; \<open>None\<close>: none.\<close>

definition poll_timeout :: "state_type \<Rightarrow> int \<Rightarrow> (int \<times> int) option" where
  "poll_timeout st msec =
     (if has st user_set_non_blocking then Some (0, 0)
      else if msec \<ge> 0 then Some (msec div 1000, msec mod 1000 * 1000) else None)"

definition poll_read :: "socket_type \<Rightarrow> state_type \<Rightarrow> int \<Rightarrow> ((int \<times> int) option \<Rightarrow> status) \<Rightarrow> io_error \<Rightarrow> int \<times> io_error" where
  "poll_read s st msec select ec =
     (if s = invalid_socket then (socket_error_retval, bad_descriptor)
      else let r = select (poll_timeout st msec); ec1 = get_last_error ec (snd r) (fst r < 0)
           in (fst r, if fst r = 0 \<and> has st user_set_non_blocking then would_block else ec1))"

definition poll_write :: "socket_type \<Rightarrow> state_type \<Rightarrow> int \<Rightarrow> ((int \<times> int) option \<Rightarrow> status) \<Rightarrow> io_error \<Rightarrow> int \<times> io_error" where
  "poll_write s st msec select ec =
     (if s = invalid_socket then (socket_error_retval, bad_descriptor)
      else let r = select (poll_timeout st msec); ec1 = get_last_error ec (snd r) (fst r < 0)
           in (fst r, if fst r = 0 \<and> has st user_set_non_blocking then would_block else ec1))"

definition poll_error :: "socket_type \<Rightarrow> state_type \<Rightarrow> int \<Rightarrow> ((int \<times> int) option \<Rightarrow> status) \<Rightarrow> io_error \<Rightarrow> int \<times> io_error" where
  "poll_error s st msec select ec =
     (if s = invalid_socket then (socket_error_retval, bad_descriptor)
      else let r = select (poll_timeout st msec); ec1 = get_last_error ec (snd r) (fst r < 0)
           in (fst r, if fst r = 0 \<and> has st user_set_non_blocking then would_block else ec1))"

definition poll_connect :: "socket_type \<Rightarrow> int \<Rightarrow> ((int \<times> int) option \<Rightarrow> status) \<Rightarrow> io_error \<Rightarrow> int \<times> io_error" where
  "poll_connect s msec select ec =
     (if s = invalid_socket then (socket_error_retval, bad_descriptor)
      else let r = select (poll_timeout 0 msec) in (fst r, get_last_error ec (snd r) (fst r < 0)))"

section \<open>Blocking calls\<close>

text \<open>
  A round: what the call answers and what \<^verbatim>\<open>select\<close> answers after it. \<open>None\<close>: still blocked
  after these rounds. \<open>call\<close> is one of the six calls above, \<open>wait\<close> one of \<open>poll_read\<close> and
  \<open>poll_write\<close>, \<open>eof_at_0\<close> the check for the end of a stream.
\<close>

record ('a) sync_round =
  answer :: 'a
  select_answer :: "(int \<times> int) option \<Rightarrow> status"

fun sync_loop ::
  "(wsa_answer \<Rightarrow> int \<times> io_error) \<Rightarrow> (((int \<times> int) option \<Rightarrow> status) \<Rightarrow> io_error \<Rightarrow> int \<times> io_error) \<Rightarrow> bool \<Rightarrow>
    state_type \<Rightarrow> wsa_answer sync_round list \<Rightarrow> (nat \<times> io_error) option" where
  "sync_loop call wait_ready eof_at_0 st [] = None"
| "sync_loop call wait_ready eof_at_0 st (r # rs) =
     (case call (answer r) of (bytes, ec) \<Rightarrow>
        if eof_at_0 \<and> bytes = 0 then Some (0, eof)
        else if bytes \<ge> 0 then Some (nat bytes, ec)
        else if has st user_set_non_blocking \<or> (ec \<noteq> would_block \<and> ec \<noteq> try_again) then Some (0, ec)
        else case wait_ready (select_answer r) ec of (got, ec1) \<Rightarrow>
          if got < 0 then Some (0, ec1) else sync_loop call wait_ready eof_at_0 st rs)"

type_synonym sync_rounds = "wsa_answer sync_round list"

definition sync_recv :: "socket_type \<Rightarrow> state_type \<Rightarrow> bool \<Rightarrow> io_error \<Rightarrow> sync_rounds \<Rightarrow> (nat \<times> io_error) option" where
  "sync_recv s st all_empty ec rs =
     (if s = invalid_socket then Some (0, bad_descriptor)
      else if all_empty \<and> has st stream_oriented then Some (0, no_error ec)
      else sync_loop recv (poll_read s 0 (-1)) (has st stream_oriented) st rs)"

definition sync_recv1 :: "socket_type \<Rightarrow> state_type \<Rightarrow> nat \<Rightarrow> io_error \<Rightarrow> sync_rounds \<Rightarrow> (nat \<times> io_error) option" where
  "sync_recv1 s st sz ec rs =
     (if s = invalid_socket then Some (0, bad_descriptor)
      else if sz = 0 \<and> has st stream_oriented then Some (0, no_error ec)
      else sync_loop recv1 (poll_read s 0 (-1)) (has st stream_oriented) st rs)"

definition sync_recvfrom :: "socket_type \<Rightarrow> state_type \<Rightarrow> sync_rounds \<Rightarrow> (nat \<times> io_error) option" where
  "sync_recvfrom s st rs =
     (if s = invalid_socket then Some (0, bad_descriptor)
      else sync_loop recvfrom (poll_read s 0 (-1)) False st rs)"

definition sync_send :: "socket_type \<Rightarrow> state_type \<Rightarrow> bool \<Rightarrow> io_error \<Rightarrow> sync_rounds \<Rightarrow> (nat \<times> io_error) option" where
  "sync_send s st all_empty ec rs =
     (if s = invalid_socket then Some (0, bad_descriptor)
      else if all_empty \<and> has st stream_oriented then Some (0, no_error ec)
      else sync_loop send (poll_write s 0 (-1)) False st rs)"

definition sync_send1 :: "socket_type \<Rightarrow> state_type \<Rightarrow> nat \<Rightarrow> io_error \<Rightarrow> sync_rounds \<Rightarrow> (nat \<times> io_error) option" where
  "sync_send1 s st sz ec rs =
     (if s = invalid_socket then Some (0, bad_descriptor)
      else if sz = 0 \<and> has st stream_oriented then Some (0, no_error ec)
      else sync_loop send1 (poll_write s 0 (-1)) False st rs)"

definition sync_sendto :: "socket_type \<Rightarrow> state_type \<Rightarrow> sync_rounds \<Rightarrow> (nat \<times> io_error) option" where
  "sync_sendto s st rs =
     (if s = invalid_socket then Some (0, bad_descriptor)
      else sync_loop sendto (poll_write s 0 (-1)) False st rs)"

fun sync_accept :: "socket_type \<Rightarrow> state_type \<Rightarrow> io_error \<Rightarrow> (socket_type \<times> u32) sync_round list \<Rightarrow> (socket_type \<times> io_error) option" where
  "sync_accept s st ec [] = None"
| "sync_accept s st ec (r # rs) =
     (case accept s (answer r) ec of (new_s, ec1) \<Rightarrow>
        if new_s \<noteq> invalid_socket then Some (new_s, ec1)
        else if (if ec1 = would_block \<or> ec1 = try_again then \<not> has st user_set_non_blocking
                 else if ec1 = connection_aborted then \<not> has st enable_connection_aborted
                 else if snd ec1 = EPROTO then \<not> has st enable_connection_aborted
                 else False)
        then case poll_read s 0 (-1) (select_answer r) ec1 of (got, ec2) \<Rightarrow>
               if got < 0 then Some (invalid_socket, ec2) else sync_accept s st ec2 rs
        else Some (invalid_socket, ec1))"

text \<open>\<open>so_error\<close>: the status of the call that reads the option \<^verbatim>\<open>SO_ERROR\<close>, and its value.\<close>

definition sync_connect ::
  "socket_type \<Rightarrow> status \<Rightarrow> ((int \<times> int) option \<Rightarrow> status) \<Rightarrow> status \<Rightarrow> u32 \<Rightarrow> io_error \<Rightarrow> io_error" where
  "sync_connect s r select so_error connect_error ec =
     (let (_, ec1) = connect s r ec
      in if ec1 \<noteq> in_progress \<and> ec1 \<noteq> would_block then ec1
         else case poll_connect s (-1) select ec1 of (got, ec2) \<Rightarrow>
           if got < 0 then ec2
           else case call_status so_error ec2 of (result, ec3) \<Rightarrow>
             if result = socket_error_retval then ec3 else (System_category, connect_error))"

section \<open>What blocking calls return\<close>

text \<open>What the system documents: a call that fails reports why, and waiting does not fail for want of readiness.\<close>

definition honest_call :: "wsa_answer \<Rightarrow> bool" where
  "honest_call a \<longleftrightarrow> (retval a \<noteq> 0 \<longrightarrow> wsa_error a \<noteq> 0)"

definition honest_select :: "((int \<times> int) option \<Rightarrow> status) \<Rightarrow> bool" where
  "honest_select sel \<longleftrightarrow> (fst (sel None) < 0 \<longrightarrow>
     snd (sel None) \<noteq> 0 \<and> (System_category, snd (sel None)) \<noteq> would_block \<and> (System_category, snd (sel None)) \<noteq> try_again)"

text \<open>The contract of a call, which the six have, and of waiting.\<close>

definition call_ok :: "(wsa_answer \<Rightarrow> int \<times> io_error) \<Rightarrow> bool" where
  "call_ok call \<longleftrightarrow> (\<forall>a bytes ec. call a = (bytes, ec) \<longrightarrow> honest_call a \<longrightarrow>
     (if bytes < 0 then failed ec else \<not> failed ec \<and> bytes = uint (wsa_bytes a)))"

lemma calls_ok: "call_ok recv" "call_ok recv1" "call_ok recvfrom" "call_ok send" "call_ok send1" "call_ok sendto"
  unfolding call_ok_def honest_call_def recv_def recv1_def recvfrom_def send_def send1_def sendto_def
  by (simp_all add: failed_def no_error_def socket_error_retval_def connection_reset_def connection_refused_def
      Let_def split: if_splits)

lemma poll_forever:
  assumes "honest_select sel" "s \<noteq> invalid_socket"
  shows "poll_read s 0 (-1) sel ec = (g, ec') \<Longrightarrow> g < 0 \<Longrightarrow> failed ec' \<and> ec' \<noteq> would_block \<and> ec' \<noteq> try_again"
    "poll_write s 0 (-1) sel ec = (g, ec') \<Longrightarrow> g < 0 \<Longrightarrow> failed ec' \<and> ec' \<noteq> would_block \<and> ec' \<noteq> try_again"
  using assms by (auto simp: poll_read_def poll_write_def poll_timeout_def has_def honest_select_def get_last_error_def
      failed_def Let_def)

lemma block_failed: "failed would_block" "failed try_again" "failed eof" "eof \<noteq> would_block" "eof \<noteq> try_again"
  by (simp_all add: failed_def would_block_def try_again_def eof_def)

lemma sync_loop_result:
  assumes "call_ok call" "\<And>sel ec g ec'. honest_select sel \<Longrightarrow> wait_ready sel ec = (g, ec') \<Longrightarrow> g < 0 \<Longrightarrow>
      failed ec' \<and> ec' \<noteq> would_block \<and> ec' \<noteq> try_again"
    and "\<And>r. r \<in> set rs \<Longrightarrow> honest_call (answer r) \<and> honest_select (select_answer r)"
    and "\<not> has st user_set_non_blocking" and "sync_loop call wait_ready eof0 st rs = Some (n, e)"
  shows "e \<noteq> would_block \<and> e \<noteq> try_again \<and> (failed e \<longrightarrow> n = 0) \<and> (eof0 \<and> n = 0 \<longrightarrow> failed e) \<and>
    (\<not> failed e \<longrightarrow> (\<exists>r \<in> set rs. n = unat (wsa_bytes (answer r)) \<and> call (answer r) = (int n, e)))"
  using assms(3-5)
proof (induction rs)
  case (Cons r rs)
  obtain bytes ec where c: "call (answer r) = (bytes, ec)" by (metis surj_pair)
  obtain g ec1 where w: "wait_ready (select_answer r) ec = (g, ec1)" by (metis surj_pair)
  have co: "if bytes < 0 then failed ec else \<not> failed ec \<and> bytes = uint (wsa_bytes (answer r))"
    using assms(1) c Cons.prems(1) [of r] unfolding call_ok_def by (meson list.set_intros(1))
  consider "eof0" "bytes = 0" | "\<not> (eof0 \<and> bytes = 0)" "bytes \<ge> 0" | "bytes < 0" "ec \<noteq> would_block" "ec \<noteq> try_again"
    | "bytes < 0" "ec = would_block \<or> ec = try_again" by linarith
  then show ?case
  proof cases
    case 1
    with c Cons.prems(3) show ?thesis by (auto simp: block_failed)
  next
    case 2
    with c Cons.prems(3) have ne: "n = nat bytes" "e = ec" by auto
    from 2 co have nf: "\<not> failed ec" and b: "bytes = int (unat (wsa_bytes (answer r)))" by auto
    from nf have wb: "ec \<noteq> would_block" "ec \<noteq> try_again" using block_failed by metis+
    have n: "n = unat (wsa_bytes (answer r))" using ne(1) b by simp
    have cn: "call (answer r) = (int n, e)" using c ne(2) b n by simp
    have bn: "bytes = int n" using b n by simp
    have "eof0 \<and> n = 0 \<longrightarrow> failed e" using 2(1) bn by auto
    with n cn nf wb ne(2) show ?thesis by (metis list.set_intros(1))
  next
    case 3
    with c co Cons.prems(2,3) show ?thesis by auto
  next
    case 4
    show ?thesis
    proof (cases "g < 0")
      case True
      with 4 c w Cons.prems have "n = 0" "e = ec1" by auto
      with assms(2) [OF _ w True] Cons.prems(1) [of r] show ?thesis by auto
    next
      case False
      with 4 c w Cons.prems(2,3) have "sync_loop call wait_ready eof0 st rs = Some (n, e)" by auto
      with Cons.IH Cons.prems(1,2) show ?thesis by (meson list.set_intros(2))
    qed
  qed
qed simp

text \<open>
  Blocking calls on an open stream socket in blocking mode: a receive that returns has either
  an error and no data, or no error and some data, the bytes that the system counted in one of
  its rounds; a send likewise, but may have sent nothing; and neither ever returns
  \<^verbatim>\<open>would_block\<close> or \<^verbatim>\<open>try_again\<close>.
\<close>

theorem blocking_transfer_result:
  assumes "s \<noteq> invalid_socket" and "\<not> has st user_set_non_blocking" and "has st stream_oriented"
    and "\<forall>r \<in> set rs. honest_call (answer r) \<and> honest_select (select_answer r)"
  shows "(sync_recv s st False ec rs = Some (n, e) \<longrightarrow>
      (failed e \<longleftrightarrow> n = 0) \<and> e \<noteq> would_block \<and> e \<noteq> try_again \<and>
      (\<not> failed e \<longrightarrow> (\<exists>r \<in> set rs. n = unat (wsa_bytes (answer r))))) \<and>
    (sync_send s st False ec rs = Some (n, e) \<longrightarrow>
      (failed e \<longrightarrow> n = 0) \<and> e \<noteq> would_block \<and> e \<noteq> try_again \<and>
      (\<not> failed e \<longrightarrow> (\<exists>r \<in> set rs. n = unat (wsa_bytes (answer r)))))"
proof -
  have r: "sync_loop recv (poll_read s 0 (-1)) True st rs = Some (n, e) \<Longrightarrow>
      (failed e \<longleftrightarrow> n = 0) \<and> e \<noteq> would_block \<and> e \<noteq> try_again \<and> (\<not> failed e \<longrightarrow> (\<exists>r \<in> set rs. n = unat (wsa_bytes (answer r))))"
    using sync_loop_result [OF calls_ok(1), of "poll_read s 0 (-1)" rs st True n e] poll_forever(1) assms by blast
  have "sync_loop send (poll_write s 0 (-1)) False st rs = Some (n, e) \<Longrightarrow>
      (failed e \<longrightarrow> n = 0) \<and> e \<noteq> would_block \<and> e \<noteq> try_again \<and> (\<not> failed e \<longrightarrow> (\<exists>r \<in> set rs. n = unat (wsa_bytes (answer r))))"
    using sync_loop_result [OF calls_ok(4), of "poll_write s 0 (-1)" rs st False n e] poll_forever(2) assms by blast
  with r assms(1,3) show ?thesis by (simp add: sync_recv_def sync_send_def)
qed

text \<open>A receive that waits once and gets five bytes.\<close>

lemma blocking_transfer_result_witness:
  "\<exists>n e. sync_recv 4 stream_oriented False success
     [\<lparr>answer = \<lparr>retval = -1, wsa_bytes = 0, wsa_error = 10035\<rparr>, select_answer = \<lambda>_. (1, 0)\<rparr>,
      \<lparr>answer = \<lparr>retval = 0, wsa_bytes = 5, wsa_error = 0\<rparr>, select_answer = \<lambda>_. (1, 0)\<rparr>] = Some (n, e) \<and> \<not> failed e \<and> n \<noteq> 0"
proof -
  let ?rs = "[\<lparr>answer = \<lparr>retval = -1, wsa_bytes = 0, wsa_error = 10035\<rparr>, select_answer = \<lambda>_. (1, 0)\<rparr>,
      \<lparr>answer = \<lparr>retval = 0, wsa_bytes = 5, wsa_error = 0\<rparr>, select_answer = \<lambda>_. (1, 0)\<rparr>]"
  have h: "(4 :: socket_type) \<noteq> invalid_socket" "\<not> has stream_oriented user_set_non_blocking" "has stream_oriented stream_oriented"
    "\<forall>r \<in> set ?rs. honest_call (answer r) \<and> honest_select (select_answer r)"
    by (simp_all add: invalid_socket_def has_def state_flags honest_call_def honest_select_def)
  have "\<exists>n e. sync_recv 4 stream_oriented False success ?rs = Some (n, e) \<and> \<not> failed e"
    using h by (simp add: sync_recv_def recv_def poll_read_def has_def state_flags errnos no_error_def get_last_error_def
        poll_timeout_def socket_error_retval_def failed_def Let_def)
  with blocking_transfer_result [OF h] show ?thesis by blast
qed

end
