(* ===== verification/AsioConnect.thy ===== *)
theory AsioConnect
  imports AsioSocketOps
begin

text \<open>
  \<^verbatim>\<open>asio/impl/connect.hpp\<close>: connecting a socket to the first of several endpoints that accepts,
  which \<^verbatim>\<open>TCPConnection::ConnectToServer\<close> uses; both as a blocking call and as a composed
  operation, over a sequence of endpoints (\<^verbatim>\<open>range_connect_op\<close>) and over a pair of iterators
  (\<^verbatim>\<open>iterator_connect_op\<close>). An iterator is its distance from the beginning. A connect condition
  sees the last error and the next endpoint. What connecting to an endpoint ends with is given.

  Shown: the composed operations and the blocking call agree, they end, and they find the first
  endpoint that accepts.
\<close>

section \<open>The connect condition\<close>

type_synonym 'e connect_condition = "io_error \<Rightarrow> 'e \<Rightarrow> bool"

definition default_connect_condition :: "'e connect_condition" where
  "default_connect_condition ec e = True"

function call_connect_condition :: "'e connect_condition \<Rightarrow> io_error \<Rightarrow> 'e list \<Rightarrow> nat \<Rightarrow> nat" where
  "call_connect_condition cond ec es i =
     (if i < length es then if cond ec (es ! i) then i else call_connect_condition cond ec es (i + 1)
      else i)"
  by auto
termination
  by (relation "measure (\<lambda>(cond, ec, es, i). length es - i)") auto

declare call_connect_condition.simps [simp del]

lemma call_condition_bounds:
  "i \<le> length es \<Longrightarrow> i \<le> call_connect_condition cond ec es i \<and> call_connect_condition cond ec es i \<le> length es"
proof (induction cond ec es i rule: call_connect_condition.induct)
  case (1 cond ec es i)
  then show ?case by (subst (1 2) call_connect_condition.simps) auto
qed

lemma call_condition_default: "call_connect_condition default_connect_condition ec es i = i"
  by (subst call_connect_condition.simps) (simp add: default_connect_condition_def)

text \<open>What the call returns: an endpoint it found, or the default one.\<close>

definition deref_connect_result :: "'e list \<Rightarrow> nat \<Rightarrow> io_error \<Rightarrow> 'e option" where
  "deref_connect_result es iter ec = (if failed ec then None else Some (es ! iter))"

section \<open>The blocking call\<close>

text \<open>
  \<open>outcome i\<close>: what closing the socket and connecting it to endpoint \<open>i\<close> ends with. The first
  component of the loop's result is its trace: the endpoints it connected to, in order.
\<close>

function connect_loop ::
  "(nat \<Rightarrow> io_error) \<Rightarrow> 'e connect_condition \<Rightarrow> 'e list \<Rightarrow> nat \<Rightarrow> io_error \<Rightarrow> nat list \<times> nat \<times> io_error" where
  "connect_loop outcome cond es iter ec =
     (if iter < length es then
        let iter' = call_connect_condition cond ec es iter
        in if iter' < length es then
             let ec' = outcome iter'
             in if \<not> failed ec' then ([iter'], iter', ec')
                else let (tried, result) = connect_loop outcome cond es (iter' + 1) ec' in (iter' # tried, result)
           else ([], length es, if \<not> failed ec then not_found else ec)
      else ([], length es, if \<not> failed ec then not_found else ec))"
  by auto
termination
  by (relation "measure (\<lambda>(outcome, cond, es, iter, ec). length es - iter)")
    (auto intro!: diff_less_mono2 le_imp_less_Suc dest: call_condition_bounds [OF less_imp_le, THEN conjunct1])

declare connect_loop.simps [simp del]

definition connect_all :: "(nat \<Rightarrow> io_error) \<Rightarrow> 'e connect_condition \<Rightarrow> 'e list \<Rightarrow> nat \<times> io_error" where
  "connect_all outcome cond es = snd (connect_loop outcome cond es 0 success)"

definition connect_tried :: "(nat \<Rightarrow> io_error) \<Rightarrow> 'e connect_condition \<Rightarrow> 'e list \<Rightarrow> nat list" where
  "connect_tried outcome cond es = fst (connect_loop outcome cond es 0 success)"

definition connect_range :: "(nat \<Rightarrow> io_error) \<Rightarrow> 'e connect_condition \<Rightarrow> 'e list \<Rightarrow> 'e option \<times> io_error" where
  "connect_range outcome cond es =
     (let (iter, ec) = connect_all outcome cond es in (deref_connect_result es iter ec, ec))"

section \<open>The composed operations\<close>

text \<open>
  What a call of the operation ends with: it closes the socket and connects it to an endpoint,
  posts itself with an error, or calls its handler. The first component is \<^verbatim>\<open>index_\<close>, or
  \<^verbatim>\<open>iter_\<close>. \<open>start\<close>: the first call; \<open>is_open\<close>: whether the socket is, when a connect has
  completed.
\<close>

datatype 'r connect_action = Async_connect nat | Post_self io_error | Call_handler io_error 'r

definition process_from :: "'e connect_condition \<Rightarrow> 'e list \<Rightarrow> io_error \<Rightarrow> nat \<Rightarrow> bool \<Rightarrow> nat \<times> 'e option connect_action" where
  "process_from cond es ec i start =
     (let iter = call_connect_condition cond ec es i
      in if iter < length es then (iter, Async_connect iter)
         else if start then (iter, Post_self not_found)
         else (iter, Call_handler ec None))"

definition range_process ::
  "'e connect_condition \<Rightarrow> 'e list \<Rightarrow> nat \<Rightarrow> io_error \<Rightarrow> bool \<Rightarrow> bool \<Rightarrow> nat \<times> 'e option connect_action" where
  "range_process cond es index ec start is_open =
     (if start then process_from cond es ec index start
      else if index \<ge> length es then (index, Call_handler ec None)
      else if \<not> is_open then (index, Call_handler operation_aborted None)
      else if \<not> failed ec then (index, Call_handler ec (Some (es ! index)))
      else process_from cond es ec (index + 1) start)"

definition iterator_from :: "'e connect_condition \<Rightarrow> 'e list \<Rightarrow> io_error \<Rightarrow> nat \<Rightarrow> bool \<Rightarrow> nat \<times> nat connect_action" where
  "iterator_from cond es ec i start =
     (let iter = call_connect_condition cond ec es i
      in if iter < length es then (iter, Async_connect iter)
         else if start then (iter, Post_self not_found)
         else (iter, Call_handler ec iter))"

definition iterator_process ::
  "'e connect_condition \<Rightarrow> 'e list \<Rightarrow> nat \<Rightarrow> io_error \<Rightarrow> bool \<Rightarrow> bool \<Rightarrow> nat \<times> nat connect_action" where
  "iterator_process cond es iter ec start is_open =
     (if start then iterator_from cond es ec iter start
      else if iter \<ge> length es then (iter, Call_handler ec iter)
      else if \<not> is_open then (iter, Call_handler operation_aborted iter)
      else if \<not> failed ec then (iter, Call_handler ec iter)
      else iterator_from cond es ec (iter + 1) start)"

text \<open>
  The composition: every connect completes with its outcome and finds the socket open or not
  (\<open>still_open\<close>), a posted call comes back; \<open>fuel\<close> bounds the number of calls. The result: the
  endpoints tried, and what the handler is called with.
\<close>

fun drive ::
  "(nat \<Rightarrow> io_error \<Rightarrow> bool \<Rightarrow> bool \<Rightarrow> nat \<times> 'r connect_action) \<Rightarrow> (nat \<Rightarrow> io_error) \<Rightarrow> (nat \<Rightarrow> bool) \<Rightarrow> nat \<Rightarrow>
    nat \<times> 'r connect_action \<Rightarrow> (nat list \<times> io_error \<times> 'r) option" where
  "drive process outcome still_open fuel (i, Call_handler ec r) = Some ([], ec, r)"
| "drive process outcome still_open 0 (i, a) = None"
| "drive process outcome still_open (Suc fuel) (i, Async_connect j) =
     map_option (\<lambda>(tried, ec, r). (j # tried, ec, r))
       (drive process outcome still_open fuel (process i (outcome j) False (still_open j)))"
| "drive process outcome still_open (Suc fuel) (i, Post_self ec) =
     drive process outcome still_open fuel (process i ec False True)"

definition async_connect_range ::
  "nat \<Rightarrow> (nat \<Rightarrow> io_error) \<Rightarrow> (nat \<Rightarrow> bool) \<Rightarrow> 'e connect_condition \<Rightarrow> 'e list \<Rightarrow> (nat list \<times> io_error \<times> 'e option) option" where
  "async_connect_range fuel outcome still_open cond es =
     drive (range_process cond es) outcome still_open fuel (range_process cond es 0 success True True)"

definition async_connect_iterators ::
  "nat \<Rightarrow> (nat \<Rightarrow> io_error) \<Rightarrow> (nat \<Rightarrow> bool) \<Rightarrow> 'e connect_condition \<Rightarrow> 'e list \<Rightarrow> (nat list \<times> io_error \<times> nat) option" where
  "async_connect_iterators fuel outcome still_open cond es =
     drive (iterator_process cond es) outcome still_open fuel (iterator_process cond es 0 success True True)"

section \<open>They agree\<close>

lemma not_found_failed: "failed not_found" "\<not> failed success" "failed operation_aborted"
  by (simp_all add: failed_def not_found_def success_def operation_aborted_def)

lemma drive_from:
  assumes "\<forall>i < length es. still_open i" and "failed ec" and "i \<le> length es" and "fuel \<ge> length es - i"
    and "connect_loop outcome cond es i ec = (tried, iter, ec')"
  shows "drive (range_process cond es) outcome still_open fuel (process_from cond es ec i False) =
      Some (tried, ec', deref_connect_result es iter ec') \<and>
    drive (iterator_process cond es) outcome still_open fuel (iterator_from cond es ec i False) = Some (tried, ec', iter)"
  using assms
proof (induction outcome cond es i ec arbitrary: fuel tried rule: connect_loop.induct)
  case (1 outcome cond es i ec)
  let ?i = "call_connect_condition cond ec es i"
  note b = call_condition_bounds [OF 1(4), of cond ec]
  show ?case
  proof (cases "?i < length es")
    case False
    then have "connect_loop outcome cond es i ec = ([], length es, ec)" using 1(3)
      by (subst connect_loop.simps) (simp add: Let_def)
    with 1(3,6) False b show ?thesis
      by (simp add: process_from_def iterator_from_def deref_connect_result_def Let_def)
  next
    case True
    with b have i: "i < length es" by simp
    with 1(5) obtain fuel' where f: "fuel = Suc fuel'" by (cases fuel) auto
    have so: "still_open ?i" using 1(2) True by blast
    have dr: "drive (range_process cond es) outcome still_open fuel (process_from cond es ec i False) =
        map_option (\<lambda>(tried, ec, r). (?i # tried, ec, r)) (drive (range_process cond es) outcome still_open fuel'
          (range_process cond es ?i (outcome ?i) False (still_open ?i)))"
      "drive (iterator_process cond es) outcome still_open fuel (iterator_from cond es ec i False) =
        map_option (\<lambda>(tried, ec, r). (?i # tried, ec, r)) (drive (iterator_process cond es) outcome still_open fuel'
          (iterator_process cond es ?i (outcome ?i) False (still_open ?i)))"
      using True so f by (simp_all add: process_from_def iterator_from_def Let_def)
    show ?thesis
    proof (cases "failed (outcome ?i)")
      case False
      then have "connect_loop outcome cond es i ec = ([?i], ?i, outcome ?i)" using True i
        by (subst connect_loop.simps) (simp add: Let_def)
      with 1(6) have "tried = [?i]" "iter = ?i" "ec' = outcome ?i" by auto
      with False True show ?thesis unfolding dr using so
        by (simp add: range_process_def iterator_process_def deref_connect_result_def)
    next
      case fail: True
      obtain tried' where l: "connect_loop outcome cond es (?i + 1) (outcome ?i) = (tried', iter, ec')" "tried = ?i # tried'"
        using fail True i 1(6) by (auto simp: connect_loop.simps [of outcome cond es i] Let_def split: prod.splits)
      have "fuel' \<ge> length es - (?i + 1)" using 1(5) f b by linarith
      from "1.IH" [OF i refl True refl _ 1(2) fail _ this l(1)] True have
        "drive (range_process cond es) outcome still_open fuel' (process_from cond es (outcome ?i) (?i + 1) False) =
          Some (tried', ec', deref_connect_result es iter ec')"
        "drive (iterator_process cond es) outcome still_open fuel' (iterator_from cond es (outcome ?i) (?i + 1) False) =
          Some (tried', ec', iter)" using fail by auto
      moreover have "range_process cond es ?i (outcome ?i) False (still_open ?i) = process_from cond es (outcome ?i) (?i + 1) False"
        "iterator_process cond es ?i (outcome ?i) False (still_open ?i) = iterator_from cond es (outcome ?i) (?i + 1) False"
        using True fail so by (simp_all add: range_process_def iterator_process_def)
      ultimately show ?thesis unfolding dr l(2) by simp
    qed
  qed
qed

lemma async_connect_agrees:
  assumes "\<forall>i < length es. still_open i" and "length es < fuel"
  shows "async_connect_range fuel outcome still_open cond es =
      Some (connect_tried outcome cond es, snd (connect_range outcome cond es), fst (connect_range outcome cond es)) \<and>
    async_connect_iterators fuel outcome still_open cond es =
      Some (connect_tried outcome cond es, snd (connect_all outcome cond es), fst (connect_all outcome cond es))"
proof -
  obtain tried iter ec where c0: "connect_loop outcome cond es 0 success = (tried, iter, ec)" by (metis surj_pair)
  then have c: "connect_all outcome cond es = (iter, ec)" "connect_tried outcome cond es = tried"
    by (simp_all add: connect_all_def connect_tried_def)
  let ?i = "call_connect_condition cond success es 0"
  from assms(2) obtain fuel' where f: "fuel = Suc fuel'" by (cases fuel) auto
  have r: "connect_range outcome cond es = (deref_connect_result es iter ec, ec)"
    using c(1) by (simp add: connect_range_def)
  show ?thesis
  proof (cases "?i < length es")
    case False
    then have "?i = length es" using call_condition_bounds [of 0 es cond success] by simp
    moreover have "connect_all outcome cond es = (length es, not_found)" "connect_tried outcome cond es = []" using False
      by (auto simp: connect_all_def connect_tried_def connect_loop.simps [of outcome cond es 0] not_found_failed Let_def)
    ultimately show ?thesis using f
      by (simp add: async_connect_range_def async_connect_iterators_def range_process_def iterator_process_def
          process_from_def iterator_from_def connect_range_def deref_connect_result_def not_found_failed Let_def)
  next
    case True
    then have len: "0 < length es" by linarith
    have so: "still_open ?i" using assms(1) True by blast
    have dr: "async_connect_range fuel outcome still_open cond es =
        map_option (\<lambda>(tried, ec, r). (?i # tried, ec, r)) (drive (range_process cond es) outcome still_open fuel'
          (range_process cond es ?i (outcome ?i) False True))"
      "async_connect_iterators fuel outcome still_open cond es =
        map_option (\<lambda>(tried, ec, r). (?i # tried, ec, r)) (drive (iterator_process cond es) outcome still_open fuel'
          (iterator_process cond es ?i (outcome ?i) False True))"
      using True so f by (simp_all add: async_connect_range_def async_connect_iterators_def range_process_def
          [of _ _ 0 success True] iterator_process_def [of _ _ 0 success True] process_from_def iterator_from_def Let_def)
    show ?thesis
    proof (cases "failed (outcome ?i)")
      case False
      then have "connect_all outcome cond es = (?i, outcome ?i)" "connect_tried outcome cond es = [?i]" using True len
        by (simp_all add: connect_all_def connect_tried_def connect_loop.simps [of outcome cond es 0] Let_def)
      with False True show ?thesis unfolding dr
        by (simp add: range_process_def iterator_process_def connect_range_def deref_connect_result_def)
    next
      case fail: True
      then obtain tried' where l: "connect_loop outcome cond es (?i + 1) (outcome ?i) = (tried', iter, ec)" "tried = ?i # tried'"
        using True len c0 by (auto simp: connect_loop.simps [of outcome cond es 0] Let_def split: prod.splits)
      have fl: "length es - (?i + 1) \<le> fuel'" using assms(2) f by linarith
      from drive_from [OF assms(1) fail _ fl l(1)] True have
        "drive (range_process cond es) outcome still_open fuel' (process_from cond es (outcome ?i) (?i + 1) False) =
          Some (tried', ec, deref_connect_result es iter ec)"
        "drive (iterator_process cond es) outcome still_open fuel' (iterator_from cond es (outcome ?i) (?i + 1) False) =
          Some (tried', ec, iter)" by auto
      with True fail show ?thesis unfolding dr r c l(2)
        by (simp add: range_process_def iterator_process_def)
    qed
  qed
qed

text \<open>
  C26. The composed operations are the blocking call: as long as the application does not close
  the socket meanwhile, \<^verbatim>\<open>async_connect\<close> over a range and over iterators try the endpoints that
  the blocking \<^verbatim>\<open>connect\<close> tries, in the same order, end after at most one call for each endpoint
  and one more, and call their handlers with the error and the endpoint that it returns.
\<close>

theorem async_connect_is_connect:
  assumes "\<forall>i < length es. still_open i" and "length es < fuel"
  shows "async_connect_range fuel outcome still_open cond es =
      Some (connect_tried outcome cond es, snd (connect_range outcome cond es), fst (connect_range outcome cond es)) \<and>
    async_connect_iterators fuel outcome still_open cond es =
      Some (connect_tried outcome cond es, snd (connect_all outcome cond es), fst (connect_all outcome cond es))"
  by (rule async_connect_agrees [OF assms])

lemma async_connect_is_connect_witness:
  "async_connect_range 3 (\<lambda>i. if i = 0 then connection_refused else success) (\<lambda>_. True)
     default_connect_condition ''ab'' = Some ([0, 1], success, Some CHR ''b'')"
proof -
  have "connect_range (\<lambda>i. if i = 0 then connection_refused else success) default_connect_condition ''ab'' =
    (Some CHR ''b'', success)"
    "connect_tried (\<lambda>i. if i = 0 then connection_refused else success) default_connect_condition ''ab'' = [0, 1]"
    by (simp_all add: connect_range_def connect_all_def connect_tried_def connect_loop.simps call_condition_default deref_connect_result_def
        failed_def connection_refused_def success_def)
  moreover have "\<forall>i < length ''ab''. (\<lambda>_ :: nat. True) i" "length ''ab'' < 3" by simp_all
  note async_connect_is_connect [OF this, of "\<lambda>i. if i = 0 then connection_refused else success" default_connect_condition]
  ultimately show ?thesis by auto
qed

lemma connect_loop_default:
  assumes "i \<le> length es" and "snd (connect_loop outcome default_connect_condition es i ec) = (iter, ec')"
  shows "iter \<ge> i \<and> iter \<le> length es \<and> (\<forall>j. i \<le> j \<longrightarrow> j < iter \<longrightarrow> failed (outcome j)) \<and>
    (if iter < length es then \<not> failed (outcome iter) \<and> ec' = outcome iter
     else ec' = (if i < length es then outcome (length es - 1) else if failed ec then ec else not_found))"
  using assms
proof (induction outcome "default_connect_condition :: 'a connect_condition" es i ec rule: connect_loop.induct)
  case (1 outcome es i ec)
  show ?case
  proof (cases "i < length es \<and> failed (outcome i)")
    case True
    then have "snd (connect_loop outcome default_connect_condition es i ec) =
        snd (connect_loop outcome default_connect_condition es (i + 1) (outcome i))"
      by (subst connect_loop.simps) (simp add: call_condition_default Let_def split_beta)
    with 1 True have "iter \<ge> i + 1 \<and> iter \<le> length es \<and> (\<forall>j. i + 1 \<le> j \<longrightarrow> j < iter \<longrightarrow> failed (outcome j)) \<and>
      (if iter < length es then \<not> failed (outcome iter) \<and> ec' = outcome iter
       else ec' = (if i + 1 < length es then outcome (length es - 1) else if failed (outcome i) then outcome i else not_found))"
      by (simp add: call_condition_default)
    moreover have "failed (outcome j)" if "i \<le> j" "j < iter" for j
      using calculation that True by (cases "j = i") auto
    moreover have "outcome i = outcome (length es - 1)" if "\<not> i + 1 < length es"
      using that True by (intro arg_cong [where f = outcome]) linarith
    ultimately show ?thesis using True by auto
  next
    case False
    then have "snd (connect_loop outcome default_connect_condition es i ec) =
      (if i < length es then (i, outcome i) else (length es, if \<not> failed ec then not_found else ec))"
      by (subst connect_loop.simps) (simp add: call_condition_default Let_def)
    with 1(2,3) False show ?thesis by (auto split: if_splits)
  qed
qed

text \<open>
  Which endpoint it is: without a condition, connecting succeeds exactly when some endpoint
  accepts, with the first of those; otherwise every endpoint has been tried and the error is the
  last one, or \<^verbatim>\<open>not_found\<close> when there is none.
\<close>

theorem connect_finds_first:
  "case connect_range outcome default_connect_condition es of (e, ec) \<Rightarrow>
     if \<exists>i < length es. \<not> failed (outcome i)
     then \<exists>i < length es. e = Some (es ! i) \<and> \<not> failed ec \<and> ec = outcome i \<and> (\<forall>j < i. failed (outcome j))
     else e = None \<and> ec = (if es = [] then not_found else outcome (length es - 1))"
proof -
  obtain iter ec where c: "connect_all outcome default_connect_condition es = (iter, ec)" by (metis surj_pair)
  have *: "iter \<le> length es \<and> (\<forall>j < iter. failed (outcome j)) \<and>
    (if iter < length es then \<not> failed (outcome iter) \<and> ec = outcome iter
     else ec = (if es = [] then not_found else outcome (length es - 1)))"
    using connect_loop_default [of 0 es outcome success iter ec] c by (auto simp: connect_all_def not_found_failed)
  show ?thesis
  proof (cases "iter < length es")
    case True
    with * c show ?thesis by (auto simp: connect_range_def deref_connect_result_def)
  next
    case False
    with * have "iter = length es" by simp
    with * c not_found_failed(1) show ?thesis
      by (cases "es = []") (auto simp: connect_range_def deref_connect_result_def)
  qed
qed

lemma connect_finds_first_witness:
  "\<exists>i ec. connect_range (\<lambda>i. if i = 2 then success else timed_out) default_connect_condition ''abcd'' =
     (Some (''abcd'' ! i), ec) \<and> \<not> failed ec"
proof -
  have "\<exists>i < length ''abcd''. \<not> failed (if i = 2 then success else timed_out)"
    by (intro exI [of _ 2]) (simp add: failed_def success_def)
  then show ?thesis
    using connect_finds_first [where outcome = "\<lambda>i. if i = 2 then success else timed_out" and es = "''abcd''"]
    by (auto split: prod.splits)
qed

end
