(* ===== verification/AsioSocketService.thy ===== *)
theory AsioSocketService
  imports AsioSocketOps AsioIocpRun
begin

text \<open>
  \<^verbatim>\<open>asio/detail/win_iocp_socket_service_base.hpp\<close> and its \<^verbatim>\<open>.ipp\<close>: the sockets of an
  \<^verbatim>\<open>io_context\<close>. The service keeps its implementations in a list linked through them; each
  has a native socket, its state flags and a cancellation token, a shared pointer that
  operations refer to weakly: a token that no implementation holds has expired. The start
  functions hand an operation to the system and tell the event loop how that went.

  Shown: every native socket is owned by exactly one implementation until it is closed, once;
  tokens expire exactly with their sockets; shutting down closes every socket; and a start
  function is a run of the event loop of \<open>AsioIocpRun\<close>.
\<close>

section \<open>The list of implementations\<close>

record 'k dlist =
  dl_head :: "'k option"
  dl_next :: "'k \<Rightarrow> 'k option"
  dl_prev :: "'k \<Rightarrow> 'k option"

definition dl_insert :: "'k \<Rightarrow> 'k dlist \<Rightarrow> 'k dlist" where
  "dl_insert k d =
     (let d1 = d\<lparr>dl_next := (dl_next d)(k := dl_head d), dl_prev := (dl_prev d)(k := None)\<rparr>;
          d2 = (case dl_head d1 of None \<Rightarrow> d1 | Some h \<Rightarrow> d1\<lparr>dl_prev := (dl_prev d1)(h := Some k)\<rparr>)
      in d2\<lparr>dl_head := Some k\<rparr>)"

definition dl_remove :: "'k \<Rightarrow> 'k dlist \<Rightarrow> 'k dlist" where
  "dl_remove k d =
     (let d1 = (if dl_head d = Some k then d\<lparr>dl_head := dl_next d k\<rparr> else d);
          d2 = (case dl_prev d1 k of None \<Rightarrow> d1 | Some p \<Rightarrow> d1\<lparr>dl_next := (dl_next d1)(p := dl_next d1 k)\<rparr>);
          d3 = (case dl_next d2 k of None \<Rightarrow> d2 | Some n \<Rightarrow> d2\<lparr>dl_prev := (dl_prev d2)(n := dl_prev d2 k)\<rparr>)
      in d3\<lparr>dl_next := (dl_next d3)(k := None), dl_prev := (dl_prev d3)(k := None)\<rparr>)"

text \<open>It is linked as the list of active timers of a timer queue is.\<close>

definition as_timers :: "'k dlist \<Rightarrow> (unit, 'k, unit) timer_queue" where
  "as_timers d = timer_queue_new\<lparr>timers := dl_head d, tnext := dl_next d, tprev := dl_prev d\<rparr>"

definition dl_rep :: "'k dlist \<Rightarrow> 'k list \<Rightarrow> bool" where
  "dl_rep d L \<longleftrightarrow> linked (as_timers d) L"

lemma as_timers_insert: "as_timers (dl_insert k d) = link_timer k (as_timers d)"
  by (simp add: as_timers_def dl_insert_def link_timer_def timer_queue_new_def Let_def split: option.splits)

lemma as_timers_remove: "as_timers (dl_remove k d) = unlink_timer k (as_timers d)"
  by (simp add: as_timers_def dl_remove_def unlink_timer_def set_next_def set_prev_def timer_queue_new_def Let_def
      split: option.splits)

lemma dl_rep_insert: "dl_rep d L \<Longrightarrow> k \<notin> set L \<Longrightarrow> dl_rep (dl_insert k d) (k # L)"
  by (simp add: dl_rep_def as_timers_insert linked_link)

lemma dl_rep_remove: "dl_rep d (A @ k # B) \<Longrightarrow> dl_rep (dl_remove k d) (A @ B)"
  by (simp add: dl_rep_def as_timers_remove linked_unlink)

lemma dl_rep_simps:
  "dl_rep d L \<Longrightarrow> dl_head d = hd_or L None" "dl_rep d L \<Longrightarrow> distinct L"
  "dl_rep d (A @ k # B) \<Longrightarrow> dl_next d k = hd_or B None"
  using linked_split(3) [of "as_timers d" A k B]
  by (auto simp: dl_rep_def linked_def as_timers_def)

section \<open>State\<close>

text \<open>
  \<open>handles\<close> are the native sockets the process has and \<open>closed_log\<close> those it has called
  \<^verbatim>\<open>closesocket\<close> for, in order; \<open>reactor\<close> tells whether the \<^verbatim>\<open>select_reactor\<close> has been
  created, which is told of closing and cancelling.
\<close>

datatype 'k reactor_call = Deregister_descriptor 'k | Cleanup_descriptor 'k | Cancel_ops 'k | Start_op 'k

record 'k sock_service =
  impls :: "'k dlist"
  native :: "'k \<Rightarrow> socket_type"
  sstate :: "'k \<Rightarrow> state_type"
  cancel_token :: "'k \<Rightarrow> nat option"
  next_token :: nat
  reactor :: bool
  reactor_calls :: "'k reactor_call list"
  handles :: "socket_type set"
  closed_log :: "socket_type list"

definition sock_service_new :: "'k sock_service" where
  "sock_service_new = \<lparr>impls = \<lparr>dl_head = None, dl_next = \<lambda>_. None, dl_prev = \<lambda>_. None\<rparr>,
     native = \<lambda>_. invalid_socket, sstate = \<lambda>_. 0, cancel_token = \<lambda>_. None, next_token = 0,
     reactor = False, reactor_calls = [], handles = {}, closed_log = []\<rparr>"

definition is_open :: "'k \<Rightarrow> 'k sock_service \<Rightarrow> bool" where
  "is_open k s \<longleftrightarrow> native s k \<noteq> invalid_socket"

definition expired :: "nat option \<Rightarrow> 'k sock_service \<Rightarrow> bool" where
  "expired t s \<longleftrightarrow> t = None \<or> (\<forall>k. cancel_token s k \<noteq> t)"

section \<open>Opening and closing\<close>

definition reset_impl :: "'k \<Rightarrow> 'k sock_service \<Rightarrow> 'k sock_service" where
  "reset_impl k s = s\<lparr>native := (native s)(k := invalid_socket), sstate := (sstate s)(k := 0),
     cancel_token := (cancel_token s)(k := None)\<rparr>"

definition tell_reactor :: "'k reactor_call \<Rightarrow> 'k sock_service \<Rightarrow> 'k sock_service" where
  "tell_reactor c s = (if reactor s then s\<lparr>reactor_calls := reactor_calls s @ [c]\<rparr> else s)"

text \<open>The native socket is gone after \<open>close\<close> of \<open>AsioSocketOps\<close>; \<open>r1\<close>, \<open>r2\<close>: its system calls.\<close>

definition close_native :: "bool \<Rightarrow> 'k \<Rightarrow> status \<Rightarrow> status \<Rightarrow> io_error \<Rightarrow> 'k sock_service \<Rightarrow> io_error \<times> 'k sock_service" where
  "close_native destruction k r1 r2 ec s =
     (let s1 = tell_reactor (Deregister_descriptor k) s;
          (_, st, ec1) = close (native s1 k) (sstate s1 k) destruction r1 r2 ec;
          s2 = s1\<lparr>sstate := (sstate s1)(k := st), handles := handles s1 - {native s1 k},
                 closed_log := closed_log s1 @ [native s1 k]\<rparr>
      in (ec1, tell_reactor (Cleanup_descriptor k) s2))"

definition service_close :: "'k \<Rightarrow> status \<Rightarrow> status \<Rightarrow> io_error \<Rightarrow> 'k sock_service \<Rightarrow> io_error \<times> 'k sock_service" where
  "service_close k r1 r2 ec s =
     (let (ec1, s1) = (if is_open k s then close_native False k r1 r2 ec s else (success, s))
      in (ec1, reset_impl k s1))"

definition close_for_destruction :: "'k \<Rightarrow> status \<Rightarrow> status \<Rightarrow> 'k sock_service \<Rightarrow> 'k sock_service" where
  "close_for_destruction k r1 r2 s =
     reset_impl k (if is_open k s then snd (close_native True k r1 r2 success s) else s)"

definition construct :: "'k \<Rightarrow> 'k sock_service \<Rightarrow> 'k sock_service" where
  "construct k s = (let s1 = reset_impl k s in s1\<lparr>impls := dl_insert k (impls s1)\<rparr>)"

definition destroy :: "'k \<Rightarrow> status \<Rightarrow> status \<Rightarrow> 'k sock_service \<Rightarrow> 'k sock_service" where
  "destroy k r1 r2 s =
     (let s1 = close_for_destruction k r1 r2 s in s1\<lparr>impls := dl_remove k (impls s1)\<rparr>)"

text \<open>The native socket, the flags and the token move together.\<close>

definition move_fields :: "'k \<Rightarrow> 'k \<Rightarrow> 'k sock_service \<Rightarrow> 'k sock_service" where
  "move_fields k other s =
     (let s1 = s\<lparr>native := (native s)(k := native s other, other := invalid_socket)\<rparr>;
          s2 = s1\<lparr>sstate := (sstate s1)(k := sstate s1 other, other := 0)\<rparr>
      in s2\<lparr>cancel_token := (cancel_token s2)(k := cancel_token s2 other, other := None)\<rparr>)"

definition base_move_construct :: "'k \<Rightarrow> 'k \<Rightarrow> 'k sock_service \<Rightarrow> 'k sock_service" where
  "base_move_construct k other s =
     (let s1 = move_fields k other s in s1\<lparr>impls := dl_insert k (impls s1)\<rparr>)"

text \<open>
  With another service (its list is given, links of the two services are kept apart, as an
  implementation is in one list at a time) the implementation also changes lists.
\<close>

definition base_move_assign ::
  "'k \<Rightarrow> 'k \<Rightarrow> status \<Rightarrow> status \<Rightarrow> 'k dlist option \<Rightarrow> 'k sock_service \<Rightarrow> 'k dlist option \<times> 'k sock_service" where
  "base_move_assign k other r1 r2 other_service s =
     (let s1 = close_for_destruction k r1 r2 s;
          s2 = (if other_service \<noteq> None then s1\<lparr>impls := dl_remove k (impls s1)\<rparr> else s1)
      in (map_option (dl_insert k) other_service, move_fields k other s2))"

text \<open>\<^verbatim>\<open>base_shutdown\<close>; \<open>None\<close>: the walk does not end.\<close>

partial_function (option) shutdown_walk ::
  "('k \<Rightarrow> status \<times> status) \<Rightarrow> 'k option \<Rightarrow> 'k sock_service \<Rightarrow> 'k sock_service option" where
  "shutdown_walk r impl s =
     (case impl of
        None \<Rightarrow> Some s
      | Some k \<Rightarrow>
          let s1 = close_for_destruction k (fst (r k)) (snd (r k)) s
          in shutdown_walk r (dl_next (impls s1) k) s1)"

definition base_shutdown :: "('k \<Rightarrow> status \<times> status) \<Rightarrow> 'k sock_service \<Rightarrow> 'k sock_service option" where
  "base_shutdown r s = shutdown_walk r (dl_head (impls s)) s"

text \<open>The types of sockets, the numbers of \<^verbatim>\<open>winsock2.h\<close>.\<close>

definition SOCK_STREAM :: int where "SOCK_STREAM = 1"
definition SOCK_DGRAM :: int where "SOCK_DGRAM = 2"
definition SOCK_SEQPACKET :: int where "SOCK_SEQPACKET = 5"

definition type_flags :: "int \<Rightarrow> state_type" where
  "type_flags ty = (if ty = SOCK_STREAM then stream_oriented else if ty = SOCK_DGRAM then datagram_oriented else 0)"

definition take_native :: "'k \<Rightarrow> socket_type \<Rightarrow> int \<Rightarrow> 'k sock_service \<Rightarrow> 'k sock_service" where
  "take_native k h ty s =
     (let s1 = s\<lparr>native := (native s)(k := h), handles := insert h (handles s)\<rparr>;
          s2 = s1\<lparr>sstate := (sstate s1)(k := type_flags ty)\<rparr>
      in s2\<lparr>cancel_token := (cancel_token s2)(k := Some (next_token s2)), next_token := next_token s2 + 1\<rparr>)"

text \<open>
  \<open>r\<close>: what \<^verbatim>\<open>WSASocketW\<close> answers; \<open>registered\<close>: the error of adding it to the completion
  port, if any, after which the \<^verbatim>\<open>socket_holder\<close> closes the new socket.
\<close>

definition register_handle :: "u32 option \<Rightarrow> io_error" where
  "register_handle registered = (case registered of Some e \<Rightarrow> (System_category, e) | None \<Rightarrow> success)"

definition do_open ::
  "'k \<Rightarrow> int \<Rightarrow> socket_type \<times> u32 \<Rightarrow> u32 option \<Rightarrow> io_error \<Rightarrow> 'k sock_service \<Rightarrow> io_error \<times> 'k sock_service" where
  "do_open k ty r registered ec s =
     (if is_open k s then (already_open, s)
      else let (sock, ec1) = new_socket r ec
           in if sock = invalid_socket then (ec1, s)
              else let ec2 = register_handle registered
                   in if failed ec2 then (ec2, s\<lparr>closed_log := closed_log s @ [sock]\<rparr>)
                      else (success, take_native k sock ty s))"

definition do_assign ::
  "'k \<Rightarrow> int \<Rightarrow> socket_type \<Rightarrow> u32 option \<Rightarrow> 'k sock_service \<Rightarrow> io_error \<times> 'k sock_service" where
  "do_assign k ty native_socket registered s =
     (if is_open k s then (already_open, s)
      else let ec1 = register_handle registered
           in if failed ec1 then (ec1, s) else (success, take_native k native_socket ty s))"

text \<open>\<open>available\<close>: whether \<^verbatim>\<open>CancelIoEx\<close> exists; \<open>ok\<close> and \<open>err\<close>: what it answers.\<close>

definition ERROR_NOT_FOUND :: u32 where "ERROR_NOT_FOUND = 1168"

definition service_cancel :: "bool \<Rightarrow> bool \<Rightarrow> u32 \<Rightarrow> 'k \<Rightarrow> 'k sock_service \<Rightarrow> io_error \<times> 'k sock_service" where
  "service_cancel available ok err k s =
     (if \<not> is_open k s then (bad_descriptor, s)
      else let ec = (if available
                     then if \<not> ok then if err = ERROR_NOT_FOUND then success else (System_category, err)
                          else success
                     else operation_not_supported)
           in (ec, if \<not> failed ec then tell_reactor (Cancel_ops k) s else s))"

text \<open>\<open>set_info\<close>: what \<^verbatim>\<open>NtSetInformationFile\<close> answers, when it exists.\<close>

definition release ::
  "bool \<Rightarrow> bool \<Rightarrow> u32 \<Rightarrow> int option \<Rightarrow> 'k \<Rightarrow> io_error \<Rightarrow> 'k sock_service \<Rightarrow> socket_type \<times> io_error \<times> 'k sock_service" where
  "release available ok err set_info k ec s =
     (if \<not> is_open k s then (invalid_socket, ec, s)
      else let (ec1, s1) = service_cancel available ok err k s
           in if failed ec1 then (invalid_socket, ec1, s1)
              else case set_info of
                None \<Rightarrow> (invalid_socket, operation_not_supported, s1)
              | Some r \<Rightarrow>
                  if r \<noteq> 0 then (invalid_socket, operation_not_supported, s1)
                  else let tmp = native s1 k
                       in (tmp, ec1, s1\<lparr>native := (native s1)(k := invalid_socket), handles := handles s1 - {tmp}\<rparr>))"

section \<open>Who owns the native sockets\<close>

text \<open>
  What objects and the system do: an implementation is constructed before it is used and
  destroyed at most once; the system gives out sockets that are not in use.
\<close>

definition in_list :: "'k \<Rightarrow> 'k sock_service \<Rightarrow> bool" where
  "in_list k s \<longleftrightarrow> dl_head (impls s) = Some k \<or> dl_prev (impls s) k \<noteq> None"

inductive svc_step :: "'k sock_service \<Rightarrow> 'k sock_service \<Rightarrow> bool" where
  svc_construct: "\<not> in_list k s \<Longrightarrow> svc_step s (construct k s)"
| svc_move_construct: "\<not> in_list k s \<Longrightarrow> in_list j s \<Longrightarrow> svc_step s (base_move_construct k j s)"
| svc_move_assign: "in_list k s \<Longrightarrow> in_list j s \<Longrightarrow> k \<noteq> j \<Longrightarrow> svc_step s (snd (base_move_assign k j r1 r2 None s))"
| svc_destroy: "in_list k s \<Longrightarrow> svc_step s (destroy k r1 r2 s)"
| svc_close: "in_list k s \<Longrightarrow> svc_step s (snd (service_close k r1 r2 ec s))"
| svc_open: "in_list k s \<Longrightarrow> fst r \<notin> handles s \<Longrightarrow> svc_step s (snd (do_open k ty r reg ec s))"
| svc_assign: "in_list k s \<Longrightarrow> h \<noteq> invalid_socket \<Longrightarrow> h \<notin> handles s \<Longrightarrow> svc_step s (snd (do_assign k ty h reg s))"
| svc_cancel: "svc_step s (snd (service_cancel available ok err k s))"
| svc_release: "svc_step s (snd (snd (release available ok err set_info k ec s)))"
| svc_shutdown: "base_shutdown r s = Some s' \<Longrightarrow> svc_step s s'"

inductive_cases svc_step_elim: "svc_step s s'"

inductive svc_reach :: "'k sock_service \<Rightarrow> bool" where
  svc_init: "svc_reach sock_service_new"
| svc_more: "svc_reach s \<Longrightarrow> svc_step s s' \<Longrightarrow> svc_reach s'"

definition svc_inv :: "'k sock_service \<Rightarrow> bool" where
  "svc_inv s \<longleftrightarrow> handles s = native s ` {k. is_open k s} \<and> inj_on (native s) {k. is_open k s} \<and>
     (\<forall>k. is_open k s \<longrightarrow> cancel_token s k \<noteq> None) \<and>
     (\<forall>k j t. cancel_token s k = Some t \<longrightarrow> cancel_token s j = Some t \<longrightarrow> k = j) \<and>
     (\<forall>k t. cancel_token s k = Some t \<longrightarrow> t < next_token s)"

definition list_inv :: "'k sock_service \<Rightarrow> 'k list \<Rightarrow> bool" where
  "list_inv s L \<longleftrightarrow> dl_rep (impls s) L \<and> (\<forall>k. k \<notin> set L \<longrightarrow> \<not> is_open k s \<and> cancel_token s k = None)"

lemma in_list_iff: "dl_rep (impls s) L \<Longrightarrow> in_list k s \<longleftrightarrow> k \<in> set L"
  using linked_timer_linked [of "as_timers (impls s)" L k]
  by (auto simp: dl_rep_def in_list_def timer_linked_def as_timers_def)

text \<open>What closing changes, for each way to close.\<close>

definition closes :: "'k \<Rightarrow> 'k sock_service \<Rightarrow> 'k sock_service \<Rightarrow> bool" where
  "closes k s s' \<longleftrightarrow> impls s' = impls s \<and> native s' = (native s)(k := invalid_socket) \<and>
     cancel_token s' = (cancel_token s)(k := None) \<and> next_token s' = next_token s \<and>
     handles s' = (if is_open k s then handles s - {native s k} else handles s) \<and>
     closed_log s' = closed_log s @ (if is_open k s then [native s k] else [])"

lemma close_native_closes:
  assumes "is_open k s" and "close_native d k r1 r2 ec s = (ec', s')"
  shows "closes k s (reset_impl k s')"
proof -
  obtain i st ec1 where "close (native s k) (sstate s k) d r1 r2 ec = (i, st, ec1)" by (cases rule: prod_cases3)
  with assms show ?thesis
    by (auto simp: closes_def close_native_def tell_reactor_def reset_impl_def Let_def split: if_splits)
qed

lemma reset_closes: "\<not> is_open k s \<Longrightarrow> closes k s (reset_impl k s)"
  by (simp add: closes_def reset_impl_def)

lemma closes_all:
  "closes k s (snd (service_close k r1 r2 ec s))" "closes k s (close_for_destruction k r1 r2 s)"
proof -
  show "closes k s (close_for_destruction k r1 r2 s)"
    using close_native_closes [of k s True r1 r2 success "fst (close_native True k r1 r2 success s)"
      "snd (close_native True k r1 r2 success s)"] reset_closes [of k s]
    by (simp add: close_for_destruction_def)
  show "closes k s (snd (service_close k r1 r2 ec s))"
    using close_native_closes [of k s False r1 r2 ec "fst (close_native False k r1 r2 ec s)"
      "snd (close_native False k r1 r2 ec s)"] reset_closes [of k s]
    by (simp add: service_close_def Let_def split_beta)
qed

lemma closes_open: "closes k s s' \<Longrightarrow> is_open j s' \<longleftrightarrow> is_open j s \<and> j \<noteq> k"
  by (simp add: closes_def is_open_def)

lemma closes_inv:
  assumes "closes k s s'" "svc_inv s"
  shows "svc_inv s'"
proof -
  have o: "{j. is_open j s'} = {j. is_open j s} - {k}" using closes_open [OF assms(1)] by auto
  have inj: "inj_on (native s) {j. is_open j s}" and h: "handles s = native s ` {j. is_open j s}"
    using assms(2) by (simp_all add: svc_inv_def)
  have "native s' ` ({j. is_open j s} - {k}) = native s ` ({j. is_open j s} - {k})"
    using assms(1) by (intro image_cong) (auto simp: closes_def)
  also have "\<dots> = (if is_open k s then handles s - {native s k} else handles s)"
    using inj h by (auto simp: inj_on_def)
  finally have "handles s' = native s' ` {j. is_open j s'}" using assms(1) o by (simp add: closes_def)
  moreover have "inj_on (native s') {j. is_open j s'}"
    using inj assms(1) unfolding o by (auto simp: inj_on_def closes_def)
  ultimately show ?thesis using assms closes_open [OF assms(1)]
    by (simp add: svc_inv_def closes_def)
qed

lemma closes_list: "closes k s s' \<Longrightarrow> list_inv s L \<Longrightarrow> list_inv s' L"
  using closes_open [of k s s'] by (auto simp: list_inv_def closes_def)

lemma closes_not_open: "closes k s s' \<Longrightarrow> \<not> is_open k s' \<and> cancel_token s' k = None"
  by (simp add: closes_def is_open_def)

text \<open>Moving, and taking a native socket.\<close>

lemma move_inv:
  assumes "svc_inv s" "\<not> is_open k s" "k \<noteq> j"
  shows "svc_inv (move_fields k j s)"
proof -
  let ?f = "\<lambda>x. if x = j then k else x"
  have o: "{x. is_open x (move_fields k j s)} = ?f ` {x. is_open x s}"
    using assms(2,3) by (auto simp: is_open_def move_fields_def image_iff)
  have n: "native (move_fields k j s) (?f x) = native s x" if "is_open x s" for x
    using that assms(2,3) by (auto simp: move_fields_def)
  have inj: "inj_on (native s) {x. is_open x s}" and h: "handles s = native s ` {x. is_open x s}"
    using assms(1) by (simp_all add: svc_inv_def)
  have "native (move_fields k j s) ` {x. is_open x (move_fields k j s)} = native s ` {x. is_open x s}"
    unfolding o image_image using n by (intro image_cong) auto
  moreover have "inj_on (native (move_fields k j s)) {x. is_open x (move_fields k j s)}"
    unfolding o
  proof (rule inj_onI, clarify)
    fix a b assume "is_open a s" "is_open b s" "native (move_fields k j s) (?f a) = native (move_fields k j s) (?f b)"
    with n [of a] n [of b] have "native s a = native s b" by simp
    with \<open>is_open a s\<close> \<open>is_open b s\<close> inj have "a = b" by (simp add: inj_on_def)
    then show "?f a = ?f b" by simp
  qed
  ultimately show ?thesis using assms h
    by (auto simp: svc_inv_def move_fields_def is_open_def split: if_splits)
qed

lemma take_native_inv:
  assumes "svc_inv s" "\<not> is_open k s" "h \<noteq> invalid_socket" "h \<notin> handles s"
  shows "svc_inv (take_native k h ty s)"
proof -
  have o: "{x. is_open x (take_native k h ty s)} = insert k {x. is_open x s}"
    using assms(3) by (auto simp: is_open_def take_native_def Let_def)
  have "native (take_native k h ty s) ` {x. is_open x s} = native s ` {x. is_open x s}"
    using assms(2) by (intro image_cong) (auto simp: take_native_def Let_def)
  with assms show ?thesis unfolding svc_inv_def o
    by (auto simp: take_native_def Let_def is_open_def inj_on_def less_Suc_eq split: if_splits)
qed

text \<open>
  What a step closes: \<open>C\<close>, each once, and native sockets that the process has before the step and
  not after it; or one that it gets from the system in this step and cannot register.
\<close>

definition closes_once :: "socket_type list \<Rightarrow> 'k sock_service \<Rightarrow> 'k sock_service \<Rightarrow> bool" where
  "closes_once C s s' \<longleftrightarrow> closed_log s' = closed_log s @ C \<and> distinct C \<and> set C \<inter> handles s' = {} \<and>
     (set C \<subseteq> handles s \<or> length C = 1 \<and> handles s' = handles s)"

text \<open>And what it does to tokens: that of an open socket expires just when the socket is in \<open>C\<close>.\<close>

definition step_effect :: "socket_type list \<Rightarrow> 'k sock_service \<Rightarrow> 'k sock_service \<Rightarrow> bool" where
  "step_effect C s s' \<longleftrightarrow> closes_once C s s' \<and>
     (\<forall>k t. is_open k s \<longrightarrow> cancel_token s k = Some t \<longrightarrow>
       (expired (Some t) s' \<longleftrightarrow> native s k \<in> set C))"

lemma effect_none:
  "closed_log s' = closed_log s \<Longrightarrow> (\<And>k. is_open k s \<Longrightarrow> cancel_token s' (f k) = cancel_token s k) \<Longrightarrow> step_effect [] s s'"
  by (auto simp: step_effect_def closes_once_def expired_def) metis

lemma effect_closes:
  assumes "closes k s s'" "svc_inv s"
  shows "step_effect (if is_open k s then [native s k] else []) s s'"
proof -
  have "expired (Some t) s' \<longleftrightarrow> j = k" if "cancel_token s j = Some t" for j t
    using that assms by (auto simp: closes_def svc_inv_def expired_def)
  moreover have "native s j \<in> set (if is_open k s then [native s k] else []) \<longleftrightarrow> j = k" if "is_open j s" for j
    using that assms(2) by (auto simp: svc_inv_def inj_on_def)
  moreover have "closes_once (if is_open k s then [native s k] else []) s s'"
    using assms by (auto simp: closes_once_def closes_def svc_inv_def)
  ultimately show ?thesis using assms(1) unfolding step_effect_def by blast
qed

lemma shutdown_walk_closes:
  assumes "svc_inv s" "list_inv s (A @ B)"
  shows "\<exists>s'. shutdown_walk r (hd_or B None) s = Some s' \<and> svc_inv s' \<and> list_inv s' (A @ B) \<and>
    step_effect (map (native s) (filter (\<lambda>k. is_open k s) B)) s s' \<and>
    (\<forall>k. is_open k s' \<longleftrightarrow> is_open k s \<and> k \<notin> set B) \<and>
    (\<forall>k. cancel_token s' k = (if k \<in> set B then None else cancel_token s k)) \<and>
    (\<forall>k. k \<notin> set B \<longrightarrow> native s' k = native s k)"
  using assms
proof (induction B arbitrary: A s)
  case Nil
  then show ?case by (subst shutdown_walk.simps) (auto intro: effect_none [where f = "\<lambda>k. k"])
next
  case (Cons k B)
  let ?s1 = "close_for_destruction k (fst (r k)) (snd (r k)) s"
  note c = closes_all(2) [of k s "fst (r k)" "snd (r k)"]
  have inv1: "svc_inv ?s1" "list_inv ?s1 ((A @ [k]) @ B)"
    using closes_inv [OF c Cons.prems(1)] closes_list [OF c Cons.prems(2)] by simp_all
  have k: "k \<notin> set B" using dl_rep_simps(2) [of "impls s" "A @ k # B"] Cons.prems(2) by (simp add: list_inv_def)
  have nx: "dl_next (impls ?s1) k = hd_or B None"
    using dl_rep_simps(3) [of "impls ?s1" A k B] inv1(2) by (simp add: list_inv_def)
  from Cons.IH [OF inv1] obtain s' where s': "shutdown_walk r (hd_or B None) ?s1 = Some s'" "svc_inv s'"
    "list_inv s' ((A @ [k]) @ B)" "step_effect (map (native ?s1) (filter (\<lambda>j. is_open j ?s1) B)) ?s1 s'"
    "\<forall>j. is_open j s' \<longleftrightarrow> is_open j ?s1 \<and> j \<notin> set B"
    "\<forall>j. cancel_token s' j = (if j \<in> set B then None else cancel_token ?s1 j)"
    "\<forall>j. j \<notin> set B \<longrightarrow> native s' j = native ?s1 j" by blast
  have w: "shutdown_walk r (hd_or (k # B) None) s = Some s'"
    using s'(1) nx by (subst shutdown_walk.simps) (simp add: Let_def)
  have o1: "is_open j ?s1 \<longleftrightarrow> is_open j s \<and> j \<noteq> k" for j by (rule closes_open [OF c])
  have "filter (\<lambda>j. is_open j ?s1) B = filter (\<lambda>j. is_open j s) B"
    by (rule filter_cong) (use k o1 in auto)
  moreover have "native ?s1 j = native s j" if "j \<in> set B" for j
    using c k that by (auto simp: closes_def)
  ultimately have m: "map (native ?s1) (filter (\<lambda>j. is_open j ?s1) B) = map (native s) (filter (\<lambda>j. is_open j s) B)"
    by simp
  let ?C = "map (native s) (filter (\<lambda>j. is_open j s) (k # B))"
  have "expired (Some t) s' \<longleftrightarrow> native s j \<in> set ?C" if "is_open j s" "cancel_token s j = Some t" for j t
  proof (cases "j = k")
    case True
    have "cancel_token s' i \<noteq> Some t" for i
      using s'(6) that True c Cons.prems(1) by (auto simp: closes_def svc_inv_def)
    with True that show ?thesis by (auto simp: expired_def)
  next
    case False
    then have "is_open j ?s1" "cancel_token ?s1 j = Some t" "native ?s1 j = native s j"
      using that c o1 by (auto simp: closes_def)
    moreover have "is_open k s \<Longrightarrow> native s j \<noteq> native s k"
      using Cons.prems(1) that False by (auto simp: svc_inv_def inj_on_def)
    ultimately show ?thesis using s'(4) m by (auto simp: step_effect_def)
  qed
  moreover have "closes_once ?C s s'"
  proof -
    have inj: "inj_on (native s) {j. is_open j s}" and h: "handles s = native s ` {j. is_open j s}"
      using Cons.prems(1) by (simp_all add: svc_inv_def)
    have "distinct (k # B)" using dl_rep_simps(2) [of "impls s" "A @ k # B"] Cons.prems(2) by (simp add: list_inv_def)
    then have "distinct (filter (\<lambda>j. is_open j s) (k # B))" by simp
    moreover have "inj_on (native s) (set (filter (\<lambda>j. is_open j s) (k # B)))"
      by (rule inj_on_subset [OF inj]) auto
    ultimately have "distinct ?C" by (simp only: distinct_map)
    moreover have "native s j \<notin> handles s'" if j: "j \<in> set (k # B)" "is_open j s" for j
    proof
      assume "native s j \<in> handles s'"
      then obtain i where i: "is_open i s'" "native s j = native s' i" using s'(2) by (auto simp: svc_inv_def)
      then have "i \<notin> set (k # B)" "is_open i s" using s'(5) o1 by auto
      moreover from this have "native s' i = native s i" using s'(7) c by (auto simp: closes_def)
      ultimately show False using i(2) j inj by (auto simp: inj_on_def)
    qed
    then have "set ?C \<inter> handles s' = {}" by auto
    moreover have "closed_log s' = closed_log s @ ?C"
      using s'(4) c m by (simp add: step_effect_def closes_once_def closes_def)
    ultimately show ?thesis using h by (auto simp: closes_once_def)
  qed
  ultimately have "step_effect ?C s s'" by (simp add: step_effect_def)
  moreover have "\<forall>j. is_open j s' \<longleftrightarrow> is_open j s \<and> j \<notin> set (k # B)" using s'(5) o1 by auto
  moreover have "\<forall>j. cancel_token s' j = (if j \<in> set (k # B) then None else cancel_token s j)"
    using s'(6) c by (auto simp: closes_def)
  moreover have "\<forall>j. j \<notin> set (k # B) \<longrightarrow> native s' j = native s j"
    using s'(7) c by (auto simp: closes_def)
  ultimately show ?case using w s'(2,3) by auto
qed

lemma base_shutdown_closes:
  assumes "svc_inv s" "list_inv s L"
  shows "\<exists>s'. base_shutdown r s = Some s' \<and> svc_inv s' \<and> list_inv s' L \<and>
    step_effect (map (native s) (filter (\<lambda>k. is_open k s) L)) s s' \<and> (\<forall>k. \<not> is_open k s')"
proof -
  have h: "dl_head (impls s) = hd_or L None" using assms(2) dl_rep_simps(1) by (auto simp: list_inv_def)
  have "k \<in> set L" if "is_open k s" for k using that assms(2) by (auto simp: list_inv_def)
  with shutdown_walk_closes [of s "[]" L r] assms h show ?thesis by (auto simp: base_shutdown_def)
qed

lemma move_expired:
  assumes "cancel_token s k = None" "k \<noteq> j"
  shows "expired (Some t) (move_fields k j s) \<longleftrightarrow> expired (Some t) s"
proof -
  have "cancel_token (move_fields k j s) (if i = j then k else i) = cancel_token s i" if "cancel_token s i = Some t" for i
    using assms that by (auto simp: move_fields_def)
  moreover have "cancel_token s (if i = k then j else i) = Some t" if "cancel_token (move_fields k j s) i = Some t" for i
    using that assms(2) by (auto simp: move_fields_def split: if_splits)
  ultimately show ?thesis unfolding expired_def by metis
qed

lemma quiet_step:
  assumes "svc_inv s" "list_inv s L" "impls s' = impls s" "native s' = native s" "cancel_token s' = cancel_token s"
    "next_token s' = next_token s" "handles s' = handles s" "closed_log s' = closed_log s @ xs"
    "\<And>k. is_open k s \<Longrightarrow> native s k \<notin> set xs" "length xs \<le> 1"
  shows "svc_inv s' \<and> (\<exists>L'. list_inv s' L') \<and> (\<exists>C. step_effect C s s')"
proof -
  have "set xs \<inter> handles s = {}" using assms(1,9) by (auto simp: svc_inv_def)
  then have "closes_once xs s s'" using assms(7,8,10) by (cases xs) (auto simp: closes_once_def)
  then have "step_effect xs s s'" using assms by (auto simp: step_effect_def expired_def)
  moreover have "svc_inv s'" "list_inv s' L" using assms by (simp_all add: svc_inv_def list_inv_def is_open_def)
  ultimately show ?thesis by blast
qed

lemma take_step:
  assumes "svc_inv s" "list_inv s L" "in_list k s" "\<not> is_open k s" "h \<noteq> invalid_socket" "h \<notin> handles s"
  shows "svc_inv (take_native k h ty s) \<and> (\<exists>L'. list_inv (take_native k h ty s) L') \<and>
    (\<exists>C. step_effect C s (take_native k h ty s))"
proof -
  have "k \<in> set L" using assms(2,3) in_list_iff [of s L] by (auto simp: list_inv_def)
  then have "list_inv (take_native k h ty s) L" using assms(2)
    by (auto simp: list_inv_def take_native_def is_open_def Let_def)
  moreover have "step_effect [] s (take_native k h ty s)" using assms(4)
    by (intro effect_none [where f = "\<lambda>x. x"]) (auto simp: take_native_def Let_def)
  ultimately show ?thesis using take_native_inv [OF assms(1,4,5,6)] by blast
qed

text \<open>Every step keeps the invariant and has such an effect.\<close>

lemma svc_step_ok:
  assumes "svc_step s s'" "svc_inv s" "list_inv s L"
  shows "svc_inv s' \<and> (\<exists>L'. list_inv s' L') \<and> (\<exists>C. step_effect C s s')"
  using assms
proof (induction rule: svc_step.induct)
  case (svc_construct k s)
  have k: "k \<notin> set L" "\<not> is_open k s" "cancel_token s k = None"
    using svc_construct in_list_iff [of s L k] by (auto simp: list_inv_def)
  then have f: "native (construct k s) = native s" "cancel_token (construct k s) = cancel_token s"
    "handles (construct k s) = handles s" "next_token (construct k s) = next_token s"
    "closed_log (construct k s) = closed_log s" "impls (construct k s) = dl_insert k (impls s)"
    by (auto simp: construct_def reset_impl_def is_open_def Let_def)
  then have "svc_inv (construct k s)" using svc_construct.prems(1) by (simp add: svc_inv_def is_open_def)
  moreover have "list_inv (construct k s) (k # L)"
    using svc_construct.prems(2) k f dl_rep_insert [of "impls s" L k] by (simp add: list_inv_def is_open_def)
  moreover have "step_effect [] s (construct k s)" using f by (intro effect_none [where f = "\<lambda>k. k"]) simp_all
  ultimately show ?case by blast
next
  case (svc_move_construct k s j)
  have k: "k \<notin> set L" "\<not> is_open k s" "cancel_token s k = None" "k \<noteq> j"
    using svc_move_construct in_list_iff [of s L] by (auto simp: list_inv_def)
  let ?s = "move_fields k j s" and ?s' = "base_move_construct k j s"
  have f: "native ?s' = native ?s" "cancel_token ?s' = cancel_token ?s" "handles ?s' = handles ?s"
    "next_token ?s' = next_token ?s" "closed_log ?s' = closed_log s" "impls ?s' = dl_insert k (impls s)"
    by (simp_all add: base_move_construct_def move_fields_def Let_def)
  have "svc_inv ?s'" using move_inv [OF svc_move_construct.prems(1) k(2,4)] f by (simp add: svc_inv_def is_open_def)
  moreover have "list_inv ?s' (k # L)"
    using svc_move_construct.prems(2) k f dl_rep_insert [of "impls s" L k]
    by (auto simp: list_inv_def is_open_def move_fields_def)
  moreover have "step_effect [] s ?s'" using f k
    by (intro effect_none [where f = "\<lambda>x. if x = j then k else x"]) (auto simp: move_fields_def)
  ultimately show ?case by blast
next
  case (svc_move_assign k s j r1 r2)
  let ?s1 = "close_for_destruction k r1 r2 s"
  have s': "snd (base_move_assign k j r1 r2 None s) = move_fields k j ?s1" by (simp add: base_move_assign_def Let_def)
  note c = closes_all(2) [of k s r1 r2]
  have inv: "svc_inv ?s1" "list_inv ?s1 L" by (rule closes_inv [OF c svc_move_assign.prems(1)], rule closes_list [OF c svc_move_assign.prems(2)])
  have kj: "k \<in> set L" "j \<in> set L" "k \<noteq> j"
    using svc_move_assign in_list_iff [of s L] by (auto simp: list_inv_def)
  have "svc_inv (move_fields k j ?s1)" using move_inv [OF inv(1), of k j] closes_not_open [OF c] kj by blast
  moreover have "list_inv (move_fields k j ?s1) L" using inv(2) kj
    by (auto simp: list_inv_def is_open_def move_fields_def)
  moreover have "expired (Some t) (move_fields k j ?s1) \<longleftrightarrow> expired (Some t) ?s1" for t
    by (rule move_expired) (use closes_not_open [OF c] kj in auto)
  then have "step_effect (if is_open k s then [native s k] else []) s (move_fields k j ?s1)"
    using effect_closes [OF c svc_move_assign.prems(1)] by (simp add: step_effect_def closes_once_def move_fields_def)
  ultimately show ?case unfolding s' by blast
next
  case (svc_destroy k s r1 r2)
  let ?s1 = "close_for_destruction k r1 r2 s"
  note c = closes_all(2) [of k s r1 r2]
  have inv: "svc_inv ?s1" "list_inv ?s1 L" by (rule closes_inv [OF c svc_destroy.prems(1)], rule closes_list [OF c svc_destroy.prems(2)])
  have "k \<in> set L" using svc_destroy in_list_iff [of s L] by (auto simp: list_inv_def)
  then obtain A B where L: "L = A @ k # B" by (meson split_list)
  have out: "\<not> is_open x ?s1 \<and> cancel_token ?s1 x = None" if "x \<notin> set (A @ B)" for x
    using that inv(2) L closes_not_open [OF c] by (cases "x = k") (auto simp: list_inv_def)
  have "list_inv (destroy k r1 r2 s) (A @ B)"
    using inv(2) L out dl_rep_remove [of "impls ?s1" A k B] by (simp add: list_inv_def destroy_def Let_def is_open_def)
  moreover have "svc_inv (destroy k r1 r2 s)" using inv(1) by (simp add: svc_inv_def destroy_def Let_def is_open_def)
  moreover have "step_effect (if is_open k s then [native s k] else []) s (destroy k r1 r2 s)"
    using effect_closes [OF c svc_destroy.prems(1)] by (simp add: step_effect_def closes_once_def destroy_def Let_def expired_def)
  ultimately show ?case by blast
next
  case (svc_close k s r1 r2 ec)
  note c = closes_all(1) [of k s r1 r2 ec]
  show ?case using closes_inv [OF c] closes_list [OF c] effect_closes [OF c] svc_close.prems by blast
next
  case (svc_open k s r ty reg ec)
  have nh: "native s j \<noteq> fst r" if "is_open j s" for j
  proof -
    have "native s j \<in> handles s" using that svc_open.prems(1) by (simp add: svc_inv_def)
    with svc_open.hyps(2) show ?thesis by auto
  qed
  consider (kept) "snd (do_open k ty r reg ec s) = s" | (dropped) "snd (do_open k ty r reg ec s) = s\<lparr>closed_log := closed_log s @ [fst r]\<rparr>"
    | (taken) "snd (do_open k ty r reg ec s) = take_native k (fst r) ty s" "\<not> is_open k s" "fst r \<noteq> invalid_socket"
    by (cases "is_open k s"; cases "fst r = invalid_socket"; cases "failed (register_handle reg)")
      (simp_all add: do_open_def new_socket_def Let_def)
  then show ?case
  proof cases
    case kept
    then show ?thesis using quiet_step [OF svc_open.prems, of s "[]"] by simp
  next
    case dropped
    then show ?thesis using quiet_step [OF svc_open.prems, of "s\<lparr>closed_log := closed_log s @ [fst r]\<rparr>" "[fst r]"] nh by simp
  next
    case taken
    then show ?thesis using take_step [OF svc_open.prems svc_open.hyps(1)] svc_open.hyps(2) by simp
  qed
next
  case (svc_assign k s h ty reg)
  consider (kept) "snd (do_assign k ty h reg s) = s"
    | (taken) "snd (do_assign k ty h reg s) = take_native k h ty s" "\<not> is_open k s"
    by (cases "is_open k s"; cases "failed (register_handle reg)") (simp_all add: do_assign_def Let_def)
  then show ?case
  proof cases
    case kept
    then show ?thesis using quiet_step [OF svc_assign.prems, of s "[]"] by simp
  next
    case taken
    then show ?thesis using take_step [OF svc_assign.prems svc_assign.hyps(1)] svc_assign.hyps(2,3) by simp
  qed
next
  case (svc_cancel s available ok err k)
  show ?case by (rule quiet_step [OF svc_cancel.prems, where xs = "[]"])
      (simp_all add: service_cancel_def tell_reactor_def Let_def)
next
  case (svc_release s available ok err set_info k ec)
  obtain ec1 s1 where c: "service_cancel available ok err k s = (ec1, s1)" by fastforce
  then have s1: "impls s1 = impls s" "native s1 = native s" "cancel_token s1 = cancel_token s"
    "next_token s1 = next_token s" "handles s1 = handles s" "closed_log s1 = closed_log s"
    by (auto simp: service_cancel_def tell_reactor_def Let_def split: if_splits)
  let ?s' = "snd (snd (release available ok err set_info k ec s))"
  show ?case
  proof (cases "?s' = s \<or> ?s' = s1")
    case True
    then show ?thesis using quiet_step [OF svc_release.prems, of ?s' "[]"] s1 by auto
  next
    case False
    then have o: "is_open k s" and s': "?s' = s1\<lparr>native := (native s1)(k := invalid_socket), handles := handles s1 - {native s1 k}\<rparr>"
      using c by (auto simp: release_def Let_def split: if_splits option.splits)
    let ?c = "reset_impl k s\<lparr>handles := handles s - {native s k}, closed_log := closed_log s @ [native s k]\<rparr>"
    have "closes k s ?c" using o by (simp add: closes_def reset_impl_def)
    from closes_inv [OF this svc_release.prems(1)] have c_inv: "svc_inv ?c" .
    have n: "native ?s' = native ?c" "handles ?s' = handles ?c" "cancel_token ?s' = cancel_token s"
      "next_token ?s' = next_token s" using s1 by (simp_all add: s' reset_impl_def)
    then have o': "is_open j ?s' \<longleftrightarrow> is_open j ?c" and o2: "is_open j ?s' \<Longrightarrow> is_open j s" for j
      using s1 by (auto simp: is_open_def reset_impl_def split: if_splits)
    have "handles ?s' = native ?s' ` {j. is_open j ?s'} \<and> inj_on (native ?s') {j. is_open j ?s'}"
      using c_inv unfolding n o' by (simp add: svc_inv_def)
    moreover have "\<forall>j. is_open j s \<longrightarrow> cancel_token s j \<noteq> None" using svc_release.prems(1) by (simp add: svc_inv_def)
    with o2 have "\<forall>j. is_open j ?s' \<longrightarrow> cancel_token s j \<noteq> None" by blast
    ultimately have "svc_inv ?s'" using svc_release.prems(1) unfolding svc_inv_def n(3,4) by blast
    moreover have "list_inv ?s' L" using s1 o2 svc_release.prems(2) unfolding list_inv_def n(3) by (auto simp: s')
    moreover have "step_effect [] s ?s'" using s1 by (intro effect_none [where f = "\<lambda>x. x"]) (simp_all add: s')
    ultimately show ?thesis by blast
  qed
next
  case (svc_shutdown r s s')
  from base_shutdown_closes [OF svc_shutdown.prems, of r] svc_shutdown.hyps show ?case by auto
qed

lemma svc_reach_ok: "svc_reach s \<Longrightarrow> svc_inv s \<and> (\<exists>L. list_inv s L)"
proof (induction rule: svc_reach.induct)
  case svc_init
  have "list_inv sock_service_new []"
    by (simp add: list_inv_def sock_service_new_def dl_rep_def linked_def as_timers_def timer_queue_new_def is_open_def)
  moreover have "svc_inv sock_service_new" by (simp add: svc_inv_def sock_service_new_def is_open_def)
  ultimately show ?case by blast
next
  case (svc_more s s')
  then show ?case using svc_step_ok by blast
qed

text \<open>
  C24. Ownership of native sockets: whatever is constructed, moved, opened, assigned, released,
  closed and destroyed, the native sockets the process has are exactly those of the open
  implementations, each held by one of them. The links of the service run through one list of
  distinct implementations, which has every open one, so that shutting down will find it; its
  token has not expired. What a step closes it closes once, and these are native sockets that
  the process had and then no longer has, or one that was got in the step and not registered.
\<close>

theorem sockets_owned_once:
  assumes "svc_reach s"
  shows "handles s = native s ` {k. is_open k s} \<and> inj_on (native s) {k. is_open k s} \<and>
    (is_open k s \<longrightarrow> in_list k s \<and> \<not> expired (cancel_token s k) s) \<and>
    (\<exists>L. dl_rep (impls s) L \<and> distinct L \<and> {j. is_open j s} \<subseteq> set L) \<and>
    (svc_step s s' \<longrightarrow> (\<exists>C. closed_log s' = closed_log s @ C \<and> distinct C \<and> set C \<inter> handles s' = {} \<and>
      (set C \<subseteq> handles s \<or> length C = 1 \<and> handles s' = handles s)))"
proof -
  from svc_reach_ok [OF assms] obtain L where i: "svc_inv s" "list_inv s L" by blast
  then have "is_open k s \<Longrightarrow> in_list k s" using in_list_iff [of s L k] by (auto simp: list_inv_def)
  moreover have "dl_rep (impls s) L \<and> distinct L \<and> {j. is_open j s} \<subseteq> set L"
    using i(2) dl_rep_simps(2) by (auto simp: list_inv_def)
  moreover have "\<exists>C. closes_once C s s'" if "svc_step s s'"
    using svc_step_ok [OF that i] by (auto simp: step_effect_def)
  ultimately show ?thesis using i(1) unfolding closes_once_def by (auto simp: svc_inv_def expired_def)
qed

text \<open>One socket, opened with the native handle 5.\<close>

definition demo_sockets :: "nat sock_service" where
  "demo_sockets = snd (do_open 7 SOCK_STREAM (5, 0) None success (construct 7 sock_service_new))"

lemma demo_sockets_reach: "svc_reach demo_sockets"
proof -
  let ?s1 = "construct 7 (sock_service_new :: nat sock_service)"
  have r1: "svc_reach ?s1"
    by (rule svc_more [OF svc_init], rule svc_construct) (simp add: in_list_def sock_service_new_def)
  show ?thesis unfolding demo_sockets_def
    by (rule svc_more [OF r1], rule svc_open)
      (simp_all add: in_list_def construct_def dl_insert_def reset_impl_def sock_service_new_def Let_def)
qed

lemma demo_sockets_simps:
  "is_open k demo_sockets \<longleftrightarrow> k = 7" "cancel_token demo_sockets 7 = Some 0" "in_list k demo_sockets \<longleftrightarrow> k = 7"
  "native demo_sockets 7 = 5" "closed_log demo_sockets = []" "handles demo_sockets = {5}"
  by (auto simp: demo_sockets_def in_list_def do_open_def new_socket_def register_handle_def take_native_def
      construct_def dl_insert_def reset_impl_def sock_service_new_def is_open_def invalid_socket_def success_def
      failed_def Let_def)

lemma sockets_owned_once_witness:
  "(\<exists>s :: nat sock_service. svc_reach s \<and> handles s = native s ` {k. is_open k s} \<and> is_open 2 s \<and> in_list 2 s \<and> \<not> is_open 7 s) \<and>
   5 \<notin> handles (snd (service_close 7 (0, 0) (0, 0) success demo_sockets))"
proof -
  let ?s = "base_move_construct 2 7 demo_sockets"
  have r: "svc_reach ?s"
    by (rule svc_more [OF demo_sockets_reach], rule svc_move_construct) (simp_all add: demo_sockets_simps)
  have "is_open 2 ?s" "\<not> is_open 7 ?s"
    using demo_sockets_simps(1) [of 7] by (simp_all add: base_move_construct_def move_fields_def is_open_def Let_def)
  with r sockets_owned_once [OF r, of 2] have "\<exists>s :: nat sock_service. svc_reach s \<and>
    handles s = native s ` {k. is_open k s} \<and> is_open 2 s \<and> in_list 2 s \<and> \<not> is_open 7 s" by blast
  moreover let ?c = "snd (service_close 7 (0, 0) (0, 0) success demo_sockets)"
  have "svc_step demo_sockets ?c" by (rule svc_close) (simp add: demo_sockets_simps)
  with sockets_owned_once [OF demo_sockets_reach, of 7 ?c] obtain C where
    C: "closed_log ?c = closed_log demo_sockets @ C" "set C \<inter> handles ?c = {}" by metis
  have "closed_log ?c = [5]" using closes_all(1) [of 7 demo_sockets "(0, 0)" "(0, 0)" success]
    by (simp add: closes_def demo_sockets_simps)
  with C have "set [5] \<inter> handles ?c = {}" by (simp only: demo_sockets_simps append_Nil)
  then have "5 \<notin> handles ?c" by simp
  ultimately show ?thesis by blast
qed

text \<open>
  Tokens expire with their sockets: a step of the service makes the token of an open socket
  expire exactly when it closes that native socket, however the socket has been moved about. So
  a receive that the system ends with \<^verbatim>\<open>ERROR_NETNAME_DELETED\<close>, which it does whichever side
  went away, is reported as aborted if this process closed the socket and as a reset connection
  if it did not.
\<close>

theorem token_tells_who_closed:
  assumes "svc_reach s" and "svc_step s s'" and "is_open k s" and "cancel_token s k = t"
  shows "\<exists>C. closed_log s' = closed_log s @ C \<and>
    complete_iocp_recv st (expired t s') all_empty (System_category, ERROR_NETNAME_DELETED) n =
      (if native s k \<in> set C then operation_aborted else connection_reset)"
proof -
  from svc_reach_ok [OF assms(1)] obtain L where i: "svc_inv s" "list_inv s L" by blast
  from svc_step_ok [OF assms(2) i] obtain C where C: "step_effect C s s'" by blast
  from i(1) assms(3,4) obtain u where "t = Some u" by (auto simp: svc_inv_def)
  with C assms(3,4) have "expired t s' \<longleftrightarrow> native s k \<in> set C" by (simp add: step_effect_def)
  with C show ?thesis by (auto simp: step_effect_def closes_once_def complete_iocp_recv_def)
qed

lemma token_tells_who_closed_witness:
  "complete_iocp_recv stream_oriented (expired (Some 0) (snd (service_close 7 (0, 0) (0, 0) success demo_sockets)))
     False (System_category, ERROR_NETNAME_DELETED) 0 = operation_aborted"
proof -
  note d = demo_sockets_simps
  have step: "svc_step demo_sockets (snd (service_close 7 (0, 0) (0, 0) success demo_sockets))"
    by (rule svc_close) (simp add: d)
  have "closed_log (snd (service_close 7 (0, 0) (0, 0) success demo_sockets)) = [5]"
    using closes_all(1) [of 7 demo_sockets] by (simp add: closes_def d)
  with token_tells_who_closed [OF demo_sockets_reach step, of 7 "Some 0" stream_oriented False 0]
  show ?thesis by (auto simp: d)
qed

text \<open>
  Shutting down: the walk over the list ends, and it closes every native socket the process
  has, each once.
\<close>

theorem shutdown_closes_all:
  assumes "svc_reach s"
  shows "\<exists>s' C. base_shutdown r s = Some s' \<and> closed_log s' = closed_log s @ C \<and> distinct C \<and>
    set C = handles s \<and> handles s' = {} \<and> (\<forall>k. \<not> is_open k s')"
proof -
  from svc_reach_ok [OF assms] obtain L where i: "svc_inv s" "list_inv s L" by blast
  from base_shutdown_closes [OF i, of r] obtain s' where s': "base_shutdown r s = Some s'" "svc_inv s'"
    "step_effect (map (native s) (filter (\<lambda>k. is_open k s) L)) s s'" "\<forall>k. \<not> is_open k s'" by blast
  let ?C = "map (native s) (filter (\<lambda>k. is_open k s) L)"
  have L: "set (filter (\<lambda>k. is_open k s) L) = {k. is_open k s}" "distinct L"
    using i(2) dl_rep_simps(2) by (auto simp: list_inv_def)
  then have "distinct ?C" "set ?C = handles s" using i(1) by (simp_all add: svc_inv_def distinct_map)
  moreover have "handles s' = {}" using s'(2,4) by (simp add: svc_inv_def)
  moreover have "closed_log s' = closed_log s @ ?C" using s'(3) by (simp add: step_effect_def closes_once_def)
  ultimately show ?thesis using s'(1,4) by blast
qed

lemma shutdown_closes_all_witness:
  "\<exists>s'. base_shutdown (\<lambda>_. ((0, 0), (0, 0))) demo_sockets = Some s' \<and> closed_log s' = [5]"
proof -
  from shutdown_closes_all [OF demo_sockets_reach, of "\<lambda>_. ((0, 0), (0, 0))"] obtain s' C where
    "base_shutdown (\<lambda>_. ((0, 0), (0, 0))) demo_sockets = Some s'" "closed_log s' = C" "distinct C" "set C = {5}"
    unfolding demo_sockets_simps by auto
  moreover from this(3,4) have "C = [5]" by (cases C; cases "tl C") auto
  ultimately show ?thesis by blast
qed

end
