(* ===== verification/AsioSocketStart.thy ===== *)
theory AsioSocketStart
  imports AsioSocketService
begin

text \<open>
  The functions of \<^verbatim>\<open>win_iocp_socket_service_base.ipp\<close> that start operations, and what the
  operations of \<^verbatim>\<open>win_iocp_socket_connect_op.hpp\<close> and \<^verbatim>\<open>win_iocp_socket_accept_op.hpp\<close> do
  when they complete. \<open>x\<close> is the operation, \<open>k\<close> the socket's implementation, \<open>ok\<close> whether
  posting to the port succeeds. Errors given as constants of an \<^verbatim>\<open>enum\<close> choose the overload of
  \<^verbatim>\<open>on_completion\<close> that takes a system error number.

  Shown: a start function is the steps of the event loop that begin an operation, so all of
  \<open>AsioIocpRun\<close> applies to it; what starting on a closed socket, or accepting into an open
  one, reports.
\<close>

section \<open>Starting\<close>

text \<open>
  The answer of an overlapped call; \<open>delivered\<close>: error and byte count of its packet, if the
  system posts that before the function has gone on.
\<close>

record overlapped_answer = wsa_answer +
  delivered :: "(u32 \<times> u32) option"

definition WSA_IO_PENDING :: u32 where "WSA_IO_PENDING = 997"
definition WSAEBADF :: u32 where "WSAEBADF = 10009"
definition WSAECONNREFUSED :: u32 where "WSAECONNREFUSED = 10061"
definition WSAE_CONNRESET :: u32 where "WSAE_CONNRESET = 10054"

text \<open>The value of \<^verbatim>\<open>asio::error::already_open\<close>.\<close>

definition already_open_value :: u32 where "already_open_value = 1"

definition deliver_packet :: "'op \<Rightarrow> (u32 \<times> u32) option \<Rightarrow> ('t, 'k, 'op) iocp \<Rightarrow> ('t, 'k, 'op) iocp" where
  "deliver_packet x d s =
     (case d of None \<Rightarrow> s
      | Some (e, n) \<Rightarrow>
          s\<lparr>port := port s @ [\<lparr>pkey = Key_none, overlapped = Some x, last_error = e, transferred = n\<rparr>]\<rparr>)"

definition finish_start ::
  "bool \<Rightarrow> 'op \<Rightarrow> bool \<Rightarrow> u32 \<Rightarrow> u32 \<Rightarrow> (u32 \<times> u32) option \<Rightarrow> ('t, 'k, 'op) iocp \<Rightarrow> ('t, 'k, 'op) iocp" where
  "finish_start ok x call_failed err bytes d s =
     (if call_failed \<and> err \<noteq> WSA_IO_PENDING then on_completion ok x err bytes s
      else on_pending ok x (deliver_packet x d s))"

definition start_send_op ::
  "bool \<Rightarrow> 'i \<Rightarrow> 'i sock_service \<Rightarrow> overlapped_answer \<Rightarrow> bool \<Rightarrow> 'op \<Rightarrow> ('t, 'k, 'op) iocp \<Rightarrow> ('t, 'k, 'op) iocp" where
  "start_send_op ok k svc a noop x s =
     (let s1 = work_started s
      in if noop then on_completion ok x 0 0 s1
         else if \<not> is_open k svc then on_completion ok x WSAEBADF 0 s1
         else let err = (if wsa_error a = ERROR_PORT_UNREACHABLE then WSAECONNREFUSED else wsa_error a)
              in finish_start ok x (retval a \<noteq> 0) err (wsa_bytes a) (delivered a) s1)"

definition start_send_to_op ::
  "bool \<Rightarrow> 'i \<Rightarrow> 'i sock_service \<Rightarrow> overlapped_answer \<Rightarrow> 'op \<Rightarrow> ('t, 'k, 'op) iocp \<Rightarrow> ('t, 'k, 'op) iocp" where
  "start_send_to_op ok k svc a x s =
     (let s1 = work_started s
      in if \<not> is_open k svc then on_completion ok x WSAEBADF 0 s1
         else let err = (if wsa_error a = ERROR_PORT_UNREACHABLE then WSAECONNREFUSED else wsa_error a)
              in finish_start ok x (retval a \<noteq> 0) err (wsa_bytes a) (delivered a) s1)"

definition start_receive_op ::
  "bool \<Rightarrow> 'i \<Rightarrow> 'i sock_service \<Rightarrow> overlapped_answer \<Rightarrow> bool \<Rightarrow> 'op \<Rightarrow> ('t, 'k, 'op) iocp \<Rightarrow> ('t, 'k, 'op) iocp" where
  "start_receive_op ok k svc a noop x s =
     (let s1 = work_started s
      in if noop then on_completion ok x 0 0 s1
         else if \<not> is_open k svc then on_completion ok x WSAEBADF 0 s1
         else let err = (if wsa_error a = ERROR_NETNAME_DELETED then WSAE_CONNRESET
                         else if wsa_error a = ERROR_PORT_UNREACHABLE then WSAECONNREFUSED else wsa_error a)
              in finish_start ok x (retval a \<noteq> 0) err (wsa_bytes a) (delivered a) s1)"

definition start_receive_from_op ::
  "bool \<Rightarrow> 'i \<Rightarrow> 'i sock_service \<Rightarrow> overlapped_answer \<Rightarrow> 'op \<Rightarrow> ('t, 'k, 'op) iocp \<Rightarrow> ('t, 'k, 'op) iocp" where
  "start_receive_from_op ok k svc a x s =
     (let s1 = work_started s
      in if \<not> is_open k svc then on_completion ok x WSAEBADF 0 s1
         else let err = (if wsa_error a = ERROR_PORT_UNREACHABLE then WSAECONNREFUSED else wsa_error a)
              in finish_start ok x (retval a \<noteq> 0) err (wsa_bytes a) (delivered a) s1)"

text \<open>
  \<open>r\<close>: the new native socket and the error of making it. Here the return value of the call is
  a \<^verbatim>\<open>BOOL\<close>. The socket put into the holder is part of the result.
\<close>

definition start_accept_op ::
  "bool \<Rightarrow> 'i \<Rightarrow> 'i sock_service \<Rightarrow> bool \<Rightarrow> socket_type \<times> u32 \<Rightarrow> overlapped_answer \<Rightarrow> 'op \<Rightarrow>
    ('t, 'k, 'op) iocp \<Rightarrow> socket_type \<times> ('t, 'k, 'op) iocp" where
  "start_accept_op ok k svc peer_is_open r a x s =
     (let s1 = work_started s
      in if \<not> is_open k svc then (invalid_socket, on_completion ok x WSAEBADF 0 s1)
         else if peer_is_open then (invalid_socket, on_completion ok x already_open_value 0 s1)
         else let (sock, ec) = new_socket r success
              in if sock = invalid_socket then (sock, on_completion_ec ok x ec 0 s1)
                 else (sock, finish_start ok x (retval a = 0) (wsa_error a) 0 (delivered a) s1))"

text \<open>
  An accept that failed with \<^verbatim>\<open>connection_aborted\<close> is started again by its own completion, on the
  same operation object: \<open>reset_op\<close> is \<^verbatim>\<open>win_iocp_operation::reset\<close>; the other fields it clears are
  written before they are read.
\<close>

definition reset_op :: "'op \<Rightarrow> ('t, 'k, 'op) iocp \<Rightarrow> ('t, 'k, 'op) iocp" where
  "reset_op x s = s\<lparr>ready := (ready s)(x := False)\<rparr>"

definition restart_accept_op ::
  "bool \<Rightarrow> socket_type \<times> u32 \<Rightarrow> overlapped_answer \<Rightarrow> 'op \<Rightarrow> ('t, 'k, 'op) iocp \<Rightarrow> socket_type \<times> ('t, 'k, 'op) iocp" where
  "restart_accept_op ok r a x s =
     (let s1 = work_started s;
          (sock, ec) = new_socket r success
      in if sock = invalid_socket then (sock, on_completion_ec ok x ec 0 s1)
         else (sock, finish_start ok x (retval a = 0) (wsa_error a) 0 (delivered a) s1))"

text \<open>Operations the reactor performs: also the error put into the operation.\<close>

definition get_reactor :: "'i sock_service \<Rightarrow> 'i sock_service" where
  "get_reactor svc = svc\<lparr>reactor := True\<rparr>"

definition start_reactor_op ::
  "bool \<Rightarrow> 'i \<Rightarrow> 'i sock_service \<Rightarrow> io_error \<Rightarrow> 'op \<Rightarrow> ('t, 'k, 'op) iocp \<Rightarrow> io_error \<times> 'i sock_service \<times> ('t, 'k, 'op) iocp" where
  "start_reactor_op ok k svc op_ec x s =
     (let svc1 = get_reactor svc
      in if is_open k svc1 then (op_ec, tell_reactor (Start_op k) svc1, s)
         else (bad_descriptor, svc1, post_immediate_completion ok x s))"

definition start_null_buffers_receive_op ::
  "bool \<Rightarrow> 'i \<Rightarrow> 'i sock_service \<Rightarrow> overlapped_answer \<Rightarrow> io_error \<Rightarrow> 'op \<Rightarrow> ('t, 'k, 'op) iocp \<Rightarrow>
    io_error \<times> 'i sock_service \<times> ('t, 'k, 'op) iocp" where
  "start_null_buffers_receive_op ok k svc a op_ec x s =
     (if has (sstate svc k) stream_oriented then (op_ec, svc, start_receive_op ok k svc a False x s)
      else start_reactor_op ok k svc op_ec x s)"

text \<open>
  Connecting: with \<^verbatim>\<open>ConnectEx\<close> (\<open>available\<close>) the socket is first bound (\<open>bound\<close>), else it is made
  non-blocking (\<open>nb\<close>) and connected (\<open>conn\<close>) for the reactor to wait on. The result: the error
  in the operation, whether \<^verbatim>\<open>connect_ex_\<close> is set, the service, the loop.
\<close>

definition AF_INET :: int where "AF_INET = 2"
definition AF_INET6 :: int where "AF_INET6 = 23"

definition get_connect_ex :: "bool \<Rightarrow> int \<Rightarrow> bool" where
  "get_connect_ex available ty =
     (if ty \<noteq> SOCK_STREAM \<and> ty \<noteq> SOCK_SEQPACKET then False else available)"

definition start_connect_op ::
  "bool \<Rightarrow> 'i \<Rightarrow> 'i sock_service \<Rightarrow> int \<Rightarrow> int \<Rightarrow> bool \<Rightarrow> status \<Rightarrow> overlapped_answer \<Rightarrow> status \<Rightarrow> status \<Rightarrow> 'op \<Rightarrow>
    ('t, 'k, 'op) iocp \<Rightarrow> io_error \<times> bool \<times> 'i sock_service \<times> ('t, 'k, 'op) iocp" where
  "start_connect_op ok k svc family ty available bound a nb conn x s =
     (if (family = AF_INET \<or> family = AF_INET6) \<and> get_connect_ex available ty
      then let (_, op_ec) = bind_socket (native svc k) bound success
           in if failed op_ec \<and> op_ec \<noteq> invalid_argument
              then (op_ec, False, svc, post_immediate_completion ok x s)
              else (op_ec, True, svc,
                finish_start ok x (retval a = 0) (wsa_error a) 0 (delivered a) (work_started s))
      else let svc1 = get_reactor svc;
               (set, st, op_ec) = (if has (sstate svc1 k) non_blocking then (True, sstate svc1 k, success)
                 else set_internal_non_blocking (native svc1 k) (sstate svc1 k) True nb success);
               svc2 = svc1\<lparr>sstate := (sstate svc1)(k := st)\<rparr>
           in if set
              then let (result, ec1) = connect (native svc2 k) conn op_ec
                   in if result \<noteq> 0 \<and> (ec1 = in_progress \<or> ec1 = would_block)
                      then (success, False, tell_reactor (Start_op k) svc2, s)
                      else (ec1, False, svc2, post_immediate_completion ok x s)
              else (op_ec, False, svc2, post_immediate_completion ok x s))"

section \<open>Completing\<close>

text \<open>\<open>owner\<close>: the operation is completed and not destroyed.\<close>

definition connect_complete :: "bool \<Rightarrow> bool \<Rightarrow> io_error \<Rightarrow> (io_error \<Rightarrow> io_error) \<Rightarrow> io_error \<Rightarrow> io_error" where
  "connect_complete owner connect_ex op_ec opt ec =
     (if owner then if connect_ex then complete_iocp_connect opt ec else op_ec else ec)"

text \<open>
  Accepting again, or calling the handler with an error; then \<open>taken\<close> says whether the peer
  has taken the socket from the holder.
\<close>

datatype accept_outcome = Restart_accept | Accept_handler io_error bool

definition accept_complete ::
  "bool \<Rightarrow> bool \<Rightarrow> nat \<Rightarrow> nat \<Rightarrow> (io_error \<Rightarrow> io_error) \<Rightarrow> io_error \<Rightarrow> io_error \<Rightarrow> accept_outcome" where
  "accept_complete owner aborted_enabled capacity remote opt assign ec =
     (if owner then
        let (_, ec1) = complete_iocp_accept (Some capacity) remote opt ec
        in if ec1 = connection_aborted \<and> \<not> aborted_enabled then Restart_accept
           else if \<not> failed ec1 then Accept_handler assign (\<not> failed assign)
           else Accept_handler ec1 False
      else Accept_handler ec False)"

section \<open>A start is a run of the loop\<close>

text \<open>Beginning an operation that the port completes, posting one, and handing one to the reactor.\<close>

definition started :: "('t::linorder, 'k, 'op) loop_sys \<Rightarrow> 'op \<Rightarrow> ('t, 'k, 'op) iocp \<Rightarrow> bool" where
  "started S x s' \<longleftrightarrow> (\<exists>S' c. loop_step\<^sup>*\<^sup>* S S' \<and> io S' = s' \<and> called S' = called S \<and>
     phase S' = (phase S)(x := In_flight True c))"

definition posted :: "('t::linorder, 'k, 'op) loop_sys \<Rightarrow> 'op \<Rightarrow> ('t, 'k, 'op) iocp \<Rightarrow> bool" where
  "posted S x s' \<longleftrightarrow> (\<exists>S'. loop_step S S' \<and> io S' = s' \<and> called S' = called S \<and>
     phase S' = (phase S)(x := Posted))"

definition handed ::
  "('t::linorder, 'k, 'op) loop_sys \<Rightarrow> 'i \<Rightarrow> 'i sock_service \<Rightarrow> 'i sock_service \<Rightarrow> ('t, 'k, 'op) iocp \<Rightarrow> bool" where
  "handed S k svc svc' s' \<longleftrightarrow> s' = io S \<and> reactor_calls svc' = reactor_calls svc @ [Start_op k]"

lemma on_completion_is_ec: "on_completion ok x err n s = on_completion_ec ok x (System_category, err) n s"
  by (simp add: on_completion_def on_completion_ec_def)

lemma started_now:
  assumes "phase S x = Unused"
  shows "started S x (on_completion_ec ok x ec n (work_started (io S)))"
proof -
  let ?S1 = "S\<lparr>io := work_started (io S), phase := (phase S)(x := In_flight False False)\<rparr>"
  have "loop_step\<^sup>*\<^sup>* S ?S1" using initiate [OF assms] by blast
  moreover have "loop_step ?S1 (?S1\<lparr>io := on_completion_ec ok x ec n (io ?S1), phase := (phase ?S1)(x := In_flight True True)\<rparr>)"
    by (rule loop_step.immediate) simp
  ultimately have "loop_step\<^sup>*\<^sup>* S (?S1\<lparr>io := on_completion_ec ok x ec n (io ?S1), phase := (phase ?S1)(x := In_flight True True)\<rparr>)"
    by (rule rtranclp.rtrancl_into_rtrancl)
  then show ?thesis by (auto simp: started_def intro!: exI)
qed

lemma started_pending:
  assumes "phase S x = Unused"
  shows "started S x (on_pending ok x (deliver_packet x d (work_started (io S))))"
proof -
  let ?S1 = "S\<lparr>io := work_started (io S), phase := (phase S)(x := In_flight False False)\<rparr>"
  have r1: "loop_step\<^sup>*\<^sup>* S ?S1" using initiate [OF assms] by blast
  have "\<exists>S2 c. loop_step\<^sup>*\<^sup>* S S2 \<and> io S2 = deliver_packet x d (work_started (io S)) \<and> called S2 = called S \<and>
    phase S2 = (phase S)(x := In_flight False c)"
  proof (cases d)
    case None
    with r1 show ?thesis by (intro exI [of _ ?S1] exI [of _ False]) (simp add: deliver_packet_def)
  next
    case (Some en)
    obtain e n where en: "en = (e, n)" by (cases en)
    let ?S2 = "?S1\<lparr>io := (io ?S1)\<lparr>port := port (io ?S1) @
        [\<lparr>pkey = Key_none, overlapped = Some x, last_error = e, transferred = n\<rparr>]\<rparr>,
      phase := (phase ?S1)(x := In_flight False True)\<rparr>"
    have "loop_step ?S1 ?S2" by (rule loop_step.deliver) simp
    with r1 have "loop_step\<^sup>*\<^sup>* S ?S2" by (rule rtranclp.rtrancl_into_rtrancl)
    moreover have "io ?S2 = deliver_packet x d (work_started (io S))" using Some en by (simp add: deliver_packet_def)
    moreover have "called ?S2 = called S" "phase ?S2 = (phase S)(x := In_flight False True)" by simp_all
    ultimately show ?thesis by blast
  qed
  then obtain S2 c where S2: "loop_step\<^sup>*\<^sup>* S S2" "io S2 = deliver_packet x d (work_started (io S))"
    "called S2 = called S" "phase S2 = (phase S)(x := In_flight False c)" by blast
  let ?S3 = "S2\<lparr>io := on_pending ok x (io S2), phase := (phase S2)(x := In_flight True c)\<rparr>"
  have "loop_step S2 ?S3" by (rule loop_step.pending) (simp add: S2)
  with S2(1) have "loop_step\<^sup>*\<^sup>* S ?S3" by (rule rtranclp.rtrancl_into_rtrancl)
  moreover have "io ?S3 = on_pending ok x (deliver_packet x d (work_started (io S)))" using S2(2) by simp
  moreover have "called ?S3 = called S" "phase ?S3 = (phase S)(x := In_flight True c)" using S2(3,4) by simp_all
  ultimately show ?thesis unfolding started_def by blast
qed

lemma started_finish:
  "phase S x = Unused \<Longrightarrow> started S x (finish_start ok x f err n d (work_started (io S)))"
  by (simp add: finish_start_def on_completion_is_ec started_now started_pending)

lemma posted_now: "phase S x = Unused \<Longrightarrow> posted S x (post_immediate_completion ok x (io S))"
  using loop_step.post [of S x ok] by (fastforce simp: posted_def)

lemma reactor_begins:
  assumes "phase S x = Unused"
  shows "case start_reactor_op ok k svc ec x (io S) of (ec', svc', s') \<Rightarrow>
      if is_open k svc then handed S k svc svc' s' \<and> ec' = ec
      else posted S x s' \<and> reactor_calls svc' = reactor_calls svc \<and> ec' = bad_descriptor"
  using posted_now [OF assms]
  by (simp add: start_reactor_op_def get_reactor_def tell_reactor_def handed_def is_open_def Let_def)

lemma connect_begins:
  assumes "phase S x = Unused"
  shows "case start_connect_op ok k svc family ty available bound a nb conn x (io S) of (ec', ex, svc', s') \<Rightarrow>
      if ex then started S x s' \<and> svc' = svc
      else posted S x s' \<and> reactor_calls svc' = reactor_calls svc \<or> handed S k svc svc' s' \<and> ec' = success"
  using posted_now [OF assms] started_finish [OF assms]
  by (simp add: start_connect_op_def get_reactor_def tell_reactor_def handed_def Let_def split_beta)

text \<open>
  C25. Starting an operation on a socket is a run of the event loop: whatever the state of the
  socket and whatever the system answers, in whichever order it delivers the packet, the new
  operation is counted as work and ends up either finished, with its result stored, or
  pending, never both and never neither; other operations are left as they were. A connect
  with \<^verbatim>\<open>ConnectEx\<close> and a receive without buffers on a stream do the same; every other connect is
  either posted, which is one step of the loop, or handed to the reactor once, which leaves the
  loop as it was; an operation of the reactor is handed over when the socket is open, and else
  posted with the error for a bad descriptor.
\<close>

theorem socket_starts_are_loop_runs:
  assumes "phase S x = Unused"
  shows "started S x (start_send_op ok k svc a noop x (io S)) \<and>
    started S x (start_send_to_op ok k svc a x (io S)) \<and>
    started S x (start_receive_op ok k svc a noop x (io S)) \<and>
    started S x (start_receive_from_op ok k svc a x (io S)) \<and>
    started S x (snd (start_accept_op ok k svc peer_is_open r a x (io S))) \<and>
    (case start_connect_op ok k svc family ty available bound a nb conn x (io S) of (ec', ex, svc', s') \<Rightarrow>
      if ex then started S x s' \<and> svc' = svc
      else posted S x s' \<and> reactor_calls svc' = reactor_calls svc \<or> handed S k svc svc' s' \<and> ec' = success) \<and>
    (case start_reactor_op ok k svc ec x (io S) of (ec', svc', s') \<Rightarrow>
      if is_open k svc then handed S k svc svc' s' \<and> ec' = ec
      else posted S x s' \<and> reactor_calls svc' = reactor_calls svc \<and> ec' = bad_descriptor) \<and>
    (case start_null_buffers_receive_op ok k svc a ec x (io S) of (ec', svc', s') \<Rightarrow>
      ec' = ec \<and> (started S x s' \<and> svc' = svc \<or> handed S k svc svc' s') \<or>
      ec' = bad_descriptor \<and> posted S x s' \<and> reactor_calls svc' = reactor_calls svc)"
proof -
  have starts: "started S x (start_send_op ok k svc a noop x (io S)) \<and>
    started S x (start_send_to_op ok k svc a x (io S)) \<and>
    started S x (start_receive_op ok k svc a noop x (io S)) \<and>
    started S x (start_receive_from_op ok k svc a x (io S)) \<and>
    started S x (snd (start_accept_op ok k svc peer_is_open r a x (io S)))" for noop
    using started_now [OF assms] started_finish [OF assms]
    by (simp add: start_send_op_def start_send_to_op_def start_receive_op_def start_receive_from_op_def
        start_accept_op_def on_completion_is_ec Let_def split_beta)
  have "case start_null_buffers_receive_op ok k svc a ec x (io S) of (ec', svc', s') \<Rightarrow>
      ec' = ec \<and> (started S x s' \<and> svc' = svc \<or> handed S k svc svc' s') \<or>
      ec' = bad_descriptor \<and> posted S x s' \<and> reactor_calls svc' = reactor_calls svc"
    using reactor_begins [OF assms, where ok = ok and k = k and svc = svc and ec = ec] starts [of False]
    by (auto simp: start_null_buffers_receive_op_def split: if_splits)
  then show ?thesis using starts [of noop]
    by (intro conjI connect_begins [OF assms] reactor_begins [OF assms]) simp_all
qed

lemma socket_starts_are_loop_runs_witness:
  "started (loop_start :: (nat, nat, nat) loop_sys) 3
     (start_receive_op True 7 demo_sockets \<lparr>retval = -1, wsa_bytes = 0, wsa_error = 997, delivered = Some (0, 8)\<rparr> False 3 new_iocp)"
proof -
  have "phase (loop_start :: (nat, nat, nat) loop_sys) 3 = Unused" by (simp add: loop_start_def)
  from socket_starts_are_loop_runs [OF this, of True 7 demo_sockets
      "\<lparr>retval = -1, wsa_bytes = 0, wsa_error = 997, delivered = Some (0, 8)\<rparr>" False]
  show ?thesis by (simp add: loop_start_def)
qed

section \<open>Accepting again\<close>

text \<open>
  The loop with accept operations started again by their completions (\<open>accept_complete\<close> gives
  \<open>Restart_accept\<close>): the operation is in flight once more and not called any longer, and
  \<^verbatim>\<open>do_one\<close> still has to count the work of the call as finished; \<open>w\<close>: how many such finishes
  are owed.
\<close>

definition taken_back :: "'op \<Rightarrow> ('t, 'k, 'op) loop_sys \<Rightarrow> ('t, 'k, 'op) loop_sys" where
  "taken_back x S =
     S\<lparr>io := reset_op x (io S), phase := (phase S)(x := Unused), called := remove1 x (called S)\<rparr>"

inductive again_reach :: "nat \<Rightarrow> ('t::linorder, 'k, 'op) loop_sys \<Rightarrow> bool" where
  again_init: "loop_reach S \<Longrightarrow> again_reach 0 S"
| again_step: "again_reach w S \<Longrightarrow> loop_step S T \<Longrightarrow> again_reach w T"
| again_restart: "again_reach w S \<Longrightarrow> phase S x = Running \<Longrightarrow> loop_step\<^sup>*\<^sup>* (taken_back x S) T \<Longrightarrow>
    io T = snd (restart_accept_op ok r a x (reset_op x (io S))) \<Longrightarrow> again_reach (Suc w) T"
| again_done: "again_reach (Suc w) S \<Longrightarrow> again_reach w (S\<lparr>io := snd (work_finished True (io S))\<rparr>)"

text \<open>Every restart is such a run, in which the operation gets in flight.\<close>

lemma accept_restarts:
  "started (taken_back x S) x (snd (restart_accept_op ok r a x (reset_op x (io S))))"
proof -
  have u: "phase (taken_back x S) x = Unused" "io (taken_back x S) = reset_op x (io S)" by (simp_all add: taken_back_def)
  show ?thesis using started_now [OF u(1)] started_finish [OF u(1)]
    by (simp add: restart_accept_op_def u(2) Let_def split_beta)
qed

lemma taken_back_owes:
  assumes "loop_owes w S" and "phase S x = Running"
  shows "loop_owes (Suc w) (taken_back x S)"
proof -
  from assms(1) have inv: "place_inv S" "work_owes w S" "call_inv S" "stop_ok (io S)" by (simp_all add: loop_owes_def)
  have "count (located (io S)) x = 0" using place_invD(1) [OF inv(1), of x] assms(2) by simp
  then have x: "x \<notin># located (io S)" by (simp add: not_in_iff)
  then have xp: "x \<notin> in_port (io S)" "x \<notin> set (completed_ops (io S))"
    using in_port_located completed_located by fast+
  have s: "located (reset_op x (io S)) = located (io S)" "in_port (reset_op x (io S)) = in_port (io S)"
    "completed_ops (reset_op x (io S)) = completed_ops (io S)" "stop_ok (reset_op x (io S)) = stop_ok (io S)"
    "ready (reset_op x (io S)) = (ready (io S))(x := False)"
    "outstanding_work (reset_op x (io S)) = outstanding_work (io S)"
    by (simp_all add: reset_op_def)
  have "place_inv (S\<lparr>io := reset_op x (io S), phase := (phase S)(x := Unused)\<rparr>)"
    by (rule place_inv_update [where placed = False]) (use inv(1) assms(2) xp in \<open>auto simp: s\<close>)
  then have "place_inv (taken_back x S)" by (simp add: place_inv_def taken_back_def)
  moreover have "work_owes (Suc w) (taken_back x S)"
  proof -
    have l: "x \<in> live S" "live (taken_back x S) = live S - {x}"
      using assms(2) by (auto simp: live_def taken_back_def)
    have "card (live S) = Suc (card (live S - {x}))"
      by (rule card.remove) (use inv(2) l(1) in \<open>simp_all add: work_owes_def\<close>)
    moreover have "outstanding_work (io (taken_back x S)) = outstanding_work (io S)"
      by (simp add: taken_back_def s)
    ultimately show ?thesis using inv(2) by (simp add: work_owes_def l(2))
  qed
  moreover have "call_inv (taken_back x S)"
    using inv(3) by (auto simp: call_inv_def taken_back_def)
  ultimately show ?thesis using inv(4) by (simp add: loop_owes_def) (simp add: taken_back_def s)
qed

text \<open>
  With accepts that start themselves again the loop keeps what it promises of every operation:
  none is in two places, lost, or called a second time before it is started again, and the
  count of work is that of the live operations and the finishes owed, so a loop with a live
  operation does not run out of work.
\<close>

theorem accept_again_completes_once:
  assumes "again_reach w S"
  shows "distinct (called S) \<and>
    (x \<in> set (called S) \<longleftrightarrow> phase S x = Running \<or> phase S x = Finished) \<and>
    count (located (io S)) x = places (phase S x) (ready (io S) x) \<and>
    finite (live S) \<and> outstanding_work (io S) = of_nat (card (live S) + w)"
proof -
  from assms have "loop_owes w S"
  proof (induction rule: again_reach.induct)
    case (again_init S)
    then show ?case using loop_reach_inv loop_inv_owes by blast
  next
    case (again_step w S T)
    then show ?case using loop_owes_step by blast
  next
    case (again_restart w S x T ok r a)
    from taken_back_owes [OF again_restart.IH again_restart.hyps(2)] show ?case
      by (rule loop_owes_steps [OF again_restart.hyps(3)])
  next
    case (again_done w S)
    let ?T = "S\<lparr>io := snd (work_finished True (io S))\<rparr>"
    from again_done.IH have inv: "place_inv S" "work_owes (Suc w) S" "call_inv S" "stop_ok (io S)"
      by (simp_all add: loop_owes_def)
    have "place_inv ?T" by (rule place_inv_io [OF inv(1)]) (simp_all add: finished_places)
    moreover have "live ?T = live S" by (simp add: live_def)
    with inv(2) have "work_owes w ?T" by (simp add: work_owes_def finished_places)
    moreover have "call_inv ?T" using inv(3) by (simp add: call_inv_def)
    ultimately show ?case using inv(4) by (simp add: loop_owes_def finished_places)
  qed
  then show ?thesis by (simp add: loop_owes_def place_inv_def work_owes_def call_inv_def)
qed

text \<open>An accept that failed, taken from the port, started again, its first work finished.\<close>

lemma accept_again_completes_once_witness:
  "\<exists>T :: (nat, nat, nat) loop_sys. again_reach 0 T \<and> called T = [] \<and> outstanding_work (io T) = 1"
proof -
  define S1 where "S1 = (loop_start :: (nat, nat, nat) loop_sys)\<lparr>io := post_immediate_completion True 7 new_iocp,
    phase := (\<lambda>_. Unused)(7 := Posted)\<rparr>"
  have "loop_step loop_start S1" using loop_step.post [of loop_start 7 True] by (simp add: S1_def loop_start_def)
  then have r1: "loop_reach S1" by (rule loop_more [OF loop_init])
  obtain ec n s' where t: "take_next None True Packet (io S1) = (Complete 7 ec n, s')"
    by (simp add: take_next_def take_op_def S1_def post_immediate_completion_def post_deferred_completion_def
        post_or_aside_def op_packet_def set_ready_def work_started_def new_iocp_def Let_def)
  define S2 where "S2 = S1\<lparr>io := s', phase := (phase S1)(7 := Running), called := called S1 @ [7]\<rparr>"
  have a2: "again_reach 0 S2" "phase S2 7 = Running" "called S2 = [7]" "live S2 = {7}"
    using again_init [OF loop_more [OF r1 loop_step.take_call [OF t]]]
    by (auto simp: S2_def S1_def loop_start_def live_def)
  obtain T c where T: "loop_step\<^sup>*\<^sup>* (taken_back 7 S2) T" "called T = []" "phase T = (phase S2)(7 := In_flight True c)"
    "io T = snd (restart_accept_op True (9, 0) \<lparr>retval = 0, wsa_bytes = 0, wsa_error = 5, delivered = None\<rparr> 7
      (reset_op 7 (io S2)))"
    using accept_restarts [of 7 S2] a2(3) by (fastforce simp: started_def taken_back_def)
  let ?T = "T\<lparr>io := snd (work_finished True (io T))\<rparr>"
  have r: "again_reach 0 ?T" using again_done again_restart [OF a2(1,2) T(1,4)] by fastforce
  have "live ?T = {7}" using T(3) a2(4) by (auto simp: live_def split: if_splits)
  with accept_again_completes_once [OF r, of 7] r T(2) show ?thesis by (intro exI [of _ ?T]) simp
qed

text \<open>
  What is reported without asking the system: an operation started on a socket that is not
  open completes with the error for a bad descriptor; accepting into a socket that is already
  open completes with system error 1 (an invalid function), and not with
  \<^verbatim>\<open>asio::error::already_open\<close>, which has the same number in another category.
\<close>

theorem start_errors_reported:
  assumes "take_op p x (start_receive_op ok k svc a False x s) = (r, s')" and "pkey p = Overlapped_contains_result"
  shows "(\<not> is_open k svc \<longrightarrow> r = Complete x bad_descriptor 0) \<and>
    (is_open k svc \<longrightarrow> result_of (snd (start_accept_op ok k svc True r2 a x s)) x = ((System_category, 1), 0) \<and>
      fst (result_of (snd (start_accept_op ok k svc True r2 a x s)) x) \<noteq> already_open)"
proof -
  have "r = Complete x bad_descriptor 0" if "\<not> is_open k svc"
    using assms that
    by (auto simp: start_receive_op_def on_completion_def take_op_def set_ready_def post_or_aside_def put_aside_def
        WSAEBADF_def bad_descriptor_def Let_def split: if_splits)
  then show ?thesis
    by (auto simp: start_accept_op_def on_completion_def set_ready_def post_or_aside_def put_aside_def
        already_open_value_def already_open_def Let_def)
qed

lemma start_errors_reported_witness:
  "\<exists>s'. take_op (op_packet Overlapped_contains_result 3) (3 :: nat)
     (start_receive_op True 1 demo_sockets \<lparr>retval = 0, wsa_bytes = 0, wsa_error = 0, delivered = None\<rparr> False 3
       (new_iocp :: (nat, nat, nat) iocp)) = (Complete 3 bad_descriptor 0, s')"
proof -
  obtain r s' where t: "take_op (op_packet Overlapped_contains_result 3) (3 :: nat)
     (start_receive_op True 1 demo_sockets \<lparr>retval = 0, wsa_bytes = 0, wsa_error = 0, delivered = None\<rparr> False 3
       (new_iocp :: (nat, nat, nat) iocp)) = (r, s')" by fastforce
  from start_errors_reported [OF t] show ?thesis using t by (simp add: op_packet_def demo_sockets_simps)
qed

end
