(* ===== verification/AsioStream.thy ===== *)
theory AsioStream
  imports AsioTransfer AsioSocketStart
begin

text \<open>
  From a composed transfer down to the completion port: the native buffers of
  \<^verbatim>\<open>detail/buffer_sequence_adapter.hpp\<close>, the member functions of
  \<^verbatim>\<open>detail/win_iocp_socket_service_base.hpp\<close> that start operations with them, and the
  \<^verbatim>\<open>do_complete\<close> of the operations (\<^verbatim>\<open>win_iocp_socket_recv_op.hpp\<close>,
  \<^verbatim>\<open>win_iocp_socket_send_op.hpp\<close>, \<^verbatim>\<open>win_iocp_socket_recvfrom_op.hpp\<close>,
  \<^verbatim>\<open>win_iocp_socket_recvmsg_op.hpp\<close>, \<^verbatim>\<open>win_iocp_null_buffers_op.hpp\<close>,
  \<^verbatim>\<open>win_iocp_wait_op.hpp\<close>).

  Shown: the handler gets what the system said, whichever of the two threads of a completion is
  first; on a stream socket the completions satisfy what \<open>AsioTransfer\<close> asks of them (locale
  \<open>transport\<close>, interpreted on receives and sends), so that a composed read or write on a socket
  is exact and ends; a buffer of 4 GiB reads as the end of the stream.
\<close>

section \<open>Native buffers\<close>

record wsabuf =
  wbuf :: nat
  wlen :: u32

definition init_native_buffer :: "buf \<Rightarrow> wsabuf" where
  "init_native_buffer b = \<lparr>wbuf = bdata b, wlen = of_nat (bsize b)\<rparr>"

definition max_iov_len :: nat where "max_iov_len = 64"
definition max_buffers :: nat where "max_buffers = (if 64 < max_iov_len then 64 else max_iov_len)"

record adapter =
  native_buffers :: "wsabuf list"
  total_buffer_size :: nat

text \<open>\<^verbatim>\<open>count_\<close> is the length of the array of native buffers, as far as it is filled.\<close>

definition adapter_count :: "adapter \<Rightarrow> nat" where
  "adapter_count a = length (native_buffers a)"

fun adapter_init :: "buf list \<Rightarrow> adapter \<Rightarrow> adapter" where
  "adapter_init [] a = a"
| "adapter_init (b # bs) a =
     (if adapter_count a < max_buffers
      then adapter_init bs \<lparr>native_buffers = native_buffers a @ [init_native_buffer b],
             total_buffer_size = total_buffer_size a + bsize b\<rparr>
      else a)"

definition adapter_new :: "buf list \<Rightarrow> adapter" where
  "adapter_new bs = adapter_init bs \<lparr>native_buffers = [], total_buffer_size = 0\<rparr>"

definition single_adapter :: "buf \<Rightarrow> adapter" where
  "single_adapter b = \<lparr>native_buffers = [init_native_buffer b], total_buffer_size = bsize b\<rparr>"

definition array2_adapter :: "buf \<Rightarrow> buf \<Rightarrow> adapter" where
  "array2_adapter b0 b1 =
     \<lparr>native_buffers = [init_native_buffer b0, init_native_buffer b1], total_buffer_size = bsize b0 + bsize b1\<rparr>"

definition adapter_all_empty :: "adapter \<Rightarrow> bool" where
  "adapter_all_empty a \<longleftrightarrow> total_buffer_size a = 0"

text \<open>The static functions over a sequence; \<open>i\<close> counts the buffers looked at.\<close>

fun seq_all_empty :: "nat \<Rightarrow> buf list \<Rightarrow> bool" where
  "seq_all_empty i [] = True"
| "seq_all_empty i (b # bs) = (if i < max_buffers then if bsize b > 0 then False else seq_all_empty (i + 1) bs else True)"

definition array2_all_empty :: "buf \<Rightarrow> buf \<Rightarrow> bool" where
  "array2_all_empty b0 b1 \<longleftrightarrow> bsize b0 = 0 \<and> bsize b1 = 0"

fun first_buffer :: "buf list \<Rightarrow> buf" where
  "first_buffer [] = \<lparr>bdata = 0, bsize = 0\<rparr>"
| "first_buffer (b # bs) = (if bsize b \<noteq> 0 then b else first_buffer bs)"

definition array2_first :: "buf \<Rightarrow> buf \<Rightarrow> buf" where
  "array2_first b0 b1 = (if bsize b0 \<noteq> 0 then b0 else b1)"

text \<open>The bytes that the native buffers make room for, and their addresses.\<close>

definition native_size :: "wsabuf list \<Rightarrow> nat" where
  "native_size ws = sum_list (map (\<lambda>w. unat (wlen w)) ws)"

definition native_flats :: "wsabuf list \<Rightarrow> nat list" where
  "native_flats ws = concat (map (\<lambda>w. [wbuf w ..< wbuf w + unat (wlen w)]) ws)"

lemma adapter_init_eq:
  "adapter_count a \<le> max_buffers \<Longrightarrow>
   adapter_init bs a = \<lparr>native_buffers = native_buffers a @ map init_native_buffer (take (max_buffers - adapter_count a) bs),
     total_buffer_size = total_buffer_size a + buffer_size (take (max_buffers - adapter_count a) bs)\<rparr>"
proof (induction bs a rule: adapter_init.induct)
  case (2 b bs a)
  show ?case
  proof (cases "adapter_count a < max_buffers")
    case True
    then have "max_buffers - adapter_count a = Suc (max_buffers - Suc (adapter_count a))" by simp
    with True 2 show ?thesis by (simp add: adapter_count_def)
  qed (simp add: 2)
qed simp

lemma max_buffers_64 [simp]: "max_buffers = 64"
  by (simp add: max_buffers_def max_iov_len_def)

lemma adapter_new_eq:
  "adapter_new bs = \<lparr>native_buffers = map init_native_buffer (take 64 bs), total_buffer_size = buffer_size (take 64 bs)\<rparr>"
  by (simp add: adapter_new_def adapter_init_eq adapter_count_def)

lemma seq_all_empty_iff: "i \<le> 64 \<Longrightarrow> seq_all_empty i bs \<longleftrightarrow> buffer_size (take (64 - i) bs) = 0"
proof (induction i bs rule: seq_all_empty.induct)
  case (2 i b bs)
  show ?case
  proof (cases "i < 64")
    case True
    then have "64 - i = Suc (64 - (i + 1))" by simp
    then have "take (64 - i) (b # bs) = b # take (64 - (i + 1)) bs" by (simp only: take_Suc_Cons)
    with True 2 show ?thesis by simp
  qed (use 2 in simp)
qed simp

lemma static_all_empty: "seq_all_empty 0 bs = adapter_all_empty (adapter_new bs)"
  by (simp add: seq_all_empty_iff adapter_all_empty_def adapter_new_eq)

lemma bsize_le_buffer_size: "b \<in> set bs \<Longrightarrow> bsize b \<le> buffer_size bs"
  by (induction bs) auto

text \<open>Up to 64 buffers of together less than 4 GiB reach the system as they are.\<close>

lemma native_all:
  assumes "length bs \<le> 64" "buffer_size bs < 2 ^ 32"
  shows "native_size (native_buffers (adapter_new bs)) = buffer_size bs" (is ?size)
    and "native_flats (native_buffers (adapter_new bs)) = flats bs" (is ?flats)
    and "adapter_all_empty (adapter_new bs) \<longleftrightarrow> buffer_size bs = 0"
proof -
  have b: "unat (of_nat (bsize b) :: u32) = bsize b" if "b \<in> set bs" for b
    using bsize_le_buffer_size [OF that] assms(2) by (simp add: unat_of_nat take_bit_nat_eq_self)
  then have m: "map (\<lambda>w. unat (wlen w)) (map init_native_buffer bs) = map bsize bs"
    "map (\<lambda>w. [wbuf w ..< wbuf w + unat (wlen w)]) (map init_native_buffer bs) = map flat bs"
    by (simp_all add: flat_def init_native_buffer_def)
  have s: "sum_list (map bsize bs) = buffer_size bs" for bs by (induction bs) simp_all
  have n: "native_buffers (adapter_new bs) = map init_native_buffer bs" using assms(1) by (simp add: adapter_new_eq)
  show ?size unfolding native_size_def n m s ..
  show ?flats unfolding native_flats_def n m flats_def ..
  show "adapter_all_empty (adapter_new bs) \<longleftrightarrow> buffer_size bs = 0"
    using assms(1) by (simp add: adapter_all_empty_def adapter_new_eq)
qed

section \<open>Completing\<close>

text \<open>
  What \<^verbatim>\<open>do_complete\<close> hands to the handler, given what the loop gives it: the error and the
  number of bytes. \<open>op_ec\<close> is what the reactor has stored in the operation.
\<close>

definition recv_complete :: "state_type \<Rightarrow> bool \<Rightarrow> buf list \<Rightarrow> io_error \<Rightarrow> u32 \<Rightarrow> io_error \<times> u32" where
  "recv_complete st gone bs ec n = (complete_iocp_recv st gone (seq_all_empty 0 bs) ec n, n)"

definition send_complete :: "bool \<Rightarrow> io_error \<Rightarrow> u32 \<Rightarrow> io_error \<times> u32" where
  "send_complete gone ec n = (complete_iocp_send gone ec, n)"

definition recvfrom_complete :: "bool \<Rightarrow> io_error \<Rightarrow> u32 \<Rightarrow> io_error \<times> u32" where
  "recvfrom_complete gone ec n = (complete_iocp_recvfrom gone ec, n)"

definition recvmsg_complete :: "bool \<Rightarrow> io_error \<Rightarrow> u32 \<Rightarrow> io_error \<times> u32" where
  "recvmsg_complete gone ec n = (complete_iocp_recvmsg gone ec, n)"

definition null_buffers_complete :: "io_error \<Rightarrow> bool \<Rightarrow> io_error \<Rightarrow> u32 \<Rightarrow> io_error \<times> u32" where
  "null_buffers_complete op_ec gone result_ec n =
     (let ec = (if failed op_ec then op_ec else result_ec)
      in (if snd ec = ERROR_NETNAME_DELETED then if gone then operation_aborted else connection_reset
          else if snd ec = ERROR_PORT_UNREACHABLE then connection_refused
          else ec, n))"

definition wait_complete :: "io_error \<Rightarrow> bool \<Rightarrow> io_error \<Rightarrow> io_error" where
  "wait_complete op_ec gone result_ec =
     (let ec = (if failed op_ec then op_ec else result_ec)
      in if snd ec = ERROR_NETNAME_DELETED then if gone then operation_aborted else connection_reset
         else if snd ec = ERROR_PORT_UNREACHABLE then connection_refused
         else ec)"

section \<open>The member functions of the service\<close>

text \<open>
  \<open>sys\<close> is the system's answer to the call that is made with the native buffers; operations
  given no buffers (\<^verbatim>\<open>null_buffers\<close>) wait. Blocking calls take the rounds of \<open>AsioSocketOps\<close>.
\<close>

definition service_non_blocking :: "'i \<Rightarrow> 'i sock_service \<Rightarrow> bool" where
  "service_non_blocking k svc = has (sstate svc k) user_set_non_blocking"

definition service_set_non_blocking :: "'i \<Rightarrow> bool \<Rightarrow> status \<Rightarrow> io_error \<Rightarrow> 'i sock_service \<Rightarrow> io_error \<times> 'i sock_service" where
  "service_set_non_blocking k mode r ec svc =
     (let (_, st, ec1) = set_user_non_blocking (native svc k) (sstate svc k) mode r ec
      in (ec1, svc\<lparr>sstate := (sstate svc)(k := st)\<rparr>))"

definition service_native_non_blocking :: "'i \<Rightarrow> 'i sock_service \<Rightarrow> bool" where
  "service_native_non_blocking k svc = has (sstate svc k) internal_non_blocking"

definition service_set_native_non_blocking :: "'i \<Rightarrow> bool \<Rightarrow> status \<Rightarrow> io_error \<Rightarrow> 'i sock_service \<Rightarrow> io_error \<times> 'i sock_service" where
  "service_set_native_non_blocking k mode r ec svc =
     (let (_, st, ec1) = set_internal_non_blocking (native svc k) (sstate svc k) mode r ec
      in (ec1, svc\<lparr>sstate := (sstate svc)(k := st)\<rparr>))"

datatype wait_type = Wait_read | Wait_write | Wait_error | Wait_other

definition service_wait :: "'i \<Rightarrow> wait_type \<Rightarrow> ((int \<times> int) option \<Rightarrow> status) \<Rightarrow> io_error \<Rightarrow> 'i sock_service \<Rightarrow> io_error" where
  "service_wait k w select ec svc =
     (case w of
        Wait_read \<Rightarrow> snd (poll_read (native svc k) (sstate svc k) (-1) select ec)
      | Wait_write \<Rightarrow> snd (poll_write (native svc k) (sstate svc k) (-1) select ec)
      | Wait_error \<Rightarrow> snd (poll_error (native svc k) (sstate svc k) (-1) select ec)
      | Wait_other \<Rightarrow> invalid_argument)"

definition service_async_wait ::
  "bool \<Rightarrow> 'i \<Rightarrow> 'i sock_service \<Rightarrow> wait_type \<Rightarrow> overlapped_answer \<Rightarrow> 'op \<Rightarrow> ('t, 'k, 'op) iocp \<Rightarrow>
    io_error \<times> 'i sock_service \<times> ('t, 'k, 'op) iocp" where
  "service_async_wait ok k svc w a x s =
     (case w of
        Wait_read \<Rightarrow> start_null_buffers_receive_op ok k svc a success x s
      | Wait_write \<Rightarrow> start_reactor_op ok k svc success x s
      | Wait_error \<Rightarrow> start_reactor_op ok k svc success x s
      | Wait_other \<Rightarrow> (invalid_argument, svc, post_immediate_completion ok x s))"

definition service_send :: "'i \<Rightarrow> buf list \<Rightarrow> (wsabuf list \<Rightarrow> sync_rounds) \<Rightarrow> io_error \<Rightarrow> 'i sock_service \<Rightarrow> (nat \<times> io_error) option" where
  "service_send k bs sys ec svc =
     (let bufs = adapter_new bs
      in sync_send (native svc k) (sstate svc k) (adapter_all_empty bufs) ec (sys (native_buffers bufs)))"

definition service_receive :: "'i \<Rightarrow> buf list \<Rightarrow> (wsabuf list \<Rightarrow> sync_rounds) \<Rightarrow> io_error \<Rightarrow> 'i sock_service \<Rightarrow> (nat \<times> io_error) option" where
  "service_receive k bs sys ec svc =
     (let bufs = adapter_new bs
      in sync_recv (native svc k) (sstate svc k) (adapter_all_empty bufs) ec (sys (native_buffers bufs)))"

text \<open>The system's answer with, last, the packet the port gets for a pending operation.\<close>

record stream_answer = overlapped_answer +
  completion :: "u32 \<times> u32"

definition async_send ::
  "bool \<Rightarrow> 'i \<Rightarrow> 'i sock_service \<Rightarrow> buf list \<Rightarrow> (wsabuf list \<Rightarrow> stream_answer) \<Rightarrow> 'op \<Rightarrow> ('t, 'k, 'op) iocp \<Rightarrow> ('t, 'k, 'op) iocp" where
  "async_send ok k svc bs sys x s =
     (let bufs = adapter_new bs
      in start_send_op ok k svc (overlapped_answer.truncate (sys (native_buffers bufs)))
           (has (sstate svc k) stream_oriented \<and> adapter_all_empty bufs) x s)"

definition async_receive ::
  "bool \<Rightarrow> 'i \<Rightarrow> 'i sock_service \<Rightarrow> buf list \<Rightarrow> (wsabuf list \<Rightarrow> stream_answer) \<Rightarrow> 'op \<Rightarrow> ('t, 'k, 'op) iocp \<Rightarrow> ('t, 'k, 'op) iocp" where
  "async_receive ok k svc bs sys x s =
     (let bufs = adapter_new bs
      in start_receive_op ok k svc (overlapped_answer.truncate (sys (native_buffers bufs)))
           (has (sstate svc k) stream_oriented \<and> adapter_all_empty bufs) x s)"

definition async_receive_with_flags ::
  "bool \<Rightarrow> 'i \<Rightarrow> 'i sock_service \<Rightarrow> buf list \<Rightarrow> (wsabuf list \<Rightarrow> stream_answer) \<Rightarrow> 'op \<Rightarrow> ('t, 'k, 'op) iocp \<Rightarrow> ('t, 'k, 'op) iocp" where
  "async_receive_with_flags ok k svc bs sys x s =
     start_receive_op ok k svc (overlapped_answer.truncate (sys (native_buffers (adapter_new bs)))) False x s"

definition async_send_null ::
  "bool \<Rightarrow> 'i \<Rightarrow> 'i sock_service \<Rightarrow> 'op \<Rightarrow> ('t, 'k, 'op) iocp \<Rightarrow> io_error \<times> 'i sock_service \<times> ('t, 'k, 'op) iocp" where
  "async_send_null ok k svc x s = start_reactor_op ok k svc success x s"

definition async_receive_null ::
  "bool \<Rightarrow> 'i \<Rightarrow> 'i sock_service \<Rightarrow> overlapped_answer \<Rightarrow> 'op \<Rightarrow> ('t, 'k, 'op) iocp \<Rightarrow> io_error \<times> 'i sock_service \<times> ('t, 'k, 'op) iocp" where
  "async_receive_null ok k svc a x s = start_null_buffers_receive_op ok k svc a success x s"

section \<open>What the loop gives an operation\<close>

text \<open>The result of a receive or a send: at once, or when the system completes it.\<close>

definition receive_error :: "u32 \<Rightarrow> u32" where
  "receive_error e = (if e = ERROR_NETNAME_DELETED then WSAE_CONNRESET
     else if e = ERROR_PORT_UNREACHABLE then WSAECONNREFUSED else e)"

definition send_error :: "u32 \<Rightarrow> u32" where
  "send_error e = (if e = ERROR_PORT_UNREACHABLE then WSAECONNREFUSED else e)"

definition at_once :: "(u32 \<Rightarrow> u32) \<Rightarrow> bool \<Rightarrow> bool \<Rightarrow> stream_answer \<Rightarrow> bool" where
  "at_once remap opened noop a \<longleftrightarrow> noop \<or> \<not> opened \<or> retval a \<noteq> 0 \<and> remap (wsa_error a) \<noteq> WSA_IO_PENDING"

definition io_result :: "(u32 \<Rightarrow> u32) \<Rightarrow> bool \<Rightarrow> bool \<Rightarrow> stream_answer \<Rightarrow> io_error \<times> u32" where
  "io_result remap opened noop a =
     (if noop then (success, 0)
      else if \<not> opened then ((System_category, WSAEBADF), 0)
      else if retval a \<noteq> 0 \<and> remap (wsa_error a) \<noteq> WSA_IO_PENDING
           then ((System_category, remap (wsa_error a)), wsa_bytes a)
      else ((System_category, fst (completion a)), snd (completion a)))"

definition result_packet :: "(u32 \<Rightarrow> u32) \<Rightarrow> bool \<Rightarrow> bool \<Rightarrow> stream_answer \<Rightarrow> 'op \<Rightarrow> 'op io_packet" where
  "result_packet remap opened noop a x =
     (if at_once remap opened noop a then op_packet Overlapped_contains_result x
      else \<lparr>pkey = Key_none, overlapped = Some x, last_error = fst (completion a), transferred = snd (completion a)\<rparr>)"

definition stream_noop :: "'i \<Rightarrow> 'i sock_service \<Rightarrow> buf list \<Rightarrow> bool" where
  "stream_noop k svc bs \<longleftrightarrow> has (sstate svc k) stream_oriented \<and> adapter_all_empty (adapter_new bs)"

lemma ready_after_pending: "ready (on_pending ok x s) x"
  by (simp add: on_pending_def set_ready_def post_or_aside_def put_aside_def)

lemma take_pending:
  "fst (take_op \<lparr>pkey = Key_none, overlapped = Some x, last_error = e, transferred = n\<rparr> x (on_pending ok x s)) =
     Complete x (System_category, e) n"
  using ready_after_pending [of ok x s] by (simp add: take_op_def)

lemma take_completed:
  "fst (take_op (op_packet Overlapped_contains_result x) x (on_completion ok x e n s)) = Complete x (System_category, e) n"
  by (simp add: take_op_def on_completion_def op_packet_def set_ready_def post_or_aside_def put_aside_def Let_def)

lemma truncate_simps [simp]:
  "retval (overlapped_answer.truncate a) = retval a" "wsa_bytes (overlapped_answer.truncate a) = wsa_bytes a"
  "wsa_error (overlapped_answer.truncate a) = wsa_error a" "delivered (overlapped_answer.truncate a) = delivered a"
  by (simp_all add: overlapped_answer.truncate_def)

text \<open>
  The packet of a started receive or send, when a thread of the loop takes it, makes the loop
  call \<^verbatim>\<open>do_complete\<close> with exactly what the system said: the error of the call itself, or
  what it put into the packet; for a closed socket the error for a bad descriptor, and for an
  empty transfer on a stream success.
\<close>

theorem stream_results_delivered:
  "fst (take_op (result_packet receive_error (is_open k svc) (stream_noop k svc bs) (sys (native_buffers (adapter_new bs))) x) x
      (async_receive ok k svc bs sys x s)) =
     (case io_result receive_error (is_open k svc) (stream_noop k svc bs) (sys (native_buffers (adapter_new bs))) of
        (ec, n) \<Rightarrow> Complete x ec n) \<and>
   fst (take_op (result_packet send_error (is_open k svc) (stream_noop k svc bs) (sys (native_buffers (adapter_new bs))) x) x
      (async_send ok k svc bs sys x s)) =
     (case io_result send_error (is_open k svc) (stream_noop k svc bs) (sys (native_buffers (adapter_new bs))) of
        (ec, n) \<Rightarrow> Complete x ec n)"
  by (auto simp: result_packet_def at_once_def io_result_def async_receive_def async_send_def start_receive_op_def
      start_send_op_def stream_noop_def finish_start_def receive_error_def send_error_def take_pending take_completed
      success_def Let_def)

text \<open>
  And if a thread takes the packet of the system before the function that started the operation
  has gone on, it leaves the result in the operation, and the packet posted then gives the same.
\<close>

lemma packet_before_pending:
  assumes "\<not> ready s x" "pkey p \<noteq> Overlapped_contains_result"
  shows "fst (take_op p x s) = Again"
    and "fst (take_op (op_packet Overlapped_contains_result x) x (on_pending ok x (snd (take_op p x s)))) =
      Complete x (System_category, last_error p) (transferred p)"
  using assms by (simp_all add: take_op_def on_pending_def set_ready_def post_or_aside_def put_aside_def op_packet_def)

section \<open>Transfers on a socket\<close>

text \<open>
  The contract of one operation of a composed transfer: \<open>complete bs a\<close> is what the handler
  gets for buffers \<open>bs\<close> when the socket and the system behave as \<open>a\<close> says. The buffers are few
  and small enough to reach the system as they are.
\<close>

definition error_value :: "io_error \<Rightarrow> error_code" where
  "error_value ec = uint (snd ec)"

lemma error_value_0 [simp]: "error_value ec = 0 \<longleftrightarrow> \<not> failed ec"
  by (simp add: error_value_def failed_def uint_0_iff)

definition small_buffers :: "buf list \<Rightarrow> bool" where
  "small_buffers bs \<longleftrightarrow> length bs \<le> 64 \<and> buffer_size bs \<le> default_max_transfer_size"

text \<open>A composed transfer, each of its operations answered by the next element of \<open>as\<close>.\<close>

fun socket_script :: "(buf list \<Rightarrow> 'a \<Rightarrow> io_error \<times> u32) \<Rightarrow> 'c walker \<Rightarrow> action \<times> 'c \<Rightarrow> 'a list \<Rightarrow> (error_code \<times> nat) list" where
  "socket_script complete W (Handler ec t, c) as = []"
| "socket_script complete W (Start_some bs, c) [] = []"
| "socket_script complete W (Start_some bs, c) (a # as) =
     (let (e, n) = complete bs a
      in (error_value e, unat n) #
         socket_script complete W (write_op_call W transfer_all False (error_value e) (unat n) c) as)"

lemma script_all_used:
  "drive W transfer_all A (socket_script complete W A as) = (xs, None) \<Longrightarrow> length (socket_script complete W A as) = length as"
proof (induction as arbitrary: A xs)
  case Nil
  then show ?case by (cases A; cases "fst A") auto
next
  case (Cons a as)
  obtain act c where A: "A = (act, c)" by (cases A)
  show ?case
  proof (cases act)
    case (Start_some bs)
    obtain e n where cpl: "complete bs a = (e, n)" by fastforce
    let ?B = "write_op_call W transfer_all False (error_value e) (unat n) c"
    obtain ys r where d: "drive W transfer_all ?B (socket_script complete W ?B as) = (ys, r)" by fastforce
    with Cons.prems A Start_some cpl have "r = None" by simp
    with d Cons.IH A Start_some cpl show ?thesis by simp
  qed (use Cons.prems A in simp)
qed

locale transport =
  fixes complete :: "buf list \<Rightarrow> 'a \<Rightarrow> io_error \<times> u32" and honest :: "'a \<Rightarrow> bool"
  assumes bounded: "honest a \<Longrightarrow> small_buffers bs \<Longrightarrow> complete bs a = (ec, n) \<Longrightarrow> unat n \<le> buffer_size bs"
    and progress: "honest a \<Longrightarrow> small_buffers bs \<Longrightarrow> complete bs a = (ec, n) \<Longrightarrow> \<not> failed ec \<Longrightarrow>
      0 < buffer_size bs \<Longrightarrow> 0 < unat n"
begin

lemma script_obeys:
  assumes "\<And>c. small_buffers (w_prepare W c default_max_transfer_size)" and "\<And>a. a \<in> set as \<Longrightarrow> honest a"
  shows "obeys W transfer_all (Start_some (w_prepare W c default_max_transfer_size), c)
    (socket_script complete W (Start_some (w_prepare W c default_max_transfer_size), c) as)"
  using assms(2)
proof (induction as arbitrary: c)
  case (Cons a as)
  let ?bs = "w_prepare W c default_max_transfer_size"
  obtain e n where cpl: "complete ?bs a = (e, n)" by fastforce
  from Cons.prems have h: "honest a" by simp
  note b = bounded [OF h assms(1) cpl] and p = progress [OF h assms(1) cpl]
  let ?c = "w_consume W c (unat n)"
  consider ec t where "write_op_call W transfer_all False (error_value e) (unat n) c = (Handler ec t, ?c)"
    | "write_op_call W transfer_all False (error_value e) (unat n) c = (Start_some (w_prepare W ?c default_max_transfer_size), ?c)"
    by (cases "failed e"; cases "unat n = 0 \<or> w_empty W ?c")
      (auto simp: write_op_call_def transfer_all_def Let_def default_max_transfer_size_def)
  then show ?case
  proof cases
    case 1
    with cpl b p show ?thesis by simp
  next
    case 2
    with cpl b p Cons.IH [of ?c] Cons.prems show ?thesis by simp
  qed
qed simp

end

lemma prepare_loop_size: "buffer_size (prepare_loop mx bs off m n) \<le> m"
proof (induction mx bs off m n rule: prepare_loop.induct)
  case (2 mx b bs off m n)
  show ?case
  proof (cases "m > 0 \<and> n < mx")
    case True
    let ?e = "buffer_limit (buf_add b off) m"
    have "bsize ?e \<le> m" by simp
    moreover have "buffer_size (prepare_loop mx bs 0 (m - bsize ?e) (if bsize ?e > 0 then Suc n else n)) \<le> m - bsize ?e"
      by (rule 2 [OF True refl])
    ultimately show ?thesis using True by (auto simp: Let_def simp del: bsize_buffer_limit split: if_splits)
  qed auto
qed simp

lemma sequence_small: "small_buffers (w_prepare sequence_walker c default_max_transfer_size)"
proof -
  have "length (cb_prepare c default_max_transfer_size) \<le> 16"
    using prepare_loop_length [of 0 max_prepared] by (simp add: cb_prepare_def max_prepared_def)
  then show ?thesis by (simp add: small_buffers_def sequence_walker_def cb_prepare_def prepare_loop_size)
qed

text \<open>
  One operation on a socket: the service when it is started, the system's answer to the call,
  and whether the socket is gone when the operation completes.
\<close>

record 'i stream_turn =
  turn_service :: "'i sock_service"
  turn_system :: "wsabuf list \<Rightarrow> stream_answer"
  turn_gone :: bool

definition socket_receive :: "'i \<Rightarrow> buf list \<Rightarrow> 'i stream_turn \<Rightarrow> io_error \<times> u32" where
  "socket_receive k bs t =
     (let svc = turn_service t;
          (ec, n) = io_result receive_error (is_open k svc) (stream_noop k svc bs)
            (turn_system t (native_buffers (adapter_new bs)))
      in recv_complete (sstate svc k) (turn_gone t) bs ec n)"

definition socket_send :: "'i \<Rightarrow> buf list \<Rightarrow> 'i stream_turn \<Rightarrow> io_error \<times> u32" where
  "socket_send k bs t =
     (let svc = turn_service t;
          (ec, n) = io_result send_error (is_open k svc) (stream_noop k svc bs)
            (turn_system t (native_buffers (adapter_new bs)))
      in send_complete (turn_gone t) ec n)"

text \<open>
  What the system documents of \<^verbatim>\<open>WSARecv\<close> and \<^verbatim>\<open>WSASend\<close> on a stream socket: a call that
  fails says why, no more bytes are counted than there is room for, the errors that belong to
  messages do not occur, and a successful send of something sends something.
\<close>

definition honest_answer :: "wsabuf list \<Rightarrow> stream_answer \<Rightarrow> bool" where
  "honest_answer ws a \<longleftrightarrow> (retval a \<noteq> 0 \<longrightarrow> wsa_error a \<noteq> 0) \<and>
     unat (wsa_bytes a) \<le> native_size ws \<and> unat (snd (completion a)) \<le> native_size ws \<and>
     wsa_error a \<noteq> WSAEMSGSIZE \<and> wsa_error a \<noteq> ERROR_MORE_DATA \<and>
     fst (completion a) \<noteq> WSAEMSGSIZE \<and> fst (completion a) \<noteq> ERROR_MORE_DATA"

definition honest_receiver :: "'i \<Rightarrow> 'i stream_turn \<Rightarrow> bool" where
  "honest_receiver k t \<longleftrightarrow> has (sstate (turn_service t) k) stream_oriented \<and> (\<forall>ws. honest_answer ws (turn_system t ws))"

definition honest_sender :: "'i \<Rightarrow> 'i stream_turn \<Rightarrow> bool" where
  "honest_sender k t \<longleftrightarrow> (\<forall>ws. honest_answer ws (turn_system t ws) \<and>
     (fst (completion (turn_system t ws)) = 0 \<and> 0 < native_size ws \<longrightarrow> snd (completion (turn_system t ws)) \<noteq> 0))"

lemma small_native:
  assumes "small_buffers bs"
  shows "native_size (native_buffers (adapter_new bs)) = buffer_size bs"
    and "seq_all_empty 0 bs \<longleftrightarrow> buffer_size bs = 0"
    and "adapter_all_empty (adapter_new bs) \<longleftrightarrow> buffer_size bs = 0"
proof -
  from assms have "length bs \<le> 64" "buffer_size bs < 2 ^ 32"
    by (simp_all add: small_buffers_def default_max_transfer_size_def)
  from native_all [OF this] show "native_size (native_buffers (adapter_new bs)) = buffer_size bs"
    "seq_all_empty 0 bs \<longleftrightarrow> buffer_size bs = 0" "adapter_all_empty (adapter_new bs) \<longleftrightarrow> buffer_size bs = 0"
    by (simp_all add: static_all_empty)
qed

lemmas error_numbers = WSAEMSGSIZE_def ERROR_MORE_DATA_def ERROR_NETNAME_DELETED_def ERROR_PORT_UNREACHABLE_def
  WSA_IO_PENDING_def WSAEBADF_def WSAECONNREFUSED_def WSAE_CONNRESET_def

lemmas receive_errors = failed_def success_def eof_def operation_aborted_def connection_reset_def connection_refused_def

lemma io_result_bytes:
  assumes "honest_answer ws a" and "io_result remap opened noop a = (ec, n)"
  shows "unat n \<le> native_size ws"
  using assms by (auto simp: io_result_def honest_answer_def split: if_splits)

interpretation receiving: transport "socket_receive k" "honest_receiver k" for k
proof unfold_locales
  fix t bs ec n
  assume h: "honest_receiver k t" "small_buffers bs" and r: "socket_receive k bs t = (ec, n)"
  obtain ec0 where i: "io_result receive_error (is_open k (turn_service t)) (stream_noop k (turn_service t) bs)
      (turn_system t (native_buffers (adapter_new bs))) = (ec0, n)" and
    ec: "ec = complete_iocp_recv (sstate (turn_service t) k) (turn_gone t) (seq_all_empty 0 bs) ec0 n"
    using r by (auto simp: socket_receive_def recv_complete_def Let_def split: prod.splits)
  have ha: "honest_answer (native_buffers (adapter_new bs)) (turn_system t (native_buffers (adapter_new bs)))"
    using h(1) by (simp add: honest_receiver_def)
  from io_result_bytes [OF ha i] show "unat n \<le> buffer_size bs" using small_native(1) [OF h(2)] by simp
  assume nf: "\<not> failed ec" and pos: "0 < buffer_size bs"
  from ha i have m: "snd ec0 \<noteq> WSAEMSGSIZE" "snd ec0 \<noteq> ERROR_MORE_DATA"
    by (auto simp: io_result_def honest_answer_def receive_error_def success_def error_numbers split: if_splits)
  show "0 < unat n"
  proof (rule ccontr)
    assume "\<not> 0 < unat n"
    then have "n = 0" by (simp add: unat_eq_zero)
    with m nf pos h(1) show False unfolding ec
      by (auto simp: complete_iocp_recv_def small_native(2) [OF h(2)] honest_receiver_def receive_errors split: if_splits)
  qed
qed

interpretation sending: transport "socket_send k" "honest_sender k" for k
proof unfold_locales
  fix t bs ec n
  assume h: "honest_sender k t" "small_buffers bs" and r: "socket_send k bs t = (ec, n)"
  let ?ws = "native_buffers (adapter_new bs)"
  obtain ec0 where i: "io_result send_error (is_open k (turn_service t)) (stream_noop k (turn_service t) bs)
      (turn_system t ?ws) = (ec0, n)" and ec: "ec = complete_iocp_send (turn_gone t) ec0"
    using r by (auto simp: socket_send_def send_complete_def Let_def split: prod.splits)
  have ha: "honest_answer ?ws (turn_system t ?ws)"
    and some: "fst (completion (turn_system t ?ws)) = 0 \<Longrightarrow> 0 < native_size ?ws \<Longrightarrow> snd (completion (turn_system t ?ws)) \<noteq> 0"
    using h(1) by (simp_all add: honest_sender_def)
  from io_result_bytes [OF ha i] show "unat n \<le> buffer_size bs" using small_native(1) [OF h(2)] by simp
  assume nf: "\<not> failed ec" and pos: "0 < buffer_size bs"
  from nf ec have "\<not> failed ec0" by (auto simp: complete_iocp_send_def receive_errors error_numbers split: if_splits)
  with i ha pos some show "0 < unat n"
    by (auto simp: io_result_def honest_answer_def stream_noop_def small_native [OF h(2)] send_error_def receive_errors
        error_numbers unat_gt_0 split: if_splits)
qed

section \<open>Composed transfers on a socket\<close>

definition socket_read :: "'i \<Rightarrow> buf list \<Rightarrow> 'i stream_turn list \<Rightarrow> nat list \<times> (error_code \<times> nat) option" where
  "socket_read k bs ts = async_read_op bs (socket_script (socket_receive k) sequence_walker
     (read_op_call sequence_walker transfer_all True 0 0 (cb_init bs)) ts)"

definition socket_write :: "'i \<Rightarrow> buf list \<Rightarrow> 'i stream_turn list \<Rightarrow> nat list \<times> (error_code \<times> nat) option" where
  "socket_write k bs ts = async_write_op bs (socket_script (socket_send k) sequence_walker
     (write_op_call sequence_walker transfer_all True 0 0 (cb_init bs)) ts)"

context transport begin

definition ops_script :: "buf list \<Rightarrow> 'a list \<Rightarrow> (error_code \<times> nat) list" where
  "ops_script bs ts = socket_script complete sequence_walker (write_op_call sequence_walker transfer_all True 0 0 (cb_init bs)) ts"

lemma ops_obey:
  assumes "\<forall>t \<in> set ts. honest t"
  shows "stream_obeys bs (ops_script bs ts)"
  using script_obeys [of sequence_walker ts "cb_init bs"] assms sequence_small
  by (simp add: stream_obeys_def ops_script_def write_op_call_def transfer_all_def)

lemma ops_exact:
  assumes "\<forall>t \<in> set ts. honest t" and "async_write_op bs (ops_script bs ts) = (xs, Some (ec, t))"
  shows "xs = take t (flats bs) \<and> t \<le> buffer_size bs \<and> (ec = 0 \<longrightarrow> t = buffer_size bs)"
  using sequence.drive_transfers [OF cb_inv_init, of bs "ops_script bs ts" xs ec t] ops_obey [OF assms(1), of bs] assms(2)
  by (fastforce simp: async_write_op_def stream_obeys_def cb_init_rest)

lemma ops_end:
  assumes "\<forall>t \<in> set ts. honest t" and "ts \<noteq> []" and "buffer_size bs \<le> length ts"
  shows "\<exists>xs ec t. async_write_op bs (ops_script bs ts) = (xs, Some (ec, t))"
proof -
  obtain xs r where d: "async_write_op bs (ops_script bs ts) = (xs, r)" by fastforce
  show ?thesis
  proof (cases r)
    case None
    with d have "length (ops_script bs ts) = length ts"
      by (simp add: ops_script_def async_write_op_def script_all_used)
    moreover from this assms(2) have "ops_script bs ts \<noteq> []" by auto
    ultimately show ?thesis using sequence.drive_finishes [OF cb_inv_init, of bs "ops_script bs ts"] ops_obey [OF assms(1), of bs] assms(3)
      by (auto simp: async_write_op_def stream_obeys_def cb_init_rest)
  qed (use d in auto)
qed

end

lemma socket_ops:
  "socket_read k bs ts = async_write_op bs (receiving.ops_script k bs ts)"
  "socket_write k bs ts = async_write_op bs (sending.ops_script k bs ts)"
  by (simp_all add: socket_read_def socket_write_def receiving.ops_script_def sending.ops_script_def
      async_read_op_def async_write_op_def read_op_is_write_op)

text \<open>
  A composed read or write on a stream socket, whatever the socket and the system do between
  and during its operations: when it calls its handler, it has passed exactly the first bytes
  of the buffers, in order, as many as it reports, and all of them when it reports no error.
\<close>

theorem socket_transfer_exact:
  assumes "\<forall>t \<in> set ts. honest_receiver k t \<and> honest_sender k t"
    and "socket_read k bs ts = (xs, Some (ec, t)) \<or> socket_write k bs ts = (xs, Some (ec, t))"
  shows "xs = take t (flats bs) \<and> t \<le> buffer_size bs \<and> (ec = 0 \<longrightarrow> t = buffer_size bs)"
  using assms receiving.ops_exact [of ts k bs xs ec t] sending.ops_exact [of ts k bs xs ec t]
  by (auto simp: socket_ops)

text \<open>An answer that fills the first \<open>n\<close> bytes, or as many as there is room for.\<close>

definition demo_system :: "nat \<Rightarrow> wsabuf list \<Rightarrow> stream_answer" where
  "demo_system n ws = \<lparr>retval = -1, wsa_bytes = 0, wsa_error = 997, delivered = None,
     completion = (0, of_nat (min n (native_size ws)))\<rparr>"

definition demo_turn :: "nat \<Rightarrow> nat stream_turn" where
  "demo_turn n = \<lparr>turn_service = demo_sockets, turn_system = demo_system n, turn_gone = False\<rparr>"

lemma demo_turn_honest: "honest_receiver 7 (demo_turn n)" "0 < n \<Longrightarrow> n \<le> 65536 \<Longrightarrow> honest_sender 7 (demo_turn n)"
proof -
  have st: "has (sstate demo_sockets 7) stream_oriented"
    by (simp add: demo_sockets_def do_open_def new_socket_def register_handle_def take_native_def type_flags_def
        construct_def dl_insert_def reset_impl_def sock_service_new_def SOCK_STREAM_def invalid_socket_def
        success_def failed_def has_def stream_oriented_def get_last_error_def is_open_def Let_def)
  have "unat (of_nat m :: u32) \<le> m" for m by (simp add: unat_of_nat)
  then have le: "unat (of_nat (min n (native_size ws)) :: u32) \<le> native_size ws" for ws
    by (rule le_trans) simp
  then have h: "honest_answer ws (demo_system n ws)" for ws
    by (simp add: honest_answer_def demo_system_def error_numbers)
  with st show "honest_receiver 7 (demo_turn n)" by (simp add: honest_receiver_def demo_turn_def)
  assume n: "0 < n" "n \<le> 65536"
  have "(of_nat (min n (native_size ws)) :: u32) \<noteq> 0" if "0 < native_size ws" for ws
  proof -
    have "unat (of_nat (min n (native_size ws)) :: u32) = min n (native_size ws)"
      using n(2) by (simp add: unat_of_nat take_bit_nat_eq_self)
    moreover have "min n (native_size ws) \<noteq> 0" using n(1) that by simp
    ultimately show ?thesis by (metis unat_0)
  qed
  with h show "honest_sender 7 (demo_turn n)" by (simp add: honest_sender_def demo_turn_def) (simp add: demo_system_def)
qed

lemma socket_transfer_exact_witness:
  "\<exists>xs ec t. socket_read (7 :: nat) [\<lparr>bdata = 100, bsize = 3\<rparr>, \<lparr>bdata = 50, bsize = 2\<rparr>] (replicate 5 (demo_turn 2)) = (xs, Some (ec, t)) \<and>
     xs = take t [100, 101, 102, 50, 51]"
proof -
  let ?bs = "[\<lparr>bdata = 100, bsize = 3\<rparr>, \<lparr>bdata = 50, bsize = 2\<rparr>]" and ?ts = "replicate 5 (demo_turn 2)"
  have h: "\<forall>t \<in> set ?ts. honest_receiver 7 t \<and> honest_sender 7 t" using demo_turn_honest [of 2] by simp
  then obtain xs ec t where r: "socket_read 7 ?bs ?ts = (xs, Some (ec, t))"
    using receiving.ops_end [of ?ts 7 ?bs] by (auto simp: socket_ops)
  from socket_transfer_exact [OF h disjI1 [OF r]] have "xs = take t [100, 101, 102, 50, 51]" by (simp add: flat_def upt_rec)
  with r show ?thesis by blast
qed

text \<open>
  And it calls its handler after at most as many operations as there are bytes.
\<close>

theorem socket_transfer_ends:
  assumes "\<forall>t \<in> set ts. honest_receiver k t \<and> honest_sender k t" and "ts \<noteq> []" and "buffer_size bs \<le> length ts"
  shows "(\<exists>xs ec t. socket_read k bs ts = (xs, Some (ec, t))) \<and> (\<exists>xs ec t. socket_write k bs ts = (xs, Some (ec, t)))"
  using receiving.ops_end [of ts k bs] sending.ops_end [of ts k bs] assms by (simp add: socket_ops)

lemma socket_transfer_ends_witness:
  "\<exists>xs ec t. socket_write (7 :: nat) [\<lparr>bdata = 9, bsize = 3\<rparr>] (replicate 3 (demo_turn 1)) = (xs, Some (ec, t))"
  using socket_transfer_ends [of "replicate 3 (demo_turn 1)" 7 "[\<lparr>bdata = 9, bsize = 3\<rparr>]"] demo_turn_honest [of 1] by simp

section \<open>What the connections rely on\<close>

text \<open>What the transfer of one buffer of \<open>n\<close> bytes, as the connections make them, can end with on a socket.\<close>

definition socket_outcome :: "(buf list \<Rightarrow> 'i stream_turn \<Rightarrow> io_error \<times> u32) \<Rightarrow> ('i stream_turn \<Rightarrow> bool) \<Rightarrow> nat \<Rightarrow> error_code \<Rightarrow> nat \<Rightarrow> bool" where
  "socket_outcome complete honest n ec t \<longleftrightarrow> (\<exists>ts. (\<forall>a \<in> set ts. honest a) \<and>
     snd (single_op n (socket_script complete single_walker
       (write_op_call single_walker transfer_all True 0 0 (sb_init \<lparr>bdata = 0, bsize = n\<rparr>)) ts)) = Some (ec, t))"

lemma single_small: "small_buffers (w_prepare single_walker c default_max_transfer_size)"
  by (simp add: small_buffers_def single_walker_def sb_prepare_def)

context transport begin

lemma single_script_obeys:
  assumes "\<forall>a \<in> set ts. honest a"
  shows "single_obeys n (socket_script complete single_walker
    (write_op_call single_walker transfer_all True 0 0 (sb_init \<lparr>bdata = 0, bsize = n\<rparr>)) ts)"
  using script_obeys [of single_walker ts "sb_init \<lparr>bdata = 0, bsize = n\<rparr>"] assms single_small
  by (simp add: single_obeys_def write_op_call_def transfer_all_def)

end

text \<open>
  C27. The transfers of the connections' headers and bodies, made on a stream socket of the
  completion-port service, end only in ways that the model of the connections allows for
  (\<open>outcome\<close>), so everything shown of connections holds on such sockets.
\<close>

theorem socket_refines_transfers:
  assumes "socket_outcome (socket_receive k) (honest_receiver k) n ec t \<or>
    socket_outcome (socket_send k) (honest_sender k) n ec t"
  shows "outcome n ec t"
  using assms receiving.single_script_obeys [of _ k n] sending.single_script_obeys [of _ k n]
  unfolding socket_outcome_def outcome_def by blast

lemma demo_receive: "socket_receive 7 [\<lparr>bdata = 0, bsize = 2\<rparr>] (demo_turn 2) = (success, 2)"
  by (simp add: socket_receive_def demo_turn_def demo_system_def io_result_def stream_noop_def adapter_all_empty_def
      adapter_new_eq init_native_buffer_def native_size_def demo_sockets_simps receive_error_def recv_complete_def
      complete_iocp_recv_def success_def failed_def error_numbers Let_def)

lemma socket_refines_transfers_witness:
  "socket_outcome (socket_receive (7 :: nat)) (honest_receiver 7) 2 0 2 \<and> outcome 2 0 2"
proof -
  have "socket_outcome (socket_receive (7 :: nat)) (honest_receiver 7) 2 0 2"
    unfolding socket_outcome_def
  proof (intro exI [of _ "[demo_turn 2]"] conjI)
    show "\<forall>a \<in> set [demo_turn 2]. honest_receiver 7 a" using demo_turn_honest(1) by simp
    show "snd (single_op 2 (socket_script (socket_receive (7 :: nat)) single_walker
       (write_op_call single_walker transfer_all True 0 0 (sb_init \<lparr>bdata = 0, bsize = 2\<rparr>)) [demo_turn 2])) = Some (0, 2)"
      by (simp add: single_op_def demo_receive write_op_call_def transfer_all_def single_walker_def sb_prepare_def sb_init_def
          sb_consume_def sb_empty_def buf_add_def buffer_limit_def default_max_transfer_size_def success_def error_value_def Let_def)
  qed
  with socket_refines_transfers [OF disjI1 [OF this]] show ?thesis by simp
qed

section \<open>Buffers of 4 GiB\<close>

text \<open>
  The size of a buffer is truncated to 32 bits for the system. So a receive into one whose
  size is a multiple of 4 GiB asks for nothing, and, if it does not fail, reports the end of
  the stream, though the peer may have sent data and is still there.
\<close>

theorem huge_buffer_reads_eof:
  assumes "honest_receiver k t" and "0 < bsize b" and "2 ^ 32 dvd bsize b" and "socket_receive k [b] t = (ec, n)"
  shows "n = 0 \<and> failed ec \<and>
    (is_open k (turn_service t) \<and> retval (turn_system t [\<lparr>wbuf = bdata b, wlen = 0\<rparr>]) = 0 \<and>
      fst (completion (turn_system t [\<lparr>wbuf = bdata b, wlen = 0\<rparr>])) = 0 \<longrightarrow> ec = eof)"
proof -
  have z: "(of_nat (bsize b) :: u32) = 0" using assms(3) by (simp add: word_of_nat_eq_0_iff)
  then have ws: "native_buffers (adapter_new [b]) = [\<lparr>wbuf = bdata b, wlen = 0\<rparr>]"
    by (simp add: adapter_new_eq init_native_buffer_def)
  have nz: "\<not> seq_all_empty 0 [b]" "\<not> stream_noop k (turn_service t) [b]"
    using assms(2) by (simp_all add: stream_noop_def adapter_all_empty_def adapter_new_eq)
  let ?a = "turn_system t [\<lparr>wbuf = bdata b, wlen = 0\<rparr>]"
  have ha: "honest_answer [\<lparr>wbuf = bdata b, wlen = 0\<rparr>] ?a" and st: "has (sstate (turn_service t) k) stream_oriented"
    using assms(1) by (simp_all add: honest_receiver_def)
  obtain ec0 where i: "io_result receive_error (is_open k (turn_service t)) False ?a = (ec0, n)"
    and ec: "ec = complete_iocp_recv (sstate (turn_service t) k) (turn_gone t) False ec0 n"
    using assms(4) nz by (auto simp: socket_receive_def recv_complete_def ws Let_def split: prod.splits)
  from io_result_bytes [OF ha i] have n: "n = 0" by (simp add: native_size_def unat_eq_zero)
  from ha i have m: "snd ec0 \<noteq> WSAEMSGSIZE" "snd ec0 \<noteq> ERROR_MORE_DATA"
    by (auto simp: io_result_def honest_answer_def receive_error_def success_def error_numbers split: if_splits)
  have "failed ec" unfolding ec n using m st
    by (auto simp: complete_iocp_recv_def receive_errors)
  moreover have "ec = eof" if "is_open k (turn_service t)" "retval ?a = 0" "fst (completion ?a) = 0"
    using i that st unfolding ec n by (auto simp: io_result_def complete_iocp_recv_def failed_def error_numbers)
  ultimately show ?thesis using n by blast
qed

lemma huge_buffer_reads_eof_witness:
  "\<exists>n ec. socket_receive (7 :: nat) [\<lparr>bdata = 0, bsize = 2 ^ 32\<rparr>] (demo_turn 2) = (ec, n) \<and> failed ec"
proof -
  obtain ec n where r: "socket_receive (7 :: nat) [\<lparr>bdata = 0, bsize = 2 ^ 32\<rparr>] (demo_turn 2) = (ec, n)" by fastforce
  from huge_buffer_reads_eof [OF demo_turn_honest(1) _ _ r] r show ?thesis by simp
qed

end
