(* ===== verification/AsioCopy.thy ===== *)
theory AsioCopy
  imports AsioBuffer
begin

text \<open>
  The \<^verbatim>\<open>buffer_copy\<close> functions of \<^verbatim>\<open>buffer.hpp\<close>, on a memory that maps addresses to bytes:
  one for each combination of one buffer and many, with and without a limit. The reference is
  \<open>copied\<close>, a copy from one list of addresses to another; shown: when targets and sources do not
  overlap, all of them do that copy between the flat sequences, stay inside the language and
  return the number of bytes.
\<close>

type_synonym memory = "nat \<Rightarrow> byte"

section \<open>Copying\<close>

definition memcpy :: "nat \<Rightarrow> nat \<Rightarrow> nat \<Rightarrow> memory \<Rightarrow> memory result" where
  "memcpy d s n m =
     (if d < s + n \<and> s < d + n then Inl Overlapping
      else Inr (\<lambda>a. if d \<le> a \<and> a < d + n then m (s + (a - d)) else m a))"

definition buffer_copy_1 :: "buf \<Rightarrow> buf \<Rightarrow> memory \<Rightarrow> (nat \<times> memory) result" where
  "buffer_copy_1 t s m =
     (let n = (if bsize t < bsize s then bsize t else bsize s)
      in if n > 0 then and_then (memcpy (bdata t) (bdata s) n m) (\<lambda>m'. Inr (n, m')) else Inr (n, m))"

definition copy_one_one :: "buf \<Rightarrow> buf \<Rightarrow> memory \<Rightarrow> (nat \<times> memory) result" where
  "copy_one_one t s m = buffer_copy_1 t s m"

definition copy_one_one_max :: "nat \<Rightarrow> buf \<Rightarrow> buf \<Rightarrow> memory \<Rightarrow> (nat \<times> memory) result" where
  "copy_one_one_max mx t s m = buffer_copy_1 t (buffer_limit s mx) m"

fun copy_one_many_loop :: "buf \<Rightarrow> buf list \<Rightarrow> nat \<Rightarrow> memory \<Rightarrow> (nat \<times> memory) result" where
  "copy_one_many_loop t [] tot m = Inr (tot, m)"
| "copy_one_many_loop t (s # ss) tot m =
     (if bsize t \<noteq> 0
      then and_then (buffer_copy_1 t s m) (\<lambda>(n, m'). copy_one_many_loop (buf_add t n) ss (tot + n) m')
      else Inr (tot, m))"

definition copy_one_many :: "nat \<Rightarrow> buf \<Rightarrow> buf list \<Rightarrow> memory \<Rightarrow> (nat \<times> memory) result" where
  "copy_one_many mx t ss m = copy_one_many_loop (buffer_limit t mx) ss 0 m"

fun copy_many_one_loop :: "buf list \<Rightarrow> buf \<Rightarrow> nat \<Rightarrow> memory \<Rightarrow> (nat \<times> memory) result" where
  "copy_many_one_loop [] s tot m = Inr (tot, m)"
| "copy_many_one_loop (t # ts) s tot m =
     (if bsize s \<noteq> 0
      then and_then (buffer_copy_1 t s m) (\<lambda>(n, m'). copy_many_one_loop ts (buf_add s n) (tot + n) m')
      else Inr (tot, m))"

definition copy_many_one :: "nat \<Rightarrow> buf list \<Rightarrow> buf \<Rightarrow> memory \<Rightarrow> (nat \<times> memory) result" where
  "copy_many_one mx ts s m = copy_many_one_loop ts (buffer_limit s mx) 0 m"

text \<open>
  The two loops over many buffers, which move on in the targets, the sources or both; the
  iterators are the rests of the sequences. \<open>None\<close>: the loop does not end.
\<close>

definition advance :: "nat \<Rightarrow> buf list \<Rightarrow> nat \<Rightarrow> buf \<Rightarrow> buf list \<times> nat" where
  "advance n bs off b = (if n = bsize b then (tl bs, 0) else (bs, off + n))"

partial_function (option) copy_many_loop ::
  "buf list \<Rightarrow> nat \<Rightarrow> buf list \<Rightarrow> nat \<Rightarrow> nat \<Rightarrow> memory \<Rightarrow> (nat \<times> memory) result option" where
  "copy_many_loop ts toff ss soff tot m =
     (if ts \<noteq> [] \<and> ss \<noteq> [] then
        let t = buf_add (hd ts) toff; s = buf_add (hd ss) soff
        in case buffer_copy_1 t s m of
             Inl e \<Rightarrow> Some (Inl e)
           | Inr r \<Rightarrow>
               let (ts', toff') = advance (fst r) ts toff t; (ss', soff') = advance (fst r) ss soff s
               in copy_many_loop ts' toff' ss' soff' (tot + fst r) (snd r)
      else Some (Inr (tot, m)))"

partial_function (option) copy_many_max_loop ::
  "nat \<Rightarrow> buf list \<Rightarrow> nat \<Rightarrow> buf list \<Rightarrow> nat \<Rightarrow> nat \<Rightarrow> memory \<Rightarrow> (nat \<times> memory) result option" where
  "copy_many_max_loop mx ts toff ss soff tot m =
     (if tot \<noteq> mx \<and> ts \<noteq> [] \<and> ss \<noteq> [] then
        let t = buf_add (hd ts) toff; s = buf_add (hd ss) soff
        in case buffer_copy_1 t (buffer_limit s (mx - tot)) m of
             Inl e \<Rightarrow> Some (Inl e)
           | Inr r \<Rightarrow>
               let (ts', toff') = advance (fst r) ts toff t; (ss', soff') = advance (fst r) ss soff s
               in copy_many_max_loop mx ts' toff' ss' soff' (tot + fst r) (snd r)
      else Some (Inr (tot, m)))"

definition copy_many_many :: "buf list \<Rightarrow> buf list \<Rightarrow> memory \<Rightarrow> (nat \<times> memory) result option" where
  "copy_many_many ts ss m = copy_many_loop ts 0 ss 0 0 m"

definition copy_many_many_max :: "nat \<Rightarrow> buf list \<Rightarrow> buf list \<Rightarrow> memory \<Rightarrow> (nat \<times> memory) result option" where
  "copy_many_many_max mx ts ss m = copy_many_max_loop mx ts 0 ss 0 0 m"

section \<open>The reference\<close>

text \<open>Addresses \<open>T\<close> get the bytes at addresses \<open>S\<close>, as far as both go.\<close>

definition copied :: "nat list \<Rightarrow> nat list \<Rightarrow> memory \<Rightarrow> memory" where
  "copied T S m = fold (\<lambda>(a, v) m'. m'(a := v)) (zip T (map m S)) m"

lemma fold_upd_other: "a \<notin> set T \<Longrightarrow> fold (\<lambda>(a, v) m'. m'(a := v)) (zip T vs) m a = m a"
proof (induction T arbitrary: vs m)
  case (Cons b T)
  then show ?case by (cases vs) simp_all
qed simp

lemma copied_other: "a \<notin> set T \<Longrightarrow> copied T S m a = m a"
  by (simp add: copied_def fold_upd_other)

lemma copied_Nil [simp]: "copied [] S m = m" "copied T [] m = m"
  by (simp_all add: copied_def)

lemma copied_append:
  assumes "length T1 = length S1" and "set T1 \<inter> set S2 = {}"
  shows "copied T2 S2 (copied T1 S1 m) = copied (T1 @ T2) (S1 @ S2) m"
proof -
  have "map (copied T1 S1 m) S2 = map m S2" using assms(2) copied_other by fastforce
  then have "copied T2 S2 (copied T1 S1 m) = fold (\<lambda>(a, v) m'. m'(a := v)) (zip T2 (map m S2)) (copied T1 S1 m)"
    by (simp only: copied_def [of T2])
  with assms(1) show ?thesis by (simp add: copied_def)
qed

lemma copied_take: "n = min (length T) (length S) \<Longrightarrow> copied (take n T) (take n S) m = copied T S m"
  by (simp add: copied_def zip_map2 flip: take_zip) 

lemma copied_snoc:
  assumes "length T = length S" "b \<notin> set T"
  shows "copied (T @ [a]) (S @ [b]) m = (copied T S m)(a := m b)"
  using assms by (simp add: copied_def)

lemma memcpy_copied:
  assumes "\<not> (d < s + n \<and> s < d + n)"
  shows "memcpy d s n m = Inr (copied [d..<d + n] [s..<s + n] m)"
proof -
  have "copied [d..<d + k] [s..<s + k] m = (\<lambda>a. if d \<le> a \<and> a < d + k then m (s + (a - d)) else m a)" if "k \<le> n" for k
    using that
  proof (induction k)
    case (Suc k)
    have "s + k \<notin> set [d..<d + k]" using assms Suc.prems by auto
    then have "copied [d..<d + Suc k] [s..<s + Suc k] m = (copied [d..<d + k] [s..<s + k] m)(d + k := m (s + k))"
      by (simp add: copied_snoc)
    with Suc show ?case by (auto simp: fun_eq_iff)
  qed (auto simp: fun_eq_iff)
  with assms show ?thesis by (simp add: memcpy_def)
qed

lemma copy_1_copied:
  assumes "set (flat t) \<inter> set (flat s) = {}"
  shows "buffer_copy_1 t s m = Inr (min (bsize t) (bsize s), copied (flat t) (flat s) m)"
proof -
  let ?n = "min (bsize t) (bsize s)"
  have n: "(if bsize t < bsize s then bsize t else bsize s) = ?n" by simp
  have c: "copied (flat t) (flat s) m = copied [bdata t..<bdata t + ?n] [bdata s..<bdata s + ?n] m"
    using copied_take [of ?n "flat t" "flat s" m] by (simp add: flat_def min_def take_upt split: if_splits)
  have "\<not> (bdata t < bdata s + ?n \<and> bdata s < bdata t + ?n)" if "?n > 0"
  proof
    assume o: "bdata t < bdata s + ?n \<and> bdata s < bdata t + ?n"
    let ?a = "max (bdata t) (bdata s)"
    have "?a \<in> set (flat t)" "?a \<in> set (flat s)" using o that by (auto simp: flat_def)
    with assms show False by blast
  qed
  then show ?thesis unfolding buffer_copy_1_def Let_def n c
    by (cases "?n > 0") (auto simp: memcpy_copied)
qed

lemma copied_split:
  assumes "n \<le> length T" "n \<le> length S" "set T \<inter> set S = {}"
  shows "copied (drop n T) (drop n S) (copied (take n T) (take n S) m) = copied T S m"
proof -
  have "set (take n T) \<inter> set (drop n S) = {}" using assms(3) by (meson disjoint_iff in_set_dropD in_set_takeD)
  from copied_append [OF _ this, of "take n S" "drop n T" m] assms(1,2) show ?thesis by simp
qed

section \<open>The loops\<close>

text \<open>
  A step copies the first \<open>n\<close> bytes of what is left, \<open>T\<close> and \<open>S\<close>, of which the two current buffers
  are the beginnings.
\<close>

lemma copy_1_step:
  assumes "T = flat t @ T'" "S = flat s @ S'" "set T \<inter> set S = {}" "n = min (bsize t) (bsize s)"
  shows "buffer_copy_1 t s m = Inr (n, copied (take n T) (take n S) m)"
proof -
  have "set (flat t) \<inter> set (flat s) = {}" using assms by auto
  from copy_1_copied [OF this] copied_take [of n "flat t" "flat s" m] assms show ?thesis by simp
qed

lemma disjoint_drop: "set T \<inter> set S = {} \<Longrightarrow> set (drop n T) \<inter> set (drop k S) = {}"
  by (meson disjoint_iff in_set_dropD)

lemma min_step: "min a b + min (a - min a b) c = min a (b + c)" for a :: nat
  by linarith

lemma min_split: "n \<le> a \<Longrightarrow> n \<le> b \<Longrightarrow> n + min (a - n) (b - n) = min a b" for a :: nat
  by linarith

lemma min_split3: "n \<le> k \<Longrightarrow> n \<le> a \<Longrightarrow> n \<le> b \<Longrightarrow> n + min (k - n) (min (a - n) (b - n)) = min k (min a b)" for a :: nat
  by linarith

lemma one_many_copied:
  assumes "set (flat t) \<inter> set (flats ss) = {}"
  shows "copy_one_many_loop t ss tot m = Inr (tot + min (bsize t) (buffer_size ss), copied (flat t) (flats ss) m)"
  using assms
proof (induction ss arbitrary: t tot m)
  case (Cons s ss)
  let ?n = "min (bsize t) (bsize s)" and ?S = "flats (s # ss)"
  show ?case
  proof (cases "bsize t = 0")
    case False
    let ?m = "copied (take ?n (flat t)) (take ?n ?S) m"
    have step: "buffer_copy_1 t s m = Inr (?n, ?m)"
      by (rule copy_1_step [of "flat t" t "[]" ?S s "flats ss"]) (use Cons.prems in auto)
    have d: "set (flat (buf_add t ?n)) \<inter> set (flats ss) = {}"
      using Cons.prems by (auto dest: in_set_dropD)
    have "copied (drop ?n (flat t)) (flats ss) ?m = copied (drop ?n (flat t)) (drop ?n ?S) ?m"
      by (cases "bsize t \<le> bsize s") simp_all
    also have "\<dots> = copied (flat t) ?S m" by (rule copied_split) (use Cons.prems in auto)
    finally show ?thesis using False step Cons.IH [OF d, of "tot + ?n" ?m]
      by (simp add: min_step add.assoc del: min_add_distrib_left)
  next
    case True
    then have "flat t = []" by simp
    with True show ?thesis by (simp del: flat_empty_iff)
  qed
qed simp

lemma many_one_copied:
  assumes "set (flats ts) \<inter> set (flat s) = {}"
  shows "copy_many_one_loop ts s tot m = Inr (tot + min (buffer_size ts) (bsize s), copied (flats ts) (flat s) m)"
  using assms
proof (induction ts arbitrary: s tot m)
  case (Cons t ts)
  let ?n = "min (bsize t) (bsize s)" and ?T = "flats (t # ts)"
  show ?case
  proof (cases "bsize s = 0")
    case False
    let ?m = "copied (take ?n ?T) (take ?n (flat s)) m"
    have step: "buffer_copy_1 t s m = Inr (?n, ?m)"
      by (rule copy_1_step [of ?T t "flats ts" "flat s" s "[]"]) (use Cons.prems in auto)
    have d: "set (flats ts) \<inter> set (flat (buf_add s ?n)) = {}"
      using Cons.prems by (auto dest: in_set_dropD)
    have "copied (flats ts) (drop ?n (flat s)) ?m = copied (drop ?n ?T) (drop ?n (flat s)) ?m"
      by (cases "bsize s \<le> bsize t") simp_all
    also have "\<dots> = copied ?T (flat s) m" by (rule copied_split) (use Cons.prems in auto)
    finally show ?thesis using False step Cons.IH [OF d, of "tot + ?n" ?m] min_step [of "bsize s" "bsize t" "buffer_size ts"]
      by (simp add: min.commute add.assoc)
  next
    case True
    then have "flat s = []" by simp
    with True show ?thesis by (simp del: flat_empty_iff)
  qed
qed simp

text \<open>The rest of a sequence, from a place inside its first buffer.\<close>

definition place_ok :: "buf list \<Rightarrow> nat \<Rightarrow> bool" where
  "place_ok bs off \<longleftrightarrow> (bs = [] \<longrightarrow> off = 0) \<and> (bs \<noteq> [] \<longrightarrow> off \<le> bsize (hd bs))"

definition left_over :: "buf list \<Rightarrow> nat \<Rightarrow> nat list" where
  "left_over bs off = drop off (flats bs)"

lemma left_over_hd:
  "place_ok bs off \<Longrightarrow> bs \<noteq> [] \<Longrightarrow> left_over bs off = flat (buf_add (hd bs) off) @ flats (tl bs)"
  by (cases bs) (simp_all add: left_over_def place_ok_def)

lemma advance_left_over:
  assumes "place_ok bs off" "bs \<noteq> []" "n \<le> bsize (buf_add (hd bs) off)"
  shows "left_over (fst (advance n bs off (buf_add (hd bs) off))) (snd (advance n bs off (buf_add (hd bs) off))) =
      drop n (left_over bs off)" (is ?left)
    and "place_ok (fst (advance n bs off (buf_add (hd bs) off))) (snd (advance n bs off (buf_add (hd bs) off)))" (is ?ok)
    and "length (fst (advance n bs off (buf_add (hd bs) off))) \<le> length bs" (is ?le)
    and "n = bsize (buf_add (hd bs) off) \<Longrightarrow> length (fst (advance n bs off (buf_add (hd bs) off))) < length bs" (is "_ \<Longrightarrow> ?less")
proof -
  obtain b bs' where bs: "bs = b # bs'" using assms(2) by (cases bs) auto
  have off: "off \<le> bsize b" "n \<le> bsize b - off" using assms(1,3) by (simp_all add: place_ok_def bs)
  have "?left \<and> ?ok \<and> ?le \<and> (n = bsize (buf_add (hd bs) off) \<longrightarrow> ?less)"
  proof (cases "n = bsize b - off")
    case True
    then have "n + off = bsize b" using off by simp
    with True show ?thesis by (cases bs') (simp_all add: advance_def place_ok_def left_over_def bs)
  next
    case False
    with off show ?thesis by (simp add: advance_def place_ok_def left_over_def bs add.commute)
  qed
  then show ?left ?ok ?le "n = bsize (buf_add (hd bs) off) \<Longrightarrow> ?less" by blast+
qed

lemma many_copied:
  assumes "place_ok ts toff" "place_ok ss soff" "set (left_over ts toff) \<inter> set (left_over ss soff) = {}"
  shows "copy_many_loop ts toff ss soff tot m =
    Some (Inr (tot + min (length (left_over ts toff)) (length (left_over ss soff)), copied (left_over ts toff) (left_over ss soff) m))"
  using assms
proof (induction "length ts + length ss" arbitrary: ts toff ss soff tot m rule: less_induct)
  case less
  let ?T = "left_over ts toff" and ?S = "left_over ss soff"
  show ?case
  proof (cases "ts \<noteq> [] \<and> ss \<noteq> []")
    case True
    let ?t = "buf_add (hd ts) toff" and ?s = "buf_add (hd ss) soff"
    let ?n = "min (bsize ?t) (bsize ?s)"
    let ?m = "copied (take ?n ?T) (take ?n ?S) m"
    have T: "?T = flat ?t @ flats (tl ts)" and S: "?S = flat ?s @ flats (tl ss)"
      using left_over_hd less.prems True by auto
    have step: "buffer_copy_1 ?t ?s m = Inr (?n, ?m)" by (rule copy_1_step [OF T S less.prems(3) refl])
    obtain ts' toff' where a: "advance ?n ts toff ?t = (ts', toff')" by fastforce
    obtain ss' soff' where b: "advance ?n ss soff ?s = (ss', soff')" by fastforce
    note A = advance_left_over [OF less.prems(1), of ?n, unfolded a fst_conv snd_conv]
    note B = advance_left_over [OF less.prems(2), of ?n, unfolded b fst_conv snd_conv]
    have l: "left_over ts' toff' = drop ?n ?T" "left_over ss' soff' = drop ?n ?S" "place_ok ts' toff'" "place_ok ss' soff'"
      using A(1,2) B(1,2) True by simp_all
    have "length ts' + length ss' < length ts + length ss"
      using A(3,4) B(3,4) True by (cases "bsize ?t \<le> bsize ?s") (auto simp: min_def)
    from less.hyps [OF this l(3,4), unfolded l(1,2), OF disjoint_drop [OF less.prems(3)]]
    have "copy_many_loop ts' toff' ss' soff' (tot + ?n) ?m =
      Some (Inr (tot + ?n + min (length (drop ?n ?T)) (length (drop ?n ?S)), copied (drop ?n ?T) (drop ?n ?S) ?m))" .
    moreover have "copied (drop ?n ?T) (drop ?n ?S) ?m = copied ?T ?S m"
      by (rule copied_split) (use T S less.prems(3) in auto)
    moreover have "?n + min (length (drop ?n ?T)) (length (drop ?n ?S)) = min (length ?T) (length ?S)"
      unfolding length_drop by (rule min_split) (use T S in auto)
    moreover have "copy_many_loop ts toff ss soff tot m = copy_many_loop ts' toff' ss' soff' (tot + ?n) ?m"
      unfolding copy_many_loop.simps [of ts] Let_def step by (simp only: True a b simp_thms if_True sum.case fst_conv snd_conv prod.case)
    ultimately show ?thesis by (simp only: add.assoc)
  next
    case False
    then have "?T = [] \<or> ?S = []" by (auto simp: left_over_def)
    with False show ?thesis by (subst copy_many_loop.simps) auto
  qed
qed

lemma flat_limit_split: "flat s = flat (buffer_limit s k) @ drop (min (bsize s) k) (flat s)"
  by (simp add: min_def)

lemma many_max_copied:
  assumes "place_ok ts toff" "place_ok ss soff" "set (left_over ts toff) \<inter> set (left_over ss soff) = {}" "tot \<le> mx"
  shows "copy_many_max_loop mx ts toff ss soff tot m =
    Some (Inr (tot + min (mx - tot) (min (length (left_over ts toff)) (length (left_over ss soff))),
      copied (take (mx - tot) (left_over ts toff)) (left_over ss soff) m))"
  using assms
proof (induction "length ts + length ss + (mx - tot)" arbitrary: ts toff ss soff tot m rule: less_induct)
  case less
  let ?T = "left_over ts toff" and ?S = "left_over ss soff"
  show ?case
  proof (cases "tot \<noteq> mx \<and> ts \<noteq> [] \<and> ss \<noteq> []")
    case True
    let ?t = "buf_add (hd ts) toff" and ?s = "buf_add (hd ss) soff"
    let ?e = "buffer_limit ?s (mx - tot)"
    let ?n = "min (bsize ?t) (bsize ?e)"
    let ?m = "copied (take ?n ?T) (take ?n ?S) m"
    have T: "?T = flat ?t @ flats (tl ts)" and S: "?S = flat ?s @ flats (tl ss)"
      using left_over_hd less.prems True by auto
    have S': "?S = flat ?e @ drop (min (bsize ?s) (mx - tot)) (flat ?s) @ flats (tl ss)"
      using S flat_limit_split [of ?s "mx - tot"] by simp
    have step: "buffer_copy_1 ?t ?e m = Inr (?n, ?m)" by (rule copy_1_step [OF T S' less.prems(3) refl])
    obtain ts' toff' where a: "advance ?n ts toff ?t = (ts', toff')" by fastforce
    obtain ss' soff' where b: "advance ?n ss soff ?s = (ss', soff')" by fastforce
    have nt: "?n \<le> bsize ?t" and ns: "?n \<le> bsize ?s" and nm: "?n \<le> mx - tot" by simp_all
    from True have nts: "ts \<noteq> []" "ss \<noteq> []" by blast+
    note A = advance_left_over [OF less.prems(1) nts(1) nt, unfolded a fst_conv snd_conv]
    note B = advance_left_over [OF less.prems(2) nts(2) ns, unfolded b fst_conv snd_conv]
    note l = A(1) B(1) A(2) B(2) and le = A(3) B(3) and lt = A(4) and ls = B(4)
    have nT: "?n \<le> length ?T" and nS: "?n \<le> length ?S"
      using nt ns arg_cong [OF T, of length] arg_cong [OF S, of length] by (simp_all only: length_append length_flat)
    have mx: "tot < mx" using True less.prems(4) by simp
    have three: "?n = bsize ?t \<or> ?n = bsize ?s \<or> ?n = mx - tot" by (simp add: min_def)
    have sub: "mx - (tot + ?n) \<le> mx - tot" "?n = mx - tot \<Longrightarrow> mx - (tot + ?n) < mx - tot" using mx by linarith+
    have "length ts' + length ss' + (mx - (tot + ?n)) < length ts + length ss + (mx - tot)"
      using three
    proof (elim disjE)
      assume "?n = bsize ?t" from lt [OF this] le(2) sub(1) show ?thesis by linarith
    next
      assume "?n = bsize ?s" from ls [OF this] le(1) sub(1) show ?thesis by linarith
    next
      assume "?n = mx - tot" from sub(2) [OF this] le show ?thesis by linarith
    qed
    moreover have "tot + ?n \<le> mx" using nm mx by linarith
    ultimately have "copy_many_max_loop mx ts' toff' ss' soff' (tot + ?n) ?m =
      Some (Inr (tot + ?n + min (mx - (tot + ?n)) (min (length (drop ?n ?T)) (length (drop ?n ?S))),
        copied (take (mx - (tot + ?n)) (drop ?n ?T)) (drop ?n ?S) ?m))"
      using less.hyps [OF _ l(3,4)] disjoint_drop [OF less.prems(3)] unfolding l(1,2) by blast
    moreover have "copied (take (mx - (tot + ?n)) (drop ?n ?T)) (drop ?n ?S) ?m = copied (take (mx - tot) ?T) ?S m"
    proof -
      have "take (mx - (tot + ?n)) (drop ?n ?T) = drop ?n (take (mx - tot) ?T)" "take ?n ?T = take ?n (take (mx - tot) ?T)"
        using nm mx by (simp_all only: drop_take take_take) (simp_all add: diff_diff_left min_absorb1 del: bsize_buffer_limit)
      moreover have "set (take (mx - tot) ?T) \<inter> set ?S = {}" using less.prems(3) by (meson disjoint_iff in_set_takeD)
      moreover have "?n \<le> length (take (mx - tot) ?T)" unfolding length_take using nT nm by linarith
      moreover note nS
      ultimately show ?thesis using copied_split [of ?n "take (mx - tot) ?T" ?S m] by (simp only:)
    qed
    moreover have "?n + min (mx - (tot + ?n)) (min (length (drop ?n ?T)) (length (drop ?n ?S))) =
        min (mx - tot) (min (length ?T) (length ?S))"
      unfolding length_drop using min_split3 [OF nm nT nS] by (simp only: diff_diff_left)
    moreover have "copy_many_max_loop mx ts toff ss soff tot m = copy_many_max_loop mx ts' toff' ss' soff' (tot + ?n) ?m"
      unfolding copy_many_max_loop.simps [of mx ts] Let_def step
      by (simp only: True a b simp_thms if_True sum.case fst_conv snd_conv prod.case)
    ultimately show ?thesis by (simp only: add.assoc)
  next
    case False
    then have "mx - tot = 0 \<or> ?T = [] \<or> ?S = []" using less.prems(4) by (auto simp: left_over_def)
    with False show ?thesis by (subst copy_many_max_loop.simps) auto
  qed
qed

section \<open>All of them are the flat copy\<close>

text \<open>
  Between sequences that do not overlap, every form of \<^verbatim>\<open>buffer_copy\<close> returns, copies the
  source's bytes to the target in order, as if both were one piece of memory, up to the end of
  the shorter one or the limit, and nothing else, and returns how many bytes that were; no
  \<^verbatim>\<open>memcpy\<close> overlaps.
\<close>

theorem buffer_copies_are_flat:
  assumes "set (flats ts) \<inter> set (flats ss) = {}"
  shows "copy_many_many ts ss m = Some (Inr (min (buffer_size ts) (buffer_size ss), copied (flats ts) (flats ss) m)) \<and>
    copy_many_many_max mx ts ss m =
      Some (Inr (min mx (min (buffer_size ts) (buffer_size ss)), copied (take mx (flats ts)) (flats ss) m)) \<and>
    (\<forall>t. ts = [t] \<longrightarrow> copy_one_many mx t ss m =
      Inr (min (min (bsize t) mx) (buffer_size ss), copied (take mx (flats ts)) (flats ss) m)) \<and>
    (\<forall>s. ss = [s] \<longrightarrow> copy_many_one mx ts s m =
      Inr (min (buffer_size ts) (min (bsize s) mx), copied (flats ts) (take mx (flats ss)) m)) \<and>
    (\<forall>t s. ts = [t] \<and> ss = [s] \<longrightarrow> copy_one_one t s m = Inr (min (bsize t) (bsize s), copied (flats ts) (flats ss) m) \<and>
      copy_one_one_max mx t s m = Inr (min (bsize t) (min (bsize s) mx), copied (flats ts) (take mx (flats ss)) m))"
proof -
  have p: "place_ok bs 0" "left_over bs 0 = flats bs" for bs by (simp_all add: place_ok_def left_over_def)
  have t: "set (take mx (flats ts)) \<inter> set (flats ss) = {}" "set (flats ts) \<inter> set (take mx (flats ss)) = {}"
    using assms by (meson disjoint_iff in_set_takeD)+
  have "copy_many_many ts ss m = Some (Inr (min (buffer_size ts) (buffer_size ss), copied (flats ts) (flats ss) m))"
    using many_copied [of ts 0 ss 0 0 m] assms by (simp add: p copy_many_many_def)
  moreover have "copy_many_many_max mx ts ss m =
      Some (Inr (min mx (min (buffer_size ts) (buffer_size ss)), copied (take mx (flats ts)) (flats ss) m))"
    using many_max_copied [of ts 0 ss 0 0 mx m] assms by (simp add: p copy_many_many_max_def)
  moreover have "copy_one_many mx t' ss m = Inr (min (min (bsize t') mx) (buffer_size ss), copied (take mx (flats ts)) (flats ss) m)"
    if "ts = [t']" for t'
    using one_many_copied [of "buffer_limit t' mx" ss 0 m] t(1) that by (simp add: copy_one_many_def)
  moreover have "copy_many_one mx ts s m = Inr (min (buffer_size ts) (min (bsize s) mx), copied (flats ts) (take mx (flats ss)) m)"
    if "ss = [s]" for s
    using many_one_copied [of ts "buffer_limit s mx" 0 m] t(2) that by (simp add: copy_many_one_def)
  moreover have "copy_one_one t' s m = Inr (min (bsize t') (bsize s), copied (flats ts) (flats ss) m) \<and>
      copy_one_one_max mx t' s m = Inr (min (bsize t') (min (bsize s) mx), copied (flats ts) (take mx (flats ss)) m)"
    if "ts = [t']" "ss = [s]" for t' s
    using copy_1_copied [of t' s m] copy_1_copied [of t' "buffer_limit s mx" m] assms t(2) that
    by (simp add: copy_one_one_def copy_one_one_max_def)
  ultimately show ?thesis by blast
qed

text \<open>Three bytes in two pieces, copied to two pieces of another shape.\<close>

lemma buffer_copies_are_flat_witness:
  "copy_many_many [\<lparr>bdata = 10, bsize = 2\<rparr>, \<lparr>bdata = 20, bsize = 2\<rparr>] [\<lparr>bdata = 30, bsize = 1\<rparr>, \<lparr>bdata = 40, bsize = 2\<rparr>] of_nat =
     Some (Inr (3, (of_nat :: memory)(10 := 30, 11 := 40, 20 := 41)))"
proof -
  have "set (flats [\<lparr>bdata = 10, bsize = 2\<rparr>, \<lparr>bdata = 20, bsize = 2\<rparr>]) \<inter> set (flats [\<lparr>bdata = 30, bsize = 1\<rparr>, \<lparr>bdata = 40, bsize = 2\<rparr>]) = {}"
    by (simp add: flat_def)
  from buffer_copies_are_flat [OF this, of of_nat] show ?thesis by (simp add: flat_def upt_rec copied_def)
qed

end
