(* ===== verification/AsioExecutor.thy ===== *)
theory AsioExecutor
  imports AsioIocpRun
begin

text \<open>
  Executors of an \<^verbatim>\<open>io_context\<close> (\<^verbatim>\<open>io_context.hpp\<close>, \<^verbatim>\<open>impl/io_context.hpp\<close>), the free
  function \<^verbatim>\<open>post\<close> (\<^verbatim>\<open>impl/post.hpp\<close>) that the connections use, and the call stack of a
  thread (\<^verbatim>\<open>detail/call_stack.hpp\<close>) that tells whether it is inside \<^verbatim>\<open>run\<close>. An executor with
  outstanding work tracked keeps the loop running while it lives.

  Shown: the count of outstanding work is the number of operations and of tracked executors, and
  what move assignment loses of it; a posted function is never called by the call that posts it.
\<close>

section \<open>The call stack\<close>

text \<open>The contexts of one thread, the innermost first: the key and the value.\<close>

type_synonym 'c call_stack = "('c \<times> nat) list"

definition cs_enter :: "'c \<Rightarrow> nat \<Rightarrow> 'c call_stack \<Rightarrow> 'c call_stack" where
  "cs_enter k v st = (k, v) # st"

definition cs_leave :: "'c call_stack \<Rightarrow> 'c call_stack" where
  "cs_leave st = tl st"

fun cs_contains :: "'c \<Rightarrow> 'c call_stack \<Rightarrow> nat option" where
  "cs_contains k [] = None"
| "cs_contains k (e # st) = (if fst e = k then Some (snd e) else cs_contains k st)"

definition cs_top :: "'c call_stack \<Rightarrow> nat option" where
  "cs_top st = (case st of [] \<Rightarrow> None | e # _ \<Rightarrow> Some (snd e))"

text \<open>Of the innermost context.\<close>

definition next_by_key :: "'c call_stack \<Rightarrow> nat option" where
  "next_by_key st = (case st of [] \<Rightarrow> None | e # st' \<Rightarrow> cs_contains (fst e) st')"

definition can_dispatch :: "'c \<Rightarrow> 'c call_stack \<Rightarrow> bool" where
  "can_dispatch c st \<longleftrightarrow> cs_contains c st \<noteq> None"

lemma cs_contains_iff: "cs_contains k st \<noteq> None \<longleftrightarrow> k \<in> fst ` set st"
  by (induction st) auto

section \<open>Executors\<close>

text \<open>
  \<open>type_bits\<close> is the template parameter \<^verbatim>\<open>Bits\<close>, \<open>ex_bits\<close> the member. A null pointer to the
  context is \<open>None\<close>. The allocator only says where functions are stored.
\<close>

record 'c executor =
  ex_context :: "'c option"
  type_bits :: u32
  ex_bits :: u32

definition blocking_never :: u32 where "blocking_never = 1"
definition relationship_continuation :: u32 where "relationship_continuation = 2"
definition outstanding_work_tracked :: u32 where "outstanding_work_tracked = 4"

definition tracks :: "'c executor \<Rightarrow> bool" where
  "tracks e \<longleftrightarrow> type_bits e AND outstanding_work_tracked \<noteq> 0"

type_synonym ('c, 't, 'k, 'op) loops = "'c \<Rightarrow> ('t, 'k, 'op) iocp"

definition start_on :: "'c option \<Rightarrow> ('c, 't, 'k, 'op) loops \<Rightarrow> ('c, 't, 'k, 'op) loops" where
  "start_on p L = (case p of None \<Rightarrow> L | Some c \<Rightarrow> L(c := work_started (L c)))"

text \<open>\<open>ok c\<close>: posting the stop event succeeds, when this is the last work of \<open>c\<close>.\<close>

definition finish_on :: "('c \<Rightarrow> bool) \<Rightarrow> 'c option \<Rightarrow> ('c, 't, 'k, 'op) loops \<Rightarrow> ('c, 't, 'k, 'op) loops" where
  "finish_on ok p L = (case p of None \<Rightarrow> L | Some c \<Rightarrow> L(c := snd (work_finished (ok c) (L c))))"

definition ex_construct :: "'c option \<Rightarrow> u32 \<Rightarrow> u32 \<Rightarrow> ('c, 't, 'k, 'op) loops \<Rightarrow> 'c executor \<times> ('c, 't, 'k, 'op) loops" where
  "ex_construct p tb b L =
     (let e = \<lparr>ex_context = p, type_bits = tb, ex_bits = b\<rparr>
      in (e, if tracks e then start_on p L else L))"

definition get_executor :: "'c \<Rightarrow> ('c, 't, 'k, 'op) loops \<Rightarrow> 'c executor \<times> ('c, 't, 'k, 'op) loops" where
  "get_executor c L = ex_construct (Some c) 0 0 L"

definition ex_copy :: "'c executor \<Rightarrow> ('c, 't, 'k, 'op) loops \<Rightarrow> 'c executor \<times> ('c, 't, 'k, 'op) loops" where
  "ex_copy other L = (other, if tracks other then start_on (ex_context other) L else L)"

text \<open>The new executor and what is left of the other.\<close>

definition ex_move :: "'c executor \<Rightarrow> 'c executor \<times> 'c executor" where
  "ex_move other = (other, if tracks other then other\<lparr>ex_context := None\<rparr> else other)"

definition ex_destroy :: "('c \<Rightarrow> bool) \<Rightarrow> 'c executor \<Rightarrow> ('c, 't, 'k, 'op) loops \<Rightarrow> ('c, 't, 'k, 'op) loops" where
  "ex_destroy ok e L = (if tracks e then finish_on ok (ex_context e) L else L)"

text \<open>The assignments, to an executor of the same type and not itself.\<close>

definition ex_copy_assign ::
  "('c \<Rightarrow> bool) \<Rightarrow> 'c executor \<Rightarrow> 'c executor \<Rightarrow> ('c, 't, 'k, 'op) loops \<Rightarrow> 'c executor \<times> ('c, 't, 'k, 'op) loops" where
  "ex_copy_assign ok e other L =
     (let e' = e\<lparr>ex_context := ex_context other, ex_bits := ex_bits other\<rparr>
      in (e', if tracks e then finish_on ok (ex_context e) (start_on (ex_context e') L) else L))"

definition ex_move_assign :: "'c executor \<Rightarrow> 'c executor \<Rightarrow> 'c executor \<times> 'c executor" where
  "ex_move_assign e other =
     (e\<lparr>ex_context := ex_context other, ex_bits := ex_bits other\<rparr>,
      if tracks e then other\<lparr>ex_context := None\<rparr> else other)"

section \<open>Properties of an executor\<close>

datatype property = Blocking_possibly | Blocking_never | Fork | Continuation | Tracked | Untracked | Allocator

fun ex_require :: "property \<Rightarrow> 'c executor \<Rightarrow> ('c, 't, 'k, 'op) loops \<Rightarrow> 'c executor \<times> ('c, 't, 'k, 'op) loops" where
  "ex_require Blocking_possibly e L = ex_construct (ex_context e) (type_bits e) (ex_bits e AND NOT blocking_never) L"
| "ex_require Blocking_never e L = ex_construct (ex_context e) (type_bits e) (ex_bits e OR blocking_never) L"
| "ex_require Fork e L = ex_construct (ex_context e) (type_bits e) (ex_bits e AND NOT relationship_continuation) L"
| "ex_require Continuation e L = ex_construct (ex_context e) (type_bits e) (ex_bits e OR relationship_continuation) L"
| "ex_require Tracked e L = ex_construct (ex_context e) (type_bits e OR outstanding_work_tracked) (ex_bits e) L"
| "ex_require Untracked e L = ex_construct (ex_context e) (type_bits e AND NOT outstanding_work_tracked) (ex_bits e) L"
| "ex_require Allocator e L = ex_construct (ex_context e) (type_bits e) (ex_bits e) L"

definition query_blocking :: "'c executor \<Rightarrow> property" where
  "query_blocking e = (if ex_bits e AND blocking_never \<noteq> 0 then Blocking_never else Blocking_possibly)"

definition query_relationship :: "'c executor \<Rightarrow> property" where
  "query_relationship e = (if ex_bits e AND relationship_continuation \<noteq> 0 then Continuation else Fork)"

definition query_outstanding_work :: "'c executor \<Rightarrow> property" where
  "query_outstanding_work e = (if type_bits e AND outstanding_work_tracked \<noteq> 0 then Tracked else Untracked)"

section \<open>Submitting functions\<close>

text \<open>
  The function is operation \<open>x\<close>. The result: whether it is called by this call, and the loops;
  exceptions it throws when called are caught and kept for \<^verbatim>\<open>run\<close>. \<open>ok\<close>: posting succeeds.
\<close>

definition running_in_this_thread :: "'c executor \<Rightarrow> 'c call_stack \<Rightarrow> bool result" where
  "running_in_this_thread e st = (case ex_context e of None \<Rightarrow> Inl Null_pointer | Some c \<Rightarrow> Inr (can_dispatch c st))"

definition post_on :: "bool \<Rightarrow> 'c \<Rightarrow> 'op \<Rightarrow> ('c, 't, 'k, 'op) loops \<Rightarrow> ('c, 't, 'k, 'op) loops" where
  "post_on ok c x L = L(c := post_immediate_completion ok x (L c))"

definition execute ::
  "bool \<Rightarrow> 'c executor \<Rightarrow> 'c call_stack \<Rightarrow> 'op \<Rightarrow> ('c, 't, 'k, 'op) loops \<Rightarrow> (bool \<times> ('c, 't, 'k, 'op) loops) result" where
  "execute ok e st x L =
     (case ex_context e of
        None \<Rightarrow> Inl Null_pointer
      | Some c \<Rightarrow>
          if ex_bits e AND blocking_never = 0 \<and> can_dispatch c st then Inr (True, L)
          else Inr (False, post_on ok c x L))"

definition ex_dispatch ::
  "bool \<Rightarrow> 'c executor \<Rightarrow> 'c call_stack \<Rightarrow> 'op \<Rightarrow> ('c, 't, 'k, 'op) loops \<Rightarrow> (bool \<times> ('c, 't, 'k, 'op) loops) result" where
  "ex_dispatch ok e st x L =
     (case ex_context e of
        None \<Rightarrow> Inl Null_pointer
      | Some c \<Rightarrow> if can_dispatch c st then Inr (True, L) else Inr (False, post_on ok c x L))"

definition ex_post ::
  "bool \<Rightarrow> 'c executor \<Rightarrow> 'op \<Rightarrow> ('c, 't, 'k, 'op) loops \<Rightarrow> (bool \<times> ('c, 't, 'k, 'op) loops) result" where
  "ex_post ok e x L = (case ex_context e of None \<Rightarrow> Inl Null_pointer | Some c \<Rightarrow> Inr (False, post_on ok c x L))"

definition ex_defer ::
  "bool \<Rightarrow> 'c executor \<Rightarrow> 'op \<Rightarrow> ('c, 't, 'k, 'op) loops \<Rightarrow> (bool \<times> ('c, 't, 'k, 'op) loops) result" where
  "ex_defer ok e x L = (case ex_context e of None \<Rightarrow> Inl Null_pointer | Some c \<Rightarrow> Inr (False, post_on ok c x L))"

definition ex_on_work_started :: "'c executor \<Rightarrow> ('c, 't, 'k, 'op) loops \<Rightarrow> ('c, 't, 'k, 'op) loops result" where
  "ex_on_work_started e L = (case ex_context e of None \<Rightarrow> Inl Null_pointer | Some c \<Rightarrow> Inr (start_on (Some c) L))"

definition ex_on_work_finished :: "('c \<Rightarrow> bool) \<Rightarrow> 'c executor \<Rightarrow> ('c, 't, 'k, 'op) loops \<Rightarrow> ('c, 't, 'k, 'op) loops result" where
  "ex_on_work_finished ok e L = (case ex_context e of None \<Rightarrow> Inl Null_pointer | Some c \<Rightarrow> Inr (finish_on ok (Some c) L))"

text \<open>
  \<^verbatim>\<open>asio::post(ex, f)\<close>: the executor is copied, and three temporaries with the properties asked
  for are made and destroyed again.
\<close>

definition post_with_executor ::
  "('c \<Rightarrow> bool) \<Rightarrow> bool \<Rightarrow> 'c executor \<Rightarrow> 'c call_stack \<Rightarrow> 'op \<Rightarrow> ('c, 't, 'k, 'op) loops \<Rightarrow> (bool \<times> ('c, 't, 'k, 'op) loops) result" where
  "post_with_executor okf ok ex st x L =
     (let (ex1, L1) = ex_require Blocking_never ex L;
          (ex2, L2) = ex_require Fork ex1 L1;
          (ex3, L3) = ex_require Allocator ex2 L2
      in and_then (execute ok ex3 st x L3) (\<lambda>(called, L4).
           Inr (called, ex_destroy okf ex1 (ex_destroy okf ex2 (ex_destroy okf ex3 L4)))))"

definition asio_post ::
  "('c \<Rightarrow> bool) \<Rightarrow> bool \<Rightarrow> 'c executor \<Rightarrow> 'c call_stack \<Rightarrow> 'op \<Rightarrow> ('c, 't, 'k, 'op) loops \<Rightarrow> (bool \<times> ('c, 't, 'k, 'op) loops) result" where
  "asio_post okf ok ex st x L =
     (let (ex', L1) = ex_copy ex L
      in and_then (post_with_executor okf ok ex' st x L1) (\<lambda>(called, L2). Inr (called, ex_destroy okf ex' L2)))"

text \<open>\<^verbatim>\<open>asio::post(ctx, f)\<close>.\<close>

definition asio_post_context ::
  "('c \<Rightarrow> bool) \<Rightarrow> bool \<Rightarrow> 'c \<Rightarrow> 'c call_stack \<Rightarrow> 'op \<Rightarrow> ('c, 't, 'k, 'op) loops \<Rightarrow> (bool \<times> ('c, 't, 'k, 'op) loops) result" where
  "asio_post_context okf ok c st x L =
     (let (ex, L1) = get_executor c L
      in and_then (asio_post okf ok ex st x L1) (\<lambda>(called, L2). Inr (called, ex_destroy okf ex L2)))"

lemmas executor_bits = blocking_never_def relationship_continuation_def outstanding_work_tracked_def

lemma get_executor_untracked: "get_executor c L = (\<lparr>ex_context = Some c, type_bits = 0, ex_bits = 0\<rparr>, L)"
  by (simp add: get_executor_def ex_construct_def tracks_def)

text \<open>
  \<^verbatim>\<open>asio::post\<close> on a context never calls the function itself, even from within one of the
  context's handlers, where dispatching or executing would: it only puts an operation into the
  loop, a step of the loop that calls nothing.
\<close>

theorem posts_never_run_inline:
  assumes "loop_reach S" and "phase S x = Unused" and "L c = io S"
  shows "(\<exists>S'. loop_reach S' \<and> called S' = called S \<and> phase S' = (phase S)(x := Posted) \<and>
      asio_post_context okf ok c st x L = Inr (False, L(c := io S'))) \<and>
    (c \<in> fst ` set st \<longrightarrow> ex_dispatch ok (fst (get_executor c L)) st x L = Inr (True, L) \<and>
      execute ok (fst (get_executor c L)) st x L = Inr (True, L))"
proof -
  let ?S = "S\<lparr>io := post_immediate_completion ok x (io S), phase := (phase S)(x := Posted)\<rparr>"
  have "loop_reach ?S" by (rule loop_more [OF assms(1) loop_step.post [OF assms(2)]])
  moreover have "asio_post_context okf ok c st x L = Inr (False, L(c := io ?S))"
    by (simp add: asio_post_context_def get_executor_untracked asio_post_def ex_copy_def post_with_executor_def ex_construct_def
        execute_def ex_destroy_def tracks_def post_on_def executor_bits assms(3) Let_def)
  moreover have "ex_dispatch ok (fst (get_executor c L)) st x L = Inr (True, L) \<and>
      execute ok (fst (get_executor c L)) st x L = Inr (True, L)" if "c \<in> fst ` set st"
    using that cs_contains_iff [of c st]
    by (simp add: get_executor_untracked ex_dispatch_def execute_def can_dispatch_def)
  ultimately show ?thesis by (intro conjI impI exI [of _ ?S]) simp_all
qed

lemma posts_never_run_inline_witness:
  "\<exists>S' :: (nat, nat, nat) loop_sys. loop_reach S' \<and> called S' = [] \<and>
     asio_post_context (\<lambda>_. True) True (0 :: nat) [(0, 9)] 3 (\<lambda>_. new_iocp) = Inr (False, (\<lambda>_. new_iocp)(0 := io S'))"
proof -
  have "loop_reach (loop_start :: (nat, nat, nat) loop_sys)" "phase (loop_start :: (nat, nat, nat) loop_sys) 3 = Unused"
    by (rule loop_init) (simp add: loop_start_def)
  from posts_never_run_inline [OF this, of "\<lambda>_. new_iocp" "0 :: nat" "\<lambda>_. True" True "[(0, 9)]"] show ?thesis
    by (simp add: loop_start_def) blast
qed

section \<open>The work that executors stand for\<close>

text \<open>
  The executors a program has, by name, and the loops of its contexts. Of each context, \<open>busy\<close>
  counts the operations not finished, and \<open>lost\<close> the tracked executors assigned to by moving
  while they belonged to it. \<open>running\<close>: a loop does something else, which may begin and end
  operations.
\<close>

record ('n, 'c, 't, 'k, 'op) exec_world =
  loops_of :: "('c, 't, 'k, 'op) loops"
  execs :: "'n \<Rightarrow> 'c executor option"
  busy :: "'c \<Rightarrow> nat"
  lost :: "'c \<Rightarrow> nat"

definition put :: "'n \<Rightarrow> 'c executor \<times> ('c, 't, 'k, 'op) loops \<Rightarrow> ('n, 'c, 't, 'k, 'op) exec_world \<Rightarrow> ('n, 'c, 't, 'k, 'op) exec_world" where
  "put n r w = w\<lparr>execs := (execs w)(n \<mapsto> fst r), loops_of := snd r\<rparr>"

inductive exec_step :: "('n, 'c, 't, 'k, 'op) exec_world \<Rightarrow> ('n, 'c, 't, 'k, 'op) exec_world \<Rightarrow> bool" where
  get: "execs w n = None \<Longrightarrow> exec_step w (put n (get_executor c (loops_of w)) w)"
| copy: "execs w n = None \<Longrightarrow> execs w m = Some e \<Longrightarrow> exec_step w (put n (ex_copy e (loops_of w)) w)"
| require: "execs w n = None \<Longrightarrow> execs w m = Some e \<Longrightarrow> exec_step w (put n (ex_require p e (loops_of w)) w)"
| move: "execs w n = None \<Longrightarrow> execs w m = Some e \<Longrightarrow>
    exec_step w (w\<lparr>execs := (execs w)(n \<mapsto> fst (ex_move e), m \<mapsto> snd (ex_move e))\<rparr>)"
| destroy: "execs w n = Some e \<Longrightarrow>
    exec_step w (w\<lparr>execs := (execs w)(n := None), loops_of := ex_destroy ok e (loops_of w)\<rparr>)"
| copy_assign: "n \<noteq> m \<Longrightarrow> execs w n = Some e \<Longrightarrow> execs w m = Some other \<Longrightarrow> type_bits e = type_bits other \<Longrightarrow>
    exec_step w (put n (ex_copy_assign ok e other (loops_of w)) w)"
| move_assign: "n \<noteq> m \<Longrightarrow> execs w n = Some e \<Longrightarrow> execs w m = Some other \<Longrightarrow> type_bits e = type_bits other \<Longrightarrow>
    exec_step w (w\<lparr>execs := (execs w)(n \<mapsto> fst (ex_move_assign e other), m \<mapsto> snd (ex_move_assign e other)),
      lost := (\<lambda>c. lost w c + (if tracks e \<and> ex_context e = Some c then 1 else 0))\<rparr>)"
| running: "outstanding_work s - of_nat b = outstanding_work (loops_of w c) - of_nat (busy w c) \<Longrightarrow>
    exec_step w (w\<lparr>loops_of := (loops_of w)(c := s), busy := (busy w)(c := b)\<rparr>)"

definition exec_start :: "('n, 'c, 't, 'k, 'op) exec_world" where
  "exec_start = \<lparr>loops_of = \<lambda>_. new_iocp, execs = \<lambda>_. None, busy = \<lambda>_. 0, lost = \<lambda>_. 0\<rparr>"

inductive exec_reach :: "('n, 'c, 't, 'k, 'op) exec_world \<Rightarrow> bool" where
  exec_init: "exec_reach exec_start"
| exec_more: "exec_reach w \<Longrightarrow> exec_step w w' \<Longrightarrow> exec_reach w'"

text \<open>The tracked executors of a context.\<close>

definition on_ctx :: "'c \<Rightarrow> 'c executor \<Rightarrow> bool" where
  "on_ctx c e \<longleftrightarrow> tracks e \<and> ex_context e = Some c"

definition trackers :: "'c \<Rightarrow> ('n \<Rightarrow> 'c executor option) \<Rightarrow> 'n set" where
  "trackers c X = {n. \<exists>e. X n = Some e \<and> on_ctx c e}"

definition weight :: "'c \<Rightarrow> 'c executor option \<Rightarrow> nat" where
  "weight c x = (case x of None \<Rightarrow> 0 | Some e \<Rightarrow> if on_ctx c e then 1 else 0)"

lemma trackers_update:
  assumes "finite (dom X)"
  shows "card (trackers c (X(n := x))) + weight c (X n) = card (trackers c X) + weight c x"
proof -
  have fin: "finite (trackers c X - {n})"
    by (rule finite_subset [OF _ assms]) (auto simp: trackers_def)
  have split: "card (trackers c Y) = card (trackers c X - {n}) + weight c (Y n)" if "\<And>m. m \<noteq> n \<Longrightarrow> Y m = X m" for Y
  proof -
    have "trackers c Y = (if weight c (Y n) = 1 then insert n (trackers c X - {n}) else trackers c X - {n})"
    proof (rule set_eqI)
      fix m
      show "m \<in> trackers c Y \<longleftrightarrow> m \<in> (if weight c (Y n) = 1 then insert n (trackers c X - {n}) else trackers c X - {n})"
        using that [of m] by (cases "m = n") (auto simp: trackers_def weight_def split: option.splits)
    qed
    moreover have "card (insert n (trackers c X - {n})) = Suc (card (trackers c X - {n}))"
      using fin by (rule card_insert_disjoint) simp
    ultimately show ?thesis by (auto simp: weight_def simp del: insert_Diff_single split: option.splits)
  qed
  from split [of X] split [of "X(n := x)"] show ?thesis by simp
qed

definition accounted :: "('n, 'c, 't, 'k, 'op) exec_world \<Rightarrow> bool" where
  "accounted w \<longleftrightarrow> finite (dom (execs w)) \<and>
     (\<forall>c. outstanding_work (loops_of w c) = of_nat (busy w c + card (trackers c (execs w)) + lost w c))"

lemma work_changes:
  "outstanding_work (start_on p L c) = outstanding_work (L c) + (if p = Some c then 1 else 0)"
  "outstanding_work (finish_on ok p L c) = outstanding_work (L c) - (if p = Some c then 1 else 0)"
  by (auto simp: start_on_def finish_on_def work_started_def work_finished_def stop_def Let_def split: option.splits)

lemma work_constructed:
  "outstanding_work (snd (ex_construct p tb b L) c) = outstanding_work (L c) + of_nat (weight c (Some (fst (ex_construct p tb b L))))"
  by (simp add: ex_construct_def weight_def on_ctx_def work_changes Let_def)

lemma work_required:
  "outstanding_work (snd (ex_require p e L) c) = outstanding_work (L c) + of_nat (weight c (Some (fst (ex_require p e L))))"
  by (cases p) (simp_all add: work_constructed)

lemma work_copied:
  "outstanding_work (snd (ex_copy e L) c) = outstanding_work (L c) + of_nat (weight c (Some (fst (ex_copy e L))))"
  by (simp add: ex_copy_def weight_def on_ctx_def work_changes)

lemma work_destroyed:
  "outstanding_work (ex_destroy ok e L c) = outstanding_work (L c) - of_nat (weight c (Some e))"
  by (simp add: ex_destroy_def weight_def on_ctx_def work_changes)

lemma accounted_put:
  assumes "accounted w" "execs w n = None"
    and "\<And>c. outstanding_work (snd r c) = outstanding_work (loops_of w c) + of_nat (weight c (Some (fst r)))"
  shows "accounted (put n r w)"
  using assms trackers_update [of "execs w" _ n "Some (fst r)"]
  by (simp add: accounted_def put_def weight_def)

lemma accounted_step: "exec_step w w' \<Longrightarrow> accounted w \<Longrightarrow> accounted w'"
proof (induction rule: exec_step.induct)
  case (get w n c)
  then show ?case by (auto intro: accounted_put simp: get_executor_def work_constructed)
next
  case (copy w n m e)
  then show ?case by (auto intro: accounted_put simp: work_copied)
next
  case (require w n m e p)
  then show ?case by (auto intro: accounted_put simp: work_required)
next
  case (move w n m e)
  let ?X = "(execs w)(n \<mapsto> e)" and ?e = "snd (ex_move e)"
  from move have nm: "m \<noteq> n" and fin: "finite (dom (execs w))" by (auto simp: accounted_def)
  have "card (trackers c (?X(m \<mapsto> ?e))) = card (trackers c (execs w))" for c
  proof -
    have "weight c (Some ?e) = 0" by (simp add: weight_def on_ctx_def ex_move_def tracks_def)
    moreover have "card (trackers c ?X) = card (trackers c (execs w)) + weight c (Some e)"
      using trackers_update [OF fin, of c n "Some e"] move(1) by (simp add: weight_def)
    moreover have "card (trackers c (?X(m \<mapsto> ?e))) + weight c (Some e) = card (trackers c ?X) + weight c (Some ?e)"
      using trackers_update [of ?X c m "Some ?e"] fin nm move(2) by simp
    ultimately show ?thesis by linarith
  qed
  with move fin show ?case by (simp add: accounted_def ex_move_def)
next
  case (destroy w n e ok)
  have "card (trackers c (execs w)) = card (trackers c ((execs w)(n := None))) + weight c (Some e)" for c
    using trackers_update [of "execs w" c n None] destroy by (simp add: accounted_def weight_def)
  with destroy show ?case by (simp add: accounted_def work_destroyed)
next
  case (copy_assign n m w e other ok)
  let ?r = "ex_copy_assign ok e other (loops_of w)"
  have work: "outstanding_work (snd ?r c) = outstanding_work (loops_of w c) + of_nat (weight c (Some (fst ?r))) - of_nat (weight c (Some e))" for c
    by (simp add: ex_copy_assign_def weight_def on_ctx_def tracks_def work_changes Let_def)
  have "card (trackers c ((execs w)(n \<mapsto> fst ?r))) + weight c (Some e) = card (trackers c (execs w)) + weight c (Some (fst ?r))" for c
    using trackers_update [of "execs w" c n "Some (fst ?r)"] copy_assign by (simp add: accounted_def)
  then have "(of_nat (card (trackers c ((execs w)(n \<mapsto> fst ?r)))) + of_nat (weight c (Some e)) :: u32) =
      of_nat (card (trackers c (execs w))) + of_nat (weight c (Some (fst ?r)))" for c
    unfolding of_nat_add [symmetric] by (rule arg_cong)
  then have cards: "(of_nat (card (trackers c ((execs w)(n \<mapsto> fst ?r)))) :: u32) =
      of_nat (card (trackers c (execs w))) + of_nat (weight c (Some (fst ?r))) - of_nat (weight c (Some e))" for c
    by (rule add_implies_diff)
  have "outstanding_work (snd ?r c) = of_nat (busy w c + card (trackers c ((execs w)(n \<mapsto> fst ?r))) + lost w c)" for c
  proof -
    have "outstanding_work (loops_of w c) = of_nat (busy w c + card (trackers c (execs w)) + lost w c)"
      using copy_assign(5) by (simp add: accounted_def)
    then show ?thesis unfolding work of_nat_add cards by (simp add: algebra_simps)
  qed
  with copy_assign show ?case by (simp add: accounted_def put_def)
next
  case (move_assign n m w e other)
  let ?e = "fst (ex_move_assign e other)" and ?o = "snd (ex_move_assign e other)"
  let ?X = "(execs w)(n \<mapsto> ?e)"
  from move_assign have fin: "finite (dom (execs w))" by (simp add: accounted_def)
  have "card (trackers c (?X(m \<mapsto> ?o))) + weight c (Some e) = card (trackers c (execs w))" for c
  proof -
    have "weight c (Some ?o) + weight c (Some ?e) = weight c (Some other)"
      using move_assign(4) by (simp add: weight_def on_ctx_def ex_move_assign_def tracks_def)
    moreover have "card (trackers c ?X) + weight c (Some e) = card (trackers c (execs w)) + weight c (Some ?e)"
      using trackers_update [OF fin, of c n "Some ?e"] move_assign(2) by simp
    moreover have "card (trackers c (?X(m \<mapsto> ?o))) + weight c (Some other) = card (trackers c ?X) + weight c (Some ?o)"
      using trackers_update [of ?X c m "Some ?o"] fin move_assign(1,3) by simp
    ultimately show ?thesis by linarith
  qed
  then have "card (trackers c (execs w)) + lost w c =
      card (trackers c (?X(m \<mapsto> ?o))) + (lost w c + (if tracks e \<and> ex_context e = Some c then 1 else 0))" for c
    by (simp add: weight_def on_ctx_def)
  with move_assign fin show ?case by (simp add: accounted_def add.assoc flip: of_nat_add)
next
  case (running s b w c)
  then show ?case by (auto simp: accounted_def algebra_simps)
qed

text \<open>
  Whatever executors are made, copied, moved, assigned, given other properties and
  destroyed, and whatever the loops do, the outstanding work of a context is the number of its
  operations and of its tracked executors, plus one for each time a tracked executor of it was
  assigned to by moving: move assignment forgets to finish the old work. After that the count
  stays above zero when no operation and no executor is left, and the loop does not stop.
\<close>

theorem executor_work_accounted:
  assumes "exec_reach w"
  shows "outstanding_work (loops_of w c) = of_nat (busy w c + card (trackers c (execs w)) + lost w c) \<and>
    (busy w c = 0 \<and> trackers c (execs w) = {} \<and> 0 < lost w c \<and> lost w c < 2 ^ 32 \<longrightarrow> outstanding_work (loops_of w c) \<noteq> 0)"
proof -
  have "accounted w" using assms
  proof induction
    case exec_init
    then show ?case by (simp add: accounted_def exec_start_def new_iocp_def trackers_def)
  qed (rule accounted_step)
  then have n: "outstanding_work (loops_of w c) = of_nat (busy w c + card (trackers c (execs w)) + lost w c)"
    by (simp add: accounted_def)
  have "(of_nat k :: u32) \<noteq> 0" if "0 < k" "k < 2 ^ 32" for k
    using that by (simp add: word_of_nat_eq_0_iff nat_dvd_not_less)
  with n show ?thesis by auto
qed

text \<open>Two tracked executors, one assigned to the other by moving, and all destroyed.\<close>

lemma executor_work_accounted_witness:
  "\<exists>w :: (nat, nat, nat, nat, nat) exec_world. exec_reach w \<and> (\<forall>n. execs w n = None) \<and> outstanding_work (loops_of w 0) \<noteq> 0"
proof -
  let ?e = "\<lparr>ex_context = Some 0, type_bits = 4, ex_bits = 0\<rparr> :: nat executor"
  let ?g = "?e\<lparr>type_bits := 0\<rparr>" and ?n = "?e\<lparr>ex_context := None\<rparr>"
  let ?w0 = "exec_start :: (nat, nat, nat, nat, nat) exec_world"
  let ?w1 = "put 0 (get_executor 0 (loops_of ?w0)) ?w0"
  let ?w2 = "put 1 (ex_require Tracked ?g (loops_of ?w1)) ?w1"
  let ?w3 = "put 2 (ex_require Tracked ?g (loops_of ?w2)) ?w2"
  let ?w4 = "?w3\<lparr>execs := (execs ?w3)(1 \<mapsto> fst (ex_move_assign ?e ?e), 2 \<mapsto> snd (ex_move_assign ?e ?e)),
    lost := (\<lambda>c. lost ?w3 c + (if tracks ?e \<and> ex_context ?e = Some c then 1 else 0))\<rparr>"
  let ?del = "\<lambda>n e w. w\<lparr>execs := (execs w)(n := None), loops_of := ex_destroy (\<lambda>_. True) e (loops_of w)\<rparr>"
  have e0: "execs ?w0 = (\<lambda>_. None)" by (simp add: exec_start_def)
  have put: "execs (put n x w) = (execs w)(n \<mapsto> fst x)"
    for n x and w :: "(nat, nat, nat, nat, nat) exec_world" by (simp add: put_def)
  have e1: "execs ?w1 = [0 \<mapsto> ?g]" by (simp add: put_def get_executor_untracked e0)
  have t: "fst (ex_require Tracked ?g L) = ?e" for L :: "(nat, nat, nat, nat) loops"
    by (simp add: ex_construct_def outstanding_work_tracked_def Let_def)
  have e2: "execs ?w2 = [0 \<mapsto> ?g, 1 \<mapsto> ?e]" unfolding put [of 1] t e1 ..
  have e3: "execs ?w3 = [0 \<mapsto> ?g, 1 \<mapsto> ?e, 2 \<mapsto> ?e]" unfolding put [of 2] t e2 ..
  have e4: "execs ?w4 = [0 \<mapsto> ?g, 1 \<mapsto> ?e, 2 \<mapsto> ?n]"
    using e3 by (simp add: ex_move_assign_def tracks_def outstanding_work_tracked_def fun_upd_twist)
  have "exec_reach ?w1" by (rule exec_more [OF exec_init exec_step.get]) (simp add: e0)
  then have "exec_reach ?w2" by (rule exec_more) (rule exec_step.require [of _ _ 0], unfold e1, simp_all)
  then have "exec_reach ?w3" by (rule exec_more) (rule exec_step.require [of _ _ 0], unfold e2, simp_all)
  then have r4: "exec_reach ?w4" by (rule exec_more) (rule exec_step.move_assign, unfold e3, simp_all)
  have b4: "busy ?w4 0 = 0" and l4: "lost ?w4 0 = 1"
    by (simp_all add: put_def exec_start_def tracks_def outstanding_work_tracked_def)
  obtain v :: "(nat, nat, nat, nat, nat) exec_world" where v: "exec_reach v" "execs v = [0 \<mapsto> ?g, 1 \<mapsto> ?e, 2 \<mapsto> ?n]" "busy v 0 = 0" "lost v 0 = 1"
    by (rule that [OF r4 e4 b4 l4])
  from v(1) have "exec_reach (?del 0 ?g v)" by (rule exec_more) (rule exec_step.destroy, simp add: v)
  then have "exec_reach (?del 1 ?e (?del 0 ?g v))" by (rule exec_more) (rule exec_step.destroy, simp add: v)
  then have r: "exec_reach (?del 2 ?n (?del 1 ?e (?del 0 ?g v)))" by (rule exec_more) (rule exec_step.destroy, simp add: v)
  let ?w = "?del 2 ?n (?del 1 ?e (?del 0 ?g v))"
  have none: "execs ?w n = None" for n by (simp add: v)
  moreover have "busy ?w 0 = 0" "lost ?w 0 = 1" by (simp_all add: v)
  moreover have "trackers 0 (execs ?w) = {}" using none by (simp add: trackers_def del: fun_upd_apply)
  ultimately show ?thesis using executor_work_accounted [OF r, of 0] r by (intro exI [of _ ?w]) simp
qed

end
