(* ===== verification/AsioAddress.thy ===== *)
theory AsioAddress
  imports AsioSocketOps
begin

text \<open>
  IP addresses: \<^verbatim>\<open>asio/ip/address_v4.hpp\<close>, \<^verbatim>\<open>address_v6.hpp\<close>, \<^verbatim>\<open>address.hpp\<close> and their
  implementations, with the byte-order functions and \<^verbatim>\<open>inet_pton\<close> of \<^verbatim>\<open>socket_ops.ipp\<close>. What the
  system's parser of addresses answers is an argument.

  Shown: the conversions are inverse to each other, the class tests partition the addresses by
  their first byte, the orders are linear and agree with \<^verbatim>\<open>memcmp\<close>, an \<^verbatim>\<open>address\<close> is always of
  exactly one version, and which strings \<^verbatim>\<open>make_address\<close> accepts.
\<close>

section \<open>Byte order\<close>

text \<open>On the little-endian platforms the program is built for.\<close>

definition host_to_network_long :: "u32 \<Rightarrow> u32" where
  "host_to_network_long value = of_le_bytes (rev (le_bytes 4 value))"

definition network_to_host_long :: "u32 \<Rightarrow> u32" where
  "network_to_host_long value = of_le_bytes (rev (le_bytes 4 value))"

definition host_to_network_short :: "u16 \<Rightarrow> u16" where
  "host_to_network_short value = of_le_bytes (rev (le_bytes 2 value))"

definition network_to_host_short :: "u16 \<Rightarrow> u16" where
  "network_to_host_short value = of_le_bytes (rev (le_bytes 2 value))"

lemma byte_order_inverse [simp]:
  "network_to_host_long (host_to_network_long n) = n" "host_to_network_long (network_to_host_long n) = n"
  "network_to_host_short (host_to_network_short p) = p" "host_to_network_short (network_to_host_short p) = p"
  by (simp_all add: network_to_host_long_def host_to_network_long_def network_to_host_short_def host_to_network_short_def)

lemma network_to_host_inject [simp]: "network_to_host_long m = network_to_host_long n \<longleftrightarrow> m = n"
  by (metis byte_order_inverse(2))

section \<open>Bytes as numbers\<close>

text \<open>The number a sequence of bytes stands for, the most significant byte first.\<close>

primrec be_value :: "byte list \<Rightarrow> nat" where
  "be_value [] = 0"
| "be_value (b # bs) = unat b * 256 ^ length bs + be_value bs"

lemma unat_byte [simp]: "unat (b :: byte) < 256"
  using unsigned_less [of b, where ?'a = nat] by simp

lemma be_value_less: "be_value bs < 256 ^ length bs"
proof (induction bs)
  case (Cons b bs)
  have "unat b * 256 ^ length bs + be_value bs < (unat b + 1) * 256 ^ length bs"
    using Cons by simp
  also have "\<dots> \<le> 256 * 256 ^ length bs" by (rule mult_right_mono) (use unat_byte [of b] in linarith, simp)
  finally show ?case by simp
qed simp

lemma be_value_append: "be_value (xs @ ys) = be_value xs * 256 ^ length ys + be_value ys"
  by (induction xs) (simp_all add: power_add algebra_simps)

lemma be_value_replicate_0 [simp]: "be_value (replicate n 0) = 0"
  by (induction n) simp_all

lemma digit_less:
  fixes a b m n k :: nat
  assumes "m < k" "n < k"
  shows "a * k + m < b * k + n \<longleftrightarrow> a < b \<or> a = b \<and> m < n"
proof -
  have *: "c * k + p < d * k + q" if "c < d" "p < k" for c d p q :: nat
  proof -
    have "c * k + p < (c + 1) * k" using that(2) by simp
    also have "\<dots> \<le> d * k" using that(1) by (intro mult_right_mono) simp_all
    finally show ?thesis by simp
  qed
  show ?thesis using * [of a b m n] * [of b a n m] assms by (cases a b rule: linorder_cases) auto
qed

lemma of_le_bytes_value:
  "8 * length bs \<le> LENGTH('a::len) \<Longrightarrow> unat (of_le_bytes bs :: 'a word) = be_value (rev bs)"
proof (induction bs)
  case (Cons b bs)
  let ?w = "of_le_bytes bs :: 'a word"
  have len: "8 \<le> LENGTH('a)" "8 * length bs \<le> LENGTH('a)" using Cons.prems by simp_all
  have "be_value (rev bs) < 256 ^ length bs" using be_value_less [of "rev bs"] by simp
  then have v: "256 * be_value (rev bs) + unat b < 256 ^ length (b # bs)"
    using digit_less [of "unat b" 256 0 "be_value (rev bs)" "256 ^ length bs"] by (simp add: mult.commute)
  have p: "(256 :: nat) ^ length (b # bs) \<le> 2 ^ LENGTH('a)"
  proof -
    have "(256 :: nat) ^ length (b # bs) = 2 ^ (8 * length (b # bs))" unfolding power_mult by simp
    also have "\<dots> \<le> 2 ^ LENGTH('a)" using Cons.prems by (intro power_increasing) simp_all
    finally show ?thesis .
  qed
  have "ucast b AND push_bit 8 ?w = 0"
    by (rule bit_word_eqI) (auto simp: bit_and_iff bit_push_bit_iff bit_ucast_iff dest: bit_imp_le_length)
  then have "ucast b OR push_bit 8 ?w = ucast b + ?w * 256"
    by (simp add: disjunctive_add_eq_or push_bit_eq_mult flip: disjunctive_add_eq_or)
  also have "\<dots> = of_nat (256 * be_value (rev bs) + unat b)"
    by (simp add: mult.commute add.commute flip: Cons.IH [OF len(2)])
  finally have e: "of_le_bytes (b # bs) = (of_nat (256 * be_value (rev bs) + unat b) :: 'a word)"
    by (simp only: of_le_bytes.simps)
  have "unat (of_le_bytes (b # bs) :: 'a word) = (256 * be_value (rev bs) + unat b) mod 2 ^ LENGTH('a)"
    unfolding e by (simp add: unsigned_of_nat take_bit_eq_mod del: of_nat_add of_nat_mult)
  with v p show ?case by (simp add: be_value_append)
qed simp

text \<open>What throws.\<close>

datatype cpp_exception = Bad_address_cast | Std_out_of_range | Std_invalid_argument | System_error io_error

section \<open>Version 4\<close>

text \<open>\<open>s_addr\<close> is in network byte order; its bytes in memory are those of the address.\<close>

datatype address_v4 = Address_v4 (s_addr: u32)

definition v4_any :: address_v4 where
  "v4_any = Address_v4 0"

definition v4_of_bytes :: "byte list \<Rightarrow> address_v4" where
  "v4_of_bytes bytes = Address_v4 (of_le_bytes bytes)"

definition v4_of_uint :: "u32 \<Rightarrow> address_v4" where
  "v4_of_uint addr = Address_v4 (host_to_network_long addr)"

definition v4_to_bytes :: "address_v4 \<Rightarrow> byte list" where
  "v4_to_bytes a = le_bytes 4 (s_addr a)"

definition v4_to_uint :: "address_v4 \<Rightarrow> u32" where
  "v4_to_uint a = network_to_host_long (s_addr a)"

definition v4_loopback :: address_v4 where
  "v4_loopback = v4_of_uint 0x7F000001"

definition v4_broadcast :: address_v4 where
  "v4_broadcast = v4_of_uint 0xFFFFFFFF"

definition v4_is_loopback :: "address_v4 \<Rightarrow> bool" where
  "v4_is_loopback a \<longleftrightarrow> v4_to_uint a AND 0xFF000000 = 0x7F000000"

definition v4_is_unspecified :: "address_v4 \<Rightarrow> bool" where
  "v4_is_unspecified a \<longleftrightarrow> v4_to_uint a = 0"

definition is_class_a :: "address_v4 \<Rightarrow> bool" where
  "is_class_a a \<longleftrightarrow> v4_to_uint a AND 0x80000000 = 0"

definition is_class_b :: "address_v4 \<Rightarrow> bool" where
  "is_class_b a \<longleftrightarrow> v4_to_uint a AND 0xC0000000 = 0x80000000"

definition is_class_c :: "address_v4 \<Rightarrow> bool" where
  "is_class_c a \<longleftrightarrow> v4_to_uint a AND 0xE0000000 = 0xC0000000"

definition v4_is_multicast :: "address_v4 \<Rightarrow> bool" where
  "v4_is_multicast a \<longleftrightarrow> v4_to_uint a AND 0xF0000000 = 0xE0000000"

definition v4_broadcast_of :: "address_v4 \<Rightarrow> address_v4 \<Rightarrow> address_v4" where
  "v4_broadcast_of addr msk = v4_of_uint (v4_to_uint addr OR (v4_to_uint msk XOR 0xFFFFFFFF))"

definition v4_netmask :: "address_v4 \<Rightarrow> address_v4" where
  "v4_netmask addr =
     (if is_class_a addr then v4_of_uint 0xFF000000
      else if is_class_b addr then v4_of_uint 0xFFFF0000
      else if is_class_c addr then v4_of_uint 0xFFFFFF00
      else v4_of_uint 0xFFFFFFFF)"

lemma v4_inverse [simp]:
  "v4_to_uint (v4_of_uint n) = n" "v4_of_uint (v4_to_uint a) = a" "v4_of_bytes (v4_to_bytes a) = a"
  by (simp_all add: v4_to_uint_def v4_of_uint_def v4_of_bytes_def v4_to_bytes_def)

lemma v4_to_of_bytes [simp]: "length bs = 4 \<Longrightarrow> v4_to_bytes (v4_of_bytes bs) = bs"
  by (simp add: v4_of_bytes_def v4_to_bytes_def)

lemma length_v4_to_bytes [simp]: "length (v4_to_bytes a) = 4"
  by (simp add: v4_to_bytes_def)

lemma v4_to_uint_inject [simp]: "v4_to_uint a = v4_to_uint b \<longleftrightarrow> a = b"
  by (metis v4_inverse(2))

lemma v4_to_uint_bytes: "v4_to_uint a = of_le_bytes (rev (v4_to_bytes a))"
  by (simp add: v4_to_uint_def network_to_host_long_def v4_to_bytes_def)

text \<open>The order of the code.\<close>

definition v4_less :: "address_v4 \<Rightarrow> address_v4 \<Rightarrow> bool" where
  "v4_less a1 a2 \<longleftrightarrow> v4_to_uint a1 < v4_to_uint a2"

definition v4_less_eq :: "address_v4 \<Rightarrow> address_v4 \<Rightarrow> bool" where
  "v4_less_eq a1 a2 \<longleftrightarrow> v4_to_uint a1 \<le> v4_to_uint a2"

instantiation address_v4 :: linorder
begin

definition less_address_v4 :: "address_v4 \<Rightarrow> address_v4 \<Rightarrow> bool" where
  "less_address_v4 = v4_less"

definition less_eq_address_v4 :: "address_v4 \<Rightarrow> address_v4 \<Rightarrow> bool" where
  "less_eq_address_v4 = v4_less_eq"

instance
proof
  fix x y z :: address_v4
  note defs = less_address_v4_def less_eq_address_v4_def v4_less_def v4_less_eq_def
  show "x < y \<longleftrightarrow> x \<le> y \<and> \<not> y \<le> x" by (simp add: defs less_le_not_le)
  show "x \<le> y \<Longrightarrow> y \<le> x \<Longrightarrow> x = y" by (simp add: defs flip: v4_to_uint_inject)
qed (auto simp: less_eq_address_v4_def v4_less_eq_def)

end

section \<open>Version 6\<close>

text \<open>Sixteen bytes.\<close>

datatype address_v6 = Address_v6 (s6_addr: "byte list") (scope_id: u32)

definition v6_ok :: "address_v6 \<Rightarrow> bool" where
  "v6_ok a \<longleftrightarrow> length (s6_addr a) = 16"

definition v6_any :: address_v6 where
  "v6_any = Address_v6 (replicate 16 0) 0"

definition v6_of_bytes :: "byte list \<Rightarrow> u32 \<Rightarrow> address_v6" where
  "v6_of_bytes bytes scope = Address_v6 (take 16 bytes) scope"

definition v6_to_bytes :: "address_v6 \<Rightarrow> byte list" where
  "v6_to_bytes a = s6_addr a"

definition v6_loopback :: address_v6 where
  "v6_loopback = Address_v6 ((s6_addr v6_any)[15 := 1]) (scope_id v6_any)"

definition v6_is_loopback :: "address_v6 \<Rightarrow> bool" where
  "v6_is_loopback a \<longleftrightarrow> (\<forall>i < 15. s6_addr a ! i = 0) \<and> s6_addr a ! 15 = 1"

definition v6_is_unspecified :: "address_v6 \<Rightarrow> bool" where
  "v6_is_unspecified a \<longleftrightarrow> (\<forall>i < 16. s6_addr a ! i = 0)"

definition is_link_local :: "address_v6 \<Rightarrow> bool" where
  "is_link_local a \<longleftrightarrow> s6_addr a ! 0 = 0xfe \<and> s6_addr a ! 1 AND 0xc0 = 0x80"

definition is_site_local :: "address_v6 \<Rightarrow> bool" where
  "is_site_local a \<longleftrightarrow> s6_addr a ! 0 = 0xfe \<and> s6_addr a ! 1 AND 0xc0 = 0xc0"

definition is_v4_mapped :: "address_v6 \<Rightarrow> bool" where
  "is_v4_mapped a \<longleftrightarrow> (\<forall>i < 10. s6_addr a ! i = 0) \<and> s6_addr a ! 10 = 0xff \<and> s6_addr a ! 11 = 0xff"

definition is_v4_compatible :: "address_v6 \<Rightarrow> bool" where
  "is_v4_compatible a \<longleftrightarrow> (\<forall>i < 12. s6_addr a ! i = 0) \<and>
     \<not> (s6_addr a ! 12 = 0 \<and> s6_addr a ! 13 = 0 \<and> s6_addr a ! 14 = 0 \<and> (s6_addr a ! 15 = 0 \<or> s6_addr a ! 15 = 1))"

definition v6_is_multicast :: "address_v6 \<Rightarrow> bool" where
  "v6_is_multicast a \<longleftrightarrow> s6_addr a ! 0 = 0xff"

text \<open>The five tests for a scope of multicast addresses differ only in the scope.\<close>

definition is_multicast_scope :: "byte \<Rightarrow> address_v6 \<Rightarrow> bool" where
  "is_multicast_scope s a \<longleftrightarrow> s6_addr a ! 0 = 0xff \<and> s6_addr a ! 1 AND 0x0f = s"

definition is_multicast_global :: "address_v6 \<Rightarrow> bool" where
  "is_multicast_global = is_multicast_scope 0x0e"

definition is_multicast_link_local :: "address_v6 \<Rightarrow> bool" where
  "is_multicast_link_local = is_multicast_scope 0x02"

definition is_multicast_node_local :: "address_v6 \<Rightarrow> bool" where
  "is_multicast_node_local = is_multicast_scope 0x01"

definition is_multicast_org_local :: "address_v6 \<Rightarrow> bool" where
  "is_multicast_org_local = is_multicast_scope 0x08"

definition is_multicast_site_local :: "address_v6 \<Rightarrow> bool" where
  "is_multicast_site_local = is_multicast_scope 0x05"

definition last_four :: "byte list \<Rightarrow> byte list" where
  "last_four bs = [bs ! 12, bs ! 13, bs ! 14, bs ! 15]"

definition v6_to_v4 :: "address_v6 \<Rightarrow> cpp_exception + address_v4" where
  "v6_to_v4 a =
     (if \<not> is_v4_mapped a \<and> \<not> is_v4_compatible a then Inl Bad_address_cast
      else Inr (v4_of_bytes (last_four (s6_addr a))))"

definition v4_mapped :: "address_v4 \<Rightarrow> address_v6" where
  "v4_mapped addr = v6_of_bytes (replicate 10 0 @ [0xFF, 0xFF] @ v4_to_bytes addr) 0"

definition v4_compatible :: "address_v4 \<Rightarrow> address_v6" where
  "v4_compatible addr = v6_of_bytes (replicate 10 0 @ [0, 0] @ v4_to_bytes addr) 0"

definition make_v4_mapped :: "address_v6 \<Rightarrow> cpp_exception + address_v4" where
  "make_v4_mapped v6_addr =
     (if \<not> is_v4_mapped v6_addr then Inl Bad_address_cast
      else Inr (v4_of_bytes (last_four (v6_to_bytes v6_addr))))"

definition make_v6_mapped :: "address_v4 \<Rightarrow> address_v6" where
  "make_v6_mapped v4_addr = v6_of_bytes (replicate 10 0 @ [0xFF, 0xFF] @ v4_to_bytes v4_addr) 0"

text \<open>Only the sign of \<^verbatim>\<open>memcmp\<close> matters; it is called on ranges of the same length.\<close>

fun memcmp :: "byte list \<Rightarrow> byte list \<Rightarrow> int" where
  "memcmp [] [] = 0"
| "memcmp [] (y # ys) = -1"
| "memcmp (x # xs) [] = 1"
| "memcmp (x # xs) (y # ys) = (if x < y then -1 else if y < x then 1 else memcmp xs ys)"

lemma memcmp_eq: "memcmp xs ys = 0 \<longleftrightarrow> xs = ys"
  by (induction xs ys rule: memcmp.induct) auto

lemma memcmp_refl [simp]: "memcmp xs xs = 0"
  by (simp add: memcmp_eq)

lemma memcmp_swap: "memcmp ys xs = - memcmp xs ys"
  by (induction xs ys rule: memcmp.induct) auto

lemma memcmp_trans: "memcmp xs ys < 0 \<Longrightarrow> memcmp ys zs < 0 \<Longrightarrow> memcmp xs zs < 0"
proof (induction xs ys arbitrary: zs rule: memcmp.induct)
  case (4 x xs y ys)
  then show ?case by (cases zs) (auto split: if_splits)
next
  case (2 y ys)
  then show ?case by (cases zs) auto
qed auto

definition v6_less :: "address_v6 \<Rightarrow> address_v6 \<Rightarrow> bool" where
  "v6_less a1 a2 =
     (let r = memcmp (s6_addr a1) (s6_addr a2)
      in if r < 0 then True else if r > 0 then False else scope_id a1 < scope_id a2)"

definition v6_less_eq :: "address_v6 \<Rightarrow> address_v6 \<Rightarrow> bool" where
  "v6_less_eq a1 a2 \<longleftrightarrow> \<not> v6_less a2 a1"

instantiation address_v6 :: linorder
begin

definition less_address_v6 :: "address_v6 \<Rightarrow> address_v6 \<Rightarrow> bool" where
  "less_address_v6 = v6_less"

definition less_eq_address_v6 :: "address_v6 \<Rightarrow> address_v6 \<Rightarrow> bool" where
  "less_eq_address_v6 = v6_less_eq"

instance
proof
  fix x y z :: address_v6
  note defs = less_eq_address_v6_def less_address_v6_def v6_less_def v6_less_eq_def Let_def
  have swap: "memcmp (s6_addr y) (s6_addr x) = - memcmp (s6_addr x) (s6_addr y)" for x y
    by (rule memcmp_swap)
  show "x < y \<longleftrightarrow> x \<le> y \<and> \<not> y \<le> x" using swap [of y x] by (auto simp: defs split: if_splits)
  show "x \<le> x" by (simp add: defs memcmp_eq)
  show "x \<le> y \<or> y \<le> x" using swap [of y x] by (auto simp: defs split: if_splits)
  show "x = y" if "x \<le> y" "y \<le> x"
  proof -
    have "\<not> memcmp (s6_addr y) (s6_addr x) < 0" "\<not> memcmp (s6_addr x) (s6_addr y) < 0"
      using that by (auto simp: defs)
    then have "memcmp (s6_addr x) (s6_addr y) = 0" using swap [of y x] by linarith
    with that show ?thesis by (cases x; cases y) (auto simp: defs memcmp_eq split: if_splits)
  qed
  show "x \<le> z" if "x \<le> y" "y \<le> z"
  proof -
    have le: "memcmp (s6_addr x) (s6_addr y) < 0 \<or> s6_addr x = s6_addr y \<and> scope_id x \<le> scope_id y"
      "memcmp (s6_addr y) (s6_addr z) < 0 \<or> s6_addr y = s6_addr z \<and> scope_id y \<le> scope_id z"
      using that swap [of x y] swap [of y z] by (auto simp: defs memcmp_eq split: if_splits)
    then have "memcmp (s6_addr x) (s6_addr z) < 0 \<or> s6_addr x = s6_addr z \<and> scope_id x \<le> scope_id z"
      using memcmp_trans by (elim disjE) auto
    then show ?thesis using swap [of z x] by (auto simp: defs memcmp_eq split: if_splits)
  qed
qed

end

section \<open>Either version\<close>

datatype addr_type = Ipv4 | Ipv6

record address =
  type_of :: addr_type
  ipv4_address :: address_v4
  ipv6_address :: address_v6

definition new_address :: address where
  "new_address = \<lparr>type_of = Ipv4, ipv4_address = v4_any, ipv6_address = v6_any\<rparr>"

definition address_of_v4 :: "address_v4 \<Rightarrow> address" where
  "address_of_v4 a = \<lparr>type_of = Ipv4, ipv4_address = a, ipv6_address = v6_any\<rparr>"

definition address_of_v6 :: "address_v6 \<Rightarrow> address" where
  "address_of_v6 a = \<lparr>type_of = Ipv6, ipv4_address = v4_any, ipv6_address = a\<rparr>"

definition assign_address :: "address \<Rightarrow> address \<Rightarrow> address" where
  "assign_address x other =
     x\<lparr>type_of := type_of other, ipv4_address := ipv4_address other, ipv6_address := ipv6_address other\<rparr>"

definition assign_v4 :: "address \<Rightarrow> address_v4 \<Rightarrow> address" where
  "assign_v4 x a = x\<lparr>type_of := Ipv4, ipv4_address := a, ipv6_address := v6_any\<rparr>"

definition assign_v6 :: "address \<Rightarrow> address_v6 \<Rightarrow> address" where
  "assign_v6 x a = x\<lparr>type_of := Ipv6, ipv4_address := v4_any, ipv6_address := a\<rparr>"

definition is_v4 :: "address \<Rightarrow> bool" where
  "is_v4 x \<longleftrightarrow> type_of x = Ipv4"

definition is_v6 :: "address \<Rightarrow> bool" where
  "is_v6 x \<longleftrightarrow> type_of x = Ipv6"

definition to_v4 :: "address \<Rightarrow> cpp_exception + address_v4" where
  "to_v4 x = (if type_of x \<noteq> Ipv4 then Inl Bad_address_cast else Inr (ipv4_address x))"

definition to_v6 :: "address \<Rightarrow> cpp_exception + address_v6" where
  "to_v6 x = (if type_of x \<noteq> Ipv6 then Inl Bad_address_cast else Inr (ipv6_address x))"

definition is_loopback :: "address \<Rightarrow> bool" where
  "is_loopback x = (if type_of x = Ipv4 then v4_is_loopback (ipv4_address x) else v6_is_loopback (ipv6_address x))"

definition is_unspecified :: "address \<Rightarrow> bool" where
  "is_unspecified x = (if type_of x = Ipv4 then v4_is_unspecified (ipv4_address x) else v6_is_unspecified (ipv6_address x))"

definition is_multicast :: "address \<Rightarrow> bool" where
  "is_multicast x = (if type_of x = Ipv4 then v4_is_multicast (ipv4_address x) else v6_is_multicast (ipv6_address x))"

definition address_eq :: "address \<Rightarrow> address \<Rightarrow> bool" where
  "address_eq a1 a2 =
     (if type_of a1 \<noteq> type_of a2 then False
      else if type_of a1 = Ipv6 then ipv6_address a1 = ipv6_address a2
      else ipv4_address a1 = ipv4_address a2)"

text \<open>The enumerators are ordered as they are declared.\<close>

definition address_less :: "address \<Rightarrow> address \<Rightarrow> bool" where
  "address_less a1 a2 =
     (if type_of a1 = Ipv4 \<and> type_of a2 = Ipv6 then True
      else if type_of a1 = Ipv6 \<and> type_of a2 = Ipv4 then False
      else if type_of a1 = Ipv6 then v6_less (ipv6_address a1) (ipv6_address a2)
      else v4_less (ipv4_address a1) (ipv4_address a2))"

section \<open>From strings\<close>

definition AF_INET :: int where "AF_INET = 2"
definition AF_INET6 :: int where "AF_INET6 = 23"
definition address_family_not_supported :: io_error where
  "address_family_not_supported = (System_category, 10047)"

text \<open>
  What the system answers for a string: the bytes and the scope when it can be parsed, and what
  \<^verbatim>\<open>WSAGetLastError\<close> reports afterwards.
\<close>

record pton_answer =
  parsed :: "(byte list \<times> u32) option"
  wsa_error :: u32

text \<open>The result: what is written to \<open>dest\<close> and \<open>scope\<close>, the error code and the value returned.\<close>

definition inet_pton :: "int \<Rightarrow> string \<Rightarrow> pton_answer \<Rightarrow> byte list \<Rightarrow> u32 \<Rightarrow> io_error \<Rightarrow> byte list \<times> u32 \<times> io_error \<times> int" where
  "inet_pton af src ans dest scope ec =
     (if af \<noteq> AF_INET \<and> af \<noteq> AF_INET6 then (dest, scope, address_family_not_supported, -1)
      else
        let ec1 = get_last_error ec (wsa_error ans) True;
            (dest2, scope2, ec2) =
              (if af = AF_INET then
                 (case parsed ans of
                    Some (bytes, _) \<Rightarrow> (bytes, scope, no_error ec1)
                  | None \<Rightarrow>
                      if src = ''255.255.255.255'' then (replicate 4 0xFF, scope, no_error ec1) else (dest, scope, ec1))
               else
                 (case parsed ans of
                    Some (bytes, s) \<Rightarrow> (bytes, s, no_error ec1)
                  | None \<Rightarrow> (dest, scope, ec1)));
            ec3 = (if parsed ans = None \<and> \<not> failed ec2 then invalid_argument else ec2);
            ec4 = (if parsed ans \<noteq> None then no_error ec3 else ec3)
        in (dest2, scope2, ec4, if parsed ans = None then -1 else 1))"

text \<open>\<open>junk\<close>: the local buffer, which is not initialised.\<close>

definition make_address_v4 :: "byte list \<Rightarrow> string \<Rightarrow> pton_answer \<Rightarrow> io_error \<Rightarrow> address_v4 \<times> io_error" where
  "make_address_v4 junk str ans ec =
     (let (bytes, _, ec', r) = inet_pton AF_INET str ans junk 0 ec
      in if r \<le> 0 then (v4_any, ec') else (v4_of_bytes bytes, ec'))"

definition make_address_v6 :: "byte list \<Rightarrow> string \<Rightarrow> pton_answer \<Rightarrow> io_error \<Rightarrow> address_v6 \<times> io_error" where
  "make_address_v6 junk str ans ec =
     (let (bytes, scope, ec', r) = inet_pton AF_INET6 str ans junk 0 ec
      in if r \<le> 0 then (v6_any, ec') else (v6_of_bytes bytes scope, ec'))"

text \<open>\<open>sys af\<close>: what the system answers for the string.\<close>

definition make_address :: "byte list \<Rightarrow> string \<Rightarrow> (int \<Rightarrow> pton_answer) \<Rightarrow> io_error \<Rightarrow> address \<times> io_error" where
  "make_address junk str sys ec =
     (let (a6, ec1) = make_address_v6 junk str (sys AF_INET6) ec
      in if \<not> failed ec1 then (address_of_v6 a6, ec1)
         else
           let (a4, ec2) = make_address_v4 junk str (sys AF_INET) ec1
           in if \<not> failed ec2 then (address_of_v4 a4, ec2) else (new_address, ec2))"

text \<open>The overload without an error code throws what the other one reports.\<close>

definition make_address_throwing :: "byte list \<Rightarrow> string \<Rightarrow> (int \<Rightarrow> pton_answer) \<Rightarrow> cpp_exception + address" where
  "make_address_throwing junk str sys =
     (let (a, ec) = make_address junk str sys success in if failed ec then Inl (System_error ec) else Inr a)"

section \<open>Round trips and tests\<close>

lemma unat_v4_to_uint: "unat (v4_to_uint a) = be_value (v4_to_bytes a)"
  using of_le_bytes_value [of "rev (v4_to_bytes a)", where ?'a = 32] by (simp add: v4_to_uint_bytes)

lemma memcmp_value: "length xs = length ys \<Longrightarrow> memcmp xs ys < 0 \<longleftrightarrow> be_value xs < be_value ys"
proof (induction xs ys rule: memcmp.induct)
  case (4 x xs y ys)
  then show ?case
    using digit_less [of "be_value xs" "256 ^ length ys" "be_value ys" "unat x" "unat y"] be_value_less [of xs] be_value_less [of ys]
    by (auto simp: word_less_nat_alt)
qed auto

lemma v4_less_memcmp: "a < b \<longleftrightarrow> memcmp (v4_to_bytes a) (v4_to_bytes b) < 0"
  by (simp add: less_address_v4_def v4_less_def word_less_nat_alt unat_v4_to_uint memcmp_value)

lemma nth_split16:
  assumes "length bs = 16"
  shows "bs = take 10 bs @ [bs ! 10, bs ! 11] @ last_four bs"
proof -
  have "drop 10 bs = [bs ! 10, bs ! 11] @ last_four bs"
    using assms by (simp add: last_four_def Cons_nth_drop_Suc [symmetric] numeral_eq_Suc)
  then show ?thesis by (metis append_take_drop_id)
qed

lemma mapped_bytes:
  "s6_addr (make_v6_mapped a) = replicate 10 0 @ [0xFF, 0xFF] @ v4_to_bytes a" "v6_ok (make_v6_mapped a)"
  by (simp_all add: make_v6_mapped_def v6_of_bytes_def v6_ok_def)

lemma last_four_append: "length bs = 4 \<Longrightarrow> length xs = 12 \<Longrightarrow> last_four (xs @ bs) = bs"
  by (auto simp: last_four_def nth_append numeral_eq_Suc length_Suc_conv)

lemma is_v4_mapped_iff:
  "v6_ok x \<Longrightarrow> is_v4_mapped x \<longleftrightarrow> take 10 (s6_addr x) = replicate 10 0 \<and> s6_addr x ! 10 = 0xFF \<and> s6_addr x ! 11 = 0xFF"
  by (auto simp: is_v4_mapped_def v6_ok_def list_eq_iff_nth_eq)

lemma last_four_mapped [simp]: "last_four (replicate 10 0 @ x # y # v4_to_bytes b) = v4_to_bytes b"
  using last_four_append [of "v4_to_bytes b" "replicate 10 0 @ [x, y]"] by simp

text \<open>
  The conversions of addresses are inverse to each other: a version 4 address to its number
  and its bytes and back, with the number being the value of the bytes in network order, and a
  version 4 address to the version 6 address it is mapped to; the mapped addresses are exactly
  those that \<^verbatim>\<open>is_v4_mapped\<close> accepts, and converting any other throws.
\<close>

theorem address_conversions:
  "v4_of_uint (v4_to_uint a) = a \<and> v4_to_uint (v4_of_uint n) = n \<and> v4_of_bytes (v4_to_bytes a) = a \<and>
   (length bs = 4 \<longrightarrow> v4_to_bytes (v4_of_bytes bs) = bs) \<and> unat (v4_to_uint a) = be_value (v4_to_bytes a) \<and>
   make_v4_mapped (make_v6_mapped a) = Inr a \<and>
   (v6_ok x \<and> scope_id x = 0 \<longrightarrow>
      (case make_v4_mapped x of
         Inr b \<Rightarrow> x = make_v6_mapped b
       | Inl e \<Rightarrow> e = Bad_address_cast \<and> x \<notin> range make_v6_mapped))"
proof -
  have inv: "make_v4_mapped (make_v6_mapped b) = Inr b" for b
    using mapped_bytes [of b]
    by (simp add: make_v4_mapped_def is_v4_mapped_iff v6_to_bytes_def last_four_append nth_append)
  have "case make_v4_mapped x of Inr b \<Rightarrow> x = make_v6_mapped b
       | Inl e \<Rightarrow> e = Bad_address_cast \<and> x \<notin> range make_v6_mapped" if "v6_ok x" "scope_id x = 0"
  proof (cases "is_v4_mapped x")
    case True
    let ?b = "v4_of_bytes (last_four (s6_addr x))"
    have "s6_addr (make_v6_mapped ?b) = s6_addr x"
      using True that nth_split16 [of "s6_addr x"] by (simp add: mapped_bytes is_v4_mapped_iff v6_ok_def last_four_def)
    then have "x = make_v6_mapped ?b"
      using that by (cases x) (simp add: make_v6_mapped_def v6_of_bytes_def v6_ok_def)
    with True show ?thesis by (simp add: make_v4_mapped_def v6_to_bytes_def)
  next
    case False
    then have "x \<noteq> make_v6_mapped b" for b using inv [of b] by (auto simp: make_v4_mapped_def)
    with False show ?thesis by (auto simp: make_v4_mapped_def)
  qed
  with inv show ?thesis by (simp add: unat_v4_to_uint)
qed

lemma address_conversions_witness:
  "v4_to_bytes (v4_of_bytes [192, 168, 0, 1]) = [192, 168, 0, 1] \<and>
   make_v4_mapped v6_loopback = (Inl Bad_address_cast :: cpp_exception + address_v4)"
proof -
  have "v6_ok v6_loopback \<and> scope_id v6_loopback = 0" "length ([192, 168, 0, 1] :: byte list) = 4"
    by (simp_all add: v6_loopback_def v6_ok_def v6_any_def)
  moreover have "\<not> is_v4_mapped v6_loopback" by (simp add: is_v4_mapped_def v6_loopback_def v6_any_def)
  ultimately show ?thesis
    using address_conversions [of v4_any 0 "[192, 168, 0, 1]" v6_loopback] by (auto simp: make_v4_mapped_def)
qed

text \<open>A test of the first byte under a mask.\<close>

lemma first_byte_test:
  "v4_to_uint a AND push_bit 24 (ucast m) = push_bit 24 (ucast (v :: byte)) \<longleftrightarrow> hd (v4_to_bytes a) AND m = v"
proof -
  have hd: "hd (v4_to_bytes a) = rev (v4_to_bytes a) ! 3"
    by (simp add: rev_nth hd_conv_nth [symmetric] flip: length_greater_0_conv)
  have "v4_to_uint a AND push_bit 24 (ucast m) = push_bit 24 (ucast (hd (v4_to_bytes a) AND m))"
  proof (rule bit_word_eqI)
    fix i assume i: "i < LENGTH(32)"
    show "bit (v4_to_uint a AND push_bit 24 (ucast m)) i = bit (push_bit 24 (ucast (hd (v4_to_bytes a) AND m)) :: u32) i"
    proof (cases "24 \<le> i")
      case True
      with i have "i div 8 = 3" "i mod 8 = i - 24" by (auto simp: le_iff_add) presburger+
      with i True show ?thesis
        by (auto simp: v4_to_uint_bytes bit_and_iff bit_push_bit_iff bit_ucast_iff bit_of_le_bytes hd)
    next
      case False
      then show ?thesis by (simp add: bit_and_iff bit_push_bit_iff)
    qed
  qed
  moreover have "push_bit 24 (ucast x) = (push_bit 24 (ucast y) :: u32) \<longleftrightarrow> x = y" for x y :: byte
  proof
    assume e: "push_bit 24 (ucast x) = (push_bit 24 (ucast y) :: u32)"
    show "x = y"
    proof (rule bit_word_eqI)
      fix i assume "i < LENGTH(8)"
      then show "bit x i = bit y i" using arg_cong [OF e, of "\<lambda>w. bit w (i + 24)"]
        by (simp add: bit_push_bit_iff bit_ucast_iff)
    qed
  qed simp
  ultimately show ?thesis by simp
qed

lemma masks:
  "0x80000000 = (push_bit 24 (ucast (0x80 :: byte)) :: u32)" "0xC0000000 = (push_bit 24 (ucast (0xC0 :: byte)) :: u32)"
  "0xE0000000 = (push_bit 24 (ucast (0xE0 :: byte)) :: u32)" "0xF0000000 = (push_bit 24 (ucast (0xF0 :: byte)) :: u32)"
  "0xFF000000 = (push_bit 24 (ucast (0xFF :: byte)) :: u32)" "0x7F000000 = (push_bit 24 (ucast (0x7F :: byte)) :: u32)"
  "0 = (push_bit 24 (ucast (0 :: byte)) :: u32)"
  by simp_all

lemma byte_masks:
  "b AND 0x80 = 0 \<longleftrightarrow> (b :: byte) < 128" "b AND 0xC0 = 0x80 \<longleftrightarrow> 128 \<le> b \<and> b < 192"
  "b AND 0xE0 = 0xC0 \<longleftrightarrow> 192 \<le> b \<and> b < 224" "b AND 0xF0 = 0xE0 \<longleftrightarrow> 224 \<le> b \<and> b < 240"
  "b AND 0xFF = b"
proof -
  have "\<forall>n \<in> set [0..255]. let b = word_of_int n :: byte in
      (b AND 0x80 = 0 \<longleftrightarrow> b < 128) \<and> (b AND 0xC0 = 0x80 \<longleftrightarrow> 128 \<le> b \<and> b < 192) \<and>
      (b AND 0xE0 = 0xC0 \<longleftrightarrow> 192 \<le> b \<and> b < 224) \<and> (b AND 0xF0 = 0xE0 \<longleftrightarrow> 224 \<le> b \<and> b < 240) \<and> b AND 0xFF = b"
    by code_simp
  moreover have "uint b \<in> set [0..255]" using unsigned_less [of b, where ?'a = int] by simp
  ultimately have "let b = word_of_int (uint b) :: byte in
      (b AND 0x80 = 0 \<longleftrightarrow> b < 128) \<and> (b AND 0xC0 = 0x80 \<longleftrightarrow> 128 \<le> b \<and> b < 192) \<and>
      (b AND 0xE0 = 0xC0 \<longleftrightarrow> 192 \<le> b \<and> b < 224) \<and> (b AND 0xF0 = 0xE0 \<longleftrightarrow> 224 \<le> b \<and> b < 240) \<and> b AND 0xFF = b"
    by (rule bspec)
  then show "b AND 0x80 = 0 \<longleftrightarrow> (b :: byte) < 128" "b AND 0xC0 = 0x80 \<longleftrightarrow> 128 \<le> b \<and> b < 192"
    "b AND 0xE0 = 0xC0 \<longleftrightarrow> 192 \<le> b \<and> b < 224" "b AND 0xF0 = 0xE0 \<longleftrightarrow> 224 \<le> b \<and> b < 240" "b AND 0xFF = b"
    by (simp_all add: Let_def)
qed

text \<open>
  The class tests look at the first byte: below 128, below 192, below 224 and below 240 for the
  classes A, B, C and multicast, 127 for loopback.
\<close>

lemma v4_classes:
  assumes "b = hd (v4_to_bytes a)"
  shows "is_class_a a \<longleftrightarrow> b < 128" "is_class_b a \<longleftrightarrow> 128 \<le> b \<and> b < 192" "is_class_c a \<longleftrightarrow> 192 \<le> b \<and> b < 224"
    "v4_is_multicast a \<longleftrightarrow> 224 \<le> b \<and> b < 240" "v4_is_loopback a \<longleftrightarrow> b = 127"
  unfolding is_class_a_def is_class_b_def is_class_c_def v4_is_multicast_def v4_is_loopback_def masks first_byte_test
    assms [symmetric] by (simp_all only: byte_masks)

section \<open>Versions\<close>

text \<open>The addresses that constructors and assignments make, with the version 6 addresses given.\<close>

inductive made :: "address \<Rightarrow> bool" where
  "made new_address"
| "made (address_of_v4 a)"
| "v6_ok b \<Longrightarrow> made (address_of_v6 b)"
| "made x \<Longrightarrow> made y \<Longrightarrow> made (assign_address x y)"
| "made x \<Longrightarrow> made (assign_v4 x a)"
| "made x \<Longrightarrow> v6_ok b \<Longrightarrow> made (assign_v6 x b)"

lemma made_cases: "made x \<longleftrightarrow> (\<exists>a. x = address_of_v4 a) \<or> (\<exists>b. v6_ok b \<and> x = address_of_v6 b)"
proof
  show "(\<exists>a. x = address_of_v4 a) \<or> (\<exists>b. v6_ok b \<and> x = address_of_v6 b)" if "made x"
    using that by induction (auto simp: new_address_def address_of_v4_def address_of_v6_def assign_address_def
        assign_v4_def assign_v6_def)
qed (auto intro: made.intros)

lemmas address_defs = address_of_v4_def address_of_v6_def is_v4_def is_v6_def to_v4_def to_v6_def address_eq_def
  address_less_def

lemma linear: "(p :: 'a :: linorder) = q \<or> p < q \<or> q < p" "\<not> (p < q \<and> q < p)" "\<not> p < p"
  using less_linear [of p q] by (auto dest: less_asym)

lemma address_order:
  assumes "made x" and "made y"
  shows "(address_eq x y \<longleftrightarrow> x = y) \<and> (x = y \<or> address_less x y \<or> address_less y x) \<and>
    \<not> (address_less x y \<and> address_less y x) \<and> \<not> address_less x x"
proof -
  have orders: "v4_less a b = (a < b)" "v6_less c d = (c < d)" for a b c d
    by (simp_all add: less_address_v4_def less_address_v6_def)
  from assms show ?thesis unfolding made_cases
  proof (elim disjE exE conjE)
    fix a b assume "x = address_of_v4 a" "y = address_of_v4 b"
    then show ?thesis using linear(1,2) [of a b] linear(3) [of a] by (simp add: address_defs orders)
  next
    fix a b assume "x = address_of_v6 a" "y = address_of_v6 b" "v6_ok a" "v6_ok b"
    then show ?thesis using linear(1,2) [of a b] linear(3) [of a] by (simp add: address_defs orders)
  qed (simp_all add: address_defs orders)
qed

lemma address_less_trans:
  assumes "made x" "made y" "made z" "address_less x y" "address_less y z"
  shows "address_less x z"
proof -
  have orders: "v4_less a b = (a < b)" "v6_less c d = (c < d)" for a b c d
    by (simp_all add: less_address_v4_def less_address_v6_def)
  from assms show ?thesis unfolding made_cases
    by (elim disjE exE conjE) (auto simp: address_defs orders intro: less_trans)
qed

text \<open>
  C36. An \<^verbatim>\<open>address\<close>, however it is made and assigned to, is of exactly one version: the
  conversion to that version returns the address it was made from and the other throws, and
  comparing two of them is equality and a strict linear order, version 4 first.
\<close>

theorem address_is_typed:
  assumes "made x" and "made y" and "made z"
  shows "is_v4 x \<noteq> is_v6 x \<and>
    (is_v4 x \<longrightarrow> (\<exists>a. to_v4 x = Inr a \<and> x = address_of_v4 a) \<and> to_v6 x = Inl Bad_address_cast) \<and>
    (is_v6 x \<longrightarrow> (\<exists>b. to_v6 x = Inr b \<and> v6_ok b \<and> x = address_of_v6 b) \<and> to_v4 x = Inl Bad_address_cast) \<and>
    (address_eq x y \<longleftrightarrow> x = y) \<and> (x = y \<or> address_less x y \<or> address_less y x) \<and>
    \<not> (address_less x y \<and> address_less y x) \<and> (address_less x y \<and> address_less y z \<longrightarrow> address_less x z) \<and>
    (is_v4 x \<and> is_v6 y \<longrightarrow> address_less x y)"
proof -
  have "is_v4 x \<noteq> is_v6 x \<and>
    (is_v4 x \<longrightarrow> (\<exists>a. to_v4 x = Inr a \<and> x = address_of_v4 a) \<and> to_v6 x = Inl Bad_address_cast) \<and>
    (is_v6 x \<longrightarrow> (\<exists>b. to_v6 x = Inr b \<and> v6_ok b \<and> x = address_of_v6 b) \<and> to_v4 x = Inl Bad_address_cast) \<and>
    (is_v4 x \<and> is_v6 y \<longrightarrow> address_less x y)"
    using assms(1,2) unfolding made_cases by (elim disjE exE conjE) (simp_all add: address_defs)
  with address_order [OF assms(1,2)] address_less_trans [OF assms] show ?thesis by blast
qed

lemma address_is_typed_witness:
  "to_v6 (assign_v4 (address_of_v6 v6_loopback) v4_loopback) = Inl Bad_address_cast \<and>
   address_less (assign_v4 (address_of_v6 v6_loopback) v4_loopback) (address_of_v6 v6_loopback) \<and>
   address_less new_address (address_of_v6 v6_loopback)"
proof -
  have ok: "v6_ok v6_loopback" by (simp add: v6_ok_def v6_loopback_def v6_any_def)
  then have m: "made (assign_v4 (address_of_v6 v6_loopback) v4_loopback)" "made (address_of_v6 v6_loopback)" "made new_address"
    by (auto intro: made.intros)
  have "is_v4 (assign_v4 (address_of_v6 v6_loopback) v4_loopback)" "is_v6 (address_of_v6 v6_loopback)"
    by (simp_all add: is_v4_def is_v6_def assign_v4_def address_of_v6_def)
  moreover have "v4_less v4_any v4_loopback" by code_simp
  then have "address_less new_address (assign_v4 (address_of_v6 v6_loopback) v4_loopback)"
    by (simp add: address_less_def new_address_def assign_v4_def)
  ultimately show ?thesis using address_is_typed [OF m] address_is_typed [OF m(3,1,2)] by blast
qed

section \<open>Parsing\<close>

lemma broadcast_bytes: "v4_to_bytes v4_broadcast = replicate 4 0xFF"
  by code_simp

text \<open>
  \<^verbatim>\<open>make_address\<close> takes the system's version 6 answer, or else its version 4 answer, or else
  returns the default address with an error, and the overload without an error code throws
  exactly then. The string 255.255.255.255 is no exception: \<^verbatim>\<open>inet_pton\<close> writes the address for
  it when the system rejects it, and then reports the failure all the same.
\<close>

theorem make_address_answers:
  "make_address junk str sys ec =
     (case parsed (sys AF_INET6) of
        Some (bytes, scope) \<Rightarrow> (address_of_v6 (v6_of_bytes bytes scope), success)
      | None \<Rightarrow>
          (case parsed (sys AF_INET) of
             Some (bytes, _) \<Rightarrow> (address_of_v4 (v4_of_bytes bytes), success)
           | None \<Rightarrow> (new_address, snd (make_address junk str sys ec)))) \<and>
   (failed (snd (make_address junk str sys ec)) \<longleftrightarrow> parsed (sys AF_INET6) = None \<and> parsed (sys AF_INET) = None) \<and>
   (isl (make_address_throwing junk str sys) \<longleftrightarrow> parsed (sys AF_INET6) = None \<and> parsed (sys AF_INET) = None) \<and>
   (parsed ans = None \<longrightarrow>
      fst (inet_pton AF_INET ''255.255.255.255'' ans junk 0 ec) = v4_to_bytes v4_broadcast \<and>
      make_address_v4 junk ''255.255.255.255'' ans ec = (v4_any, invalid_argument))"
proof -
  have ok: "\<not> failed success" "no_error (System_category, e) = success" "failed invalid_argument" for e
    by (simp_all add: failed_def success_def no_error_def invalid_argument_def)
  have ok': "no_error success = success" by (simp add: no_error_def success_def)
  have six: "make_address_v6 junk str (sys AF_INET6) ec =
      (case parsed (sys AF_INET6) of Some (bytes, scope) \<Rightarrow> (v6_of_bytes bytes scope, success)
       | None \<Rightarrow> (v6_any, snd (make_address_v6 junk str (sys AF_INET6) ec))) \<and>
      (failed (snd (make_address_v6 junk str (sys AF_INET6) ec)) \<longleftrightarrow> parsed (sys AF_INET6) = None)" for ec
    by (auto simp: make_address_v6_def inet_pton_def get_last_error_def AF_INET_def AF_INET6_def Let_def ok ok' split: option.splits)
  have four: "make_address_v4 junk str a ec =
      (case parsed a of Some (bytes, _) \<Rightarrow> (v4_of_bytes bytes, success)
       | None \<Rightarrow> (v4_any, snd (make_address_v4 junk str a ec))) \<and>
      (failed (snd (make_address_v4 junk str a ec)) \<longleftrightarrow> parsed a = None)" for str a ec
    by (auto simp: make_address_v4_def inet_pton_def get_last_error_def AF_INET_def AF_INET6_def Let_def ok ok' split: option.splits)
  have none: "make_address junk str sys ec = (new_address, snd (make_address junk str sys ec))"
      "failed (snd (make_address junk str sys ec))"
    if "parsed (sys AF_INET6) = None" "parsed (sys AF_INET) = None" for ec
    using that conjunct2 [OF six, of ec] conjunct2 [OF four, of str "sys AF_INET"]
    by (simp_all add: make_address_def case_prod_unfold Let_def)
  have last: "fst (inet_pton AF_INET ''255.255.255.255'' ans junk 0 ec) = v4_to_bytes v4_broadcast \<and>
      make_address_v4 junk ''255.255.255.255'' ans ec = (v4_any, invalid_argument)" if "parsed ans = None"
    using that by (simp add: make_address_v4_def inet_pton_def get_last_error_def AF_INET_def ok Let_def broadcast_bytes)
  show ?thesis
  proof (cases "parsed (sys AF_INET6)")
    case (Some p)
    then have "make_address junk str sys ec = (address_of_v6 (v6_of_bytes (fst p) (snd p)), success)" for ec
      using six [of ec] ok(1) by (cases p) (auto simp: make_address_def split: prod.splits)
    with Some last show ?thesis by (cases p) (simp add: make_address_throwing_def ok)
  next
    case no6: None
    show ?thesis
    proof (cases "parsed (sys AF_INET)")
      case (Some p)
      then have "make_address junk str sys ec = (address_of_v4 (v4_of_bytes (fst p)), success)" for ec
        using no6 six [of ec] four [of str "sys AF_INET"] ok(1) by (cases p) (auto simp: make_address_def split: prod.splits)
      with Some no6 last show ?thesis by (cases p) (simp add: make_address_throwing_def ok)
    next
      case None
      with no6 last show ?thesis using none [of ec] none [of success]
        by (simp add: make_address_throwing_def case_prod_unfold Let_def)
    qed
  qed
qed

lemma make_address_answers_witness:
  "make_address_v4 [] ''255.255.255.255'' \<lparr>parsed = None, wsa_error = 10022\<rparr> success = (v4_any, invalid_argument) \<and>
   make_address [] ''10.0.0.1'' (\<lambda>af. if af = AF_INET then \<lparr>parsed = Some ([10, 0, 0, 1], 0), wsa_error = 0\<rparr>
     else \<lparr>parsed = None, wsa_error = 10022\<rparr>) success = (address_of_v4 (v4_of_bytes [10, 0, 0, 1]), success)"
proof -
  have "parsed \<lparr>parsed = None, wsa_error = 10022\<rparr> = None" by simp
  moreover have "AF_INET \<noteq> AF_INET6" by (simp add: AF_INET_def AF_INET6_def)
  ultimately show ?thesis
    using make_address_answers [of "[]" "''10.0.0.1''" "\<lambda>af. if af = AF_INET then \<lparr>parsed = Some ([10, 0, 0, 1], 0), wsa_error = 0\<rparr>
      else \<lparr>parsed = None, wsa_error = 10022\<rparr>" success "\<lparr>parsed = None, wsa_error = 10022\<rparr>"]
    by simp
qed

end
