(* ===== verification/AsioNetwork.thy ===== *)
theory AsioNetwork
  imports AsioAddress
begin

text \<open>
  Networks of IP addresses: \<^verbatim>\<open>asio/ip/network_v4.hpp\<close>, \<^verbatim>\<open>network_v6.hpp\<close> with their
  implementations, and the iterators and ranges of \<^verbatim>\<open>address_v4_iterator.hpp\<close>,
  \<^verbatim>\<open>address_v4_range.hpp\<close>, \<^verbatim>\<open>address_v6_iterator.hpp\<close> and \<^verbatim>\<open>address_v6_range.hpp\<close>.

  The locale \<open>prefix_space\<close> is what both versions share: an address has a value, a network keeps
  the first bits of it, and an iterator steps to the next value. Shown inside it and for both
  versions: a network is a block of addresses, being a subnet is being a proper subset, and
  what a loop over the hosts of a network visits. Also: which masks are accepted, and that
  networks are read back from their text.
\<close>

section \<open>Version 4\<close>

text \<open>\<open>prefix_length\<close> is an \<^verbatim>\<open>unsigned short\<close> that never exceeds 32.\<close>

datatype network_v4 = Network_v4 (net_address: address_v4) (prefix_length: nat)

definition new_network_v4 :: network_v4 where
  "new_network_v4 = Network_v4 v4_any 0"

definition network_of_prefix :: "address_v4 \<Rightarrow> nat \<Rightarrow> cpp_exception + network_v4" where
  "network_of_prefix addr prefix_len =
     (if prefix_len > 32 then Inl Std_out_of_range else Inr (Network_v4 addr prefix_len))"

text \<open>The loop over the bytes of the mask; the cases of the switch fall through to add up their bits.\<close>

fun scan_mask :: "byte list \<Rightarrow> bool \<Rightarrow> nat \<Rightarrow> cpp_exception + nat" where
  "scan_mask [] finished p = Inr p"
| "scan_mask (b # bs) finished p =
     (if finished then if b \<noteq> 0 then Inl Std_invalid_argument else scan_mask bs finished p
      else if b = 255 then scan_mask bs False (p + 8)
      else if b = 254 then scan_mask bs True (p + 7)
      else if b = 252 then scan_mask bs True (p + 6)
      else if b = 248 then scan_mask bs True (p + 5)
      else if b = 240 then scan_mask bs True (p + 4)
      else if b = 224 then scan_mask bs True (p + 3)
      else if b = 192 then scan_mask bs True (p + 2)
      else if b = 128 then scan_mask bs True (p + 1)
      else if b = 0 then scan_mask bs True p
      else Inl Std_out_of_range)"

definition network_of_mask :: "address_v4 \<Rightarrow> address_v4 \<Rightarrow> cpp_exception + network_v4" where
  "network_of_mask addr msk = map_sum id (Network_v4 addr) (scan_mask (v4_to_bytes msk) False 0)"

definition netmask :: "network_v4 \<Rightarrow> address_v4" where
  "netmask n = v4_of_uint (if prefix_length n = 0 then 0 else push_bit (32 - prefix_length n) 0xffffffff)"

definition v4_network :: "network_v4 \<Rightarrow> address_v4" where
  "v4_network n = v4_of_uint (v4_to_uint (net_address n) AND v4_to_uint (netmask n))"

definition net_broadcast :: "network_v4 \<Rightarrow> address_v4" where
  "net_broadcast n = v4_of_uint (v4_to_uint (v4_network n) OR (v4_to_uint (netmask n) XOR 0xFFFFFFFF))"

definition canonical :: "network_v4 \<Rightarrow> cpp_exception + network_v4" where
  "canonical n = network_of_mask (v4_network n) (netmask n)"

definition is_host :: "network_v4 \<Rightarrow> bool" where
  "is_host n \<longleftrightarrow> prefix_length n = 32"

definition is_subnet_of :: "network_v4 \<Rightarrow> network_v4 \<Rightarrow> cpp_exception + bool" where
  "is_subnet_of n other =
     (if prefix_length other \<ge> prefix_length n then Inr False
      else
        case network_of_prefix (net_address n) (prefix_length other) of
          Inl e \<Rightarrow> Inl e
        | Inr me \<Rightarrow>
            case (canonical other, canonical me) of
              (Inr c, Inr d) \<Rightarrow> Inr (c = d)
            | (Inl e, _) \<Rightarrow> Inl e
            | (_, Inl e) \<Rightarrow> Inl e)"

text \<open>Iterators and ranges.\<close>

definition v4_increment :: "address_v4 \<Rightarrow> address_v4" where
  "v4_increment a = v4_of_uint ((v4_to_uint a + 1) AND 0xFFFFFFFF)"

definition v4_decrement :: "address_v4 \<Rightarrow> address_v4" where
  "v4_decrement a = v4_of_uint ((v4_to_uint a - 1) AND 0xFFFFFFFF)"

record v4_range =
  begin4 :: address_v4
  end4 :: address_v4

definition v4_range_size :: "v4_range \<Rightarrow> u64" where
  "v4_range_size r = ucast (v4_to_uint (end4 r) - v4_to_uint (begin4 r))"

definition v4_range_empty :: "v4_range \<Rightarrow> bool" where
  "v4_range_empty r \<longleftrightarrow> v4_range_size r = 0"

definition v4_range_find :: "v4_range \<Rightarrow> address_v4 \<Rightarrow> address_v4" where
  "v4_range_find r a = (if a \<ge> begin4 r \<and> a < end4 r then a else end4 r)"

definition v4_hosts :: "network_v4 \<Rightarrow> v4_range" where
  "v4_hosts n =
     (if is_host n
      then \<lparr>begin4 = net_address n, end4 = v4_of_uint (v4_to_uint (net_address n) + 1)\<rparr>
      else \<lparr>begin4 = v4_of_uint (v4_to_uint (v4_network n) + 1), end4 = net_broadcast n\<rparr>)"

section \<open>Version 6\<close>

datatype network_v6 = Network_v6 (net6_address: address_v6) (prefix6_length: nat)

definition network6_of_prefix :: "address_v6 \<Rightarrow> nat \<Rightarrow> cpp_exception + network_v6" where
  "network6_of_prefix addr prefix_len =
     (if prefix_len > 128 then Inl Std_out_of_range else Inr (Network_v6 addr prefix_len))"

text \<open>
  What the loops do to byte \<open>i\<close>. The shifts are of \<^verbatim>\<open>int\<close>; the assignment keeps the lowest byte.
\<close>

definition begin_byte :: "nat \<Rightarrow> nat \<Rightarrow> byte \<Rightarrow> byte" where
  "begin_byte p i b =
     (if p \<le> i * 8 then 0
      else if p < (i + 1) * 8 then b AND ucast (drop_bit (p mod 8) (0xFF00 :: u32))
      else b)"

definition end_byte :: "nat \<Rightarrow> nat \<Rightarrow> byte \<Rightarrow> byte" where
  "end_byte p i b =
     (if p \<le> i * 8 then 0xFF
      else if p < (i + 1) * 8 then b OR ucast (drop_bit (p mod 8) (0xFF :: u32))
      else b)"

definition on_bytes :: "(nat \<Rightarrow> byte \<Rightarrow> byte) \<Rightarrow> byte list \<Rightarrow> byte list" where
  "on_bytes f bs = map (\<lambda>i. f i (bs ! i)) [0..<length bs]"

definition v6_network :: "network_v6 \<Rightarrow> address_v6" where
  "v6_network n = v6_of_bytes (on_bytes (begin_byte (prefix6_length n)) (v6_to_bytes (net6_address n))) (scope_id (net6_address n))"

definition canonical6 :: "network_v6 \<Rightarrow> cpp_exception + network_v6" where
  "canonical6 n = network6_of_prefix (v6_network n) (prefix6_length n)"

definition is_subnet_of6 :: "network_v6 \<Rightarrow> network_v6 \<Rightarrow> cpp_exception + bool" where
  "is_subnet_of6 n other =
     (if prefix6_length other \<ge> prefix6_length n then Inr False
      else
        case network6_of_prefix (net6_address n) (prefix6_length other) of
          Inl e \<Rightarrow> Inl e
        | Inr me \<Rightarrow>
            case (canonical6 other, canonical6 me) of
              (Inr c, Inr d) \<Rightarrow> Inr (c = d)
            | (Inl e, _) \<Rightarrow> Inl e
            | (_, Inl e) \<Rightarrow> Inl e)"

text \<open>The loops of the iterator, from the last byte to the first.\<close>

fun carry :: "byte list \<Rightarrow> byte list" where
  "carry [] = []"
| "carry (b # bs) = (if b < 0xFF then (b + 1) # bs else 0 # carry bs)"

fun borrow :: "byte list \<Rightarrow> byte list" where
  "borrow [] = []"
| "borrow (b # bs) = (if b > 0 then (b - 1) # bs else 0xFF # borrow bs)"

definition v6_increment :: "address_v6 \<Rightarrow> address_v6" where
  "v6_increment a = Address_v6 (rev (carry (rev (s6_addr a)))) (scope_id a)"

definition v6_decrement :: "address_v6 \<Rightarrow> address_v6" where
  "v6_decrement a = Address_v6 (rev (borrow (rev (s6_addr a)))) (scope_id a)"

record v6_range =
  begin6 :: address_v6
  end6 :: address_v6

definition v6_range_empty :: "v6_range \<Rightarrow> bool" where
  "v6_range_empty r \<longleftrightarrow> begin6 r = end6 r"

definition v6_range_find :: "v6_range \<Rightarrow> address_v6 \<Rightarrow> address_v6" where
  "v6_range_find r a = (if a \<ge> begin6 r \<and> a < end6 r then a else end6 r)"

definition v6_hosts :: "network_v6 \<Rightarrow> v6_range" where
  "v6_hosts n =
     (let a = net6_address n; p = prefix6_length n in
      \<lparr>begin6 = v6_of_bytes (on_bytes (begin_byte p) (v6_to_bytes a)) (scope_id a),
       end6 = v6_increment (v6_of_bytes (on_bytes (end_byte p) (v6_to_bytes a)) (scope_id a))\<rparr>)"

text \<open>A loop \<^verbatim>\<open>for (it = range.begin(); it != range.end(); ++it)\<close>: the addresses it visits.\<close>

partial_function (option) visit :: "('a \<Rightarrow> 'a) \<Rightarrow> 'a \<Rightarrow> 'a \<Rightarrow> 'a list option" where
  "visit nxt a b = (if a = b then Some [] else Option.bind (visit nxt (nxt a) b) (\<lambda>xs. Some (a # xs)))"

section \<open>Blocks of addresses\<close>

text \<open>The addresses \<open>b\<close> of the network of \<open>a\<close>.\<close>

definition net_block :: "('a \<Rightarrow> bool) \<Rightarrow> ('a \<Rightarrow> nat \<Rightarrow> 'a) \<Rightarrow> 'a \<Rightarrow> nat \<Rightarrow> 'a set" where
  "net_block ok net a p = {b. ok b \<and> net b p = net a p}"

lemma div_interval:
  assumes "0 < k"
  shows "(x :: nat) div k = q \<longleftrightarrow> q * k \<le> x \<and> x < q * k + k"
proof
  assume "x div k = q"
  moreover have "x = x div k * k + x mod k" by simp
  moreover have "x mod k < k" using assms by simp
  ultimately show "q * k \<le> x \<and> x < q * k + k" by (metis le_add1 nat_add_left_cancel_less)
next
  assume "q * k \<le> x \<and> x < q * k + k"
  then show "x div k = q" by (intro div_nat_eqI) (simp_all add: mult.commute)
qed

lemma visit_to:
  assumes "\<And>i. i < n \<Longrightarrow> (nxt ^^ i) a \<noteq> (nxt ^^ n) a"
  shows "visit nxt a ((nxt ^^ n) a) = Some (map (\<lambda>i. (nxt ^^ i) a) [0..<n])"
  using assms
proof (induction n arbitrary: a)
  case 0
  then show ?case by (simp add: visit.simps)
next
  case (Suc n)
  have "visit nxt (nxt a) ((nxt ^^ n) (nxt a)) = Some (map (\<lambda>i. (nxt ^^ i) (nxt a)) [0..<n])"
    using Suc.prems [of "Suc i" for i] by (intro Suc.IH) (simp add: funpow_swap1)
  moreover have "a \<noteq> (nxt ^^ Suc n) a" using Suc.prems [of 0] by simp
  ultimately show ?case
    by (subst visit.simps) (simp add: funpow_swap1 upt_conv_Cons map_Suc_upt [symmetric] del: upt_Suc)
qed

locale prefix_space =
  fixes ok :: "'a \<Rightarrow> bool" and tag :: "'a \<Rightarrow> 't" and val :: "'a \<Rightarrow> nat" and width :: nat
    and net :: "'a \<Rightarrow> nat \<Rightarrow> 'a" and nxt :: "'a \<Rightarrow> 'a"
  assumes val_less: "ok a \<Longrightarrow> val a < 2 ^ width"
    and val_inject: "ok a \<Longrightarrow> ok b \<Longrightarrow> tag a = tag b \<Longrightarrow> val a = val b \<Longrightarrow> a = b"
    and val_onto: "ok a \<Longrightarrow> v < 2 ^ width \<Longrightarrow> \<exists>b. ok b \<and> tag b = tag a \<and> val b = v"
    and net: "ok a \<Longrightarrow> p \<le> width \<Longrightarrow>
      ok (net a p) \<and> tag (net a p) = tag a \<and> val (net a p) = val a div 2 ^ (width - p) * 2 ^ (width - p)"
    and nxt: "ok a \<Longrightarrow> ok (nxt a) \<and> tag (nxt a) = tag a \<and> val (nxt a) = (val a + 1) mod 2 ^ width"
begin

abbreviation block :: "'a \<Rightarrow> nat \<Rightarrow> 'a set" where
  "block \<equiv> net_block ok net"

lemma net_eq_iff:
  assumes "ok a" "ok b" "p \<le> width"
  shows "net a p = net b p \<longleftrightarrow> tag a = tag b \<and> val a div 2 ^ (width - p) = val b div 2 ^ (width - p)"
proof
  assume e: "net a p = net b p"
  then have "tag a = tag b" "val a div 2 ^ (width - p) * 2 ^ (width - p) = val b div 2 ^ (width - p) * 2 ^ (width - p)"
    using net [OF assms(1,3)] net [OF assms(2,3)] by simp_all
  then show "tag a = tag b \<and> val a div 2 ^ (width - p) = val b div 2 ^ (width - p)" by simp
next
  assume "tag a = tag b \<and> val a div 2 ^ (width - p) = val b div 2 ^ (width - p)"
  then show "net a p = net b p"
    using net [OF assms(1,3)] net [OF assms(2,3)] by (intro val_inject) simp_all
qed

lemma in_block:
  assumes "ok a" "p \<le> width"
  shows "b \<in> block a p \<longleftrightarrow> ok b \<and> tag b = tag a \<and> val (net a p) \<le> val b \<and> val b < val (net a p) + 2 ^ (width - p)"
proof -
  have "x div 2 ^ (width - p) = y div 2 ^ (width - p) \<longleftrightarrow>
      y div 2 ^ (width - p) * 2 ^ (width - p) \<le> x \<and> x < y div 2 ^ (width - p) * 2 ^ (width - p) + 2 ^ (width - p)" for x y :: nat
    by (rule div_interval) simp
  then show ?thesis using assms net [OF assms] by (auto simp: net_block_def net_eq_iff)
qed

lemma net_top: "ok a \<Longrightarrow> p \<le> width \<Longrightarrow> val (net a p) + 2 ^ (width - p) \<le> 2 ^ width"
proof -
  assume a: "ok a" "p \<le> width"
  let ?k = "2 ^ (width - p) :: nat"
  have w: "2 ^ width = 2 ^ p * ?k" using a(2) by (simp flip: power_add)
  have "val a div ?k < 2 ^ p" using val_less [OF a(1)] by (simp add: w less_mult_imp_div_less)
  then have "(val a div ?k + 1) * ?k \<le> 2 ^ p * ?k" by (intro mult_right_mono) simp_all
  then show ?thesis using net [OF a] w by simp
qed

lemma block_val: "ok a \<Longrightarrow> p \<le> width \<Longrightarrow> val ` block a p = {val (net a p)..<val (net a p) + 2 ^ (width - p)}"
proof -
  assume a: "ok a" "p \<le> width"
  note net_top [OF a]
  then have "\<exists>b. b \<in> block a p \<and> val b = v" if "val (net a p) \<le> v" "v < val (net a p) + 2 ^ (width - p)" for v
    using val_onto [OF a(1), of v] that by (auto simp: in_block [OF a])
  then show ?thesis by (fastforce simp: in_block [OF a] image_iff)
qed

lemma block_mono: "ok a \<Longrightarrow> p \<le> q \<Longrightarrow> q \<le> width \<Longrightarrow> block a q \<subseteq> block a p"
proof
  fix b assume a: "ok a" "p \<le> q" "q \<le> width" and "b \<in> block a q"
  then have b: "ok b" "tag b = tag a" "val b div 2 ^ (width - q) = val a div 2 ^ (width - q)"
    by (auto simp: net_block_def net_eq_iff)
  have "(2 :: nat) ^ (width - p) = 2 ^ (width - q) * 2 ^ (q - p)" using a by (simp flip: power_add)
  with b have "val b div 2 ^ (width - p) = val a div 2 ^ (width - p)" by (simp add: div_mult2_eq)
  with a b show "b \<in> block a p" by (simp add: net_block_def net_eq_iff)
qed

lemma block_card: "ok a \<Longrightarrow> p \<le> width \<Longrightarrow> card (block a p) = 2 ^ (width - p) \<and> finite (block a p)"
proof -
  assume a: "ok a" "p \<le> width"
  have "inj_on val (block a p)" by (rule inj_onI) (auto simp: in_block [OF a] intro: val_inject)
  with block_val [OF a] show ?thesis
    by (metis add_diff_cancel_left' card_atLeastLessThan card_image finite_atLeastLessThan finite_image_iff)
qed

text \<open>Being a subnet, as the code tests it, is being a proper subset.\<close>

lemma subnet_iff:
  assumes "ok a" "ok b" "p \<le> width" "q \<le> width"
  shows "q < p \<and> net a q = net b q \<longleftrightarrow> block a p \<subset> block b q"
proof
  assume l: "q < p \<and> net a q = net b q"
  then have "block b q = block a q" by (simp add: net_block_def)
  moreover have "block a p \<subseteq> block a q" using block_mono assms l by simp
  moreover have "card (block a p) < card (block a q)"
    using block_card assms l by (simp add: power_strict_increasing_iff diff_less_mono2)
  ultimately show "block a p \<subset> block b q" by auto
next
  assume s: "block a p \<subset> block b q"
  have "a \<in> block a p" using assms by (simp add: net_block_def)
  with s have e: "net a q = net b q" by (auto simp: net_block_def)
  then have "block b q = block a q" by (simp add: net_block_def)
  with s block_mono [of a p q] assms have "\<not> p \<le> q" by auto
  with e show "q < p \<and> net a q = net b q" by simp
qed

lemma val_funpow: "ok a \<Longrightarrow> ok ((nxt ^^ i) a) \<and> tag ((nxt ^^ i) a) = tag a \<and> val ((nxt ^^ i) a) = (val a + i) mod 2 ^ width"
proof (induction i)
  case 0
  then show ?case using val_less by simp
next
  case (Suc i)
  then show ?case using nxt [of "(nxt ^^ i) a"] by (simp add: mod_Suc_eq)
qed

text \<open>A loop from one address to another of the same tag.\<close>

lemma visit_steps:
  assumes "ok a" "ok b" "tag a = tag b" "val b = (val a + n) mod 2 ^ width" "n < 2 ^ width"
  shows "visit nxt a b = Some (map (\<lambda>i. (nxt ^^ i) a) [0..<n])" "distinct (map (\<lambda>i. (nxt ^^ i) a) [0..<n])"
proof -
  have "b = (nxt ^^ n) a" using assms val_funpow [of a n] by (intro val_inject) simp_all
  moreover have inj: "(nxt ^^ i) a \<noteq> (nxt ^^ j) a" if "i < j" "j < 2 ^ width" for i j
  proof
    assume "(nxt ^^ i) a = (nxt ^^ j) a"
    then have "(val a + i) mod 2 ^ width = (val a + j) mod 2 ^ width" using val_funpow [OF assms(1)] by metis
    then have "i mod 2 ^ width = j mod 2 ^ width" by (simp add: mod_add_cong nat_mod_eq_iff)
    with that show False by simp
  qed
  ultimately show "visit nxt a b = Some (map (\<lambda>i. (nxt ^^ i) a) [0..<n])" using assms(5) by (simp add: visit_to)
  show "distinct (map (\<lambda>i. (nxt ^^ i) a) [0..<n])"
    using inj assms(5) by (auto simp: distinct_map inj_on_def) (metis linorder_neqE_nat order.strict_trans)
qed

lemma visit_set:
  assumes "ok a" "val a + n \<le> 2 ^ width"
  shows "(\<lambda>i. (nxt ^^ i) a) ` {0..<n} = {b. ok b \<and> tag b = tag a \<and> val a \<le> val b \<and> val b < val a + n}"
proof (intro set_eqI iffI)
  fix b assume "b \<in> (\<lambda>i. (nxt ^^ i) a) ` {0..<n}"
  then obtain i where i: "b = (nxt ^^ i) a" "i < n" by auto
  then have "(val a + i) mod 2 ^ width = val a + i" using assms(2) by simp
  with i show "b \<in> {b. ok b \<and> tag b = tag a \<and> val a \<le> val b \<and> val b < val a + n}"
    using val_funpow [OF assms(1), of i] by simp
next
  fix b assume b: "b \<in> {b. ok b \<and> tag b = tag a \<and> val a \<le> val b \<and> val b < val a + n}"
  then have "b = (nxt ^^ (val b - val a)) a"
    using val_funpow [OF assms(1), of "val b - val a"] val_less [of b] by (intro val_inject) simp_all
  with b show "b \<in> (\<lambda>i. (nxt ^^ i) a) ` {0..<n}" by (auto intro!: image_eqI [where x = "val b - val a"])
qed

end

section \<open>Both versions are prefix spaces\<close>

lemma and_high_ones:
  fixes x :: "'a::len word"
  assumes "k \<le> LENGTH('a)"
  shows "unat (x AND NOT (mask k)) = unat x div 2 ^ k * 2 ^ k"
proof -
  have e: "x AND NOT (mask k) = push_bit k (drop_bit k x)"
    by (rule bit_word_eqI) (auto simp: bit_and_iff bit_push_bit_iff bit_drop_bit_eq bit_not_iff bit_mask_iff)
  have "unat x div 2 ^ k * 2 ^ k < 2 ^ LENGTH('a)"
    using div_times_less_eq_dividend [of "unat x" "2 ^ k"] unsigned_less [of x, where ?'a = nat] by linarith
  moreover have "unat (push_bit k (drop_bit k x)) = unat x div 2 ^ k * 2 ^ k mod 2 ^ LENGTH('a)"
    unfolding unsigned_push_bit_eq unsigned_drop_bit_eq by (simp add: take_bit_eq_mod push_bit_eq_mult drop_bit_eq_div)
  ultimately show ?thesis unfolding e by simp
qed

lemma all_ones: "(0xFFFFFFFF :: u32) = - 1"
  by simp

lemma netmask_uint: "prefix_length n \<le> 32 \<Longrightarrow> v4_to_uint (netmask n) = NOT (mask (32 - prefix_length n))"
proof -
  have "NOT (mask 32) = (0 :: u32)" by (rule bit_word_eqI) (simp add: bit_not_iff bit_mask_iff)
  then show ?thesis by (simp add: netmask_def all_ones)
qed

interpretation v4s: prefix_space "\<lambda>_. True" "\<lambda>_ :: address_v4. ()" "\<lambda>a. unat (v4_to_uint a)" 32
  "\<lambda>a p. v4_network (Network_v4 a p)" v4_increment
proof
  fix a :: address_v4 and v :: nat assume v: "v < 2 ^ 32"
  have "unat (v4_to_uint (v4_of_uint (of_nat v))) = v" using v by (simp add: unsigned_of_nat take_bit_eq_mod)
  then show "\<exists>b :: address_v4. True \<and> () = () \<and> unat (v4_to_uint b) = v" by blast
next
  fix a :: address_v4 and p :: nat assume p: "p \<le> 32"
  then have "v4_to_uint (v4_network (Network_v4 a p)) = v4_to_uint a AND NOT (mask (32 - p))"
    by (simp add: v4_network_def netmask_uint)
  then show "True \<and> () = () \<and> unat (v4_to_uint (v4_network (Network_v4 a p))) =
      unat (v4_to_uint a) div 2 ^ (32 - p) * 2 ^ (32 - p)"
    by (simp add: and_high_ones)
next
  fix a :: address_v4
  have "v4_to_uint (v4_increment a) = v4_to_uint a + 1" by (simp add: v4_increment_def all_ones)
  then show "True \<and> () = () \<and> unat (v4_to_uint (v4_increment a)) = (unat (v4_to_uint a) + 1) mod 2 ^ 32"
    by (simp add: unat_word_ariths)
next
  fix a b :: address_v4 assume "unat (v4_to_uint a) = unat (v4_to_uint b)"
  then show "a = b" by (simp flip: word_unat_eq_iff)
qed (use unsigned_less [where ?'a = nat and ?'b = 32] in simp_all)

text \<open>The bytes of a network, one by one.\<close>

lemma on_bytes_Nil [simp]: "on_bytes f [] = []"
  by (simp add: on_bytes_def)

lemma on_bytes_Cons: "on_bytes f (b # bs) = f 0 b # on_bytes (\<lambda>i. f (Suc i)) bs"
  by (simp add: on_bytes_def upt_conv_Cons map_Suc_upt [symmetric] comp_def del: upt_Suc)

lemma length_on_bytes [simp]: "length (on_bytes f bs) = length bs"
  by (simp add: on_bytes_def)

lemma byte_index:
  "p \<le> Suc i * 8 \<longleftrightarrow> p - 8 \<le> i * 8" "p < (Suc i + 1) * 8 \<longleftrightarrow> p - 8 < (i + 1) * 8"
  "\<not> p \<le> Suc i * 8 \<Longrightarrow> p mod 8 = (p - 8) mod 8"
  using le_mod_geq [of 8 p] by auto

lemma begin_byte_Suc: "begin_byte p (Suc i) = begin_byte (p - 8) i"
  unfolding begin_byte_def byte_index(1,2) using byte_index(3) [of p i] by (auto simp: byte_index(1))

lemma end_byte_Suc: "end_byte p (Suc i) = end_byte (p - 8) i"
  unfolding end_byte_def byte_index(1,2) using byte_index(3) [of p i] by (auto simp: byte_index(1))

lemma shifted_mask:
  assumes "p < 8" "p \<noteq> 0"
  shows "ucast (drop_bit p (0xFF00 :: u32)) = (NOT (mask (8 - p)) :: byte)"
proof -
  have "\<forall>p \<in> {1, 2, 3, 4, 5, 6, 7}. ucast (drop_bit p (0xFF00 :: u32)) = (NOT (mask (8 - p)) :: byte)" by code_simp
  moreover have "p \<in> {1, 2, 3, 4, 5, 6, 7}" using assms by auto
  ultimately show ?thesis by blast
qed

lemma or_low_ones: "unat ((b :: byte) OR mask k) = unat b div 2 ^ k * 2 ^ k + 2 ^ k - 1" if "k \<le> 8"
proof -
  have "b OR mask k = (b AND NOT (mask k)) OR mask k"
    by (rule bit_word_eqI) (auto simp: bit_or_iff bit_and_iff bit_not_iff)
  also have "\<dots> = (b AND NOT (mask k)) + mask k"
    by (rule disjunctive_add_eq_or [symmetric]) (rule bit_word_eqI, auto simp: bit_and_iff bit_not_iff)
  finally have "unat (b OR mask k) = (unat b div 2 ^ k * 2 ^ k + unat (mask k :: byte)) mod 256"
    using that by (simp add: unat_word_ariths and_high_ones)
  moreover have "unat (mask k :: byte) = 2 ^ k - 1"
  proof -
    have "\<forall>k \<in> {0, 1, 2, 3, 4, 5, 6, 7, 8}. unat (mask k :: byte) = 2 ^ k - 1" by code_simp
    moreover have "k \<in> {0, 1, 2, 3, 4, 5, 6, 7, 8}" using that by auto
    ultimately show ?thesis by blast
  qed
  moreover have "unat b div 2 ^ k * 2 ^ k + (2 ^ k - 1) < 256"
  proof -
    have w: "(256 :: nat) = 2 ^ (8 - k) * 2 ^ k" using that by (simp flip: power_add)
    have "unat b div 2 ^ k < 2 ^ (8 - k)" using unat_byte [of b] unfolding w by (simp add: less_mult_imp_div_less)
    then have "(unat b div 2 ^ k + 1) * 2 ^ k \<le> 2 ^ (8 - k) * 2 ^ k" by (intro mult_right_mono) simp_all
    moreover have "a * k + (k - 1) < w" if "(a + 1) * k \<le> w" "0 < k" for a k w :: nat using that by simp
    ultimately show ?thesis unfolding w by simp
  qed
  ultimately show ?thesis by simp
qed

lemma low_mask:
  assumes "p < 8"
  shows "ucast (drop_bit p (0xFF :: u32)) = (mask (8 - p) :: byte)"
proof -
  have "\<forall>p \<in> {0, 1, 2, 3, 4, 5, 6, 7}. ucast (drop_bit p (0xFF :: u32)) = (mask (8 - p) :: byte)" by code_simp
  moreover have "p \<in> {0, 1, 2, 3, 4, 5, 6, 7}" using assms by auto
  ultimately show ?thesis by blast
qed

lemma low_block:
  fixes k :: nat
  assumes "0 < k"
  shows "(u * (c * k) + r) div k * k = u * (c * k) + r div k * k"
proof -
  have "(u * c * k + r) div k = u * c + r div k" using assms by simp
  then show ?thesis by (simp add: distrib_right mult.assoc)
qed

lemma high_block:
  fixes h w :: nat
  assumes "r < w"
  shows "(u * w + r) div (w * h) * (w * h) = u div h * h * w"
proof -
  have "(u * w + r) div w = u" using assms by simp
  then have "(u * w + r) div (w * h) = u div h" by (simp only: div_mult2_eq)
  then show ?thesis by simp
qed

lemma block_end: "0 < h \<Longrightarrow> 0 < w \<Longrightarrow> (q + h - 1) * w + (w - 1) = q * w + w * h - (1 :: nat)"
proof -
  assume "0 < h" "0 < w"
  then have "(q + h - 1) * w + w = (q + h) * w" by (cases h) simp_all
  with \<open>0 < w\<close> show ?thesis by (simp add: algebra_simps)
qed

lemma begin_value:
  "p \<le> 8 * length bs \<Longrightarrow> be_value (on_bytes (begin_byte p) bs) = be_value bs div 2 ^ (8 * length bs - p) * 2 ^ (8 * length bs - p)"
proof (induction bs arbitrary: p)
  case (Cons b bs)
  let ?n = "length bs"
  have m: "(256 :: nat) ^ ?n = 2 ^ (8 * ?n)" by (simp add: power_mult)
  show ?case
  proof (cases "8 \<le> p")
    case True
    define k where "k = 8 * ?n - (p - 8)"
    have k: "8 * length (b # bs) - p = k" "k \<le> 8 * ?n" using True Cons.prems by (auto simp: k_def)
    have w: "(256 :: nat) ^ ?n = 2 ^ (8 * ?n - k) * 2 ^ k" using k(2) unfolding m by (simp flip: power_add)
    have "be_value (on_bytes (begin_byte p) (b # bs)) = unat b * 256 ^ ?n + be_value bs div 2 ^ k * 2 ^ k"
      using Cons.IH [of "p - 8"] Cons.prems True by (simp add: on_bytes_Cons begin_byte_Suc begin_byte_def [of p 0] k_def)
    then show ?thesis unfolding k(1) be_value.simps(2) [of b bs] w by (simp only: low_block zero_less_power zero_less_numeral)
  next
    case False
    have z: "on_bytes (begin_byte 0) bs = replicate ?n 0"
      by (rule nth_equalityI) (simp_all add: on_bytes_def begin_byte_def)
    have e: "2 ^ (8 * length (b # bs) - p) = 256 ^ ?n * (2 :: nat) ^ (8 - p)" using False unfolding m by (simp flip: power_add)
    have hd: "unat (begin_byte p 0 b) = unat b div 2 ^ (8 - p) * 2 ^ (8 - p)"
      using False shifted_mask [of p] and_high_ones [of "8 - p" b] unat_byte [of b] by (cases "p = 0") (auto simp: begin_byte_def)
    have "p - 8 = 0" using False by simp
    then have "be_value (on_bytes (begin_byte p) (b # bs)) = unat (begin_byte p 0 b) * 256 ^ ?n"
      by (simp only: on_bytes_Cons begin_byte_Suc be_value.simps z length_replicate be_value_replicate_0 add_0_right)
    then show ?thesis unfolding e be_value.simps(2) [of b bs] high_block [OF be_value_less [of bs]] hd .
  qed
qed simp

lemma be_value_ones: "be_value (replicate n 0xFF) = 256 ^ n - 1"
proof (induction n)
  case (Suc n)
  have "(1 :: nat) \<le> 256 ^ n" by simp
  then have "255 * 256 ^ n + (256 ^ n - 1) = 256 * 256 ^ n - (1 :: nat)" by linarith
  with Suc show ?case by simp
qed simp

lemma end_value:
  "p \<le> 8 * length bs \<Longrightarrow> be_value (on_bytes (end_byte p) bs) =
     be_value bs div 2 ^ (8 * length bs - p) * 2 ^ (8 * length bs - p) + 2 ^ (8 * length bs - p) - 1"
proof (induction bs arbitrary: p)
  case (Cons b bs)
  let ?n = "length bs"
  have m: "(256 :: nat) ^ ?n = 2 ^ (8 * ?n)" by (simp add: power_mult)
  show ?case
  proof (cases "8 \<le> p")
    case True
    define k where "k = 8 * ?n - (p - 8)"
    have k: "8 * length (b # bs) - p = k" "k \<le> 8 * ?n" using True Cons.prems by (auto simp: k_def)
    have w: "(256 :: nat) ^ ?n = 2 ^ (8 * ?n - k) * 2 ^ k" using k(2) unfolding m by (simp flip: power_add)
    have one: "(1 :: nat) \<le> 2 ^ k" by simp
    have "be_value (on_bytes (end_byte p) (b # bs)) = unat b * 256 ^ ?n + (be_value bs div 2 ^ k * 2 ^ k + 2 ^ k - 1)"
      using Cons.IH [of "p - 8"] Cons.prems True by (simp add: on_bytes_Cons end_byte_Suc end_byte_def [of p 0] k_def)
    also have "\<dots> = unat b * 256 ^ ?n + be_value bs div 2 ^ k * 2 ^ k + 2 ^ k - 1" using one by linarith
    finally show ?thesis unfolding k(1) be_value.simps(2) [of b bs] w by (simp only: low_block zero_less_power zero_less_numeral)
  next
    case False
    have z: "on_bytes (end_byte 0) bs = replicate ?n 0xFF"
      by (rule nth_equalityI) (simp_all add: on_bytes_def end_byte_def)
    have e: "2 ^ (8 * length (b # bs) - p) = 256 ^ ?n * (2 :: nat) ^ (8 - p)" using False unfolding m by (simp flip: power_add)
    have "mask 8 = (0xFF :: byte)" by code_simp
    moreover have "b OR 0xFF = 0xFF" by (rule bit_word_eqI) (simp add: bit_or_iff bit_mask_iff flip: calculation)
    ultimately have "end_byte p 0 b = b OR mask (8 - p)"
      using False low_mask [of p] by (cases "p = 0") (simp_all add: end_byte_def)
    then have hd: "unat (end_byte p 0 b) = unat b div 2 ^ (8 - p) * 2 ^ (8 - p) + 2 ^ (8 - p) - 1"
      by (simp add: or_low_ones)
    have "p - 8 = 0" using False by simp
    then have "be_value (on_bytes (end_byte p) (b # bs)) = unat (end_byte p 0 b) * 256 ^ ?n + (256 ^ ?n - 1)"
      by (simp only: on_bytes_Cons end_byte_Suc be_value.simps z length_replicate be_value_ones)
    then show ?thesis unfolding e be_value.simps(2) [of b bs] high_block [OF be_value_less [of bs]] hd
      by (simp only: block_end zero_less_power zero_less_numeral)
  qed
qed simp

lemma carry_value: "be_value (rev (carry bs)) = (be_value (rev bs) + 1) mod 256 ^ length bs"
proof (induction bs)
  case (Cons b bs)
  have l: "length (carry bs) = length bs" for bs by (induction bs) simp_all
  have less: "be_value (rev bs) < 256 ^ length bs" using be_value_less [of "rev bs"] by simp
  show ?case
  proof (cases "b < 0xFF")
    case True
    then have u: "unat (b + 1) = unat b + 1" "unat b < 255"
      by (auto simp: word_less_nat_alt unat_word_ariths)
    have "be_value (rev bs) * 256 + unat b + 1 < 256 ^ length (b # bs)"
      using digit_less [of "unat b + 1" 256 0 "be_value (rev bs)" "256 ^ length bs"] u less by (simp add: mult.commute)
    with True u show ?thesis by (simp add: be_value_append)
  next
    case False
    then have "\<not> unat b < 255" by (simp add: word_less_nat_alt)
    moreover have "unat b < 256" by (rule unat_byte)
    ultimately have "unat b = 255" by linarith
    then have "b = 0xFF" by (simp add: word_unat_eq_iff)
    then have "be_value (rev (carry (b # bs))) = (be_value (rev bs) + 1) mod 256 ^ length bs * 256"
      by (simp add: be_value_append Cons.IH)
    also have "\<dots> = (be_value (rev bs) + 1) * 256 mod (256 ^ length bs * 256)" by (rule mod_mult_mult2 [symmetric])
    also have "(be_value (rev bs) + 1) * 256 = be_value (rev (b # bs)) + 1" using \<open>b = 0xFF\<close> by (simp add: be_value_append)
    finally show ?thesis by (simp add: mult.commute)
  qed
qed simp

lemma length_carry [simp]: "length (carry bs) = length bs"
  by (induction bs) simp_all

lemma be_value_inject: "length xs = length ys \<Longrightarrow> be_value xs = be_value ys \<longleftrightarrow> xs = ys"
  using memcmp_value [of xs ys] memcmp_value [of ys xs] memcmp_eq [of xs ys] memcmp_swap [of xs ys] by auto

lemma be_value_onto: "v < 256 ^ n \<Longrightarrow> \<exists>bs. length bs = n \<and> be_value bs = v"
proof (induction n arbitrary: v)
  case (Suc n)
  then have "v div 256 < 256 ^ n" by (simp add: less_mult_imp_div_less mult.commute)
  with Suc.IH obtain bs where bs: "length bs = n" "be_value bs = v div 256" by blast
  have "unat (of_nat (v mod 256) :: byte) = v mod 256" by (simp add: unsigned_of_nat take_bit_eq_mod)
  with bs have "be_value (bs @ [of_nat (v mod 256)]) = v" by (simp add: be_value_append)
  with bs(1) show ?case by (intro exI [of _ "bs @ [of_nat (v mod 256)]"]) simp
qed simp

lemma pow16: "(256 :: nat) ^ 16 = 2 ^ 128"
  by (simp add: power_mult [of 2 8 16, symmetric])

interpretation v6s: prefix_space v6_ok scope_id "\<lambda>a. be_value (s6_addr a)" 128 "\<lambda>a p. v6_network (Network_v6 a p)" v6_increment
proof
  fix a assume a: "v6_ok a"
  then show "be_value (s6_addr a) < 2 ^ 128" using be_value_less [of "s6_addr a"] by (simp only: v6_ok_def pow16)
  show "\<exists>b. v6_ok b \<and> scope_id b = scope_id a \<and> be_value (s6_addr b) = v" if v: "v < 2 ^ 128" for v
  proof -
    obtain bs where "length bs = 16" "be_value bs = v" using be_value_onto [of v 16] v unfolding pow16 by blast
    then show ?thesis by (intro exI [of _ "Address_v6 bs (scope_id a)"]) (simp add: v6_ok_def)
  qed
  show "v6_ok (v6_network (Network_v6 a p)) \<and> scope_id (v6_network (Network_v6 a p)) = scope_id a \<and>
      be_value (s6_addr (v6_network (Network_v6 a p))) = be_value (s6_addr a) div 2 ^ (128 - p) * 2 ^ (128 - p)" if "p \<le> 128" for p
    using that a begin_value [of p "s6_addr a"] by (simp add: v6_network_def v6_of_bytes_def v6_to_bytes_def v6_ok_def)
  show "v6_ok (v6_increment a) \<and> scope_id (v6_increment a) = scope_id a \<and>
      be_value (s6_addr (v6_increment a)) = (be_value (s6_addr a) + 1) mod 2 ^ 128"
    using a carry_value [of "rev (s6_addr a)"] unfolding pow16 [symmetric] by (simp add: v6_increment_def v6_ok_def)
next
  fix a b :: address_v6
  show "v6_ok a \<Longrightarrow> v6_ok b \<Longrightarrow> scope_id a = scope_id b \<Longrightarrow> be_value (s6_addr a) = be_value (s6_addr b) \<Longrightarrow> a = b"
    by (simp add: v6_ok_def be_value_inject address_v6.expand)
qed

section \<open>Masks\<close>

abbreviation mask_bytes :: "nat \<Rightarrow> nat \<Rightarrow> byte list" where
  "mask_bytes n p \<equiv> on_bytes (begin_byte p) (replicate n 0xFF)"

lemma netmask_bytes: "prefix_length n \<le> 32 \<Longrightarrow> v4_to_bytes (netmask n) = mask_bytes 4 (prefix_length n)"
proof -
  assume p: "prefix_length n \<le> 32"
  have "unat (v4_to_uint (netmask n)) = unat (- 1 AND NOT (mask (32 - prefix_length n)) :: u32)" using p by (simp add: netmask_uint)
  also have "\<dots> = unat (- 1 :: u32) div 2 ^ (32 - prefix_length n) * 2 ^ (32 - prefix_length n)" by (rule and_high_ones) simp
  also have "unat (- 1 :: u32) = be_value (replicate 4 0xFF)" by (simp add: be_value_ones unsigned_minus_1_eq_mask mask_eq_exp_minus_1)
  finally have "be_value (v4_to_bytes (netmask n)) = be_value (mask_bytes 4 (prefix_length n))"
    using p begin_value [of "prefix_length n" "replicate 4 0xFF"] by (simp only: unat_v4_to_uint length_replicate) simp
  then show ?thesis by (simp add: be_value_inject)
qed

lemma scan_finished: "scan_mask bs True k = Inr q \<longleftrightarrow> q = k \<and> bs = replicate (length bs) 0"
  by (induction bs) auto

lemma first_mask_byte:
  "8 \<le> p \<Longrightarrow> begin_byte p 0 0xFF = 0xFF" "begin_byte 0 0 0xFF = 0" "begin_byte 1 0 0xFF = 128" "begin_byte 2 0 0xFF = 192"
  "begin_byte 3 0 0xFF = 224" "begin_byte 4 0 0xFF = 240" "begin_byte 5 0 0xFF = 248" "begin_byte 6 0 0xFF = 252"
  "begin_byte 7 0 0xFF = 254"
  by (simp_all add: begin_byte_def)

lemma mask_bytes_Suc:
  "mask_bytes (Suc n) p = begin_byte p 0 0xFF # (if p < 8 then replicate n 0 else mask_bytes n (p - 8))"
proof -
  have "on_bytes (begin_byte 0) (replicate n 0xFF) = replicate n 0"
    by (rule nth_equalityI) (simp_all add: on_bytes_def begin_byte_def)
  then show ?thesis by (simp add: on_bytes_Cons begin_byte_Suc)
qed

lemma scan_mask_iff: "scan_mask bs False k = Inr q \<longleftrightarrow> (\<exists>p \<le> 8 * length bs. q = k + p \<and> bs = mask_bytes (length bs) p)"
proof (induction bs arbitrary: k)
  case (Cons b bs)
  have ex: "(\<exists>p \<le> 8 * length (b # bs). q = k + p \<and> b # bs = mask_bytes (length (b # bs)) p) \<longleftrightarrow>
      (\<exists>p < 8. q = k + p \<and> b = begin_byte p 0 0xFF \<and> bs = replicate (length bs) 0) \<or>
      (\<exists>p \<le> 8 * length bs. q = k + 8 + p \<and> b = 0xFF \<and> bs = mask_bytes (length bs) p)" (is "?L \<longleftrightarrow> ?A \<or> ?B")
  proof
    assume ?L
    then obtain p where p: "p \<le> 8 + 8 * length bs" "q = k + p" "b # bs = mask_bytes (Suc (length bs)) p" by auto
    then show "?A \<or> ?B"
      unfolding mask_bytes_Suc using first_mask_byte(1) [of p]
      by (cases "p < 8") (auto intro!: exI [of _ p] exI [of _ "p - 8"])
  next
    assume "?A \<or> ?B"
    then show ?L
    proof
      assume ?A
      then obtain p where "p < 8" "q = k + p" "b = begin_byte p 0 0xFF" "bs = replicate (length bs) 0" by blast
      then have "b # bs = mask_bytes (Suc (length bs)) p" unfolding mask_bytes_Suc by simp
      with \<open>p < 8\<close> \<open>q = k + p\<close> show ?L by (intro exI [of _ p]) simp
    next
      assume ?B
      then obtain p where "p \<le> 8 * length bs" "q = k + 8 + p" "b = 0xFF" "bs = mask_bytes (length bs) p" by blast
      moreover from this have "b # bs = mask_bytes (Suc (length bs)) (8 + p)" unfolding mask_bytes_Suc by (simp add: first_mask_byte)
      ultimately show ?L by (intro exI [of _ "8 + p"]) simp
    qed
  qed
  have eight: "p < 8 \<longleftrightarrow> p = 0 \<or> p = 1 \<or> p = 2 \<or> p = 3 \<or> p = 4 \<or> p = 5 \<or> p = 6 \<or> p = 7" for p :: nat by linarith
  have ex8: "(\<exists>p < 8. P p) \<longleftrightarrow> P 0 \<or> P 1 \<or> P 2 \<or> P 3 \<or> P 4 \<or> P 5 \<or> P 6 \<or> P (7 :: nat)" for P
    unfolding eight by blast
  have scan: "scan_mask (b # bs) False k = Inr q \<longleftrightarrow>
      (b = 255 \<and> scan_mask bs False (k + 8) = Inr q) \<or>
      (b = 254 \<and> scan_mask bs True (k + 7) = Inr q) \<or> (b = 252 \<and> scan_mask bs True (k + 6) = Inr q) \<or>
      (b = 248 \<and> scan_mask bs True (k + 5) = Inr q) \<or> (b = 240 \<and> scan_mask bs True (k + 4) = Inr q) \<or>
      (b = 224 \<and> scan_mask bs True (k + 3) = Inr q) \<or> (b = 192 \<and> scan_mask bs True (k + 2) = Inr q) \<or>
      (b = 128 \<and> scan_mask bs True (k + 1) = Inr q) \<or> (b = 0 \<and> scan_mask bs True k = Inr q)"
    by simp
  have full: "(\<exists>p \<le> 8 * length bs. q = k + 8 + p \<and> b = 0xFF \<and> bs = mask_bytes (length bs) p) \<longleftrightarrow>
      b = 0xFF \<and> (\<exists>p \<le> 8 * length bs. q = k + 8 + p \<and> bs = mask_bytes (length bs) p)" by blast
  show ?case unfolding ex ex8 full scan Cons.IH scan_finished first_mask_byte add_0_right
    by (simp only: conj_commute conj_left_commute disj_commute disj_left_commute)
qed auto

lemma canonical_network: "prefix_length n \<le> 32 \<Longrightarrow> canonical n = Inr (Network_v4 (v4_network n) (prefix_length n))"
proof -
  assume "prefix_length n \<le> 32"
  then have "scan_mask (v4_to_bytes (netmask n)) False 0 = Inr (prefix_length n)"
    unfolding scan_mask_iff by (intro exI [of _ "prefix_length n"]) (simp add: netmask_bytes)
  then show ?thesis by (simp add: canonical_def network_of_mask_def)
qed

text \<open>
  A network is made from an address and a mask exactly when the mask is the one of some
  prefix length, which is then the network's; every other mask, with a gap in it, is refused
  with an exception. So the canonical form of a network, which is declared not to throw, does not.
\<close>

theorem masks_accepted:
  "(network_of_mask a m = Inr n \<longleftrightarrow> net_address n = a \<and> prefix_length n \<le> 32 \<and> netmask n = m) \<and>
   (prefix_length n \<le> 32 \<longrightarrow> canonical n = Inr (Network_v4 (v4_network n) (prefix_length n)))"
proof -
  have "v4_to_bytes m = mask_bytes 4 p \<longleftrightarrow> netmask (Network_v4 a p) = m" if "p \<le> 32" for p
    using that netmask_bytes [of "Network_v4 a p"] v4_inverse(3) by (metis network_v4.sel(2))
  moreover have "netmask n = netmask (Network_v4 a (prefix_length n))" by (simp add: netmask_def)
  moreover have "network_of_mask a m = Inr n \<longleftrightarrow> net_address n = a \<and> scan_mask (v4_to_bytes m) False 0 = Inr (prefix_length n)"
    by (cases n) (auto simp: network_of_mask_def map_sum_def split: sum.splits)
  ultimately show ?thesis using canonical_network by (auto simp: scan_mask_iff)
qed

lemma masks_accepted_witness:
  "canonical (Network_v4 (v4_of_bytes [10, 1, 2, 3]) 8) = Inr (Network_v4 (v4_network (Network_v4 (v4_of_bytes [10, 1, 2, 3]) 8)) 8) \<and>
   network_of_mask v4_any (v4_of_bytes [255, 0, 255, 0]) \<noteq> Inr (Network_v4 v4_any 8)"
proof -
  have "network_of_mask v4_any (v4_of_bytes [255, 0, 255, 0]) = Inl Std_invalid_argument" by (simp add: network_of_mask_def)
  then show ?thesis
    using masks_accepted [of v4_any "v4_of_bytes [255, 0, 255, 0]" "Network_v4 (v4_of_bytes [10, 1, 2, 3]) 8"] by simp
qed

section \<open>Networks as sets of addresses\<close>

definition members4 :: "network_v4 \<Rightarrow> address_v4 set" where
  "members4 n = {a. v4_network (Network_v4 a (prefix_length n)) = v4_network n}"

definition members6 :: "network_v6 \<Rightarrow> address_v6 set" where
  "members6 n = {a. v6_ok a \<and> v6_network (Network_v6 a (prefix6_length n)) = v6_network n}"

lemma members_blocks:
  "members4 n = net_block (\<lambda>_. True) (\<lambda>a p. v4_network (Network_v4 a p)) (net_address n) (prefix_length n)"
  "members6 m = net_block v6_ok (\<lambda>a p. v6_network (Network_v6 a p)) (net6_address m) (prefix6_length m)"
  by (simp_all add: members4_def members6_def net_block_def)

text \<open>
  C37. A network is a subnet of another, by the test of the code, exactly when its addresses are
  a proper subset of the other's; the test never throws. This holds for both versions.
\<close>

theorem subnets_are_subsets:
  assumes "prefix_length n \<le> 32" and "prefix_length m \<le> 32"
    and "prefix6_length n6 \<le> 128" and "prefix6_length m6 \<le> 128" and "v6_ok (net6_address n6)" and "v6_ok (net6_address m6)"
  shows "is_subnet_of n m = Inr (members4 n \<subset> members4 m) \<and> is_subnet_of6 n6 m6 = Inr (members6 n6 \<subset> members6 m6)"
proof
  have "is_subnet_of n m = Inr (prefix_length m < prefix_length n \<and>
      v4_network (Network_v4 (net_address n) (prefix_length m)) = v4_network (Network_v4 (net_address m) (prefix_length m)))"
    using assms(1,2) canonical_network by (auto simp: is_subnet_of_def network_of_prefix_def)
  then show "is_subnet_of n m = Inr (members4 n \<subset> members4 m)"
    unfolding members_blocks v4s.subnet_iff [OF TrueI TrueI assms(1,2), symmetric] .
  have "is_subnet_of6 n6 m6 = Inr (prefix6_length m6 < prefix6_length n6 \<and>
      v6_network (Network_v6 (net6_address n6) (prefix6_length m6)) = v6_network (Network_v6 (net6_address m6) (prefix6_length m6)))"
    using assms(3,4) by (auto simp: is_subnet_of6_def network6_of_prefix_def canonical6_def)
  then show "is_subnet_of6 n6 m6 = Inr (members6 n6 \<subset> members6 m6)"
    unfolding members_blocks v6s.subnet_iff [OF assms(5,6,3,4), symmetric] .
qed

lemma subnets_are_subsets_witness:
  "members4 (Network_v4 (v4_of_bytes [10, 1, 2, 3]) 16) \<subset> members4 (Network_v4 (v4_of_bytes [10, 9, 9, 9]) 8) \<and>
   is_subnet_of6 (Network_v6 v6_loopback 128) (Network_v6 v6_any 0) = Inr (members6 (Network_v6 v6_loopback 128) \<subset> members6 (Network_v6 v6_any 0))"
proof -
  have "v6_ok v6_loopback" "v6_ok v6_any" by (simp_all add: v6_ok_def v6_loopback_def v6_any_def)
  moreover have "is_subnet_of (Network_v4 (v4_of_bytes [10, 1, 2, 3]) 16) (Network_v4 (v4_of_bytes [10, 9, 9, 9]) 8) = Inr True"
    by code_simp
  ultimately show ?thesis
    using subnets_are_subsets [of "Network_v4 (v4_of_bytes [10, 1, 2, 3]) 16" "Network_v4 (v4_of_bytes [10, 9, 9, 9]) 8"
      "Network_v6 v6_loopback 128" "Network_v6 v6_any 0"] by simp
qed

section \<open>The hosts of a network\<close>

lemma v4_net_top: "prefix_length n \<le> 32 \<Longrightarrow> unat (v4_to_uint (v4_network n)) + 2 ^ (32 - prefix_length n) \<le> 2 ^ 32"
  using v4s.net_top [OF TrueI, of "prefix_length n" "net_address n"] by (cases n) simp

lemma broadcast_value:
  assumes "prefix_length n \<le> 32"
  shows "unat (v4_to_uint (net_broadcast n)) = unat (v4_to_uint (v4_network n)) + 2 ^ (32 - prefix_length n) - 1"
proof -
  let ?k = "32 - prefix_length n" and ?a = "v4_to_uint (net_address n)"
  have net: "v4_to_uint (v4_network n) = ?a AND NOT (mask ?k)" using assms by (simp add: v4_network_def netmask_uint)
  have "v4_to_uint (net_broadcast n) = (?a AND NOT (mask ?k)) OR mask ?k"
    using assms net by (simp add: net_broadcast_def netmask_uint all_ones)
  also have "\<dots> = (?a AND NOT (mask ?k)) + mask ?k"
    by (rule disjunctive_add_eq_or [symmetric]) (rule bit_word_eqI, auto simp: bit_and_iff bit_not_iff)
  finally have e: "v4_to_uint (net_broadcast n) = v4_to_uint (v4_network n) + mask ?k" by (simp add: net)
  have "mask ?k < (2 ^ 32 :: nat)" using power_increasing [of ?k 32 "2 :: nat"] by (simp add: mask_eq_exp_minus_1)
  moreover have "unat (mask ?k :: u32) = unat (of_nat (mask ?k) :: u32)" by (simp only: of_nat_mask_eq)
  moreover have "unat (of_nat m :: u32) = m mod 2 ^ 32" for m by (simp add: unsigned_of_nat take_bit_eq_mod)
  ultimately have "unat (mask ?k :: u32) = 2 ^ ?k - 1" by (simp only: mod_less) (simp add: mask_eq_exp_minus_1)
  then show ?thesis using v4_net_top [OF assms] unfolding e by (simp add: unat_word_ariths)
qed

text \<open>
  C38. What a loop over the hosts of a version 4 network visits: every address of the network but
  the network and the broadcast address, once each, and only the address itself when the prefix
  is 32 bits; the size of the range is the number of steps. The range of the host
  255.255.255.255 does not find its only element.
\<close>

theorem v4_hosts_visited:
  assumes "prefix_length n \<le> 32"
  shows "(\<exists>xs. visit v4_increment (begin4 (v4_hosts n)) (end4 (v4_hosts n)) = Some xs \<and> distinct xs \<and>
      length xs = unat (v4_range_size (v4_hosts n)) \<and>
      set xs = (if is_host n then {net_address n} else members4 n - {v4_network n, net_broadcast n})) \<and>
    (n = Network_v4 v4_broadcast 32 \<longrightarrow> v4_range_find (v4_hosts n) v4_broadcast = end4 (v4_hosts n) \<and> end4 (v4_hosts n) \<noteq> v4_broadcast)"
proof -
  let ?k = "2 ^ (32 - prefix_length n) :: nat" and ?b = "begin4 (v4_hosts n)" and ?e = "end4 (v4_hosts n)"
  let ?v = "\<lambda>a. unat (v4_to_uint a)"
  define c where "c = (if is_host n then 1 else ?k - 2)"
  note top = v4_net_top [OF assms] and top' = broadcast_value [OF assms]
  have k2: "2 \<le> ?k" if "\<not> is_host n" using that assms power_increasing [of 1 "32 - prefix_length n" "2 :: nat"]
    by (simp add: is_host_def)
  have b: "?b = net_address n" if "is_host n" using that by (simp add: v4_hosts_def)
  have b': "?v ?b = ?v (v4_network n) + 1" if "\<not> is_host n"
    using that top k2 by (simp add: v4_hosts_def unat_word_ariths)
  have less: "?v a < 2 ^ 32" for a using v4s.val_less [OF TrueI] .
  have c: "c < 2 ^ 32" "?v ?b + c \<le> 2 ^ 32" using top k2 b' less [of ?b] unfolding c_def by (cases "is_host n"; simp)+
  have e: "?v ?e = (?v ?b + c) mod 2 ^ 32"
  proof (cases "is_host n")
    case True
    then show ?thesis by (simp add: c_def v4_hosts_def unat_word_ariths)
  next
    case False
    then have "?v ?e = ?v ?b + c" using top' k2 b' by (simp add: v4_hosts_def c_def)
    with less [of ?e] show ?thesis by simp
  qed
  let ?xs = "map (\<lambda>i. (v4_increment ^^ i) ?b) [0..<c]"
  have v: "visit v4_increment ?b ?e = Some ?xs" "distinct ?xs" using v4s.visit_steps [OF TrueI TrueI refl e c(1)] by simp_all
  have "set ?xs = {a. ?v ?b \<le> ?v a \<and> ?v a < ?v ?b + c}" using v4s.visit_set [OF TrueI c(2)] by simp
  also have "\<dots> = (if is_host n then {net_address n} else members4 n - {v4_network n, net_broadcast n})"
  proof (cases "is_host n")
    case True
    have "?v a = ?v d \<longleftrightarrow> a = d" for a d by (simp flip: word_unat_eq_iff)
    then show ?thesis using True b by (force simp: c_def)
  next
    case False
    have m: "a \<in> members4 n \<longleftrightarrow> ?v (v4_network n) \<le> ?v a \<and> ?v a < ?v (v4_network n) + ?k" for a
      using v4s.in_block [OF TrueI assms, of a "net_address n"] by (cases n) (simp add: members_blocks)
    have "?v a = ?v d \<longleftrightarrow> a = d" for a d by (simp flip: word_unat_eq_iff)
    then have ends: "a = v4_network n \<longleftrightarrow> ?v a = ?v (v4_network n)" "a = net_broadcast n \<longleftrightarrow> ?v a = ?v (v4_network n) + ?k - 1" for a
      unfolding top' [symmetric] by blast+
    have "x + 1 \<le> y \<and> y < x + 1 + (k - 2) \<longleftrightarrow> x \<le> y \<and> y < x + k \<and> y \<noteq> x \<and> y \<noteq> x + k - 1" if "2 \<le> k" for x y k :: nat
      using that by linarith
    from this [OF k2 [OF False]] show ?thesis using False b' by (simp add: c_def set_eq_iff m ends)
  qed
  finally have "set ?xs = (if is_host n then {net_address n} else members4 n - {v4_network n, net_broadcast n})" .
  moreover have "unat (v4_range_size (v4_hosts n)) = c"
  proof -
    have "v4_to_uint ?e = v4_to_uint ?b + of_nat c" using e by (simp add: word_unat_eq_iff unat_word_ariths unsigned_of_nat take_bit_eq_mod mod_simps)
    then have "v4_to_uint ?e - v4_to_uint ?b = of_nat c" by simp
    then show ?thesis using c(1) by (simp add: v4_range_size_def unsigned_ucast_eq unsigned_of_nat take_bit_eq_mod)
  qed
  moreover have "v4_range_find (v4_hosts n) v4_broadcast = ?e \<and> ?e \<noteq> v4_broadcast" if "n = Network_v4 v4_broadcast 32"
    unfolding that by code_simp
  ultimately show ?thesis using v by (intro conjI exI [of _ ?xs]) simp_all
qed

lemma v4_hosts_visited_witness:
  "\<exists>xs. visit v4_increment (begin4 (v4_hosts (Network_v4 v4_loopback 31))) (end4 (v4_hosts (Network_v4 v4_loopback 31))) = Some xs \<and>
     set xs = members4 (Network_v4 v4_loopback 31) - {v4_network (Network_v4 v4_loopback 31), net_broadcast (Network_v4 v4_loopback 31)}"
  using v4_hosts_visited [of "Network_v4 v4_loopback 31"] by (auto simp: is_host_def)

text \<open>
  A loop over the hosts of a version 6 network visits all its addresses, once each; but the
  network of all addresses, whose range ends where it begins, seems to have none. In a range
  that ends with the last address of all, \<^verbatim>\<open>find\<close> finds nothing.
\<close>

theorem v6_hosts_visited:
  assumes "prefix6_length n \<le> 128" and "v6_ok (net6_address n)"
  shows "(\<exists>xs. visit v6_increment (begin6 (v6_hosts n)) (end6 (v6_hosts n)) = Some xs \<and> distinct xs \<and>
      set xs = (if prefix6_length n = 0 then {} else members6 n)) \<and>
    (v6_range_empty (v6_hosts n) \<longleftrightarrow> prefix6_length n = 0) \<and>
    (Address_v6 (replicate 16 0xFF) (scope_id (net6_address n)) \<in> members6 n \<and> a \<in> members6 n \<longrightarrow>
      v6_range_find (v6_hosts n) a = end6 (v6_hosts n))"
proof -
  let ?a = "net6_address n" and ?p = "prefix6_length n" and ?b = "begin6 (v6_hosts n)" and ?e = "end6 (v6_hosts n)"
  let ?v = "\<lambda>a. be_value (s6_addr a)" and ?k = "2 ^ (128 - prefix6_length n) :: nat"
  define c where "c = (if ?p = 0 then 0 else ?k)"
  have b: "?b = v6_network (Network_v6 ?a ?p)" by (simp add: v6_hosts_def v6_network_def Let_def)
  note net = v6s.net [OF assms(2,1), folded b] and top = v6s.net_top [OF assms(2,1), folded b]
  define l where "l = v6_of_bytes (on_bytes (end_byte ?p) (v6_to_bytes ?a)) (scope_id ?a)"
  have l: "v6_ok l" "scope_id l = scope_id ?a" "?v l = ?v ?b + ?k - 1" "?e = v6_increment l"
    using assms end_value [of ?p "s6_addr ?a"] net
    by (simp_all add: l_def v6_of_bytes_def v6_to_bytes_def v6_ok_def v6_hosts_def Let_def)
  have one: "1 \<le> ?k" by simp
  then have ve: "v6_ok ?e" "scope_id ?e = scope_id ?a" "?v ?e = (?v ?b + ?k) mod 2 ^ 128"
    using v6s.nxt [OF l(1)] l by simp_all
  have c: "c < 2 ^ 128" "?v ?b + c \<le> 2 ^ 128" "?v ?e = (?v ?b + c) mod 2 ^ 128"
  proof -
    have "?k < 2 ^ 128" if "?p \<noteq> 0" using that assms(1) by (intro power_strict_increasing) simp_all
    then show "c < 2 ^ 128" by (simp add: c_def)
    show "?v ?b + c \<le> 2 ^ 128" using top by (auto simp: c_def)
    show "?v ?e = (?v ?b + c) mod 2 ^ 128" using ve(3) by (simp add: c_def)
  qed
  let ?xs = "map (\<lambda>i. (v6_increment ^^ i) ?b) [0..<c]"
  have v: "visit v6_increment ?b ?e = Some ?xs" "distinct ?xs"
    using v6s.visit_steps [OF conjunct1 [OF net] ve(1) _ c(3,1)] net ve(2) by simp_all
  have in6: "x \<in> members6 n \<longleftrightarrow> v6_ok x \<and> scope_id x = scope_id ?a \<and> ?v ?b \<le> ?v x \<and> ?v x < ?v ?b + ?k" for x
    using v6s.in_block [OF assms(2,1), folded b] by (cases n) (simp add: members_blocks)
  have "set ?xs = {x. v6_ok x \<and> scope_id x = scope_id ?b \<and> ?v ?b \<le> ?v x \<and> ?v x < ?v ?b + c}"
    using v6s.visit_set [OF conjunct1 [OF net] c(2)] by simp
  also have "\<dots> = (if ?p = 0 then {} else members6 n)" using net by (auto simp: in6 c_def)
  finally have "set ?xs = (if ?p = 0 then {} else members6 n)" .
  moreover have "v6_range_empty (v6_hosts n) \<longleftrightarrow> ?p = 0"
  proof -
    have "?b = ?e \<longleftrightarrow> ?v ?b = ?v ?e" using v6s.val_inject [OF conjunct1 [OF net] ve(1)] net ve(2) by auto
    also have "\<dots> \<longleftrightarrow> c = 0" using c(3) v6s.val_less [OF conjunct1 [OF net]] c(1)
      by (auto simp: mod_if split: if_splits)
    finally show ?thesis by (simp add: v6_range_empty_def c_def)
  qed
  moreover have "v6_range_find (v6_hosts n) a = ?e"
    if last: "Address_v6 (replicate 16 0xFF) (scope_id ?a) \<in> members6 n" and a: "a \<in> members6 n"
  proof -
    have "(256 :: nat) ^ 16 - 1 < ?v ?b + ?k" using last by (simp add: in6 be_value_ones)
    then have "?v ?b + ?k = 2 ^ 128" using top unfolding pow16 by linarith
    then have z: "?v ?e = 0" using ve(3) by simp
    have la: "length (s6_addr a) = length (s6_addr ?e)" using a ve(1) by (simp add: in6 v6_ok_def)
    have "\<not> a < ?e"
    proof
      assume "a < ?e"
      then have "memcmp (s6_addr a) (s6_addr ?e) < 0 \<or> s6_addr a = s6_addr ?e \<and> scope_id a < scope_id ?e"
        by (auto simp: less_address_v6_def v6_less_def Let_def memcmp_eq split: if_splits)
      with memcmp_value [OF la] z a ve(2) show False by (simp add: in6)
    qed
    then show ?thesis by (simp add: v6_range_find_def)
  qed
  ultimately show ?thesis using v by (intro conjI exI [of _ ?xs]) simp_all
qed

lemma v6_hosts_visited_witness:
  "visit v6_increment (begin6 (v6_hosts (Network_v6 v6_any 0))) (end6 (v6_hosts (Network_v6 v6_any 0))) = Some [] \<and>
   v6_range_find (v6_hosts (Network_v6 v6_any 0)) v6_loopback = end6 (v6_hosts (Network_v6 v6_any 0))"
proof -
  have "v6_ok v6_any" "v6_ok v6_loopback" by (simp_all add: v6_ok_def v6_loopback_def v6_any_def)
  moreover have "Address_v6 (replicate 16 0xFF) (scope_id v6_any) \<in> members6 (Network_v6 v6_any 0)"
    "v6_loopback \<in> members6 (Network_v6 v6_any 0)"
    by (simp_all add: members6_def, code_simp, code_simp)
  ultimately show ?thesis using v6_hosts_visited [of "Network_v6 v6_any 0" v6_loopback] by auto
qed

end
