(* ===== verification/AsioNetworkText.thy ===== *)
theory AsioNetworkText
  imports AsioNetwork
begin

text \<open>
  Addresses and networks as text: \<^verbatim>\<open>inet_ntop\<close> of \<^verbatim>\<open>socket_ops.ipp\<close>, the \<^verbatim>\<open>to_string\<close> members
  of addresses and networks, and \<^verbatim>\<open>make_network_v4\<close> and \<^verbatim>\<open>make_network_v6\<close>. What the system's
  printer and parser of addresses answer are arguments, and so is what \<^verbatim>\<open>atoi\<close> makes of a number
  that does not fit an \<^verbatim>\<open>int\<close>, which C leaves undefined.

  Shown: networks are read back from their text, and what the strings that are accepted look like.
\<close>

section \<open>Printing\<close>

record ntop_answer =
  printed :: "string option"
  ntop_error :: u32

definition inet_ntop :: "int \<Rightarrow> ntop_answer \<Rightarrow> io_error \<Rightarrow> string option \<times> io_error" where
  "inet_ntop af ans ec =
     (if af \<noteq> AF_INET \<and> af \<noteq> AF_INET6 then (None, address_family_not_supported)
      else
        let ec1 = get_last_error ec (ntop_error ans) True
        in (printed ans,
            if printed ans \<noteq> None then no_error ec1
            else if printed ans = None \<and> \<not> failed ec1 then invalid_argument else ec1))"

definition v4_to_string :: "(address_v4 \<Rightarrow> ntop_answer) \<Rightarrow> address_v4 \<Rightarrow> cpp_exception + string" where
  "v4_to_string sys a =
     (case inet_ntop AF_INET (sys a) success of
        (None, ec) \<Rightarrow> Inl (System_error ec)
      | (Some s, ec) \<Rightarrow> Inr s)"

definition v6_to_string :: "(address_v6 \<Rightarrow> ntop_answer) \<Rightarrow> address_v6 \<Rightarrow> cpp_exception + string" where
  "v6_to_string sys a =
     (case inet_ntop AF_INET6 (sys a) success of
        (None, ec) \<Rightarrow> Inl (System_error ec)
      | (Some s, ec) \<Rightarrow> Inr s)"

text \<open>\<^verbatim>\<open>printf\<close> with \<^verbatim>\<open>%u\<close>.\<close>

fun print_u :: "nat \<Rightarrow> string" where
  "print_u n = (if n < 10 then [char_of (48 + n)] else print_u (n div 10) @ [char_of (48 + n mod 10)])"

declare print_u.simps [simp del]

definition network_v4_to_string :: "(address_v4 \<Rightarrow> ntop_answer) \<Rightarrow> network_v4 \<Rightarrow> cpp_exception + string" where
  "network_v4_to_string sys n =
     map_sum id (\<lambda>s. s @ CHR ''/'' # print_u (prefix_length n)) (v4_to_string sys (net_address n))"

definition network_v6_to_string :: "(address_v6 \<Rightarrow> ntop_answer) \<Rightarrow> network_v6 \<Rightarrow> cpp_exception + string" where
  "network_v6_to_string sys n =
     map_sum id (\<lambda>s. s @ CHR ''/'' # print_u (prefix6_length n)) (v6_to_string sys (net6_address n))"

section \<open>Parsing\<close>

definition is_digit :: "char \<Rightarrow> bool" where
  "is_digit c \<longleftrightarrow> c \<in> set ''0123456789''"

definition decimal :: "string \<Rightarrow> int" where
  "decimal s = foldl (\<lambda>n c. 10 * n + (of_char c - 48)) 0 s"

text \<open>Of a string of digits. \<open>big\<close>: the result when the number does not fit.\<close>

definition atoi :: "(string \<Rightarrow> int) \<Rightarrow> string \<Rightarrow> int" where
  "atoi big s = (if decimal s \<le> 2147483647 then decimal s else big s)"

text \<open>
  The function that both versions have: \<open>make_addr\<close> parses the address, \<open>most\<close> is the longest
  prefix, \<open>mk\<close> the constructor, which may throw, and \<open>dflt\<close> the default network.
\<close>

definition parse_network ::
  "(string \<Rightarrow> io_error \<Rightarrow> 'a \<times> io_error) \<Rightarrow> nat \<Rightarrow> ('a \<Rightarrow> nat \<Rightarrow> cpp_exception + 'n) \<Rightarrow> 'n \<Rightarrow> (string \<Rightarrow> int) \<Rightarrow>
    string \<Rightarrow> io_error \<Rightarrow> cpp_exception + 'n \<times> io_error" where
  "parse_network make_addr most mk dflt big str ec =
     (let pos = length (takeWhile (\<lambda>c. c \<noteq> CHR ''/'') str)
      in if pos = length str then Inr (dflt, invalid_argument)
         else if pos = length str - 1 then Inr (dflt, invalid_argument)
         else if \<exists>c \<in> set (drop (pos + 1) str). \<not> is_digit c then Inr (dflt, invalid_argument)
         else
           let (addr, ec1) = make_addr (take pos str) ec
           in if failed ec1 then Inr (dflt, ec1)
              else
                let prefix_len = atoi big (drop (pos + 1) str)
                in if prefix_len < 0 \<or> prefix_len > int most then Inr (dflt, invalid_argument)
                   else map_sum id (\<lambda>n. (n, ec1)) (mk addr (nat prefix_len)))"

definition make_network_v4 ::
  "byte list \<Rightarrow> (string \<Rightarrow> pton_answer) \<Rightarrow> (string \<Rightarrow> int) \<Rightarrow> string \<Rightarrow> io_error \<Rightarrow> cpp_exception + network_v4 \<times> io_error" where
  "make_network_v4 junk sys =
     parse_network (\<lambda>s. make_address_v4 junk s (sys s)) 32 network_of_prefix new_network_v4"

definition make_network_v6 ::
  "byte list \<Rightarrow> (string \<Rightarrow> pton_answer) \<Rightarrow> (string \<Rightarrow> int) \<Rightarrow> string \<Rightarrow> io_error \<Rightarrow> cpp_exception + network_v6 \<times> io_error" where
  "make_network_v6 junk sys =
     parse_network (\<lambda>s. make_address_v6 junk s (sys s)) 128 network6_of_prefix (Network_v6 v6_any 0)"

section \<open>Round trip\<close>

lemma decimal_snoc: "decimal (s @ [c]) = 10 * decimal s + (of_char c - 48)"
  by (simp add: decimal_def)

lemma digit_char:
  assumes "d < 10"
  shows "of_char (char_of (48 + d) :: char) = (48 + int d)" "is_digit (char_of (48 + d))"
proof -
  have "\<forall>d \<in> {0, 1, 2, 3, 4, 5, 6, 7, 8, 9}. of_char (char_of (48 + d) :: char) = 48 + int d \<and> is_digit (char_of (48 + d))"
    by code_simp
  moreover have "d \<in> {0, 1, 2, 3, 4, 5, 6, 7, 8, 9}" using assms by auto
  ultimately show "of_char (char_of (48 + d) :: char) = (48 + int d)" "is_digit (char_of (48 + d))" by blast+
qed

lemma print_u_ok: "print_u n \<noteq> [] \<and> (\<forall>c \<in> set (print_u n). is_digit c) \<and> decimal (print_u n) = int n"
proof (induction n rule: print_u.induct)
  case (1 n)
  show ?case
  proof (cases "n < 10")
    case True
    then show ?thesis using digit_char [of n] by (simp add: print_u.simps [of n] decimal_def)
  next
    case False
    then show ?thesis using 1 digit_char [of "n mod 10"]
      by (simp add: print_u.simps [of n] decimal_snoc) presburger
  qed
qed

lemma parse_printed:
  assumes "CHR ''/'' \<notin> set t" "make_addr t ec = (a, success)" "p \<le> most" "int most \<le> 2147483647" "mk a p = Inr n"
  shows "parse_network make_addr most mk dflt big (t @ CHR ''/'' # print_u p) ec = Inr (n, success)"
proof -
  have "takeWhile (\<lambda>c. c \<noteq> CHR ''/'') (t @ CHR ''/'' # print_u p) = t" using assms(1) by (induction t) auto
  moreover have "atoi big (print_u p) = int p" using print_u_ok [of p] assms(3,4) by (simp add: atoi_def)
  moreover have "\<not> failed success" by (simp add: failed_def success_def)
  ultimately show ?thesis using assms(2,3,5) print_u_ok [of p]
    by (auto simp: parse_network_def Let_def)
qed

lemma parse_refused:
  assumes "CHR ''/'' \<notin> set t" "failed (snd (make_addr t ec))"
  shows "\<exists>ec'. parse_network make_addr most mk dflt big (t @ CHR ''/'' # print_u p) ec = Inr (dflt, ec') \<and> failed ec'"
proof -
  have "takeWhile (\<lambda>c. c \<noteq> CHR ''/'') (t @ CHR ''/'' # print_u p) = t" using assms(1) by (induction t) auto
  then show ?thesis using assms(2) print_u_ok [of p] by (auto simp: parse_network_def Let_def split: prod.splits)
qed

lemma parsed_shape:
  assumes "parse_network make_addr most mk dflt big str ec = Inr (n, ec')" "\<not> failed ec'"
  shows "\<exists>pre ds a q. str = pre @ CHR ''/'' # ds \<and> CHR ''/'' \<notin> set pre \<and> ds \<noteq> [] \<and> (\<forall>c \<in> set ds. is_digit c) \<and>
    make_addr pre ec = (a, ec') \<and> q \<le> most \<and> mk a q = Inr n \<and> (int q = decimal ds \<or> 2147483647 < decimal ds)"
proof -
  let ?pos = "length (takeWhile (\<lambda>c. c \<noteq> CHR ''/'') str)"
  have bad: "failed invalid_argument" by (simp add: failed_def invalid_argument_def)
  obtain a ec1 where m: "make_addr (take ?pos str) ec = (a, ec1)" by (metis surj_pair)
  from assms m bad have c: "?pos \<noteq> length str" "?pos \<noteq> length str - 1" "\<forall>c \<in> set (drop (?pos + 1) str). is_digit c"
    "\<not> failed ec1" "0 \<le> atoi big (drop (?pos + 1) str)" "atoi big (drop (?pos + 1) str) \<le> int most"
    and n: "mk a (nat (atoi big (drop (?pos + 1) str))) = Inr n" "ec' = ec1"
    by (auto simp: parse_network_def Let_def not_less map_sum_def split: if_splits sum.splits)
  have "?pos < length str" using c(1) length_takeWhile_le [of _ str] by (meson le_neq_implies_less)
  then have "str = take ?pos str @ str ! ?pos # drop (?pos + 1) str" "str ! ?pos = CHR ''/''"
    using nth_length_takeWhile [of "\<lambda>c. c \<noteq> CHR ''/''" str] id_take_nth_drop [of ?pos str] by simp_all
  moreover have "CHR ''/'' \<notin> set (take ?pos str)" using set_takeWhileD [of "CHR ''/''" "\<lambda>c. c \<noteq> CHR ''/''" str] by (auto simp flip: takeWhile_eq_take)
  moreover have "drop (?pos + 1) str \<noteq> []" using c(1,2) \<open>?pos < length str\<close> by simp
  ultimately show ?thesis using c n m
    by (intro exI [of _ "take ?pos str"] exI [of _ "drop (?pos + 1) str"] exI [of _ a]
        exI [of _ "nat (atoi big (drop (?pos + 1) str))"]) (auto simp: atoi_def)
qed

text \<open>
  C39. Networks are read back from their text: if the system's parser reads the address that its
  printer wrote, and that text has no slash, \<^verbatim>\<open>make_network\<close> of \<^verbatim>\<open>to_string\<close> is the network, for
  both versions. Where the parser refuses what the printer wrote, as the code expects of
  255.255.255.255, reading gives the default network and an error, although \<^verbatim>\<open>inet_pton\<close> writes
  that address.
\<close>

theorem network_text_roundtrip:
  assumes "prefix_length n \<le> 32" and "printed (ntop (net_address n)) = Some t" and "CHR ''/'' \<notin> set t"
    and "parsed (pton t) = Some (v4_to_bytes (net_address n), scope)"
    and "prefix6_length n6 \<le> 128" and "printed (ntop6 (net6_address n6)) = Some t6" and "CHR ''/'' \<notin> set t6"
    and "parsed (pton6 t6) = Some (s6_addr (net6_address n6), scope_id (net6_address n6))" and "v6_ok (net6_address n6)"
  shows "(\<exists>str. network_v4_to_string ntop n = Inr str \<and> make_network_v4 junk pton big str success = Inr (n, success)) \<and>
    (\<exists>str. network_v6_to_string ntop6 n6 = Inr str \<and> make_network_v6 junk pton6 big str success = Inr (n6, success)) \<and>
    (printed (ntop (net_address m)) = Some u \<and> CHR ''/'' \<notin> set u \<and> parsed (pton u) = None \<longrightarrow>
      (\<exists>str ec. network_v4_to_string ntop m = Inr str \<and>
        make_network_v4 junk pton big str success = Inr (new_network_v4, ec) \<and> failed ec))"
proof -
  have ok: "no_error (System_category, e) = success" "no_error success = success" "\<not> failed success" for e
    by (simp_all add: no_error_def success_def failed_def)
  have fam: "AF_INET \<noteq> AF_INET6" "AF_INET6 \<noteq> AF_INET" by (simp_all add: AF_INET_def AF_INET6_def)
  have s: "network_v4_to_string ntop n = Inr (t @ CHR ''/'' # print_u (prefix_length n))"
    "network_v6_to_string ntop6 n6 = Inr (t6 @ CHR ''/'' # print_u (prefix6_length n6))"
    using assms(2,6) by (simp_all add: network_v4_to_string_def v4_to_string_def network_v6_to_string_def v6_to_string_def
        inet_ntop_def fam Let_def)
  have a: "make_address_v4 junk t (pton t) success = (net_address n, success)"
    "make_address_v6 junk t6 (pton6 t6) success = (net6_address n6, success)"
    using assms(4,8,9) by (simp_all add: make_address_v4_def make_address_v6_def inet_pton_def get_last_error_def fam ok Let_def
        v6_of_bytes_def v6_ok_def)
  have m: "network_of_prefix (net_address n) (prefix_length n) = Inr n"
    "network6_of_prefix (net6_address n6) (prefix6_length n6) = Inr n6"
    using assms(1,5) by (simp_all add: network_of_prefix_def network6_of_prefix_def)
  have "make_network_v4 junk pton big (t @ CHR ''/'' # print_u (prefix_length n)) success = Inr (n, success)"
    unfolding make_network_v4_def by (rule parse_printed) (use assms(1,3) a(1) m(1) in simp_all)
  moreover have "make_network_v6 junk pton6 big (t6 @ CHR ''/'' # print_u (prefix6_length n6)) success = Inr (n6, success)"
    unfolding make_network_v6_def by (rule parse_printed) (use assms(5,7) a(2) m(2) in simp_all)
  moreover have "\<exists>str ec. network_v4_to_string ntop m = Inr str \<and>
      make_network_v4 junk pton big str success = Inr (new_network_v4, ec) \<and> failed ec"
    if u: "printed (ntop (net_address m)) = Some u" "CHR ''/'' \<notin> set u" "parsed (pton u) = None"
  proof -
    have "network_v4_to_string ntop m = Inr (u @ CHR ''/'' # print_u (prefix_length m))"
      using u(1) by (simp add: network_v4_to_string_def v4_to_string_def inet_ntop_def Let_def)
    moreover have "failed (snd (make_address_v4 junk u (pton u) success))" using u(3)
      by (auto simp: make_address_v4_def inet_pton_def get_last_error_def Let_def failed_def invalid_argument_def)
    ultimately show ?thesis using parse_refused [OF u(2)] unfolding make_network_v4_def by fastforce
  qed
  ultimately show ?thesis using s by blast
qed

text \<open>10.0.0.1/24, ::1/64, and 255.255.255.255/32, which this system prints but does not read.\<close>

definition some_ntop :: "address_v4 \<Rightarrow> ntop_answer" where
  "some_ntop a = \<lparr>printed = Some (if a = v4_broadcast then ''255.255.255.255'' else ''10.0.0.1''), ntop_error = 0\<rparr>"

definition some_pton :: "string \<Rightarrow> pton_answer" where
  "some_pton s = (if s = ''10.0.0.1'' then \<lparr>parsed = Some ([10, 0, 0, 1], 0), wsa_error = 0\<rparr>
     else \<lparr>parsed = None, wsa_error = 10022\<rparr>)"

lemma network_text_roundtrip_witness:
  "(\<exists>str. network_v4_to_string some_ntop (Network_v4 (v4_of_bytes [10, 0, 0, 1]) 24) = Inr str \<and>
     make_network_v4 [] some_pton (\<lambda>_. 0) str success = Inr (Network_v4 (v4_of_bytes [10, 0, 0, 1]) 24, success)) \<and>
   (\<exists>str. network_v6_to_string (\<lambda>_. \<lparr>printed = Some ''::1'', ntop_error = 0\<rparr>) (Network_v6 v6_loopback 64) = Inr str \<and>
     make_network_v6 [] (\<lambda>_. \<lparr>parsed = Some (s6_addr v6_loopback, 0), wsa_error = 0\<rparr>) (\<lambda>_. 0) str success =
       Inr (Network_v6 v6_loopback 64, success)) \<and>
   (\<exists>str ec. network_v4_to_string some_ntop (Network_v4 v4_broadcast 32) = Inr str \<and>
     make_network_v4 [] some_pton (\<lambda>_. 0) str success = Inr (new_network_v4, ec) \<and> failed ec)"
proof -
  have "v4_of_bytes [10, 0, 0, 1] \<noteq> v4_broadcast" by code_simp
  then have p: "printed (some_ntop (v4_of_bytes [10, 0, 0, 1])) = Some ''10.0.0.1''"
    "printed (some_ntop v4_broadcast) = Some ''255.255.255.255''" "parsed (some_pton ''10.0.0.1'') = Some ([10, 0, 0, 1], 0)"
    "parsed (some_pton ''255.255.255.255'') = None"
    by (simp_all add: some_ntop_def some_pton_def)
  have six: "v6_ok v6_loopback" "scope_id v6_loopback = 0" by (simp_all add: v6_ok_def v6_loopback_def v6_any_def)
  from network_text_roundtrip [of "Network_v4 (v4_of_bytes [10, 0, 0, 1]) 24" some_ntop "''10.0.0.1''" some_pton 0
      "Network_v6 v6_loopback 64" "\<lambda>_. \<lparr>printed = Some ''::1'', ntop_error = 0\<rparr>" "''::1''"
      "\<lambda>_. \<lparr>parsed = Some (s6_addr v6_loopback, 0), wsa_error = 0\<rparr>" "[]" "\<lambda>_. 0"
      "Network_v4 v4_broadcast 32" "''255.255.255.255''"] p six
  show ?thesis by simp
qed

text \<open>A string that is accepted is an address the system reads, a slash and a number within bounds.\<close>

lemma accepted_network_text:
  assumes "make_network_v4 junk pton big str ec = Inr (n, ec')" and "\<not> failed ec'"
  shows "\<exists>pre ds. str = pre @ CHR ''/'' # ds \<and> ds \<noteq> [] \<and> (\<forall>c \<in> set ds. is_digit c) \<and> parsed (pton pre) \<noteq> None \<and>
    prefix_length n \<le> 32 \<and> (int (prefix_length n) = decimal ds \<or> 2147483647 < decimal ds)"
proof -
  from parsed_shape [OF assms(1) [unfolded make_network_v4_def] assms(2)] obtain pre ds a q where
    d: "str = pre @ CHR ''/'' # ds" "ds \<noteq> []" "\<forall>c \<in> set ds. is_digit c" "q \<le> 32" "int q = decimal ds \<or> 2147483647 < decimal ds"
    and a: "make_address_v4 junk pre (pton pre) ec = (a, ec')" and n: "network_of_prefix a q = Inr n" by auto
  have "failed (snd (make_address_v4 junk pre ans ec))" if "parsed ans = None" for ans
    using that by (auto simp: make_address_v4_def inet_pton_def get_last_error_def Let_def failed_def invalid_argument_def split: option.splits)
  with a assms(2) have "parsed (pton pre) \<noteq> None" by (metis snd_conv)
  with d n show ?thesis by (intro exI [of _ pre] exI [of _ ds]) (auto simp: network_of_prefix_def split: if_splits)
qed

end
