(* ===== verification/AsioEndpoint.thy ===== *)
theory AsioEndpoint
  imports AsioAddress
begin

text \<open>
  Endpoints, an address and a port: \<^verbatim>\<open>asio/ip/detail/endpoint.hpp\<close> and its implementation. An
  endpoint is the bytes of a union of \<^verbatim>\<open>sockaddr\<close>, \<^verbatim>\<open>sockaddr_in\<close> and \<^verbatim>\<open>sockaddr_in6\<close>, 28 of
  them; the system reads and writes those bytes.

  Shown: the members read back what was written, in the layout of the system's structures, and
  comparing endpoints compares addresses and ports.
\<close>

section \<open>Fields of a structure in memory\<close>

definition get_field :: "nat \<Rightarrow> nat \<Rightarrow> byte list \<Rightarrow> byte list" where
  "get_field off n d = take n (drop off d)"

definition put_field :: "nat \<Rightarrow> byte list \<Rightarrow> byte list \<Rightarrow> byte list" where
  "put_field off bs d = take off d @ bs @ drop (off + length bs) d"

lemma length_put_field [simp]: "off + length bs \<le> length d \<Longrightarrow> length (put_field off bs d) = length d"
  by (simp add: put_field_def)

lemma get_put_same [simp]: "off + length bs \<le> length d \<Longrightarrow> n = length bs \<Longrightarrow> get_field off n (put_field off bs d) = bs"
  by (simp add: get_field_def put_field_def)

lemma get_put_other [simp]:
  assumes "off + length bs \<le> length d" "o2 + n \<le> off \<or> off + length bs \<le> o2"
  shows "get_field o2 n (put_field off bs d) = get_field o2 n d"
proof (rule nth_equalityI)
  show "length (get_field o2 n (put_field off bs d)) = length (get_field o2 n d)"
    using assms by (simp add: get_field_def)
  fix i assume "i < length (get_field o2 n (put_field off bs d))"
  then show "get_field o2 n (put_field off bs d) ! i = get_field o2 n d ! i"
    using assms by (auto simp: get_field_def put_field_def nth_append nth_Cons split: nat.splits)
qed

text \<open>\<open>sa_family\<close>, \<open>sin_port\<close> and \<open>sin6_port\<close> are the first fields of every structure.\<close>

definition sa_family :: "byte list \<Rightarrow> u16" where "sa_family d = of_le_bytes (get_field 0 2 d)"
definition sin_port :: "byte list \<Rightarrow> u16" where "sin_port d = of_le_bytes (get_field 2 2 d)"
definition sin_addr :: "byte list \<Rightarrow> u32" where "sin_addr d = of_le_bytes (get_field 4 4 d)"
definition sin6_addr :: "byte list \<Rightarrow> byte list" where "sin6_addr d = get_field 8 16 d"
definition sin6_scope_id :: "byte list \<Rightarrow> u32" where "sin6_scope_id d = of_le_bytes (get_field 24 4 d)"

definition set_family :: "u16 \<Rightarrow> byte list \<Rightarrow> byte list" where "set_family f = put_field 0 (le_bytes 2 f)"
definition set_port :: "u16 \<Rightarrow> byte list \<Rightarrow> byte list" where "set_port p = put_field 2 (le_bytes 2 p)"
definition set_addr :: "u32 \<Rightarrow> byte list \<Rightarrow> byte list" where "set_addr a = put_field 4 (le_bytes 4 a)"
definition set_flowinfo :: "u32 \<Rightarrow> byte list \<Rightarrow> byte list" where "set_flowinfo f = put_field 4 (le_bytes 4 f)"
definition set_addr6 :: "byte list \<Rightarrow> byte list \<Rightarrow> byte list" where "set_addr6 bs = put_field 8 bs"
definition set_scope :: "u32 \<Rightarrow> byte list \<Rightarrow> byte list" where "set_scope s = put_field 24 (le_bytes 4 s)"

lemmas field_defs = sa_family_def sin_port_def sin_addr_def sin6_addr_def sin6_scope_id_def
  set_family_def set_port_def set_addr_def set_flowinfo_def set_addr6_def set_scope_def

section \<open>Endpoints\<close>

datatype endpoint = Endpoint (ep_data: "byte list")

definition ep_ok :: "endpoint \<Rightarrow> bool" where
  "ep_ok e \<longleftrightarrow> length (ep_data e) = 28"

definition new_endpoint :: endpoint where
  "new_endpoint = Endpoint (set_addr 0 (set_port 0 (set_family 2 (replicate 28 0))))"

definition endpoint_of_family :: "int \<Rightarrow> u16 \<Rightarrow> endpoint" where
  "endpoint_of_family family port_num =
     (if family = AF_INET
      then Endpoint (set_addr 0 (set_port (host_to_network_short port_num) (set_family 2 (replicate 28 0))))
      else Endpoint (set_scope 0 (set_addr6 (replicate 16 0) (set_flowinfo 0
             (set_port (host_to_network_short port_num) (set_family 23 (replicate 28 0)))))))"

text \<open>The conversions are made only to the version that the address has.\<close>

definition endpoint_of_address :: "address \<Rightarrow> u16 \<Rightarrow> endpoint" where
  "endpoint_of_address addr port_num =
     (if AsioAddress.is_v4 addr
      then Endpoint (set_addr (host_to_network_long (v4_to_uint (ipv4_address addr)))
             (set_port (host_to_network_short port_num) (set_family 2 (replicate 28 0))))
      else Endpoint (set_scope (scope_id (ipv6_address addr)) (set_addr6 (v6_to_bytes (ipv6_address addr)) (set_flowinfo 0
             (set_port (host_to_network_short port_num) (set_family 23 (replicate 28 0)))))))"

definition ep_is_v4 :: "endpoint \<Rightarrow> bool" where
  "ep_is_v4 e \<longleftrightarrow> sa_family (ep_data e) = 2"

definition ep_size :: "endpoint \<Rightarrow> nat" where
  "ep_size e = (if ep_is_v4 e then 16 else 28)"

definition ep_capacity :: "endpoint \<Rightarrow> nat" where
  "ep_capacity e = 28"

text \<open>\<^verbatim>\<open>sockaddr_storage\<close> has 128 bytes.\<close>

definition ep_resize :: "endpoint \<Rightarrow> nat \<Rightarrow> cpp_exception + endpoint" where
  "ep_resize e new_size = (if new_size > 128 then Inl (System_error invalid_argument) else Inr e)"

definition ep_port :: "endpoint \<Rightarrow> u16" where
  "ep_port e = (if ep_is_v4 e then network_to_host_short (sin_port (ep_data e)) else network_to_host_short (sin_port (ep_data e)))"

definition ep_set_port :: "endpoint \<Rightarrow> u16 \<Rightarrow> endpoint" where
  "ep_set_port e port_num =
     (if ep_is_v4 e then Endpoint (set_port (host_to_network_short port_num) (ep_data e))
      else Endpoint (set_port (host_to_network_short port_num) (ep_data e)))"

definition ep_address :: "endpoint \<Rightarrow> address" where
  "ep_address e =
     (if ep_is_v4 e then address_of_v4 (v4_of_uint (network_to_host_long (sin_addr (ep_data e))))
      else address_of_v6 (v6_of_bytes (sin6_addr (ep_data e)) (sin6_scope_id (ep_data e))))"

definition ep_set_address :: "endpoint \<Rightarrow> address \<Rightarrow> endpoint" where
  "ep_set_address e addr = endpoint_of_address addr (ep_port e)"

definition ep_eq :: "endpoint \<Rightarrow> endpoint \<Rightarrow> bool" where
  "ep_eq e1 e2 \<longleftrightarrow> address_eq (ep_address e1) (ep_address e2) \<and> ep_port e1 = ep_port e2"

definition ep_less :: "endpoint \<Rightarrow> endpoint \<Rightarrow> bool" where
  "ep_less e1 e2 =
     (if address_less (ep_address e1) (ep_address e2) then True
      else if \<not> address_eq (ep_address e1) (ep_address e2) then False
      else ep_port e1 < ep_port e2)"

section \<open>Reading back\<close>

lemma ports_same: "ep_port e = network_to_host_short (sin_port (ep_data e))"
  "ep_set_port e p = Endpoint (set_port (host_to_network_short p) (ep_data e))"
  by (simp_all add: ep_port_def ep_set_port_def)

lemma of_family_bytes [simp]: "of_le_bytes (le_bytes 2 (f :: u16)) = f" "of_le_bytes (le_bytes 4 (a :: u32)) = a"
  by simp_all

lemma endpoint_of_v4:
  "ep_ok (endpoint_of_address (address_of_v4 a) p)" "ep_is_v4 (endpoint_of_address (address_of_v4 a) p)"
  "ep_port (endpoint_of_address (address_of_v4 a) p) = p" "ep_address (endpoint_of_address (address_of_v4 a) p) = address_of_v4 a"
  by (simp_all add: endpoint_of_address_def address_of_v4_def is_v4_def ep_ok_def ep_is_v4_def ports_same ep_address_def field_defs)

lemma endpoint_of_v6:
  assumes "v6_ok b"
  shows "ep_ok (endpoint_of_address (address_of_v6 b) p)" "\<not> ep_is_v4 (endpoint_of_address (address_of_v6 b) p)"
    "ep_port (endpoint_of_address (address_of_v6 b) p) = p" "ep_address (endpoint_of_address (address_of_v6 b) p) = address_of_v6 b"
  using assms by (simp_all add: endpoint_of_address_def address_of_v6_def is_v4_def ep_ok_def ep_is_v4_def ports_same ep_address_def
      field_defs v6_to_bytes_def v6_of_bytes_def v6_ok_def)

lemma ep_address_made: "ep_ok e \<Longrightarrow> made (ep_address e)"
  by (simp add: ep_address_def ep_ok_def v6_ok_def v6_of_bytes_def sin6_addr_def get_field_def made.intros)

text \<open>
  An endpoint made from an address and a port has them, in 28 bytes laid out as the system
  reads them; setting the port keeps the address, setting the address keeps the port; and two
  endpoints compare like their addresses, and then their ports: equality of endpoints is equality of
  both, and the order is a strict linear order of the pairs.
\<close>

theorem endpoint_fields:
  assumes "made a" and "made b" and "ep_ok d" and "ep_ok e"
  shows "ep_ok (endpoint_of_address a p) \<and> ep_address (endpoint_of_address a p) = a \<and> ep_port (endpoint_of_address a p) = p \<and>
    ep_address (ep_set_port e p) = ep_address e \<and> ep_port (ep_set_port e p) = p \<and>
    ep_address (ep_set_address e a) = a \<and> ep_port (ep_set_address e a) = ep_port e \<and>
    (ep_eq d e \<longleftrightarrow> ep_address d = ep_address e \<and> ep_port d = ep_port e) \<and>
    (ep_eq d e \<or> ep_less d e \<or> ep_less e d) \<and> \<not> (ep_less d e \<and> ep_less e d) \<and> \<not> (ep_less d e \<and> ep_eq d e)"
proof -
  have new: "ep_ok (endpoint_of_address a p) \<and> ep_address (endpoint_of_address a p) = a \<and> ep_port (endpoint_of_address a p) = p" for p
    using assms(1) endpoint_of_v4 endpoint_of_v6 unfolding made_cases by auto
  have port: "ep_address (ep_set_port e p) = ep_address e \<and> ep_port (ep_set_port e p) = p"
    using assms(4) by (simp add: ep_ok_def ports_same ep_address_def ep_is_v4_def field_defs)
  note order = address_order [OF ep_address_made [OF assms(3)] ep_address_made [OF assms(4)]]
    address_order [OF ep_address_made [OF assms(4)] ep_address_made [OF assms(3)]]
    address_order [OF ep_address_made [OF assms(4)] ep_address_made [OF assms(4)]]
  have cmp: "(ep_eq d e \<longleftrightarrow> ep_address d = ep_address e \<and> ep_port d = ep_port e) \<and>
    (ep_eq d e \<or> ep_less d e \<or> ep_less e d) \<and> \<not> (ep_less d e \<and> ep_less e d) \<and> \<not> (ep_less d e \<and> ep_eq d e)"
  proof (cases "ep_address d = ep_address e")
    case True
    with order linear(1,2) [of "ep_port d" "ep_port e"] linear(3) [of "ep_port e"] show ?thesis
      by (auto simp: ep_eq_def ep_less_def)
  next
    case False
    with order show ?thesis by (auto simp: ep_eq_def ep_less_def)
  qed
  have "ep_address (ep_set_address e a) = a \<and> ep_port (ep_set_address e a) = ep_port e" using new by (simp add: ep_set_address_def)
  with new port cmp show ?thesis by blast
qed

lemma endpoint_fields_witness:
  "ep_address (ep_set_port (endpoint_of_address (address_of_v4 v4_loopback) 80) 60000) = address_of_v4 v4_loopback \<and>
   ep_port (ep_set_port (endpoint_of_address (address_of_v4 v4_loopback) 80) 60000) = 60000 \<and>
   ep_less new_endpoint (endpoint_of_address (address_of_v4 v4_loopback) 80)"
proof -
  let ?e = "endpoint_of_address (address_of_v4 v4_loopback) 80"
  have m: "made (address_of_v4 v4_loopback)" by (rule made.intros)
  have "ep_ok new_endpoint" by code_simp
  moreover have ok: "ep_ok ?e" by (rule endpoint_of_v4)
  moreover have "ep_less new_endpoint ?e" by code_simp
  ultimately show ?thesis
    using endpoint_fields [OF m m _ ok, of new_endpoint 60000] by (simp add: endpoint_of_v4)
qed

end
