(* ===== verification/AsioResolver.thy ===== *)
theory AsioResolver
  imports AsioConnect AsioEndpoint
begin

text \<open>
  Name resolution as \<^verbatim>\<open>Client::Connect\<close> uses it: \<^verbatim>\<open>basic_resolver.hpp\<close>, the query and the
  results with their iterators (\<^verbatim>\<open>basic_resolver_query.hpp\<close>, \<^verbatim>\<open>basic_resolver_results.hpp\<close>,
  \<^verbatim>\<open>basic_resolver_iterator.hpp\<close>), \<^verbatim>\<open>resolver_service.hpp\<close>, and \<^verbatim>\<open>getaddrinfo\<close> of
  \<^verbatim>\<open>socket_ops.ipp\<close>. What the system's \<^verbatim>\<open>getaddrinfo\<close> answers is an argument.

  Shown: which entries a resolution has, when walking them stays inside the vector, and that
  connecting to the results tries their endpoints in the order the system gave them.
\<close>

section \<open>The system's answer\<close>

record addrinfo =
  ai_family :: int
  ai_addr :: "byte list"
  ai_canonname :: "string option"

text \<open>\<open>ai_addrlen\<close> is the length of \<open>ai_addr\<close>. The answer: the value returned, the list, the last error.\<close>

definition ai_addrlen :: "addrinfo \<Rightarrow> nat" where
  "ai_addrlen ai = length (ai_addr ai)"

record hints =
  hint_flags :: int
  hint_family :: int
  hint_socktype :: int
  hint_protocol :: int

type_synonym getaddrinfo_call = "string option \<Rightarrow> string option \<Rightarrow> hints \<Rightarrow> int \<times> addrinfo list \<times> u32"

definition host_not_found :: io_error where "host_not_found = (System_category, 11001)"
definition host_not_found_try_again :: io_error where "host_not_found_try_again = (System_category, 11002)"
definition no_recovery :: io_error where "no_recovery = (System_category, 11003)"
definition service_not_found :: io_error where "service_not_found = (System_category, 10109)"
definition socket_type_not_supported :: io_error where "socket_type_not_supported = (System_category, 10044)"
definition no_memory :: io_error where "no_memory = (System_category, 14)"

text \<open>The numbers \<^verbatim>\<open>EAI_AGAIN\<close> and so on have in \<^verbatim>\<open>ws2tcpip.h\<close>.\<close>

definition translate_addrinfo_error :: "int \<Rightarrow> u32 \<Rightarrow> io_error" where
  "translate_addrinfo_error error last_err =
     (if error = 0 then success
      else if error = 11002 then host_not_found_try_again
      else if error = 10022 then invalid_argument
      else if error = 11003 then no_recovery
      else if error = 10047 then address_family_not_supported
      else if error = 8 then no_memory
      else if error = 11001 then host_not_found
      else if error = 10109 then service_not_found
      else if error = 10044 then socket_type_not_supported
      else (System_category, last_err))"

definition getaddrinfo :: "getaddrinfo_call \<Rightarrow> string \<Rightarrow> string \<Rightarrow> hints \<Rightarrow> addrinfo list \<times> io_error" where
  "getaddrinfo sys host service h =
     (let host' = (if host \<noteq> [] then Some host else None);
          service' = (if service \<noteq> [] then Some service else None);
          (error, ais, last_err) = sys host' service' h
      in (ais, translate_addrinfo_error error last_err))"

definition background_getaddrinfo :: "bool \<Rightarrow> getaddrinfo_call \<Rightarrow> string \<Rightarrow> string \<Rightarrow> hints \<Rightarrow> addrinfo list \<times> io_error" where
  "background_getaddrinfo expired sys host service h =
     (if expired then ([], operation_aborted) else getaddrinfo sys host service h)"

section \<open>Queries\<close>

record query =
  q_hints :: hints
  q_host :: string
  q_service :: string

text \<open>A stream socket of TCP.\<close>

definition new_query :: "string \<Rightarrow> string \<Rightarrow> int \<Rightarrow> query" where
  "new_query host service resolve_flags =
     \<lparr>q_hints = \<lparr>hint_flags = resolve_flags, hint_family = 0, hint_socktype = 1, hint_protocol = 6\<rparr>,
      q_host = host, q_service = service\<rparr>"

definition new_query_protocol :: "int \<Rightarrow> string \<Rightarrow> string \<Rightarrow> int \<Rightarrow> query" where
  "new_query_protocol family host service resolve_flags =
     \<lparr>q_hints = \<lparr>hint_flags = resolve_flags, hint_family = family, hint_socktype = 1, hint_protocol = 6\<rparr>,
      q_host = host, q_service = service\<rparr>"

section \<open>Results and iterators\<close>

record entry =
  entry_endpoint :: endpoint
  entry_host :: string
  entry_service :: string

text \<open>
  A result is an iterator at the beginning: a shared pointer to the vector, given by a number
  that identifies the vector and its elements, and an index.
\<close>

record iterator =
  vals :: "(nat \<times> entry list) option"
  index :: nat

definition end_iterator :: iterator where
  "end_iterator = \<lparr>vals = None, index = 0\<rparr>"

text \<open>The new iterator, and what is left of the other.\<close>

definition move_iterator :: "iterator \<Rightarrow> iterator \<times> iterator" where
  "move_iterator other = (\<lparr>vals = vals other, index = index other\<rparr>, \<lparr>vals = None, index = 0\<rparr>)"

definition increment :: "iterator \<Rightarrow> iterator result" where
  "increment it =
     (case vals it of
        None \<Rightarrow> Inl Null_pointer
      | Some (_, es) \<Rightarrow>
          if index it + 1 = length es then Inr \<lparr>vals = None, index = 0\<rparr> else Inr (it\<lparr>index := index it + 1\<rparr>))"

definition it_equal :: "iterator \<Rightarrow> iterator \<Rightarrow> bool" where
  "it_equal it other =
     (if vals it = None \<and> vals other = None then True
      else if map_option fst (vals it) \<noteq> map_option fst (vals other) then False
      else index it = index other)"

definition dereference :: "iterator \<Rightarrow> entry result" where
  "dereference it =
     (case vals it of
        None \<Rightarrow> Inl Null_pointer
      | Some (_, es) \<Rightarrow> if index it < length es then Inr (es ! index it) else Inl Out_of_range)"

definition results_size :: "iterator \<Rightarrow> nat" where
  "results_size r = (case vals r of None \<Rightarrow> 0 | Some (_, es) \<Rightarrow> length es)"

definition results_empty :: "iterator \<Rightarrow> bool" where
  "results_empty r = (case vals r of None \<Rightarrow> True | Some (_, es) \<Rightarrow> es = [])"

definition results_begin :: "iterator \<Rightarrow> iterator" where
  "results_begin r = r\<lparr>index := 0\<rparr>"

definition results_end :: iterator where
  "results_end = end_iterator"

section \<open>Resolving\<close>

text \<open>
  The loop over the answer of the system. Copying a structure longer than the endpoint's union
  writes behind it; \<open>ep_resize\<close> only stops lengths that do not fit a \<^verbatim>\<open>sockaddr_storage\<close>.
\<close>

definition copy_in :: "endpoint \<Rightarrow> byte list \<Rightarrow> endpoint result" where
  "copy_in e bs = (if length bs \<le> ep_capacity e then Inr (Endpoint (put_field 0 bs (ep_data e))) else Inl Out_of_range)"

fun push_entries :: "string \<Rightarrow> string \<Rightarrow> addrinfo list \<Rightarrow> entry list \<Rightarrow> (cpp_exception + entry list) result" where
  "push_entries host service [] es = Inr (Inr es)"
| "push_entries host service (ai # ais) es =
     (if ai_family ai = AF_INET \<or> ai_family ai = AF_INET6
      then
        case ep_resize new_endpoint (ai_addrlen ai) of
          Inl ex \<Rightarrow> Inr (Inl ex)
        | Inr e \<Rightarrow>
            and_then (copy_in e (ai_addr ai)) (\<lambda>e'.
              push_entries host service ais (es @ [\<lparr>entry_endpoint = e', entry_host = host, entry_service = service\<rparr>]))
      else push_entries host service ais es)"

text \<open>\<open>v\<close> identifies the new vector.\<close>

definition create_results :: "nat \<Rightarrow> addrinfo list \<Rightarrow> string \<Rightarrow> string \<Rightarrow> (cpp_exception + iterator) result" where
  "create_results v ais host service =
     (case ais of
        [] \<Rightarrow> Inr (Inr end_iterator)
      | ai # _ \<Rightarrow>
          let actual_host = (case ai_canonname ai of Some c \<Rightarrow> c | None \<Rightarrow> host)
          in and_then (push_entries actual_host service ais []) (\<lambda>r.
               Inr (map_sum id (\<lambda>es. \<lparr>vals = Some (v, es), index = 0\<rparr>) r)))"

definition create_from_endpoint :: "nat \<Rightarrow> endpoint \<Rightarrow> string \<Rightarrow> string \<Rightarrow> iterator" where
  "create_from_endpoint v e host service =
     \<lparr>vals = Some (v, [\<lparr>entry_endpoint = e, entry_host = host, entry_service = service\<rparr>]), index = 0\<rparr>"

definition create_from_range :: "nat \<Rightarrow> endpoint list \<Rightarrow> string \<Rightarrow> string \<Rightarrow> iterator" where
  "create_from_range v eps host service =
     (if eps \<noteq> []
      then \<lparr>vals = Some (v, map (\<lambda>e. \<lparr>entry_endpoint = e, entry_host = host, entry_service = service\<rparr>) eps), index = 0\<rparr>
      else end_iterator)"

definition service_resolve :: "getaddrinfo_call \<Rightarrow> nat \<Rightarrow> query \<Rightarrow> (cpp_exception + iterator \<times> io_error) result" where
  "service_resolve sys v q =
     (let (ais, ec) = getaddrinfo sys (q_host q) (q_service q) (q_hints q)
      in if failed ec then Inr (Inr (end_iterator, ec))
         else and_then (create_results v ais (q_host q) (q_service q)) (\<lambda>r. Inr (map_sum id (\<lambda>it. (it, ec)) r)))"

text \<open>\<^verbatim>\<open>resolver.resolve(host, service)\<close>, which throws.\<close>

definition resolve_flags :: "getaddrinfo_call \<Rightarrow> nat \<Rightarrow> string \<Rightarrow> string \<Rightarrow> int \<Rightarrow> (cpp_exception + iterator) result" where
  "resolve_flags sys v host service flags =
     and_then (service_resolve sys v (new_query host service flags)) (\<lambda>r.
       Inr (case r of Inl ex \<Rightarrow> Inl ex | Inr (it, ec) \<Rightarrow> if failed ec then Inl (System_error ec) else Inr it))"

definition resolve :: "getaddrinfo_call \<Rightarrow> nat \<Rightarrow> string \<Rightarrow> string \<Rightarrow> (cpp_exception + iterator) result" where
  "resolve sys v host service = resolve_flags sys v host service 0"

text \<open>A loop \<^verbatim>\<open>for (it = r.begin(); it != r.end(); ++it)\<close> that reads the entries.\<close>

partial_function (option) walk :: "iterator \<Rightarrow> entry list result option" where
  "walk it =
     (if it_equal it results_end then Some (Inr [])
      else
        case dereference it of
          Inl f \<Rightarrow> Some (Inl f)
        | Inr e \<Rightarrow>
            (case increment it of
               Inl f \<Rightarrow> Some (Inl f)
             | Inr it' \<Rightarrow> Option.bind (walk it') (\<lambda>r. Some (and_then r (\<lambda>es. Inr (e # es))))))"

text \<open>
  \<^verbatim>\<open>ConnectToServer(resolver.resolve(host, service))\<close>: the composed connect walks the results,
  and tries their endpoints. \<open>outcome\<close> and \<open>still_open\<close> are as for \<^const>\<open>async_connect_range\<close>.
\<close>

definition resolve_and_connect ::
  "getaddrinfo_call \<Rightarrow> nat \<Rightarrow> string \<Rightarrow> string \<Rightarrow> nat \<Rightarrow> (nat \<Rightarrow> io_error) \<Rightarrow> (nat \<Rightarrow> bool) \<Rightarrow>
    (cpp_exception + (nat list \<times> io_error \<times> endpoint option)) result option" where
  "resolve_and_connect sys v host service fuel outcome still_open =
     (case resolve sys v host service of
        Inl f \<Rightarrow> Some (Inl f)
      | Inr (Inl ex) \<Rightarrow> Some (Inr (Inl ex))
      | Inr (Inr r) \<Rightarrow>
          (case walk (results_begin r) of
             None \<Rightarrow> None
           | Some (Inl f) \<Rightarrow> Some (Inl f)
           | Some (Inr es) \<Rightarrow>
               map_option (\<lambda>x. Inr (Inr x))
                 (async_connect_range fuel outcome still_open default_connect_condition (map entry_endpoint es))))"

section \<open>What a resolution finds\<close>

definition is_inet :: "addrinfo \<Rightarrow> bool" where
  "is_inet ai \<longleftrightarrow> ai_family ai = AF_INET \<or> ai_family ai = AF_INET6"

definition endpoint_of :: "addrinfo \<Rightarrow> endpoint" where
  "endpoint_of ai = Endpoint (put_field 0 (ai_addr ai) (ep_data new_endpoint))"

definition entry_of :: "string \<Rightarrow> string \<Rightarrow> addrinfo \<Rightarrow> entry" where
  "entry_of host service ai = \<lparr>entry_endpoint = endpoint_of ai, entry_host = host, entry_service = service\<rparr>"

lemma push_entries_all:
  assumes "\<forall>ai \<in> set ais. is_inet ai \<longrightarrow> ai_addrlen ai \<le> 28"
  shows "push_entries host service ais es = Inr (Inr (es @ map (entry_of host service) (filter is_inet ais)))"
  using assms by (induction ais arbitrary: es)
    (auto simp: is_inet_def ep_resize_def copy_in_def ep_capacity_def entry_of_def endpoint_of_def ai_addrlen_def)

lemma walk_end: "walk end_iterator = Some (Inr [])"
  by (subst walk.simps) (simp add: it_equal_def results_end_def end_iterator_def)

lemma walk_from:
  "i < length es \<Longrightarrow> walk \<lparr>vals = Some (v, es), index = i\<rparr> = Some (Inr (drop i es))"
proof (induction "length es - i" arbitrary: i)
  case (Suc n)
  have e: "walk \<lparr>vals = Some (v, es), index = i\<rparr> = Option.bind (walk (if i + 1 = length es then end_iterator
      else \<lparr>vals = Some (v, es), index = i + 1\<rparr>)) (\<lambda>r. Some (and_then r (\<lambda>xs. Inr (es ! i # xs))))"
    using Suc.prems by (subst walk.simps)
      (simp add: it_equal_def results_end_def end_iterator_def dereference_def increment_def)
  show ?case
  proof (cases "i + 1 = length es")
    case True
    then show ?thesis using Suc.prems by (simp add: e walk_end Cons_nth_drop_Suc [symmetric])
  next
    case False
    with Suc have "walk \<lparr>vals = Some (v, es), index = i + 1\<rparr> = Some (Inr (drop (i + 1) es))" by simp
    with False Suc.prems show ?thesis by (simp add: e Cons_nth_drop_Suc)
  qed
qed simp

lemma walk_results:
  "walk \<lparr>vals = Some (v, es), index = 0\<rparr> = Some (if es = [] then Inl Out_of_range else Inr es)"
proof (cases "es = []")
  case True
  have "walk \<lparr>vals = Some (v, []), index = 0\<rparr> = Some (Inl Out_of_range)"
    by (subst walk.simps) (simp add: it_equal_def results_end_def end_iterator_def dereference_def)
  with True show ?thesis by simp
next
  case False
  with walk_from [of 0 es v] show ?thesis by simp
qed

text \<open>The host that the entries have, and the list of a successful answer.\<close>

definition canon :: "string \<Rightarrow> addrinfo list \<Rightarrow> string" where
  "canon host ais = (case ais of ai # _ \<Rightarrow> (case ai_canonname ai of Some c \<Rightarrow> c | None \<Rightarrow> host) | [] \<Rightarrow> host)"

lemma create_all:
  assumes "\<forall>ai \<in> set ais. is_inet ai \<longrightarrow> ai_addrlen ai \<le> 28"
  shows "create_results v ais host service = Inr (Inr (if ais = [] then end_iterator
    else \<lparr>vals = Some (v, map (entry_of (canon host ais) service) (filter is_inet ais)), index = 0\<rparr>))"
proof (cases ais)
  case (Cons ai rest)
  then show ?thesis using push_entries_all [OF assms, of "canon host ais" service "[]"]
    by (simp add: create_results_def canon_def Let_def del: push_entries.simps)
qed (simp add: create_results_def)

lemma resolve_answer:
  assumes "sys (if host \<noteq> [] then Some host else None) (if service \<noteq> [] then Some service else None)
      (q_hints (new_query host service 0)) = (error, ais, last_err)"
    and "\<forall>ai \<in> set ais. is_inet ai \<longrightarrow> ai_addrlen ai \<le> 28"
  shows "resolve sys v host service =
    Inr (if failed (translate_addrinfo_error error last_err) then Inl (System_error (translate_addrinfo_error error last_err))
         else Inr (if ais = [] then end_iterator
           else \<lparr>vals = Some (v, map (entry_of (canon host ais) service) (filter is_inet ais)), index = 0\<rparr>))"
  using assms(1) by (simp add: resolve_def resolve_flags_def service_resolve_def getaddrinfo_def create_all [OF assms(2)]
      new_query_def Let_def)

text \<open>
  A resolution throws exactly when the system reports an error, and otherwise its results
  are the IPv4 and IPv6 addresses of the system's list, in its order, and walking them ends with
  those entries. But when the list has addresses of other families only, the results are empty
  and yet begin does not equal end: the walk reads outside the vector.
\<close>

theorem resolution_walk:
  assumes "sys (if host \<noteq> [] then Some host else None) (if service \<noteq> [] then Some service else None)
      (q_hints (new_query host service 0)) = (error, ais, last_err)"
    and "\<forall>ai \<in> set ais. is_inet ai \<longrightarrow> ai_addrlen ai \<le> 28"
  shows "if failed (translate_addrinfo_error error last_err)
    then resolve sys v host service = Inr (Inl (System_error (translate_addrinfo_error error last_err)))
    else \<exists>r. resolve sys v host service = Inr (Inr r) \<and> (results_empty r \<longleftrightarrow> filter is_inet ais = []) \<and>
      results_size r = length (filter is_inet ais) \<and> walk (results_begin r) =
        Some (if filter is_inet ais = [] \<and> ais \<noteq> [] then Inl Out_of_range
              else Inr (map (entry_of (canon host ais) service) (filter is_inet ais)))"
proof (cases "failed (translate_addrinfo_error error last_err)")
  case True
  then show ?thesis using resolve_answer [of sys host service error ais last_err v, OF assms] by simp
next
  case False
  then show ?thesis using resolve_answer [of sys host service error ais last_err v, OF assms]
      walk_results [of v "map (entry_of (canon host ais) service) (filter is_inet ais)"] walk_end
    by (auto simp: results_empty_def results_size_def results_begin_def end_iterator_def)
qed

text \<open>Two addresses of another family: the results are empty, and walking them faults.\<close>

definition other_family :: addrinfo where
  "other_family = \<lparr>ai_family = 1, ai_addr = [1, 0, 0, 0], ai_canonname = None\<rparr>"

definition loopback_info :: addrinfo where
  "loopback_info = \<lparr>ai_family = 2, ai_addr = [2, 0, 0x1F, 0x90, 127, 0, 0, 1, 0, 0, 0, 0, 0, 0, 0, 0], ai_canonname = None\<rparr>"

lemma resolution_walk_witness:
  "\<exists>r. resolve (\<lambda>_ _ _. (0, [other_family], 0)) 7 ''game'' ''8080'' = Inr (Inr r) \<and> results_empty r \<and>
     walk (results_begin r) = Some (Inl Out_of_range)"
proof -
  have "\<not> failed (translate_addrinfo_error 0 0)" "\<not> is_inet other_family"
    by (simp_all add: translate_addrinfo_error_def failed_def success_def is_inet_def other_family_def AF_INET_def AF_INET6_def)
  with resolution_walk [of "\<lambda>_ _ _. (0, [other_family], 0)" "''game''" "''8080''" 0 "[other_family]" 0 7]
  show ?thesis by auto
qed

text \<open>
  Connecting to what a resolution found: the endpoints of the system's list that are IPv4 or
  IPv6 are tried in the list's order, and the connect ends with the first that accepts, or
  with an error when none does.
\<close>

theorem resolve_then_connect:
  assumes "sys (if host \<noteq> [] then Some host else None) (if service \<noteq> [] then Some service else None)
      (q_hints (new_query host service 0)) = (0, ais, last_err)"
    and "\<forall>ai \<in> set ais. is_inet ai \<longrightarrow> ai_addrlen ai \<le> 28" and "filter is_inet ais \<noteq> []"
    and "\<forall>i < length (filter is_inet ais). still_open i" and "length (filter is_inet ais) < fuel"
  shows "\<exists>tried ec e. resolve_and_connect sys v host service fuel outcome still_open = Some (Inr (Inr (tried, ec, e))) \<and>
    (if \<exists>i < length (filter is_inet ais). \<not> failed (outcome i)
     then \<exists>i < length (filter is_inet ais). e = Some (endpoint_of (filter is_inet ais ! i)) \<and> ec = outcome i \<and> \<not> failed ec \<and>
       (\<forall>j < i. failed (outcome j))
     else e = None \<and> ec = outcome (length (filter is_inet ais) - 1))"
proof -
  let ?es = "map (entry_of (canon host ais) service) (filter is_inet ais)"
  have "ais \<noteq> []" using assms(3) by auto
  moreover have "\<not> failed (translate_addrinfo_error 0 last_err)"
    by (simp add: translate_addrinfo_error_def failed_def success_def)
  ultimately have r: "resolve sys v host service = Inr (Inr \<lparr>vals = Some (v, ?es), index = 0\<rparr>)"
    using resolve_answer [of sys host service 0 ais last_err v, OF assms(1,2)] by simp
  have "walk (results_begin \<lparr>vals = Some (v, ?es), index = 0\<rparr>) = Some (Inr ?es)"
    using walk_results [of v ?es] assms(3) by (simp add: results_begin_def)
  moreover have eps: "map entry_endpoint ?es = map endpoint_of (filter is_inet ais)" by (simp add: entry_of_def)
  ultimately have rc: "resolve_and_connect sys v host service fuel outcome still_open = map_option (\<lambda>x. Inr (Inr x))
      (async_connect_range fuel outcome still_open default_connect_condition (map endpoint_of (filter is_inet ais)))"
    by (simp add: resolve_and_connect_def r del: map_map)
  let ?cr = "connect_range outcome default_connect_condition (map endpoint_of (filter is_inet ais))"
  obtain tried where a: "async_connect_range fuel outcome still_open default_connect_condition (map endpoint_of (filter is_inet ais)) =
      Some (tried, snd ?cr, fst ?cr)"
    using async_connect_agrees [of "map endpoint_of (filter is_inet ais)" still_open fuel outcome default_connect_condition] assms(4,5) by auto
  have "if \<exists>i < length (filter is_inet ais). \<not> failed (outcome i)
     then \<exists>i < length (filter is_inet ais). fst ?cr = Some (endpoint_of (filter is_inet ais ! i)) \<and> snd ?cr = outcome i \<and> \<not> failed (snd ?cr) \<and>
       (\<forall>j < i. failed (outcome j))
     else fst ?cr = None \<and> snd ?cr = outcome (length (filter is_inet ais) - 1)"
    using connect_finds_first [where outcome = outcome and es = "map endpoint_of (filter is_inet ais)"] assms(3)
    by (cases ?cr) (auto split: if_splits)
  with rc a show ?thesis by (intro exI [of _ tried] exI [of _ "snd ?cr"] exI [of _ "fst ?cr"] conjI) simp_all
qed

lemma resolve_then_connect_witness:
  "\<exists>tried. resolve_and_connect (\<lambda>_ _ _. (0, [other_family, loopback_info], 0)) 7 ''game'' ''8080'' 2 (\<lambda>_. success) (\<lambda>_. True) =
     Some (Inr (Inr (tried, success, Some (endpoint_of loopback_info)))) \<and>
   ep_address (endpoint_of loopback_info) = address_of_v4 v4_loopback \<and> ep_port (endpoint_of loopback_info) = 8080"
proof -
  have i: "is_inet loopback_info" "\<not> is_inet other_family" by (simp_all add: is_inet_def other_family_def loopback_info_def AF_INET_def AF_INET6_def)
  have "\<forall>ai \<in> set [other_family, loopback_info]. is_inet ai \<longrightarrow> ai_addrlen ai \<le> 28"
    by (simp add: ai_addrlen_def other_family_def loopback_info_def)
  moreover have "\<exists>i < length (filter is_inet [other_family, loopback_info]). \<not> failed ((\<lambda>_. success) i)"
    by (simp add: i failed_def success_def)
  moreover have "ep_address (endpoint_of loopback_info) = address_of_v4 v4_loopback \<and> ep_port (endpoint_of loopback_info) = 8080" by code_simp
  ultimately show ?thesis
    using resolve_then_connect [of "\<lambda>_ _ _. (0, [other_family, loopback_info], 0)" "''game''" "''8080''" "[other_family, loopback_info]" 0
        "\<lambda>_. True" 2 7 "\<lambda>_. success"] by (auto simp: i)
qed

text \<open>
  \<open>ep_resize\<close> lets every length pass that fits a \<^verbatim>\<open>sockaddr_storage\<close>, but the union of the endpoint
  is smaller: copying a structure of 29 to 128 bytes writes behind it.
\<close>

lemma long_sockaddr_overflows:
  assumes "is_inet ai" and "28 < ai_addrlen ai" and "ai_addrlen ai \<le> 128"
  shows "create_results v (ai # ais) host service = Inl Out_of_range"
  using assms by (simp add: create_results_def is_inet_def ep_resize_def copy_in_def ep_capacity_def ai_addrlen_def Let_def)

section \<open>From endpoints to names\<close>

text \<open>
  What the system's \<^verbatim>\<open>getnameinfo\<close> answers for an endpoint and flags: the value returned, the last
  error, and the host and service that it writes when it succeeds.
\<close>

type_synonym getnameinfo_call = "endpoint \<Rightarrow> nat \<Rightarrow> int \<times> u32 \<times> string \<times> string"

text \<open>The two buffers. Before they are written they hold anything.\<close>

type_synonym buffers = "string \<times> string"

definition overwrite :: "string \<Rightarrow> string \<Rightarrow> string" where
  "overwrite s buf = s @ CHR 0x00 # drop (length s + 1) buf"

definition c_string :: "string \<Rightarrow> string result" where
  "c_string buf = (if CHR 0x00 \<in> set buf then Inr (takeWhile (\<lambda>c. c \<noteq> CHR 0x00) buf) else Inl Out_of_range)"

definition getnameinfo :: "getnameinfo_call \<Rightarrow> endpoint \<Rightarrow> nat \<Rightarrow> buffers \<Rightarrow> buffers \<times> io_error" where
  "getnameinfo sys e flags b =
     (let (error, last_err, host, serv) = sys e flags
      in (if error = 0 then (overwrite host (fst b), overwrite serv (snd b)) else b, translate_addrinfo_error error last_err))"

definition NI_NUMERICSERV :: nat where "NI_NUMERICSERV = 8"

text \<open>The flags of stream sockets are 0.\<close>

definition sync_getnameinfo :: "getnameinfo_call \<Rightarrow> endpoint \<Rightarrow> buffers \<Rightarrow> buffers \<times> io_error" where
  "sync_getnameinfo sys e b =
     (let (b1, ec) = getnameinfo sys e 0 b
      in if failed ec then getnameinfo sys e NI_NUMERICSERV b1 else (b1, ec))"

definition background_getnameinfo :: "bool \<Rightarrow> getnameinfo_call \<Rightarrow> endpoint \<Rightarrow> buffers \<Rightarrow> buffers \<times> io_error" where
  "background_getnameinfo expired sys e b =
     (if expired then (b, operation_aborted)
      else
        let (b1, ec) = getnameinfo sys e 0 b
        in if failed ec then getnameinfo sys e NI_NUMERICSERV b1 else (b1, ec))"

definition create_named :: "nat \<Rightarrow> endpoint \<Rightarrow> buffers \<Rightarrow> iterator result" where
  "create_named v e b =
     and_then (c_string (fst b)) (\<lambda>host. and_then (c_string (snd b)) (\<lambda>serv. Inr (create_from_endpoint v e host serv)))"

definition resolve_endpoint :: "getnameinfo_call \<Rightarrow> nat \<Rightarrow> endpoint \<Rightarrow> buffers \<Rightarrow> (iterator \<times> io_error) result" where
  "resolve_endpoint sys v e junk =
     (let (b, ec) = sync_getnameinfo sys e junk
      in if failed ec then Inr (end_iterator, ec) else and_then (create_named v e b) (\<lambda>r. Inr (r, ec)))"

text \<open>The operation's turn on the worker: the results are made whatever the error.\<close>

definition endpoint_op_background :: "bool \<Rightarrow> getnameinfo_call \<Rightarrow> nat \<Rightarrow> endpoint \<Rightarrow> buffers \<Rightarrow> (iterator \<times> io_error) result" where
  "endpoint_op_background expired sys v e junk =
     (let (b, ec) = background_getnameinfo expired sys e junk
      in and_then (create_named v e b) (\<lambda>r. Inr (r, ec)))"

lemma c_string_overwrite: "CHR 0x00 \<notin> set s \<Longrightarrow> c_string (overwrite s buf) = Inr s"
  by (auto simp: c_string_def overwrite_def takeWhile_append)

text \<open>
  Resolving an endpoint: the blocking call has one entry with the names the system gave, or
  on an error no results. The asynchronous operation gives the same when it succeeds; but when
  it fails or is cancelled it makes an entry from its two buffers all the same, which nothing
  has initialised: the names are whatever bytes were there, read beyond the buffers if none of
  them is zero.
\<close>

theorem reverse_resolution:
  assumes "(if failed (translate_addrinfo_error (fst (sys e 0)) (fst (snd (sys e 0)))) then sys e NI_NUMERICSERV else sys e 0) =
      (err, last_err, host, serv)"
    and "CHR 0x00 \<notin> set host" and "CHR 0x00 \<notin> set serv"
  shows "(err = 0 \<longrightarrow> resolve_endpoint sys v e junk = Inr (create_from_endpoint v e host serv, success) \<and>
      endpoint_op_background False sys v e junk = Inr (create_from_endpoint v e host serv, success)) \<and>
    (failed (translate_addrinfo_error err last_err) \<longrightarrow>
      resolve_endpoint sys v e junk = Inr (end_iterator, translate_addrinfo_error err last_err) \<and>
      endpoint_op_background False sys v e junk = and_then (create_named v e junk) (\<lambda>r. Inr (r, translate_addrinfo_error err last_err))) \<and>
    endpoint_op_background True sys v e junk = and_then (create_named v e junk) (\<lambda>r. Inr (r, operation_aborted)) \<and>
    (create_named v e junk = Inl Out_of_range \<longleftrightarrow> CHR 0x00 \<notin> set (fst junk) \<or> CHR 0x00 \<notin> set (snd junk))"
proof -
  have zero: "translate_addrinfo_error 0 l = success" "\<not> failed success" for l
    by (simp_all add: translate_addrinfo_error_def failed_def success_def)
  obtain err0 last0 h0 s0 where a0: "sys e 0 = (err0, last0, h0, s0)" by (metis surj_pair)
  have first: "err0 \<noteq> 0" if "failed (translate_addrinfo_error err0 last0)" using that zero by metis
  have sync: "sync_getnameinfo sys e junk =
      (if err = 0 then (overwrite host (fst junk), overwrite serv (snd junk)) else junk, translate_addrinfo_error err last_err)"
    using assms(1) first a0 by (auto simp: sync_getnameinfo_def getnameinfo_def Let_def split: if_splits)
  moreover have "background_getnameinfo False sys e junk = sync_getnameinfo sys e junk"
    by (simp add: background_getnameinfo_def sync_getnameinfo_def)
  moreover have "create_named v e (overwrite host (fst junk), overwrite serv (snd junk)) = Inr (create_from_endpoint v e host serv)"
    using assms(2,3) by (simp add: create_named_def c_string_overwrite)
  moreover have "err \<noteq> 0" if "failed (translate_addrinfo_error err last_err)" using that zero by metis
  moreover have "create_named v e junk = Inl Out_of_range \<longleftrightarrow> CHR 0x00 \<notin> set (fst junk) \<or> CHR 0x00 \<notin> set (snd junk)"
    by (simp add: create_named_def c_string_def)
  ultimately show ?thesis using zero
    by (auto simp: resolve_endpoint_def endpoint_op_background_def background_getnameinfo_def [of True])
qed

text \<open>Cancelled, with a buffer that holds an old string and one without a zero byte.\<close>

lemma reverse_resolution_witness:
  "endpoint_op_background True (\<lambda>_ _. (0, 0, ''host'', ''http'')) 7 new_endpoint (''secret'', ''x'') = Inl Out_of_range \<and>
   resolve_endpoint (\<lambda>_ _. (0, 0, ''host'', ''http'')) 7 new_endpoint (''secret'', ''x'') =
     Inr (create_from_endpoint 7 new_endpoint ''host'' ''http'', success)"
  using reverse_resolution [of "\<lambda>_ _. (0, 0, ''host'', ''http'')" new_endpoint 0 0 "''host''" "''http''" 7 "(''secret'', ''x'')"]
  by simp

end
