(* ===== verification/AsioResolverRun.thy ===== *)
theory AsioResolverRun
  imports AsioResolver AsioIocpRun
begin

text \<open>
  Asynchronous resolution: \<^verbatim>\<open>resolver_service_base\<close> with its private event loop and thread
  (\<^verbatim>\<open>detail/impl/resolver_service_base.ipp\<close>) and the operation of \<^verbatim>\<open>detail/resolve_query_op.hpp\<close>,
  which is run twice: by the private loop, which asks the system, and by the program's loop, which
  calls the handler. Both loops are those of \<open>AsioIocpRun\<close>, composed here by the steps of a
  resolution; each does its other steps as it likes.

  Shown: an operation is always with exactly one of the loops, its handler is called at most
  once and with what the system answered or with the cancellation, and the program's loop has
  work as long as it has not been.
\<close>

section \<open>Implementations and their tokens\<close>

text \<open>
  An implementation is a shared pointer that nobody but it owns, an operation has a weak one. A token
  is a number; it has expired when no implementation holds it. \<open>tokens\<close> gives the token of each
  implementation, \<open>fresh\<close> the next one.
\<close>

record token_store =
  tokens :: "nat \<Rightarrow> nat option"
  fresh :: nat

definition impl_construct :: "nat \<Rightarrow> token_store \<Rightarrow> token_store" where
  "impl_construct r ts = \<lparr>tokens = (tokens ts)(r := Some (fresh ts)), fresh = fresh ts + 1\<rparr>"

definition impl_destroy :: "nat \<Rightarrow> token_store \<Rightarrow> token_store" where
  "impl_destroy r ts = ts\<lparr>tokens := (tokens ts)(r := None)\<rparr>"

definition impl_move_construct :: "nat \<Rightarrow> nat \<Rightarrow> token_store \<Rightarrow> token_store" where
  "impl_move_construct r other ts = ts\<lparr>tokens := (tokens ts)(r := tokens ts other, other := None)\<rparr>"

definition impl_move_assign :: "nat \<Rightarrow> nat \<Rightarrow> token_store \<Rightarrow> token_store" where
  "impl_move_assign r other ts = impl_move_construct r other (impl_destroy r ts)"

definition impl_cancel :: "nat \<Rightarrow> token_store \<Rightarrow> token_store" where
  "impl_cancel r ts = \<lparr>tokens = (tokens ts)(r := Some (fresh ts)), fresh = fresh ts + 1\<rparr>"

definition expired :: "token_store \<Rightarrow> nat option \<Rightarrow> bool" where
  "expired ts t = (case t of None \<Rightarrow> True | Some k \<Rightarrow> \<forall>r. tokens ts r \<noteq> Some k)"

section \<open>The service\<close>

record ('t, 'k, 'op) resolver_sys =
  main :: "('t, 'k, 'op) loop_sys"
  work :: "('t, 'k, 'op) loop_sys"
  work_thread :: bool
  store :: token_store
  op_token :: "'op \<Rightarrow> nat option"
  op_query :: "'op \<Rightarrow> query"
  op_ec :: "'op \<Rightarrow> io_error"
  addrinfo_of :: "'op \<Rightarrow> addrinfo list"
  asked :: "'op set"
  answered :: "'op set"
  delivered :: "('op \<times> io_error) list"
  told :: "'op \<Rightarrow> (bool \<times> getaddrinfo_call) option"

text \<open>
  The constructor starts a unit of work of the private loop, which stands for operation \<open>guard\<close>.
  \<open>told\<close> is no state of the code: it records what an operation met when the private loop ran it,
  whether its token had expired, and the system that it could ask.
\<close>

definition service_start :: "'op \<Rightarrow> ('t, 'k, 'op) resolver_sys" where
  "service_start guard =
     \<lparr>main = loop_start,
      work = loop_start\<lparr>io := work_started new_iocp, phase := (\<lambda>_. Unused)(guard := Waiting)\<rparr>,
      work_thread = False, store = \<lparr>tokens = \<lambda>_. None, fresh = 0\<rparr>, op_token = \<lambda>_. None, op_query = \<lambda>_. new_query [] [] 0,
      op_ec = \<lambda>_. success, addrinfo_of = \<lambda>_. [], asked = {}, answered = {}, delivered = [], told = \<lambda>_. None\<rparr>"

definition start_work_thread :: "('t, 'k, 'op) resolver_sys \<Rightarrow> ('t, 'k, 'op) resolver_sys" where
  "start_work_thread S = (if \<not> work_thread S then S\<lparr>work_thread := True\<rparr> else S)"

text \<open>\<open>locking\<close>: the concurrency hint of the program's loop is one that locks. \<open>ok\<close>: posting succeeds.\<close>

definition start_resolve_op :: "bool \<Rightarrow> bool \<Rightarrow> 'op \<Rightarrow> ('t, 'k, 'op) resolver_sys \<Rightarrow> ('t, 'k, 'op) resolver_sys" where
  "start_resolve_op locking ok x S =
     (if locking
      then
        let S1 = start_work_thread S;
            S2 = S1\<lparr>main := (main S1)\<lparr>io := work_started (io (main S1)), phase := (phase (main S1))(x := Waiting)\<rparr>\<rparr>
        in S2\<lparr>work := (work S2)\<lparr>io := post_immediate_completion ok x (io (work S2)), phase := (phase (work S2))(x := Posted)\<rparr>\<rparr>
      else
        let S1 = S\<lparr>op_ec := (op_ec S)(x := operation_not_supported)\<rparr>
        in S1\<lparr>main := (main S1)\<lparr>io := post_immediate_completion ok x (io (main S1)), phase := (phase (main S1))(x := Posted)\<rparr>\<rparr>)"

definition async_resolve :: "bool \<Rightarrow> bool \<Rightarrow> nat \<Rightarrow> query \<Rightarrow> 'op \<Rightarrow> ('t, 'k, 'op) resolver_sys \<Rightarrow> ('t, 'k, 'op) resolver_sys" where
  "async_resolve locking ok r q x S =
     start_resolve_op locking ok x
       (S\<lparr>op_token := (op_token S)(x := tokens (store S) r), op_query := (op_query S)(x := q), op_ec := (op_ec S)(x := success),
          addrinfo_of := (addrinfo_of S)(x := []), asked := insert x (asked S),
          answered := (if locking then answered S else insert x (answered S))\<rparr>)"

text \<open>The two turns of \<^verbatim>\<open>do_complete\<close>.\<close>

definition resolve_background :: "getaddrinfo_call \<Rightarrow> bool \<Rightarrow> 'op \<Rightarrow> ('t, 'k, 'op) resolver_sys \<Rightarrow> ('t, 'k, 'op) resolver_sys" where
  "resolve_background sys ok x S =
     (let q = op_query S x;
          (ais, ec) = background_getaddrinfo (expired (store S) (op_token S x)) sys (q_host q) (q_service q) (q_hints q);
          S1 = S\<lparr>addrinfo_of := (addrinfo_of S)(x := ais), op_ec := (op_ec S)(x := ec)\<rparr>
      in S1\<lparr>main := (main S1)\<lparr>io := post_deferred_completion ok x (io (main S1)), phase := (phase (main S1))(x := Posted)\<rparr>,
            answered := insert x (answered S1)\<rparr>)"

text \<open>The handler's arguments: the error and the results.\<close>

definition resolve_completion :: "nat \<Rightarrow> 'op \<Rightarrow> ('t, 'k, 'op) resolver_sys \<Rightarrow> io_error \<times> (cpp_exception + iterator) result" where
  "resolve_completion v x S =
     (op_ec S x,
      if addrinfo_of S x = [] then Inr (Inr end_iterator)
      else create_results v (addrinfo_of S x) (q_host (op_query S x)) (q_service (op_query S x)))"

section \<open>The steps\<close>

inductive res_step :: "('t::linorder, 'k, 'op) resolver_sys \<Rightarrow> ('t, 'k, 'op) resolver_sys \<Rightarrow> bool" where
  constructing: "tokens (store S) r = None \<Longrightarrow> res_step S (S\<lparr>store := impl_construct r (store S)\<rparr>)"
| destroying: "res_step S (S\<lparr>store := impl_destroy r (store S)\<rparr>)"
| moving: "r \<noteq> other \<Longrightarrow> tokens (store S) r = None \<Longrightarrow> res_step S (S\<lparr>store := impl_move_construct r other (store S)\<rparr>)"
| assigning: "r \<noteq> other \<Longrightarrow> res_step S (S\<lparr>store := impl_move_assign r other (store S)\<rparr>)"
| cancelling: "res_step S (S\<lparr>store := impl_cancel r (store S)\<rparr>)"
| resolve_start: "phase (main S) x = Unused \<Longrightarrow> phase (work S) x = Unused \<Longrightarrow> res_step S (async_resolve locking ok r q x S)"
| work_call: "take_next None forever g (io (work S)) = (Complete x ec n, s') \<Longrightarrow>
    res_step S (S\<lparr>work := (work S)\<lparr>io := s', phase := (phase (work S))(x := Running), called := called (work S) @ [x]\<rparr>\<rparr>)"
| background: "phase (work S) x = Running \<Longrightarrow> x \<in> asked S \<Longrightarrow> x \<notin> answered S \<Longrightarrow>
    res_step S ((resolve_background sys ok x S)\<lparr>told := (told S)(x \<mapsto> (expired (store S) (op_token S x), sys))\<rparr>)"
| work_finish: "phase (work S) x = Running \<Longrightarrow> x \<in> asked S \<longrightarrow> x \<in> answered S \<Longrightarrow>
    res_step S (S\<lparr>work := (work S)\<lparr>io := snd (work_finished True (io (work S))), phase := (phase (work S))(x := Finished)\<rparr>\<rparr>)"
| main_call: "take_next None forever g (io (main S)) = (Complete x ec n, s') \<Longrightarrow>
    res_step S (S\<lparr>main := (main S)\<lparr>io := s', phase := (phase (main S))(x := Running), called := called (main S) @ [x]\<rparr>,
      delivered := (if x \<in> asked S then delivered S @ [(x, op_ec S x)] else delivered S)\<rparr>)"
| main_finish: "phase (main S) x = Running \<Longrightarrow>
    res_step S (S\<lparr>main := (main S)\<lparr>io := snd (work_finished True (io (main S))), phase := (phase (main S))(x := Finished)\<rparr>\<rparr>)"
| main_other: "loop_step (main S) M \<Longrightarrow> \<forall>x \<in> asked S. phase M x = phase (main S) x \<Longrightarrow>
    called M = called (main S) \<Longrightarrow> res_step S (S\<lparr>main := M\<rparr>)"
| work_other: "loop_step (work S) W \<Longrightarrow> \<forall>x. phase W x = phase (work S) x \<Longrightarrow> called W = called (work S) \<Longrightarrow> res_step S (S\<lparr>work := W\<rparr>)"

inductive res_reach :: "('t::linorder, 'k, 'op) resolver_sys \<Rightarrow> bool" where
  res_init: "res_reach (service_start guard)"
| res_more: "res_reach S \<Longrightarrow> res_step S T \<Longrightarrow> res_reach T"

section \<open>Each loop does only its own steps\<close>

lemma start_loops:
  assumes "phase (main S) x = Unused" "phase (work S) x = Unused" "loop_reach (main S)" "loop_reach (work S)"
  shows "loop_reach (main (async_resolve locking ok r q x S)) \<and> loop_reach (work (async_resolve locking ok r q x S))"
  using loop_more [OF assms(3) loop_step.schedule [OF assms(1)]] loop_more [OF assms(3) loop_step.post [OF assms(1)]]
    loop_more [OF assms(4) loop_step.post [OF assms(2)]] assms(3,4)
  by (auto simp: async_resolve_def start_resolve_op_def start_work_thread_def Let_def)

lemma background_loops:
  assumes "phase (main S) x = Waiting" "loop_reach (main S)"
  shows "loop_reach (main (resolve_background sys ok x S))"
proof -
  have "loop_reach ((main S)\<lparr>io := post_deferred_completions (\<lambda>_. ok) [x] (io (main S)), phase := move_to Posted (set [x]) (phase (main S))\<rparr>)"
    by (rule loop_more [OF assms(2) loop_step.cancel]) (simp_all add: assms(1))
  moreover have "post_deferred_completions (\<lambda>_. ok) [x] s = post_deferred_completion ok x s" for s :: "('a, 'b, 'c) iocp"
    by (simp add: post_deferred_completion_def post_or_aside_def Let_def)
  moreover have "move_to Posted (set [x]) (phase (main S)) = (phase (main S))(x := Posted)" by auto
  ultimately show ?thesis by (simp add: resolve_background_def Let_def split: prod.splits)
qed

lemma call_step:
  assumes "loop_reach L" "take_next None forever g (io L) = (Complete x ec n, s')"
  shows "loop_reach (L\<lparr>io := s', phase := (phase L)(x := Running), called := called L @ [x]\<rparr>)"
    "phase L x = Posted \<or> phase L x = In_flight True True"
  using loop_more [OF assms(1) loop_step.take_call [OF assms(2)]] called_from_port [OF _ assms(2)] loop_reach_inv [OF assms(1)]
  by (auto simp: loop_inv_def)

section \<open>The invariant\<close>

definition store_ok :: "token_store \<Rightarrow> bool" where
  "store_ok ts \<longleftrightarrow> (\<forall>r s k. tokens ts r = Some k \<and> tokens ts s = Some k \<longrightarrow> r = s) \<and> (\<forall>r k. tokens ts r = Some k \<longrightarrow> k < fresh ts)"

lemma store_steps:
  assumes "store_ok ts"
  shows "store_ok (impl_construct r ts)" "store_ok (impl_destroy r ts)" "store_ok (impl_cancel r ts)"
    "r \<noteq> other \<Longrightarrow> store_ok (impl_move_construct r other ts)" "r \<noteq> other \<Longrightarrow> store_ok (impl_move_assign r other ts)"
  using assms by (auto simp: store_ok_def impl_construct_def impl_destroy_def impl_cancel_def impl_move_construct_def
      impl_move_assign_def split: if_splits) (metis less_irrefl less_SucI)+

definition place_of :: "('t, 'k, 'op) resolver_sys \<Rightarrow> 'op \<Rightarrow> bool" where
  "place_of S x \<longleftrightarrow>
     (if x \<in> answered S
      then phase (main S) x \<in> {Posted, Running, Finished} \<and> phase (work S) x \<in> {Unused, Running, Finished}
      else phase (main S) x = Waiting \<and> phase (work S) x \<in> {Posted, Running})"

text \<open>The answer an operation has to deliver: the system's own, unless it was cancelled or never asked.\<close>

fun answer_of :: "(bool \<times> getaddrinfo_call) option \<Rightarrow> query \<Rightarrow> addrinfo list \<times> io_error" where
  "answer_of None q = ([], operation_not_supported)"
| "answer_of (Some (gone, sys)) q =
     (if gone then ([], operation_aborted) else getaddrinfo sys (q_host q) (q_service q) (q_hints q))"

text \<open>What a handler gets for it.\<close>

definition handler_gets :: "nat \<Rightarrow> query \<Rightarrow> addrinfo list \<times> io_error \<Rightarrow> io_error \<times> (cpp_exception + iterator) result" where
  "handler_gets v q A =
     (case A of (ais, ec) \<Rightarrow>
       (ec, if ais = [] then Inr (Inr end_iterator) else create_results v ais (q_host q) (q_service q)))"

definition answers_kept :: "('t, 'k, 'op) resolver_sys \<Rightarrow> bool" where
  "answers_kept S \<longleftrightarrow>
     (\<forall>x \<in> answered S. (addrinfo_of S x, op_ec S x) = answer_of (told S x) (op_query S x)) \<and>
     (\<forall>x. x \<notin> answered S \<longrightarrow> told S x = None)"

definition res_inv :: "('t::linorder, 'k, 'op) resolver_sys \<Rightarrow> bool" where
  "res_inv S \<longleftrightarrow> loop_reach (main S) \<and> loop_reach (work S) \<and> store_ok (store S) \<and> answered S \<subseteq> asked S \<and>
     (\<forall>x \<in> asked S. place_of S x) \<and> map fst (delivered S) = filter (\<lambda>x. x \<in> asked S) (called (main S)) \<and>
     (\<forall>(x, ec) \<in> set (delivered S). ec = op_ec S x) \<and> answers_kept S"

lemma called_phase: "loop_reach L \<Longrightarrow> x \<in> set (called L) \<longleftrightarrow> phase L x = Running \<or> phase L x = Finished"
  using loop_reach_inv [of L] by (auto simp: loop_inv_def call_inv_def)

lemma delivered_called: "res_inv S \<Longrightarrow> (x, ec) \<in> set (delivered S) \<Longrightarrow> x \<in> asked S \<and> x \<in> set (called (main S))"
proof -
  assume "res_inv S" and d: "(x, ec) \<in> set (delivered S)"
  then have "map fst (delivered S) = filter (\<lambda>x. x \<in> asked S) (called (main S))" by (simp add: res_inv_def)
  moreover from d have "x \<in> set (map fst (delivered S))" by force
  ultimately have "x \<in> set (filter (\<lambda>x. x \<in> asked S) (called (main S)))" by simp
  then show ?thesis by simp
qed

lemma background_answer:
  "(addrinfo_of (resolve_background sys ok x S) x, op_ec (resolve_background sys ok x S) x) =
    answer_of (Some (expired (store S) (op_token S x), sys)) (op_query S x)"
  by (auto simp: resolve_background_def background_getaddrinfo_def Let_def split: prod.splits)

lemma completion_answer:
  "(addrinfo_of S x, op_ec S x) = A \<Longrightarrow> resolve_completion v x S = handler_gets v (op_query S x) A"
  by (auto simp: resolve_completion_def handler_gets_def)

lemma start_keeps_answers:
  assumes "answers_kept S" "x \<notin> answered S"
  shows "answers_kept (async_resolve locking ok r q x S)"
  using assms by (auto simp: answers_kept_def async_resolve_def start_resolve_op_def start_work_thread_def Let_def)

lemma background_keeps_answers:
  assumes "answers_kept S"
  shows "answers_kept ((resolve_background sys ok x S)\<lparr>told := (told S)(x \<mapsto> (expired (store S) (op_token S x), sys))\<rparr>)"
  using assms by (auto simp: answers_kept_def resolve_background_def background_getaddrinfo_def Let_def split: prod.splits if_splits)

lemma res_inv_step: "res_step S T \<Longrightarrow> res_inv S \<Longrightarrow> res_inv T"
proof (induction rule: res_step.induct)
  case (resolve_start S x locking ok r q)
  then have new: "x \<notin> asked S" by (auto simp: res_inv_def place_of_def split: if_splits)
  then have "x \<notin> answered S" using resolve_start.prems by (auto simp: res_inv_def)
  have unc: "x \<notin> set (called (main S))" using resolve_start called_phase [of "main S" x] by (simp add: res_inv_def)
  have "loop_reach (main (async_resolve locking ok r q x S))" "loop_reach (work (async_resolve locking ok r q x S))"
    using start_loops [OF resolve_start.hyps] resolve_start.prems by (simp_all add: res_inv_def)
  moreover have "\<forall>y \<in> asked (async_resolve locking ok r q x S). place_of (async_resolve locking ok r q x S) y"
    using resolve_start new by (auto simp: res_inv_def place_of_def async_resolve_def start_resolve_op_def start_work_thread_def Let_def)
  moreover have "filter (\<lambda>y. y \<in> insert x (asked S)) (called (main S)) = filter (\<lambda>y. y \<in> asked S) (called (main S))"
    using unc by (intro filter_cong) auto
  moreover have "\<forall>(y, ec) \<in> set (delivered S). y \<noteq> x"
    using delivered_called [OF resolve_start.prems] new by auto
  moreover have "answers_kept (async_resolve locking ok r q x S)"
    by (rule start_keeps_answers) (use \<open>x \<notin> answered S\<close> resolve_start.prems in \<open>simp_all add: res_inv_def\<close>)
  ultimately show ?case using resolve_start.prems
    by (auto simp: res_inv_def async_resolve_def start_resolve_op_def start_work_thread_def Let_def)
next
  case (work_call forever g S x ec n s')
  then show ?case using call_step [of "work S" forever g x ec n s']
    by (auto simp: res_inv_def place_of_def answers_kept_def split: if_splits)
next
  case (background S x sys ok)
  then have w: "phase (main S) x = Waiting" by (auto simp: res_inv_def place_of_def split: if_splits)
  then have "x \<notin> set (called (main S))" using background.prems called_phase [of "main S" x] by (simp add: res_inv_def)
  then have "\<forall>(y, ec) \<in> set (delivered S). y \<noteq> x" using delivered_called [OF background.prems] by auto
  moreover have "loop_reach (main (resolve_background sys ok x S))"
    using background_loops [OF w] background.prems by (simp add: res_inv_def)
  moreover have "\<forall>y \<in> asked S. place_of (resolve_background sys ok x S) y"
    using background by (auto simp: res_inv_def place_of_def resolve_background_def Let_def split: prod.splits)
  moreover have "answers_kept ((resolve_background sys ok x S)\<lparr>told := (told S)(x \<mapsto> (expired (store S) (op_token S x), sys))\<rparr>)"
    by (rule background_keeps_answers) (use background.prems in \<open>simp add: res_inv_def\<close>)
  ultimately show ?case using background
    by (auto simp: res_inv_def place_of_def resolve_background_def Let_def split: prod.splits)
next
  case (work_finish S x)
  then show ?case using loop_more [OF _ loop_step.finish [OF work_finish(1)]]
    by (auto simp: res_inv_def place_of_def answers_kept_def split: if_splits)
next
  case (main_call forever g S x ec n s')
  note c = call_step [of "main S" forever g x ec n s']
  have "x \<in> asked S \<longrightarrow> x \<in> answered S" using main_call c(2) by (auto simp: res_inv_def place_of_def split: if_splits)
  then show ?case using main_call c by (auto simp: res_inv_def place_of_def answers_kept_def split: if_splits)
next
  case (main_finish S x)
  then show ?case using loop_more [OF _ loop_step.finish [OF main_finish(1)]]
    by (auto simp: res_inv_def place_of_def answers_kept_def split: if_splits)
next
  case (main_other S M)
  then show ?case using loop_more [OF _ main_other(1)] by (auto simp: res_inv_def place_of_def answers_kept_def)
next
  case (work_other S W)
  then show ?case using loop_more [OF _ work_other(1)] by (auto simp: res_inv_def place_of_def answers_kept_def)
qed (auto simp: res_inv_def place_of_def answers_kept_def store_steps)

lemma loop_reach_new: "loop_reach \<lparr>io = new_iocp, phase = \<lambda>_. Unused, called = []\<rparr>"
  using loop_init by (simp add: loop_start_def)

lemma loop_reach_guard: "loop_reach \<lparr>io = work_started new_iocp, phase = (\<lambda>_. Unused)(guard := Waiting), called = []\<rparr>"
  using loop_more [OF loop_init loop_step.schedule [of loop_start guard]] by (simp add: loop_start_def)

lemma res_reach_inv: "res_reach S \<Longrightarrow> res_inv S"
proof (induction rule: res_reach.induct)
  case (res_init guard)
  show ?case by (simp add: res_inv_def answers_kept_def service_start_def store_ok_def loop_start_def loop_reach_new loop_reach_guard)
qed (rule res_inv_step)

section \<open>What a resolution does\<close>

lemma cancelled_token:
  assumes "store_ok ts" "tokens ts r = t"
  shows "expired (impl_cancel r ts) t"
  using assms by (auto simp: expired_def impl_cancel_def store_ok_def split: option.splits)

lemma cancelled_answer:
  assumes "store_ok (store S)" "op_token S x = tokens (store S) r"
  shows "resolve_completion v x (resolve_background sys ok x (S\<lparr>store := impl_cancel r (store S)\<rparr>)) =
    (operation_aborted, Inr (Inr end_iterator))"
  using cancelled_token [OF assms(1) assms(2) [symmetric]]
  by (simp add: resolve_background_def resolve_completion_def background_getaddrinfo_def Let_def)

lemma loop_has_work:
  assumes "loop_reach L" "x \<in> live L" "card (live L) < 2 ^ 32"
  shows "outstanding_work (io L) \<noteq> 0"
proof -
  have w: "finite (live L)" "outstanding_work (io L) = of_nat (card (live L))"
    using loop_reach_inv [OF assms(1)] by (simp_all add: loop_inv_def work_inv_def)
  then have "0 < card (live L)" using assms(2) by (auto simp: card_gt_0_iff)
  then show ?thesis using w(2) assms(3) by (simp add: word_of_nat_eq_0_iff nat_dvd_not_less)
qed

text \<open>
  C40. For every asynchronous resolution in every reachable state of the service: before the
  private loop ran it, it is with that loop and the program's loop counts it as work, the handler
  will get what the system answers if the implementation is still there, and if it is cancelled
  \<open>operation_aborted\<close> and no entries, whatever the system says; after that it is with the program's
  loop, and what its handler gets is exactly the answer of the system that was asked, its error and
  its entries, or \<open>operation_aborted\<close> if the token had expired then, or \<open>operation_not_supported\<close>
  if the service does not lock and never asked. Handlers are called at most once, each with the error of
  that answer, and an operation has been delivered exactly when the program's loop is running it or
  has run it.
\<close>

theorem resolver_completes_once:
  assumes "res_reach S" "x \<in> asked S"
  shows "(if x \<in> answered S
          then phase (main S) x \<in> {Posted, Running, Finished} \<and> phase (work S) x \<in> {Unused, Running, Finished} \<and>
               resolve_completion v x S = handler_gets v (op_query S x) (answer_of (told S x) (op_query S x))
          else phase (main S) x = Waiting \<and> phase (work S) x \<in> {Posted, Running} \<and>
               (card (live (main S)) < 2 ^ 32 \<longrightarrow> outstanding_work (io (main S)) \<noteq> 0) \<and>
               resolve_completion v x (resolve_background sys ok x S) =
                 handler_gets v (op_query S x) (answer_of (Some (expired (store S) (op_token S x), sys)) (op_query S x)) \<and>
               (op_token S x = tokens (store S) r \<longrightarrow>
                  resolve_completion v x (resolve_background sys ok x (S\<lparr>store := impl_cancel r (store S)\<rparr>)) =
                    (operation_aborted, Inr (Inr end_iterator)))) \<and>
         distinct (map fst (delivered S)) \<and>
         (x \<in> fst ` set (delivered S) \<longleftrightarrow> phase (main S) x \<in> {Running, Finished}) \<and>
         (\<forall>ec. (x, ec) \<in> set (delivered S) \<longrightarrow> x \<in> answered S \<and> ec = snd (answer_of (told S x) (op_query S x)))"
proof -
  have inv: "res_inv S" by (rule res_reach_inv [OF assms(1)])
  then have lr: "loop_reach (main S)" and st: "store_ok (store S)" and pl: "place_of S x"
    and dl: "map fst (delivered S) = filter (\<lambda>x. x \<in> asked S) (called (main S))"
    and ec: "\<forall>(x, ec) \<in> set (delivered S). ec = op_ec S x" and kept: "answers_kept S"
    using assms(2) by (simp_all add: res_inv_def)
  have "distinct (called (main S))" using loop_reach_inv [OF lr] by (simp add: loop_inv_def call_inv_def)
  then have d: "distinct (map fst (delivered S))" by (simp add: dl)
  have "fst ` set (delivered S) = set (filter (\<lambda>x. x \<in> asked S) (called (main S)))" using dl by (metis list.set_map)
  then have c: "x \<in> fst ` set (delivered S) \<longleftrightarrow> phase (main S) x \<in> {Running, Finished}"
    using assms(2) called_phase [OF lr, of x] by simp
  have ans: "x \<in> answered S \<and> ec = snd (answer_of (told S x) (op_query S x))" if "(x, ec) \<in> set (delivered S)" for ec
  proof -
    from that have "x \<in> fst ` set (delivered S)" by force
    then have "x \<in> answered S" using c pl by (auto simp: place_of_def split: if_splits)
    then have "op_ec S x = snd (answer_of (told S x) (op_query S x))" using kept unfolding answers_kept_def by (metis snd_conv)
    then show ?thesis using ec that \<open>x \<in> answered S\<close> by auto
  qed
  have finl: "resolve_completion v x S = handler_gets v (op_query S x) (answer_of (told S x) (op_query S x))" if "x \<in> answered S"
    using kept that by (intro completion_answer) (simp add: answers_kept_def)
  have q: "op_query (resolve_background sys ok x S) = op_query S"
    by (simp add: resolve_background_def Let_def split: prod.splits)
  have next_answer: "resolve_completion v x (resolve_background sys ok x S) =
      handler_gets v (op_query (resolve_background sys ok x S) x)
        (answer_of (Some (expired (store S) (op_token S x), sys)) (op_query S x))"
    by (rule completion_answer) (rule background_answer)
  have "x \<in> live (main S)" if "phase (main S) x = Waiting" using that by (simp add: live_def)
  then show ?thesis using pl d c ans finl next_answer [unfolded q]
      loop_has_work [OF lr, of x] cancelled_answer [OF st, of x r v sys ok]
    by (auto simp: place_of_def simp del: answer_of.simps)
qed

text \<open>A resolver asks, and its question is with the private loop.\<close>

definition asking :: "(nat, nat, nat) resolver_sys" where
  "asking = async_resolve True True 0 (new_query ''host'' ''http'' 0) 1
     (let S = service_start 0 in S\<lparr>store := impl_construct 0 (store S)\<rparr>)"

lemma asking_reached: "res_reach asking"
  unfolding asking_def Let_def
  by (rule res_more [OF res_more [OF res_init [of 0] res_step.constructing [of _ 0]] res_step.resolve_start])
    (simp_all add: service_start_def loop_start_def)

lemma asking_state:
  "1 \<in> asked asking \<and> 1 \<notin> answered asking \<and> op_token asking 1 = Some 0 \<and> tokens (store asking) 0 = Some 0"
  by (simp add: asking_def async_resolve_def start_resolve_op_def start_work_thread_def service_start_def
      impl_construct_def Let_def)

lemma resolver_completes_once_witness:
  "res_reach asking \<and> phase (main asking) 1 = Waiting \<and> 1 \<notin> fst ` set (delivered asking) \<and>
   resolve_completion 7 1 (resolve_background (\<lambda>_ _ _. (0, [], 0)) True 1 (asking\<lparr>store := impl_cancel 0 (store asking)\<rparr>)) =
     (operation_aborted, Inr (Inr end_iterator))"
  using resolver_completes_once [OF asking_reached, where x = 1 and r = 0 and v = 7 and sys = "\<lambda>_ _ _. (0, [], 0)" and ok = True] asking_reached asking_state
  by simp

end
