(* ===== verification/AsioStrand.thy ===== *)
theory AsioStrand
  imports AsioSocketService
begin

text \<open>
  Strands: \<^verbatim>\<open>detail/strand_executor_service.hpp\<close> and its two implementation files, which serialise
  functions over any executor, and \<^verbatim>\<open>detail/strand_service.hpp\<close>, the same for an \<^verbatim>\<open>io_context\<close>
  (here \<open>Classic\<close>). A strand has a lock flag and two queues under a mutex; whoever sets the flag
  schedules an invoker, which runs the queued functions and gives the flag up when there are none.

  One strand and any number of threads, as a step relation: a step is a section under the mutex
  or what one thread does between two of them. Shown: the functions of a strand never run at the
  same time, start in the order in which they were queued, and are never forgotten.
\<close>

section \<open>The strand\<close>

record strand =
  slocked :: bool
  sshutdown :: bool
  swaiting :: "nat list"
  sready :: "nat list"

definition strand_new :: strand where
  "strand_new = \<lparr>slocked = False, sshutdown = False, swaiting = [], sready = []\<rparr>"

text \<open>
  \<^verbatim>\<open>enqueue\<close> up to the unlocking of the mutex: the function is destroyed, waits, or its caller has
  acquired the lock and must still put it into the ready queue.
\<close>

datatype enqueued = Refused | Waits | First

definition strand_enqueue :: "nat \<Rightarrow> strand \<Rightarrow> enqueued \<times> strand" where
  "strand_enqueue op i =
     (if sshutdown i then (Refused, i)
      else if slocked i then (Waits, i\<lparr>swaiting := swaiting i @ [op]\<rparr>)
      else (First, i\<lparr>slocked := True\<rparr>))"

definition push_ready :: "nat \<Rightarrow> strand \<Rightarrow> strand" where
  "push_ready op i = i\<lparr>sready := sready i @ [op]\<rparr>"

text \<open>The destructor of \<^verbatim>\<open>on_invoker_exit\<close>: whether there are more handlers.\<close>

definition strand_exit :: "strand \<Rightarrow> bool \<times> strand" where
  "strand_exit i =
     (let r = sready i @ swaiting i; more_handlers = (r \<noteq> [])
      in (more_handlers, i\<lparr>sready := r, swaiting := [], slocked := more_handlers\<rparr>))"

definition strand_shutdown :: "strand \<Rightarrow> nat list \<times> strand" where
  "strand_shutdown i = (swaiting i @ sready i, i\<lparr>sshutdown := True, swaiting := [], sready := []\<rparr>)"

section \<open>Threads\<close>

text \<open>
  Where a thread is, innermost call first: inside a function of the strand that the invoker
  called or that was called at once, between \<^verbatim>\<open>enqueue\<close>'s unlocking and its push, before handing the
  invoker to the inner executor, in the invoker's loop, in the destructor of its exit guard before
  the mutex, and behind it with more handlers to schedule. How a function came decides how its
  invoker is handed over; an \<^verbatim>\<open>execute\<close> says whether the inner executor never blocks.
\<close>

datatype submission = By_execute bool | By_dispatch | By_post | By_defer

datatype frame =
  Function nat | Inline nat | Pushing nat submission | Scheduling submission | Invoking | Exiting | Rescheduling

text \<open>
  \<open>invokers\<close>: how many invokers the inner executor has. The lists are what was accepted into the
  strand, what has started, and what \<^verbatim>\<open>shutdown\<close> and \<^verbatim>\<open>enqueue\<close> destroyed.
\<close>

record strand_system =
  the_strand :: strand
  invokers :: nat
  frames :: "nat \<Rightarrow> frame list"
  accepted :: "nat list"
  begun :: "nat list"
  discarded :: "nat list"

definition strand_system_new :: strand_system where
  "strand_system_new =
     \<lparr>the_strand = strand_new, invokers = 0, frames = \<lambda>_. [], accepted = [], begun = [], discarded = []\<rparr>"

definition set_frames :: "nat \<Rightarrow> frame list \<Rightarrow> strand_system \<Rightarrow> strand_system" where
  "set_frames t fs s = s\<lparr>frames := (frames s)(t := fs)\<rparr>"

text \<open>The thread is in code of the program.\<close>

fun at_user :: "frame list \<Rightarrow> bool" where
  "at_user [] = True"
| "at_user (Function _ # _) = True"
| "at_user (Inline _ # _) = True"
| "at_user _ = False"

text \<open>
  \<^verbatim>\<open>call_stack<strand_impl>::contains\<close>: the context is entered before the loop and left after the
  destructor of the exit guard.
\<close>

definition in_strand :: "frame list \<Rightarrow> bool" where
  "in_strand fs \<longleftrightarrow> Invoking \<in> set fs \<or> Exiting \<in> set fs \<or> Rescheduling \<in> set fs"

definition strand_running_in_this_thread :: "nat \<Rightarrow> strand_system \<Rightarrow> bool" where
  "strand_running_in_this_thread t s = in_strand (frames s t)"

definition run_inline :: "nat \<Rightarrow> nat \<Rightarrow> strand_system \<Rightarrow> strand_system" where
  "run_inline t op s = set_frames t (Inline op # frames s t) s"

definition queue_function :: "nat \<Rightarrow> nat \<Rightarrow> submission \<Rightarrow> strand_system \<Rightarrow> strand_system" where
  "queue_function t op how s =
     (case strand_enqueue op (the_strand s) of
        (Refused, i) \<Rightarrow> s\<lparr>discarded := discarded s @ [op]\<rparr>
      | (Waits, i) \<Rightarrow> s\<lparr>the_strand := i, accepted := accepted s @ [op]\<rparr>
      | (First, i) \<Rightarrow> set_frames t (Pushing op how # frames s t) (s\<lparr>the_strand := i, accepted := accepted s @ [op]\<rparr>))"

definition strand_execute :: "bool \<Rightarrow> nat \<Rightarrow> nat \<Rightarrow> strand_system \<Rightarrow> strand_system" where
  "strand_execute never t op s =
     (if \<not> never \<and> strand_running_in_this_thread t s then run_inline t op s
      else queue_function t op (By_execute never) s)"

definition strand_dispatch :: "nat \<Rightarrow> nat \<Rightarrow> strand_system \<Rightarrow> strand_system" where
  "strand_dispatch t op s =
     (if strand_running_in_this_thread t s then run_inline t op s else queue_function t op By_dispatch s)"

definition strand_post :: "nat \<Rightarrow> nat \<Rightarrow> strand_system \<Rightarrow> strand_system" where
  "strand_post t op s = queue_function t op By_post s"

definition strand_defer :: "nat \<Rightarrow> nat \<Rightarrow> strand_system \<Rightarrow> strand_system" where
  "strand_defer t op s = queue_function t op By_defer s"

text \<open>
  The strands of an \<^verbatim>\<open>io_context\<close>. A dispatch from within the loop takes a free strand and runs the
  handler at once, under the exit guard; otherwise handlers are queued and the strand itself is the
  operation that is posted to the loop.
\<close>

definition classic_queue :: "nat \<Rightarrow> nat \<Rightarrow> strand_system \<Rightarrow> strand_system" where
  "classic_queue t op s =
     (let i = the_strand s; s' = s\<lparr>accepted := accepted s @ [op]\<rparr>
      in if slocked i then s'\<lparr>the_strand := i\<lparr>swaiting := swaiting i @ [op]\<rparr>\<rparr>
         else set_frames t (Pushing op By_post # frames s t) (s'\<lparr>the_strand := i\<lparr>slocked := True\<rparr>\<rparr>))"

definition classic_dispatch :: "bool \<Rightarrow> nat \<Rightarrow> nat \<Rightarrow> strand_system \<Rightarrow> strand_system" where
  "classic_dispatch can_dispatch t op s =
     (if strand_running_in_this_thread t s then run_inline t op s
      else if can_dispatch \<and> \<not> slocked (the_strand s)
      then
        set_frames t (Function op # Exiting # frames s t)
          (s\<lparr>the_strand := (the_strand s)\<lparr>slocked := True\<rparr>, accepted := accepted s @ [op], begun := begun s @ [op]\<rparr>)
      else classic_queue t op s)"

definition classic_post :: "nat \<Rightarrow> nat \<Rightarrow> strand_system \<Rightarrow> strand_system" where
  "classic_post t op s = classic_queue t op s"

text \<open>
  One round of the invoker's loop: take a function and call it, or leave the loop; the exit guard.
\<close>

definition invoker_round :: "nat \<Rightarrow> frame list \<Rightarrow> strand_system \<Rightarrow> strand_system" where
  "invoker_round t fs s =
     (case sready (the_strand s) of
        [] \<Rightarrow> set_frames t (Exiting # fs) s
      | op # r \<Rightarrow>
          set_frames t (Function op # Invoking # fs)
            (s\<lparr>the_strand := (the_strand s)\<lparr>sready := r\<rparr>, begun := begun s @ [op]\<rparr>))"

definition invoker_exit :: "nat \<Rightarrow> frame list \<Rightarrow> strand_system \<Rightarrow> strand_system" where
  "invoker_exit t fs s =
     (let (more_handlers, i) = strand_exit (the_strand s)
      in set_frames t (if more_handlers then Rescheduling # fs else fs) (s\<lparr>the_strand := i\<rparr>))"

datatype strand_kind = Over_executor | Classic

fun may_run_inline :: "submission \<Rightarrow> bool" where
  "may_run_inline (By_execute never) = (\<not> never)"
| "may_run_inline By_dispatch = True"
| "may_run_inline _ = False"

text \<open>
  A function that throws (\<open>thrown\<close>) leaves the invoker through its exit guard. The inner executor runs
  an invoker on any thread that is in code of the program. \<^verbatim>\<open>shutdown\<close> comes from the destructor of the
  context, when no thread is inside; afterwards the executor may drop the invoker.
\<close>

inductive strand_step :: "strand_kind \<Rightarrow> strand_system \<Rightarrow> strand_system \<Rightarrow> bool" where
  execute: "k = Over_executor \<Longrightarrow> at_user (frames s t) \<Longrightarrow> strand_step k s (strand_execute never t op s)"
| dispatch: "k = Over_executor \<Longrightarrow> at_user (frames s t) \<Longrightarrow> strand_step k s (strand_dispatch t op s)"
| post: "k = Over_executor \<Longrightarrow> at_user (frames s t) \<Longrightarrow> strand_step k s (strand_post t op s)"
| defer_it: "k = Over_executor \<Longrightarrow> at_user (frames s t) \<Longrightarrow> strand_step k s (strand_defer t op s)"
| classic_dispatch: "k = Classic \<Longrightarrow> at_user (frames s t) \<Longrightarrow> strand_step k s (classic_dispatch can_dispatch t op s)"
| classic_post: "k = Classic \<Longrightarrow> at_user (frames s t) \<Longrightarrow> strand_step k s (classic_post t op s)"
| push: "frames s t = Pushing op how # fs \<Longrightarrow>
    strand_step k s (set_frames t (Scheduling how # fs) (s\<lparr>the_strand := push_ready op (the_strand s)\<rparr>))"
| schedule: "frames s t = Scheduling how # fs \<Longrightarrow> strand_step k s (set_frames t fs (s\<lparr>invokers := invokers s + 1\<rparr>))"
| schedule_inline: "frames s t = Scheduling how # fs \<Longrightarrow> may_run_inline how \<Longrightarrow> strand_step k s (set_frames t (Invoking # fs) s)"
| start: "invokers s > 0 \<Longrightarrow> at_user (frames s t) \<Longrightarrow>
    strand_step k s (set_frames t (Invoking # frames s t) (s\<lparr>invokers := invokers s - 1\<rparr>))"
| round: "frames s t = Invoking # fs \<Longrightarrow> strand_step k s (invoker_round t fs s)"
| return: "frames s t = Function op # fs \<Longrightarrow> strand_step k s (set_frames t fs s)"
| return_inline: "frames s t = Inline op # fs \<Longrightarrow> strand_step k s (set_frames t fs s)"
| thrown: "frames s t = Function op # Invoking # fs \<Longrightarrow> strand_step k s (set_frames t (Exiting # fs) s)"
| exit: "frames s t = Exiting # fs \<Longrightarrow> strand_step k s (invoker_exit t fs s)"
| reschedule: "frames s t = Rescheduling # fs \<Longrightarrow> strand_step k s (set_frames t fs (s\<lparr>invokers := invokers s + 1\<rparr>))"
| shutdown: "k = Over_executor \<Longrightarrow> \<forall>t. frames s t = [] \<Longrightarrow>
    strand_step k s (s\<lparr>the_strand := snd (strand_shutdown (the_strand s)), discarded := discarded s @ fst (strand_shutdown (the_strand s))\<rparr>)"
| drop_invoker: "sshutdown (the_strand s) \<Longrightarrow> invokers s > 0 \<Longrightarrow> strand_step k s (s\<lparr>invokers := invokers s - 1\<rparr>)"

inductive strand_reach :: "strand_kind \<Rightarrow> strand_system \<Rightarrow> bool" for k where
  init: "strand_reach k strand_system_new"
| step: "strand_reach k s \<Longrightarrow> strand_step k s s' \<Longrightarrow> strand_reach k s'"

section \<open>One owner\<close>

text \<open>The frames of which there is one at most, as they hold the lock flag.\<close>

definition owning :: "frame \<Rightarrow> bool" where
  "owning f \<longleftrightarrow> (case f of Function _ \<Rightarrow> False | Inline _ \<Rightarrow> False | _ \<Rightarrow> True)"

definition owners :: "frame list \<Rightarrow> frame list" where
  "owners fs = filter owning fs"

fun nested_well :: "frame list \<Rightarrow> bool" where
  "nested_well [] = True"
| "nested_well (Function _ # fs) \<longleftrightarrow> (\<exists>gs. fs = Invoking # gs \<or> fs = Exiting # gs) \<and> nested_well fs"
| "nested_well (Inline _ # fs) \<longleftrightarrow> in_strand fs \<and> at_user fs \<and> nested_well fs"
| "nested_well (_ # fs) \<longleftrightarrow> at_user fs \<and> nested_well fs"

definition in_order :: "nat list \<Rightarrow> strand_system \<Rightarrow> bool" where
  "in_order xs s \<longleftrightarrow>
     (let i = the_strand s
      in if sshutdown i then xs = [] \<and> sready i = [] \<and> swaiting i = [] \<and> (\<exists>r. accepted s = begun s @ r)
         else accepted s = begun s @ sready i @ xs @ swaiting i)"

fun pushed :: "frame \<Rightarrow> nat list" where
  "pushed (Pushing op _) = [op]"
| "pushed _ = []"

datatype holder = Nobody | Executor | Thread nat frame

fun held :: "holder \<Rightarrow> strand_system \<Rightarrow> bool" where
  "held Nobody s \<longleftrightarrow> (\<not> slocked (the_strand s) \<or> sshutdown (the_strand s)) \<and> invokers s = 0 \<and> (\<forall>t. owners (frames s t) = []) \<and>
     in_order [] s \<and> sready (the_strand s) = [] \<and> swaiting (the_strand s) = []"
| "held Executor s \<longleftrightarrow> slocked (the_strand s) \<and> invokers s = 1 \<and> (\<forall>t. owners (frames s t) = []) \<and> in_order [] s"
| "held (Thread t f) s \<longleftrightarrow> slocked (the_strand s) \<and> invokers s = 0 \<and>
     owners (frames s t) = [f] \<and> (\<forall>t'. t' \<noteq> t \<longrightarrow> owners (frames s t') = []) \<and> in_order (pushed f) s"

definition strand_inv :: "strand_system \<Rightarrow> bool" where
  "strand_inv s \<longleftrightarrow> (\<forall>t. nested_well (frames s t)) \<and> (\<exists>h. held h s)"

lemma owning_simps [simp]:
  "\<not> owning (Function op)" "\<not> owning (Inline op)" "owning (Pushing op how)" "owning (Scheduling how)"
  "owning Invoking" "owning Exiting" "owning Rescheduling"
  by (simp_all add: owning_def)

lemma owners_simps [simp]:
  "owners [] = []" "owners (f # fs) = (if owning f then f # owners fs else owners fs)"
  by (simp_all add: owners_def)

lemma in_strand_simps [simp]: "\<not> in_strand []" "in_strand (f # fs) \<longleftrightarrow> f \<in> {Invoking, Exiting, Rescheduling} \<or> in_strand fs"
  by (auto simp: in_strand_def)

lemma in_strand_owners: "in_strand fs \<Longrightarrow> owners fs \<noteq> []"
  by (induction fs) (auto simp: owning_def split: frame.splits if_splits)

lemma set_frames_simps [simp]:
  "frames (set_frames t fs s) = (frames s)(t := fs)" "the_strand (set_frames t fs s) = the_strand s"
  "invokers (set_frames t fs s) = invokers s" "accepted (set_frames t fs s) = accepted s"
  "begun (set_frames t fs s) = begun s" "discarded (set_frames t fs s) = discarded s"
  by (simp_all add: set_frames_def)

lemma in_strand_owner: "in_strand fs \<Longrightarrow> \<exists>f \<in> set (owners fs). pushed f = []"
  by (auto simp: in_strand_def owners_def intro: bexI [of _ Invoking] bexI [of _ Exiting] bexI [of _ Rescheduling])

text \<open>A thread that owns nothing is outside.\<close>

lemma no_owner_outside: "nested_well fs \<Longrightarrow> owners fs = [] \<Longrightarrow> fs = []"
proof (cases fs)
  case (Cons f gs)
  assume "nested_well fs" "owners fs = []"
  then show ?thesis using Cons in_strand_owners [of gs] by (cases f) auto
qed simp

lemma held_owner:
  assumes "held h s" "f \<in> set (owners (frames s t))"
  shows "h = Thread t f"
proof (cases h)
  case (Thread t' f')
  then show ?thesis using assms by (cases "t = t'") auto
qed (use assms in auto)

lemma held_top: "held h s \<Longrightarrow> frames s t = f # fs \<Longrightarrow> owning f \<Longrightarrow> h = Thread t f \<and> owners fs = []"
proof -
  assume a: "held h s" "frames s t = f # fs" "owning f"
  then have "h = Thread t f" using held_owner [of h s f t] by simp
  then show ?thesis using a by simp
qed

text \<open>What the owner's thread does next decides who owns the strand.\<close>

lemma held_others:
  assumes "held h s" "owners fs = owners (frames s t)"
  shows "held h (set_frames t fs s)"
  using assms by (cases h) (auto simp: in_order_def Let_def)

lemma held_hand_over:
  assumes "held (Thread t f) s" "owners fs = []" "pushed f = []"
  shows "held Executor (set_frames t fs (s\<lparr>invokers := invokers s + 1\<rparr>))"
  using assms by (auto simp: in_order_def Let_def)

lemma strand_invI: "held h s \<Longrightarrow> \<forall>t. nested_well (frames s t) \<Longrightarrow> strand_inv s"
  by (auto simp: strand_inv_def)

lemma run_inline_inv:
  assumes "strand_inv s" "at_user (frames s t)" "strand_running_in_this_thread t s"
  shows "strand_inv (run_inline t op s)"
proof -
  obtain h where "held h s" using assms(1) by (auto simp: strand_inv_def)
  then have "held h (run_inline t op s)" unfolding run_inline_def by (rule held_others) simp
  then show ?thesis by (rule strand_invI) (use assms in \<open>auto simp: run_inline_def strand_inv_def strand_running_in_this_thread_def\<close>)
qed

lemma queue_function_inv:
  assumes "strand_inv s" "at_user (frames s t)"
  shows "strand_inv (queue_function t op how s)"
proof -
  let ?i = "the_strand s"
  obtain h where h: "held h s" and w: "\<forall>t. nested_well (frames s t)" using assms(1) by (auto simp: strand_inv_def)
  consider "sshutdown ?i" | "\<not> sshutdown ?i" "slocked ?i" | "\<not> sshutdown ?i" "\<not> slocked ?i" by blast
  then show ?thesis
  proof cases
    case 1
    then have "held h (queue_function t op how s)" using h
      by (cases h) (simp_all add: queue_function_def strand_enqueue_def in_order_def Let_def)
    then show ?thesis by (rule strand_invI) (use w 1 in \<open>simp add: queue_function_def strand_enqueue_def\<close>)
  next
    case 2
    then have "held h (queue_function t op how s)" using h
      by (cases h) (simp_all add: queue_function_def strand_enqueue_def in_order_def Let_def)
    then show ?thesis by (rule strand_invI) (use w 2 in \<open>simp add: queue_function_def strand_enqueue_def\<close>)
  next
    case 3
    then have n: "h = Nobody" using h by (cases h) auto
    have "held (Thread t (Pushing op how)) (queue_function t op how s)" using h n 3
      by (simp add: queue_function_def strand_enqueue_def in_order_def Let_def)
    then show ?thesis by (rule strand_invI) (use w 3 assms(2) in \<open>simp add: queue_function_def strand_enqueue_def\<close>)
  qed
qed

lemma classic_queue_inv:
  assumes "strand_inv s" "at_user (frames s t)" "\<not> sshutdown (the_strand s)"
  shows "strand_inv (classic_queue t op s)"
proof -
  have "classic_queue t op s = queue_function t op By_post s"
    using assms(3) by (simp add: classic_queue_def queue_function_def strand_enqueue_def Let_def)
  then show ?thesis using queue_function_inv [OF assms(1,2)] by simp
qed

lemma classic_dispatch_inv:
  assumes "strand_inv s" "at_user (frames s t)" "\<not> sshutdown (the_strand s)"
  shows "strand_inv (classic_dispatch can_dispatch t op s)"
proof -
  consider "strand_running_in_this_thread t s" | "\<not> strand_running_in_this_thread t s" "can_dispatch" "\<not> slocked (the_strand s)"
    | "\<not> strand_running_in_this_thread t s" "\<not> can_dispatch \<or> slocked (the_strand s)" by blast
  then show ?thesis
  proof cases
    case 1
    then show ?thesis using run_inline_inv [OF assms(1,2) 1] by (simp add: classic_dispatch_def)
  next
    case 2
    obtain h where h: "held h s" and w: "\<forall>t. nested_well (frames s t)" using assms(1) by (auto simp: strand_inv_def)
    have "h = Nobody" using h 2 by (cases h) auto
    then have "held (Thread t Exiting) (classic_dispatch can_dispatch t op s)" using h 2 assms(3)
      by (simp add: classic_dispatch_def in_order_def Let_def)
    then show ?thesis by (rule strand_invI) (use w 2 assms(2) in \<open>simp add: classic_dispatch_def\<close>)
  next
    case 3
    then show ?thesis using classic_queue_inv [OF assms] by (auto simp: classic_dispatch_def)
  qed
qed

text \<open>The steps of the owner's thread.\<close>

lemma owner_steps:
  assumes "strand_inv s"
  shows "frames s t = Pushing op how # fs \<Longrightarrow> strand_inv (set_frames t (Scheduling how # fs) (s\<lparr>the_strand := push_ready op (the_strand s)\<rparr>))"
    and "frames s t = Scheduling how # fs \<Longrightarrow> strand_inv (set_frames t fs (s\<lparr>invokers := invokers s + 1\<rparr>))"
    and "frames s t = Scheduling how # fs \<Longrightarrow> strand_inv (set_frames t (Invoking # fs) s)"
    and "frames s t = Invoking # fs \<Longrightarrow> strand_inv (invoker_round t fs s)"
    and "frames s t = Function op # Invoking # fs \<Longrightarrow> strand_inv (set_frames t (Exiting # fs) s)"
    and "frames s t = Exiting # fs \<Longrightarrow> strand_inv (invoker_exit t fs s)"
    and "frames s t = Rescheduling # fs \<Longrightarrow> strand_inv (set_frames t fs (s\<lparr>invokers := invokers s + 1\<rparr>))"
proof -
  obtain h where h: "held h s" and w: "\<forall>t. nested_well (frames s t)" using assms by (auto simp: strand_inv_def)
  note top = held_top [OF h]
  have wt: "nested_well (frames s t)" using w by blast
  show "strand_inv (set_frames t (Scheduling how # fs) (s\<lparr>the_strand := push_ready op (the_strand s)\<rparr>))" if f: "frames s t = Pushing op how # fs"
  proof -
    have "held (Thread t (Scheduling how)) (set_frames t (Scheduling how # fs) (s\<lparr>the_strand := push_ready op (the_strand s)\<rparr>))"
      using h top [OF f] f by (auto simp: in_order_def push_ready_def Let_def split: if_splits)
    then show ?thesis by (rule strand_invI) (use w wt f in simp)
  qed
  show "strand_inv (set_frames t fs (s\<lparr>invokers := invokers s + 1\<rparr>))" if f: "frames s t = Scheduling how # fs"
  proof -
    have "held (Thread t (Scheduling how)) s \<and> owners fs = []" using h top [OF f] by simp
    then have "held Executor (set_frames t fs (s\<lparr>invokers := invokers s + 1\<rparr>))" by (intro held_hand_over [of t "Scheduling how"]) simp_all
    then show ?thesis by (rule strand_invI) (use w wt f in simp)
  qed
  show "strand_inv (set_frames t (Invoking # fs) s)" if f: "frames s t = Scheduling how # fs"
  proof -
    have "held (Thread t Invoking) (set_frames t (Invoking # fs) s)" using h top [OF f] f by (auto simp: in_order_def Let_def)
    then show ?thesis by (rule strand_invI) (use w wt f in simp)
  qed
  show "strand_inv (invoker_round t fs s)" if f: "frames s t = Invoking # fs"
  proof (cases "sready (the_strand s)")
    case Nil
    then have "held (Thread t Exiting) (invoker_round t fs s)" using h top [OF f] f by (auto simp: in_order_def invoker_round_def Let_def)
    then show ?thesis by (rule strand_invI) (use w wt f Nil in \<open>simp add: invoker_round_def\<close>)
  next
    case (Cons op r)
    then have "held (Thread t Invoking) (invoker_round t fs s)" using h top [OF f] f
      by (auto simp: in_order_def invoker_round_def Let_def split: if_splits)
    then show ?thesis by (rule strand_invI) (use w wt f Cons in \<open>simp add: invoker_round_def\<close>)
  qed
  show "strand_inv (set_frames t (Exiting # fs) s)" if f: "frames s t = Function op # Invoking # fs"
  proof -
    have "h = Thread t Invoking \<and> owners fs = []" using held_owner [OF h, of Invoking t] h f by auto
    then have "held (Thread t Exiting) (set_frames t (Exiting # fs) s)" using h f by (auto simp: in_order_def Let_def)
    then show ?thesis by (rule strand_invI) (use w wt f in simp)
  qed
  show "strand_inv (invoker_exit t fs s)" if f: "frames s t = Exiting # fs"
  proof (cases "sready (the_strand s) @ swaiting (the_strand s) = []")
    case True
    then have "held Nobody (invoker_exit t fs s)" using h top [OF f] f
      by (auto simp: in_order_def invoker_exit_def strand_exit_def Let_def split: if_splits)
    then show ?thesis by (rule strand_invI) (use w wt f True in \<open>simp add: invoker_exit_def strand_exit_def\<close>)
  next
    case False
    then have "held (Thread t Rescheduling) (invoker_exit t fs s)" using h top [OF f] f
      by (auto simp: in_order_def invoker_exit_def strand_exit_def Let_def split: if_splits)
    then show ?thesis by (rule strand_invI) (use w wt f False in \<open>auto simp: invoker_exit_def strand_exit_def Let_def\<close>)
  qed
  show "strand_inv (set_frames t fs (s\<lparr>invokers := invokers s + 1\<rparr>))" if f: "frames s t = Rescheduling # fs"
  proof -
    have "held (Thread t Rescheduling) s \<and> owners fs = []" using h top [OF f] by simp
    then have "held Executor (set_frames t fs (s\<lparr>invokers := invokers s + 1\<rparr>))" by (intro held_hand_over [of t Rescheduling]) simp_all
    then show ?thesis by (rule strand_invI) (use w wt f in simp)
  qed
qed

lemma strand_step_inv:
  assumes "strand_step k s s'" "strand_inv s" "k = Classic \<longrightarrow> \<not> sshutdown (the_strand s)"
  shows "strand_inv s'"
  using assms(1)
proof cases
  case (start t)
  obtain h where h: "held h s" and w: "\<forall>t. nested_well (frames s t)" using assms(2) by (auto simp: strand_inv_def)
  have "h = Executor" using h start(2) by (cases h) auto
  then have "held (Thread t Invoking) s'" using h start by (auto simp: in_order_def Let_def)
  then show ?thesis by (rule strand_invI) (use w start in simp)
next
  case (return t op fs)
  obtain h where h: "held h s" and w: "\<forall>t. nested_well (frames s t)" using assms(2) by (auto simp: strand_inv_def)
  have "held h s'" unfolding return(1) by (rule held_others [OF h]) (simp add: return(2))
  moreover have "nested_well fs" using w return(2) by (metis nested_well.simps(2))
  ultimately show ?thesis by (intro strand_invI [of h]) (use w return in simp_all)
next
  case (return_inline t op fs)
  obtain h where h: "held h s" and w: "\<forall>t. nested_well (frames s t)" using assms(2) by (auto simp: strand_inv_def)
  have "held h s'" unfolding return_inline(1) by (rule held_others [OF h]) (simp add: return_inline(2))
  moreover have "nested_well fs" using w return_inline(2) by (metis nested_well.simps(3))
  ultimately show ?thesis by (intro strand_invI [of h]) (use w return_inline in simp_all)
next
  case shutdown
  obtain h where h: "held h s" using assms(2) by (auto simp: strand_inv_def)
  then have "held h s'" using shutdown by (cases h) (auto simp: strand_shutdown_def in_order_def Let_def split: if_splits)
  then show ?thesis by (rule strand_invI) (use shutdown in simp)
next
  case drop_invoker
  obtain h where h: "held h s" and w: "\<forall>t. nested_well (frames s t)" using assms(2) by (auto simp: strand_inv_def)
  have "h = Executor" using h drop_invoker(3) by (cases h) auto
  then have "held Nobody s'" using h drop_invoker by (auto simp: in_order_def Let_def)
  then show ?thesis by (rule strand_invI) (use w drop_invoker in simp)
qed (use assms(2,3) owner_steps in \<open>auto simp: strand_execute_def strand_dispatch_def strand_post_def strand_defer_def classic_post_def
  intro: run_inline_inv queue_function_inv classic_queue_inv classic_dispatch_inv\<close>)

lemma set_enqueue: "sshutdown (the_strand (queue_function t op how s)) = sshutdown (the_strand s)"
  "sshutdown (the_strand (classic_queue t op s)) = sshutdown (the_strand s)"
  "sshutdown (the_strand (run_inline t op s)) = sshutdown (the_strand s)"
  by (simp_all add: queue_function_def strand_enqueue_def classic_queue_def run_inline_def Let_def)

lemma strand_step_open:
  assumes "strand_step k s s'" "k = Classic" "\<not> sshutdown (the_strand s)"
  shows "\<not> sshutdown (the_strand s')"
  using assms by cases (auto simp: strand_execute_def strand_dispatch_def strand_post_def strand_defer_def classic_post_def classic_dispatch_def
    set_enqueue push_ready_def invoker_round_def invoker_exit_def strand_exit_def Let_def split: list.split)

lemma strand_new_inv: "strand_inv strand_system_new"
  by (rule strand_invI [of Nobody]) (simp_all add: strand_system_new_def strand_new_def in_order_def)

lemma strand_reach_inv: "strand_reach k s \<Longrightarrow> strand_inv s \<and> (k = Classic \<longrightarrow> \<not> sshutdown (the_strand s))"
  by (induction rule: strand_reach.induct)
    (use strand_new_inv strand_step_inv strand_step_open in \<open>auto simp: strand_system_new_def strand_new_def\<close>)

section \<open>What a strand promises\<close>

definition inside :: "strand_system \<Rightarrow> nat \<Rightarrow> bool" where
  "inside s t \<longleftrightarrow> (\<exists>op. Function op \<in> set (frames s t) \<or> Inline op \<in> set (frames s t))"

definition called :: "frame list \<Rightarrow> nat list" where
  "called fs = concat (map (\<lambda>f. case f of Function op \<Rightarrow> [op] | _ \<Rightarrow> []) fs)"

lemma called_simps [simp]: "called [] = []" "called (f # fs) = (case f of Function op \<Rightarrow> op # called fs | _ \<Rightarrow> called fs)"
  by (simp_all add: called_def split: frame.split)

lemma inside_in_strand: "nested_well fs \<Longrightarrow> Function op \<in> set fs \<or> Inline op \<in> set fs \<Longrightarrow> in_strand fs"
  by (induction fs rule: nested_well.induct) auto

lemma called_owned: "nested_well fs \<Longrightarrow> length (called fs) \<le> length (owners fs) \<and>
    (\<forall>gs. fs = Invoking # gs \<or> fs = Exiting # gs \<longrightarrow> length (called gs) \<le> length (owners gs))"
  by (induction fs rule: nested_well.induct) auto

lemma one_owner: "held h s \<Longrightarrow> length (owners (frames s t)) \<le> 1"
proof (cases h)
  case (Thread t' f)
  assume "held h s"
  then show ?thesis using Thread by (cases "t = t'") auto
qed auto

text \<open>
  C31. In every reachable state of a strand of either kind, at most one thread is inside functions of
  the strand, that thread knows it, it is inside one queued function, at most one invoker is on its way,
  and the functions have started in the order in which the strand accepted them; until a shutdown
  the others are all in its queues.
\<close>

theorem strand_serialises:
  assumes "strand_reach k s"
  shows "(inside s t \<longrightarrow> strand_running_in_this_thread t s) \<and> (inside s t \<and> inside s t' \<longrightarrow> t = t') \<and>
    length (called (frames s t)) \<le> 1 \<and> invokers s \<le> 1 \<and> (\<exists>r. accepted s = begun s @ r) \<and>
    (\<not> sshutdown (the_strand s) \<and> inside s t \<longrightarrow>
      accepted s = begun s @ sready (the_strand s) @ swaiting (the_strand s))"
proof -
  obtain h where h: "held h s" and w: "\<And>t. nested_well (frames s t)"
    using strand_reach_inv [OF assms] by (auto simp: strand_inv_def)
  have run: "strand_running_in_this_thread t s" if "inside s t" for t
    using that inside_in_strand [OF w [of t]] by (auto simp: inside_def strand_running_in_this_thread_def)
  have owns: "\<exists>f. h = Thread t f" if i: "inside s t" for t
  proof -
    obtain f where "f \<in> set (owners (frames s t))"
      using in_strand_owners run [OF i] by (auto simp: strand_running_in_this_thread_def neq_Nil_conv) (metis list.set_intros(1))
    then show ?thesis using held_owner [OF h] by blast
  qed
  have one: "length (owners (frames s t)) \<le> 1" using one_owner [OF h] .
  have "length (called (frames s t)) \<le> 1" using called_owned [OF w [of t]] one by (meson order_trans)
  moreover have "invokers s \<le> 1" "\<exists>r. accepted s = begun s @ r" using h by (cases h; auto simp: in_order_def Let_def split: if_splits)+
  moreover have "accepted s = begun s @ sready (the_strand s) @ swaiting (the_strand s)"
    if a: "\<not> sshutdown (the_strand s)" "inside s t"
  proof -
    obtain f where "f \<in> set (owners (frames s t))" "pushed f = []"
      using in_strand_owner run [OF a(2)] by (auto simp: strand_running_in_this_thread_def)
    then show ?thesis using h held_owner [OF h] a(1) by (fastforce simp: in_order_def Let_def)
  qed
  ultimately show ?thesis using run owns by (metis holder.inject)
qed

text \<open>A run without submissions.\<close>

definition goes :: "strand_kind \<Rightarrow> strand_system \<Rightarrow> strand_system \<Rightarrow> bool" where
  "goes k s s' \<longleftrightarrow> (strand_step k)\<^sup>*\<^sup>* s s' \<and> accepted s' = accepted s \<and> strand_inv s' \<and> \<not> sshutdown (the_strand s')"

lemma goes_trans: "goes k s s1 \<Longrightarrow> goes k s1 s2 \<Longrightarrow> goes k s s2"
  by (auto simp: goes_def)

lemma goes_step:
  assumes "strand_inv s" "\<not> sshutdown (the_strand s)" "strand_step k s s'" "accepted s' = accepted s" "\<not> sshutdown (the_strand s')"
  shows "goes k s s'"
  using assms strand_step_inv [OF assms(3,1)] by (auto simp: goes_def)

lemma goes_open: "goes k s s' \<Longrightarrow> strand_inv s' \<and> \<not> sshutdown (the_strand s') \<and> accepted s' = accepted s"
  by (simp add: goes_def)

lemma goes_refl: "strand_inv s \<Longrightarrow> \<not> sshutdown (the_strand s) \<Longrightarrow> goes k s s"
  by (simp add: goes_def)

text \<open>The functions above the owner's frame return.\<close>

lemma unwind:
  assumes "strand_inv s" "\<not> sshutdown (the_strand s)" "owners (frames s t) = [f]"
  shows "\<exists>s' fs. goes k s s' \<and> frames s' t = f # fs"
  using assms
proof (induction "frames s t" arbitrary: s)
  case Nil
  then show ?case by (metis list.distinct(1) owners_simps(1))
next
  case (Cons g gs)
  show ?case
  proof (cases "owning g")
    case True
    then have "frames s t = f # gs" using Cons(2,5) by (metis list.inject owners_simps(2))
    then show ?thesis using goes_refl [OF Cons(3,4)] by blast
  next
    case False
    let ?s = "set_frames t gs s"
    have "strand_step k s ?s" using False Cons(2) [symmetric] strand_step.return strand_step.return_inline
      by (cases g) auto
    from goes_step [OF Cons(3,4) this] Cons(4) have g: "goes k s ?s" by simp
    have "owners gs = [f]" using Cons(2,5) False by (metis owners_simps(2))
    then obtain s' fs where "goes k ?s s'" "frames s' t = f # fs"
      using Cons(1) [of ?s] goes_open [OF g] by auto
    then show ?thesis using goes_trans [OF g] by blast
  qed
qed

text \<open>The invoker runs what is ready.\<close>

lemma drain:
  assumes "strand_inv s" "\<not> sshutdown (the_strand s)" "frames s t = Invoking # fs"
  shows "\<exists>s'. goes k s s' \<and> frames s' t = Exiting # fs \<and> sready (the_strand s') = [] \<and> swaiting (the_strand s') = swaiting (the_strand s)"
  using assms
proof (induction "sready (the_strand s)" arbitrary: s)
  case Nil
  let ?s = "set_frames t (Exiting # fs) s"
  have "strand_step k s ?s" using strand_step.round [OF Nil(4), of k] Nil(1) [symmetric] by (simp add: invoker_round_def)
  from goes_step [OF Nil(2,3) this] Nil(1,3) show ?case by (intro exI [of _ ?s]) simp
next
  case (Cons op r)
  let ?s1 = "set_frames t (Function op # Invoking # fs) (s\<lparr>the_strand := (the_strand s)\<lparr>sready := r\<rparr>, begun := begun s @ [op]\<rparr>)"
  let ?s2 = "set_frames t (Invoking # fs) ?s1"
  have "strand_step k s ?s1" using strand_step.round [OF Cons(5), of k] Cons(2) [symmetric] by (simp add: invoker_round_def)
  from goes_step [OF Cons(3,4) this] Cons(4) have g1: "goes k s ?s1" by simp
  have "strand_step k ?s1 ?s2" by (rule strand_step.return [of _ _ op]) simp
  from goes_step [OF _ _ this] goes_open [OF g1] have g2: "goes k ?s1 ?s2" by simp
  obtain s' where "goes k ?s2 s'" "frames s' t = Exiting # fs" "sready (the_strand s') = []" "swaiting (the_strand s') = swaiting (the_strand ?s2)"
    using Cons(1) [of ?s2] goes_open [OF g2] by auto
  then show ?case using goes_trans [OF goes_trans [OF g1 g2]] by (intro exI [of _ s']) simp
qed

lemma start_drain:
  assumes "strand_inv s" "\<not> sshutdown (the_strand s)" "held Executor s"
  shows "\<exists>s' fs. goes k s s' \<and> frames s' 0 = Exiting # fs \<and> sready (the_strand s') = [] \<and> swaiting (the_strand s') = swaiting (the_strand s)"
proof -
  let ?s = "set_frames 0 (Invoking # frames s 0) (s\<lparr>invokers := invokers s - 1\<rparr>)"
  have "frames s 0 = []" using assms(1,3) no_owner_outside [of "frames s 0"] by (auto simp: strand_inv_def)
  then have "strand_step k s ?s" using strand_step.start [of s 0 k] assms(3) by simp
  from goes_step [OF assms(1,2) this] assms(2) have g: "goes k s ?s" by simp
  then obtain s' where "goes k ?s s'" "frames s' 0 = Exiting # frames s 0" "sready (the_strand s') = []" "swaiting (the_strand s') = swaiting (the_strand ?s)"
    using drain [of ?s 0 "frames s 0" k] goes_open [OF g] by auto
  then show ?thesis using goes_trans [OF g] by (intro exI [of _ s']) auto
qed

text \<open>The exit guard ends the work, or hands what waited to a new invoker.\<close>

definition settled :: "strand_system \<Rightarrow> bool" where
  "settled s \<longleftrightarrow> begun s = accepted s \<and> \<not> slocked (the_strand s)"

lemma exit_hands_over:
  assumes "strand_inv s" "\<not> sshutdown (the_strand s)" "frames s t = Exiting # fs"
  shows "\<exists>s'. goes k s s' \<and> (settled s' \<or> held Executor s' \<and> swaiting (the_strand s') = []) \<and>
    (sready (the_strand s) = [] \<and> swaiting (the_strand s) = [] \<longrightarrow> settled s')"
proof -
  let ?s = "invoker_exit t fs s"
  have "strand_step k s ?s" using strand_step.exit [OF assms(3)] .
  from goes_step [OF assms(1,2) this] assms(2) have g: "goes k s ?s"
    by (simp add: invoker_exit_def strand_exit_def Let_def)
  obtain h where h: "held h ?s" using goes_open [OF g] by (auto simp: strand_inv_def)
  show ?thesis
  proof (cases "sready (the_strand s) @ swaiting (the_strand s) = []")
    case True
    then have "\<not> slocked (the_strand ?s)" by (simp add: invoker_exit_def strand_exit_def)
    then have "settled ?s" using h goes_open [OF g] by (cases h) (auto simp: settled_def in_order_def Let_def)
    then show ?thesis using g by blast
  next
    case False
    then have f: "frames ?s t = Rescheduling # fs" "swaiting (the_strand ?s) = []"
      by (simp_all add: invoker_exit_def strand_exit_def Let_def)
    let ?s2 = "set_frames t fs (?s\<lparr>invokers := invokers ?s + 1\<rparr>)"
    have "strand_step k ?s ?s2" using strand_step.reschedule [OF f(1)] .
    from goes_step [OF _ _ this] goes_open [OF g] have g2: "goes k ?s ?s2" by simp
    have "h = Thread t Rescheduling \<and> owners fs = []" using held_top [OF h f(1)] by simp
    then have "held Executor ?s2" using held_hand_over [of t Rescheduling ?s fs] h by simp
    then show ?thesis using goes_trans [OF g g2] f(2) False by (intro exI [of _ ?s2]) auto
  qed
qed

lemma executor_settles:
  assumes "strand_inv s" "\<not> sshutdown (the_strand s)" "held Executor s"
  shows "\<exists>s'. goes k s s' \<and> settled s'"
proof -
  have again: "\<exists>s'. goes k s s' \<and> settled s'"
    if a: "strand_inv s" "\<not> sshutdown (the_strand s)" "held Executor s" "swaiting (the_strand s) = []" for s
  proof -
    obtain s1 fs where s1: "goes k s s1" "frames s1 0 = Exiting # fs" "sready (the_strand s1) = []" "swaiting (the_strand s1) = []"
      using start_drain [OF a(1,2,3), of k] a(4) by auto
    then show ?thesis using exit_hands_over [OF _ _ s1(2), of k] goes_open [OF s1(1)] goes_trans [OF s1(1)] by blast
  qed
  obtain s1 fs where s1: "goes k s s1" "frames s1 0 = Exiting # fs" using start_drain [OF assms, of k] by auto
  obtain s2 where s2: "goes k s1 s2" "settled s2 \<or> held Executor s2 \<and> swaiting (the_strand s2) = []"
    using exit_hands_over [OF _ _ s1(2), of k] goes_open [OF s1(1)] by blast
  then show ?thesis using again [of s2] goes_open [OF s2(1)] goes_trans [OF s1(1)] goes_trans by meson
qed

lemma hand_over_settles:
  assumes "strand_inv s" "\<not> sshutdown (the_strand s)" "held (Thread t f) s" "frames s t = f # fs" "f = Scheduling how \<or> f = Rescheduling"
  shows "\<exists>s'. goes k s s' \<and> settled s'"
proof -
  let ?s = "set_frames t fs (s\<lparr>invokers := invokers s + 1\<rparr>)"
  have "strand_step k s ?s" using strand_step.schedule [of s t how fs k] strand_step.reschedule [of s t fs k] assms(4,5) by auto
  from goes_step [OF assms(1,2) this] assms(2) have g: "goes k s ?s" by simp
  have "owning f" "pushed f = []" using assms(5) by auto
  then have "held Executor ?s" using held_hand_over [OF assms(3), of fs] held_top [OF assms(3,4)] by blast
  then show ?thesis using executor_settles [of ?s k] goes_open [OF g] goes_trans [OF g] by blast
qed

lemma owner_settles:
  assumes "strand_inv s" "\<not> sshutdown (the_strand s)" "frames s t = f # fs" "owning f"
  shows "\<exists>s'. goes k s s' \<and> settled s'"
proof -
  obtain h where "held h s" using assms(1) by (auto simp: strand_inv_def)
  then have h: "held (Thread t f) s" using held_top [OF _ assms(3,4)] by blast
  have exiting: "\<exists>s'. goes k s s' \<and> settled s'"
    if e: "strand_inv s" "\<not> sshutdown (the_strand s)" "frames s t = Exiting # fs" for s
  proof -
    obtain s1 where "goes k s s1" "settled s1 \<or> held Executor s1" using exit_hands_over [OF e, of k] by blast
    then show ?thesis using executor_settles [of s1 k] goes_open [of k s s1] goes_trans [of k s s1] by blast
  qed
  show ?thesis
  proof (cases f)
    case (Pushing op how)
    let ?s = "set_frames t (Scheduling how # fs) (s\<lparr>the_strand := push_ready op (the_strand s)\<rparr>)"
    have "strand_step k s ?s" using strand_step.push [of s t op how fs k] assms(3) Pushing by simp
    from goes_step [OF assms(1,2) this] assms(2) have g: "goes k s ?s" by (simp add: push_ready_def)
    have f: "frames ?s t = Scheduling how # fs" by simp
    obtain h' where "held h' ?s" using goes_open [OF g] by (auto simp: strand_inv_def)
    then have "held (Thread t (Scheduling how)) ?s" using held_top [OF _ f] by auto
    from hand_over_settles [OF _ _ this f, of how k] show ?thesis using goes_open [OF g] goes_trans [OF g] by blast
  next
    case Invoking
    then obtain s1 where s1: "goes k s s1" "frames s1 t = Exiting # fs" using drain [OF assms(1,2), of t fs k] assms(3) by auto
    then show ?thesis using exiting [OF _ _ s1(2)] goes_open [OF s1(1)] goes_trans [OF s1(1)] by blast
  next
    case Exiting
    then show ?thesis using exiting assms(1,2,3) by simp
  qed (use hand_over_settles [OF assms(1,2) h assms(3), of _ k] assms(4) in auto)
qed

text \<open>
  C32. A strand forgets nothing: from every reachable state that is not shut down, the functions
  return, the executor runs the invokers it has been given, and then every function the strand has
  accepted has started and the strand is free.
\<close>

theorem strand_forgets_nothing:
  assumes "strand_reach k s" "\<not> sshutdown (the_strand s)"
  shows "\<exists>s'. (strand_step k)\<^sup>*\<^sup>* s s' \<and> accepted s' = accepted s \<and> begun s' = accepted s \<and> \<not> slocked (the_strand s')"
proof -
  have i: "strand_inv s" using strand_reach_inv [OF assms(1)] by simp
  then obtain h where h: "held h s" by (auto simp: strand_inv_def)
  have "\<exists>s'. goes k s s' \<and> settled s'"
  proof (cases h)
    case Nobody
    then have "settled s" using h assms(2) by (simp add: settled_def in_order_def Let_def)
    then show ?thesis using goes_refl [OF i assms(2)] by blast
  next
    case Executor
    then show ?thesis using executor_settles [OF i assms(2)] h by simp
  next
    case (Thread t f)
    then have "owners (frames s t) = [f]" using h by simp
    then obtain s1 fs where s1: "goes k s s1" "frames s1 t = f # fs" using unwind [OF i assms(2)] by blast
    have "owning f" using \<open>owners (frames s t) = [f]\<close> by (metis filter_eq_Cons_iff owners_def)
    then show ?thesis using owner_settles [OF _ _ s1(2)] goes_open [OF s1(1)] goes_trans [OF s1(1)] by blast
  qed
  then show ?thesis by (auto simp: goes_def settled_def)
qed

text \<open>Thread 3 posts twice while thread 4, to which the executor gave the invoker, runs the first function.\<close>

definition two_posts :: strand_system where
  "two_posts =
     (let s1 = strand_post 3 7 strand_system_new;
          s2 = set_frames 3 [Scheduling By_post] (s1\<lparr>the_strand := push_ready 7 (the_strand s1)\<rparr>);
          s3 = set_frames 3 [] (s2\<lparr>invokers := invokers s2 + 1\<rparr>);
          s4 = set_frames 4 [Invoking] (s3\<lparr>invokers := invokers s3 - 1\<rparr>);
          s5 = invoker_round 4 [] s4
      in strand_post 3 8 s5)"

lemma two_posts_reached: "strand_reach Over_executor two_posts"
proof -
  define s1 where "s1 = strand_post 3 7 strand_system_new"
  define s2 where "s2 = set_frames 3 [Scheduling By_post] (s1\<lparr>the_strand := push_ready 7 (the_strand s1)\<rparr>)"
  define s3 where "s3 = set_frames 3 [] (s2\<lparr>invokers := invokers s2 + 1\<rparr>)"
  define s4 where "s4 = set_frames 4 [Invoking] (s3\<lparr>invokers := invokers s3 - 1\<rparr>)"
  note defs = s1_def s2_def s3_def s4_def strand_post_def queue_function_def strand_enqueue_def strand_system_new_def strand_new_def
  have "strand_reach Over_executor s1" unfolding s1_def
    by (intro strand_reach.step [OF strand_reach.init] strand_step.post) (simp_all add: strand_system_new_def)
  then have "strand_reach Over_executor s2" unfolding s2_def by (rule strand_reach.step) (rule strand_step.push, simp add: defs)
  then have "strand_reach Over_executor s3" unfolding s3_def by (rule strand_reach.step) (rule strand_step.schedule, simp add: defs)
  moreover have "s4 = set_frames 4 (Invoking # frames s3 4) (s3\<lparr>invokers := invokers s3 - 1\<rparr>)" by (simp add: defs)
  ultimately have "strand_reach Over_executor s4" using strand_reach.step [OF _ strand_step.start [of s3 4]] by (simp add: defs)
  then have "strand_reach Over_executor (invoker_round 4 [] s4)" by (rule strand_reach.step) (rule strand_step.round, simp add: defs)
  then show ?thesis unfolding two_posts_def Let_def s1_def [symmetric] s2_def [symmetric] s3_def [symmetric] s4_def [symmetric]
    by (rule strand_reach.step) (rule strand_step.post, simp_all add: defs invoker_round_def push_ready_def)
qed

lemma two_posts_state:
  "accepted two_posts = [7, 8]" "begun two_posts = [7]" "frames two_posts 4 = [Function 7, Invoking]"
  "swaiting (the_strand two_posts) = [8]" "sready (the_strand two_posts) = []" "\<not> sshutdown (the_strand two_posts)"
  by (simp_all add: two_posts_def strand_post_def queue_function_def strand_enqueue_def strand_system_new_def strand_new_def
    invoker_round_def push_ready_def Let_def)

lemma strand_serialises_witness:
  "inside two_posts 4 \<and> \<not> inside two_posts 3 \<and> strand_running_in_this_thread 4 two_posts \<and>
   accepted two_posts = begun two_posts @ sready (the_strand two_posts) @ swaiting (the_strand two_posts)"
proof -
  have "inside two_posts 4" by (auto simp: inside_def two_posts_state(3))
  then show ?thesis using strand_serialises [OF two_posts_reached, of 4 3] two_posts_state(6) by auto
qed

lemma strand_forgets_nothing_witness:
  "\<exists>s'. (strand_step Over_executor)\<^sup>*\<^sup>* two_posts s' \<and> begun s' = [7, 8] \<and> \<not> slocked (the_strand s')"
  using strand_forgets_nothing [OF two_posts_reached two_posts_state(6)] two_posts_state(1) by auto

section \<open>The services\<close>

text \<open>
  The service of strands over executors keeps a list of them and 193 mutexes that they share; the one
  of an \<^verbatim>\<open>io_context\<close> has 193 strands that its users share. Both pick by a hash of the address of
  the new object and a salt. A destroyed strand's own links are gone.
\<close>

unbundle bit_operations_syntax

definition strand_hash :: "64 word \<Rightarrow> 64 word \<Rightarrow> nat" where
  "strand_hash salt address =
     (let i = address + drop_bit 3 address
      in unat ((i XOR (salt + 0x9e3779b9 + push_bit 6 i + drop_bit 2 i)) mod 193))"

lemma strand_hash_bound: "strand_hash salt address < 193"
proof -
  have "unat (x mod (193 :: 64 word)) < 193" for x by (simp add: unat_mod)
  then show ?thesis by (simp add: strand_hash_def Let_def)
qed

record strand_service =
  strand_list :: "64 word dlist"
  strand_mutexes :: "nat set"
  strand_salt :: "64 word"
  strand_impls :: "64 word \<Rightarrow> strand"
  strand_mutex :: "64 word \<Rightarrow> nat"

definition create_implementation :: "64 word \<Rightarrow> strand_service \<Rightarrow> strand_service" where
  "create_implementation k sv =
     (let mutex_index = strand_hash (strand_salt sv) k
      in sv\<lparr>strand_salt := strand_salt sv + 1,
            strand_mutexes := insert mutex_index (strand_mutexes sv),
            strand_mutex := (strand_mutex sv)(k := mutex_index),
            strand_impls := (strand_impls sv)(k := strand_new),
            strand_list := dl_insert k (strand_list sv)\<rparr>)"

definition destroy_implementation :: "64 word \<Rightarrow> strand_service \<Rightarrow> strand_service" where
  "destroy_implementation k sv = sv\<lparr>strand_list := dl_remove k (strand_list sv)\<rparr>"

text \<open>\<^verbatim>\<open>shutdown\<close>: the operations it destroys and the service afterwards.\<close>

partial_function (option) strand_walk :: "64 word option \<Rightarrow> nat list \<Rightarrow> strand_service \<Rightarrow> (nat list \<times> strand_service) option" where
  "strand_walk impl ops sv =
     (case impl of
        None \<Rightarrow> Some (ops, sv)
      | Some k \<Rightarrow>
          let (destroyed, i) = strand_shutdown (strand_impls sv k)
          in strand_walk (dl_next (strand_list sv) k) (ops @ destroyed) (sv\<lparr>strand_impls := (strand_impls sv)(k := i)\<rparr>))"

definition strand_service_shutdown :: "strand_service \<Rightarrow> (nat list \<times> strand_service) option" where
  "strand_service_shutdown sv = strand_walk (dl_head (strand_list sv)) [] sv"

record classic_service =
  classic_implementations :: "nat \<Rightarrow> strand option"
  classic_salt :: "64 word"

definition classic_construct :: "64 word \<Rightarrow> classic_service \<Rightarrow> nat \<times> classic_service" where
  "classic_construct address sv =
     (let salt = classic_salt sv; i = strand_hash salt address; sv1 = sv\<lparr>classic_salt := salt + 1\<rparr>
      in (i, if classic_implementations sv i = None
             then sv1\<lparr>classic_implementations := (classic_implementations sv)(i := Some strand_new)\<rparr> else sv1))"

text \<open>The functions that the destructor of the queue of \<^verbatim>\<open>shutdown\<close> destroys.\<close>

definition classic_shutdown :: "classic_service \<Rightarrow> nat list \<times> classic_service" where
  "classic_shutdown sv =
     (concat (map (\<lambda>i. case classic_implementations sv i of None \<Rightarrow> [] | Some s \<Rightarrow> swaiting s @ sready s) [0..<193]),
      sv\<lparr>classic_implementations := (\<lambda>i. if i < 193 then map_option (\<lambda>s. s\<lparr>swaiting := [], sready := []\<rparr>) (classic_implementations sv i)
           else classic_implementations sv i)\<rparr>)"

lemma strand_walk_list:
  assumes "dl_rep (strand_list sv) (A @ L)"
  shows "\<exists>sv'. strand_walk (hd_or L None) ops sv = Some (ops @ concat (map (\<lambda>k. fst (strand_shutdown (strand_impls sv k))) L), sv') \<and>
    strand_impls sv' = (\<lambda>k. if k \<in> set L then snd (strand_shutdown (strand_impls sv k)) else strand_impls sv k) \<and>
    strand_list sv' = strand_list sv"
  using assms
proof (induction L arbitrary: A ops sv)
  case Nil
  then show ?case by (simp add: strand_walk.simps [of None])
next
  case (Cons k L)
  define sv1 where "sv1 = sv\<lparr>strand_impls := (strand_impls sv)(k := snd (strand_shutdown (strand_impls sv k)))\<rparr>"
  have k: "k \<notin> set L" using dl_rep_simps(2) [OF Cons(2)] by simp
  have "dl_rep (strand_list sv1) ((A @ [k]) @ L)" using Cons(2) by (simp add: sv1_def)
  from Cons(1) [OF this, of "ops @ fst (strand_shutdown (strand_impls sv k))"] obtain sv' where sv':
    "strand_walk (hd_or L None) (ops @ fst (strand_shutdown (strand_impls sv k))) sv1 =
       Some ((ops @ fst (strand_shutdown (strand_impls sv k))) @ concat (map (\<lambda>k. fst (strand_shutdown (strand_impls sv1 k))) L), sv')"
    "strand_impls sv' = (\<lambda>k. if k \<in> set L then snd (strand_shutdown (strand_impls sv1 k)) else strand_impls sv1 k)"
    "strand_list sv' = strand_list sv1" by blast
  have m: "map (\<lambda>k. fst (strand_shutdown (strand_impls sv1 k))) L = map (\<lambda>k. fst (strand_shutdown (strand_impls sv k))) L"
    using k by (auto simp: sv1_def)
  have "strand_walk (hd_or (k # L) None) ops sv = strand_walk (hd_or L None) (ops @ fst (strand_shutdown (strand_impls sv k))) sv1"
    using dl_rep_simps(3) [OF Cons(2)] by (simp add: strand_walk.simps [of "Some k"] sv1_def split_beta)
  then have "strand_walk (hd_or (k # L) None) ops sv = Some (ops @ concat (map (\<lambda>k. fst (strand_shutdown (strand_impls sv k))) (k # L)), sv')"
    using sv'(1) unfolding m by simp
  moreover have "strand_impls sv' = (\<lambda>j. if j \<in> set (k # L) then snd (strand_shutdown (strand_impls sv j)) else strand_impls sv j)"
    using sv'(2) k by (auto simp: sv1_def fun_eq_iff)
  moreover have "strand_list sv' = strand_list sv" using sv'(3) by (simp add: sv1_def)
  ultimately show ?case by blast
qed

text \<open>
  Strands are kept in the list from their creation to their destruction, and shutting the service down refuses all further
  functions of every strand in it and destroys what is queued.
\<close>

lemma strand_service_lists:
  assumes "dl_rep (strand_list sv) L" "k \<notin> set L"
  shows "dl_rep (strand_list (create_implementation k sv)) (k # L) \<and>
    dl_rep (strand_list (destroy_implementation k (create_implementation k sv))) L \<and>
    strand_mutex (create_implementation k sv) k < 193"
  using dl_rep_insert [OF assms] dl_rep_remove [of _ "[]" k L]
  by (simp add: create_implementation_def destroy_implementation_def strand_hash_bound Let_def)

lemma strand_service_shuts_down:
  assumes "dl_rep (strand_list sv) L"
  shows "\<exists>sv'. strand_service_shutdown sv = Some (concat (map (\<lambda>k. swaiting (strand_impls sv k) @ sready (strand_impls sv k)) L), sv') \<and>
    (\<forall>k \<in> set L. strand_enqueue op (strand_impls sv' k) = (Refused, strand_impls sv' k) \<and>
      sready (strand_impls sv' k) = [] \<and> swaiting (strand_impls sv' k) = [])"
proof -
  obtain sv' where "strand_walk (hd_or L None) [] sv = Some ([] @ concat (map (\<lambda>k. fst (strand_shutdown (strand_impls sv k))) L), sv')"
    "strand_impls sv' = (\<lambda>k. if k \<in> set L then snd (strand_shutdown (strand_impls sv k)) else strand_impls sv k)"
    using strand_walk_list [of sv "[]" L "[]"] assms by auto
  then show ?thesis using dl_rep_simps(1) [OF assms]
    by (intro exI [of _ sv']) (simp add: strand_service_shutdown_def strand_shutdown_def strand_enqueue_def)
qed

end
