(* ===== verification/AsioDynamicBuffer.thy ===== *)
theory AsioDynamicBuffer
  imports AsioBuffer AsioSocketOps
begin

text \<open>
  Dynamic buffers: \<^verbatim>\<open>dynamic_string_buffer\<close> and \<^verbatim>\<open>dynamic_vector_buffer\<close> of \<^verbatim>\<open>buffer.hpp\<close>,
  which adapt a string or vector to the requirements \<^verbatim>\<open>DynamicBuffer_v1\<close> (prepare, commit) and
  \<^verbatim>\<open>DynamicBuffer_v2\<close> (grow, shrink). The two classes differ in how they consume. A buffer is the
  contents of the string with what the class keeps; sizes are \<^verbatim>\<open>size_t\<close>, whose largest value in
  \<^verbatim>\<open>size_\<close> says that the first interface is not in use.

  The locale \<open>dynamic_buffer\<close> is what reading into a buffer needs of it, interpreted on both
  interfaces. Shown: growing and filling appends, never throws while there is room, and each
  interface reads back what was written.
\<close>

section \<open>The class\<close>

text \<open>Subtraction of \<^verbatim>\<open>size_t\<close>.\<close>

definition size_sub :: "nat \<Rightarrow> nat \<Rightarrow> nat" where
  "size_sub a b = (if b \<le> a then a - b else a + 2 ^ 64 - b)"

lemma size_sub_le [simp]: "b \<le> a \<Longrightarrow> size_sub a b = a - b"
  by (simp add: size_sub_def)

text \<open>
  The string or vector: its contents, its capacity, and how far it extends its capacity from an
  old one to a new size, which the library decides. Lengths beyond \<open>string_max\<close> throw.
\<close>

record growing =
  chars :: "byte list"
  reserved :: nat
  policy :: "nat \<Rightarrow> nat \<Rightarrow> nat"

definition string_max :: nat where
  "string_max = 2 ^ 63 - 1"

definition resize_chars :: "nat \<Rightarrow> growing \<Rightarrow> growing option" where
  "resize_chars n s =
     (if n > string_max then None
      else Some (s\<lparr>chars := take n (chars s) @ replicate (n - length (chars s)) 0,
                   reserved := (if n \<le> reserved s then reserved s else policy s (reserved s) n)\<rparr>))"

definition erase_front :: "nat \<Rightarrow> growing \<Rightarrow> growing" where
  "erase_front n s = s\<lparr>chars := drop n (chars s)\<rparr>"

record dyn =
  dstring :: growing
  dsize :: nat
  dmax :: nat

definition dyn_new :: "growing \<Rightarrow> nat \<Rightarrow> dyn" where
  "dyn_new s maximum_size = \<lparr>dstring = s, dsize = SIZE_MAX, dmax = maximum_size\<rparr>"

definition dyn_size :: "dyn \<Rightarrow> nat" where
  "dyn_size b = (if dsize b \<noteq> SIZE_MAX then dsize b else min (length (chars (dstring b))) (dmax b))"

definition dyn_capacity :: "dyn \<Rightarrow> nat" where
  "dyn_capacity b = min (reserved (dstring b)) (dmax b)"

text \<open>The bytes of the buffers that \<^verbatim>\<open>data\<close> returns.\<close>

definition dyn_data_v1 :: "dyn \<Rightarrow> byte list" where
  "dyn_data_v1 b = take (dsize b) (chars (dstring b))"

definition dyn_data_v2 :: "nat \<Rightarrow> nat \<Rightarrow> dyn \<Rightarrow> byte list" where
  "dyn_data_v2 pos n b = take n (drop pos (take (dmax b) (chars (dstring b))))"

text \<open>\<open>None\<close>: \<^verbatim>\<open>std::length_error\<close>.\<close>

definition dyn_prepare :: "nat \<Rightarrow> dyn \<Rightarrow> dyn option" where
  "dyn_prepare n b =
     (if dyn_size b > dmax b \<or> dmax b - dyn_size b < n then None
      else
        let b1 = (if dsize b = SIZE_MAX then b\<lparr>dsize := length (chars (dstring b))\<rparr> else b)
        in map_option (\<lambda>s. b1\<lparr>dstring := s\<rparr>) (resize_chars (dsize b1 + n) (dstring b1)))"

definition dyn_commit :: "nat \<Rightarrow> dyn \<Rightarrow> dyn option" where
  "dyn_commit n b =
     (let b1 = b\<lparr>dsize := (dsize b + min n (size_sub (length (chars (dstring b))) (dsize b))) mod 2 ^ 64\<rparr>
      in map_option (\<lambda>s. b1\<lparr>dstring := s\<rparr>) (resize_chars (dsize b1) (dstring b1)))"

definition dyn_grow :: "nat \<Rightarrow> dyn \<Rightarrow> dyn option" where
  "dyn_grow n b =
     (if dyn_size b > dmax b \<or> dmax b - dyn_size b < n then None
      else map_option (\<lambda>s. b\<lparr>dstring := s\<rparr>) (resize_chars (dyn_size b + n) (dstring b)))"

definition dyn_shrink :: "nat \<Rightarrow> dyn \<Rightarrow> dyn option" where
  "dyn_shrink n b =
     map_option (\<lambda>s. b\<lparr>dstring := s\<rparr>) (resize_chars (if n > dyn_size b then 0 else dyn_size b - n) (dstring b))"

definition string_consume :: "nat \<Rightarrow> dyn \<Rightarrow> dyn" where
  "string_consume n b =
     (if dsize b \<noteq> SIZE_MAX
      then
        let consume_length = min n (dsize b)
        in b\<lparr>dstring := erase_front consume_length (dstring b), dsize := dsize b - consume_length\<rparr>
      else b\<lparr>dstring := erase_front n (dstring b)\<rparr>)"

definition vector_consume :: "nat \<Rightarrow> dyn \<Rightarrow> dyn" where
  "vector_consume n b =
     (if dsize b \<noteq> SIZE_MAX
      then
        let consume_length = min n (dsize b)
        in b\<lparr>dstring := erase_front consume_length (dstring b), dsize := dsize b - consume_length\<rparr>
      else b\<lparr>dstring := erase_front (min (dyn_size b) n) (dstring b)\<rparr>)"

section \<open>Reading into a buffer\<close>

text \<open>
  The steps of a read: \<open>db_ask n\<close> makes a region of \<open>n\<close> bytes, \<open>db_got n bs\<close> is what is left when
  the stream has written \<open>bs\<close> at its beginning. The state in between of the second interface has
  the position of the region.
\<close>

record ('b, 'w) dynbuf =
  db_size :: "'b \<Rightarrow> nat"
  db_max :: "'b \<Rightarrow> nat"
  db_capacity :: "'b \<Rightarrow> nat"
  db_data :: "'b \<Rightarrow> byte list"
  db_ask :: "nat \<Rightarrow> 'b \<Rightarrow> 'w option"
  db_got :: "nat \<Rightarrow> byte list \<Rightarrow> 'w \<Rightarrow> 'b option"

definition write_at :: "nat \<Rightarrow> byte list \<Rightarrow> dyn \<Rightarrow> dyn" where
  "write_at pos bs b =
     b\<lparr>dstring := (dstring b)\<lparr>chars := take pos (chars (dstring b)) @ bs @ drop (pos + length bs) (chars (dstring b))\<rparr>\<rparr>"

definition through_v1 :: "(dyn, dyn) dynbuf" where
  "through_v1 =
     \<lparr>db_size = dyn_size, db_max = dmax, db_capacity = dyn_capacity, db_data = dyn_data_v1, db_ask = dyn_prepare,
      db_got = (\<lambda>n bs b. dyn_commit (length bs) (write_at (dsize b) bs b))\<rparr>"

definition through_v2 :: "(dyn, nat \<times> dyn) dynbuf" where
  "through_v2 =
     \<lparr>db_size = dyn_size, db_max = dmax, db_capacity = dyn_capacity, db_data = (\<lambda>b. dyn_data_v2 0 (dyn_size b) b),
      db_ask = (\<lambda>n b. map_option (\<lambda>b1. (dyn_size b, b1)) (dyn_grow n b)),
      db_got = (\<lambda>n bs (pos, b). dyn_shrink (size_sub n (length bs)) (write_at pos bs b))\<rparr>"

section \<open>The contract\<close>

locale dynamic_buffer =
  fixes D :: "('b, 'w) dynbuf" and inv :: "'b \<Rightarrow> bool" and room :: nat
  assumes size: "inv b \<Longrightarrow> db_size D b = length (db_data D b)"
    and bounds: "inv b \<Longrightarrow> db_size D b \<le> db_capacity D b \<and> db_size D b \<le> db_max D b"
    and ask: "inv b \<Longrightarrow> n \<le> db_max D b - db_size D b \<Longrightarrow> db_size D b + n \<le> room \<Longrightarrow> db_ask D n b \<noteq> None"
    and got: "inv b \<Longrightarrow> db_ask D n b = Some w \<Longrightarrow> db_size D b + n \<le> room \<Longrightarrow> length bs \<le> n \<Longrightarrow>
      \<exists>b'. db_got D n bs w = Some b' \<and> inv b' \<and> db_data D b' = db_data D b @ bs \<and> db_max D b' = db_max D b"

definition string_inv :: "growing \<Rightarrow> bool" where
  "string_inv s \<longleftrightarrow> length (chars s) \<le> string_max \<and> length (chars s) \<le> reserved s \<and> (\<forall>c n. n \<le> policy s c n)"

text \<open>The string is no longer than the buffer may be; a buffer of the first interface keeps only its input.\<close>

definition v1_inv :: "dyn \<Rightarrow> bool" where
  "v1_inv b \<longleftrightarrow> string_inv (dstring b) \<and> length (chars (dstring b)) \<le> dmax b \<and>
     (dsize b = SIZE_MAX \<or> dsize b = length (chars (dstring b)))"

definition v2_inv :: "dyn \<Rightarrow> bool" where
  "v2_inv b \<longleftrightarrow> string_inv (dstring b) \<and> length (chars (dstring b)) \<le> dmax b \<and> dsize b = SIZE_MAX"

lemma maxima [simp]: "string_max < SIZE_MAX" "SIZE_MAX < 2 ^ 64" "string_max < 2 ^ 64"
  by (simp_all add: SIZE_MAX_def string_max_def)

lemma resize_chars_some:
  assumes "n \<le> string_max" "\<forall>c n. n \<le> policy s c n"
  obtains s' where "resize_chars n s = Some s'" "chars s' = take n (chars s) @ replicate (n - length (chars s)) 0"
    "length (chars s') = n" "string_inv s'" "policy s' = policy s"
  using assms that
  by (auto simp: resize_chars_def string_inv_def split: if_splits)

lemma v1_size [simp]: "v1_inv b \<Longrightarrow> dyn_size b = length (chars (dstring b))"
  by (auto simp: v1_inv_def dyn_size_def)

lemma v2_size [simp]: "v2_inv b \<Longrightarrow> dyn_size b = length (chars (dstring b))"
  by (auto simp: v2_inv_def dyn_size_def)

lemma v1_data [simp]: "v1_inv b \<Longrightarrow> dyn_data_v1 b = chars (dstring b)"
  using order_trans [OF _ less_imp_le [OF maxima(1)]] by (auto simp: v1_inv_def string_inv_def dyn_data_v1_def)

lemma v2_data [simp]: "v2_inv b \<Longrightarrow> dyn_data_v2 0 (length (chars (dstring b))) b = chars (dstring b)"
  by (simp add: dyn_data_v2_def) (simp add: v2_inv_def)

text \<open>What is in the string after growing by \<open>n\<close> and writing \<open>bs\<close> behind \<open>old\<close>.\<close>

lemma fill_region:
  "length bs \<le> n \<Longrightarrow>
    take (length old + length bs) (take (length old) (old @ replicate n 0) @ bs @ drop (length old + length bs) (old @ replicate n 0)) = old @ bs"
  by simp

interpretation v1: dynamic_buffer through_v1 v1_inv string_max
proof unfold_locales
  fix b assume "v1_inv b"
  then show "db_size through_v1 b = length (db_data through_v1 b)" by (simp add: through_v1_def)
next
  fix b assume i: "v1_inv b"
  then show "db_size through_v1 b \<le> db_capacity through_v1 b \<and> db_size through_v1 b \<le> db_max through_v1 b"
    by (simp add: through_v1_def dyn_capacity_def) (simp add: v1_inv_def string_inv_def)
next
  fix b n assume "v1_inv b" "n \<le> db_max through_v1 b - db_size through_v1 b" "db_size through_v1 b + n \<le> string_max"
  then show "db_ask through_v1 n b \<noteq> None"
    by (auto simp: through_v1_def dyn_prepare_def resize_chars_def Let_def v1_inv_def)
next
  fix b n w and bs :: "byte list" assume i: "v1_inv b" and a: "db_ask through_v1 n b = Some w" and l: "length bs \<le> n"
  let ?old = "chars (dstring b)"
  obtain s where s: "resize_chars (length ?old + n) (dstring b) = Some s"
    "w = b\<lparr>dsize := length ?old, dstring := s\<rparr>" "dmax b - length ?old \<ge> n"
    using a i by (auto simp: through_v1_def dyn_prepare_def Let_def v1_inv_def split: if_splits)
  then have fits: "length ?old + n \<le> string_max" by (auto simp: resize_chars_def split: if_splits)
  then have c: "chars s = ?old @ replicate n 0" "policy s = policy (dstring b)"
    using s(1) by (auto simp: resize_chars_def)
  define W where "W = write_at (dsize w) bs w"
  have w: "chars (dstring W) = ?old @ bs @ replicate (n - length bs) 0" "dsize W = length ?old"
    "policy (dstring W) = policy (dstring b)" "dmax W = dmax b"
    using s(2) c l by (simp_all add: W_def write_at_def)
  then have sz: "(dsize W + min (length bs) (size_sub (length (chars (dstring W))) (dsize W))) mod 2 ^ 64 = length ?old + length bs"
    using l fits maxima(3) by simp
  have "length ?old + length bs \<le> string_max" "\<forall>c m. m \<le> policy (dstring W) c m"
    using fits l i w(3) by (simp_all add: v1_inv_def string_inv_def)
  then obtain s' where s': "resize_chars (length ?old + length bs) (dstring W) = Some s'"
    "chars s' = take (length ?old + length bs) (chars (dstring W)) @ replicate (length ?old + length bs - length (chars (dstring W))) 0"
    "string_inv s'" by (rule resize_chars_some)
  have "db_got through_v1 n bs w = Some (W\<lparr>dsize := length ?old + length bs, dstring := s'\<rparr>)"
  proof -
    have "dyn_commit (length bs) W = Some (W\<lparr>dsize := length ?old + length bs, dstring := s'\<rparr>)"
      unfolding dyn_commit_def Let_def sz using s'(1) by simp
    then show ?thesis by (simp add: through_v1_def W_def)
  qed
  moreover have "chars s' = ?old @ bs" using s'(2) w(1) by simp
  moreover have "length ?old + length bs \<le> dmax b" using s(3) l i unfolding v1_inv_def by linarith
  ultimately show "\<exists>b'. db_got through_v1 n bs w = Some b' \<and> v1_inv b' \<and>
      db_data through_v1 b' = db_data through_v1 b @ bs \<and> db_max through_v1 b' = db_max through_v1 b"
    using s'(3) i w(4) v1_data [OF i] by (simp add: through_v1_def v1_inv_def dyn_data_v1_def)
qed

interpretation v2: dynamic_buffer through_v2 v2_inv string_max
proof unfold_locales
  fix b assume "v2_inv b"
  then show "db_size through_v2 b = length (db_data through_v2 b)" by (simp add: through_v2_def)
next
  fix b assume i: "v2_inv b"
  then show "db_size through_v2 b \<le> db_capacity through_v2 b \<and> db_size through_v2 b \<le> db_max through_v2 b"
    by (simp add: through_v2_def dyn_capacity_def) (simp add: v2_inv_def string_inv_def)
next
  fix b n assume "v2_inv b" "n \<le> db_max through_v2 b - db_size through_v2 b" "db_size through_v2 b + n \<le> string_max"
  then show "db_ask through_v2 n b \<noteq> None"
    by (auto simp: through_v2_def dyn_grow_def resize_chars_def v2_inv_def)
next
  fix b n w and bs :: "byte list" assume i: "v2_inv b" and a: "db_ask through_v2 n b = Some w" and l: "length bs \<le> n"
  let ?old = "chars (dstring b)"
  obtain s where s: "resize_chars (length ?old + n) (dstring b) = Some s"
    "w = (length ?old, b\<lparr>dstring := s\<rparr>)" "dmax b - length ?old \<ge> n"
    using a i by (auto simp: through_v2_def dyn_grow_def split: if_splits)
  then have fits: "length ?old + n \<le> string_max" by (auto simp: resize_chars_def split: if_splits)
  then have c: "chars s = ?old @ replicate n 0" "policy s = policy (dstring b)"
    using s(1) by (auto simp: resize_chars_def)
  define W where "W = write_at (length ?old) bs (b\<lparr>dstring := s\<rparr>)"
  have w: "chars (dstring W) = ?old @ bs @ replicate (n - length bs) 0" "dsize W = SIZE_MAX"
    "policy (dstring W) = policy (dstring b)" "dmax W = dmax b"
    using c l i by (simp_all add: W_def write_at_def v2_inv_def)
  have le: "length ?old + n \<le> dmax b" using s(3) i unfolding v2_inv_def by linarith
  have sz: "dyn_size W - (n - length bs) = length ?old + length bs" "\<not> n - length bs > dyn_size W"
    using l le w by (simp_all add: dyn_size_def)
  have "length ?old + length bs \<le> string_max" "\<forall>c m. m \<le> policy (dstring W) c m"
    using fits l i w(3) by (simp_all add: v2_inv_def string_inv_def)
  then obtain s' where s': "resize_chars (length ?old + length bs) (dstring W) = Some s'"
    "chars s' = take (length ?old + length bs) (chars (dstring W)) @ replicate (length ?old + length bs - length (chars (dstring W))) 0"
    "string_inv s'" by (rule resize_chars_some)
  have "db_got through_v2 n bs w = Some (W\<lparr>dstring := s'\<rparr>)"
    using l sz s'(1) by (simp add: through_v2_def dyn_shrink_def s(2) W_def [symmetric])
  moreover have "chars s' = ?old @ bs" using s'(2) w(1) by simp
  moreover have "length ?old + length bs \<le> dmax b" using le l by simp
  ultimately have r: "db_got through_v2 n bs w = Some (W\<lparr>dstring := s'\<rparr>)" "v2_inv (W\<lparr>dstring := s'\<rparr>)"
    "chars (dstring (W\<lparr>dstring := s'\<rparr>)) = ?old @ bs" "dmax (W\<lparr>dstring := s'\<rparr>) = dmax b"
    using s'(3) i w(2,4) by (simp_all add: v2_inv_def)
  then have "db_data through_v2 (W\<lparr>dstring := s'\<rparr>) = db_data through_v2 b @ bs"
    using i v2_data [OF r(2)] by (simp add: through_v2_def)
  with r show "\<exists>b'. db_got through_v2 n bs w = Some b' \<and> v2_inv b' \<and>
      db_data through_v2 b' = db_data through_v2 b @ bs \<and> db_max through_v2 b' = db_max through_v2 b"
    by (intro exI [of _ "W\<lparr>dstring := s'\<rparr>"]) (simp add: through_v2_def)
qed

section \<open>Consuming\<close>

lemma consume_v1:
  assumes "v1_inv b" "dsize b \<noteq> SIZE_MAX"
  shows "dyn_data_v1 (string_consume n b) = drop n (dyn_data_v1 b) \<and> string_consume n b = vector_consume n b \<and>
    v1_inv (string_consume n b)"
  using assms maxima(1)
  by (auto simp: string_consume_def vector_consume_def erase_front_def dyn_data_v1_def Let_def v1_inv_def string_inv_def min_def)

lemma consume_v2:
  assumes "v2_inv b"
  shows "dyn_data_v2 0 (dyn_size (string_consume n b)) (string_consume n b) = drop n (dyn_data_v2 0 (dyn_size b) b) \<and>
    v2_inv (string_consume n b) \<and> chars (dstring (vector_consume n b)) = chars (dstring (string_consume n b))"
proof -
  have i: "v2_inv (string_consume n b)" using assms by (auto simp: string_consume_def v2_inv_def string_inv_def erase_front_def)
  moreover have "chars (dstring (string_consume n b)) = drop n (chars (dstring b))"
    using assms by (simp add: string_consume_def v2_inv_def erase_front_def)
  moreover have "chars (dstring (vector_consume n b)) = drop n (chars (dstring b))"
    using assms by (simp add: vector_consume_def erase_front_def min_def) (simp add: v2_inv_def)
  ultimately show ?thesis using assms v2_data [OF i] by simp
qed

text \<open>
  A string longer than the buffer may be: the second interface sees its beginning, and the first
  reading cuts the rest off; the first interface takes all of it for its input and throws from
  then on, whatever it is asked for.
\<close>

lemma oversized:
  assumes "dsize b = SIZE_MAX" "dmax b < length (chars (dstring b))" "length (chars (dstring b)) \<le> string_max"
  shows "dyn_size b = dmax b \<and>
    (\<exists>b1. dyn_prepare 0 b = Some b1 \<and> dyn_size b1 > dmax b1 \<and> dyn_prepare n b1 = None) \<and>
    (\<exists>b2. dyn_shrink 0 b = Some b2 \<and> chars (dstring b2) = take (dmax b) (chars (dstring b)))"
proof -
  have "length (chars (dstring b)) \<noteq> SIZE_MAX" using assms(3) maxima(1) by linarith
  then show ?thesis using assms
    by (auto simp: dyn_size_def dyn_prepare_def dyn_shrink_def resize_chars_def Let_def)
qed

end
