(* ===== verification/AsioReadUntil.thy ===== *)
theory AsioReadUntil
  imports AsioDynamicBuffer
begin

text \<open>
  \<^verbatim>\<open>asio/impl/read_until.hpp\<close>: reading into a dynamic buffer until what is in it has a given
  delimiter, a character, a string or what a function of the caller finds, as blocking calls and as
  composed operations, on both interfaces of dynamic buffers. The versions have the same loop;
  they are instances of one here, over the search and the interface. The stream is a list of the
  answers of its reads: an error and the bytes that came with it.

  Locale \<open>search\<close>: what a search from a position must promise so that the loop finds the first
  match although it never looks at bytes twice; interpreted on both searches of the file. Shown:
  the position returned ends the first match, nothing read is lost, and when the loop gives up.
\<close>

section \<open>Searching\<close>

text \<open>
  The inner loop of \<^verbatim>\<open>partial_search\<close>; \<open>moved\<close>: \<^verbatim>\<open>test_iter2 != first2\<close>.
\<close>

datatype verdict = Full_match | Partial_match | Differs

fun match_here :: "'a list \<Rightarrow> 'a list \<Rightarrow> bool \<Rightarrow> verdict" where
  "match_here xs [] moved = Full_match"
| "match_here [] (y # ys) moved = (if moved then Partial_match else Differs)"
| "match_here (x # xs) (y # ys) moved = (if x \<noteq> y then Differs else match_here xs ys True)"

text \<open>The distance of the iterator returned from \<^verbatim>\<open>first1\<close>.\<close>

fun partial_search :: "'a list \<Rightarrow> 'a list \<Rightarrow> nat \<times> bool" where
  "partial_search [] ys = (0, False)"
| "partial_search (x # xs) ys =
     (case match_here (x # xs) ys False of
        Full_match \<Rightarrow> (0, True)
      | Partial_match \<Rightarrow> (0, False)
      | Differs \<Rightarrow> (let (i, found) = partial_search xs ys in (Suc i, found)))"

text \<open>
  What the loops make of a search of the data from a position on: the position returned, or the
  position from which to search next.
\<close>

datatype finding = Found nat | Resume nat

definition find_char :: "byte \<Rightarrow> nat \<Rightarrow> byte list \<Rightarrow> finding" where
  "find_char delim pos d =
     (let iter = pos + length (takeWhile (\<lambda>c. c \<noteq> delim) (drop pos d))
      in if iter \<noteq> length d then Found (iter + 1) else Resume (length d))"

definition find_string :: "byte list \<Rightarrow> nat \<Rightarrow> byte list \<Rightarrow> finding" where
  "find_string delim pos d =
     (let (i, found) = partial_search (drop pos d) delim; r = pos + i
      in if r \<noteq> length d then if found then Found (r + length delim) else Resume r
         else Resume (length d))"

definition find_match :: "(nat \<Rightarrow> byte list \<Rightarrow> nat \<times> bool) \<Rightarrow> nat \<Rightarrow> byte list \<Rightarrow> finding" where
  "find_match condition pos d =
     (let (r, found) = condition pos d
      in if found then Found r else if r \<noteq> length d then Resume r else Resume (length d))"

text \<open>
  \<^verbatim>\<open>boost::regex_search\<close> with \<^verbatim>\<open>match_partial\<close>, a parameter: whether \<^verbatim>\<open>match_results[0]\<close> matched,
  and its first and second as distances from the start, \<open>None\<close> for no match.
\<close>

definition find_regex :: "(byte list \<Rightarrow> (bool \<times> nat \<times> nat) option) \<Rightarrow> nat \<Rightarrow> byte list \<Rightarrow> finding" where
  "find_regex regex_search pos d =
     (case regex_search (drop pos d) of
        Some (matched, first, second) \<Rightarrow> if matched then Found (pos + second) else Resume (pos + first)
      | None \<Rightarrow> Resume (length d))"

section \<open>The blocking calls\<close>

definition bytes_to_read :: "('b, 'w) dynbuf \<Rightarrow> 'b \<Rightarrow> nat" where
  "bytes_to_read D b =
     min (max 512 (size_sub (db_capacity D b) (db_size D b))) (min 65536 (size_sub (db_max D b) (db_size D b)))"

text \<open>
  How a call stands when the answers are used up: it has returned, waits for the stream with a
  region asked for, or has thrown. At most the bytes asked for are written.
\<close>

datatype ('b, 'w) progress = Returned io_error nat 'b | Waiting nat nat 'w | Thrown

fun until_loop ::
  "('b, 'w) dynbuf \<Rightarrow> (nat \<Rightarrow> byte list \<Rightarrow> finding) \<Rightarrow> nat \<Rightarrow> 'b \<Rightarrow> (io_error \<times> byte list) list \<Rightarrow> ('b, 'w) progress" where
  "until_loop D srch pos b es =
     (case srch pos (db_data D b) of
        Found n \<Rightarrow> Returned success n b
      | Resume search_position \<Rightarrow>
          if db_size D b = db_max D b then Returned not_found 0 b
          else
            case db_ask D (bytes_to_read D b) b of
              None \<Rightarrow> Thrown
            | Some w \<Rightarrow>
                (case es of
                   [] \<Rightarrow> Waiting search_position (bytes_to_read D b) w
                 | (ec, bs) # es' \<Rightarrow>
                     (case db_got D (bytes_to_read D b) (take (bytes_to_read D b) bs) w of
                        None \<Rightarrow> Thrown
                      | Some b' \<Rightarrow> if failed ec then Returned ec 0 b' else until_loop D srch search_position b' es')))"

declare until_loop.simps [simp del]

definition read_until_char_v1 where
  "read_until_char_v1 delim b es = until_loop through_v1 (find_char delim) 0 b es"

definition read_until_string_v1 where
  "read_until_string_v1 delim b es = until_loop through_v1 (find_string delim) 0 b es"

definition read_until_match_v1 where
  "read_until_match_v1 condition b es = until_loop through_v1 (find_match condition) 0 b es"

definition read_until_regex_v1 where
  "read_until_regex_v1 regex_search b es = until_loop through_v1 (find_regex regex_search) 0 b es"

definition read_until_char_v2 where
  "read_until_char_v2 delim b es = until_loop through_v2 (find_char delim) 0 b es"

definition read_until_string_v2 where
  "read_until_string_v2 delim b es = until_loop through_v2 (find_string delim) 0 b es"

definition read_until_match_v2 where
  "read_until_match_v2 condition b es = until_loop through_v2 (find_match condition) 0 b es"

definition read_until_regex_v2 where
  "read_until_regex_v2 regex_search b es = until_loop through_v2 (find_regex regex_search) 0 b es"

section \<open>The composed operations\<close>

text \<open>
  \<^verbatim>\<open>operator()\<close>. Between its calls the operation keeps the position, which is \<^verbatim>\<open>SIZE_MAX\<close> for
  \<^verbatim>\<open>not_found\<close>, and the number of bytes asked for.
\<close>

definition until_finish :: "io_error \<Rightarrow> nat \<Rightarrow> 'b \<Rightarrow> ('b, 'w) progress" where
  "until_finish ec search_position b =
     Returned (if search_position = SIZE_MAX then not_found else ec)
       (if failed ec \<or> search_position = SIZE_MAX then 0 else search_position) b"

definition until_search ::
  "('b, 'w) dynbuf \<Rightarrow> (nat \<Rightarrow> byte list \<Rightarrow> finding) \<Rightarrow> bool \<Rightarrow> io_error \<Rightarrow> nat \<Rightarrow> 'b \<Rightarrow> ('b, 'w) progress" where
  "until_search D srch start ec pos b =
     (let (search_position, n) =
            (case srch pos (db_data D b) of
               Found r \<Rightarrow> (r, 0)
             | Resume r \<Rightarrow> if db_size D b = db_max D b then (SIZE_MAX, 0) else (r, bytes_to_read D b))
      in if \<not> start \<and> n = 0 then until_finish ec search_position b
         else
           case db_ask D n b of
             None \<Rightarrow> Thrown
           | Some w \<Rightarrow> Waiting search_position n w)"

definition until_start :: "('b, 'w) dynbuf \<Rightarrow> (nat \<Rightarrow> byte list \<Rightarrow> finding) \<Rightarrow> 'b \<Rightarrow> ('b, 'w) progress" where
  "until_start D srch b = until_search D srch True success 0 b"

definition until_resume ::
  "('b, 'w) dynbuf \<Rightarrow> (nat \<Rightarrow> byte list \<Rightarrow> finding) \<Rightarrow> io_error \<Rightarrow> byte list \<Rightarrow> nat \<Rightarrow> nat \<Rightarrow> 'w \<Rightarrow> ('b, 'w) progress" where
  "until_resume D srch ec bs search_position n w =
     (case db_got D n bs w of
        None \<Rightarrow> Thrown
      | Some b \<Rightarrow>
          if failed ec \<or> length bs = 0 then until_finish ec search_position b
          else until_search D srch False ec search_position b)"

fun until_drive ::
  "('b, 'w) dynbuf \<Rightarrow> (nat \<Rightarrow> byte list \<Rightarrow> finding) \<Rightarrow> ('b, 'w) progress \<Rightarrow> (io_error \<times> byte list) list \<Rightarrow> ('b, 'w) progress" where
  "until_drive D srch (Waiting pos n w) ((ec, bs) # es) =
     until_drive D srch (until_resume D srch ec (take n bs) pos n w) es"
| "until_drive D srch p es = p"

definition async_until_char_v1 where
  "async_until_char_v1 delim b es = until_drive through_v1 (find_char delim) (until_start through_v1 (find_char delim) b) es"

definition async_until_string_v1 where
  "async_until_string_v1 delim b es = until_drive through_v1 (find_string delim) (until_start through_v1 (find_string delim) b) es"

definition async_until_match_v1 where
  "async_until_match_v1 condition b es =
     until_drive through_v1 (find_match condition) (until_start through_v1 (find_match condition) b) es"

definition async_until_char_v2 where
  "async_until_char_v2 delim b es = until_drive through_v2 (find_char delim) (until_start through_v2 (find_char delim) b) es"

definition async_until_string_v2 where
  "async_until_string_v2 delim b es = until_drive through_v2 (find_string delim) (until_start through_v2 (find_string delim) b) es"

definition async_until_match_v2 where
  "async_until_match_v2 condition b es =
     until_drive through_v2 (find_match condition) (until_start through_v2 (find_match condition) b) es"

definition async_until_regex_v1 where
  "async_until_regex_v1 regex_search b es =
     until_drive through_v1 (find_regex regex_search) (until_start through_v1 (find_regex regex_search) b) es"

definition async_until_regex_v2 where
  "async_until_regex_v2 regex_search b es =
     until_drive through_v2 (find_regex regex_search) (until_start through_v2 (find_regex regex_search) b) es"

section \<open>What a search promises\<close>

text \<open>
  \<open>hit d i n\<close>: the delimiter is at position \<open>i\<close> of \<open>d\<close> and ends before \<open>n\<close>. A position is \<open>dead\<close> when
  no match starts before it, whatever follows the data.
\<close>

definition first_match :: "(byte list \<Rightarrow> nat \<Rightarrow> nat \<Rightarrow> bool) \<Rightarrow> byte list \<Rightarrow> nat \<Rightarrow> bool" where
  "first_match hit d n \<longleftrightarrow> n \<le> length d \<and> (\<exists>i. hit d i n \<and> (\<forall>j < i. \<forall>m. \<not> hit d j m))"

definition dead :: "(byte list \<Rightarrow> nat \<Rightarrow> nat \<Rightarrow> bool) \<Rightarrow> byte list \<Rightarrow> nat \<Rightarrow> bool" where
  "dead hit d pos \<longleftrightarrow> pos \<le> length d \<and> (\<forall>i < pos. \<forall>e n. \<not> hit (d @ e) i n)"

lemma dead_0 [simp]: "dead hit d 0"
  by (simp add: dead_def)

lemma dead_append: "dead hit d pos \<Longrightarrow> dead hit (d @ e) pos"
  by (simp add: dead_def)

locale search =
  fixes srch :: "nat \<Rightarrow> byte list \<Rightarrow> finding" and hit :: "byte list \<Rightarrow> nat \<Rightarrow> nat \<Rightarrow> bool"
  assumes found: "dead hit d pos \<Longrightarrow> srch pos d = Found n \<Longrightarrow> first_match hit d n"
    and resume: "dead hit d pos \<Longrightarrow> srch pos d = Resume q \<Longrightarrow> dead hit d q \<and> (\<forall>i n. \<not> hit d i n)"

definition char_hit :: "byte \<Rightarrow> byte list \<Rightarrow> nat \<Rightarrow> nat \<Rightarrow> bool" where
  "char_hit c d i n \<longleftrightarrow> i < length d \<and> d ! i = c \<and> n = i + 1"

definition string_hit :: "byte list \<Rightarrow> byte list \<Rightarrow> nat \<Rightarrow> nat \<Rightarrow> bool" where
  "string_hit delim d i n \<longleftrightarrow> take (length delim) (drop i d) = delim \<and> n = i + length delim"

lemma dead_char: "dead (char_hit c) d pos \<longleftrightarrow> pos \<le> length d \<and> c \<notin> set (take pos d)"
proof
  assume l: "dead (char_hit c) d pos"
  have "c \<notin> set (take pos d)"
  proof
    assume "c \<in> set (take pos d)"
    then obtain i where "i < pos" "i < length d" "d ! i = c" by (auto simp: in_set_conv_nth)
    then have "char_hit c (d @ []) i (i + 1)" by (simp add: char_hit_def)
    with l \<open>i < pos\<close> show False unfolding dead_def by blast
  qed
  with l show "pos \<le> length d \<and> c \<notin> set (take pos d)" by (simp add: dead_def)
next
  assume r: "pos \<le> length d \<and> c \<notin> set (take pos d)"
  then have "d ! i \<noteq> c" if "i < pos" for i using that by (metis in_set_conv_nth length_take min_absorb2 nth_take)
  then show "dead (char_hit c) d pos" using r by (auto simp: dead_def char_hit_def nth_append)
qed

lemma find_char_split:
  assumes "dead (char_hit c) d pos"
  defines "k \<equiv> pos + length (takeWhile (\<lambda>x. x \<noteq> c) (drop pos d))"
  shows "k \<le> length d" "c \<notin> set (take k d)" "k < length d \<Longrightarrow> d ! k = c"
proof -
  let ?t = "takeWhile (\<lambda>x. x \<noteq> c) (drop pos d)"
  have p: "pos \<le> length d" "c \<notin> set (take pos d)" using assms(1) by (simp_all add: dead_char)
  have len: "length ?t \<le> length (drop pos d)" by (rule length_takeWhile_le)
  then show le: "k \<le> length d" using p(1) by (simp add: k_def)
  have "take (length ?t) (drop pos d) = ?t" by (simp add: takeWhile_eq_take [symmetric])
  then have "take k d = take pos d @ ?t" by (simp add: k_def take_add)
  moreover have "c \<notin> set ?t" by (auto dest: set_takeWhileD)
  ultimately show "c \<notin> set (take k d)" using p(2) by simp
  assume "k < length d"
  then have "length ?t < length (drop pos d)" using p(1) by (simp add: k_def)
  then have "\<not> drop pos d ! length ?t \<noteq> c" by (rule nth_length_takeWhile)
  then show "d ! k = c" using p(1) by (simp add: k_def)
qed

interpretation char: search "find_char c" "char_hit c" for c
proof unfold_locales
  fix d pos n
  assume d: "dead (char_hit c) d pos" and f: "find_char c pos d = Found n"
  define k where "k = pos + length (takeWhile (\<lambda>x. x \<noteq> c) (drop pos d))"
  note k = find_char_split [OF d, folded k_def]
  have n: "k \<noteq> length d" "n = k + 1" using f by (auto simp: find_char_def Let_def k_def split: if_splits)
  then have "char_hit c d k n" using k by (simp add: char_hit_def)
  moreover have "\<not> char_hit c d j m" if "j < k" for j m
    using k(1,2) that by (auto simp: char_hit_def in_set_conv_nth)
  ultimately show "first_match (char_hit c) d n" using n k(1) by (auto simp: first_match_def)
next
  fix d pos q
  assume d: "dead (char_hit c) d pos" and f: "find_char c pos d = Resume q"
  define k where "k = pos + length (takeWhile (\<lambda>x. x \<noteq> c) (drop pos d))"
  note k = find_char_split [OF d, folded k_def]
  have "k = length d" "q = length d" using f by (auto simp: find_char_def Let_def k_def split: if_splits)
  then show "dead (char_hit c) d q \<and> (\<forall>i n. \<not> char_hit c d i n)" using k
    by (auto simp: dead_char char_hit_def)
qed

lemma match_here_full: "match_here xs ys moved = Full_match \<longleftrightarrow> take (length ys) xs = ys"
  by (induction xs ys moved rule: match_here.induct) auto

lemma match_here_partial: "match_here xs ys moved = Partial_match \<Longrightarrow> length xs < length ys"
  by (induction xs ys moved rule: match_here.induct) (auto split: if_splits)

lemma match_here_differs:
  "match_here xs ys moved = Differs \<Longrightarrow> xs \<noteq> [] \<or> moved \<Longrightarrow> take (length ys) (xs @ e) \<noteq> ys"
  by (induction xs ys moved rule: match_here.induct) (auto split: if_splits)

lemma partial_search_correct:
  assumes "ys \<noteq> []" "partial_search xs ys = (i, found)"
  shows "i \<le> length xs \<and> (found \<longrightarrow> i < length xs \<and> take (length ys) (drop i xs) = ys) \<and>
    (\<not> found \<longrightarrow> length (drop i xs) < length ys) \<and>
    (\<forall>j < i. \<forall>e. take (length ys) (drop j (xs @ e)) \<noteq> ys)"
  using assms
proof (induction xs ys arbitrary: i rule: partial_search.induct)
  case (2 x xs ys)
  show ?case
  proof (cases "match_here (x # xs) ys False")
    case Full_match
    then show ?thesis using 2(3) match_here_full [of "x # xs" ys False] by auto
  next
    case Partial_match
    then show ?thesis using 2(3) match_here_partial [of "x # xs" ys False] by auto
  next
    case Differs
    then obtain k where k: "partial_search xs ys = (k, found)" "i = Suc k"
      using 2(3) by (auto simp: Let_def split: prod.splits)
    have "take (length ys) (drop j ((x # xs) @ e)) \<noteq> ys" if "j < i" for j e
      using that k(2) 2(1) [OF Differs 2(2) k(1)] match_here_differs [OF Differs, of e] by (cases j) auto
    then show ?thesis using k(2) 2(1) [OF Differs 2(2) k(1)] by auto
  qed
qed auto

lemma take_drop_at: "pos \<le> length d \<Longrightarrow> drop j (drop pos d @ e) = drop (pos + j) (d @ e)"
  by (simp add: add.commute)

lemma dead_string:
  assumes "dead (string_hit delim) d pos" "delim \<noteq> []" "partial_search (drop pos d) delim = (i, b)"
  shows "dead (string_hit delim) d (pos + i)"
    "b \<Longrightarrow> pos + i < length d \<and> string_hit delim d (pos + i) (pos + i + length delim) \<and> pos + i + length delim \<le> length d"
    "\<not> b \<Longrightarrow> \<not> string_hit delim d j n"
proof -
  note ps = partial_search_correct [OF assms(2,3)]
  have pos: "pos \<le> length d" using assms(1) by (simp add: dead_def)
  have early: "\<not> string_hit delim (d @ e) j n" if "j < pos + i" for e j n
  proof (cases "j < pos")
    case True
    then show ?thesis using assms(1) by (simp add: dead_def)
  next
    case False
    then have "j - pos < i" using that by simp
    then have "take (length delim) (drop (j - pos) (drop pos d @ e)) \<noteq> delim" using ps by blast
    moreover have "drop (j - pos) (drop pos d @ e) = drop j (d @ e)"
      using take_drop_at [OF pos, of "j - pos" e] False by simp
    ultimately show ?thesis unfolding string_hit_def by metis
  qed
  moreover have le: "pos + i \<le> length d" using conjunct1 [OF ps] pos by simp
  ultimately show "dead (string_hit delim) d (pos + i)" unfolding dead_def by blast
  show "pos + i < length d \<and> string_hit delim d (pos + i) (pos + i + length delim) \<and> pos + i + length delim \<le> length d" if b
  proof -
    have h: "take (length delim) (drop (pos + i) d) = delim" "i < length d - pos" using ps that by (simp_all add: add.commute)
    then have "length delim \<le> length (drop (pos + i) d)" by (metis length_take min.cobounded1)
    then have "pos + i < length d \<and> pos + i + length delim \<le> length d" using h(2) by auto
    then show ?thesis using h(1) by (simp add: string_hit_def)
  qed
  show "\<not> string_hit delim d j n" if "\<not> b"
  proof (cases "j < pos + i")
    case True
    then show ?thesis using early [of j "[]" n] by simp
  next
    case False
    have "length (drop i (drop pos d)) < length delim" using ps that by blast
    then have "length (drop j d) < length delim" using False by simp
    then have "take (length delim) (drop j d) \<noteq> delim" by (metis length_take min.strict_order_iff nless_le)
    then show ?thesis by (simp add: string_hit_def)
  qed
qed

interpretation string: search "find_string (x # xs)" "string_hit (x # xs)" for x xs
proof unfold_locales
  let ?delim = "x # xs"
  fix d pos n
  assume d: "dead (string_hit ?delim) d pos" and f: "find_string ?delim pos d = Found n"
  obtain i b where ps: "partial_search (drop pos d) ?delim = (i, b)" by fastforce
  note k = dead_string [OF d list.distinct(2) ps]
  have "b" "n = pos + i + length ?delim" using f ps by (auto simp: find_string_def Let_def split: if_splits)
  then show "first_match (string_hit ?delim) d n"
    using k(1,2) unfolding first_match_def dead_def by (metis append_Nil2)
next
  let ?delim = "x # xs"
  fix d pos q
  assume d: "dead (string_hit ?delim) d pos" and f: "find_string ?delim pos d = Resume q"
  obtain i b where ps: "partial_search (drop pos d) ?delim = (i, b)" by fastforce
  note k = dead_string [OF d list.distinct(2) ps]
  have b: "\<not> b" using f ps k(2) by (auto simp: find_string_def Let_def split: if_splits)
  moreover have "q = pos + i" using f ps b by (auto simp: find_string_def Let_def split: if_splits)
  ultimately show "dead (string_hit ?delim) d q \<and> (\<forall>i n. \<not> string_hit ?delim d i n)" using k(1,3) by simp
qed

section \<open>The loop\<close>

text \<open>
  What the calls promise: \<open>got\<close> are the answers used, all but the last without an error. Either
  the data end up with a first match, which ends at the position returned, or they are as long as
  the buffer may be and have none, or the last read failed.
\<close>

definition until_spec ::
  "(byte list \<Rightarrow> nat \<Rightarrow> nat \<Rightarrow> bool) \<Rightarrow> byte list \<Rightarrow> nat \<Rightarrow> (io_error \<times> byte list) list \<Rightarrow> io_error \<Rightarrow> nat \<Rightarrow> byte list \<Rightarrow> bool" where
  "until_spec hit old most es ec n d \<longleftrightarrow>
     (\<exists>got rest. (\<forall>e \<in> set got. \<not> failed (fst e)) \<and>
       (es = got @ rest \<and> d = old @ concat (map snd got) \<and>
          (ec = success \<and> first_match hit d n \<or>
           ec = not_found \<and> n = 0 \<and> length d = most \<and> (\<forall>i m. \<not> hit d i m)) \<or>
        (\<exists>bs. es = got @ (ec, bs) # rest \<and> failed ec \<and> n = 0 \<and> d = old @ concat (map snd got) @ bs \<and>
          (\<forall>i m. \<not> hit (old @ concat (map snd got)) i m))))"

lemma until_spec_now:
  assumes "ec = success \<and> first_match hit d n \<or> ec = not_found \<and> n = 0 \<and> length d = most \<and> (\<forall>i m. \<not> hit d i m)"
  shows "until_spec hit d most es ec n d"
  unfolding until_spec_def using assms by (intro exI [of _ "[]"] exI [of _ es]) auto

lemma until_spec_step:
  assumes "until_spec hit (old @ bs) most es ec n d" "\<not> failed e"
  shows "until_spec hit old most ((e, bs) # es) ec n d"
proof -
  obtain got rest where "\<forall>e \<in> set got. \<not> failed (fst e)"
    "es = got @ rest \<and> d = (old @ bs) @ concat (map snd got) \<and>
       (ec = success \<and> first_match hit d n \<or>
        ec = not_found \<and> n = 0 \<and> length d = most \<and> (\<forall>i m. \<not> hit d i m)) \<or>
     (\<exists>bs'. es = got @ (ec, bs') # rest \<and> failed ec \<and> n = 0 \<and> d = (old @ bs) @ concat (map snd got) @ bs' \<and>
        (\<forall>i m. \<not> hit ((old @ bs) @ concat (map snd got)) i m))"
    using assms(1) unfolding until_spec_def by blast
  then show ?thesis using assms(2) unfolding until_spec_def
    by (intro exI [of _ "(e, bs) # got"] exI [of _ rest]) auto
qed

text \<open>A stream gives no more than it was asked for, and something unless it fails.\<close>

fun until_obeys ::
  "('b, 'w) dynbuf \<Rightarrow> (nat \<Rightarrow> byte list \<Rightarrow> finding) \<Rightarrow> nat \<Rightarrow> 'b \<Rightarrow> (io_error \<times> byte list) list \<Rightarrow> bool" where
  "until_obeys D srch pos b [] \<longleftrightarrow> True"
| "until_obeys D srch pos b ((ec, bs) # es) \<longleftrightarrow>
     (case srch pos (db_data D b) of
        Found n \<Rightarrow> True
      | Resume q \<Rightarrow>
          db_size D b = db_max D b \<or>
          length bs \<le> bytes_to_read D b \<and> (failed ec \<or> bs \<noteq> []) \<and>
          (case db_ask D (bytes_to_read D b) b of
             None \<Rightarrow> True
           | Some w \<Rightarrow>
               (case db_got D (bytes_to_read D b) bs w of
                  None \<Rightarrow> True
                | Some b' \<Rightarrow> failed ec \<or> until_obeys D srch q b' es)))"

lemma failed_constants [simp]: "\<not> failed success" "failed not_found"
  by (simp_all add: failed_def success_def not_found_def)

locale until = dynamic_buffer D inv room + search srch hit
  for D :: "('b, 'w) dynbuf" and inv room srch hit +
  assumes room_small: "room < SIZE_MAX"
begin

lemma read_amount:
  assumes "inv b" "db_size D b \<noteq> db_max D b"
  shows "0 < bytes_to_read D b" "bytes_to_read D b \<le> 65536" "bytes_to_read D b \<le> db_max D b - db_size D b"
  using bounds [OF assms(1)] assms(2) by (auto simp: bytes_to_read_def)

lemma asked:
  assumes "inv b" "db_size D b \<noteq> db_max D b" "length (db_data D b) + 65536 \<le> room"
  obtains w where "db_ask D (bytes_to_read D b) b = Some w" "db_size D b + bytes_to_read D b \<le> room"
proof -
  have "db_size D b + bytes_to_read D b \<le> room" using read_amount [OF assms(1,2)] size [OF assms(1)] assms(3) by simp
  from ask [OF assms(1) read_amount(3) [OF assms(1,2)] this] that this show ?thesis by auto
qed

lemma loop_result:
  assumes "inv b" "dead hit (db_data D b) pos" "until_obeys D srch pos b es"
    "length (db_data D b) + length (concat (map snd es)) + 65536 \<le> room"
  shows "case until_loop D srch pos b es of
      Returned ec n b' \<Rightarrow> inv b' \<and> db_max D b' = db_max D b \<and> until_spec hit (db_data D b) (db_max D b) es ec n (db_data D b')
    | Waiting q n w \<Rightarrow> length (db_data D b) + length es < db_max D b \<and> (\<forall>e \<in> set es. \<not> failed (fst e))
    | Thrown \<Rightarrow> False"
  using assms
proof (induction es arbitrary: pos b)
  case Nil
  note r = until_loop.simps [of D srch pos b "[]"]
  show ?case
  proof (cases "srch pos (db_data D b)")
    case (Found n)
    then show ?thesis using r Nil(1) found [OF Nil(2) Found] by (auto intro!: until_spec_now)
  next
    case (Resume q)
    note q = resume [OF Nil(2) Resume]
    show ?thesis
    proof (cases "db_size D b = db_max D b")
      case True
      then show ?thesis using r Resume q Nil(1) size [OF Nil(1)] by (auto intro!: until_spec_now)
    next
      case False
      moreover obtain w where "db_ask D (bytes_to_read D b) b = Some w" using asked [OF Nil(1) False] Nil(4) by auto
      ultimately show ?thesis using r Resume bounds [OF Nil(1)] size [OF Nil(1)] by simp
    qed
  qed
next
  case (Cons e es)
  obtain ec bs where e: "e = (ec, bs)" by (cases e)
  note r = until_loop.simps [of D srch pos b "(ec, bs) # es"]
  show ?case
  proof (cases "srch pos (db_data D b)")
    case (Found n)
    then show ?thesis using r e Cons(2) found [OF Cons(3) Found] by (auto intro!: until_spec_now)
  next
    case (Resume q)
    note q = resume [OF Cons(3) Resume]
    show ?thesis
    proof (cases "db_size D b = db_max D b")
      case True
      then show ?thesis using r e Resume q Cons(2) size [OF Cons(2)] by (auto intro!: until_spec_now)
    next
      case False
      obtain w where w: "db_ask D (bytes_to_read D b) b = Some w" and fits: "db_size D b + bytes_to_read D b \<le> room" using asked [OF Cons(2) False] Cons(5) by auto
      have l: "length bs \<le> bytes_to_read D b" "failed ec \<or> bs \<noteq> []"
        using Cons(4) e Resume False w by auto
      obtain b' where b': "db_got D (bytes_to_read D b) bs w = Some b'" "inv b'" "db_data D b' = db_data D b @ bs" "db_max D b' = db_max D b"
        using got [OF Cons(2) w fits l(1)] by blast
      have step: "until_loop D srch pos b (e # es) = (if failed ec then Returned ec 0 b' else until_loop D srch q b' es)"
        using r e Resume False w l(1) b'(1) by simp
      show ?thesis
      proof (cases "failed ec")
        case True
        have "until_spec hit (db_data D b) (db_max D b) (e # es) ec 0 (db_data D b')"
          unfolding until_spec_def using True e q b'(3)
          by (intro exI [of _ "[]"] exI [of _ es]) auto
        then show ?thesis using step True b' by simp
      next
        case ok: False
        have "until_obeys D srch q b' es" using Cons(4) e Resume False w b'(1) ok by simp
        moreover have "dead hit (db_data D b') q" using q b'(3) by (simp add: dead_append)
        moreover have "length (db_data D b') + length (concat (map snd es)) + 65536 \<le> room" using Cons(5) e b'(3) by simp
        ultimately have ih: "case until_loop D srch q b' es of
            Returned ec n b'' \<Rightarrow> inv b'' \<and> db_max D b'' = db_max D b' \<and> until_spec hit (db_data D b') (db_max D b') es ec n (db_data D b'')
          | Waiting q n w \<Rightarrow> length (db_data D b') + length es < db_max D b' \<and> (\<forall>e \<in> set es. \<not> failed (fst e))
          | Thrown \<Rightarrow> False" using Cons.IH [OF b'(2)] by blast
        have "length (db_data D b) + length (e # es) < db_max D b" if "length (db_data D b') + length es < db_max D b'"
          using that l(2) ok b'(3,4) by (cases bs) simp_all
        then show ?thesis using ih step ok e b'(3,4)
          by (auto split: progress.splits intro: until_spec_step)
      qed
    qed
  qed
qed

text \<open>The composed operation, once it reads, does what the call does.\<close>

lemma drive_is_loop:
  assumes "inv b" "dead hit (db_data D b) pos" "until_obeys D srch pos b es"
    "length (db_data D b) + length (concat (map snd es)) + 65536 \<le> room" "\<forall>e \<in> set es. \<not> failed (fst e) \<longrightarrow> fst e = success"
  shows "until_drive D srch (until_search D srch False success pos b) es = until_loop D srch pos b es"
  using assms
proof (induction es arbitrary: pos b)
  case Nil
  note r = until_loop.simps [of D srch pos b "[]"]
  show ?case
  proof (cases "srch pos (db_data D b)")
    case (Found n)
    then have "n \<noteq> SIZE_MAX" using found [OF Nil(2) Found] Nil(4) room_small by (auto simp: first_match_def)
    then show ?thesis using r Found by (simp add: until_search_def until_finish_def)
  next
    case (Resume q)
    show ?thesis
    proof (cases "db_size D b = db_max D b")
      case True
      then show ?thesis using r Resume by (simp add: until_search_def until_finish_def)
    next
      case False
      moreover obtain w where "db_ask D (bytes_to_read D b) b = Some w" using asked [OF Nil(1) False] Nil(4) by auto
      ultimately show ?thesis using r Resume read_amount(1) [OF Nil(1) False] by (simp add: until_search_def)
    qed
  qed
next
  case (Cons e es)
  obtain ec bs where e: "e = (ec, bs)" by (cases e)
  note r = until_loop.simps [of D srch pos b "(ec, bs) # es"]
  show ?case
  proof (cases "srch pos (db_data D b)")
    case (Found n)
    then have "n \<noteq> SIZE_MAX" using found [OF Cons(3) Found] Cons(5) room_small by (auto simp: first_match_def)
    then show ?thesis using r e Found by (simp add: until_search_def until_finish_def)
  next
    case (Resume q)
    note q = resume [OF Cons(3) Resume]
    show ?thesis
    proof (cases "db_size D b = db_max D b")
      case True
      then show ?thesis using r e Resume by (simp add: until_search_def until_finish_def)
    next
      case False
      obtain w where w: "db_ask D (bytes_to_read D b) b = Some w" and fits: "db_size D b + bytes_to_read D b \<le> room" using asked [OF Cons(2) False] Cons(5) by auto
      have l: "length bs \<le> bytes_to_read D b" "failed ec \<or> bs \<noteq> []"
        using Cons(4) e Resume False w by auto
      obtain b' where b': "db_got D (bytes_to_read D b) bs w = Some b'" "inv b'" "db_data D b' = db_data D b @ bs"
        using got [OF Cons(2) w fits l(1)] by blast
      have qm: "q \<noteq> SIZE_MAX" using q Cons(5) room_small by (auto simp: dead_def)
      have "until_search D srch False success pos b = Waiting q (bytes_to_read D b) w"
        using Resume False w read_amount(1) [OF Cons(2) False] by (simp add: until_search_def)
      then have drive: "until_drive D srch (until_search D srch False success pos b) (e # es) =
          until_drive D srch (if failed ec then Returned ec 0 b' else until_search D srch False ec q b') es"
        using e l b'(1) qm by (auto simp: until_resume_def until_finish_def)
      show ?thesis
      proof (cases "failed ec")
        case True
        then show ?thesis using drive r e Resume False w l(1) b'(1) by simp
      next
        case ok: False
        have "until_obeys D srch q b' es" using Cons(4) e Resume False w b'(1) ok by simp
        moreover have "dead hit (db_data D b') q" using q b'(3) by (simp add: dead_append)
        moreover have "length (db_data D b') + length (concat (map snd es)) + 65536 \<le> room" using Cons(5) e b'(3) by simp
        ultimately have "until_drive D srch (until_search D srch False success q b') es = until_loop D srch q b' es"
          using Cons.IH [OF b'(2)] Cons(6) by simp
        moreover have "ec = success" using Cons(6) e ok by simp
        ultimately show ?thesis using drive r e Resume False w l(1) b'(1) ok by simp
      qed
    qed
  qed
qed

text \<open>
  Its first read is made whether or not it needs one: of no bytes if the data have a match already
  or are as long as they may be. A failure of that read hides the match.
\<close>

lemma start_reads:
  assumes "inv b" "length (db_data D b) + 65536 \<le> room"
  shows "case srch 0 (db_data D b) of
      Found n \<Rightarrow> \<exists>b'. db_data D b' = db_data D b \<and>
        until_drive D srch (until_start D srch b) ((success, []) # es) = Returned success n b' \<and>
        (failed ec \<longrightarrow> until_drive D srch (until_start D srch b) ((ec, []) # es) = Returned ec 0 b')
    | Resume q \<Rightarrow>
        if db_size D b \<noteq> db_max D b then until_start D srch b = until_search D srch False success 0 b
        else \<exists>b'. db_data D b' = db_data D b \<and>
          until_drive D srch (until_start D srch b) ((ec, []) # es) = Returned not_found 0 b'"
proof -
  have "db_size D b + 0 \<le> room" using size [OF assms(1)] assms(2) by simp
  then obtain w where w: "db_ask D 0 b = Some w" using ask [OF assms(1), of 0] by auto
  obtain b' where b': "db_got D 0 [] w = Some b'" "db_data D b' = db_data D b"
    using got [OF assms(1) w, of "[]"] \<open>db_size D b + 0 \<le> room\<close> by auto
  show ?thesis
  proof (cases "srch 0 (db_data D b)")
    case (Found n)
    then have n: "n \<noteq> SIZE_MAX" using found [OF _ Found] assms(2) room_small by (auto simp: first_match_def)
    have "until_start D srch b = Waiting n 0 w" using Found w by (simp add: until_start_def until_search_def)
    then show ?thesis using Found b' n by (auto simp: until_resume_def until_finish_def intro!: exI [of _ b'])
  next
    case (Resume q)
    show ?thesis
    proof (cases "db_size D b = db_max D b")
      case True
      then have "until_start D srch b = Waiting SIZE_MAX 0 w"
        using Resume w by (simp add: until_start_def until_search_def)
      then show ?thesis using Resume True b' by (auto simp: until_resume_def until_finish_def intro!: exI [of _ b'])
    next
      case False
      then show ?thesis using Resume read_amount(1) [OF assms(1)] by (auto simp: until_start_def until_search_def)
    qed
  qed
qed

end

interpretation char_v1: until through_v1 v1_inv string_max "find_char c" "char_hit c" for c
  by unfold_locales simp

interpretation char_v2: until through_v2 v2_inv string_max "find_char c" "char_hit c" for c
  by unfold_locales simp

interpretation string_v1: until through_v1 v1_inv string_max "find_string (x # xs)" "string_hit (x # xs)" for x xs
  by unfold_locales simp

interpretation string_v2: until through_v2 v2_inv string_max "find_string (x # xs)" "string_hit (x # xs)" for x xs
  by unfold_locales simp

section \<open>What the calls return\<close>

lemma v1_fields [simp]:
  "v1_inv b \<Longrightarrow> db_data through_v1 b = chars (dstring b)" "db_max through_v1 = dmax" "db_size through_v1 = dyn_size"
  by (simp_all add: through_v1_def)

lemma v2_fields [simp]:
  "v2_inv b \<Longrightarrow> db_data through_v2 b = chars (dstring b)" "db_max through_v2 = dmax" "db_size through_v2 = dyn_size"
  by (simp_all add: through_v2_def)

lemmas until_calls = read_until_char_v1_def read_until_string_v1_def read_until_match_v1_def
  read_until_char_v2_def read_until_string_v2_def read_until_match_v2_def
  async_until_char_v1_def async_until_string_v1_def async_until_match_v1_def
  async_until_char_v2_def async_until_string_v2_def async_until_match_v2_def

lemma read_until_char_result:
  assumes "v2_inv b" "until_obeys through_v2 (find_char c) 0 b es"
    "length (chars (dstring b)) + length (concat (map snd es)) + 65536 \<le> string_max"
  shows "case read_until_char_v2 c b es of
      Returned ec n b' \<Rightarrow> v2_inv b' \<and> until_spec (char_hit c) (chars (dstring b)) (dmax b) es ec n (chars (dstring b'))
    | Waiting q n w \<Rightarrow> length (chars (dstring b)) + length es < dmax b \<and> (\<forall>e \<in> set es. \<not> failed (fst e))
    | Thrown \<Rightarrow> False"
  using char_v2.loop_result [OF assms(1) _ assms(2)] assms(1,3) by (auto simp: until_calls split: progress.splits)

lemma read_until_v1_result:
  assumes "v1_inv b" "delim \<noteq> []" "until_obeys through_v1 (find_string delim) 0 b es"
    "length (chars (dstring b)) + length (concat (map snd es)) + 65536 \<le> string_max"
  shows "case read_until_string_v1 delim b es of
      Returned ec n b' \<Rightarrow> v1_inv b' \<and> until_spec (string_hit delim) (chars (dstring b)) (dmax b) es ec n (chars (dstring b'))
    | Waiting q n w \<Rightarrow> length (chars (dstring b)) + length es < dmax b \<and> (\<forall>e \<in> set es. \<not> failed (fst e))
    | Thrown \<Rightarrow> False"
proof -
  obtain x xs where d: "delim = x # xs" using assms(2) by (cases delim) auto
  then show ?thesis using string_v1.loop_result [OF assms(1) _ assms(3) [unfolded d]] assms(1,4)
    by (auto simp: until_calls split: progress.splits)
qed

text \<open>A function of the caller, which has to be a search.\<close>

lemma read_until_match_result:
  assumes "v2_inv b" "search (find_match condition) hit" "until_obeys through_v2 (find_match condition) 0 b es"
    "length (chars (dstring b)) + length (concat (map snd es)) + 65536 \<le> string_max"
  shows "case read_until_match_v2 condition b es of
      Returned ec n b' \<Rightarrow> v2_inv b' \<and> until_spec hit (chars (dstring b)) (dmax b) es ec n (chars (dstring b'))
    | Waiting q n w \<Rightarrow> length (chars (dstring b)) + length es < dmax b \<and> (\<forall>e \<in> set es. \<not> failed (fst e))
    | Thrown \<Rightarrow> False"
proof -
  have "until through_v2 v2_inv string_max (find_match condition) hit"
    using assms(2) v2.dynamic_buffer_axioms by (simp add: until_def until_axioms_def)
  from until.loop_result [OF this assms(1) _ assms(3)] assms(1,4) show ?thesis
    by (auto simp: until_calls split: progress.splits)
qed

text \<open>
  A regular expression is a match condition, so the result holds for it when it is a search; the search for a string
  is one.
\<close>

lemma find_regex_is_match:
  "find_regex regex_search = find_match (\<lambda>pos d.
     case regex_search (drop pos d) of
       Some (matched, first, second) \<Rightarrow> (if matched then (pos + second, True) else (pos + first, False))
     | None \<Rightarrow> (length d, False))"
  by (intro ext) (auto simp: find_regex_def find_match_def split: option.split)

lemma regex_calls_are_match_calls:
  fixes regex_search
  defines "condition \<equiv> \<lambda>pos d. case regex_search (drop pos d) of
       Some (matched, first, second) \<Rightarrow> (if matched then (pos + second, True) else (pos + first, False))
     | None \<Rightarrow> (length d, False)"
  shows "read_until_regex_v1 regex_search = read_until_match_v1 condition"
    and "read_until_regex_v2 regex_search = read_until_match_v2 condition"
    and "async_until_regex_v1 regex_search = async_until_match_v1 condition"
    and "async_until_regex_v2 regex_search = async_until_match_v2 condition"
  unfolding condition_def
  by (intro ext; simp add: read_until_regex_v1_def read_until_regex_v2_def async_until_regex_v1_def async_until_regex_v2_def
    read_until_match_v1_def read_until_match_v2_def async_until_match_v1_def async_until_match_v2_def find_regex_is_match)+

lemma string_is_regex:
  assumes "pos \<le> length d"
  shows "find_string delim pos d = find_regex (\<lambda>xs. case partial_search xs delim of
     (i, found) \<Rightarrow> if i = length xs then None else Some (found, i, i + length delim)) pos d"
  using assms by (auto simp: find_string_def find_regex_def Let_def split: prod.split)

text \<open>
  C28. Reading until a string: when the call returns without an error, the position it returns ends
  the first occurrence of the delimiter in what the buffer holds, which is what it held and all
  that was read, in order. It gives up with \<open>not_found\<close> only if the buffer is as long as it may be
  and has no occurrence, and with the error of a read after the bytes that came before it and with
  it. It never throws, and waits for the stream only as long as there was no error and fewer
  answers than the buffer has room for bytes.
\<close>

theorem read_until_first_match:
  assumes "v2_inv b" "delim \<noteq> []" "until_obeys through_v2 (find_string delim) 0 b es"
    "length (chars (dstring b)) + length (concat (map snd es)) + 65536 \<le> string_max"
  shows "case read_until_string_v2 delim b es of
      Returned ec n b' \<Rightarrow> v2_inv b' \<and> until_spec (string_hit delim) (chars (dstring b)) (dmax b) es ec n (chars (dstring b'))
    | Waiting q n w \<Rightarrow> length (chars (dstring b)) + length es < dmax b \<and> (\<forall>e \<in> set es. \<not> failed (fst e))
    | Thrown \<Rightarrow> False"
proof -
  obtain x xs where d: "delim = x # xs" using assms(2) by (cases delim) auto
  then show ?thesis using string_v2.loop_result [OF assms(1) _ assms(3) [unfolded d]] assms(1,4)
    by (auto simp: until_calls split: progress.splits)
qed

text \<open>The delimiter comes in two parts, after a byte that only looks like its beginning.\<close>

definition small_buffer :: dyn where
  "small_buffer = dyn_new \<lparr>chars = [7], reserved = 1, policy = (\<lambda>c n. n)\<rparr> 8"

lemma small_buffer_ok: "v2_inv small_buffer" "chars (dstring small_buffer) = [7]" "dmax small_buffer = 8" "dsize small_buffer = SIZE_MAX"
  by (simp_all add: small_buffer_def dyn_new_def v2_inv_def string_inv_def string_max_def)

lemmas until_eval = small_buffer_def dyn_new_def through_v2_def bytes_to_read_def dyn_size_def dyn_capacity_def size_sub_def
  dyn_data_v2_def find_string_def dyn_grow_def dyn_shrink_def resize_chars_def write_at_def SIZE_MAX_def string_max_def Let_def

lemma small_obeys: "until_obeys through_v2 (find_string [13, 10]) 0 small_buffer [(success, [13, 9, 13]), (success, [10, 5])]"
  by (simp add: until_eval)

lemma read_until_first_match_witness:
  "\<exists>b'. read_until_string_v2 [13, 10] small_buffer [(success, [13, 9, 13]), (success, [10, 5])] = Returned success 5 b' \<and>
    chars (dstring b') = [7, 13, 9, 13, 10, 5] \<and>
    until_spec (string_hit [13, 10]) [7] 8 [(success, [13, 9, 13]), (success, [10, 5])] success 5 [7, 13, 9, 13, 10, 5]"
proof -
  obtain b' where "read_until_string_v2 [13, 10] small_buffer [(success, [13, 9, 13]), (success, [10, 5])] = Returned success 5 b'"
    "chars (dstring b') = [7, 13, 9, 13, 10, 5]"
    by (simp add: read_until_string_v2_def until_loop.simps until_eval)
  moreover have "length (chars (dstring small_buffer)) + length (concat (map snd [(success, [13, 9, 13 :: byte]), (success, [10, 5])])) + 65536 \<le> string_max"
    by (simp add: small_buffer_ok string_max_def)
  note read_until_first_match [OF small_buffer_ok(1) _ small_obeys this]
  ultimately show ?thesis by (simp add: small_buffer_ok)
qed

text \<open>
  C29. The composed operation agrees with the call, answer by answer, unless the buffer has the
  delimiter or is full to begin with: there the call returns without asking the stream, and the
  operation first reads no bytes. With the delimiter in the buffer an error of that read takes
  the place of the match, which is in the buffer; a full buffer without it ends with
  \<open>not_found\<close>, whatever that read reports.
\<close>

theorem async_until_agrees:
  assumes "v2_inv b" "delim \<noteq> []" "until_obeys through_v2 (find_string delim) 0 b es"
    "length (chars (dstring b)) + length (concat (map snd es)) + 65536 \<le> string_max"
    "\<forall>e \<in> set es. \<not> failed (fst e) \<longrightarrow> fst e = success"
  shows "case find_string delim 0 (chars (dstring b)) of
      Resume q \<Rightarrow>
        if length (chars (dstring b)) \<noteq> dmax b then async_until_string_v2 delim b es = read_until_string_v2 delim b es
        else read_until_string_v2 delim b es = Returned not_found 0 b \<and>
          (\<exists>b'. db_data through_v2 b' = chars (dstring b) \<and>
            async_until_string_v2 delim b ((ec, []) # es) = Returned not_found 0 b')
    | Found n \<Rightarrow> read_until_string_v2 delim b es = Returned success n b \<and>
        (\<exists>b'. db_data through_v2 b' = chars (dstring b) \<and>
          async_until_string_v2 delim b ((success, []) # es) = Returned success n b' \<and>
          (failed ec \<longrightarrow> async_until_string_v2 delim b ((ec, []) # es) = Returned ec 0 b'))"
proof -
  obtain x xs where d: "delim = x # xs" using assms(2) by (cases delim) auto
  have "length (db_data through_v2 b) + 65536 \<le> string_max" using assms(1,4) by simp
  from string_v2.start_reads [OF assms(1) this, of x xs es ec]
    string_v2.drive_is_loop [OF assms(1) _ assms(3) [unfolded d] _ assms(5)] assms(1,4)
  show ?thesis
    by (auto simp: until_calls d until_loop.simps [of _ _ _ b] split: finding.splits)
qed

lemma async_until_agrees_witness:
  "async_until_string_v2 [13, 10] small_buffer [(success, [13, 9, 13]), (success, [10, 5])] =
    read_until_string_v2 [13, 10] small_buffer [(success, [13, 9, 13]), (success, [10, 5])]"
proof -
  have "find_string [13, 10] 0 (chars (dstring small_buffer)) = Resume 1"
    by (simp add: small_buffer_ok find_string_def)
  moreover have "length (chars (dstring small_buffer)) + length (concat (map snd [(success, [13, 9, 13 :: byte]), (success, [10, 5])])) + 65536 \<le> string_max"
    by (simp add: small_buffer_ok string_max_def)
  note async_until_agrees [OF small_buffer_ok(1) _ small_obeys this]
  ultimately show ?thesis by (simp add: small_buffer_ok)
qed

end
