(* ===== verification/AsioSyncTransfer.thy ===== *)
theory AsioSyncTransfer
  imports AsioReadUntil AsioTransfer
begin

text \<open>
  The blocking \<^verbatim>\<open>read\<close> and \<^verbatim>\<open>write\<close> of \<^verbatim>\<open>asio/impl/read.hpp\<close> and \<^verbatim>\<open>asio/impl/write.hpp\<close>, on
  buffer sequences and on dynamic buffers, and the composed \<^verbatim>\<open>async_read\<close> into a dynamic buffer.
  The stream's answers are given, as in \<open>AsioTransfer\<close> and \<open>AsioReadUntil\<close>.

  Shown: the blocking calls do what the composed operations of \<open>AsioTransfer\<close> do, for every
  completion condition; a read into a dynamic buffer appends what it read; a write of one consumes
  what was written.
\<close>

section \<open>Buffer sequences\<close>

text \<open>\<open>None\<close>: the call waits for the stream.\<close>

fun buffer_loop :: "'c walker \<Rightarrow> completion_condition \<Rightarrow> error_code \<Rightarrow> 'c \<Rightarrow> (error_code \<times> nat) list \<Rightarrow>
    nat list \<times> (error_code \<times> nat) option" where
  "buffer_loop W cond ec c es =
     (if \<not> w_empty W c
      then
        let max_size = cond ec (w_total W c)
        in if max_size > 0
           then
             (case es of
                [] \<Rightarrow> ([], None)
              | (ec', n) # es' \<Rightarrow>
                  let (xs, r) = buffer_loop W cond ec' (w_consume W c n) es'
                  in (take n (flats (w_prepare W c max_size)) @ xs, r))
           else ([], Some (ec, w_total W c))
      else ([], Some (ec, w_total W c)))"

declare buffer_loop.simps [simp del]

definition read_buffer_sequence :: "completion_condition \<Rightarrow> buf list \<Rightarrow> (error_code \<times> nat) list \<Rightarrow> nat list \<times> (error_code \<times> nat) option" where
  "read_buffer_sequence cond bs es = buffer_loop sequence_walker cond 0 (cb_init bs) es"

definition write_buffer_sequence :: "completion_condition \<Rightarrow> buf list \<Rightarrow> (error_code \<times> nat) list \<Rightarrow> nat list \<times> (error_code \<times> nat) option" where
  "write_buffer_sequence cond bs es = buffer_loop sequence_walker cond 0 (cb_init bs) es"

text \<open>After a completion that was not an empty success, the operation object does what the loop does.\<close>

context buffer_walk
begin

lemma resume_is_loop:
  assumes "inv c" "n \<le> length (rest c)" "ec \<noteq> 0 \<or> n \<noteq> 0" "obeys W cond (write_op_call W cond False ec n c) es"
  shows "drive W cond (write_op_call W cond False ec n c) es = buffer_loop W cond ec (w_consume W c n) es"
  using assms
proof (induction es arbitrary: c ec n)
  case Nil
  then show ?case by (auto simp: write_op_call_def Let_def buffer_loop.simps [of _ _ _ _ "[]"])
next
  case (Cons e es)
  obtain ec' n' where e: "e = (ec', n')" by (cases e)
  let ?c = "w_consume W c n" and ?m = "cond ec (w_total W (w_consume W c n))"
  have inv': "inv ?c" using consume_inv [OF Cons(2,3)] .
  show ?case
  proof (cases "w_empty W ?c \<or> ?m = 0")
    case True
    then show ?thesis using Cons(4) by (auto simp: write_op_call_def Let_def buffer_loop.simps [of _ _ _ _ "e # es"])
  next
    case False
    then have call: "write_op_call W cond False ec n c = (Start_some (w_prepare W ?c ?m), ?c)"
      using Cons(4) by (auto simp: write_op_call_def Let_def)
    have ne: "rest ?c \<noteq> []" using False empty_iff [OF inv'] by simp
    have ob: "n' \<le> buffer_size (w_prepare W ?c ?m)" "ec' \<noteq> 0 \<or> n' \<noteq> 0"
      "obeys W cond (write_op_call W cond False ec' n' ?c) es"
      using Cons(5) call e prepare_some [OF inv' ne, of ?m] False by auto
    have "drive W cond (write_op_call W cond False ec' n' ?c) es = buffer_loop W cond ec' (w_consume W ?c n') es"
      using Cons.IH [OF inv' prepare_take(2) [OF inv' ob(1)] ob(2,3)] .
    then show ?thesis using call e False by (simp add: buffer_loop.simps [of W cond ec ?c "(ec', n') # es"])
  qed
qed

lemma drive_is_sync:
  assumes "inv c" "rest c \<noteq> []" "0 < cond 0 (w_total W c)" "obeys W cond (write_op_call W cond True 0 0 c) es"
  shows "drive W cond (write_op_call W cond True 0 0 c) es = buffer_loop W cond 0 c es"
proof -
  let ?m = "cond 0 (w_total W c)"
  have ne: "\<not> w_empty W c" using empty_iff [OF assms(1)] assms(2) by simp
  show ?thesis
  proof (cases es)
    case Nil
    then show ?thesis using ne assms(3) by (simp add: write_op_call_def buffer_loop.simps)
  next
    case (Cons e es')
    obtain ec n where e: "e = (ec, n)" by (cases e)
    have ob: "n \<le> buffer_size (w_prepare W c ?m)" "ec \<noteq> 0 \<or> n \<noteq> 0" "obeys W cond (write_op_call W cond False ec n c) es'"
      using assms(4) Cons e prepare_some [OF assms(1,2,3)] by (auto simp: write_op_call_def)
    from resume_is_loop [OF assms(1) prepare_take(2) [OF assms(1) ob(1)] ob(2,3)] show ?thesis
      using ne assms(3) Cons e by (simp add: write_op_call_def [of _ _ True] buffer_loop.simps [of W cond 0 c "(ec, n) # es'"])
  qed
qed

end

text \<open>
  For every completion condition, sequence of buffers with at least a byte, and stream that gives
  something when asked for something, the blocking \<^verbatim>\<open>read\<close> and \<^verbatim>\<open>write\<close> pass the same bytes, return
  the same count and end with the same error as \<^verbatim>\<open>async_read\<close> and \<^verbatim>\<open>async_write\<close>, and they wait
  as long; with nothing to transfer the blocking calls return at once, the composed ones wait for
  an operation of no bytes.
\<close>

theorem sync_is_composed:
  assumes "obeys sequence_walker cond (write_op_call sequence_walker cond True 0 0 (cb_init bs)) es" "0 < cond 0 0"
  shows "if buffer_size bs \<noteq> 0
    then write_buffer_sequence cond bs es = drive sequence_walker cond (write_op_call sequence_walker cond True 0 0 (cb_init bs)) es \<and>
      read_buffer_sequence cond bs es = drive sequence_walker cond (read_op_call sequence_walker cond True 0 0 (cb_init bs)) es
    else write_buffer_sequence cond bs es = ([], Some (0, 0)) \<and> read_buffer_sequence cond bs es = ([], Some (0, 0)) \<and>
      drive sequence_walker cond (write_op_call sequence_walker cond True 0 0 (cb_init bs)) [] = ([], None)"
proof (cases "buffer_size bs = 0")
  case True
  then have "w_empty sequence_walker (cb_init bs)" using sequence.empty_iff [OF cb_inv_init, of bs] by (simp add: cb_init_rest)
  then show ?thesis using True
    by (simp add: write_buffer_sequence_def read_buffer_sequence_def buffer_loop.simps cb_init_rest write_op_call_def)
next
  case False
  then have "cb_rest (cb_init bs) \<noteq> []" "0 < cond 0 (w_total sequence_walker (cb_init bs))" using assms(2) by (simp_all add: cb_init_rest)
  from sequence.drive_is_sync [OF cb_inv_init this assms(1)] show ?thesis
    using False by (simp add: write_buffer_sequence_def read_buffer_sequence_def read_op_is_write_op)
qed

lemma sync_is_composed_witness:
  "read_buffer_sequence (transfer_at_least 2) [\<lparr>bdata = 10, bsize = 3\<rparr>, \<lparr>bdata = 20, bsize = 2\<rparr>] [(0, 1), (0, 2)] =
     ([10, 11, 12], Some (0, 3)) \<and>
   read_buffer_sequence (transfer_at_least 2) [\<lparr>bdata = 10, bsize = 3\<rparr>, \<lparr>bdata = 20, bsize = 2\<rparr>] [(0, 1), (0, 2)] =
     drive sequence_walker (transfer_at_least 2) (read_op_call sequence_walker (transfer_at_least 2) True 0 0
       (cb_init [\<lparr>bdata = 10, bsize = 3\<rparr>, \<lparr>bdata = 20, bsize = 2\<rparr>])) [(0, 1), (0, 2)]"
proof -
  let ?bs = "[\<lparr>bdata = 10, bsize = 3\<rparr>, \<lparr>bdata = 20, bsize = 2\<rparr>]"
  have "obeys sequence_walker (transfer_at_least 2) (write_op_call sequence_walker (transfer_at_least 2) True 0 0 (cb_init ?bs)) [(0, 1), (0, 2)]"
    by (simp add: transfer_eval transfer_at_least_def)
  moreover have "read_buffer_sequence (transfer_at_least 2) ?bs [(0, 1), (0, 2)] = ([10, 11, 12], Some (0, 3))"
    by (simp add: read_buffer_sequence_def buffer_loop.simps transfer_eval transfer_at_least_def)
  ultimately show ?thesis using sync_is_composed [of "transfer_at_least 2" ?bs "[(0, 1), (0, 2)]"]
    by (simp add: transfer_at_least_def default_max_transfer_size_def)
qed

section \<open>Reading into a dynamic buffer\<close>

text \<open>
  A completion condition here sees the error code itself. The calls on either interface are one
  loop, over the steps of \<open>through_v1\<close> or \<open>through_v2\<close>.
\<close>

definition bytes_available :: "('b, 'w) dynbuf \<Rightarrow> (io_error \<Rightarrow> nat \<Rightarrow> nat) \<Rightarrow> io_error \<Rightarrow> nat \<Rightarrow> 'b \<Rightarrow> nat" where
  "bytes_available D cond ec total_transferred b =
     min (max 512 (size_sub (db_capacity D b) (db_size D b))) (min (cond ec total_transferred) (size_sub (db_max D b) (db_size D b)))"

fun dyn_read_loop ::
  "('b, 'w) dynbuf \<Rightarrow> (io_error \<Rightarrow> nat \<Rightarrow> nat) \<Rightarrow> io_error \<Rightarrow> nat \<Rightarrow> 'b \<Rightarrow> (io_error \<times> byte list) list \<Rightarrow> ('b, 'w) progress" where
  "dyn_read_loop D cond ec total_transferred b es =
     (let n = bytes_available D cond ec total_transferred b
      in if n > 0
         then
           case db_ask D n b of
             None \<Rightarrow> Thrown
           | Some w \<Rightarrow>
               (case es of
                  [] \<Rightarrow> Waiting total_transferred n w
                | (ec', bs) # es' \<Rightarrow>
                    (case db_got D n (take n bs) w of
                       None \<Rightarrow> Thrown
                     | Some b' \<Rightarrow> dyn_read_loop D cond ec' (total_transferred + length (take n bs)) b' es'))
         else Returned ec total_transferred b)"

declare dyn_read_loop.simps [simp del]

lemma dyn_read_loop_stop: "bytes_available D cond ec t b = 0 \<Longrightarrow> dyn_read_loop D cond ec t b es = Returned ec t b"
  unfolding dyn_read_loop.simps [of D cond ec t b es] Let_def by simp

lemma dyn_read_loop_thrown:
  assumes "bytes_available D cond ec t b \<noteq> 0" "db_ask D (bytes_available D cond ec t b) b = None"
  shows "dyn_read_loop D cond ec t b es = Thrown"
  using assms unfolding dyn_read_loop.simps [of D cond ec t b es] Let_def by simp

lemma dyn_read_loop_wait:
  assumes "bytes_available D cond ec t b \<noteq> 0" "db_ask D (bytes_available D cond ec t b) b = Some w"
  shows "dyn_read_loop D cond ec t b [] = Waiting t (bytes_available D cond ec t b) w"
  using assms unfolding dyn_read_loop.simps [of D cond ec t b "[]"] Let_def by simp

lemma dyn_read_loop_step:
  assumes "bytes_available D cond ec t b \<noteq> 0" "db_ask D (bytes_available D cond ec t b) b = Some w"
    "length bs \<le> bytes_available D cond ec t b" "db_got D (bytes_available D cond ec t b) bs w = Some b'"
  shows "dyn_read_loop D cond ec t b ((ec', bs) # es) = dyn_read_loop D cond ec' (t + length bs) b' es"
  using assms unfolding dyn_read_loop.simps [of D cond ec t b "(ec', bs) # es"] Let_def by simp

definition dyn_read_v1 where
  "dyn_read_v1 cond b es = dyn_read_loop through_v1 cond success 0 b es"

definition dyn_read_v2 where
  "dyn_read_v2 cond b es = dyn_read_loop through_v2 cond success 0 b es"

definition dyn_read_start :: "('b, 'w) dynbuf \<Rightarrow> (io_error \<Rightarrow> nat \<Rightarrow> nat) \<Rightarrow> 'b \<Rightarrow> ('b, 'w) progress" where
  "dyn_read_start D cond b =
     (let n = bytes_available D cond success 0 b
      in case db_ask D n b of None \<Rightarrow> Thrown | Some w \<Rightarrow> Waiting 0 n w)"

definition dyn_read_resume ::
  "('b, 'w) dynbuf \<Rightarrow> (io_error \<Rightarrow> nat \<Rightarrow> nat) \<Rightarrow> io_error \<Rightarrow> byte list \<Rightarrow> nat \<Rightarrow> nat \<Rightarrow> 'w \<Rightarrow> ('b, 'w) progress" where
  "dyn_read_resume D cond ec bs tot n w =
     (let total_transferred = tot + length bs
      in case db_got D n bs w of
           None \<Rightarrow> Thrown
         | Some b \<Rightarrow>
             let n' = bytes_available D cond ec total_transferred b
             in if \<not> failed ec \<and> length bs = 0 \<or> n' = 0 then Returned ec total_transferred b
                else case db_ask D n' b of None \<Rightarrow> Thrown | Some w' \<Rightarrow> Waiting total_transferred n' w')"

fun dyn_read_drive ::
  "('b, 'w) dynbuf \<Rightarrow> (io_error \<Rightarrow> nat \<Rightarrow> nat) \<Rightarrow> ('b, 'w) progress \<Rightarrow> (io_error \<times> byte list) list \<Rightarrow> ('b, 'w) progress" where
  "dyn_read_drive D cond (Waiting tot n w) ((ec, bs) # es) =
     dyn_read_drive D cond (dyn_read_resume D cond ec (take n bs) tot n w) es"
| "dyn_read_drive D cond p es = p"

definition async_dyn_read_v1 where
  "async_dyn_read_v1 cond b es = dyn_read_drive through_v1 cond (dyn_read_start through_v1 cond b) es"

definition async_dyn_read_v2 where
  "async_dyn_read_v2 cond b es = dyn_read_drive through_v2 cond (dyn_read_start through_v2 cond b) es"

fun dyn_read_obeys ::
  "('b, 'w) dynbuf \<Rightarrow> (io_error \<Rightarrow> nat \<Rightarrow> nat) \<Rightarrow> io_error \<Rightarrow> nat \<Rightarrow> 'b \<Rightarrow> (io_error \<times> byte list) list \<Rightarrow> bool" where
  "dyn_read_obeys D cond ec tot b [] \<longleftrightarrow> True"
| "dyn_read_obeys D cond ec tot b ((ec', bs) # es) \<longleftrightarrow>
     (let n = bytes_available D cond ec tot b
      in n = 0 \<or>
         length bs \<le> n \<and> (failed ec' \<or> bs \<noteq> []) \<and>
         (case db_ask D n b of
            None \<Rightarrow> True
          | Some w \<Rightarrow>
              (case db_got D n bs w of
                 None \<Rightarrow> True
               | Some b' \<Rightarrow> dyn_read_obeys D cond ec' (tot + length bs) b' es)))"

context dynamic_buffer
begin

lemma available_le: "inv b \<Longrightarrow> bytes_available D cond ec t b \<le> db_max D b - db_size D b"
  "bytes_available D cond ec t b \<le> cond ec t"
  using bounds [of b] by (auto simp: bytes_available_def)

lemma available_zero: "inv b \<Longrightarrow> bytes_available D cond ec t b = 0 \<longleftrightarrow> cond ec t = 0 \<or> db_size D b = db_max D b"
  using bounds [of b] by (auto simp: bytes_available_def)

lemma dyn_read_result:
  assumes "inv b" "dyn_read_obeys D cond ec t b es" "\<And>ec t. cond ec t \<le> most"
    "length (db_data D b) + length (concat (map snd es)) + most \<le> room"
  shows "case dyn_read_loop D cond ec t b es of
      Returned ec' t' b' \<Rightarrow> \<exists>got rest. es = got @ rest \<and> inv b' \<and> db_max D b' = db_max D b \<and>
        db_data D b' = db_data D b @ concat (map snd got) \<and> t' = t + length (concat (map snd got)) \<and>
        ec' = last (ec # map fst got) \<and> (cond ec' t' = 0 \<or> length (db_data D b') = db_max D b)
    | Waiting t' n w \<Rightarrow> t' = t + length (concat (map snd es)) \<and> cond (last (ec # map fst es)) t' \<noteq> 0
    | Thrown \<Rightarrow> False"
  using assms(1,2,4)
proof (induction es arbitrary: b ec t)
  case Nil
  let ?n = "bytes_available D cond ec t b"
  show ?case
  proof (cases "?n = 0")
    case True
    then have "dyn_read_loop D cond ec t b [] = Returned ec t b" by (rule dyn_read_loop_stop)
    moreover have "cond ec t = 0 \<or> length (db_data D b) = db_max D b"
      using True available_zero [OF Nil(1)] size [OF Nil(1)] by simp
    ultimately show ?thesis using Nil(1) by simp
  next
    case False
    have "db_size D b + ?n \<le> room" using available_le(2) [of cond ec t b] assms(3) [of ec t] size [OF Nil(1)] Nil(3) by simp
    then obtain w where "db_ask D ?n b = Some w" using ask [OF Nil(1) available_le(1) [OF Nil(1)]] by blast
    then have "dyn_read_loop D cond ec t b [] = Waiting t ?n w" using dyn_read_loop_wait [OF False] by simp
    moreover have "cond ec t \<noteq> 0" using False available_zero [OF Nil(1), of cond ec t] by simp
    ultimately show ?thesis by simp
  qed
next
  case (Cons e es)
  obtain ec' bs where e: "e = (ec', bs)" by (cases e)
  let ?n = "bytes_available D cond ec t b"
  show ?case
  proof (cases "?n = 0")
    case True
    then have "dyn_read_loop D cond ec t b (e # es) = Returned ec t b" by (rule dyn_read_loop_stop)
    moreover have "cond ec t = 0 \<or> length (db_data D b) = db_max D b"
      using True available_zero [OF Cons(2)] size [OF Cons(2)] by simp
    ultimately show ?thesis using Cons(2) by (auto intro!: exI [of _ "[]"])
  next
    case False
    have "db_size D b + ?n \<le> room" using available_le(2) [of cond ec t b] assms(3) [of ec t] size [OF Cons(2)] Cons(4) by simp
    note fits = this
    then obtain w where w: "db_ask D ?n b = Some w" using ask [OF Cons(2) available_le(1) [OF Cons(2)]] by blast
    have l: "length bs \<le> ?n" using Cons(3) e False w by (simp add: Let_def)
    obtain b' where b': "db_got D ?n bs w = Some b'" "inv b'" "db_data D b' = db_data D b @ bs" "db_max D b' = db_max D b"
      using got [OF Cons(2) w fits l] by blast
    have step: "dyn_read_loop D cond ec t b (e # es) = dyn_read_loop D cond ec' (t + length bs) b' es"
      unfolding e using dyn_read_loop_step [OF False w l b'(1)] .
    have "dyn_read_obeys D cond ec' (t + length bs) b' es" using Cons(3) e False w b'(1) by (simp add: Let_def)
    moreover have "length (db_data D b') + length (concat (map snd es)) + most \<le> room" using Cons(4) e b'(3) by simp
    ultimately have ih: "case dyn_read_loop D cond ec' (t + length bs) b' es of
        Returned ec'' t' b'' \<Rightarrow> \<exists>got rest. es = got @ rest \<and> inv b'' \<and> db_max D b'' = db_max D b' \<and>
          db_data D b'' = db_data D b' @ concat (map snd got) \<and> t' = t + length bs + length (concat (map snd got)) \<and>
          ec'' = last (ec' # map fst got) \<and> (cond ec'' t' = 0 \<or> length (db_data D b'') = db_max D b')
      | Waiting t' n w \<Rightarrow> t' = t + length bs + length (concat (map snd es)) \<and> cond (last (ec' # map fst es)) t' \<noteq> 0
      | Thrown \<Rightarrow> False" by (rule Cons.IH [OF b'(2)])
    show ?thesis
    proof (cases "dyn_read_loop D cond ec' (t + length bs) b' es")
      case (Returned ec'' t' b'')
      then obtain got rest where g: "es = got @ rest" "inv b''" "db_max D b'' = db_max D b'"
        "db_data D b'' = db_data D b' @ concat (map snd got)" "t' = t + length bs + length (concat (map snd got))"
        "ec'' = last (ec' # map fst got)" "cond ec'' t' = 0 \<or> length (db_data D b'') = db_max D b'"
        using ih by auto
      have "e # es = (e # got) @ rest" "db_data D b'' = db_data D b @ concat (map snd (e # got))"
        "t' = t + length (concat (map snd (e # got)))" "ec'' = last (ec # map fst (e # got))" "db_max D b'' = db_max D b"
        using g(1,3,4,5,6) e b'(3,4) by simp_all
      then show ?thesis unfolding step Returned progress.case using g(2,7) b'(4) by metis
    qed (use ih step e in auto)
  qed
qed

lemma dyn_drive_is_loop:
  assumes "inv b" "0 < bytes_available D cond ec t b" "dyn_read_obeys D cond ec t b es" "db_ask D (bytes_available D cond ec t b) b = Some w"
    "\<And>ec t. cond ec t \<le> most" "length (db_data D b) + length (concat (map snd es)) + most \<le> room"
  shows "dyn_read_drive D cond (Waiting t (bytes_available D cond ec t b) w) es = dyn_read_loop D cond ec t b es"
  using assms(1,2,3,4,6)
proof (induction es arbitrary: b ec t w)
  case Nil
  then show ?case using dyn_read_loop_wait [OF _ Nil(4)] by simp
next
  case (Cons e es)
  obtain ec' bs where e: "e = (ec', bs)" by (cases e)
  let ?n = "bytes_available D cond ec t b"
  have l: "length bs \<le> ?n" "failed ec' \<or> bs \<noteq> []" using Cons(3,4,5) e by (auto simp: Let_def)
  have fits: "db_size D b + ?n \<le> room" using available_le(2) [of cond ec t b] assms(5) [of ec t] size [OF Cons(2)] Cons(6) by simp
  obtain b' where b': "db_got D ?n bs w = Some b'" "inv b'" "db_data D b' = db_data D b @ bs" using got [OF Cons(2) Cons(5) fits l(1)] by blast
  have room': "length (db_data D b') + length (concat (map snd es)) + most \<le> room" using Cons(6) e b'(3) by simp
  let ?n' = "bytes_available D cond ec' (t + length bs) b'"
  have ob: "dyn_read_obeys D cond ec' (t + length bs) b' es" using Cons(3,4,5) e b'(1) by (simp add: Let_def)
  have step: "dyn_read_loop D cond ec t b (e # es) = dyn_read_loop D cond ec' (t + length bs) b' es"
    unfolding e using Cons(3) dyn_read_loop_step [OF _ Cons(5) l(1) b'(1)] by simp
  have res: "dyn_read_resume D cond ec' bs t ?n w =
      (if ?n' = 0 then Returned ec' (t + length bs) b'
       else case db_ask D ?n' b' of None \<Rightarrow> Thrown | Some w' \<Rightarrow> Waiting (t + length bs) ?n' w')"
    using b'(1) l(2) by (auto simp: dyn_read_resume_def Let_def)
  show ?case
  proof (cases "?n' = 0")
    case True
    then have "dyn_read_loop D cond ec' (t + length bs) b' es = Returned ec' (t + length bs) b'"
      by (rule dyn_read_loop_stop)
    then show ?thesis using step res e l True by simp
  next
    case False
    show ?thesis
    proof (cases "db_ask D ?n' b'")
      case None
      then have "dyn_read_loop D cond ec' (t + length bs) b' es = Thrown"
        using dyn_read_loop_thrown [OF False] by simp
      then show ?thesis using step res e l False None by simp
    next
      case (Some w')
      then show ?thesis using Cons.IH [OF b'(2) _ ob Some room'] False step res e l by simp
    qed
  qed
qed

end

text \<open>What a read leaves when it was given \<open>es\<close>.\<close>

definition dyn_read_spec ::
  "(io_error \<Rightarrow> nat \<Rightarrow> nat) \<Rightarrow> nat \<Rightarrow> byte list \<Rightarrow> (io_error \<times> byte list) list \<Rightarrow> ('b \<Rightarrow> byte list) \<Rightarrow> ('b, 'w) progress \<Rightarrow> bool" where
  "dyn_read_spec cond limit d es contents p \<longleftrightarrow>
     (case p of
        Returned ec t b \<Rightarrow> \<exists>got rest. es = got @ rest \<and> contents b = d @ concat (map snd got) \<and>
          t = length (concat (map snd got)) \<and> ec = last (success # map fst got) \<and>
          (cond ec t = 0 \<or> length (contents b) = limit)
      | Waiting t n w \<Rightarrow> t = length (concat (map snd es)) \<and> cond (last (success # map fst es)) t \<noteq> 0
      | Thrown \<Rightarrow> False)"

context dynamic_buffer
begin

lemma dyn_read_meets:
  assumes "inv b" "dyn_read_obeys D cond success 0 b es" "\<And>ec t. cond ec t \<le> most"
    "length (db_data D b) + length (concat (map snd es)) + most \<le> room"
  shows "dyn_read_spec cond (db_max D b) (db_data D b) es (db_data D) (dyn_read_loop D cond success 0 b es)"
  using dyn_read_result [OF assms] unfolding dyn_read_spec_def
  by (cases "dyn_read_loop D cond success 0 b es") (simp_all del: last.simps, blast)

lemma dyn_start_drive:
  assumes "inv b" "dyn_read_obeys D cond success 0 b es" "\<And>ec t. cond ec t \<le> most"
    "length (db_data D b) + length (concat (map snd es)) + most \<le> room"
  shows "if cond success 0 \<noteq> 0 \<and> length (db_data D b) \<noteq> db_max D b
    then dyn_read_drive D cond (dyn_read_start D cond b) es = dyn_read_loop D cond success 0 b es
    else dyn_read_loop D cond success 0 b es = Returned success 0 b \<and>
      (\<exists>w. dyn_read_drive D cond (dyn_read_start D cond b) [] = Waiting 0 0 w) \<and>
      (\<exists>b'. dyn_read_drive D cond (dyn_read_start D cond b) ((success, []) # es) = Returned success 0 b' \<and>
        db_data D b' = db_data D b)"
proof -
  let ?n = "bytes_available D cond success 0 b"
  have "db_size D b + ?n \<le> room"
    using available_le(2) [of cond success 0 b] assms(3) [of success 0] size [OF assms(1)] assms(4) by simp
  then obtain w where w: "db_ask D ?n b = Some w" using ask [OF assms(1) available_le(1) [OF assms(1)]] by blast
  then have s: "dyn_read_start D cond b = Waiting 0 ?n w" by (simp add: dyn_read_start_def Let_def)
  have z: "?n = 0 \<longleftrightarrow> \<not> (cond success 0 \<noteq> 0 \<and> length (db_data D b) \<noteq> db_max D b)"
    using available_zero [OF assms(1), of cond success 0] size [OF assms(1)] by auto
  show ?thesis
  proof (cases "?n = 0")
    case True
    then obtain b' where b': "db_got D 0 [] w = Some b'" "db_data D b' = db_data D b"
      using got [OF assms(1), of 0 w "[]"] w size [OF assms(1)] assms(4) by auto
    have "dyn_read_drive D cond (Waiting 0 0 w) ((success, []) # es) = Returned success 0 b'"
      using b'(1) by (simp add: dyn_read_resume_def Let_def failed_def success_def)
    then show ?thesis using z s True b'(2) dyn_read_loop_stop [OF True] by auto
  next
    case False
    then have "dyn_read_drive D cond (Waiting 0 ?n w) es = dyn_read_loop D cond success 0 b es"
      using dyn_drive_is_loop [OF assms(1) _ assms(2) w assms(3,4)] by simp
    then show ?thesis using z s False by simp
  qed
qed

end

text \<open>
  C30. A read into a dynamic buffer, by either interface and for every completion condition, leaves
  in the buffer what was there and then exactly the bytes that the stream gave, reports how many and the stream's
  last error, and returns only when the condition asks for no more or the buffer is full; it never throws
  while the string has room. The composed operation does the same, answer by answer, when there is
  something to read; when the condition asks for nothing or the buffer is full, the call returns
  at once, and the operation first waits for a read of no bytes, after which it ends the same way.
\<close>

theorem dyn_read_exact:
  assumes "v1_inv b" "dyn_read_obeys through_v1 cond success 0 b es"
    and "v2_inv c" "dyn_read_obeys through_v2 cond success 0 c es"
    and "\<And>ec t. cond ec t \<le> most"
    and "length (chars (dstring b)) + length (concat (map snd es)) + most \<le> string_max"
    and "length (chars (dstring c)) + length (concat (map snd es)) + most \<le> string_max"
  shows "dyn_read_spec cond (dmax b) (chars (dstring b)) es dyn_data_v1 (dyn_read_v1 cond b es) \<and>
    dyn_read_spec cond (dmax c) (chars (dstring c)) es (\<lambda>b. dyn_data_v2 0 (dyn_size b) b) (dyn_read_v2 cond c es) \<and>
    (if cond success 0 \<noteq> 0 \<and> length (chars (dstring b)) \<noteq> dmax b then async_dyn_read_v1 cond b es = dyn_read_v1 cond b es
     else dyn_read_v1 cond b es = Returned success 0 b \<and> (\<exists>w. async_dyn_read_v1 cond b [] = Waiting 0 0 w) \<and>
       (\<exists>b'. async_dyn_read_v1 cond b ((success, []) # es) = Returned success 0 b' \<and> db_data through_v1 b' = chars (dstring b))) \<and>
    (if cond success 0 \<noteq> 0 \<and> length (chars (dstring c)) \<noteq> dmax c then async_dyn_read_v2 cond c es = dyn_read_v2 cond c es
     else dyn_read_v2 cond c es = Returned success 0 c \<and> (\<exists>w. async_dyn_read_v2 cond c [] = Waiting 0 0 w) \<and>
       (\<exists>b'. async_dyn_read_v2 cond c ((success, []) # es) = Returned success 0 b' \<and> db_data through_v2 b' = chars (dstring c)))"
proof -
  have d: "db_data through_v1 b = chars (dstring b)" "db_data through_v2 c = chars (dstring c)"
    "db_max through_v1 b = dmax b" "db_max through_v2 c = dmax c"
    using assms(1,3) by (simp_all add: through_v1_def through_v2_def)
  have "dyn_read_spec cond (dmax b) (chars (dstring b)) es (db_data through_v1) (dyn_read_v1 cond b es)"
    unfolding dyn_read_v1_def d(1,3) [symmetric] using assms(6) by (intro v1.dyn_read_meets [OF assms(1,2,5)]) (simp_all add: d)
  moreover have "dyn_read_spec cond (dmax c) (chars (dstring c)) es (db_data through_v2) (dyn_read_v2 cond c es)"
    unfolding dyn_read_v2_def d(2,4) [symmetric] using assms(7) by (intro v2.dyn_read_meets [OF assms(3,4,5)]) (simp_all add: d)
  moreover have "if cond success 0 \<noteq> 0 \<and> length (chars (dstring b)) \<noteq> dmax b then async_dyn_read_v1 cond b es = dyn_read_v1 cond b es
     else dyn_read_v1 cond b es = Returned success 0 b \<and> (\<exists>w. async_dyn_read_v1 cond b [] = Waiting 0 0 w) \<and>
       (\<exists>b'. async_dyn_read_v1 cond b ((success, []) # es) = Returned success 0 b' \<and> db_data through_v1 b' = chars (dstring b))"
    unfolding async_dyn_read_v1_def dyn_read_v1_def d(1,3) [symmetric] using assms(6)
    by (intro v1.dyn_start_drive [OF assms(1,2,5)]) (simp_all add: d)
  moreover have "if cond success 0 \<noteq> 0 \<and> length (chars (dstring c)) \<noteq> dmax c then async_dyn_read_v2 cond c es = dyn_read_v2 cond c es
     else dyn_read_v2 cond c es = Returned success 0 c \<and> (\<exists>w. async_dyn_read_v2 cond c [] = Waiting 0 0 w) \<and>
       (\<exists>b'. async_dyn_read_v2 cond c ((success, []) # es) = Returned success 0 b' \<and> db_data through_v2 b' = chars (dstring c))"
    unfolding async_dyn_read_v2_def dyn_read_v2_def d(2,4) [symmetric] using assms(7)
    by (intro v2.dyn_start_drive [OF assms(3,4,5)]) (simp_all add: d)
  ultimately show ?thesis by (simp add: through_v1_def through_v2_def)
qed

definition one_byte_buffer :: dyn where
  "one_byte_buffer = dyn_new \<lparr>chars = [7], reserved = 4, policy = (\<lambda>c n. n)\<rparr> 9"

definition at_least_three :: "io_error \<Rightarrow> nat \<Rightarrow> nat" where
  "at_least_three ec total_transferred = (if failed ec \<or> total_transferred \<ge> 3 then 0 else 4)"

text \<open>The buffer when it holds \<open>d\<close>, in a string of capacity \<open>c\<close>.\<close>

definition holding :: "byte list \<Rightarrow> nat \<Rightarrow> nat \<Rightarrow> dyn" where
  "holding d c sz = \<lparr>dstring = \<lparr>chars = d, reserved = c, policy = (\<lambda>c n. n)\<rparr>, dsize = sz, dmax = 9\<rparr>"

lemmas holding_eval = holding_def one_byte_buffer_def dyn_new_def SIZE_MAX_def string_max_def
  dyn_size_def dyn_capacity_def resize_chars_def write_at_def bytes_available_def at_least_three_def

lemma counts: "replicate 4 0 = [0, 0, 0, 0 :: byte]"
  by (simp_all add: numeral_eq_Suc)

lemma available_holding:
  "bytes_available through_v1 at_least_three success 0 one_byte_buffer = 4"
  "bytes_available through_v1 at_least_three success 2 (holding [7, 1, 2] 5 3) = 4"
  "bytes_available through_v1 at_least_three success 4 (holding [7, 1, 2, 3, 4] 7 5) = 0"
  "bytes_available through_v2 at_least_three success 0 one_byte_buffer = 4"
  "bytes_available through_v2 at_least_three success 2 (holding [7, 1, 2] 5 SIZE_MAX) = 4"
  by (simp_all add: holding_eval through_v1_def through_v2_def)

lemma ask_holding:
  "db_ask through_v1 4 one_byte_buffer = Some (holding [7, 0, 0, 0, 0] 5 1)"
  "db_ask through_v1 4 (holding [7, 1, 2] 5 3) = Some (holding [7, 1, 2, 0, 0, 0, 0] 7 3)"
  "db_ask through_v2 4 one_byte_buffer = Some (1, holding [7, 0, 0, 0, 0] 5 SIZE_MAX)"
  "db_ask through_v2 4 (holding [7, 1, 2] 5 SIZE_MAX) = Some (3, holding [7, 1, 2, 0, 0, 0, 0] 7 SIZE_MAX)"
  by (simp_all add: holding_eval through_v1_def through_v2_def dyn_prepare_def dyn_grow_def Let_def counts(1))

lemma got_holding:
  "db_got through_v1 4 [1, 2] (holding [7, 0, 0, 0, 0] 5 1) = Some (holding [7, 1, 2] 5 3)"
  "db_got through_v1 4 [3, 4] (holding [7, 1, 2, 0, 0, 0, 0] 7 3) = Some (holding [7, 1, 2, 3, 4] 7 5)"
  "db_got through_v2 4 [1, 2] (1, holding [7, 0, 0, 0, 0] 5 SIZE_MAX) = Some (holding [7, 1, 2] 5 SIZE_MAX)"
  by (simp_all add: counts(1) holding_eval through_v1_def through_v2_def dyn_commit_def dyn_shrink_def Let_def)

lemma dyn_read_exact_witness:
  "(\<exists>b'. dyn_read_v1 at_least_three one_byte_buffer [(success, [1, 2]), (success, [3, 4])] = Returned success 4 b' \<and>
      dyn_data_v1 b' = [7, 1, 2, 3, 4]) \<and>
    async_dyn_read_v1 at_least_three one_byte_buffer [(success, [1, 2]), (success, [3, 4])] =
      dyn_read_v1 at_least_three one_byte_buffer [(success, [1, 2]), (success, [3, 4])]"
proof -
  let ?es = "[(success, [1, 2]), (success, [3, 4 :: byte])]"
  have inv: "v1_inv one_byte_buffer" "v2_inv one_byte_buffer"
    by (simp_all add: v1_inv_def v2_inv_def string_inv_def one_byte_buffer_def dyn_new_def string_max_def)
  have obeys: "dyn_read_obeys through_v1 at_least_three success 0 one_byte_buffer ?es"
    "dyn_read_obeys through_v2 at_least_three success 0 one_byte_buffer ?es"
    by (simp_all add: available_holding ask_holding got_holding Let_def numeral_2_eq_2 [symmetric] split: option.split del: One_nat_def)
  have most: "\<And>ec t. at_least_three ec t \<le> 4" by (simp add: at_least_three_def)
  have fits: "length (chars (dstring one_byte_buffer)) + length (concat (map snd ?es)) + 4 \<le> string_max"
    by (simp add: one_byte_buffer_def dyn_new_def string_max_def)
  have "dyn_read_v1 at_least_three one_byte_buffer ?es = Returned success 4 (holding [7, 1, 2, 3, 4] 7 5)"
    by (simp add: dyn_read_v1_def dyn_read_loop_step dyn_read_loop_stop available_holding ask_holding got_holding numeral_2_eq_2 [symmetric] del: One_nat_def)
  moreover have "at_least_three success 0 \<noteq> 0 \<and> length (chars (dstring one_byte_buffer)) \<noteq> dmax one_byte_buffer"
    by (simp add: one_byte_buffer_def dyn_new_def at_least_three_def)
  moreover have "dyn_data_v1 (holding [7, 1, 2, 3, 4] 7 5) = [7, 1, 2, 3, 4]" by (simp add: dyn_data_v1_def holding_def)
  ultimately show ?thesis using dyn_read_exact [OF inv(1) obeys(1) inv(2) obeys(2) most fits fits] by simp
qed

section \<open>Writing a dynamic buffer\<close>

text \<open>
  The data is one buffer; its addresses are counted from the beginning of the string, \<open>bytes_at\<close>
  reads them. The result has the buffer after it has consumed what was written.
\<close>

definition bytes_at :: "byte list \<Rightarrow> nat list \<Rightarrow> byte list" where
  "bytes_at d xs = map ((!) d) xs"

definition dyn_write :: "(nat \<Rightarrow> 'b \<Rightarrow> 'b) \<Rightarrow> byte list \<Rightarrow> 'b \<Rightarrow> nat list \<times> (error_code \<times> nat) option \<Rightarrow>
    byte list \<times> (error_code \<times> nat \<times> 'b) option" where
  "dyn_write consume d b result =
     (let (xs, r) = result in (bytes_at d xs, map_option (\<lambda>(ec, bytes_transferred). (ec, bytes_transferred, consume bytes_transferred b)) r))"

definition dyn_write_v1 where
  "dyn_write_v1 consume cond b es =
     dyn_write consume (dyn_data_v1 b) b (write_buffer_sequence cond [\<lparr>bdata = 0, bsize = length (dyn_data_v1 b)\<rparr>] es)"

definition dyn_write_v2 where
  "dyn_write_v2 consume cond b es =
     (let d = dyn_data_v2 0 (dyn_size b) b
      in dyn_write consume d b (write_buffer_sequence cond [\<lparr>bdata = 0, bsize = length d\<rparr>] es))"

definition async_dyn_write_v1 where
  "async_dyn_write_v1 consume cond b es =
     dyn_write consume (dyn_data_v1 b) b
       (drive sequence_walker cond (write_op_call sequence_walker cond True 0 0 (cb_init [\<lparr>bdata = 0, bsize = length (dyn_data_v1 b)\<rparr>])) es)"

definition async_dyn_write_v2 where
  "async_dyn_write_v2 consume cond b es =
     (let d = dyn_data_v2 0 (dyn_size b) b
      in dyn_write consume d b
           (drive sequence_walker cond (write_op_call sequence_walker cond True 0 0 (cb_init [\<lparr>bdata = 0, bsize = length d\<rparr>])) es))"

text \<open>The stream writes no more than it is given.\<close>

fun loop_obeys :: "'c walker \<Rightarrow> completion_condition \<Rightarrow> error_code \<Rightarrow> 'c \<Rightarrow> (error_code \<times> nat) list \<Rightarrow> bool" where
  "loop_obeys W cond ec c [] \<longleftrightarrow> True"
| "loop_obeys W cond ec c ((ec', n) # es) \<longleftrightarrow>
     w_empty W c \<or> cond ec (w_total W c) = 0 \<or>
     n \<le> buffer_size (w_prepare W c (cond ec (w_total W c))) \<and> loop_obeys W cond ec' (w_consume W c n) es"

context buffer_walk
begin

lemma buffer_loop_exact:
  assumes "inv c" "loop_obeys W cond ec c es"
  shows "case buffer_loop W cond ec c es of (xs, r) \<Rightarrow> xs = take (length xs) (rest c) \<and>
    (case r of None \<Rightarrow> True
     | Some (ec', n) \<Rightarrow> n = w_total W c + length xs \<and> (xs = rest c \<or> cond ec' n = 0))"
  using assms
proof (induction es arbitrary: c ec)
  case Nil
  then show ?case using empty_iff [OF Nil(1)] by (simp add: buffer_loop.simps [of W cond ec c "[]"] Let_def)
next
  case (Cons e es)
  obtain ec' n where e: "e = (ec', n)" by (cases e)
  let ?m = "cond ec (w_total W c)"
  show ?case
  proof (cases "w_empty W c \<or> ?m = 0")
    case True
    then show ?thesis using empty_iff [OF Cons(2)] by (auto simp: buffer_loop.simps [of W cond ec c "e # es"] Let_def)
  next
    case False
    then have ob: "n \<le> buffer_size (w_prepare W c ?m)" "loop_obeys W cond ec' (w_consume W c n) es" using Cons(3) e by auto
    note t = prepare_take [OF Cons(2) ob(1)]
    obtain xs r where l: "buffer_loop W cond ec' (w_consume W c n) es = (xs, r)" by (cases "buffer_loop W cond ec' (w_consume W c n) es")
    have ih: "xs = take (length xs) (drop n (rest c))"
      "case r of None \<Rightarrow> True | Some (ec', k) \<Rightarrow> k = w_total W c + n + length xs \<and> (xs = drop n (rest c) \<or> cond ec' k = 0)"
      using Cons.IH [OF consume_inv [OF Cons(2) t(2)] ob(2)] l consume_rest [OF Cons(2) t(2)] total_consume [of c n] by (simp_all split: option.splits prod.splits)
    have "buffer_loop W cond ec c (e # es) = (take n (rest c) @ xs, r)"
      using False l t(1) e by (simp add: buffer_loop.simps [of W cond ec c "(ec', n) # es"] Let_def)
    moreover have "take n (rest c) @ xs = take (length (take n (rest c) @ xs)) (rest c)"
      using ih(1) t(2) by (metis append_take_drop_id length_append length_take min.absorb2 take_add)
    moreover have "n + length xs \<le> length (rest c)" using arg_cong [OF ih(1), of length] t(2) by simp
    ultimately show ?thesis using ih(2) t(2) by (auto simp: min_absorb2 split: option.splits prod.splits)
  qed
qed

end

lemma consume_drops_v1:
  assumes "v1_inv b" "n \<le> length (dyn_data_v1 b)" "consume = string_consume \<or> consume = vector_consume"
  shows "dyn_data_v1 (consume n b) = drop n (dyn_data_v1 b)"
proof -
  have "length (chars (dstring b)) \<le> string_max" using assms(1) by (simp add: v1_inv_def string_inv_def)
  then have "length (chars (dstring b)) \<le> SIZE_MAX" using maxima(1) by linarith
  then show ?thesis using assms v1_size [OF assms(1)]
    by (auto simp: string_consume_def vector_consume_def erase_front_def dyn_data_v1_def Let_def v1_inv_def min_def)
qed

lemma consume_drops_v2:
  assumes "v2_inv b" "consume = string_consume \<or> consume = vector_consume"
  shows "dyn_data_v2 0 (dyn_size (consume n b)) (consume n b) = drop n (dyn_data_v2 0 (dyn_size b) b)"
proof -
  have "vector_consume n b = string_consume n b"
    using assms(1) v2_size [OF assms(1)] by (auto simp: string_consume_def vector_consume_def erase_front_def v2_inv_def min_def)
  then show ?thesis using assms(2) consume_v2 [OF assms(1), of n] by (elim disjE) (simp_all only:)
qed

definition dyn_write_spec ::
  "completion_condition \<Rightarrow> byte list \<Rightarrow> ('b \<Rightarrow> byte list) \<Rightarrow> byte list \<times> (error_code \<times> nat \<times> 'b) option \<Rightarrow> bool" where
  "dyn_write_spec cond d contents result \<longleftrightarrow>
     (case result of
        (out, None) \<Rightarrow> out = take (length out) d
      | (out, Some (ec, n, b)) \<Rightarrow> out @ contents b = d \<and> n = length out \<and> (contents b = [] \<or> cond ec n = 0))"

lemma bytes_at_take: "n \<le> length d \<Longrightarrow> bytes_at d (take n [0..<length d]) = take n d"
  unfolding bytes_at_def take_map [symmetric] map_nth ..

lemma dyn_write_meets:
  assumes "loop_obeys sequence_walker cond 0 (cb_init [\<lparr>bdata = 0, bsize = length d\<rparr>]) es"
    and "\<And>n. n \<le> length d \<Longrightarrow> contents (consume n b) = drop n d"
  shows "dyn_write_spec cond d contents (dyn_write consume d b (write_buffer_sequence cond [\<lparr>bdata = 0, bsize = length d\<rparr>] es))"
proof -
  let ?c = "cb_init [\<lparr>bdata = 0, bsize = length d\<rparr>]"
  obtain xs r where l: "buffer_loop sequence_walker cond 0 ?c es = (xs, r)" by (cases "buffer_loop sequence_walker cond 0 ?c es")
  have w: "cb_rest ?c = [0..<length d]" "w_total sequence_walker ?c = 0" by (simp_all add: cb_init_rest flat_def)
  have x: "xs = take (length xs) [0..<length d]"
    "\<And>ec n. r = Some (ec, n) \<Longrightarrow> n = length xs \<and> (xs = [0..<length d] \<or> cond ec n = 0)"
    using sequence.buffer_loop_exact [OF cb_inv_init assms(1)] unfolding l w by auto
  have le: "length xs \<le> length d" using arg_cong [OF x(1), of length] by simp
  then have out: "bytes_at d xs = take (length xs) d" using bytes_at_take [OF le] x(1) by simp
  show ?thesis
  proof (cases r)
    case None
    then show ?thesis using l out le by (simp add: dyn_write_spec_def dyn_write_def write_buffer_sequence_def)
  next
    case (Some p)
    obtain ec n where p: "p = (ec, n)" by (cases p)
    have "n = length xs" "xs = [0..<length d] \<or> cond ec n = 0" using x(2) Some p by auto
    then show ?thesis using l out le assms(2) Some p
      by (auto simp: dyn_write_spec_def dyn_write_def write_buffer_sequence_def)
  qed
qed

text \<open>
  A write of a dynamic buffer, by either interface and for strings and vectors, passes the
  beginning of its data, as many bytes as it reports, and leaves exactly the rest in the buffer, all
  being written unless the condition asked for no more. The composed operation does the same when
  there is something to write.
\<close>

theorem dyn_write_exact:
  assumes "v1_inv b" "v2_inv c" "consume = string_consume \<or> consume = vector_consume"
    and "loop_obeys sequence_walker cond 0 (cb_init [\<lparr>bdata = 0, bsize = length (dyn_data_v1 b)\<rparr>]) es"
    and "loop_obeys sequence_walker cond 0 (cb_init [\<lparr>bdata = 0, bsize = length (dyn_data_v2 0 (dyn_size c) c)\<rparr>]) es"
    and "obeys sequence_walker cond (write_op_call sequence_walker cond True 0 0 (cb_init [\<lparr>bdata = 0, bsize = length (dyn_data_v1 b)\<rparr>])) es"
    and "dyn_data_v1 b \<noteq> []" "0 < cond 0 0"
  shows "dyn_write_spec cond (dyn_data_v1 b) dyn_data_v1 (dyn_write_v1 consume cond b es) \<and>
    dyn_write_spec cond (dyn_data_v2 0 (dyn_size c) c) (\<lambda>c. dyn_data_v2 0 (dyn_size c) c) (dyn_write_v2 consume cond c es) \<and>
    async_dyn_write_v1 consume cond b es = dyn_write_v1 consume cond b es"
proof -
  let ?d = "dyn_data_v1 b"
  have "dyn_write_spec cond ?d dyn_data_v1 (dyn_write_v1 consume cond b es)"
    unfolding dyn_write_v1_def by (rule dyn_write_meets [OF assms(4)]) (rule consume_drops_v1 [OF assms(1) _ assms(3)])
  moreover have "dyn_write_spec cond (dyn_data_v2 0 (dyn_size c) c) (\<lambda>c. dyn_data_v2 0 (dyn_size c) c) (dyn_write_v2 consume cond c es)"
    unfolding dyn_write_v2_def Let_def by (rule dyn_write_meets [OF assms(5)]) (rule consume_drops_v2 [OF assms(2,3)])
  moreover have "cb_rest (cb_init [\<lparr>bdata = 0, bsize = length ?d\<rparr>]) \<noteq> []" "0 < cond 0 (w_total sequence_walker (cb_init [\<lparr>bdata = 0, bsize = length ?d\<rparr>]))"
    using assms(7,8) by (simp_all add: cb_init_rest flat_def)
  then have "async_dyn_write_v1 consume cond b es = dyn_write_v1 consume cond b es"
    using sequence.drive_is_sync [OF cb_inv_init _ _ assms(6)] by (simp add: async_dyn_write_v1_def dyn_write_v1_def write_buffer_sequence_def)
  ultimately show ?thesis by blast
qed

lemma dyn_write_exact_witness:
  "\<exists>b'. dyn_write_v1 string_consume (transfer_at_least 2) (holding [5, 6, 7, 8] 9 4) [(0, 1), (0, 2)] = ([5, 6, 7], Some (0, 3, b')) \<and>
    dyn_data_v1 b' = [8] \<and>
    async_dyn_write_v1 string_consume (transfer_at_least 2) (holding [5, 6, 7, 8] 9 4) [(0, 1), (0, 2)] = ([5, 6, 7], Some (0, 3, b'))"
proof -
  let ?b = "holding [5, 6, 7, 8] 9 4" and ?c = "holding [5, 6, 7, 8] 9 SIZE_MAX"
  have inv: "v1_inv ?b" "v2_inv ?c"
    by (simp_all add: v1_inv_def v2_inv_def string_inv_def holding_def string_max_def)
  have data: "dyn_data_v1 ?b = [5, 6, 7, 8]" "dyn_data_v2 0 (dyn_size ?c) ?c = [5, 6, 7, 8]"
    by (simp_all add: dyn_data_v1_def dyn_data_v2_def dyn_size_def holding_def)
  have obeys: "loop_obeys sequence_walker (transfer_at_least 2) 0 (cb_init [\<lparr>bdata = 0, bsize = 4\<rparr>]) [(0, 1), (0, 2)]"
    "obeys sequence_walker (transfer_at_least 2) (write_op_call sequence_walker (transfer_at_least 2) True 0 0 (cb_init [\<lparr>bdata = 0, bsize = 4\<rparr>])) [(0, 1), (0, 2)]"
    by (simp_all add: transfer_eval transfer_at_least_def)
  have w: "dyn_write_v1 string_consume (transfer_at_least 2) ?b [(0, 1), (0, 2)] = ([5, 6, 7], Some (0, 3, string_consume 3 ?b))"
    using data by (simp add: dyn_write_v1_def dyn_write_def bytes_at_def write_buffer_sequence_def buffer_loop.simps transfer_eval transfer_at_least_def)
  moreover have "dyn_data_v1 (string_consume 3 ?b) = [8]"
    by (simp add: string_consume_def erase_front_def holding_def dyn_data_v1_def SIZE_MAX_def)
  moreover have len: "length (dyn_data_v1 ?b) = 4" "length (dyn_data_v2 0 (dyn_size ?c) ?c) = 4" by (simp_all add: data)
  have "async_dyn_write_v1 string_consume (transfer_at_least 2) ?b [(0, 1), (0, 2)] = dyn_write_v1 string_consume (transfer_at_least 2) ?b [(0, 1), (0, 2)]"
    using dyn_write_exact [OF inv, of string_consume "transfer_at_least 2" "[(0, 1), (0, 2)]", unfolded len, OF _ obeys(1) obeys(1) obeys(2)] data
    by (simp add: transfer_at_least_def default_max_transfer_size_def)
  ultimately show ?thesis by simp
qed

end
