(* ===== verification/AsioBufferedStream.thy ===== *)
theory AsioBufferedStream
  imports AsioSyncTransfer
begin

text \<open>
  \<^verbatim>\<open>buffered_read_stream\<close> and \<^verbatim>\<open>buffered_write_stream\<close> over the storage they share,
  \<^verbatim>\<open>detail/buffered_stream_storage.hpp\<close>. The next layer answers a read with an error and bytes, a
  write with an error and a count. A buffer of the caller is its bytes, or how many it takes.

  Shown: through any sequence of operations, with whatever errors, a buffered stream delivers the bytes of its next
  layer, passes on the bytes it accepted, in order, and once each unless an operation throws, keeps what it
  has not passed on yet, and never fails an assertion; and how the blocking and the asynchronous write differ when flushing fails.
\<close>

section \<open>The storage\<close>

record storage =
  begin_offset :: nat
  end_offset :: nat
  sbytes :: "byte list"

definition storage_new :: "nat \<Rightarrow> storage" where
  "storage_new buffer_capacity = \<lparr>begin_offset = 0, end_offset = 0, sbytes = replicate buffer_capacity 0\<rparr>"

definition storage_clear :: "storage \<Rightarrow> storage" where
  "storage_clear s = s\<lparr>begin_offset := 0, end_offset := 0\<rparr>"

definition storage_data :: "storage \<Rightarrow> byte list" where
  "storage_data s = drop (begin_offset s) (sbytes s)"

definition storage_empty :: "storage \<Rightarrow> bool" where
  "storage_empty s \<longleftrightarrow> begin_offset s = end_offset s"

definition storage_size :: "storage \<Rightarrow> nat" where
  "storage_size s = end_offset s - begin_offset s"

definition storage_capacity :: "storage \<Rightarrow> nat" where
  "storage_capacity s = length (sbytes s)"

text \<open>\<open>None\<close>: the assertion fails.\<close>

definition storage_resize :: "nat \<Rightarrow> storage \<Rightarrow> storage option" where
  "storage_resize n s =
     (if n > storage_capacity s then None
      else if begin_offset s + n \<le> storage_capacity s then Some (s\<lparr>end_offset := begin_offset s + n\<rparr>)
      else Some (s\<lparr>sbytes := take (storage_size s) (storage_data s) @ drop (storage_size s) (sbytes s),
                   end_offset := n, begin_offset := 0\<rparr>))"

definition storage_consume :: "nat \<Rightarrow> storage \<Rightarrow> storage option" where
  "storage_consume n s =
     (if begin_offset s + n > end_offset s then None
      else
        let s' = s\<lparr>begin_offset := begin_offset s + n\<rparr>
        in Some (if storage_empty s' then storage_clear s' else s'))"

text \<open>Bytes written to \<open>storage.data() + off\<close>.\<close>

definition storage_write :: "nat \<Rightarrow> byte list \<Rightarrow> storage \<Rightarrow> storage" where
  "storage_write off bs s =
     (let p = begin_offset s + off in s\<lparr>sbytes := take p (sbytes s) @ bs @ drop (p + length bs) (sbytes s)\<rparr>)"

text \<open>The guard that rolls a resize back when an exception leaves its scope.\<close>

definition resize_guard :: "nat \<Rightarrow> bool \<Rightarrow> storage \<Rightarrow> storage option" where
  "resize_guard old_size committed s = (if committed then Some s else storage_resize old_size s)"

section \<open>Reading\<close>

definition fill_start :: "storage \<Rightarrow> (nat \<times> storage) option" where
  "fill_start s = map_option (\<lambda>s'. (storage_size s, s')) (storage_resize (storage_capacity s) s)"

definition buffered_fill :: "io_error \<times> byte list \<Rightarrow> storage \<Rightarrow> (io_error \<times> nat \<times> storage) option" where
  "buffered_fill reply s =
     (case fill_start s of
        None \<Rightarrow> None
      | Some (previous_size, s1) \<Rightarrow>
          let (ec, bs) = reply; got = take (storage_size s1 - previous_size) bs
          in case storage_resize (previous_size + length got) (storage_write previous_size got s1) of
               None \<Rightarrow> None
             | Some s2 \<Rightarrow> map_option (\<lambda>s3. (ec, storage_size s3 - previous_size, s3)) (resize_guard previous_size True s2))"

text \<open>The version that throws: the error of the answer is the exception, \<open>None\<close> in the result's middle.\<close>

definition buffered_fill_throwing :: "io_error \<times> byte list \<Rightarrow> storage \<Rightarrow> (nat option \<times> storage) option" where
  "buffered_fill_throwing reply s =
     (case fill_start s of
        None \<Rightarrow> None
      | Some (previous_size, s1) \<Rightarrow>
          if failed (fst reply) then map_option (\<lambda>s2. (None, s2)) (resize_guard previous_size False s1)
          else map_option (\<lambda>(ec, n, s2). (Some n, s2)) (buffered_fill reply s))"

text \<open>The composed fill: the handler of the read.\<close>

definition fill_handler :: "nat \<Rightarrow> io_error \<times> byte list \<Rightarrow> storage \<Rightarrow> (io_error \<times> nat \<times> storage) option" where
  "fill_handler previous_size reply s =
     (let (ec, bs) = reply; got = take (storage_size s - previous_size) bs
      in map_option (\<lambda>s'. (ec, length got, s')) (storage_resize (previous_size + length got) (storage_write previous_size got s)))"

definition async_fill :: "io_error \<times> byte list \<Rightarrow> storage \<Rightarrow> (io_error \<times> nat \<times> storage) option" where
  "async_fill reply s =
     (case fill_start s of None \<Rightarrow> None | Some (previous_size, s1) \<Rightarrow> fill_handler previous_size reply s1)"

definition peek_copy :: "nat \<Rightarrow> storage \<Rightarrow> byte list" where
  "peek_copy n s = take n (take (storage_size s) (storage_data s))"

definition copy_out :: "nat \<Rightarrow> storage \<Rightarrow> (byte list \<times> storage) option" where
  "copy_out n s = (let bs = peek_copy n s in map_option (\<lambda>s'. (bs, s')) (storage_consume (length bs) s))"

text \<open>
  The result of a read: its error, the bytes in the caller's buffer, the storage, and what was taken from the next layer.
\<close>

definition buffered_read_some :: "nat \<Rightarrow> io_error \<times> byte list \<Rightarrow> storage \<Rightarrow> (io_error \<times> byte list \<times> storage) option" where
  "buffered_read_some n reply s =
     (if n = 0 then Some (success, [], s)
      else if storage_empty s
      then
        case buffered_fill reply s of
          None \<Rightarrow> None
        | Some (ec, filled, s1) \<Rightarrow>
            if filled = 0 then Some (ec, [], s1) else map_option (\<lambda>(bs, s2). (ec, bs, s2)) (copy_out n s1)
      else map_option (\<lambda>(bs, s1). (success, bs, s1)) (copy_out n s))"

definition buffered_peek :: "nat \<Rightarrow> io_error \<times> byte list \<Rightarrow> storage \<Rightarrow> (io_error \<times> byte list \<times> storage) option" where
  "buffered_peek n reply s =
     (if storage_empty s
      then
        case buffered_fill reply s of
          None \<Rightarrow> None
        | Some (ec, filled, s1) \<Rightarrow> Some (ec, if filled = 0 then [] else peek_copy n s1, s1)
      else Some (success, peek_copy n s, s))"

text \<open>The versions that throw: whether filling has, and \<open>None\<close> for the bytes then.\<close>

definition fill_if_empty :: "io_error \<times> byte list \<Rightarrow> storage \<Rightarrow> (bool \<times> storage) option" where
  "fill_if_empty reply s =
     (if storage_empty s then map_option (\<lambda>(filled, s1). (filled = None, s1)) (buffered_fill_throwing reply s)
      else Some (False, s))"

definition buffered_read_some_throwing :: "nat \<Rightarrow> io_error \<times> byte list \<Rightarrow> storage \<Rightarrow> (byte list option \<times> storage) option" where
  "buffered_read_some_throwing n reply s =
     (if n = 0 then Some (Some [], s)
      else
        case fill_if_empty reply s of
          None \<Rightarrow> None
        | Some (threw, s1) \<Rightarrow>
            if threw then Some (None, s1) else map_option (\<lambda>(bs, s2). (Some bs, s2)) (copy_out n s1))"

definition buffered_peek_throwing :: "nat \<Rightarrow> io_error \<times> byte list \<Rightarrow> storage \<Rightarrow> (byte list option \<times> storage) option" where
  "buffered_peek_throwing n reply s =
     map_option (\<lambda>(threw, s1). (if threw then None else Some (peek_copy n s1), s1)) (fill_if_empty reply s)"

definition read_some_handler :: "nat \<Rightarrow> io_error \<Rightarrow> storage \<Rightarrow> (io_error \<times> byte list \<times> storage) option" where
  "read_some_handler n ec s =
     (if failed ec \<or> storage_empty s then Some (ec, [], s)
      else map_option (\<lambda>(bs, s1). (ec, bs, s1)) (copy_out n s))"

text \<open>With nothing to fill, the next layer reads no bytes and only the error of its answer counts.\<close>

definition async_buffered_read_some :: "nat \<Rightarrow> io_error \<times> byte list \<Rightarrow> storage \<Rightarrow> (io_error \<times> byte list \<times> storage) option" where
  "async_buffered_read_some n reply s =
     (if n = 0 \<or> \<not> storage_empty s then read_some_handler n (fst reply) s
      else case async_fill reply s of None \<Rightarrow> None | Some (ec, _, s1) \<Rightarrow> read_some_handler n ec s1)"

section \<open>Writing\<close>

text \<open>
  \<open>None\<close> for the transfer: it waits for the next layer. Writes give what went to the next layer, and
  then the error, the count and the storage.
\<close>

type_synonym written = "byte list \<times> (error_code \<times> nat \<times> storage) option"

definition flush_consume :: "nat list \<times> (error_code \<times> nat) option \<Rightarrow> storage \<Rightarrow> written option" where
  "flush_consume result s =
     (let out = bytes_at (take (storage_size s) (storage_data s)) (fst result)
      in case snd result of
           None \<Rightarrow> Some (out, None)
         | Some (ec, bytes_written) \<Rightarrow> map_option (\<lambda>s'. (out, Some (ec, bytes_written, s'))) (storage_consume bytes_written s))"

definition buffered_flush :: "(error_code \<times> nat) list \<Rightarrow> storage \<Rightarrow> written option" where
  "buffered_flush es s = flush_consume (write_buffer_sequence transfer_all [\<lparr>bdata = 0, bsize = storage_size s\<rparr>] es) s"

text \<open>The version that throws: the error of the result is the exception, which leaves the storage as it is.\<close>

definition buffered_flush_throwing :: "(error_code \<times> nat) list \<Rightarrow> storage \<Rightarrow> written option" where
  "buffered_flush_throwing es s =
     (let result = write_buffer_sequence transfer_all [\<lparr>bdata = 0, bsize = storage_size s\<rparr>] es
      in case snd result of
           Some (ec, bytes_written) \<Rightarrow>
             if ec \<noteq> 0 then Some (bytes_at (take (storage_size s) (storage_data s)) (fst result), Some (ec, 0, s))
             else flush_consume result s
         | None \<Rightarrow> flush_consume result s)"

definition buffered_copy_in :: "byte list \<Rightarrow> storage \<Rightarrow> (nat \<times> storage) option" where
  "buffered_copy_in bs s =
     (let orig_size = storage_size s;
          space_avail = storage_capacity s - orig_size;
          n = (if length bs < space_avail then length bs else space_avail)
      in map_option (\<lambda>s1. (n, storage_write orig_size (take n bs) s1)) (storage_resize (orig_size + n) s))"

definition buffered_write_some :: "byte list \<Rightarrow> (error_code \<times> nat) list \<Rightarrow> storage \<Rightarrow> written option" where
  "buffered_write_some bs es s =
     (if bs = [] then Some ([], Some (0, 0, s))
      else if storage_size s = storage_capacity s
      then
        case buffered_flush es s of
          None \<Rightarrow> None
        | Some (out, None) \<Rightarrow> Some (out, None)
        | Some (out, Some (ec, flushed, s1)) \<Rightarrow>
            if flushed = 0 then Some (out, Some (ec, 0, s1))
            else map_option (\<lambda>(n, s2). (out, Some (ec, n, s2))) (buffered_copy_in bs s1)
      else map_option (\<lambda>(n, s1). ([], Some (0, n, s1))) (buffered_copy_in bs s))"

definition buffered_write_some_throwing :: "byte list \<Rightarrow> (error_code \<times> nat) list \<Rightarrow> storage \<Rightarrow> written option" where
  "buffered_write_some_throwing bs es s =
     (if bs = [] then Some ([], Some (0, 0, s))
      else if storage_size s = storage_capacity s
      then
        case buffered_flush_throwing es s of
          None \<Rightarrow> None
        | Some (out, None) \<Rightarrow> Some (out, None)
        | Some (out, Some (ec, flushed, s1)) \<Rightarrow>
            if ec \<noteq> 0 then Some (out, Some (ec, 0, s1))
            else map_option (\<lambda>(n, s2). (out, Some (ec, n, s2))) (buffered_copy_in bs s1)
      else map_option (\<lambda>(n, s1). ([], Some (0, n, s1))) (buffered_copy_in bs s))"

definition write_some_handler :: "byte list \<Rightarrow> error_code \<Rightarrow> storage \<Rightarrow> (error_code \<times> nat \<times> storage) option" where
  "write_some_handler bs ec s =
     (if ec \<noteq> 0 then Some (ec, 0, s) else map_option (\<lambda>(n, s1). (ec, n, s1)) (buffered_copy_in bs s))"

text \<open>With room in the storage, the next layer writes no bytes: \<open>ec0\<close> is the error of its answer.\<close>

definition async_flush :: "(error_code \<times> nat) list \<Rightarrow> storage \<Rightarrow> written option" where
  "async_flush es s = flush_consume (async_write_op [\<lparr>bdata = 0, bsize = storage_size s\<rparr>] es) s"

definition async_buffered_write_some :: "byte list \<Rightarrow> error_code \<Rightarrow> (error_code \<times> nat) list \<Rightarrow> storage \<Rightarrow> written option" where
  "async_buffered_write_some bs ec0 es s =
     (if bs = [] \<or> storage_size s < storage_capacity s
      then map_option (\<lambda>r. ([], Some r)) (write_some_handler bs ec0 s)
      else
        case async_flush es s of
          None \<Rightarrow> None
        | Some (out, None) \<Rightarrow> Some (out, None)
        | Some (out, Some (ec, flushed, s1)) \<Rightarrow> map_option (\<lambda>r. (out, Some r)) (write_some_handler bs ec s1))"

section \<open>The storage keeps a list\<close>

definition storage_inv :: "storage \<Rightarrow> bool" where
  "storage_inv s \<longleftrightarrow> begin_offset s \<le> end_offset s \<and> end_offset s \<le> length (sbytes s)"

definition unread :: "storage \<Rightarrow> byte list" where
  "unread s = take (storage_size s) (storage_data s)"

lemma storage_new_inv: "storage_inv (storage_new n)" "unread (storage_new n) = []"
  by (simp_all add: storage_inv_def storage_new_def unread_def storage_size_def)

lemma length_unread [simp]: "storage_inv s \<Longrightarrow> length (unread s) = storage_size s"
  by (auto simp: storage_inv_def unread_def storage_size_def storage_data_def)

lemma storage_bounds: "storage_inv s \<Longrightarrow> storage_size s \<le> storage_capacity s"
  by (auto simp: storage_inv_def storage_size_def storage_capacity_def)

lemma empty_iff_unread: "storage_inv s \<Longrightarrow> storage_empty s \<longleftrightarrow> unread s = []"
  using length_unread [of s] by (auto simp: storage_empty_def storage_size_def storage_inv_def simp del: length_unread)

lemma storage_resize_ok:
  assumes "storage_inv s" "n \<le> storage_capacity s"
  obtains s' where "storage_resize n s = Some s'" "storage_inv s'" "storage_capacity s' = storage_capacity s"
    "storage_size s' = n" "take (min n (storage_size s)) (unread s') = take n (unread s)"
proof (cases "begin_offset s + n \<le> storage_capacity s")
  case True
  then show ?thesis using assms that [of "s\<lparr>end_offset := begin_offset s + n\<rparr>"]
    by (simp add: storage_resize_def storage_inv_def storage_capacity_def storage_size_def unread_def storage_data_def min_def)
next
  case False
  define s' where "s' = \<lparr>begin_offset = 0, end_offset = n, sbytes = unread s @ drop (storage_size s) (sbytes s)\<rparr>"
  have le: "storage_size s \<le> n" "storage_size s \<le> length (sbytes s)" "n \<le> length (sbytes s)"
    using assms False by (auto simp: storage_inv_def storage_capacity_def storage_size_def)
  have len: "length (sbytes s') = length (sbytes s)" using length_unread [OF assms(1)] le(2) by (simp add: s'_def)
  have u: "unread s' = take n (unread s @ drop (storage_size s) (sbytes s))"
    by (simp add: unread_def [of s'] storage_size_def [of s'] storage_data_def [of s'], simp add: s'_def)
  have "storage_resize n s = Some s'" using assms(2) False
    by (cases s) (simp add: storage_resize_def s'_def unread_def)
  moreover have "storage_inv s'" using len le(3) by (simp add: storage_inv_def) (simp add: s'_def)
  moreover have "storage_size s' = n" by (simp add: storage_size_def s'_def)
  moreover have "take (min n (storage_size s)) (unread s') = take n (unread s)"
    using u le(1) length_unread [OF assms(1)] by (simp add: min_def)
  ultimately show ?thesis using that len by (simp add: storage_capacity_def)
qed

lemma storage_consume_ok:
  assumes "storage_inv s" "n \<le> storage_size s"
  obtains s' where "storage_consume n s = Some s'" "storage_inv s'" "storage_capacity s' = storage_capacity s" "unread s' = drop n (unread s)"
proof (cases "begin_offset s + n = end_offset s")
  case True
  then have "drop n (unread s) = []" using length_unread [OF assms(1)] by (simp add: storage_size_def)
  then show ?thesis using True that [of "storage_clear (s\<lparr>begin_offset := begin_offset s + n\<rparr>)"]
    by (simp add: storage_consume_def storage_empty_def storage_clear_def storage_inv_def storage_capacity_def unread_def storage_size_def)
next
  case False
  have "begin_offset s + n \<le> end_offset s" using assms by (auto simp: storage_inv_def storage_size_def)
  then show ?thesis using False assms(1) that [of "s\<lparr>begin_offset := begin_offset s + n\<rparr>"]
    by (simp add: storage_consume_def storage_empty_def storage_inv_def storage_capacity_def unread_def storage_size_def storage_data_def drop_take add.commute)
qed

text \<open>Writing behind the first \<open>k\<close> bytes and cutting after what was written.\<close>

lemma overwrite:
  assumes "b + k + length bs \<le> e" "e \<le> length d"
  shows "take (k + length bs) (take (e - b) (drop b (take (b + k) d @ bs @ drop (b + k + length bs) d))) = take k (take (e - b) (drop b d)) @ bs"
proof -
  have "length (take (b + k) d) = b + k" using assms by simp
  then have "drop b (take (b + k) d @ bs @ drop (b + k + length bs) d) = take k (drop b d) @ bs @ drop (b + k + length bs) d"
    by (simp only: drop_append drop_take) simp
  moreover have "length (take k (drop b d)) = k" using assms by simp
  moreover have "min (k + length bs) (e - b) = k + length bs" "min k (e - b) = k" using assms by simp_all
  ultimately show ?thesis by (simp only: take_take) simp
qed

lemma storage_write_fields:
  "begin_offset (storage_write k bs s) = begin_offset s" "end_offset (storage_write k bs s) = end_offset s"
  "sbytes (storage_write k bs s) = take (begin_offset s + k) (sbytes s) @ bs @ drop (begin_offset s + k + length bs) (sbytes s)"
  by (simp_all add: storage_write_def Let_def)

lemma storage_write_ok:
  assumes "storage_inv s" "k + length bs \<le> storage_size s"
  shows "storage_inv (storage_write k bs s) \<and> storage_capacity (storage_write k bs s) = storage_capacity s \<and>
    storage_size (storage_write k bs s) = storage_size s \<and>
    take (k + length bs) (unread (storage_write k bs s)) = take k (unread s) @ bs"
proof -
  have le: "begin_offset s + k + length bs \<le> end_offset s" "end_offset s \<le> length (sbytes s)"
    using assms unfolding storage_inv_def storage_size_def by linarith+
  then have len: "length (sbytes (storage_write k bs s)) = length (sbytes s)" unfolding storage_write_fields by simp
  have "take (k + length bs) (unread (storage_write k bs s)) = take k (unread s) @ bs"
    unfolding unread_def storage_size_def storage_data_def storage_write_fields using overwrite [OF le] .
  then show ?thesis using assms(1) len
    unfolding storage_inv_def storage_capacity_def storage_size_def storage_write_fields(1,2) by simp
qed

section \<open>Each operation\<close>

text \<open>Filling appends what the next layer gave, as far as there is room.\<close>

lemma fill_start_ok:
  assumes "storage_inv s"
  obtains s1 where "fill_start s = Some (storage_size s, s1)" "storage_inv s1" "storage_size s1 = storage_capacity s"
    "storage_capacity s1 = storage_capacity s" "take (storage_size s) (unread s1) = unread s"
proof -
  obtain s1 where s1: "storage_resize (storage_capacity s) s = Some s1" "storage_inv s1" "storage_capacity s1 = storage_capacity s"
    "storage_size s1 = storage_capacity s" "take (min (storage_capacity s) (storage_size s)) (unread s1) = take (storage_capacity s) (unread s)"
    using storage_resize_ok [OF assms order_refl] .
  then have "take (storage_size s) (unread s1) = unread s" using storage_bounds [OF assms] length_unread [OF assms] by (simp add: min_absorb2)
  then show ?thesis using that s1 by (simp add: fill_start_def)
qed

lemma fill_region_ok:
  assumes "storage_inv s1" "length got \<le> storage_size s1 - k" "k \<le> storage_size s1" "storage_size s1 = storage_capacity s1"
  obtains s2 where "storage_resize (k + length got) (storage_write k got s1) = Some s2" "storage_inv s2"
    "storage_capacity s2 = storage_capacity s1" "storage_size s2 = k + length got" "unread s2 = take k (unread s1) @ got"
proof -
  have w: "storage_inv (storage_write k got s1)" "storage_capacity (storage_write k got s1) = storage_capacity s1"
    "storage_size (storage_write k got s1) = storage_size s1" "take (k + length got) (unread (storage_write k got s1)) = take k (unread s1) @ got"
    using storage_write_ok [of s1 k got] assms by auto
  have le: "k + length got \<le> storage_size s1" using assms(2,3) by linarith
  then have "k + length got \<le> storage_capacity (storage_write k got s1)" using w(2) assms(4) by simp
  then obtain s2 where s2: "storage_resize (k + length got) (storage_write k got s1) = Some s2" "storage_inv s2"
    "storage_capacity s2 = storage_capacity s1" "storage_size s2 = k + length got"
    "take (min (k + length got) (storage_size s1)) (unread s2) = take (k + length got) (unread (storage_write k got s1))"
    using storage_resize_ok [OF w(1)] w(2,3) by metis
  then have "unread s2 = take k (unread s1) @ got" using w(4) le length_unread [OF s2(2)] by (simp add: min_absorb1)
  then show ?thesis using that s2 by blast
qed

definition fill_bytes :: "io_error \<times> byte list \<Rightarrow> storage \<Rightarrow> byte list" where
  "fill_bytes reply s = take (storage_capacity s - storage_size s) (snd reply)"

text \<open>What filling leaves: the bytes of the next layer behind what was there.\<close>

definition filled_with :: "byte list \<Rightarrow> storage \<Rightarrow> storage \<Rightarrow> bool" where
  "filled_with bs s s' \<longleftrightarrow> storage_inv s' \<and> storage_capacity s' = storage_capacity s \<and> unread s' = unread s @ bs"

lemma buffered_fill_ok:
  assumes "storage_inv s"
  obtains s' where "buffered_fill reply s = Some (fst reply, length (fill_bytes reply s), s')"
    "async_fill reply s = Some (fst reply, length (fill_bytes reply s), s')" "filled_with (fill_bytes reply s) s s'"
proof -
  obtain s1 where s1: "fill_start s = Some (storage_size s, s1)" "storage_inv s1" "storage_size s1 = storage_capacity s"
    "storage_capacity s1 = storage_capacity s" "take (storage_size s) (unread s1) = unread s" using fill_start_ok [OF assms] .
  obtain ec bs where r: "reply = (ec, bs)" by (cases reply)
  define got where "got = take (storage_size s1 - storage_size s) bs"
  have g: "length got \<le> storage_size s1 - storage_size s" "storage_size s \<le> storage_size s1" "storage_size s1 = storage_capacity s1"
    using s1 storage_bounds [OF assms] by (simp_all add: got_def)
  obtain s2 where s2: "storage_resize (storage_size s + length got) (storage_write (storage_size s) got s1) = Some s2" "storage_inv s2"
    "storage_capacity s2 = storage_capacity s1" "storage_size s2 = storage_size s + length got" "unread s2 = take (storage_size s) (unread s1) @ got"
    using fill_region_ok [OF s1(2) g] .
  have got: "got = fill_bytes reply s" using s1(3) r by (simp add: got_def fill_bytes_def)
  have f: "filled_with (fill_bytes reply s) s s2" using s2 s1(4,5) got by (simp add: filled_with_def)
  have "buffered_fill reply s = Some (fst reply, length got, s2)"
    unfolding buffered_fill_def s1(1) option.case r prod.case Let_def got_def [symmetric] s2(1) using s2(4) by (simp add: resize_guard_def)
  moreover have "async_fill reply s = Some (fst reply, length got, s2)"
    unfolding async_fill_def s1(1) option.case fill_handler_def r prod.case Let_def got_def [symmetric] s2(1) by simp
  ultimately show ?thesis using that f got by simp
qed

lemma fill_throwing_ok:
  assumes "storage_inv s"
  obtains n s' where "buffered_fill_throwing reply s = Some (n, s')" "n = None \<longleftrightarrow> failed (fst reply)"
    "filled_with (if failed (fst reply) then [] else fill_bytes reply s) s s'"
proof (cases "failed (fst reply)")
  case True
  obtain s1 where s1: "fill_start s = Some (storage_size s, s1)" "storage_inv s1" "storage_size s1 = storage_capacity s"
    "storage_capacity s1 = storage_capacity s" "take (storage_size s) (unread s1) = unread s" using fill_start_ok [OF assms] .
  have "storage_size s \<le> storage_capacity s1" using s1(4) storage_bounds [OF assms] by simp
  then obtain s2 where s2: "storage_resize (storage_size s) s1 = Some s2" "storage_inv s2" "storage_capacity s2 = storage_capacity s1"
    "storage_size s2 = storage_size s" "take (min (storage_size s) (storage_size s1)) (unread s2) = take (storage_size s) (unread s1)"
    using storage_resize_ok [OF s1(2)] by metis
  have "unread s2 = unread s" using s2(5) s1(3,5) storage_bounds [OF assms] length_unread [OF s2(2)] s2(4) by (simp add: min_absorb1)
  then show ?thesis using that True s1(1,4) s2(1,2,3)
    by (simp add: buffered_fill_throwing_def resize_guard_def filled_with_def)
next
  case False
  obtain s1 where "fill_start s = Some (storage_size s, s1)" using fill_start_ok [OF assms] by metis
  moreover obtain s' where "buffered_fill reply s = Some (fst reply, length (fill_bytes reply s), s')" "filled_with (fill_bytes reply s) s s'"
    using buffered_fill_ok [OF assms] by metis
  ultimately show ?thesis using that False by (simp add: buffered_fill_throwing_def)
qed

lemma copy_out_ok:
  assumes "storage_inv s"
  obtains s' where "copy_out n s = Some (take n (unread s), s')" "storage_inv s'" "storage_capacity s' = storage_capacity s"
    "unread s' = drop n (unread s)"
proof -
  have "length (peek_copy n s) \<le> storage_size s" using assms by (simp add: peek_copy_def flip: unread_def)
  then obtain s' where s': "storage_consume (length (peek_copy n s)) s = Some s'" "storage_inv s'" "storage_capacity s' = storage_capacity s"
    "unread s' = drop (length (peek_copy n s)) (unread s)" using storage_consume_ok [OF assms] by metis
  have p: "peek_copy n s = take n (unread s)" by (simp add: peek_copy_def unread_def)
  then have "unread s' = drop n (unread s)" using s'(4) by (cases "n \<le> length (unread s)") simp_all
  then show ?thesis using that s' p by (simp add: copy_out_def)
qed

section \<open>Any sequence of reads\<close>

datatype read_operation =
    Fill "io_error \<times> byte list" | Fill_throwing "io_error \<times> byte list" | Async_fill "io_error \<times> byte list"
  | Read_some nat "io_error \<times> byte list" | Read_some_throwing nat "io_error \<times> byte list" | Async_read_some nat "io_error \<times> byte list" | Peek nat "io_error \<times> byte list"
  | Peek_throwing nat "io_error \<times> byte list"

text \<open>What an operation delivers to its caller, what the next layer gives it, and the storage.\<close>

definition read_step :: "read_operation \<Rightarrow> storage \<Rightarrow> (byte list \<times> byte list \<times> storage) option" where
  "read_step x s =
     (case x of
        Fill reply \<Rightarrow> map_option (\<lambda>(_, _, s'). ([], fill_bytes reply s, s')) (buffered_fill reply s)
      | Fill_throwing reply \<Rightarrow>
          map_option (\<lambda>(_, s'). ([], if failed (fst reply) then [] else fill_bytes reply s, s')) (buffered_fill_throwing reply s)
      | Async_fill reply \<Rightarrow> map_option (\<lambda>(_, _, s'). ([], fill_bytes reply s, s')) (async_fill reply s)
      | Read_some n reply \<Rightarrow>
          map_option (\<lambda>(_, bs, s'). (bs, if n \<noteq> 0 \<and> storage_empty s then fill_bytes reply s else [], s')) (buffered_read_some n reply s)
      | Async_read_some n reply \<Rightarrow>
          map_option (\<lambda>(_, bs, s'). (bs, if n \<noteq> 0 \<and> storage_empty s then fill_bytes reply s else [], s')) (async_buffered_read_some n reply s)
      | Peek n reply \<Rightarrow> map_option (\<lambda>(_, bs, s'). ([], if storage_empty s then fill_bytes reply s else [], s')) (buffered_peek n reply s)
      | Read_some_throwing n reply \<Rightarrow>
          map_option (\<lambda>(bs, s'). (case bs of None \<Rightarrow> [] | Some bs \<Rightarrow> bs,
            if n \<noteq> 0 \<and> storage_empty s \<and> \<not> failed (fst reply) then fill_bytes reply s else [], s')) (buffered_read_some_throwing n reply s)
      | Peek_throwing n reply \<Rightarrow>
          map_option (\<lambda>(_, s'). ([], if storage_empty s \<and> \<not> failed (fst reply) then fill_bytes reply s else [], s'))
            (buffered_peek_throwing n reply s))"

fun read_run :: "read_operation list \<Rightarrow> storage \<Rightarrow> (byte list \<times> byte list \<times> storage) option" where
  "read_run [] s = Some ([], [], s)"
| "read_run (x # xs) s =
     (case read_step x s of
        None \<Rightarrow> None
      | Some (d, r, s1) \<Rightarrow> map_option (\<lambda>(d', r', s'). (d @ d', r @ r', s')) (read_run xs s1))"

definition read_keeps :: "storage \<Rightarrow> byte list \<times> byte list \<times> storage \<Rightarrow> bool" where
  "read_keeps s result \<longleftrightarrow>
     (case result of (d, r, s') \<Rightarrow> storage_inv s' \<and> storage_capacity s' = storage_capacity s \<and> d @ unread s' = unread s @ r)"

lemma read_some_keeps:
  assumes "storage_inv s"
  shows "\<exists>ec bs s'. buffered_read_some n reply s = Some (ec, bs, s') \<and> read_keeps s (bs, if n \<noteq> 0 \<and> storage_empty s then fill_bytes reply s else [], s')"
proof (cases "n \<noteq> 0 \<and> storage_empty s")
  case True
  obtain s1 where s1: "buffered_fill reply s = Some (fst reply, length (fill_bytes reply s), s1)" "filled_with (fill_bytes reply s) s s1"
    using buffered_fill_ok [OF assms] by metis
  obtain s2 where "copy_out n s1 = Some (take n (unread s1), s2)" "storage_inv s2" "storage_capacity s2 = storage_capacity s1" "unread s2 = drop n (unread s1)"
    using copy_out_ok [of s1] s1(2) unfolding filled_with_def by metis
  then show ?thesis using True s1 empty_iff_unread [OF assms] by (auto simp: buffered_read_some_def read_keeps_def filled_with_def)
next
  case False
  obtain s2 where "copy_out n s = Some (take n (unread s), s2)" "storage_inv s2" "storage_capacity s2 = storage_capacity s" "unread s2 = drop n (unread s)"
    using copy_out_ok [OF assms] by metis
  then show ?thesis using False assms by (auto simp: buffered_read_some_def read_keeps_def)
qed

lemma handler_keeps:
  assumes "storage_inv s"
  shows "\<exists>bs s'. read_some_handler n ec s = Some (ec, bs, s') \<and> read_keeps s (bs, [], s')"
proof -
  obtain s2 where "copy_out n s = Some (take n (unread s), s2)" "storage_inv s2" "storage_capacity s2 = storage_capacity s" "unread s2 = drop n (unread s)"
    using copy_out_ok [OF assms] by metis
  then show ?thesis using assms by (auto simp: read_some_handler_def read_keeps_def)
qed

lemma async_read_some_keeps:
  assumes "storage_inv s"
  shows "\<exists>ec bs s'. async_buffered_read_some n reply s = Some (ec, bs, s') \<and> read_keeps s (bs, if n \<noteq> 0 \<and> storage_empty s then fill_bytes reply s else [], s')"
proof (cases "n \<noteq> 0 \<and> storage_empty s")
  case True
  obtain s1 where s1: "async_fill reply s = Some (fst reply, length (fill_bytes reply s), s1)" "filled_with (fill_bytes reply s) s s1"
    using buffered_fill_ok [OF assms] by metis
  obtain bs s2 where "read_some_handler n (fst reply) s1 = Some (fst reply, bs, s2)" "read_keeps s1 (bs, [], s2)"
    using handler_keeps [of s1] s1(2) unfolding filled_with_def by blast
  then show ?thesis using True s1 by (auto simp: async_buffered_read_some_def read_keeps_def filled_with_def)
next
  case False
  obtain bs s2 where "read_some_handler n (fst reply) s = Some (fst reply, bs, s2)" "read_keeps s (bs, [], s2)"
    using handler_keeps [OF assms] by blast
  then show ?thesis using False by (auto simp: async_buffered_read_some_def)
qed

lemma peek_keeps:
  assumes "storage_inv s"
  shows "\<exists>ec s'. buffered_peek n reply s = Some (ec, take n (unread s'), s') \<and> read_keeps s ([], if storage_empty s then fill_bytes reply s else [], s')"
proof (cases "storage_empty s")
  case True
  obtain s1 where s1: "buffered_fill reply s = Some (fst reply, length (fill_bytes reply s), s1)" "filled_with (fill_bytes reply s) s s1"
    using buffered_fill_ok [OF assms] by metis
  then show ?thesis using True empty_iff_unread [OF assms]
    by (auto simp: buffered_peek_def read_keeps_def filled_with_def peek_copy_def simp flip: unread_def)
next
  case False
  then show ?thesis using assms by (simp add: buffered_peek_def read_keeps_def peek_copy_def flip: unread_def)
qed

lemma fill_if_empty_ok:
  assumes "storage_inv s"
  obtains s1 where "fill_if_empty reply s = Some (storage_empty s \<and> failed (fst reply), s1)"
    "filled_with (if storage_empty s \<and> \<not> failed (fst reply) then fill_bytes reply s else []) s s1"
proof (cases "storage_empty s")
  case True
  obtain n s1 where "buffered_fill_throwing reply s = Some (n, s1)" "n = None \<longleftrightarrow> failed (fst reply)"
    "filled_with (if failed (fst reply) then [] else fill_bytes reply s) s s1"
    using fill_throwing_ok [OF assms] by metis
  then show ?thesis using True that [of s1] by (simp add: fill_if_empty_def split: if_splits)
next
  case False
  then show ?thesis using assms that [of s] by (simp add: fill_if_empty_def filled_with_def)
qed

lemma read_some_throwing_keeps:
  assumes "storage_inv s"
  shows "\<exists>bs s'. buffered_read_some_throwing n reply s = Some (bs, s') \<and> read_keeps s (case bs of None \<Rightarrow> [] | Some bs \<Rightarrow> bs,
    if n \<noteq> 0 \<and> storage_empty s \<and> \<not> failed (fst reply) then fill_bytes reply s else [], s')"
proof (cases "n = 0")
  case True
  then show ?thesis using assms by (simp add: buffered_read_some_throwing_def read_keeps_def)
next
  case False
  obtain s1 where s1: "fill_if_empty reply s = Some (storage_empty s \<and> failed (fst reply), s1)"
    "filled_with (if storage_empty s \<and> \<not> failed (fst reply) then fill_bytes reply s else []) s s1"
    using fill_if_empty_ok [OF assms] by metis
  obtain s2 where "copy_out n s1 = Some (take n (unread s1), s2)" "storage_inv s2" "storage_capacity s2 = storage_capacity s1" "unread s2 = drop n (unread s1)"
    using copy_out_ok [of s1] s1(2) unfolding filled_with_def by metis
  then show ?thesis using False s1 empty_iff_unread [OF assms]
    by (auto simp: buffered_read_some_throwing_def read_keeps_def filled_with_def split: if_splits)
qed

lemma read_step_keeps:
  assumes "storage_inv s"
  shows "\<exists>result. read_step x s = Some result \<and> read_keeps s result"
proof (cases x)
  case (Fill reply)
  obtain s1 where "buffered_fill reply s = Some (fst reply, length (fill_bytes reply s), s1)" "filled_with (fill_bytes reply s) s s1"
    using buffered_fill_ok [OF assms] by metis
  then show ?thesis using Fill by (simp add: read_step_def read_keeps_def filled_with_def)
next
  case (Fill_throwing reply)
  obtain n s1 where "buffered_fill_throwing reply s = Some (n, s1)" "filled_with (if failed (fst reply) then [] else fill_bytes reply s) s s1"
    using fill_throwing_ok [OF assms] by metis
  then show ?thesis using Fill_throwing by (simp add: read_step_def read_keeps_def filled_with_def)
next
  case (Async_fill reply)
  obtain s1 where "async_fill reply s = Some (fst reply, length (fill_bytes reply s), s1)" "filled_with (fill_bytes reply s) s s1"
    using buffered_fill_ok [OF assms] by metis
  then show ?thesis using Async_fill by (simp add: read_step_def read_keeps_def filled_with_def)
next
  case (Read_some n reply)
  then show ?thesis using read_some_keeps [OF assms, of n reply] by (auto simp: read_step_def)
next
  case (Async_read_some n reply)
  then show ?thesis using async_read_some_keeps [OF assms, of n reply] by (auto simp: read_step_def)
next
  case (Peek n reply)
  then show ?thesis using peek_keeps [OF assms, of n reply] by (auto simp: read_step_def)
next
  case (Read_some_throwing n reply)
  then show ?thesis using read_some_throwing_keeps [OF assms, of n reply] by (auto simp: read_step_def)
next
  case (Peek_throwing n reply)
  obtain s1 where "fill_if_empty reply s = Some (storage_empty s \<and> failed (fst reply), s1)"
    "filled_with (if storage_empty s \<and> \<not> failed (fst reply) then fill_bytes reply s else []) s s1"
    using fill_if_empty_ok [OF assms] by metis
  then show ?thesis using Peek_throwing by (simp add: read_step_def buffered_peek_throwing_def read_keeps_def filled_with_def)
qed

text \<open>
  C33. However a buffered read stream is filled, read from and peeked at, in whatever order and with whatever errors
  from the next layer, no assertion fails, and what its callers have been given followed by what is
  still in the storage is exactly what was there and what the next layer has given, in order.
\<close>

theorem buffered_reads_transparent:
  assumes "storage_inv s"
  shows "\<exists>d r s'. read_run xs s = Some (d, r, s') \<and> storage_inv s' \<and> storage_capacity s' = storage_capacity s \<and>
    d @ unread s' = unread s @ r"
  using assms
proof (induction xs arbitrary: s)
  case (Cons x xs)
  obtain d r s1 where s1: "read_step x s = Some (d, r, s1)" "read_keeps s (d, r, s1)" using read_step_keeps [OF Cons(2)] by (metis prod_cases3)
  then have k: "storage_inv s1" "storage_capacity s1 = storage_capacity s" "d @ unread s1 = unread s @ r" by (simp_all add: read_keeps_def)
  obtain d' r' s' where s': "read_run xs s1 = Some (d', r', s')" "storage_inv s'" "storage_capacity s' = storage_capacity s1" "d' @ unread s' = unread s1 @ r'"
    using Cons(1) [OF k(1)] by blast
  have "(d @ d') @ unread s' = unread s @ r @ r'" using s'(4) k(3) by (metis append.assoc)
  then show ?case using s1(1) s' k(2) by simp
qed simp

lemma buffered_reads_transparent_witness:
  "\<exists>s'. read_run [Peek 2 (success, [1, 2, 3]), Read_some 2 (success, []), Fill (success, [4, 5]), Async_read_some 9 (success, [])] (storage_new 4) =
      Some ([1, 2, 3, 4, 5], [1, 2, 3, 4, 5], s') \<and> unread s' = []"
proof -
  let ?xs = "[Peek 2 (success, [1, 2, 3]), Read_some 2 (success, []), Fill (success, [4, 5]), Async_read_some 9 (success, [])]"
  obtain d r s' where s': "read_run ?xs (storage_new 4) = Some (d, r, s')" "d @ unread s' = unread (storage_new 4) @ r"
    using buffered_reads_transparent [OF storage_new_inv(1), of ?xs 4] by blast
  have "\<exists>s'. read_run ?xs (storage_new 4) = Some ([1, 2, 3, 4, 5], [1, 2, 3, 4, 5], s')"
    by (simp add: read_step_def buffered_peek_def buffered_fill_def fill_start_def storage_new_def storage_empty_def storage_resize_def
      storage_capacity_def storage_size_def storage_data_def storage_write_def resize_guard_def peek_copy_def fill_bytes_def
      buffered_read_some_def async_buffered_read_some_def read_some_handler_def copy_out_def storage_consume_def storage_clear_def
      success_def failed_def Let_def numeral_eq_Suc)
  then show ?thesis using s' storage_new_inv(2) by auto
qed

section \<open>Any sequence of writes\<close>

text \<open>What a transfer of \<open>d\<close> says it wrote, it wrote.\<close>

definition wrote :: "byte list \<Rightarrow> nat list \<times> (error_code \<times> nat) option \<Rightarrow> bool" where
  "wrote d result \<longleftrightarrow>
     bytes_at d (fst result) = take (length (fst result)) d \<and> length (fst result) \<le> length d \<and>
     (case snd result of None \<Rightarrow> True | Some (ec, n) \<Rightarrow> n = length (fst result) \<and> (ec = 0 \<longrightarrow> n = length d))"

lemma bytes_of_take: "xs = take k [0..<length d] \<Longrightarrow> bytes_at d xs = take (length xs) d \<and> length xs \<le> length d"
proof -
  assume x: "xs = take k [0..<length d]"
  define m where "m = min k (length d)"
  have "take k [0..<length d] = take m [0..<length d]" by (simp add: m_def min_def)
  then have m: "xs = take m [0..<length d]" using x by simp
  have l: "length xs = m" using x by (simp add: m_def)
  show ?thesis unfolding l m using bytes_at_take [of m d] by (simp add: m_def)
qed

lemma sync_wrote:
  assumes "loop_obeys sequence_walker transfer_all 0 (cb_init [\<lparr>bdata = 0, bsize = length d\<rparr>]) es"
  shows "wrote d (write_buffer_sequence transfer_all [\<lparr>bdata = 0, bsize = length d\<rparr>] es)"
proof -
  obtain xs r where l: "buffer_loop sequence_walker transfer_all 0 (cb_init [\<lparr>bdata = 0, bsize = length d\<rparr>]) es = (xs, r)" by fastforce
  have x: "xs = take (length xs) [0..<length d]"
    "\<And>ec n. r = Some (ec, n) \<Longrightarrow> n = length xs \<and> (xs = [0..<length d] \<or> transfer_all ec n = 0)"
    using sequence.buffer_loop_exact [OF cb_inv_init assms] unfolding l by (auto simp: cb_init_rest flat_def)
  have "n = length xs \<and> (ec = 0 \<longrightarrow> n = length d)" if "r = Some (ec, n)" for ec n
    using x(2) [OF that] by (auto simp: transfer_all_def default_max_transfer_size_def)
  then show ?thesis using bytes_of_take [OF x(1)] l by (auto simp: wrote_def write_buffer_sequence_def split: option.split)
qed

lemma async_wrote:
  assumes "stream_obeys [\<lparr>bdata = 0, bsize = length d\<rparr>] es"
  shows "wrote d (async_write_op [\<lparr>bdata = 0, bsize = length d\<rparr>] es)"
proof -
  let ?c = "cb_init [\<lparr>bdata = 0, bsize = length d\<rparr>]"
  have call: "write_op_call sequence_walker transfer_all True 0 0 ?c = (Start_some (w_prepare sequence_walker ?c default_max_transfer_size), ?c)"
    by (simp add: write_op_call_def transfer_all_def)
  have "cb_rest ?c = [0..<length d]" "w_total sequence_walker ?c = 0" by (simp_all add: cb_init_rest flat_def)
  then obtain k where "k \<le> length d" "case async_write_op [\<lparr>bdata = 0, bsize = length d\<rparr>] es of
      (xs, None) \<Rightarrow> xs = take k [0..<length d]
    | (xs, Some (ec, t)) \<Rightarrow> xs = take k [0..<length d] \<and> t = k \<and> (ec = 0 \<longrightarrow> k = length d)"
    using sequence.drive_started [OF cb_inv_init, of "[\<lparr>bdata = 0, bsize = length d\<rparr>]" default_max_transfer_size es] assms
    by (fastforce simp: stream_obeys_def async_write_op_def call default_max_transfer_size_def split: prod.splits option.splits)
  then show ?thesis using bytes_of_take [of _ k d] by (auto simp: wrote_def split: prod.splits option.splits)
qed

definition flush_keeps :: "storage \<Rightarrow> written \<Rightarrow> bool" where
  "flush_keeps s result \<longleftrightarrow>
     (case snd result of
        None \<Rightarrow> fst result = take (length (fst result)) (unread s)
      | Some (ec, n, s') \<Rightarrow> storage_inv s' \<and> storage_capacity s' = storage_capacity s \<and> fst result @ unread s' = unread s \<and> n = length (fst result))"

lemma flush_consume_keeps:
  assumes "storage_inv s" "wrote (unread s) result"
  shows "\<exists>w. flush_consume result s = Some w \<and> flush_keeps s w"
proof -
  obtain xs r where p: "result = (xs, r)" by (cases result)
  have o: "bytes_at (unread s) xs = take (length xs) (unread s)" "length xs \<le> storage_size s" using assms p by (simp_all add: wrote_def)
  show ?thesis
  proof (cases r)
    case None
    have "length (take (length xs) (unread s)) = length xs" using o(2) length_unread [OF assms(1)] by simp
    then show ?thesis using o(1) p None by (simp only: flush_consume_def flush_keeps_def fst_conv snd_conv option.case Let_def
      unread_def [symmetric]) simp
  next
    case (Some e)
    obtain ec n where e: "e = (ec, n)" by (cases e)
    have n: "n = length xs" using assms(2) p Some e by (simp add: wrote_def)
    then obtain s' where "storage_consume n s = Some s'" "storage_inv s'" "storage_capacity s' = storage_capacity s" "unread s' = drop n (unread s)"
      using storage_consume_ok [OF assms(1)] o(2) by metis
    then show ?thesis using o p Some e n length_unread [OF assms(1)]
      by (simp add: flush_consume_def flush_keeps_def min_absorb2 flip: unread_def)
  qed
qed

lemma buffered_copy_in_ok:
  assumes "storage_inv s"
  obtains n s' where "buffered_copy_in bs s = Some (n, s')" "n = min (length bs) (storage_capacity s - storage_size s)" "storage_inv s'"
    "storage_capacity s' = storage_capacity s" "unread s' = unread s @ take n bs"
proof -
  define n where "n = (if length bs < storage_capacity s - storage_size s then length bs else storage_capacity s - storage_size s)"
  have n: "n = min (length bs) (storage_capacity s - storage_size s)" by (auto simp: n_def)
  have le: "storage_size s + n \<le> storage_capacity s" using storage_bounds [OF assms] n by simp
  obtain s1 where s1: "storage_resize (storage_size s + n) s = Some s1" "storage_inv s1" "storage_capacity s1 = storage_capacity s"
    "storage_size s1 = storage_size s + n" "take (min (storage_size s + n) (storage_size s)) (unread s1) = take (storage_size s + n) (unread s)"
    using storage_resize_ok [OF assms le] .
  define s2 where "s2 = storage_write (storage_size s) (take n bs) s1"
  have len: "length (take n bs) = n" using n by simp
  then have w: "storage_inv s2" "storage_capacity s2 = storage_capacity s" "storage_size s2 = storage_size s + n"
    "take (storage_size s + n) (unread s2) = take (storage_size s) (unread s1) @ take n bs"
    using storage_write_ok [OF s1(2), of "storage_size s" "take n bs"] s1(3,4) by (simp_all add: s2_def)
  have "take (storage_size s) (unread s1) = unread s" using s1(5) length_unread [OF assms] by (simp add: min_absorb2)
  then have "unread s2 = unread s @ take n bs" using w(3,4) length_unread [OF w(1)] by simp
  moreover have "buffered_copy_in bs s = Some (n, s2)" using s1(1) by (simp add: buffered_copy_in_def Let_def s2_def n_def [symmetric])
  ultimately show ?thesis using that n w(1,2) by blast
qed

datatype write_operation =
    Flush "(error_code \<times> nat) list" | Async_flush "(error_code \<times> nat) list"
  | Flush_throwing "(error_code \<times> nat) list"
  | Write_some "byte list" "(error_code \<times> nat) list" | Async_write_some "byte list" error_code "(error_code \<times> nat) list"
  | Write_some_throwing "byte list" "(error_code \<times> nat) list"

fun perform_write :: "write_operation \<Rightarrow> storage \<Rightarrow> written option" where
  "perform_write (Flush es) s = buffered_flush es s"
| "perform_write (Async_flush es) s = async_flush es s"
| "perform_write (Write_some bs es) s = buffered_write_some bs es s"
| "perform_write (Async_write_some bs ec0 es) s = async_buffered_write_some bs ec0 es s"
| "perform_write (Flush_throwing es) s = buffered_flush_throwing es s"
| "perform_write (Write_some_throwing bs es) s = buffered_write_some_throwing bs es s"

fun offered :: "write_operation \<Rightarrow> byte list" where
  "offered (Write_some bs _) = bs"
| "offered (Async_write_some bs _ _) = bs"
| "offered (Write_some_throwing bs _) = bs"
| "offered _ = []"

text \<open>Whether an operation that ends with \<open>ec\<close> throws.\<close>

fun throws :: "write_operation \<Rightarrow> error_code \<Rightarrow> bool" where
  "throws (Flush_throwing _) ec \<longleftrightarrow> ec \<noteq> 0"
| "throws (Write_some_throwing _ _) ec \<longleftrightarrow> ec \<noteq> 0"
| "throws _ ec \<longleftrightarrow> False"

text \<open>
  What each operation sent to the next layer and whether it threw, what the stream accepted, and the
  storage unless an operation waits.
\<close>

fun write_run :: "write_operation list \<Rightarrow> storage \<Rightarrow> ((bool \<times> byte list) list \<times> byte list \<times> storage option) option" where
  "write_run [] s = Some ([], [], Some s)"
| "write_run (x # xs) s =
     (case perform_write x s of
        None \<Rightarrow> None
      | Some (out, None) \<Rightarrow> Some ([(False, out)], [], None)
      | Some (out, Some (ec, n, s1)) \<Rightarrow>
          map_option (\<lambda>(sent, acc, s'). ((throws x ec, out) # sent, take n (offered x) @ acc, s')) (write_run xs s1))"

text \<open>
  \<open>d\<close> sent in pieces, one after the other, but what was sent by an operation that threw is sent again;
  \<open>rest\<close> is not sent yet.
\<close>

fun sent_in_order :: "byte list \<Rightarrow> (bool \<times> byte list) list \<Rightarrow> byte list \<Rightarrow> bool" where
  "sent_in_order d [] rest \<longleftrightarrow> d = rest"
| "sent_in_order d ((threw, out) # sent) rest \<longleftrightarrow>
     take (length out) d = out \<and> sent_in_order (if threw then d else drop (length out) d) sent rest"

lemma sent_once: "sent_in_order d sent rest \<Longrightarrow> \<forall>p \<in> set sent. \<not> fst p \<Longrightarrow> concat (map snd sent) @ rest = d"
proof (induction d sent rest rule: sent_in_order.induct)
  case (2 d threw out sent rest)
  then have "concat (map snd sent) @ rest = drop (length out) d" "take (length out) d = out" by auto
  then show ?case by (metis append.assoc append_take_drop_id concat.simps(2) list.simps(9) snd_conv)
qed simp

text \<open>The next layer writes no more than it is given, and something unless it fails.\<close>

fun write_obeys :: "write_operation list \<Rightarrow> storage \<Rightarrow> bool" where
  "write_obeys [] s \<longleftrightarrow> True"
| "write_obeys (x # xs) s \<longleftrightarrow>
     (case x of
        Flush es \<Rightarrow> loop_obeys sequence_walker transfer_all 0 (cb_init [\<lparr>bdata = 0, bsize = storage_size s\<rparr>]) es
      | Flush_throwing es \<Rightarrow> loop_obeys sequence_walker transfer_all 0 (cb_init [\<lparr>bdata = 0, bsize = storage_size s\<rparr>]) es
      | Write_some bs es \<Rightarrow> loop_obeys sequence_walker transfer_all 0 (cb_init [\<lparr>bdata = 0, bsize = storage_size s\<rparr>]) es
      | Write_some_throwing bs es \<Rightarrow> loop_obeys sequence_walker transfer_all 0 (cb_init [\<lparr>bdata = 0, bsize = storage_size s\<rparr>]) es
      | Async_flush es \<Rightarrow> stream_obeys [\<lparr>bdata = 0, bsize = storage_size s\<rparr>] es
      | Async_write_some bs ec0 es \<Rightarrow> stream_obeys [\<lparr>bdata = 0, bsize = storage_size s\<rparr>] es) \<and>
     (case perform_write x s of Some (_, Some (_, _, s1)) \<Rightarrow> write_obeys xs s1 | _ \<Rightarrow> True)"

definition write_keeps :: "storage \<Rightarrow> byte list \<Rightarrow> written \<Rightarrow> bool" where
  "write_keeps s bs result \<longleftrightarrow>
     (case snd result of
        None \<Rightarrow> fst result = take (length (fst result)) (unread s)
      | Some (ec, n, s') \<Rightarrow> storage_inv s' \<and> storage_capacity s' = storage_capacity s \<and> fst result @ unread s' = unread s @ take n bs)"

lemma flush_is_write: "flush_keeps s w \<Longrightarrow> write_keeps s [] w"
  by (auto simp: flush_keeps_def write_keeps_def split: option.splits)

lemma buffered_flush_keeps:
  assumes "storage_inv s"
  shows "loop_obeys sequence_walker transfer_all 0 (cb_init [\<lparr>bdata = 0, bsize = storage_size s\<rparr>]) es \<Longrightarrow>
      \<exists>w. buffered_flush es s = Some w \<and> flush_keeps s w"
    and "stream_obeys [\<lparr>bdata = 0, bsize = storage_size s\<rparr>] es \<Longrightarrow> \<exists>w. async_flush es s = Some w \<and> flush_keeps s w"
  using flush_consume_keeps [OF assms] sync_wrote [of "unread s" es] async_wrote [of "unread s" es] length_unread [OF assms]
  by (simp_all add: buffered_flush_def async_flush_def)

lemma write_some_keeps:
  assumes "storage_inv s" "loop_obeys sequence_walker transfer_all 0 (cb_init [\<lparr>bdata = 0, bsize = storage_size s\<rparr>]) es"
  shows "\<exists>w. buffered_write_some bs es s = Some w \<and> write_keeps s bs w"
proof -
  consider "bs = []" | "bs \<noteq> []" "storage_size s \<noteq> storage_capacity s" | "bs \<noteq> []" "storage_size s = storage_capacity s" by blast
  then show ?thesis
  proof cases
    case 1
    then show ?thesis using assms(1) by (simp add: buffered_write_some_def write_keeps_def)
  next
    case 2
    obtain n s' where "buffered_copy_in bs s = Some (n, s')" "storage_inv s'" "storage_capacity s' = storage_capacity s" "unread s' = unread s @ take n bs"
      using buffered_copy_in_ok [OF assms(1)] by metis
    then show ?thesis using 2 by (simp add: buffered_write_some_def write_keeps_def)
  next
    case 3
    obtain out r where f: "buffered_flush es s = Some (out, r)" "flush_keeps s (out, r)"
      using buffered_flush_keeps(1) [OF assms] by (metis surj_pair)
    show ?thesis
    proof (cases r)
      case None
      then show ?thesis using 3 f by (simp add: buffered_write_some_def write_keeps_def flush_keeps_def)
    next
      case (Some e)
      obtain ec n s1 where e: "e = (ec, n, s1)" by (cases e)
      have k: "storage_inv s1" "storage_capacity s1 = storage_capacity s" "out @ unread s1 = unread s" using f(2) Some e by (simp_all add: flush_keeps_def)
      obtain m s2 where "buffered_copy_in bs s1 = Some (m, s2)" "storage_inv s2" "storage_capacity s2 = storage_capacity s1" "unread s2 = unread s1 @ take m bs"
        using buffered_copy_in_ok [OF k(1)] by metis
      then show ?thesis using 3 f(1) Some e k by (auto simp: buffered_write_some_def write_keeps_def)
    qed
  qed
qed

lemma write_handler_keeps:
  assumes "storage_inv s"
  shows "\<exists>ec' n s'. write_some_handler bs ec s = Some (ec', n, s') \<and> storage_inv s' \<and> storage_capacity s' = storage_capacity s \<and>
    unread s' = unread s @ take n bs"
proof -
  obtain n s' where "buffered_copy_in bs s = Some (n, s')" "storage_inv s'" "storage_capacity s' = storage_capacity s" "unread s' = unread s @ take n bs"
    using buffered_copy_in_ok [OF assms] by metis
  then show ?thesis using assms by (simp add: write_some_handler_def)
qed

lemma async_write_some_keeps:
  assumes "storage_inv s" "stream_obeys [\<lparr>bdata = 0, bsize = storage_size s\<rparr>] es"
  shows "\<exists>w. async_buffered_write_some bs ec0 es s = Some w \<and> write_keeps s bs w"
proof (cases "bs = [] \<or> storage_size s < storage_capacity s")
  case True
  then show ?thesis using write_handler_keeps [OF assms(1), of bs ec0] by (auto simp: async_buffered_write_some_def write_keeps_def)
next
  case False
  obtain out r where f: "async_flush es s = Some (out, r)" "flush_keeps s (out, r)"
    using buffered_flush_keeps(2) [OF assms] by (metis surj_pair)
  show ?thesis
  proof (cases r)
    case None
    then show ?thesis using False f by (simp add: async_buffered_write_some_def write_keeps_def flush_keeps_def)
  next
    case (Some e)
    obtain ec n s1 where e: "e = (ec, n, s1)" by (cases e)
    have k: "storage_inv s1" "storage_capacity s1 = storage_capacity s" "out @ unread s1 = unread s" using f(2) Some e by (simp_all add: flush_keeps_def)
    obtain ec' m s2 where "write_some_handler bs ec s1 = Some (ec', m, s2)" "storage_inv s2" "storage_capacity s2 = storage_capacity s1" "unread s2 = unread s1 @ take m bs"
      using write_handler_keeps [OF k(1)] by blast
    then show ?thesis using False f(1) Some e k by (auto simp: async_buffered_write_some_def write_keeps_def)
  qed
qed

definition step_keeps :: "write_operation \<Rightarrow> storage \<Rightarrow> written \<Rightarrow> bool" where
  "step_keeps x s result \<longleftrightarrow>
     (case snd result of
        Some (ec, n, s') \<Rightarrow>
          if throws x ec then n = 0 \<and> s' = s \<and> take (length (fst result)) (unread s) = fst result
          else write_keeps s (offered x) result
      | None \<Rightarrow> write_keeps s (offered x) result)"

lemma step_keeps_write: "(\<And>ec. \<not> throws x ec) \<Longrightarrow> step_keeps x s w \<longleftrightarrow> write_keeps s (offered x) w"
  by (auto simp: step_keeps_def split: option.splits)

lemma flush_throwing_keeps:
  assumes "storage_inv s" "loop_obeys sequence_walker transfer_all 0 (cb_init [\<lparr>bdata = 0, bsize = storage_size s\<rparr>]) es"
  shows "\<exists>out r. buffered_flush_throwing es s = Some (out, r) \<and>
    (case r of
       Some (ec, n, s') \<Rightarrow> if ec \<noteq> 0 then n = 0 \<and> s' = s \<and> take (length out) (unread s) = out else flush_keeps s (out, r)
     | None \<Rightarrow> flush_keeps s (out, r))"
proof -
  let ?result = "write_buffer_sequence transfer_all [\<lparr>bdata = 0, bsize = storage_size s\<rparr>] es"
  have w: "wrote (unread s) ?result" using sync_wrote [of "unread s" es] assms length_unread [OF assms(1)] by simp
  obtain v where v: "flush_consume ?result s = Some v" "flush_keeps s v" using flush_consume_keeps [OF assms(1) w] by blast
  obtain xs r where p: "?result = (xs, r)" by fastforce
  have o: "bytes_at (unread s) xs = take (length xs) (unread s)" "length xs \<le> length (unread s)"
    using w p by (simp_all add: wrote_def)
  then have o': "take (length (take (length xs) (unread s))) (unread s) = take (length xs) (unread s)" by (simp add: min_absorb2)
  show ?thesis
  proof (cases "\<exists>ec n. r = Some (ec, n) \<and> ec \<noteq> 0")
    case True
    then show ?thesis using p o(1) o' by (auto simp: buffered_flush_throwing_def Let_def simp flip: unread_def)
  next
    case False
    then have f: "buffered_flush_throwing es s = Some v" using p v(1)
      by (auto simp: buffered_flush_throwing_def Let_def split: option.split)
    have "\<not> (\<exists>ec n s'. snd v = Some (ec, n, s') \<and> ec \<noteq> 0)"
      using False v(1) p by (auto simp: flush_consume_def Let_def split: option.splits)
    then show ?thesis using f v(2) by (cases v) (auto split: option.split)
  qed
qed

lemma write_some_throwing_keeps:
  assumes "storage_inv s" "loop_obeys sequence_walker transfer_all 0 (cb_init [\<lparr>bdata = 0, bsize = storage_size s\<rparr>]) es"
  shows "\<exists>w. buffered_write_some_throwing bs es s = Some w \<and> step_keeps (Write_some_throwing bs es) s w"
proof -
  consider "bs = []" | "bs \<noteq> []" "storage_size s \<noteq> storage_capacity s" | "bs \<noteq> []" "storage_size s = storage_capacity s" by blast
  then show ?thesis
  proof cases
    case 1
    then show ?thesis using assms(1) by (simp add: buffered_write_some_throwing_def step_keeps_def write_keeps_def)
  next
    case 2
    obtain n s' where "buffered_copy_in bs s = Some (n, s')" "storage_inv s'" "storage_capacity s' = storage_capacity s" "unread s' = unread s @ take n bs"
      using buffered_copy_in_ok [OF assms(1)] by metis
    then show ?thesis using 2 by (simp add: buffered_write_some_throwing_def step_keeps_def write_keeps_def)
  next
    case 3
    obtain out r where f: "buffered_flush_throwing es s = Some (out, r)"
      "case r of
         Some (ec, n, s') \<Rightarrow> if ec \<noteq> 0 then n = 0 \<and> s' = s \<and> take (length out) (unread s) = out else flush_keeps s (out, r)
       | None \<Rightarrow> flush_keeps s (out, r)" using flush_throwing_keeps [OF assms] by blast
    show ?thesis
    proof (cases r)
      case None
      then show ?thesis using 3 f by (simp add: buffered_write_some_throwing_def step_keeps_def write_keeps_def flush_keeps_def)
    next
      case (Some e)
      obtain ec n s1 where e: "e = (ec, n, s1)" by (cases e)
      show ?thesis
      proof (cases "ec = 0")
        case False
        then show ?thesis using 3 f Some e by (simp add: buffered_write_some_throwing_def step_keeps_def)
      next
        case True
        then have k: "storage_inv s1" "storage_capacity s1 = storage_capacity s" "out @ unread s1 = unread s"
          using f(2) Some e by (simp_all add: flush_keeps_def)
        obtain m s2 where "buffered_copy_in bs s1 = Some (m, s2)" "storage_inv s2" "storage_capacity s2 = storage_capacity s1" "unread s2 = unread s1 @ take m bs"
          using buffered_copy_in_ok [OF k(1)] by metis
        then show ?thesis using 3 f(1) Some e k True
          by (auto simp: buffered_write_some_throwing_def step_keeps_def write_keeps_def)
      qed
    qed
  qed
qed

lemma perform_write_keeps:
  assumes "storage_inv s" "write_obeys (x # xs) s"
  shows "\<exists>w. perform_write x s = Some w \<and> step_keeps x s w"
proof (cases x)
  case (Flush_throwing es)
  then show ?thesis using flush_throwing_keeps [OF assms(1), of es] assms(2)
    by (fastforce simp: step_keeps_def intro: flush_is_write split: option.splits if_splits)
next
  case (Write_some_throwing bs es)
  then show ?thesis using write_some_throwing_keeps [OF assms(1), of es bs] assms(2) by simp
qed (use assms(2) buffered_flush_keeps [OF assms(1)] write_some_keeps [OF assms(1)] async_write_some_keeps [OF assms(1)] flush_is_write
    in \<open>fastforce simp: step_keeps_write\<close>)+

lemma write_run_sends:
  assumes "storage_inv s" "write_obeys xs s"
  shows "\<exists>sent acc r. write_run xs s = Some (sent, acc, r) \<and>
    (case r of
       Some s' \<Rightarrow> storage_inv s' \<and> storage_capacity s' = storage_capacity s \<and> sent_in_order (unread s @ acc) sent (unread s')
     | None \<Rightarrow> \<exists>rest. sent_in_order (unread s @ acc) sent rest)"
  using assms
proof (induction xs arbitrary: s)
  case (Cons x xs)
  obtain out r where w: "perform_write x s = Some (out, r)" "step_keeps x s (out, r)"
    using perform_write_keeps [OF Cons(2,3)] by (metis surj_pair)
  show ?case
  proof (cases r)
    case None
    then have "take (length out) (unread s) = out" using w(2) by (simp add: step_keeps_def write_keeps_def)
    then have "sent_in_order (unread s @ []) [(False, out)] (drop (length out) (unread s))" by simp
    moreover have "write_run (x # xs) s = Some ([(False, out)], [], None)" using w(1) None by simp
    ultimately show ?thesis by fastforce
  next
    case (Some e)
    obtain ec n s1 where e: "e = (ec, n, s1)" by (cases e)
    have k: "storage_inv s1" "storage_capacity s1 = storage_capacity s"
      "if throws x ec then n = 0 \<and> s1 = s \<and> take (length out) (unread s) = out
       else out @ unread s1 = unread s @ take n (offered x)"
      using w(2) Some e Cons(2) by (auto simp: step_keeps_def write_keeps_def split: if_splits)
    have "write_obeys xs s1" using Cons(3) w(1) Some e by simp
    then obtain sent acc r' where s': "write_run xs s1 = Some (sent, acc, r')"
      "case r' of
         Some s' \<Rightarrow> storage_inv s' \<and> storage_capacity s' = storage_capacity s1 \<and> sent_in_order (unread s1 @ acc) sent (unread s')
       | None \<Rightarrow> \<exists>rest. sent_in_order (unread s1 @ acc) sent rest" using Cons(1) [OF k(1)] by blast
    have run: "write_run (x # xs) s = Some ((throws x ec, out) # sent, take n (offered x) @ acc, r')" using w(1) Some e s'(1) by simp
    have order: "sent_in_order (unread s @ take n (offered x) @ acc) ((throws x ec, out) # sent) rest"
      if "sent_in_order (unread s1 @ acc) sent rest" for rest
    proof (cases "throws x ec")
      case True
      then have t: "n = 0" "s1 = s" "take (length out) (unread s) = out" using k(3) by simp_all
      then have "length out \<le> length (unread s)" by (metis length_take min.cobounded1)
      then show ?thesis using True t that by simp
    next
      case False
      then have all: "unread s @ take n (offered x) @ acc = out @ unread s1 @ acc" using k(3) by (metis append.assoc)
      show ?thesis unfolding all using False that by simp
    qed
    show ?thesis
    proof (cases r')
      case None
      then obtain rest where "sent_in_order (unread s1 @ acc) sent rest" using s'(2) by auto
      from order [OF this] None show ?thesis unfolding run by fastforce
    next
      case (Some s')
      then have "storage_inv s'" "storage_capacity s' = storage_capacity s" "sent_in_order (unread s1 @ acc) sent (unread s')"
        using s'(2) k(2) by simp_all
      from this(1,2) order [OF this(3)] Some show ?thesis unfolding run by simp
    qed
  qed
qed simp

text \<open>
  C34. However a buffered write stream is written to and flushed, by its blocking operations with an error code
  or an exception and by its asynchronous ones, no assertion fails, and what goes to the next layer is what was in
  the storage and the bytes that its writes said they had accepted, in order, what is not sent yet
  being in the storage. Each byte is sent once as long as no operation throws, also when a flush fails part of
  the way; an operation that throws leaves what it has sent in the storage, and it is sent again. While an operation waits, the
  next layer has had a beginning of it.
\<close>

theorem buffered_writes_transparent:
  assumes "storage_inv s" "write_obeys xs s"
  shows "\<exists>sent acc r. write_run xs s = Some (sent, acc, r) \<and>
    (case r of
       Some s' \<Rightarrow> storage_inv s' \<and> storage_capacity s' = storage_capacity s \<and>
         sent_in_order (unread s @ acc) sent (unread s') \<and>
         ((\<forall>p \<in> set sent. \<not> fst p) \<longrightarrow> concat (map snd sent) @ unread s' = unread s @ acc)
     | None \<Rightarrow> (\<exists>rest. sent_in_order (unread s @ acc) sent rest) \<and>
         ((\<forall>p \<in> set sent. \<not> fst p) \<longrightarrow> (\<exists>k. concat (map snd sent) = take k (unread s @ acc))))"
proof -
  obtain sent acc r where run: "write_run xs s = Some (sent, acc, r)"
    "case r of
       Some s' \<Rightarrow> storage_inv s' \<and> storage_capacity s' = storage_capacity s \<and> sent_in_order (unread s @ acc) sent (unread s')
     | None \<Rightarrow> \<exists>rest. sent_in_order (unread s @ acc) sent rest" using write_run_sends [OF assms] by blast
  have "\<exists>k. concat (map snd sent) = take k (unread s @ acc)"
    if "sent_in_order (unread s @ acc) sent rest" "\<forall>p \<in> set sent. \<not> fst p" for rest
    using sent_once [OF that] by (metis append_eq_conv_conj)
  then show ?thesis using run sent_once by (cases r) (auto 0 3)
qed

text \<open>
  C35. When the storage is full and flushing it fails after some bytes, the blocking write still copies
  what fits into the storage and returns its length together with the error, although it says that it
  returns 0 then; the asynchronous one accepts nothing.
\<close>

theorem failed_flush_accepts:
  assumes "storage_inv s" "storage_size s = storage_capacity s" "bs \<noteq> []"
    and "loop_obeys sequence_walker transfer_all 0 (cb_init [\<lparr>bdata = 0, bsize = storage_size s\<rparr>]) es"
    and "buffered_flush es s = Some (out, Some (ec, flushed, s1))" "ec \<noteq> 0" "0 < flushed"
    and "stream_obeys [\<lparr>bdata = 0, bsize = storage_size s\<rparr>] es" "async_flush es s = Some (out, Some (ec, flushed, s1))"
  shows "\<exists>n s2. buffered_write_some bs es s = Some (out, Some (ec, n, s2)) \<and> n = min (length bs) flushed \<and> 0 < n \<and>
      unread s2 = unread s1 @ take n bs \<and>
    async_buffered_write_some bs ec0 es s = Some (out, Some (ec, 0, s1))"
proof -
  have k: "storage_inv s1" "storage_capacity s1 = storage_capacity s" "out @ unread s1 = unread s" "flushed = length out"
    using buffered_flush_keeps(1) [OF assms(1,4)] assms(5) by (auto simp: flush_keeps_def)
  have "length out + storage_size s1 = storage_size s"
    using arg_cong [OF k(3), of length] length_unread [OF k(1)] length_unread [OF assms(1)] by simp
  then have room: "storage_capacity s1 - storage_size s1 = flushed" using k(2,4) assms(2) by linarith
  obtain n s2 where c: "buffered_copy_in bs s1 = Some (n, s2)" "n = min (length bs) (storage_capacity s1 - storage_size s1)" "unread s2 = unread s1 @ take n bs"
    using buffered_copy_in_ok [OF k(1)] by metis
  have n: "n = min (length bs) flushed" "0 < n" using c(2) room assms(3,7) by simp_all
  have "buffered_write_some bs es s = Some (out, Some (ec, n, s2))" using assms(2,3,5,7) c(1) by (simp add: buffered_write_some_def)
  moreover have "async_buffered_write_some bs ec0 es s = Some (out, Some (ec, 0, s1))"
    using assms(2,3,6,9) by (simp add: async_buffered_write_some_def write_some_handler_def)
  ultimately show ?thesis using n c(3) by blast
qed

text \<open>A full storage, whose flush fails after three bytes.\<close>

definition full_storage :: storage where
  "full_storage = \<lparr>begin_offset = 0, end_offset = 4, sbytes = [1, 2, 3, 4]\<rparr>"

lemma full_storage_ok:
  "storage_inv full_storage" "storage_size full_storage = 4" "storage_capacity full_storage = 4" "unread full_storage = [1, 2, 3, 4]"
  by (simp_all add: full_storage_def storage_inv_def storage_size_def storage_capacity_def unread_def storage_data_def)

lemma full_flush:
  "loop_obeys sequence_walker transfer_all 0 (cb_init [\<lparr>bdata = 0, bsize = 4\<rparr>]) [(0, 3), (7, 0)]"
  "stream_obeys [\<lparr>bdata = 0, bsize = 4\<rparr>] [(0, 3), (7, 0)]"
  "write_buffer_sequence transfer_all [\<lparr>bdata = 0, bsize = 4\<rparr>] [(0, 3), (7, 0)] = ([0, 1, 2], Some (7, 3))"
  "async_write_op [\<lparr>bdata = 0, bsize = 4\<rparr>] [(0, 3), (7, 0)] = ([0, 1, 2], Some (7, 3))"
  by (simp_all add: transfer_eval write_buffer_sequence_def buffer_loop.simps)

lemma full_flushed:
  "buffered_flush [(0, 3), (7, 0)] full_storage = Some ([1, 2, 3], Some (7, 3, full_storage\<lparr>begin_offset := 3\<rparr>))"
  "async_flush [(0, 3), (7, 0)] full_storage = Some ([1, 2, 3], Some (7, 3, full_storage\<lparr>begin_offset := 3\<rparr>))"
  unfolding buffered_flush_def async_flush_def full_storage_ok(2) full_flush(3,4)
  by (simp_all add: flush_consume_def storage_consume_def storage_empty_def storage_data_def storage_size_def bytes_at_def full_storage_def Let_def)

lemma buffered_writes_transparent_witness:
  "\<exists>s'. write_run [Flush_throwing [(0, 3), (7, 0)], Write_some [5, 6] [(0, 3), (7, 0)], Async_write_some [7, 8] 0 []] full_storage =
      Some ([(True, [1, 2, 3]), (False, [1, 2, 3]), (False, [])], [5, 6, 7], Some s') \<and>
    unread s' = [4, 5, 6, 7]"
proof -
  let ?xs = "[Flush_throwing [(0, 3), (7, 0)], Write_some [5, 6] [(0, 3), (7, 0)], Async_write_some [7, 8] 0 []]"
  have first: "buffered_write_some [5, 6] [(0, 3), (7, 0)] full_storage =
      Some ([1, 2, 3], Some (7, 2, \<lparr>begin_offset = 0, end_offset = 3, sbytes = [4, 5, 6, 4]\<rparr>))"
    using full_flushed(1) full_storage_ok(2,3)
    by (simp add: buffered_write_some_def buffered_copy_in_def storage_resize_def storage_write_def storage_size_def storage_capacity_def
      storage_data_def full_storage_def Let_def numeral_eq_Suc)
  have second: "async_buffered_write_some [7, 8] 0 [] \<lparr>begin_offset = 0, end_offset = 3, sbytes = [4, 5, 6, 4]\<rparr> =
      Some ([], Some (0, 1, \<lparr>begin_offset = 0, end_offset = 4, sbytes = [4, 5, 6, 7]\<rparr>))"
    by (simp add: async_buffered_write_some_def write_some_handler_def buffered_copy_in_def storage_resize_def storage_write_def storage_size_def
      storage_capacity_def Let_def)
  have thrown: "buffered_flush_throwing [(0, 3), (7, 0)] full_storage = Some ([1, 2, 3], Some (7, 0, full_storage))"
    unfolding buffered_flush_throwing_def full_storage_ok(2) full_flush(3)
    by (simp add: storage_data_def storage_size_def bytes_at_def full_storage_def)
  have obeys: "write_obeys ?xs full_storage"
    using full_flush(1) full_storage_ok(2) thrown first second by (simp add: stream_obeys_def write_op_call_def)
  have run: "write_run ?xs full_storage = Some ([(True, [1, 2, 3]), (False, [1, 2, 3]), (False, [])], [5, 6, 7], Some \<lparr>begin_offset = 0, end_offset = 4, sbytes = [4, 5, 6, 7]\<rparr>)"
    using thrown first second by (simp add: numeral_eq_Suc)
  from buffered_writes_transparent [OF full_storage_ok(1) obeys] run full_storage_ok(4) show ?thesis by simp
qed

lemma failed_flush_accepts_witness:
  "\<exists>s2. buffered_write_some [5, 6] [(0, 3), (7, 0)] full_storage = Some ([1, 2, 3], Some (7, 2, s2)) \<and> unread s2 = [4, 5, 6] \<and>
    async_buffered_write_some [5, 6] 0 [(0, 3), (7, 0)] full_storage = Some ([1, 2, 3], Some (7, 0, full_storage\<lparr>begin_offset := 3\<rparr>))"
proof -
  have u: "unread (full_storage\<lparr>begin_offset := 3\<rparr>) = [4]"
    by (simp add: unread_def storage_size_def storage_data_def full_storage_def)
  obtain n s2 where "buffered_write_some [5, 6] [(0, 3), (7, 0)] full_storage = Some ([1, 2, 3], Some (7, n, s2))" "n = min 2 3"
    "unread s2 = [4] @ take n [5, 6]"
    "async_buffered_write_some [5, 6] 0 [(0, 3), (7, 0)] full_storage = Some ([1, 2, 3], Some (7, 0, full_storage\<lparr>begin_offset := 3\<rparr>))"
    using failed_flush_accepts [OF full_storage_ok(1) _ _ _ full_flushed(1) _ _ _ full_flushed(2), of "[5, 6]" 0, unfolded full_storage_ok(2,3) u]
      full_flush(1,2) by auto
  then show ?thesis by simp
qed

end
