(* ===== verification/AsioStreambuf.thy ===== *)
theory AsioStreambuf
  imports AsioSyncTransfer
begin

text \<open>
  \<^verbatim>\<open>basic_streambuf\<close>: a stream buffer over a vector that is also a dynamic buffer of the first
  interface. Positions are offsets into the vector; the get area begins at 0, 'input' is what lies
  between the get and the put position.

  Shown: the locale \<open>dynamic_buffer\<close> holds of it, so that reads and \<^verbatim>\<open>read_until\<close> into it do what
  they do for the other buffers; characters written through the stream are read back; and a
  \<^verbatim>\<open>prepare\<close> that throws may have changed the input.
\<close>

section \<open>The class\<close>

record sbuf =
  svec :: growing
  sgptr :: nat
  segptr :: nat
  spptr :: nat
  sepptr :: nat
  smax :: nat

definition sbuf_new :: "(nat \<Rightarrow> nat \<Rightarrow> nat) \<Rightarrow> nat \<Rightarrow> sbuf" where
  "sbuf_new grow maximum_size =
     (let pend = min maximum_size 128
      in \<lparr>svec = \<lparr>chars = replicate (max pend 1) 0, reserved = max pend 1, policy = grow\<rparr>,
          sgptr = 0, segptr = 0, spptr = 0, sepptr = pend, smax = maximum_size\<rparr>)"

definition sbuf_size :: "sbuf \<Rightarrow> nat" where
  "sbuf_size b = spptr b - sgptr b"

definition sbuf_capacity :: "sbuf \<Rightarrow> nat" where
  "sbuf_capacity b = reserved (svec b)"

definition sbuf_data :: "sbuf \<Rightarrow> byte list" where
  "sbuf_data b = take (spptr b - sgptr b) (drop (sgptr b) (chars (svec b)))"

text \<open>\<^verbatim>\<open>pbump\<close> and \<^verbatim>\<open>gbump\<close> take an \<^verbatim>\<open>int\<close>.\<close>

definition bump :: "nat \<Rightarrow> nat \<Rightarrow> nat" where
  "bump p n = nat (int p + sint (word_of_nat n :: 32 word))"

text \<open>\<open>True\<close>: \<^verbatim>\<open>std::length_error\<close>, from the class or from the vector.\<close>

definition sbuf_reserve :: "nat \<Rightarrow> sbuf \<Rightarrow> bool \<times> sbuf" where
  "sbuf_reserve n b =
     (let gnext = sgptr b; pnext = spptr b; pend = sepptr b
      in if n \<le> pend - pnext then (False, b)
         else
           let d = chars (svec b);
               (v, pnext) =
                 (if gnext > 0
                  then ((svec b)\<lparr>chars := take (pnext - gnext) (drop gnext d) @ drop (pnext - gnext) d\<rparr>, pnext - gnext)
                  else (svec b, pnext));
               moved = (\<lambda>v pend. b\<lparr>svec := v, sgptr := 0, segptr := pnext, spptr := pnext, sepptr := pend\<rparr>)
           in if n > pend - pnext
              then
                if n \<le> smax b \<and> pnext \<le> smax b - n
                then
                  case resize_chars (max (pnext + n) 1) v of
                    None \<Rightarrow> (True, b\<lparr>svec := v\<rparr>)
                  | Some v' \<Rightarrow> (False, moved v' (pnext + n))
                else (True, b\<lparr>svec := v\<rparr>)
              else (False, moved v pend))"

definition sbuf_prepare :: "nat \<Rightarrow> sbuf \<Rightarrow> bool \<times> sbuf" where
  "sbuf_prepare n b = sbuf_reserve n b"

definition sbuf_commit :: "nat \<Rightarrow> sbuf \<Rightarrow> sbuf" where
  "sbuf_commit n b =
     (let n = min n (sepptr b - spptr b); b1 = b\<lparr>spptr := bump (spptr b) n\<rparr> in b1\<lparr>segptr := spptr b1\<rparr>)"

definition sbuf_consume :: "nat \<Rightarrow> sbuf \<Rightarrow> sbuf" where
  "sbuf_consume n b =
     (let b1 = (if segptr b < spptr b then b\<lparr>segptr := spptr b\<rparr> else b);
          n = (if sgptr b1 + n > spptr b1 then spptr b1 - sgptr b1 else n)
      in b1\<lparr>sgptr := bump (sgptr b1) n\<rparr>)"

definition underflow :: "sbuf \<Rightarrow> byte option \<times> sbuf" where
  "underflow b =
     (if sgptr b < spptr b then (Some (chars (svec b) ! sgptr b), b\<lparr>segptr := spptr b\<rparr>) else (None, b))"

text \<open>\<open>None\<close> for a character: end of file. The result says whether an exception was thrown.\<close>

definition overflow :: "byte option \<Rightarrow> sbuf \<Rightarrow> bool \<times> sbuf" where
  "overflow c b =
     (case c of
        None \<Rightarrow> (False, b)
      | Some c \<Rightarrow>
          let (thrown, b1) =
            (if spptr b = sepptr b
             then
               let buffer_size = spptr b - sgptr b
               in if buffer_size < smax b \<and> smax b - buffer_size < 128 then sbuf_reserve (smax b - buffer_size) b
                  else sbuf_reserve 128 b
             else (False, b))
          in if thrown then (True, b1)
             else (False, b1\<lparr>svec := (svec b1)\<lparr>chars := (chars (svec b1))[spptr b1 := c]\<rparr>, spptr := bump (spptr b1) 1\<rparr>))"

definition read_size_helper :: "sbuf \<Rightarrow> nat \<Rightarrow> nat" where
  "read_size_helper b max_size = min (max 512 (size_sub (sbuf_capacity b) (sbuf_size b))) (min max_size (size_sub (smax b) (sbuf_size b)))"

section \<open>As a dynamic buffer\<close>

definition sbuf_write :: "byte list \<Rightarrow> sbuf \<Rightarrow> sbuf" where
  "sbuf_write bs b =
     b\<lparr>svec := (svec b)\<lparr>chars := take (spptr b) (chars (svec b)) @ bs @ drop (spptr b + length bs) (chars (svec b))\<rparr>\<rparr>"

definition through_streambuf :: "(sbuf, sbuf) dynbuf" where
  "through_streambuf =
     \<lparr>db_size = sbuf_size, db_max = smax, db_capacity = sbuf_capacity, db_data = sbuf_data,
      db_ask = (\<lambda>n b. case sbuf_prepare n b of (thrown, b') \<Rightarrow> if thrown then None else Some b'),
      db_got = (\<lambda>n bs b. Some (sbuf_commit (length bs) (sbuf_write bs b)))\<rparr>"

definition sbuf_inv :: "sbuf \<Rightarrow> bool" where
  "sbuf_inv b \<longleftrightarrow> sgptr b \<le> spptr b \<and> spptr b \<le> sepptr b \<and> sepptr b \<le> length (chars (svec b)) \<and> sepptr b \<le> smax b \<and>
     string_inv (svec b)"

definition int_max :: nat where
  "int_max = 2 ^ 31 - 1"

lemma bump_small: "n \<le> int_max \<Longrightarrow> bump p n = p + n"
  by (simp add: bump_def int_max_def signed_of_nat signed_take_bit_int_eq_self)

lemma int_max_small [simp]: "int_max < SIZE_MAX" "int_max \<le> string_max"
  by (simp_all add: int_max_def SIZE_MAX_def string_max_def)

lemma sbuf_new_inv: "\<forall>c n. n \<le> grow c n \<Longrightarrow> sbuf_inv (sbuf_new grow m)" "sbuf_data (sbuf_new grow m) = []"
  by (simp_all add: sbuf_new_def sbuf_inv_def string_inv_def string_max_def sbuf_data_def Let_def)

lemma length_sbuf_data: "sbuf_inv b \<Longrightarrow> length (sbuf_data b) = sbuf_size b"
  by (auto simp: sbuf_inv_def sbuf_data_def sbuf_size_def)

text \<open>Making room keeps the input, and fails only beyond the maximum.\<close>

lemma sbuf_reserve_ok:
  assumes "sbuf_inv b" "n \<le> smax b - sbuf_size b" "sbuf_size b + n \<le> string_max"
  obtains b' where "sbuf_reserve n b = (False, b')" "sbuf_inv b'" "sbuf_data b' = sbuf_data b" "smax b' = smax b"
    "n \<le> sepptr b' - spptr b'"
proof (cases "n \<le> sepptr b - spptr b")
  case True
  then show ?thesis using assms(1) that [of b] by (simp add: sbuf_reserve_def)
next
  case False
  let ?d = "chars (svec b)" and ?k = "sbuf_size b"
  define v where "v = (svec b)\<lparr>chars := sbuf_data b @ drop ?k ?d\<rparr>"
  have i: "sgptr b \<le> spptr b" "spptr b \<le> sepptr b" "sepptr b \<le> length ?d" "sepptr b \<le> smax b" "string_inv (svec b)"
    using assms(1) by (simp_all add: sbuf_inv_def)
  have k: "length (sbuf_data b) = ?k" "?k \<le> spptr b" "?k \<le> length ?d" using length_sbuf_data [OF assms(1)] i by (auto simp: sbuf_size_def)
  have len: "length (chars v) = length ?d" using k by (simp add: v_def)
  have shift: "(if 0 < sgptr b then ((svec b)\<lparr>chars := take (spptr b - sgptr b) (drop (sgptr b) ?d) @ drop (spptr b - sgptr b) ?d\<rparr>, spptr b - sgptr b)
      else (svec b, spptr b)) = (v, ?k)"
    by (auto simp: v_def sbuf_data_def sbuf_size_def)
  define moved where "moved = (\<lambda>v pend. b\<lparr>svec := v, sgptr := 0, segptr := ?k, spptr := ?k, sepptr := pend\<rparr>)"
  have r: "sbuf_reserve n b =
      (if n > sepptr b - ?k
       then if n \<le> smax b \<and> ?k \<le> smax b - n
            then case resize_chars (max (?k + n) 1) v of None \<Rightarrow> (True, b\<lparr>svec := v\<rparr>) | Some v' \<Rightarrow> (False, moved v' (?k + n))
            else (True, b\<lparr>svec := v\<rparr>)
       else (False, moved v (sepptr b)))"
    using False unfolding sbuf_reserve_def Let_def shift by (simp add: moved_def split: option.split)
  have mv: "sbuf_data (moved v p) = take ?k (chars v)" for v p by (simp add: sbuf_data_def moved_def)
  show ?thesis
  proof (cases "n > sepptr b - ?k")
    case True
    have "max (?k + n) 1 \<le> string_max" using assms(3) by (simp add: string_max_def)
    moreover have "\<forall>c n. n \<le> policy v c n" using i(5) by (simp add: v_def string_inv_def)
    ultimately obtain v' where v': "resize_chars (max (?k + n) 1) v = Some v'"
      "chars v' = take (max (?k + n) 1) (chars v) @ replicate (max (?k + n) 1 - length (chars v)) 0"
      "length (chars v') = max (?k + n) 1" "string_inv v'" by (rule resize_chars_some)
    have fits: "n \<le> smax b" "?k \<le> smax b - n" using assms(2) i by (auto simp: sbuf_size_def)
    then have "sbuf_reserve n b = (False, moved v' (?k + n))" using r True v'(1) by simp
    moreover have "sbuf_inv (moved v' (?k + n))" using v'(3,4) fits by (simp add: sbuf_inv_def moved_def)
    moreover have "sbuf_data (moved v' (?k + n)) = sbuf_data b" using v'(2) k(1) unfolding mv by (simp add: v_def)
    ultimately show ?thesis using that by (simp add: moved_def)
  next
    case False
    have "sbuf_inv (moved v (sepptr b))" using i k len by (simp add: sbuf_inv_def moved_def) (simp add: v_def string_inv_def)
    moreover have "sbuf_data (moved v (sepptr b)) = sbuf_data b" using k(1) unfolding mv by (simp add: v_def)
    ultimately show ?thesis using that r False by (simp add: moved_def)
  qed
qed

lemma sbuf_fill:
  assumes "sbuf_inv b" "length bs \<le> sepptr b - spptr b" "length bs \<le> int_max"
  shows "sbuf_inv (sbuf_commit (length bs) (sbuf_write bs b)) \<and> sbuf_data (sbuf_commit (length bs) (sbuf_write bs b)) = sbuf_data b @ bs \<and>
    smax (sbuf_commit (length bs) (sbuf_write bs b)) = smax b"
proof -
  let ?d = "chars (svec b)"
  let ?n = "take (spptr b) ?d @ bs @ drop (spptr b + length bs) ?d"
  have i: "sgptr b \<le> spptr b" "spptr b + length bs \<le> sepptr b" "sepptr b \<le> length ?d" "sepptr b \<le> smax b" "string_inv (svec b)"
    using assms by (auto simp: sbuf_inv_def)
  have c: "sbuf_commit (length bs) (sbuf_write bs b) = b\<lparr>svec := (svec b)\<lparr>chars := ?n\<rparr>, spptr := spptr b + length bs, segptr := spptr b + length bs\<rparr>"
    using assms(2,3) by (simp add: sbuf_commit_def sbuf_write_def bump_small Let_def min_absorb1)
  have len: "length ?n = length ?d" using i by simp
  have "take (spptr b + length bs - sgptr b) (drop (sgptr b) ?n) = take (spptr b - sgptr b) (drop (sgptr b) ?d) @ bs"
    using i by (simp add: take_drop)
  then show ?thesis unfolding c using i len by (simp add: sbuf_inv_def sbuf_data_def string_inv_def)
qed

interpretation sbuf: dynamic_buffer through_streambuf sbuf_inv int_max
proof unfold_locales
  fix b assume "sbuf_inv b"
  then show "db_size through_streambuf b = length (db_data through_streambuf b)"
    by (simp add: through_streambuf_def length_sbuf_data)
next
  fix b assume "sbuf_inv b"
  then show "db_size through_streambuf b \<le> db_capacity through_streambuf b \<and> db_size through_streambuf b \<le> db_max through_streambuf b"
    by (auto simp: through_streambuf_def sbuf_inv_def sbuf_size_def sbuf_capacity_def string_inv_def)
next
  fix b n assume a: "sbuf_inv b" "n \<le> db_max through_streambuf b - db_size through_streambuf b" "db_size through_streambuf b + n \<le> int_max"
  then have "sbuf_size b + n \<le> string_max" by (intro order_trans [OF _ int_max_small(2)]) (simp add: through_streambuf_def)
  then obtain b' where "sbuf_reserve n b = (False, b')" using sbuf_reserve_ok [OF a(1), of n] a(2) by (auto simp: through_streambuf_def)
  then show "db_ask through_streambuf n b \<noteq> None" by (simp add: through_streambuf_def sbuf_prepare_def)
next
  fix b n w and bs :: "byte list"
  assume a: "sbuf_inv b" "db_ask through_streambuf n b = Some w" "db_size through_streambuf b + n \<le> int_max" "length bs \<le> n"
  have res: "sbuf_reserve n b = (False, w)"
    using a(2) by (auto simp: through_streambuf_def sbuf_prepare_def split: prod.splits if_splits)
  have "n \<le> sepptr b - spptr b \<or> n \<le> smax b - sbuf_size b"
    using res a(1) by (auto simp: sbuf_reserve_def Let_def sbuf_size_def sbuf_inv_def split: if_splits)
  then have "n \<le> smax b - sbuf_size b" using a(1) by (auto simp: sbuf_inv_def sbuf_size_def)
  moreover have "sbuf_size b + n \<le> string_max" using a(3) by (intro order_trans [OF _ int_max_small(2)]) (simp add: through_streambuf_def)
  ultimately obtain b' where "sbuf_reserve n b = (False, b')" "sbuf_inv b'" "sbuf_data b' = sbuf_data b" "smax b' = smax b" "n \<le> sepptr b' - spptr b'"
    using sbuf_reserve_ok [OF a(1)] by metis
  then have w: "sbuf_inv w" "sbuf_data w = sbuf_data b" "smax w = smax b" "length bs \<le> sepptr w - spptr w" using res a(4) by auto
  moreover have "length bs \<le> int_max" using a(3,4) by simp
  ultimately show "\<exists>b'. db_got through_streambuf n bs w = Some b' \<and> sbuf_inv b' \<and>
      db_data through_streambuf b' = db_data through_streambuf b @ bs \<and> db_max through_streambuf b' = db_max through_streambuf b"
    using sbuf_fill [OF w(1,4)] by (simp add: through_streambuf_def)
qed

interpretation char_sbuf: until through_streambuf sbuf_inv int_max "find_char c" "char_hit c" for c
  by unfold_locales simp

interpretation string_sbuf: until through_streambuf sbuf_inv int_max "find_string (x # xs)" "string_hit (x # xs)" for x xs
  by unfold_locales simp

text \<open>\<^verbatim>\<open>read\<close>, \<^verbatim>\<open>read_until\<close> and their composed forms wrap the stream buffer in a \<^verbatim>\<open>basic_streambuf_ref\<close>.\<close>

definition read_streambuf where
  "read_streambuf cond b es = dyn_read_loop through_streambuf cond success 0 b es"

definition read_until_char_streambuf where
  "read_until_char_streambuf delim b es = until_loop through_streambuf (find_char delim) 0 b es"

definition read_until_string_streambuf where
  "read_until_string_streambuf delim b es = until_loop through_streambuf (find_string delim) 0 b es"

definition async_read_streambuf where
  "async_read_streambuf cond b es = dyn_read_drive through_streambuf cond (dyn_read_start through_streambuf cond b) es"

definition async_until_string_streambuf where
  "async_until_string_streambuf delim b es =
     until_drive through_streambuf (find_string delim) (until_start through_streambuf (find_string delim) b) es"

section \<open>As a stream\<close>

lemma sbuf_consume_ok:
  assumes "sbuf_inv b" "sbuf_size b \<le> int_max"
  shows "sbuf_inv (sbuf_consume n b) \<and> sbuf_data (sbuf_consume n b) = drop n (sbuf_data b)"
proof -
  let ?n = "min n (sbuf_size b)"
  have i: "sgptr b \<le> spptr b" "spptr b \<le> sepptr b" "sepptr b \<le> length (chars (svec b))" using assms(1) by (simp_all add: sbuf_inv_def)
  have c: "sbuf_consume n b = b\<lparr>segptr := (if segptr b < spptr b then spptr b else segptr b), sgptr := sgptr b + ?n\<rparr>"
  proof (cases "sgptr b + n > spptr b")
    case True
    then have n: "?n = spptr b - sgptr b" by (simp add: sbuf_size_def)
    have "bump (sgptr b) (spptr b - sgptr b) = sgptr b + (spptr b - sgptr b)" using assms(2) by (intro bump_small) (simp add: sbuf_size_def)
    then show ?thesis unfolding n using True by (simp add: sbuf_consume_def Let_def)
  next
    case False
    then have n: "?n = n" using i(1) by (simp add: sbuf_size_def)
    then have "bump (sgptr b) n = sgptr b + n" using assms(2) by (intro bump_small) simp
    then show ?thesis unfolding n using False by (simp add: sbuf_consume_def Let_def)
  qed
  have "take (spptr b - (sgptr b + ?n)) (drop (sgptr b + ?n) (chars (svec b))) = drop n (sbuf_data b)"
  proof (cases "n \<le> sbuf_size b")
    case True
    then show ?thesis by (simp add: sbuf_data_def drop_take add.commute min_absorb1)
  next
    case False
    then show ?thesis using i(1) length_sbuf_data [OF assms(1)] by (simp add: sbuf_size_def min_absorb2)
  qed
  then show ?thesis unfolding c using assms(1) by (auto simp: sbuf_inv_def sbuf_data_def sbuf_size_def)
qed

lemma underflow_reads:
  assumes "sbuf_inv b"
  shows "fst (underflow b) = (case sbuf_data b of [] \<Rightarrow> None | c # _ \<Rightarrow> Some c)" "sbuf_data (snd (underflow b)) = sbuf_data b"
proof -
  have i: "sgptr b \<le> spptr b" "spptr b \<le> length (chars (svec b))" using assms by (simp_all add: sbuf_inv_def)
  show "fst (underflow b) = (case sbuf_data b of [] \<Rightarrow> None | c # _ \<Rightarrow> Some c)"
  proof (cases "sgptr b < spptr b")
    case True
    then have "drop (sgptr b) (chars (svec b)) = chars (svec b) ! sgptr b # drop (Suc (sgptr b)) (chars (svec b))"
      using i(2) by (intro Cons_nth_drop_Suc [symmetric]) simp
    moreover obtain k where "spptr b - sgptr b = Suc k" using True by (metis Suc_diff_Suc)
    ultimately show ?thesis using True by (simp add: underflow_def sbuf_data_def)
  next
    case False
    then show ?thesis by (simp add: underflow_def sbuf_data_def)
  qed
  show "sbuf_data (snd (underflow b)) = sbuf_data b" by (simp add: underflow_def sbuf_data_def)
qed

text \<open>A character put into a full put area is appended, as long as the maximum allows it.\<close>

lemma overflow_appends:
  assumes "sbuf_inv b" "sbuf_size b < smax b" "sbuf_size b + 128 \<le> string_max"
  shows "\<exists>b'. overflow (Some c) b = (False, b') \<and> sbuf_inv b' \<and> sbuf_data b' = sbuf_data b @ [c]"
proof -
  define k where "k = (if smax b - sbuf_size b < 128 then smax b - sbuf_size b else 128)"
  have k: "0 < k" "k \<le> smax b - sbuf_size b" "sbuf_size b + k \<le> string_max" using assms(2,3) by (auto simp: k_def)
  obtain b1 where b1: "(if spptr b = sepptr b then sbuf_reserve k b else (False, b)) = (False, b1)" "sbuf_inv b1" "sbuf_data b1 = sbuf_data b"
    "spptr b1 < sepptr b1"
  proof (cases "spptr b = sepptr b")
    case True
    then show ?thesis using sbuf_reserve_ok [OF assms(1) k(2,3)] k(1) that
      by (metis zero_less_diff order_less_le_trans)
  next
    case False
    then show ?thesis using assms(1) that [of b] by (simp add: sbuf_inv_def)
  qed
  let ?b' = "b1\<lparr>svec := (svec b1)\<lparr>chars := (chars (svec b1))[spptr b1 := c]\<rparr>, spptr := bump (spptr b1) 1\<rparr>"
  have e: "(if spptr b = sepptr b
         then if sbuf_size b < smax b \<and> smax b - sbuf_size b < 128 then sbuf_reserve (smax b - sbuf_size b) b else sbuf_reserve 128 b
         else (False, b)) = (False, b1)" using b1(1) assms(2) by (simp add: k_def split: if_splits)
  have o: "overflow (Some c) b = (False, ?b')"
    unfolding overflow_def option.case Let_def sbuf_size_def [symmetric] e prod.case by simp
  have bp: "bump (spptr b1) 1 = spptr b1 + 1" by (rule bump_small) (simp add: int_max_def)
  have i: "sgptr b1 \<le> spptr b1" "spptr b1 < length (chars (svec b1))" using b1(2,4) by (auto simp: sbuf_inv_def)
  have "take (spptr b1 + 1 - sgptr b1) (drop (sgptr b1) ((chars (svec b1))[spptr b1 := c])) =
      take (spptr b1 - sgptr b1) (drop (sgptr b1) (chars (svec b1))) @ [c]"
    using i by (simp add: drop_update_swap take_Suc_conv_app_nth Suc_diff_le take_update_swap list_update_append min_def)
  then have "sbuf_data ?b' = sbuf_data b @ [c]" using b1(3) bp by (simp add: sbuf_data_def)
  moreover have "sbuf_inv ?b'" using b1(2,4) bp by (auto simp: sbuf_inv_def string_inv_def)
  ultimately show ?thesis using o by blast
qed

definition write_streambuf where
  "write_streambuf cond b es =
     dyn_write sbuf_consume (sbuf_data b) b (write_buffer_sequence cond [\<lparr>bdata = 0, bsize = length (sbuf_data b)\<rparr>] es)"

lemma write_streambuf_exact:
  assumes "sbuf_inv b" "sbuf_size b \<le> int_max" "loop_obeys sequence_walker cond 0 (cb_init [\<lparr>bdata = 0, bsize = length (sbuf_data b)\<rparr>]) es"
  shows "dyn_write_spec cond (sbuf_data b) sbuf_data (write_streambuf cond b es)"
  unfolding write_streambuf_def using dyn_write_meets [OF assms(3), of sbuf_data sbuf_consume b] sbuf_consume_ok [OF assms(1,2)] by simp

section \<open>What is shown\<close>

text \<open>
  Stream buffers are dynamic buffers: reading into one, for every completion condition, and
  reading until a string do and return what they do for the others, blocking and composed, as long
  as an \<^verbatim>\<open>int\<close> can count the bytes.
\<close>

theorem streambuf_reads:
  assumes "sbuf_inv b" "delim \<noteq> []" "until_obeys through_streambuf (find_string delim) 0 b es"
    and "dyn_read_obeys through_streambuf cond success 0 b es" "\<And>ec t. cond ec t \<le> 65536"
    and "sbuf_size b + length (concat (map snd es)) + 65536 \<le> int_max"
    and "\<forall>e \<in> set es. \<not> failed (fst e) \<longrightarrow> fst e = success"
  shows "(case read_until_string_streambuf delim b es of
      Returned ec n b' \<Rightarrow> sbuf_inv b' \<and> until_spec (string_hit delim) (sbuf_data b) (smax b) es ec n (sbuf_data b')
    | Waiting q n w \<Rightarrow> sbuf_size b + length es < smax b \<and> (\<forall>e \<in> set es. \<not> failed (fst e))
    | Thrown \<Rightarrow> False) \<and>
    dyn_read_spec cond (smax b) (sbuf_data b) es sbuf_data (read_streambuf cond b es) \<and>
    (cond success 0 \<noteq> 0 \<and> sbuf_size b \<noteq> smax b \<longrightarrow> async_read_streambuf cond b es = read_streambuf cond b es) \<and>
    (case find_string delim 0 (sbuf_data b) of
       Resume q \<Rightarrow> sbuf_size b \<noteq> smax b \<longrightarrow> async_until_string_streambuf delim b es = read_until_string_streambuf delim b es
     | Found n \<Rightarrow> read_until_string_streambuf delim b es = Returned success n b)"
proof -
  obtain x xs where d: "delim = x # xs" using assms(2) by (cases delim) auto
  have f: "db_data through_streambuf = sbuf_data" "db_max through_streambuf = smax" "db_size through_streambuf = sbuf_size"
    by (simp_all add: through_streambuf_def)
  have room: "length (db_data through_streambuf b) + length (concat (map snd es)) + 65536 \<le> int_max"
    using assms(6) length_sbuf_data [OF assms(1)] by (simp add: f)
  have one: "case read_until_string_streambuf delim b es of
      Returned ec n b' \<Rightarrow> sbuf_inv b' \<and> until_spec (string_hit delim) (sbuf_data b) (smax b) es ec n (sbuf_data b')
    | Waiting q n w \<Rightarrow> sbuf_size b + length es < smax b \<and> (\<forall>e \<in> set es. \<not> failed (fst e))
    | Thrown \<Rightarrow> False"
    using string_sbuf.loop_result [OF assms(1) _ assms(3) [unfolded d] room] length_sbuf_data [OF assms(1)]
    unfolding read_until_string_streambuf_def d by (auto simp: f split: progress.splits)
  have two: "dyn_read_spec cond (smax b) (sbuf_data b) es sbuf_data (read_streambuf cond b es)"
    using sbuf.dyn_read_meets [OF assms(1,4,5) room] by (simp add: f read_streambuf_def)
  have three: "cond success 0 \<noteq> 0 \<and> sbuf_size b \<noteq> smax b \<longrightarrow> async_read_streambuf cond b es = read_streambuf cond b es"
    using sbuf.dyn_start_drive [OF assms(1,4,5) room] length_sbuf_data [OF assms(1)]
    by (auto simp: f read_streambuf_def async_read_streambuf_def)
  have four: "case find_string delim 0 (sbuf_data b) of
       Resume q \<Rightarrow> sbuf_size b \<noteq> smax b \<longrightarrow> async_until_string_streambuf delim b es = read_until_string_streambuf delim b es
     | Found n \<Rightarrow> read_until_string_streambuf delim b es = Returned success n b"
  proof (cases "find_string delim 0 (sbuf_data b)")
    case (Found n)
    then show ?thesis by (simp add: read_until_string_streambuf_def until_loop.simps f)
  next
    case (Resume q)
    have "length (db_data through_streambuf b) + 65536 \<le> int_max" using room by simp
    from string_sbuf.start_reads [OF assms(1) this, of x xs] string_sbuf.drive_is_loop [OF assms(1) _ assms(3) [unfolded d] room assms(7)] Resume
    show ?thesis by (simp add: f d async_until_string_streambuf_def read_until_string_streambuf_def)
  qed
  show ?thesis using one two three four by blast
qed

text \<open>
  A \<^verbatim>\<open>prepare\<close> beyond the maximum throws, but when part of the buffer has been consumed it has already moved the input to
  the beginning of the vector and not the positions: what the buffer then holds is read from the
  wrong place. With nothing consumed it changes nothing.
\<close>

theorem streambuf_failed_prepare:
  assumes "sbuf_inv b" "smax b - sbuf_size b < n"
  shows "\<exists>b'. sbuf_prepare n b = (True, b') \<and> sbuf_size b' = sbuf_size b \<and>
    sbuf_data b' = take (sbuf_size b) (drop (sgptr b) (sbuf_data b @ drop (sbuf_size b) (chars (svec b)))) \<and>
    (sgptr b = 0 \<longrightarrow> b' = b)"
proof -
  have i: "sgptr b \<le> spptr b" "spptr b \<le> sepptr b" "sepptr b \<le> smax b" using assms(1) by (simp_all add: sbuf_inv_def)
  have "\<not> n \<le> sepptr b - spptr b" "n > sepptr b - (spptr b - sgptr b)" "\<not> (n \<le> smax b \<and> spptr b - sgptr b \<le> smax b - n)"
    using i assms(2) by (auto simp: sbuf_size_def)
  then have "sbuf_prepare n b = (True, if sgptr b > 0
      then b\<lparr>svec := (svec b)\<lparr>chars := sbuf_data b @ drop (sbuf_size b) (chars (svec b))\<rparr>\<rparr> else b)"
    by (auto simp: sbuf_prepare_def sbuf_reserve_def Let_def sbuf_data_def sbuf_size_def)
  moreover have "sgptr b = 0 \<Longrightarrow> sbuf_data b @ drop (sbuf_size b) (chars (svec b)) = chars (svec b)"
    by (simp add: sbuf_data_def sbuf_size_def)
  ultimately show ?thesis by (auto simp: sbuf_size_def sbuf_data_def)
qed

text \<open>Five bytes, two of them consumed.\<close>

definition shrunk_input :: sbuf where
  "shrunk_input = \<lparr>svec = \<lparr>chars = [1, 2, 3, 4, 5], reserved = 5, policy = (\<lambda>c n. n)\<rparr>, sgptr = 2, segptr = 5, spptr = 5, sepptr = 5, smax = 5\<rparr>"

lemma streambuf_failed_prepare_witness:
  "sbuf_data shrunk_input = [3, 4, 5] \<and> (\<exists>b'. sbuf_prepare 3 shrunk_input = (True, b') \<and> sbuf_data b' = [5, 4, 5])"
proof -
  have i: "sbuf_inv shrunk_input" by (simp add: shrunk_input_def sbuf_inv_def string_inv_def string_max_def)
  have d: "sbuf_data shrunk_input = [3, 4, 5]" "sbuf_size shrunk_input = 3" "smax shrunk_input = 5" "sgptr shrunk_input = 2"
    "chars (svec shrunk_input) = [1, 2, 3, 4, 5]" by (simp_all add: shrunk_input_def sbuf_data_def sbuf_size_def)
  from streambuf_failed_prepare [OF i, of 3] show ?thesis by (auto simp: d)
qed

text \<open>An empty stream buffer of at most five bytes, and with a line end in it.\<close>

definition five_bytes :: "byte list \<Rightarrow> sbuf" where
  "five_bytes d = \<lparr>svec = \<lparr>chars = d @ replicate (5 - length d) 0, reserved = 5, policy = (\<lambda>c n. n)\<rparr>,
     sgptr = 0, segptr = length d, spptr = length d, sepptr = 5, smax = 5\<rparr>"

definition at_least_two :: "io_error \<Rightarrow> nat \<Rightarrow> nat" where
  "at_least_two ec total_transferred = (if failed ec \<or> total_transferred \<ge> 2 then 0 else 4)"

lemma five_bytes_new: "five_bytes [] = sbuf_new (\<lambda>c n. n) 5"
  by (simp add: five_bytes_def sbuf_new_def Let_def)

lemma five_bytes_ok:
  "sbuf_inv (five_bytes [])" "sbuf_size (five_bytes []) = 0" "smax (five_bytes []) = 5"
  "sbuf_data (five_bytes []) = []" "sbuf_size (five_bytes [13, 10]) = 2" "smax (five_bytes [13, 10]) = 5" "sbuf_data (five_bytes [13, 10]) = [13, 10]"
  by (simp_all add: five_bytes_def sbuf_inv_def string_inv_def string_max_def sbuf_size_def sbuf_data_def)

lemma five_bytes_amounts:
  "bytes_to_read through_streambuf (five_bytes []) = 5" "bytes_available through_streambuf at_least_two success 0 (five_bytes []) = 4"
  "bytes_available through_streambuf at_least_two success 2 (five_bytes [13, 10]) = 0"
  by (simp_all add: bytes_to_read_def bytes_available_def through_streambuf_def five_bytes_ok sbuf_capacity_def at_least_two_def)

lemma five_bytes_steps:
  "n \<le> 5 \<Longrightarrow> db_ask through_streambuf n (five_bytes []) = Some (five_bytes [])"
  "db_got through_streambuf n [13, 10] (five_bytes []) = Some (five_bytes [13, 10])"
proof -
  show "db_ask through_streambuf n (five_bytes []) = Some (five_bytes [])" if "n \<le> 5"
    using that by (simp add: through_streambuf_def sbuf_prepare_def sbuf_reserve_def five_bytes_def)
  have "bump 0 2 = 2" using bump_small [of 2 0] by (simp add: int_max_def)
  then show "db_got through_streambuf n [13, 10] (five_bytes []) = Some (five_bytes [13, 10])"
    by (simp add: through_streambuf_def sbuf_commit_def sbuf_write_def five_bytes_def Let_def numeral_eq_Suc)
qed

lemma streambuf_reads_witness:
  "read_until_string_streambuf [13, 10] (five_bytes []) [(success, [13, 10])] = Returned success 2 (five_bytes [13, 10]) \<and>
    until_spec (string_hit [13, 10]) [] 5 [(success, [13, 10])] success 2 [13, 10] \<and>
    async_until_string_streambuf [13, 10] (five_bytes []) [(success, [13, 10])] = Returned success 2 (five_bytes [13, 10])"
proof -
  let ?es = "[(success, [13, 10 :: byte])]"
  have search: "find_string [13, 10] 0 [] = Resume 0" "find_string [13, 10] 0 [13, 10] = Found 2" by (simp_all add: find_string_def)
  have f: "db_data through_streambuf = sbuf_data" "db_max through_streambuf = smax" "db_size through_streambuf = sbuf_size"
    by (simp_all add: through_streambuf_def)
  have ask: "db_ask through_streambuf 5 (five_bytes []) = Some (five_bytes [])" "db_ask through_streambuf 4 (five_bytes []) = Some (five_bytes [])"
    by (simp_all add: five_bytes_steps(1))
  have o1: "until_obeys through_streambuf (find_string [13, 10]) 0 (five_bytes []) ?es"
    by (simp add: f five_bytes_ok five_bytes_amounts ask five_bytes_steps(2) search)
  have o2: "dyn_read_obeys through_streambuf at_least_two success 0 (five_bytes []) ?es"
    by (simp add: five_bytes_amounts ask five_bytes_steps(2) Let_def numeral_2_eq_2 [symmetric] del: One_nat_def)
  have small: "sbuf_size (five_bytes []) + length (concat (map snd ?es)) + 65536 \<le> int_max" by (simp add: five_bytes_ok int_max_def)
  have most: "\<And>ec t. at_least_two ec t \<le> 65536" by (simp add: at_least_two_def)
  have run: "read_until_string_streambuf [13, 10] (five_bytes []) ?es = Returned success 2 (five_bytes [13, 10])"
    by (simp add: read_until_string_streambuf_def until_loop.simps f five_bytes_ok five_bytes_amounts ask five_bytes_steps(2) search)
  show ?thesis using streambuf_reads [OF five_bytes_ok(1) _ o1 o2 most small] run by (simp add: five_bytes_ok search)
qed

end
