(* ===== verification/AsioDeadlineTimer.thy ===== *)
theory AsioDeadlineTimer
  imports AsioIocp AsioChrono
begin

text \<open>
  \<^verbatim>\<open>asio/detail/deadline_timer_service.hpp\<close>: the timers the program sees, over the timer
  queue that the service keeps in the event loop (\<open>AsioTimerQueue\<close>, \<open>AsioIocp\<close>). A timer is
  its address; \<open>i\<close> is the place of the service's queue in the set of the loop; \<open>ok\<close> says
  which packets the system posts; \<open>zero\<close> is a default-constructed time. The blocking wait
  sleeps with \<^verbatim>\<open>socket_ops::select\<close> without sets, which on Windows is \<^verbatim>\<open>Sleep\<close>.

  Shown: every pending wait is due exactly at the expiry time its timer has, the flag that
  lets the service skip a cancellation never skips one that would have cancelled a wait, and
  when a blocking wait ends, for how long it sleeps and when it overflows.
\<close>

section \<open>State\<close>

record 't timer_impl =
  expiry :: 't
  might_have_pending_waits :: bool

record ('t, 'k, 'op) timer_service =
  tsched :: "('t, 'k, 'op) iocp"
  timpl :: "'k \<Rightarrow> 't timer_impl"

definition set_expiry :: "'k \<Rightarrow> 't \<Rightarrow> ('t, 'k, 'op) timer_service \<Rightarrow> ('t, 'k, 'op) timer_service" where
  "set_expiry k t d = d\<lparr>timpl := (timpl d)(k := (timpl d k)\<lparr>expiry := t\<rparr>)\<rparr>"

definition set_pending :: "'k \<Rightarrow> bool \<Rightarrow> ('t, 'k, 'op) timer_service \<Rightarrow> ('t, 'k, 'op) timer_service" where
  "set_pending k b d = d\<lparr>timpl := (timpl d)(k := (timpl d k)\<lparr>might_have_pending_waits := b\<rparr>)\<rparr>"

text \<open>The service registers its queue with the loop, at the front, and takes it back.\<close>

definition timer_service_new :: "('t, 'k, 'op) timer_service \<Rightarrow> ('t, 'k, 'op) timer_service" where
  "timer_service_new d = d\<lparr>tsched := add_timer_queue timer_queue_new (tsched d)\<rparr>"

definition timer_service_delete :: "nat \<Rightarrow> ('t, 'k, 'op) timer_service \<Rightarrow> ('t, 'k, 'op) timer_service" where
  "timer_service_delete i d = d\<lparr>tsched := remove_timer_queue i (tsched d)\<rparr>"

section \<open>Operations\<close>

definition timer_construct :: "'t \<Rightarrow> 'k \<Rightarrow> ('t, 'k, 'op) timer_service \<Rightarrow> ('t, 'k, 'op) timer_service" where
  "timer_construct zero k d = set_pending k False (set_expiry k zero d)"

text \<open>What the loop cancels, whatever the flag says.\<close>

definition cancel_in_loop ::
  "('op \<Rightarrow> bool) \<Rightarrow> nat \<Rightarrow> 'k \<Rightarrow> nat \<Rightarrow> ('t::linorder, 'k, 'op) timer_service \<Rightarrow>
    (nat \<times> ('t, 'k, 'op) timer_service) result" where
  "cancel_in_loop ok i k m d =
     and_then (iocp_cancel_timer ok i k m (tsched d)) (\<lambda>(n, s). Inr (n, d\<lparr>tsched := s\<rparr>))"

definition timer_cancel ::
  "('op \<Rightarrow> bool) \<Rightarrow> nat \<Rightarrow> 'k \<Rightarrow> ('t::linorder, 'k, 'op) timer_service \<Rightarrow>
    (nat \<times> ('t, 'k, 'op) timer_service) result" where
  "timer_cancel ok i k d =
     (if \<not> might_have_pending_waits (timpl d k) then Inr (0, d)
      else and_then (cancel_in_loop ok i k SIZE_MAX d) (\<lambda>(count, d1).
        Inr (count, set_pending k False d1)))"

definition timer_cancel_one ::
  "('op \<Rightarrow> bool) \<Rightarrow> nat \<Rightarrow> 'k \<Rightarrow> ('t::linorder, 'k, 'op) timer_service \<Rightarrow>
    (nat \<times> ('t, 'k, 'op) timer_service) result" where
  "timer_cancel_one ok i k d =
     (if \<not> might_have_pending_waits (timpl d k) then Inr (0, d)
      else and_then (cancel_in_loop ok i k 1 d) (\<lambda>(count, d1).
        Inr (count, if count = 0 then set_pending k False d1 else d1)))"

definition timer_destroy ::
  "('op \<Rightarrow> bool) \<Rightarrow> nat \<Rightarrow> 'k \<Rightarrow> ('t::linorder, 'k, 'op) timer_service \<Rightarrow>
    ('t, 'k, 'op) timer_service result" where
  "timer_destroy ok i k d = and_then (timer_cancel ok i k d) (\<lambda>(_, d1). Inr d1)"

text \<open>The members move last; the moved-from timer has no expiry time and no waits.\<close>

definition move_members :: "'t \<Rightarrow> 'k \<Rightarrow> 'k \<Rightarrow> ('t, 'k, 'op) timer_service \<Rightarrow> ('t, 'k, 'op) timer_service" where
  "move_members zero k other d =
     (let d1 = set_expiry k (expiry (timpl d other)) d;
          d2 = set_expiry other zero d1;
          d3 = set_pending k (might_have_pending_waits (timpl d2 other)) d2
      in set_pending other False d3)"

definition timer_move_construct ::
  "'t \<Rightarrow> ('op \<Rightarrow> bool) \<Rightarrow> nat \<Rightarrow> 'k \<Rightarrow> 'k \<Rightarrow> ('t::linorder, 'k, 'op) timer_service \<Rightarrow>
    ('t, 'k, 'op) timer_service result" where
  "timer_move_construct zero ok i k other d =
     and_then (iocp_move_timer ok i k other (tsched d)) (\<lambda>s.
       Inr (move_members zero k other (d\<lparr>tsched := s\<rparr>)))"

text \<open>
  Assignment from a timer of the same service, which leaves the waits of the target to the
  \<^verbatim>\<open>move_timer\<close> of the loop, and from a timer of another service, whose loop \<open>d\<close> has, with
  its queue at \<open>j\<close>; \<open>s\<close> is the loop of this service.
\<close>

definition timer_move_assign ::
  "'t \<Rightarrow> ('op \<Rightarrow> bool) \<Rightarrow> nat \<Rightarrow> 'k \<Rightarrow> 'k \<Rightarrow> ('t::linorder, 'k, 'op) timer_service \<Rightarrow>
    ('t, 'k, 'op) timer_service result" where
  "timer_move_assign zero ok i k other d =
     and_then (iocp_move_timer ok i k other (tsched d)) (\<lambda>s.
       Inr (move_members zero k other (d\<lparr>tsched := s\<rparr>)))"

definition timer_move_assign_from ::
  "'t \<Rightarrow> ('op \<Rightarrow> bool) \<Rightarrow> nat \<Rightarrow> ('t::linorder, 'k, 'op) iocp \<Rightarrow> nat \<Rightarrow> 'k \<Rightarrow> 'k \<Rightarrow>
    ('t, 'k, 'op) timer_service \<Rightarrow> (('t, 'k, 'op) iocp \<times> ('t, 'k, 'op) timer_service) result" where
  "timer_move_assign_from zero ok i s j k other d =
     and_then
       (if might_have_pending_waits (timpl d k)
        then and_then (iocp_cancel_timer ok i k SIZE_MAX s) (\<lambda>(_, s1). Inr s1) else Inr s)
       (\<lambda>s1. and_then (iocp_move_timer ok j k other (tsched d)) (\<lambda>s2.
         Inr (s1, move_members zero k other (d\<lparr>tsched := s2\<rparr>))))"

definition timer_expires_at ::
  "('op \<Rightarrow> bool) \<Rightarrow> nat \<Rightarrow> 'k \<Rightarrow> 't \<Rightarrow> ('t::linorder, 'k, 'op) timer_service \<Rightarrow>
    (nat \<times> ('t, 'k, 'op) timer_service) result" where
  "timer_expires_at ok i k expiry_time d =
     and_then (timer_cancel ok i k d) (\<lambda>(count, d1). Inr (count, set_expiry k expiry_time d1))"

text \<open>Times relative to now, of a clock with 64-bit ticks.\<close>

definition timer_expires_after ::
  "('op \<Rightarrow> bool) \<Rightarrow> nat \<Rightarrow> int \<Rightarrow> 'k \<Rightarrow> int \<Rightarrow> (int, 'k, 'op) timer_service \<Rightarrow>
    (nat \<times> (int, 'k, 'op) timer_service) result" where
  "timer_expires_after ok i now k expiry_time d =
     and_then (time_add now expiry_time) (\<lambda>t. timer_expires_at ok i k t d)"

definition timer_expires_from_now :: "int \<Rightarrow> 'k \<Rightarrow> (int, 'k, 'op) timer_service \<Rightarrow> int result" where
  "timer_expires_from_now now k d = time_subtract (expiry (timpl d k)) now"

definition timer_async_wait ::
  "('t \<Rightarrow> bool) \<Rightarrow> bool \<Rightarrow> nat \<Rightarrow> 'k \<Rightarrow> 'op \<Rightarrow> ('t::linorder, 'k, 'op) timer_service \<Rightarrow>
    (bool \<times> ('t, 'k, 'op) timer_service) result" where
  "timer_async_wait pos_inf ok i k x d =
     (let d1 = set_pending k True d
      in and_then (schedule_timer pos_inf ok i (expiry (timpl d1 k)) k x (tsched d1)) (\<lambda>(earliest, s).
        Inr (earliest, d1\<lparr>tsched := s\<rparr>)))"

section \<open>The blocking wait\<close>

text \<open>
  \<^verbatim>\<open>select\<close> without sets: the milliseconds given to \<^verbatim>\<open>Sleep\<close>. \<^verbatim>\<open>tv_sec\<close> and \<^verbatim>\<open>tv_usec\<close> are
  \<^verbatim>\<open>long\<close>, 32 bits, and so is the arithmetic; \<^verbatim>\<open>DWORD\<close> is unsigned.
\<close>

definition checked_long :: "int \<Rightarrow> int result" where
  "checked_long x = (if - (2 ^ 31) \<le> x \<and> x < 2 ^ 31 then Inr x else Inl Signed_overflow)"

definition sleep_msec :: "int \<Rightarrow> int \<Rightarrow> u32 result" where
  "sleep_msec tv_sec tv_usec =
     and_then (checked_long (tv_sec * 1000)) (\<lambda>a.
     and_then (checked_long (a + tv_usec sdiv 1000)) (\<lambda>b.
       let milliseconds = word_of_int b in Inr (if milliseconds = 0 then 1 else milliseconds)))"

definition total_seconds :: "nat \<Rightarrow> nat \<Rightarrow> int \<Rightarrow> int result" where
  "total_seconds pnum pden ticks = duration_cast pnum pden 1 1 ticks"

definition timer_do_wait :: "nat \<Rightarrow> nat \<Rightarrow> int \<Rightarrow> u32 result" where
  "timer_do_wait pnum pden timeout =
     and_then (total_seconds pnum pden timeout) (\<lambda>sec.
     and_then (total_microseconds pnum pden timeout) (\<lambda>usec.
       sleep_msec (to_long sec) (to_long (usec smod 1000000))))"

text \<open>
  \<open>clocks\<close> is what the clock says each time it is read. The result is whether the wait has
  ended by the last reading, and the sleeps. \<^verbatim>\<open>select\<close> clears the error each time, so the
  loop ends by the clock alone.
\<close>

fun timer_wait :: "nat \<Rightarrow> nat \<Rightarrow> int \<Rightarrow> int list \<Rightarrow> (bool \<times> u32 list) result" where
  "timer_wait pnum pden expires [] = Inr (False, [])"
| "timer_wait pnum pden expires (now # clocks) =
     (if now < expires
      then and_then (time_subtract expires now) (\<lambda>left.
           and_then (timer_do_wait pnum pden left) (\<lambda>slept.
           and_then (timer_wait pnum pden expires clocks) (\<lambda>(ended, sleeps).
             Inr (ended, slept # sleeps))))
      else Inr (True, []))"

section \<open>The waits of a timer and its expiry time\<close>

abbreviation tqueue :: "nat \<Rightarrow> ('t, 'k, 'op) timer_service \<Rightarrow> ('t, 'k, 'op) timer_queue" where
  "tqueue i d \<equiv> timer_queues (tsched d) ! i"

abbreviation waits :: "nat \<Rightarrow> ('t, 'k, 'op) timer_service \<Rightarrow> 'k \<Rightarrow> 'op list" where
  "waits i d k \<equiv> top_queue (tqueue i d) k"

text \<open>
  The queue \<open>q\<close>, the members \<open>f\<close> of the timers, of which those in \<open>A\<close> exist: the heap has an
  entry exactly for the timers with waits that ever expire, at their expiry time.
\<close>

definition queue_inv ::
  "('t::linorder \<Rightarrow> bool) \<Rightarrow> ('t, 'k, 'op) timer_queue \<Rightarrow> ('k \<Rightarrow> 't timer_impl) \<Rightarrow> 'k set \<Rightarrow> bool" where
  "queue_inv pos_inf q f A \<longleftrightarrow> (\<exists>L. tq_ok q L) \<and>
     (\<forall>k. top_queue q k \<noteq> [] \<longrightarrow> k \<in> A \<and> might_have_pending_waits (f k)) \<and>
     (\<forall>t k. (t, k) \<in> set (theap q) \<longleftrightarrow>
       top_queue q k \<noteq> [] \<and> \<not> pos_inf (expiry (f k)) \<and> t = expiry (f k))"

lemma queue_invI:
  assumes "tq_ok q L"
    and "\<And>k. top_queue q k \<noteq> [] \<Longrightarrow> k \<in> A" "\<And>k. top_queue q k \<noteq> [] \<Longrightarrow> might_have_pending_waits (f k)"
    and "\<And>t k. (t, k) \<in> set (theap q) \<longleftrightarrow> top_queue q k \<noteq> [] \<and> \<not> pos_inf (expiry (f k)) \<and> t = expiry (f k)"
  shows "queue_inv pos_inf q f A"
  using assms unfolding queue_inv_def by blast

lemma queue_invD:
  assumes "queue_inv pos_inf q f A"
  shows "top_queue q k \<noteq> [] \<Longrightarrow> k \<in> A" "top_queue q k \<noteq> [] \<Longrightarrow> might_have_pending_waits (f k)"
    and "(t, k) \<in> set (theap q) \<longleftrightarrow> top_queue q k \<noteq> [] \<and> \<not> pos_inf (expiry (f k)) \<and> t = expiry (f k)"
  using assms by (auto simp: queue_inv_def)

definition service_inv ::
  "('t::linorder \<Rightarrow> bool) \<Rightarrow> nat \<Rightarrow> ('t, 'k, 'op) timer_service \<Rightarrow> 'k set \<Rightarrow> bool" where
  "service_inv pos_inf i d A \<longleftrightarrow> i < length (timer_queues (tsched d)) \<and> \<not> shut_down (tsched d) \<and>
     queue_inv pos_inf (tqueue i d) (timpl d) A \<and> (\<forall>k. length (waits i d k) \<le> SIZE_MAX)"

lemma service_invI:
  "i < length (timer_queues (tsched d)) \<Longrightarrow> \<not> shut_down (tsched d) \<Longrightarrow>
    queue_inv pos_inf (tqueue i d) (timpl d) A \<Longrightarrow> (\<And>k. length (waits i d k) \<le> SIZE_MAX) \<Longrightarrow>
    service_inv pos_inf i d A"
  by (simp add: service_inv_def)

lemma service_invD:
  assumes "service_inv pos_inf i d A"
  shows "i < length (timer_queues (tsched d))" "\<not> shut_down (tsched d)"
    "queue_inv pos_inf (tqueue i d) (timpl d) A" "length (waits i d k) \<le> SIZE_MAX"
  using assms by (simp_all add: service_inv_def)

lemma timer_members [simp]:
  "tsched (set_expiry k t d) = tsched d" "tsched (set_pending k b d) = tsched d"
  "tsched (move_members zero k other d) = tsched d"
  "timpl (set_expiry k t d) = (timpl d)(k := (timpl d k)\<lparr>expiry := t\<rparr>)"
  "timpl (set_pending k b d) = (timpl d)(k := (timpl d k)\<lparr>might_have_pending_waits := b\<rparr>)"
  by (simp_all add: set_expiry_def set_pending_def move_members_def Let_def)

lemma timpl_move_members:
  "k \<noteq> other \<Longrightarrow> timpl (move_members zero k other d) =
    (timpl d)(k := (timpl d k)\<lparr>expiry := expiry (timpl d other),
        might_have_pending_waits := might_have_pending_waits (timpl d other)\<rparr>,
      other := (timpl d other)\<lparr>expiry := zero, might_have_pending_waits := False\<rparr>)"
  by (auto simp: move_members_def Let_def fun_eq_iff)

lemma put_aside_timers [simp]:
  "timer_queues (put_aside xs s) = timer_queues s" "shut_down (put_aside xs s) = shut_down s"
  by (simp_all add: put_aside_def)

lemma post_completions_timers [simp]:
  "timer_queues (post_deferred_completions ok xs s) = timer_queues s"
  "shut_down (post_deferred_completions ok xs s) = shut_down s"
  by (induction xs arbitrary: s) (simp_all add: Let_def set_ready_def)

lemma post_immediate_timers [simp]:
  "timer_queues (post_immediate_completion ok x s) = timer_queues s"
  "shut_down (post_immediate_completion ok x s) = shut_down s"
  by (simp_all add: post_immediate_completion_def post_deferred_completion_def post_or_aside_def
      set_ready_def work_started_def)

lemma queue_inv_members:
  assumes "queue_inv pos_inf q f A" "\<And>k. top_queue q k \<noteq> [] \<Longrightarrow> f' k = f k" "A \<subseteq> B"
  shows "queue_inv pos_inf q f' B"
proof -
  from assms(1) obtain L where "tq_ok q L" by (auto simp: queue_inv_def)
  then show ?thesis using assms(2,3) queue_invD [OF assms(1)]
    by (intro queue_invI [of q L]) (auto simp del: split_paired_All)
qed

lemma queue_inv_new: "queue_inv pos_inf timer_queue_new f A"
  using tq_ok_new by (auto simp: queue_inv_def timer_queue_new_def)

lemma queue_inv_cancel:
  assumes q: "queue_inv pos_inf q f A"
  shows "\<exists>q'. cancel_timer m k q ops = Inr (min m (length (top_queue q k)), q', ops @ take m (top_queue q k)) \<and>
    queue_inv pos_inf q' f A \<and> top_queue q' = (top_queue q)(k := drop m (top_queue q k)) \<and>
    wait_ec q' = (\<lambda>x. if x \<in> set (take m (top_queue q k)) then Operation_aborted else wait_ec q x)"
proof -
  from q obtain L where "tq_ok q L" by (auto simp: queue_inv_def)
  from cancel_timer_ok [OF this, of m k ops] obtain q' M where
    q': "cancel_timer m k q ops = Inr (length (take m (top_queue q k)), q', ops @ take m (top_queue q k))"
      "tq_ok q' M" "top_queue q' = (top_queue q)(k := drop m (top_queue q k))"
      "wait_ec q' = (\<lambda>x. if x \<in> set (take m (top_queue q k)) then Operation_aborted else wait_ec q x)"
    and h: "mset (theap q') = (if drop m (top_queue q k) = [] then filter_mset (\<lambda>e. snd e \<noteq> k) (mset (theap q))
      else mset (theap q))" by blast
  from arg_cong [OF h, of set_mset]
  have "set (theap q') = (if drop m (top_queue q k) = [] then {e \<in> set (theap q). snd e \<noteq> k} else set (theap q))"
    by (simp split: if_splits)
  moreover have "drop m (top_queue q k) \<noteq> [] \<Longrightarrow> top_queue q k \<noteq> []" by auto
  ultimately have "queue_inv pos_inf q' f A" using queue_invD [OF q] q'(2,3)
    by (intro queue_invI [of q' M]) (auto simp del: drop_eq_Nil split: if_splits)
  with q' show ?thesis by (auto simp: min.commute)
qed

lemma queue_inv_enqueue:
  assumes q: "queue_inv pos_inf q f A" and n: "heap_size q < SIZE_MAX"
    and k: "k \<in> A" "might_have_pending_waits (f k)"
  shows "\<exists>b q'. enqueue_timer pos_inf (expiry (f k)) k x q = Inr (b, q') \<and> queue_inv pos_inf q' f A \<and>
    top_queue q' = (top_queue q)(k := top_queue q k @ [x]) \<and> wait_ec q' = wait_ec q"
proof -
  from q obtain L where L: "tq_ok q L" by (auto simp: queue_inv_def)
  then have kL: "k \<in> set L \<longleftrightarrow> top_queue q k \<noteq> []" by (auto simp: tq_ok_def)
  from enqueue_timer_ok [OF L n, of pos_inf "expiry (f k)" k x] obtain b q' M where
    q': "enqueue_timer pos_inf (expiry (f k)) k x q = Inr (b, q')" "tq_ok q' M"
      "top_queue q' = (top_queue q)(k := top_queue q k @ [x])" "wait_ec q' = wait_ec q"
    and h: "mset (theap q') = (if k \<in> set L \<or> pos_inf (expiry (f k)) then mset (theap q)
      else add_mset (expiry (f k), k) (mset (theap q)))" by blast
  from arg_cong [OF h, of set_mset]
  have "set (theap q') = (if top_queue q k \<noteq> [] \<or> pos_inf (expiry (f k)) then set (theap q)
      else insert (expiry (f k), k) (set (theap q)))" by (simp add: kL split: if_splits)
  then have "queue_inv pos_inf q' f A" using queue_invD [OF q] q'(2,3) k
    by (intro queue_invI [of q' M]) (auto split: if_splits)
  with q' show ?thesis by blast
qed

lemma queue_inv_ready:
  assumes q: "queue_inv pos_inf q f A"
  shows "\<exists>q' out. get_ready_timers now q ops = Some (Inr (q', ops @ out)) \<and> queue_inv pos_inf q' f A \<and>
    set out = {x. \<exists>k. x \<in> set (top_queue q k) \<and> expiry (f k) \<le> now \<and> \<not> pos_inf (expiry (f k))} \<and>
    top_queue q' = (\<lambda>k. if expiry (f k) \<le> now \<and> \<not> pos_inf (expiry (f k)) then [] else top_queue q k) \<and>
    wait_ec q' = wait_ec q"
proof -
  from q obtain L where L: "tq_ok q L" by (auto simp: queue_inv_def)
  note heap = queue_invD(3) [OF q]
  from ready_loop_ok [OF L, of now ops] obtain q' es M where
    r: "ready_loop now q ops = Some (Inr (q', ops @ concat (map (\<lambda>e. top_queue q (snd e)) es)))"
      "tq_ok q' M" "top_queue q' = (\<lambda>k. if k \<in> snd ` set es then [] else top_queue q k)" "wait_ec q' = wait_ec q"
    and es: "mset es = filter_mset (\<lambda>e. fst e \<le> now) (mset (theap q))"
    and h: "mset (theap q') = filter_mset (\<lambda>e. \<not> fst e \<le> now) (mset (theap q))" by blast
  have es': "set es = {e \<in> set (theap q). fst e \<le> now}" using arg_cong [OF es, of set_mset] by simp
  have h': "set (theap q') = {e \<in> set (theap q). \<not> fst e \<le> now}" using arg_cong [OF h, of set_mset] by simp
  have due: "k \<in> snd ` set es \<longleftrightarrow> top_queue q k \<noteq> [] \<and> expiry (f k) \<le> now \<and> \<not> pos_inf (expiry (f k))" for k
    using heap unfolding es' by force
  then have tops: "top_queue q' = (\<lambda>k. if expiry (f k) \<le> now \<and> \<not> pos_inf (expiry (f k)) then [] else top_queue q k)"
    unfolding r(3) by (auto simp: fun_eq_iff)
  have "queue_inv pos_inf q' f A" using queue_invD [OF q] r(2)
    by (intro queue_invI [of q' M]) (auto simp: tops h' split: if_splits)
  moreover have "set (concat (map (\<lambda>e. top_queue q (snd e)) es)) = (\<Union>k \<in> snd ` set es. set (top_queue q k))" by simp
  then have "set (concat (map (\<lambda>e. top_queue q (snd e)) es)) =
      {x. \<exists>k. x \<in> set (top_queue q k) \<and> expiry (f k) \<le> now \<and> \<not> pos_inf (expiry (f k))}"
    unfolding set_eq_iff UN_iff mem_Collect_eq using due by (metis empty_iff empty_set)
  ultimately show ?thesis using r(1,4) tops unfolding get_ready_timers_def by blast
qed

lemma queue_inv_move:
  assumes q: "queue_inv pos_inf q f A" and k: "top_queue q k = []" "k \<noteq> other" "k \<in> A"
    and f': "expiry (f' k) = expiry (f other)"
      "might_have_pending_waits (f' k) = might_have_pending_waits (f other)"
      "\<And>x. x \<noteq> k \<Longrightarrow> x \<noteq> other \<Longrightarrow> f' x = f x"
  shows "queue_inv pos_inf (move_timer k other q) f' A \<and>
    top_queue (move_timer k other q) = (top_queue q)(k := top_queue q other, other := []) \<and>
    wait_ec (move_timer k other q) = wait_ec q"
proof -
  from q obtain L where L: "tq_ok q L" by (auto simp: queue_inv_def)
  note heap = queue_invD(3) [OF q]
  have "k \<notin> set L" using L k(1) by (auto simp: tq_ok_def)
  from move_timer_ok [OF L this k(2)] obtain M where m: "tq_ok (move_timer k other q) M"
    "theap (move_timer k other q) = map (\<lambda>e. (fst e, rename k other (snd e))) (theap q)"
    "top_queue (move_timer k other q) = (top_queue q)(k := top_queue q other, other := [])"
    "wait_ec (move_timer k other q) = wait_ec q" by blast
  have "(t, x) \<in> set (theap (move_timer k other q)) \<longleftrightarrow>
      (\<exists>y. (t, y) \<in> set (theap q) \<and> x = rename k other y)" for t x
    unfolding m(2) by force
  then have "(t, x) \<in> set (theap (move_timer k other q)) \<longleftrightarrow>
      top_queue (move_timer k other q) x \<noteq> [] \<and> \<not> pos_inf (expiry (f' x)) \<and> t = expiry (f' x)" for t x
    unfolding heap m(3) rename_def using k f' by (cases "x = k"; cases "x = other") auto
  then have "queue_inv pos_inf (move_timer k other q) f' A"
    using queue_invD(1,2) [OF q] k f' m(1,3) by (intro queue_invI [of _ M]) (auto split: if_splits)
  with m show ?thesis by blast
qed

text \<open>The operations of the service, on a timer \<open>k\<close>.\<close>

lemma service_inv_members:
  assumes d: "service_inv pos_inf i d A" and s: "tsched d' = tsched d"
    and f: "\<And>k. waits i d k \<noteq> [] \<Longrightarrow> timpl d' k = timpl d k" and AB: "A \<subseteq> B"
  shows "service_inv pos_inf i d' B"
  using service_invD [OF d] queue_inv_members [OF service_invD(3) [OF d] f AB]
  by (intro service_invI) (simp_all add: s)

lemma cancel_in_loop_ok:
  assumes d: "service_inv pos_inf i d A"
  shows "\<exists>d'. cancel_in_loop ok i k m d = Inr (min m (length (waits i d k)), d') \<and> service_inv pos_inf i d' A \<and>
    timpl d' = timpl d \<and> (\<forall>x. waits i d' x = (if x = k then drop m (waits i d k) else waits i d x)) \<and>
    wait_ec (tqueue i d') = (\<lambda>x. if x \<in> set (take m (waits i d k)) then Operation_aborted else wait_ec (tqueue i d) x)"
proof -
  note dD = service_invD [OF d]
  from queue_inv_cancel [OF dD(3), of m k "[]"] obtain q' where
    q': "cancel_timer m k (tqueue i d) [] = Inr (min m (length (waits i d k)), q', take m (waits i d k))"
      "queue_inv pos_inf q' (timpl d) A" "top_queue q' = (top_queue (tqueue i d))(k := drop m (waits i d k))"
      "wait_ec q' = (\<lambda>x. if x \<in> set (take m (waits i d k)) then Operation_aborted else wait_ec (tqueue i d) x)"
    by auto
  let ?s = "post_deferred_completions ok (take m (waits i d k)) ((tsched d)\<lparr>timer_queues := (timer_queues (tsched d))[i := q']\<rparr>)"
  have "cancel_in_loop ok i k m d = Inr (min m (length (waits i d k)), d\<lparr>tsched := ?s\<rparr>)"
    using dD(2) q'(1) by (simp add: cancel_in_loop_def iocp_cancel_timer_def)
  moreover have "service_inv pos_inf i (d\<lparr>tsched := ?s\<rparr>) A"
    using dD q'(2,3) by (intro service_invI) (auto intro: order_trans [OF diff_le_self])
  ultimately show ?thesis using dD(1) q'(3,4) by (intro exI [of _ "d\<lparr>tsched := ?s\<rparr>"]) auto
qed

lemma timer_cancel_ok:
  assumes d: "service_inv pos_inf i d A"
  shows "\<exists>d'. timer_cancel ok i k d = Inr (length (waits i d k), d') \<and> service_inv pos_inf i d' A \<and>
    (\<forall>x. expiry (timpl d' x) = expiry (timpl d x)) \<and> (\<forall>x. x \<noteq> k \<longrightarrow> timpl d' x = timpl d x) \<and>
    \<not> might_have_pending_waits (timpl d' k) \<and>
    (\<forall>x. waits i d' x = (if x = k then [] else waits i d x)) \<and>
    wait_ec (tqueue i d') = (\<lambda>x. if x \<in> set (waits i d k) then Operation_aborted else wait_ec (tqueue i d) x)"
proof (cases "might_have_pending_waits (timpl d k)")
  case False
  then have "waits i d k = []" using queue_invD(2) [OF service_invD(3) [OF d], of k] by blast
  with False d show ?thesis by (simp add: timer_cancel_def)
next
  case True
  from cancel_in_loop_ok [OF d, of ok k SIZE_MAX] obtain d' where
    d': "cancel_in_loop ok i k SIZE_MAX d = Inr (min SIZE_MAX (length (waits i d k)), d')" "service_inv pos_inf i d' A"
      "timpl d' = timpl d" "\<forall>x. waits i d' x = (if x = k then drop SIZE_MAX (waits i d k) else waits i d x)"
      "wait_ec (tqueue i d') = (\<lambda>x. if x \<in> set (take SIZE_MAX (waits i d k)) then Operation_aborted else wait_ec (tqueue i d) x)"
    by blast
  have len: "length (waits i d k) \<le> SIZE_MAX" using service_invD(4) [OF d] .
  then have "service_inv pos_inf i (set_pending k False d') A"
    using d'(4) by (intro service_inv_members [OF d'(2)]) (auto split: if_splits)
  with True d' len show ?thesis by (simp add: timer_cancel_def min.absorb2)
qed

lemma timer_cancel_one_ok:
  assumes d: "service_inv pos_inf i d A"
  shows "\<exists>d'. timer_cancel_one ok i k d = Inr (min 1 (length (waits i d k)), d') \<and> service_inv pos_inf i d' A \<and>
    (\<forall>x. expiry (timpl d' x) = expiry (timpl d x)) \<and>
    (\<forall>x. waits i d' x = (if x = k then drop 1 (waits i d k) else waits i d x)) \<and>
    wait_ec (tqueue i d') = (\<lambda>x. if x \<in> set (take 1 (waits i d k)) then Operation_aborted else wait_ec (tqueue i d) x)"
proof (cases "might_have_pending_waits (timpl d k)")
  case False
  then have "waits i d k = []" using queue_invD(2) [OF service_invD(3) [OF d], of k] by blast
  with False d show ?thesis by (simp add: timer_cancel_one_def)
next
  case True
  from cancel_in_loop_ok [OF d, of ok k 1] obtain d' where
    d': "cancel_in_loop ok i k 1 d = Inr (min 1 (length (waits i d k)), d')" "service_inv pos_inf i d' A"
      "timpl d' = timpl d" "\<forall>x. waits i d' x = (if x = k then drop 1 (waits i d k) else waits i d x)"
      "wait_ec (tqueue i d') = (\<lambda>x. if x \<in> set (take 1 (waits i d k)) then Operation_aborted else wait_ec (tqueue i d) x)"
    by blast
  have "service_inv pos_inf i (set_pending k False d') A" if "waits i d k = []"
    using d'(4) that by (intro service_inv_members [OF d'(2)]) (auto split: if_splits)
  moreover have "min 1 (length (waits i d k)) = 0 \<longleftrightarrow> waits i d k = []" by (cases "waits i d k") auto
  ultimately show ?thesis using True d' by (auto simp: timer_cancel_one_def simp del: One_nat_def)
qed

lemma timer_expires_at_ok:
  assumes d: "service_inv pos_inf i d A"
  shows "\<exists>d'. timer_expires_at ok i k t d = Inr (length (waits i d k), d') \<and> service_inv pos_inf i d' A \<and>
    (\<forall>x. expiry (timpl d' x) = (if x = k then t else expiry (timpl d x))) \<and>
    (\<forall>x. waits i d' x = (if x = k then [] else waits i d x)) \<and>
    wait_ec (tqueue i d') = (\<lambda>x. if x \<in> set (waits i d k) then Operation_aborted else wait_ec (tqueue i d) x)"
proof -
  from timer_cancel_ok [OF d, of ok k] obtain d' where
    d': "timer_cancel ok i k d = Inr (length (waits i d k), d')" "service_inv pos_inf i d' A"
      "\<forall>x. expiry (timpl d' x) = expiry (timpl d x)" "\<forall>x. waits i d' x = (if x = k then [] else waits i d x)"
      "wait_ec (tqueue i d') = (\<lambda>x. if x \<in> set (waits i d k) then Operation_aborted else wait_ec (tqueue i d) x)"
    by blast
  have "service_inv pos_inf i (set_expiry k t d') A"
    using d'(4) by (intro service_inv_members [OF d'(2)]) (auto split: if_splits)
  with d' show ?thesis by (simp add: timer_expires_at_def)
qed

lemma timer_async_wait_ok:
  assumes d: "service_inv pos_inf i d A" and k: "k \<in> A"
    and n: "heap_size (tqueue i d) < SIZE_MAX" "length (waits i d k) < SIZE_MAX"
  shows "\<exists>b d'. timer_async_wait pos_inf ok i k x d = Inr (b, d') \<and> service_inv pos_inf i d' A \<and>
    (\<forall>y. expiry (timpl d' y) = expiry (timpl d y)) \<and>
    (\<forall>y. waits i d' y = (if y = k then waits i d k @ [x] else waits i d y)) \<and>
    wait_ec (tqueue i d') = wait_ec (tqueue i d)"
proof -
  note dD = service_invD [OF d]
  let ?d = "set_pending k True d"
  have q: "queue_inv pos_inf (tqueue i d) (timpl ?d) A"
    using queue_invD(2) [OF dD(3)] by (intro queue_inv_members [OF dD(3)]) auto
  from queue_inv_enqueue [OF q n(1) k, of x] obtain b q' where
    q': "enqueue_timer pos_inf (expiry (timpl ?d k)) k x (tqueue i d) = Inr (b, q')"
      "queue_inv pos_inf q' (timpl ?d) A" "top_queue q' = (top_queue (tqueue i d))(k := waits i d k @ [x])"
      "wait_ec q' = wait_ec (tqueue i d)" by auto
  let ?s = "work_started ((tsched d)\<lparr>timer_queues := (timer_queues (tsched d))[i := q']\<rparr>)"
  have "timer_async_wait pos_inf ok i k x d = Inr (b, ?d\<lparr>tsched := ?s\<rparr>)"
    using dD(2) q'(1) by (simp add: timer_async_wait_def schedule_timer_def Let_def)
  moreover have "service_inv pos_inf i (?d\<lparr>tsched := ?s\<rparr>) A"
    using dD q'(2,3) n(2) by (intro service_invI) (auto simp: work_started_def)
  ultimately show ?thesis using dD(1) q'(3,4)
    by (intro exI [of _ b] exI [of _ "?d\<lparr>tsched := ?s\<rparr>"]) (auto simp: work_started_def)
qed

text \<open>Both moves within a service, onto a timer \<open>k\<close> that exists or is being made.\<close>

lemma timer_move_ok:
  assumes d: "service_inv pos_inf i d A" and k: "k \<in> A" "k \<noteq> other"
  shows "\<exists>d'. timer_move_assign zero ok i k other d = Inr d' \<and>
    timer_move_construct zero ok i k other d = Inr d' \<and> service_inv pos_inf i d' A \<and>
    (\<forall>x. expiry (timpl d' x) =
      (if x = k then expiry (timpl d other) else if x = other then zero else expiry (timpl d x))) \<and>
    (\<forall>x. waits i d' x = (if x = k then waits i d other else if x = other then [] else waits i d x)) \<and>
    wait_ec (tqueue i d') = (\<lambda>x. if x \<in> set (waits i d k) then Operation_aborted else wait_ec (tqueue i d) x)"
proof -
  note dD = service_invD [OF d]
  let ?f = "timpl (move_members zero k other d)"
  have len: "length (waits i d x) \<le> SIZE_MAX" for x using dD(4) .
  from queue_inv_cancel [OF dD(3), of SIZE_MAX k "[]"] obtain q' where
    q': "cancel_timer SIZE_MAX k (tqueue i d) [] = Inr (length (waits i d k), q', waits i d k)"
      "queue_inv pos_inf q' (timpl d) A" "top_queue q' = (top_queue (tqueue i d))(k := [])"
      "wait_ec q' = (\<lambda>x. if x \<in> set (waits i d k) then Operation_aborted else wait_ec (tqueue i d) x)"
    using len [of k] by (auto simp: min.absorb2)
  have m: "queue_inv pos_inf (move_timer k other q') ?f A"
    "top_queue (move_timer k other q') = (top_queue q')(k := top_queue q' other, other := [])"
    "wait_ec (move_timer k other q') = wait_ec q'"
    using queue_inv_move [OF q'(2), of k other ?f] q'(3) k by (simp_all add: timpl_move_members)
  let ?s = "post_deferred_completions ok (waits i d k)
    ((tsched d)\<lparr>timer_queues := (timer_queues (tsched d))[i := move_timer k other q']\<rparr>)"
  let ?d = "move_members zero k other (d\<lparr>tsched := ?s\<rparr>)"
  have f: "timpl ?d = ?f" using k(2) by (simp add: timpl_move_members)
  have run: "timer_move_assign zero ok i k other d = Inr ?d" "timer_move_construct zero ok i k other d = Inr ?d"
    using q'(1) by (simp_all add: timer_move_assign_def timer_move_construct_def iocp_move_timer_def)
  have "tqueue i ?d = move_timer k other q'" using dD(1) by simp
  moreover from this have "service_inv pos_inf i ?d A"
    using dD(1,2) m(1,2) q'(3) k(2) len by (intro service_invI) (simp_all only: f, simp_all)
  ultimately show ?thesis using run m(2,3) q'(3,4) k(2)
    by (intro exI [of _ ?d]) (simp add: f timpl_move_members)
qed

lemma ready_timers_nth:
  "ready_timers now tqs ops = Some (tqs', ops') \<Longrightarrow> length tqs' = length tqs \<and>
    (\<forall>i < length tqs. \<exists>o1 o2. get_ready_timers now (tqs ! i) o1 = Some (Inr (tqs' ! i, o2)))"
proof (induction tqs arbitrary: ops tqs' ops')
  case (Cons q tqs)
  from Cons.prems obtain q' o1 tqs1 o2 where
    q: "get_ready_timers now q ops = Some (Inr (q', o1))" "ready_timers now tqs o1 = Some (tqs1, o2)" "tqs' = q' # tqs1"
    by (auto split: option.splits sum.splits)
  show ?case using Cons.IH [OF q(2)] q(1,3) by (auto simp: nth_Cons split: nat.splits)
qed simp

lemma dispatch_ok:
  assumes d: "service_inv pos_inf i d A" and s: "dispatch ok now (tsched d) = Some s"
  shows "service_inv pos_inf i (d\<lparr>tsched := s\<rparr>) A"
proof (cases "dispatch_required (tsched d)")
  case False
  with s have "s = tsched d" by (simp add: dispatch_def)
  with service_inv_members [OF d, of "d\<lparr>tsched := s\<rparr>" A] show ?thesis by simp
next
  case True
  note dD = service_invD [OF d]
  from True s obtain tqs ops where
    r: "ready_timers now (timer_queues (tsched d)) (completed_ops (tsched d)) = Some (tqs, ops)"
    and sh: "timer_queues s = tqs" "shut_down s = shut_down (tsched d)"
    by (auto simp: dispatch_def Let_def split: option.splits)
  from ready_timers_nth [OF r] dD(1) obtain o1 o2 where
    l: "length tqs = length (timer_queues (tsched d))" and g: "get_ready_timers now (tqueue i d) o1 = Some (Inr (tqs ! i, o2))"
    by blast
  from queue_inv_ready [OF dD(3), of now o1] g have "queue_inv pos_inf (tqs ! i) (timpl d) A"
    "top_queue (tqs ! i) = (\<lambda>k. if expiry (timpl d k) \<le> now \<and> \<not> pos_inf (expiry (timpl d k)) then [] else waits i d k)"
    by auto
  then show ?thesis using dD l sh by (intro service_invI) auto
qed

section \<open>What the program can do with its timers\<close>

text \<open>
  \<open>A\<close> are the timers that exist. Besides the operations: the loop dispatches what is due,
  does anything that leaves the timers alone, and gets the queue of another service. The
  counts are far below \<^verbatim>\<open>SIZE_MAX\<close>, and the loop has not been shut down.
\<close>

inductive timers_reach ::
  "('t::linorder \<Rightarrow> bool) \<Rightarrow> 't \<Rightarrow> nat \<Rightarrow> ('t, 'k, 'op) timer_service \<Rightarrow> 'k set \<Rightarrow> bool"
  for pos_inf :: "'t \<Rightarrow> bool" and zero :: 't where
  reach_service: "\<not> shut_down (tsched d) \<Longrightarrow> timers_reach pos_inf zero 0 (timer_service_new d) {}"
| reach_construct: "timers_reach pos_inf zero i d A \<Longrightarrow> k \<notin> A \<Longrightarrow>
    timers_reach pos_inf zero i (timer_construct zero k d) (insert k A)"
| reach_destroy: "timers_reach pos_inf zero i d A \<Longrightarrow> timer_destroy ok i k d = Inr d' \<Longrightarrow>
    timers_reach pos_inf zero i d' (A - {k})"
| reach_cancel_all: "timers_reach pos_inf zero i d A \<Longrightarrow> timer_cancel ok i k d = Inr (n, d') \<Longrightarrow>
    timers_reach pos_inf zero i d' A"
| reach_cancel_one: "timers_reach pos_inf zero i d A \<Longrightarrow> timer_cancel_one ok i k d = Inr (n, d') \<Longrightarrow>
    timers_reach pos_inf zero i d' A"
| reach_expires_at: "timers_reach pos_inf zero i d A \<Longrightarrow> timer_expires_at ok i k t d = Inr (n, d') \<Longrightarrow>
    timers_reach pos_inf zero i d' A"
| reach_async_wait: "timers_reach pos_inf zero i d A \<Longrightarrow> k \<in> A \<Longrightarrow>
    heap_size (tqueue i d) < SIZE_MAX \<Longrightarrow> length (waits i d k) < SIZE_MAX \<Longrightarrow>
    timer_async_wait pos_inf okx i k x d = Inr (b, d') \<Longrightarrow> timers_reach pos_inf zero i d' A"
| reach_move_construct: "timers_reach pos_inf zero i d A \<Longrightarrow> k \<notin> A \<Longrightarrow> other \<in> A \<Longrightarrow>
    timer_move_construct zero ok i k other d = Inr d' \<Longrightarrow> timers_reach pos_inf zero i d' (insert k A)"
| reach_move_assign: "timers_reach pos_inf zero i d A \<Longrightarrow> k \<in> A \<Longrightarrow> other \<in> A \<Longrightarrow> k \<noteq> other \<Longrightarrow>
    timer_move_assign zero ok i k other d = Inr d' \<Longrightarrow> timers_reach pos_inf zero i d' A"
| reach_dispatch: "timers_reach pos_inf zero i d A \<Longrightarrow> dispatch ok now (tsched d) = Some s \<Longrightarrow>
    timers_reach pos_inf zero i (d\<lparr>tsched := s\<rparr>) A"
| reach_loop: "timers_reach pos_inf zero i d A \<Longrightarrow> timer_queues s = timer_queues (tsched d) \<Longrightarrow>
    shut_down s = shut_down (tsched d) \<Longrightarrow> timers_reach pos_inf zero i (d\<lparr>tsched := s\<rparr>) A"
| reach_other_service: "timers_reach pos_inf zero i d A \<Longrightarrow>
    timers_reach pos_inf zero (Suc i) (d\<lparr>tsched := add_timer_queue q (tsched d)\<rparr>) A"

lemma no_waits: "service_inv pos_inf i d A \<Longrightarrow> k \<notin> A \<Longrightarrow> waits i d k = []"
  using queue_invD(1) service_invD(3) by metis

lemma service_inv_fewer:
  assumes "service_inv pos_inf i d A" "waits i d k = []"
  shows "service_inv pos_inf i d (A - {k})"
  using assms by (auto simp: service_inv_def queue_inv_def)

lemma timers_reach_inv: "timers_reach pos_inf zero i d A \<Longrightarrow> service_inv pos_inf i d A"
proof (induction rule: timers_reach.induct)
  case (reach_service d)
  then show ?case using queue_inv_new [of pos_inf "timpl d" "{}"]
    by (intro service_invI) (simp_all add: timer_service_new_def add_timer_queue_def timer_queue_new_def)
next
  case (reach_construct i d A k)
  have "waits i d k = []" by (rule no_waits [OF reach_construct.IH reach_construct.hyps(2)])
  then show ?case
    by (intro service_inv_members [OF reach_construct.IH]) (auto simp: timer_construct_def)
next
  case (reach_destroy i d A ok k d')
  from timer_cancel_ok [OF reach_destroy.IH, of ok k] reach_destroy.hyps(2)
  have "service_inv pos_inf i d' A" "waits i d' k = []" by (auto simp: timer_destroy_def)
  then show ?case by (rule service_inv_fewer)
next
  case (reach_cancel_all i d A ok k n d')
  from timer_cancel_ok [OF reach_cancel_all.IH, of ok k] reach_cancel_all.hyps(2) show ?case by auto
next
  case (reach_cancel_one i d A ok k n d')
  from timer_cancel_one_ok [OF reach_cancel_one.IH, of ok k] reach_cancel_one.hyps(2) show ?case by auto
next
  case (reach_expires_at i d A ok k t n d')
  from timer_expires_at_ok [OF reach_expires_at.IH, of ok k t] reach_expires_at.hyps(2) show ?case by auto
next
  case (reach_async_wait i d A k okx x b d')
  from timer_async_wait_ok [OF reach_async_wait.IH reach_async_wait.hyps(2-4), of okx x] reach_async_wait.hyps(5)
  show ?case by auto
next
  case (reach_move_construct i d A k other ok d')
  have "service_inv pos_inf i d (insert k A)"
    using reach_move_construct.IH by (rule service_inv_members) auto
  from timer_move_ok [OF this, of k other zero ok] reach_move_construct.hyps(2-4) show ?case by auto
next
  case (reach_move_assign i d A k other ok d')
  from timer_move_ok [OF reach_move_assign.IH reach_move_assign.hyps(2,4), of zero ok] reach_move_assign.hyps(5)
  show ?case by auto
next
  case (reach_dispatch i d A ok now s)
  show ?case by (rule dispatch_ok [OF reach_dispatch.IH reach_dispatch.hyps(2)])
next
  case (reach_loop i d A s)
  then show ?case by (simp add: service_inv_def)
next
  case (reach_other_service i d A q)
  then show ?case by (simp add: service_inv_def add_timer_queue_def)
qed

text \<open>
  C21. A wait is due exactly at the expiry time of its timer, whatever has been done with the
  timers of the service: taking what is due at a time \<open>now\<close> returns, and makes ready the waits
  of exactly the timers whose expiry time has come (a timer that never expires excepted),
  with all of their waits, and leaves the waits of the others; only timers that exist have
  waits, and a timer with waits has its flag set, so that \<^verbatim>\<open>cancel\<close> never skips one.
\<close>

theorem timer_fires_at_expiry:
  assumes "timers_reach pos_inf zero i d A"
  shows "(\<exists>q' out. get_ready_timers now (tqueue i d) [] = Some (Inr (q', out)) \<and>
      (\<forall>x. x \<in> set out \<longleftrightarrow> (\<exists>k. x \<in> set (waits i d k) \<and> expiry (timpl d k) \<le> now \<and> \<not> pos_inf (expiry (timpl d k)))) \<and>
      (\<forall>k. top_queue q' k = (if expiry (timpl d k) \<le> now \<and> \<not> pos_inf (expiry (timpl d k)) then [] else waits i d k))) \<and>
    (waits i d k \<noteq> [] \<longrightarrow> k \<in> A \<and> might_have_pending_waits (timpl d k))"
proof -
  note inv = service_invD(3) [OF timers_reach_inv [OF assms]]
  from queue_inv_ready [OF inv, of now "[]"] obtain q' out where
    "get_ready_timers now (tqueue i d) [] = Some (Inr (q', out))"
    "set out = {x. \<exists>k. x \<in> set (waits i d k) \<and> expiry (timpl d k) \<le> now \<and> \<not> pos_inf (expiry (timpl d k))}"
    "top_queue q' = (\<lambda>k. if expiry (timpl d k) \<le> now \<and> \<not> pos_inf (expiry (timpl d k)) then [] else waits i d k)"
    by auto
  then show ?thesis using queue_invD(1,2) [OF inv] by (intro conjI exI [of _ q'] exI [of _ out]) auto
qed

text \<open>
  C22. Setting the expiry time cancels the waits that are pending, marks exactly these as
  aborted and returns how many they are; other timers keep their waits and their time. Moving
  a timer onto another does the same to the waits of the target and gives it the waits and
  the time of the source, which is left with none; \<^verbatim>\<open>cancel_one\<close> takes the first wait. None
  of them faults.
\<close>

theorem timer_rearm_exact:
  assumes "timers_reach pos_inf zero i d A"
  shows "(\<exists>d'. timer_expires_at ok i k t d = Inr (length (waits i d k), d') \<and>
      (\<forall>x. expiry (timpl d' x) = (if x = k then t else expiry (timpl d x))) \<and>
      (\<forall>x. waits i d' x = (if x = k then [] else waits i d x)) \<and>
      wait_ec (tqueue i d') = (\<lambda>x. if x \<in> set (waits i d k) then Operation_aborted else wait_ec (tqueue i d) x)) \<and>
    (\<exists>d'. timer_cancel_one ok i k d = Inr (min 1 (length (waits i d k)), d') \<and>
      (\<forall>x. waits i d' x = (if x = k then drop 1 (waits i d k) else waits i d x))) \<and>
    (k \<in> A \<and> k \<noteq> other \<longrightarrow> (\<exists>d'. timer_move_assign zero ok i k other d = Inr d' \<and>
      (\<forall>x. expiry (timpl d' x) =
        (if x = k then expiry (timpl d other) else if x = other then zero else expiry (timpl d x))) \<and>
      (\<forall>x. waits i d' x = (if x = k then waits i d other else if x = other then [] else waits i d x)) \<and>
      wait_ec (tqueue i d') = (\<lambda>x. if x \<in> set (waits i d k) then Operation_aborted else wait_ec (tqueue i d) x)))"
proof -
  note inv = timers_reach_inv [OF assms]
  show ?thesis
    by (intro conjI impI; (elim conjE)?)
      (use timer_expires_at_ok [OF inv, of ok k t] timer_cancel_one_ok [OF inv, of ok k]
         timer_move_ok [OF inv, of k other zero ok] in blast)+
qed

text \<open>
  The timers of the witnesses: timer 0 waits for the time 5 with operation 10.
\<close>

definition demo_service :: "(nat, nat, nat) timer_service" where
  "demo_service = timer_construct 0 0 (timer_service_new
     \<lparr>tsched = new_iocp, timpl = \<lambda>_. \<lparr>expiry = 0, might_have_pending_waits = False\<rparr>\<rparr>)"

definition demo_wait :: "(nat, nat, nat) timer_service" where
  "demo_wait = (case timer_expires_at (\<lambda>_. True) 0 0 5 demo_service of Inr (_, d) \<Rightarrow>
     (case timer_async_wait (\<lambda>_. False) True 0 0 10 d of Inr (_, d') \<Rightarrow> d'))"

lemma demo_wait_reach:
  "timers_reach (\<lambda>_. False) 0 0 demo_wait {0} \<and> expiry (timpl demo_wait 0) = 5 \<and>
    (\<forall>x. waits 0 demo_wait x = (if x = 0 then [10] else []))"
proof -
  let ?no = "\<lambda>_. False"
  have r: "timers_reach ?no 0 0 demo_service {0}"
    unfolding demo_service_def by (intro reach_construct reach_service) (simp_all add: new_iocp_def)
  have w: "waits 0 demo_service x = []" and h: "theap (tqueue 0 demo_service) = []" for x
    by (simp_all add: demo_service_def timer_construct_def timer_service_new_def add_timer_queue_def timer_queue_new_def)
  from timer_expires_at_ok [OF timers_reach_inv [OF r], of "\<lambda>_. True" 0 5] w obtain d where
    d: "timer_expires_at (\<lambda>_. True) 0 0 5 demo_service = Inr (0, d)" "expiry (timpl d 0) = 5" "\<forall>x. waits 0 d x = []"
    by auto
  have rd: "timers_reach ?no 0 0 d {0}" by (rule reach_expires_at [OF r d(1)])
  have "theap (tqueue 0 d) = []"
    using queue_invD(3) [OF service_invD(3) [OF timers_reach_inv [OF rd]]] d(3)
    by (cases "theap (tqueue 0 d)") force+
  then have n: "heap_size (tqueue 0 d) < SIZE_MAX" "length (waits 0 d 0) < SIZE_MAX"
    using d(3) by (simp_all add: SIZE_MAX_def)
  from timer_async_wait_ok [OF timers_reach_inv [OF rd] _ n, of True 10] obtain b d' where
    d': "timer_async_wait ?no True 0 0 10 d = Inr (b, d')" "\<forall>y. expiry (timpl d' y) = expiry (timpl d y)"
      "\<forall>y. waits 0 d' y = (if y = 0 then waits 0 d 0 @ [10] else waits 0 d y)" by auto
  have "timers_reach ?no 0 0 d' {0}" by (rule reach_async_wait [OF rd _ n d'(1)]) simp
  moreover have "demo_wait = d'" using d(1) d'(1) by (simp add: demo_wait_def)
  ultimately show ?thesis using d d' by simp
qed

lemma timer_fires_at_expiry_witness:
  "(\<exists>q' out. get_ready_timers 5 (tqueue 0 demo_wait) [] = Some (Inr (q', out)) \<and> set out = {10}) \<and>
   (\<exists>q'. get_ready_timers 4 (tqueue 0 demo_wait) [] = Some (Inr (q', [])))"
proof -
  have w: "x \<in> set (waits 0 demo_wait k) \<longleftrightarrow> k = 0 \<and> x = 10" and e: "expiry (timpl demo_wait 0) = 5" for x k
    using demo_wait_reach by auto
  have due: "(\<exists>k. x \<in> set (waits 0 demo_wait k) \<and> expiry (timpl demo_wait k) \<le> now \<and> \<not> False) \<longleftrightarrow> x = 10 \<and> 5 \<le> now"
    for x now unfolding w using e by auto
  note fires = timer_fires_at_expiry [OF demo_wait_reach [THEN conjunct1], THEN conjunct1, unfolded due]
  from fires [of 5] obtain q out where
    f: "get_ready_timers 5 (tqueue 0 demo_wait) [] = Some (Inr (q, out))" "\<forall>x. x \<in> set out \<longleftrightarrow> x = 10 \<and> 5 \<le> (5 :: nat)"
    by blast
  from fires [of 4] obtain q' out' where
    g: "get_ready_timers 4 (tqueue 0 demo_wait) [] = Some (Inr (q', out'))" "\<forall>x. x \<in> set out' \<longleftrightarrow> x = 10 \<and> 5 \<le> (4 :: nat)"
    by blast
  from f(2) have "set out = {10}" by auto
  moreover from g(2) have "out' = []" by (cases out') auto
  ultimately show ?thesis using f(1) g(1) by blast
qed

lemma timer_rearm_exact_witness:
  "\<exists>d'. timer_expires_at (\<lambda>_. True) 0 0 9 demo_wait = Inr (1, d') \<and> expiry (timpl d' 0) = 9 \<and> waits 0 d' 0 = []"
  using timer_rearm_exact [OF demo_wait_reach [THEN conjunct1], of "\<lambda>_. True" 0 9 0] demo_wait_reach by auto

section \<open>Assignment between the timers of two loops\<close>

text \<open>The waits of the target end in its old loop; it is then a timer of the other one.\<close>

lemma timer_move_assign_from_ok:
  assumes own: "service_inv pos_inf i (d\<lparr>tsched := s\<rparr>) B" and d: "service_inv pos_inf j d A"
    and k: "k \<in> B" "k \<notin> A" "other \<in> A" "other \<notin> B"
  shows "\<exists>s' d'. timer_move_assign_from zero ok i s j k other d = Inr (s', d') \<and>
    service_inv pos_inf i (d'\<lparr>tsched := s'\<rparr>) (B - {k}) \<and> service_inv pos_inf j d' (insert k A) \<and>
    waits j d' k = waits j d other \<and> expiry (timpl d' k) = expiry (timpl d other)"
proof -
  have ne: "k \<noteq> other" using k by blast
  from timer_cancel_ok [OF own, of ok k] obtain e where
    e: "timer_cancel ok i k (d\<lparr>tsched := s\<rparr>) = Inr (length (waits i (d\<lparr>tsched := s\<rparr>) k), e)" "service_inv pos_inf i e B"
      "\<forall>x. x \<noteq> k \<longrightarrow> timpl e x = timpl d x" "waits i e k = []" by auto
  have c: "(if might_have_pending_waits (timpl d k)
      then and_then (iocp_cancel_timer ok i k SIZE_MAX s) (\<lambda>(_, s1). Inr s1) else Inr s) = Inr (tsched e)"
    using e(1) by (auto simp: timer_cancel_def cancel_in_loop_def and_then_Inr_iff split: if_splits)
  have "service_inv pos_inf j d (insert k A)" using d by (rule service_inv_members) auto
  from timer_move_ok [OF this _ ne, of zero ok] obtain d' where
    d': "timer_move_assign zero ok j k other d = Inr d'" "service_inv pos_inf j d' (insert k A)"
      "waits j d' k = waits j d other" "expiry (timpl d' k) = expiry (timpl d other)" by auto
  have r: "timer_move_assign_from zero ok i s j k other d = Inr (tsched e, d')"
    using d'(1) c by (simp add: timer_move_assign_from_def timer_move_assign_def and_then_Inr_iff split: prod.splits)
  have f: "timpl d' x = timpl d x" if "x \<noteq> k" "x \<noteq> other" for x
    using d'(1) that ne by (auto simp: timer_move_assign_def and_then_Inr_iff timpl_move_members)
  have "waits i e other = []" using no_waits [OF e(2) k(4)] .
  then have "service_inv pos_inf i (d'\<lparr>tsched := tsched e\<rparr>) B"
    using e(3,4) f by (intro service_inv_members [OF e(2)]) (simp, metis timer_service.select_convs(2) timer_service.surjective timer_service.update_convs(1), simp)
  then have "service_inv pos_inf i (d'\<lparr>tsched := tsched e\<rparr>) (B - {k})"
    using e(4) by (intro service_inv_fewer) simp_all
  with r d' show ?thesis by blast
qed

section \<open>How long a blocking wait takes\<close>

text \<open>A clock that ticks in nanoseconds, as \<^verbatim>\<open>steady_clock\<close> does.\<close>

abbreviation ns :: nat where
  "ns \<equiv> 1000000000"

lemma total_ns:
  assumes "0 \<le> t"
  shows "total_seconds 1 ns t = Inr (t div 1000000000)" "total_microseconds 1 ns t = Inr (t div 1000)"
  using duration_cast_fraction [of 1000 1000000 t] assms
  by (simp_all add: total_seconds_def total_microseconds_def duration_cast_def Let_def chrono_gcd_eq sdiv_nonneg [of t ns, simplified])

lemma smod_nonneg: "0 \<le> (x :: int) \<Longrightarrow> x smod int c = x mod int c"
  by (cases "x = 0") (simp_all add: signed_modulo_int_def)

lemma div_mod_split:
  assumes "0 < (c :: int)"
  shows "t div (c * c * c) * c + t div c mod (c * c) div c = t div (c * c)"
proof -
  have "t div (c * c * c) = t div (c * c) div c" by (rule zdiv_zmult2_eq) (use assms in simp)
  moreover have "t div c mod (c * c) = c * (t div c div c mod c) + t div c mod c"
    by (rule zmod_zmult2_eq) (use assms in simp)
  moreover have "t div c div c = t div (c * c)"
    by (rule zdiv_zmult2_eq [symmetric]) (use assms in simp)
  ultimately show ?thesis using assms by simp
qed

lemma msec_split: "(t :: int) div 1000000000 * 1000 + t div 1000 mod 1000000 div 1000 = t div 1000000"
proof -
  have "(1000000000 :: int) = 1000 * 1000 * 1000" "(1000000 :: int) = 1000 * 1000" by simp_all
  then show ?thesis by (simp only: div_mod_split)
qed

lemma checked_nonneg: "0 \<le> x \<Longrightarrow> checked_long x = (if x < 2 ^ 31 then Inr x else Inl Signed_overflow)"
  by (simp add: checked_long_def)

lemma checked_sum:
  "0 \<le> a \<Longrightarrow> 0 \<le> b \<Longrightarrow>
    and_then (checked_long a) (\<lambda>x. and_then (checked_long (x + b)) g) = and_then (checked_long (a + b)) g"
  by (simp add: checked_long_def)

lemma timer_do_wait_eq:
  assumes t: "0 \<le> t" and s: "t div 1000000000 < 2 ^ 31"
  shows "timer_do_wait 1 ns t =
    (if t div 1000000 < 2 ^ 31 then Inr (if t div 1000000 = 0 then 1 else word_of_int (t div 1000000))
     else Inl Signed_overflow)"
proof -
  have l: "to_long (t div 1000000000) = t div 1000000000" using t s by (intro to_long_id) simp_all
  have u: "to_long (t div 1000 smod 1000000) = t div 1000 mod 1000000"
    using t smod_nonneg [of "t div 1000" 1000000] by (subst to_long_id) auto
  let ?a = "t div 1000000000 * 1000" and ?b = "t div 1000 mod 1000000 div 1000"
  have b: "0 \<le> ?b" "?b < 1000" "0 \<le> ?a" "?a + ?b = t div 1000000"
    using t by (simp, simp, simp, intro msec_split)
  have sd: "t div 1000 mod 1000000 sdiv 1000 = ?b" using sdiv_nonneg [of "t div 1000 mod 1000000" 1000] by simp
  have w: "(word_of_int (t div 1000000) :: u32) = 0 \<longleftrightarrow> t div 1000000 = 0" if "t div 1000000 < 2 ^ 31"
    using that t by (simp add: word_of_int_eq_0_iff) (auto dest: zdvd_imp_le)
  have "timer_do_wait 1 ns t = and_then (checked_long ?a) (\<lambda>a. and_then (checked_long (a + ?b)) (\<lambda>b.
      Inr (if word_of_int b = (0 :: u32) then 1 else word_of_int b)))"
    unfolding timer_do_wait_def total_ns [OF t] and_then.simps l u sleep_msec_def sd Let_def ..
  also have "\<dots> = and_then (checked_long (t div 1000000)) (\<lambda>b. Inr (if word_of_int b = (0 :: u32) then 1 else word_of_int b))"
    using checked_sum [OF b(3,1)] b(4) by simp
  also have "checked_long (t div 1000000) = (if t div 1000000 < 2 ^ 31 then Inr (t div 1000000) else Inl Signed_overflow)"
    using checked_nonneg t by simp
  finally show ?thesis using w by simp
qed

lemma time_subtract_nonneg: "0 \<le> a \<Longrightarrow> 0 \<le> b \<Longrightarrow> a \<le> TICKS_MAX \<Longrightarrow> b \<le> TICKS_MAX \<Longrightarrow> time_subtract a b = Inr (a - b)"
  by (simp add: time_subtract_def checked_def TICKS_MAX_def TICKS_MIN_def)

lemma div_1000_less: "m < c \<Longrightarrow> 0 < c \<Longrightarrow> m div 1000 < (c :: int)"
  by arith

lemma timer_wait_sleeps:
  "0 \<le> e \<Longrightarrow> e \<le> TICKS_MAX \<Longrightarrow> \<forall>now \<in> set clocks. 0 \<le> now \<and> now \<le> TICKS_MAX \<Longrightarrow>
    \<forall>now \<in> set clocks. (e - now) div 1000000 < 2 ^ 31 \<Longrightarrow>
    timer_wait 1 ns e clocks = Inr (\<exists>now \<in> set clocks. e \<le> now,
      map (\<lambda>now. if (e - now) div 1000000 = 0 then 1 else word_of_int ((e - now) div 1000000))
        (takeWhile (\<lambda>now. now < e) clocks))"
proof (induction clocks)
  case (Cons now clocks)
  have "time_subtract e now = Inr (e - now)" using Cons.prems by (intro time_subtract_nonneg) simp_all
  moreover have "(e - now) div 1000000000 < 2 ^ 31" if "now < e"
    using Cons.prems(4) that div_1000_less [of "(e - now) div 1000000" "2 ^ 31"]
      zdiv_zmult2_eq [of 1000 "e - now" 1000000] by simp
  ultimately show ?case using Cons.IH Cons.prems timer_do_wait_eq [of "e - now"] by auto
qed simp

text \<open>
  C23. A blocking wait ends at the first reading of the clock that is not before the expiry
  time, and never sooner: until then it sleeps each time for the whole milliseconds that are
  left, and for one where less is left. That is so while less than \<^verbatim>\<open>2^31\<close> milliseconds are
  left; when more are left, which is from 24.8 days on, the conversion of the seconds to
  milliseconds overflows a signed \<^verbatim>\<open>long\<close>.
\<close>

theorem blocking_wait_exact:
  assumes "0 \<le> e" "e \<le> TICKS_MAX" and "\<forall>now \<in> set clocks. 0 \<le> now \<and> now \<le> TICKS_MAX"
  shows "((\<forall>now \<in> set clocks. (e - now) div 1000000 < 2 ^ 31) \<longrightarrow>
      timer_wait 1 ns e clocks = Inr (\<exists>now \<in> set clocks. e \<le> now,
        map (\<lambda>now. if (e - now) div 1000000 = 0 then 1 else word_of_int ((e - now) div 1000000))
          (takeWhile (\<lambda>now. now < e) clocks))) \<and>
    (clocks \<noteq> [] \<and> 2 ^ 31 \<le> (e - hd clocks) div 1000000 \<and> (e - hd clocks) div 1000000000 < 2 ^ 31 \<longrightarrow>
      timer_wait 1 ns e clocks = Inl Signed_overflow)"
proof (intro conjI impI)
  assume c: "clocks \<noteq> [] \<and> 2 ^ 31 \<le> (e - hd clocks) div 1000000 \<and> (e - hd clocks) div 1000000000 < 2 ^ 31"
  then obtain now cs where cs: "clocks = now # cs" by (cases clocks) auto
  have "time_subtract e now = Inr (e - now)" using assms cs by (intro time_subtract_nonneg) simp_all
  moreover have "now < e" using c cs by (cases "e - now \<le> 0") (auto dest: zdiv_mono1 [of "e - now" 0 1000000])
  ultimately show "timer_wait 1 ns e clocks = Inl Signed_overflow"
    using c cs timer_do_wait_eq [of "e - now"] by auto
qed (use assms timer_wait_sleeps in blast)

text \<open>
  Expiry after 2.5 ms: a sleep of 2, one of 1, and the end. A wait of thirty days overflows.
\<close>

lemma blocking_wait_exact_witness:
  "timer_wait 1 ns 2500000 [0, 2000000, 2600000] = Inr (True, [2, 1]) \<and>
   timer_wait 1 ns 2592000000000000 [0] = Inl Signed_overflow"
  using blocking_wait_exact [of 2500000 "[0, 2000000, 2600000]"] blocking_wait_exact [of 2592000000000000 "[0]"]
  by (simp add: TICKS_MAX_def)

end
