(* ===== verification/Spec2Isabelle.thy ===== *)
theory Spec2Isabelle
  imports NetQueueThreads ServerBehaviour NetNode AsioChrono AsioConnect AsioStream AsioCopy AsioExecutor AsioNetworkText AsioResolverRun AsioStrand AsioBufferedStream AsioStreambuf AsioDeadlineTimer
begin

text \<open>
  A verification development for GNL, the Godot Network Library: a game server and a client
  library that exchange packets over TCP (and, half finished, UDP) with Asio.

  \<^bold>\<open>The program.\<close> A \<^verbatim>\<open>Packet\<close> is a command, a size and a body of bytes. A
  \<^verbatim>\<open>TCPConnection\<close> writes the packets of its outgoing queue one after the other, header
  then body, and reads headers and bodies into one packet that it copies to an incoming
  queue, all of it in completion handlers that run on the thread of an \<^verbatim>\<open>io_context\<close>. The
  application's thread posts packets to connections and takes packets off the incoming
  queue, a deque with two mutexes and a condition variable. The server keeps a registry of
  connections and a world of characters; the client has one connection, wrapped for Godot
  scripts by a node.

  \<^bold>\<open>Theories, in the order they are built, with the files under \<^verbatim>\<open>src/\<close> they model.\<close>
  \<^item> \<^verbatim>\<open>Prelude\<close>: machine integers and their bytes, operations that may have no defined
    result (\<open>fault\<close>, \<open>result\<close>, \<open>and_then\<close>, \<open>fold_result\<close>).
  \<^item> \<^verbatim>\<open>NetPacket\<close> (\<^verbatim>\<open>Common/include/NetPacket.h\<close>): the packet, its streaming operators,
    its header on the wire. Locale \<open>data_type\<close>: what the operators' templates need of a type,
    interpreted on 16, 32 and 64-bit integers.
  \<^item> \<^verbatim>\<open>NetQueue\<close>, \<^verbatim>\<open>NetQueueThreads\<close> (\<^verbatim>\<open>Common/include/NetQueue.h\<close>): each operation
    as a function (locale \<open>fifo\<close>, interpreted on both ends of the queue), and all of them
    as steps of threads on the mutexes and the condition variable.
  \<^item> \<^verbatim>\<open>AsioBuffer\<close>, \<^verbatim>\<open>AsioTransfer\<close> (\<^verbatim>\<open>commonlibs/asio\<close>: \<^verbatim>\<open>buffer.hpp\<close>,
    \<^verbatim>\<open>completion_condition.hpp\<close>, \<^verbatim>\<open>detail/consuming_buffers.hpp\<close>, \<^verbatim>\<open>impl/write.hpp\<close>,
    \<^verbatim>\<open>impl/read.hpp\<close>): the composed transfers the connections are written with. Locale
    \<open>buffer_walk\<close>, interpreted on the two walks over buffers; locale \<open>exact_transfer\<close>,
    the contract of a transfer that the connections use, interpreted on the transfers the
    composed operations make.
  \<^item> \<^verbatim>\<open>NetTCPConnection\<close>, \<^verbatim>\<open>TCPStream\<close> (\<^verbatim>\<open>Common/include/NetTCPConnection.h\<close>): one
    connection, every member and handler; then a writer, a reader and the bytes between them
    as a transition system over any \<open>exact_transfer\<close>.
  \<^item> \<^verbatim>\<open>NetUDP\<close> (\<^verbatim>\<open>Common/include/NetUDP.h\<close>): the datagram variant.
  \<^item> \<^verbatim>\<open>World\<close> (\<^verbatim>\<open>Server/src/World.cpp\<close>, \<^verbatim>\<open>Character.cpp\<close> and headers): characters,
    their map (locale \<open>key_map\<close>, the contract of the \<^verbatim>\<open>unordered_map\<close>), their broadcasts.
  \<^item> \<^verbatim>\<open>NetServerApp\<close> (\<^verbatim>\<open>Server/include/NetServerApp.h\<close>): registry, accepting, sends,
    processing loop, over the virtual functions of the derived class. Locale \<open>forgetful\<close>:
    what the sends need of \<^verbatim>\<open>OnClientDisconnect\<close>.
  \<^item> \<^verbatim>\<open>Server\<close>, \<^verbatim>\<open>ServerBehaviour\<close> (\<^verbatim>\<open>Server/include/Server.h\<close>, \<^verbatim>\<open>Server/src/Server.cpp\<close>,
    \<^verbatim>\<open>Server/src/Main.cpp\<close>): the handlers and their invariant (interpreting \<open>forgetful\<close>);
    what each does for its clients.
  \<^item> \<^verbatim>\<open>NetClient\<close> (\<^verbatim>\<open>Client/include/NetClient.h\<close>, \<^verbatim>\<open>Client.h\<close>) and \<^verbatim>\<open>NetNode\<close>
    (\<^verbatim>\<open>Client/include/GDNative.h\<close>, \<^verbatim>\<open>Client/src/GDNative.cpp\<close>): the client and the node.

  The program runs on the Asio under \<^verbatim>\<open>commonlibs/asio/include/asio\<close>, in its Windows
  configuration; of it are modelled, besides the transfers above:
  \<^item> \<^verbatim>\<open>AsioOpQueue\<close> (\<^verbatim>\<open>detail/op_queue.hpp\<close>), \<^verbatim>\<open>AsioTimerQueue\<close>
    (\<^verbatim>\<open>detail/timer_queue.hpp\<close>), \<^verbatim>\<open>AsioChrono\<close> (\<^verbatim>\<open>detail/chrono_time_traits.hpp\<close>,
    \<^verbatim>\<open>detail/impl/timer_queue_set.ipp\<close>): the intrusive queues, the heap of timers, times.
  \<^item> \<^verbatim>\<open>AsioIocp\<close>, \<^verbatim>\<open>AsioIocpRun\<close> (\<^verbatim>\<open>detail/win_iocp_io_context.hpp\<close>, its two
    implementation files): the event loop on a completion port, first its operations, then any
    number of threads inside it as a step relation. The client's session runs on it.
  \<^item> \<^verbatim>\<open>AsioDeadlineTimer\<close> (\<^verbatim>\<open>detail/deadline_timer_service.hpp\<close>): timers over the loop and its
    timer queue, and the blocking wait.
  \<^item> \<^verbatim>\<open>AsioExecutor\<close> (\<^verbatim>\<open>io_context.hpp\<close>, \<^verbatim>\<open>impl/io_context.hpp\<close>, \<^verbatim>\<open>impl/post.hpp\<close>,
    \<^verbatim>\<open>detail/call_stack.hpp\<close>): submission of functions to a loop.
  \<^item> \<^verbatim>\<open>AsioSocketOps\<close> (\<^verbatim>\<open>detail/impl/socket_ops.ipp\<close>), \<^verbatim>\<open>AsioSocketService\<close>,
    \<^verbatim>\<open>AsioSocketStart\<close> (\<^verbatim>\<open>detail/impl/win_iocp_socket_service_base.ipp\<close>, the connect and
    accept operations), \<^verbatim>\<open>AsioStream\<close> (\<^verbatim>\<open>detail/buffer_sequence_adapter.hpp\<close>, the header
    of the service, the receive, send and wait operations): sockets, from the system's calls to
    a composed transfer. Locale \<open>transport\<close>, interpreted on receives and sends, connects them
    with \<open>exact_transfer\<close>.
  \<^item> \<^verbatim>\<open>AsioConnect\<close> (\<^verbatim>\<open>impl/connect.hpp\<close>): the composed connect. \<^verbatim>\<open>AsioCopy\<close>
    (\<^verbatim>\<open>buffer.hpp\<close>): copying between buffers.
  \<^item> \<^verbatim>\<open>AsioDynamicBuffer\<close> (\<^verbatim>\<open>buffer.hpp\<close>): dynamic buffers over strings and vectors. Locale
    \<open>dynamic_buffer\<close>, what reading into one needs, interpreted on both interfaces.
    \<^verbatim>\<open>AsioReadUntil\<close> (\<^verbatim>\<open>impl/read_until.hpp\<close>): reading until a character, a string, a regular
    expression or what a function finds, blocking and composed. Locale \<open>search\<close>, what the loop needs of a
    search, interpreted on characters and strings; locale \<open>until\<close>, both together.
    \<^verbatim>\<open>AsioSyncTransfer\<close> (\<^verbatim>\<open>impl/read.hpp\<close>, \<^verbatim>\<open>impl/write.hpp\<close>): the blocking transfers, and
    reading into and writing dynamic buffers.
    \<^verbatim>\<open>AsioStreambuf\<close> (\<^verbatim>\<open>basic_streambuf.hpp\<close>): stream buffers, interpreting \<open>dynamic_buffer\<close> and \<open>until\<close>.
  \<^item> \<^verbatim>\<open>AsioBufferedStream\<close> (\<^verbatim>\<open>buffered_read_stream.hpp\<close>, \<^verbatim>\<open>buffered_write_stream.hpp\<close>, their
    implementation files, \<^verbatim>\<open>detail/buffered_stream_storage.hpp\<close>): buffered streams, as sequences of operations.
  \<^item> \<^verbatim>\<open>AsioStrand\<close> (\<^verbatim>\<open>detail/strand_executor_service.hpp\<close>, \<^verbatim>\<open>detail/strand_service.hpp\<close> and their
    implementation files): both kinds of strands as a step relation of threads, and their services.
  \<^item> \<^verbatim>\<open>AsioAddress\<close>, \<^verbatim>\<open>AsioNetwork\<close>, \<^verbatim>\<open>AsioNetworkText\<close>, \<^verbatim>\<open>AsioEndpoint\<close>
    (\<^verbatim>\<open>ip/impl/address*.ipp\<close>, \<^verbatim>\<open>ip/impl/network_v*.ipp\<close>, the iterators and ranges of
    addresses, \<^verbatim>\<open>ip/detail/impl/endpoint.ipp\<close>). Addresses are instances of \<open>linorder\<close> by the
    order of the code; locale \<open>prefix_space\<close>, the arithmetic of blocks of addresses, is
    interpreted on both versions.
  \<^item> \<^verbatim>\<open>AsioResolver\<close>, \<^verbatim>\<open>AsioResolverRun\<close> (\<^verbatim>\<open>ip/basic_resolver*.hpp\<close>,
    \<^verbatim>\<open>detail/resolver_service.hpp\<close>, \<^verbatim>\<open>detail/impl/resolver_service_base.ipp\<close>, the two resolve
    operations): blocking resolution, its results and their iterators, and connecting to them;
    asynchronous resolution as steps of two event loops.

  \<^bold>\<open>Correspondence.\<close> A class is a record of its members, a member function a function of that
  record under the same name (with the class as a prefix where two classes share it); a
  lambda handed to Asio is a function of its own (\<open>on_header_written\<close>, \<open>run_send\<close>, ...), and
  the operation that will call it is recorded in the state. Shared pointers are keys into a
  store. What C++ leaves undefined, and calls of \<^verbatim>\<open>std::terminate\<close>, are faults, so a
  theorem that an operation returns says that it stays inside the language. Lines printed
  are logged where a handler prints them.

  \<^bold>\<open>What is shown.\<close> Packets: round trips and exactly when a read is out of range. The queue:
  mutual exclusion, linearizability, freedom from deadlock, and the wakeup that \<^verbatim>\<open>wait()\<close>
  can lose. Transfers: exactness, order, termination. Connections: no handler faults, at
  most one operation in each direction, and end to end the receiver gets what a prefix of the
  bytes sent encodes, which is a prefix of what was sent if every header gives the length of
  its body, with runs that deliver everything. The server: no packet makes it follow a null
  pointer, which packets make it read out of range or overflow a signed difference, when its
  main loop blocks, and the effect of each handler on connections, registry and world. The client and the node: one session per client object,
  what scripts write is what scripts read, and when strings overrun their buffer. The
  theorems of kind error pin down defects: stale bodies and sizes, truncated IDs, datagrams
  taken for what they are not.

  Of Asio: the heap of timers stays in bounds and ordered; every operation of the event loop is
  in one place until it is completed, once, and counted as work until then; a posted function
  is never called by the call that posts it; a wait on a timer is due exactly at the expiry time
  of the timer, and a blocking wait does not end before. A native socket has one owner; starting an
  operation is a run of the event loop, and so is an accept that starts itself again; composed transfers on a socket refine what the
  connections assume of transfers, are exact and end; the composed connect agrees with the
  blocking one and tries the same endpoints, as do the composed transfers and \<^verbatim>\<open>read_until\<close> with theirs, but for a read of no bytes; the
  position that \<^verbatim>\<open>read_until\<close> returns ends the first match; what is read into a dynamic buffer is
  appended, what is written from it is consumed. A buffered stream passes on every byte in order, and once unless a flush throws, after which what
  it sent is sent again.
  The functions of a strand never overlap, start in order and are not forgotten. Copies between buffers are copies between flat memories. Addresses keep one
  version, networks are the blocks of their prefixes and print and parse as themselves, the loop
  over the hosts of a network ends. Walking the results of a resolution stays inside their
  vector unless the answer had no IP address, and an asynchronous resolution calls its handler
  once, with exactly what the system answered or with the cancellation.

  \<^bold>\<open>Bounds and fuel.\<close> \<open>udp_drain\<close> takes a number of completions, twice the number of packets
  in its theorem, which is enough as each packet takes at most two; \<open>process_loop\<close> ends by
  its budget, \<^verbatim>\<open>SIZE_MAX\<close>. Transfers are driven by finite scripts of completions, and
  \<open>composed_transfer_ends\<close> and \<open>socket_transfer_ends\<close> say how long a script is enough. The
  composed connect takes one step of fuel more than there are endpoints. Blocking socket calls
  take the answers of their rounds. \<open>main_iteration\<close> says \<open>None\<close> where the
  program is still waiting. Loops over linked lists, buffers, hosts and results are
  \<open>partial_function\<close>s whose theorems say that they return. Counters are words: \<open>outstanding_work\<close>
  wraps at 32 bits, so theorems that need a nonzero count assume fewer live operations than
  that. Everything else is structural or has a measure.

  \<^bold>\<open>Not modelled.\<close> The operating system: what its calls answer is a parameter, for blocking
  calls, completions, parsing and printing of addresses and name resolution alike. Asio on
  other platforms (the scheduler, reactors, \<^verbatim>\<open>getaddrinfo\<close> emulation, Windows Runtime branches),
  its deprecated and purely forwarding overloads, allocation of handlers, shutdown and fork
  notification of the resolver service, and the matching of regular expressions
  (a parameter). The library's remaining parts the program does not use: thread pools, coroutines
  and futures, TLS, serial ports, signal sets, files and pipes, composed transfers at an offset.
  The registration of the node with Godot, lifetimes of objects that handlers refer to by raw
  pointer, the moment a C++ object is destroyed, and data races between the application's
  thread and the handlers (each member function is one step).
\<close>

end
